(* ===== verification/FgPrelude.thy ===== *)
theory FgPrelude
  imports Main "HOL-Library.Sublist" "HOL-Library.Word" "HOL-Library.Char_ord"
begin

text \<open>
  What every component of the feeder shares: results with an error value, the parts of
  the C++ standard library the sources use on strings (\<open>std::string::find\<close>,
  \<open>std::search\<close>, \<open>substr\<close>, \<open>std::to_string\<close>, \<open>std::stoi\<close>), C++'s truncating
  integer division, and the generic lemmas about them. A C++ \<open>char\<close> or \<open>uint8_t\<close> is a
  HOL \<open>char\<close>, which has exactly the 256 values of a byte.
\<close>

named_theorems result_simps \<open>case analysis of results with errors\<close>
named_theorems str_simps \<open>searching and splitting byte strings\<close>

section \<open>Results with errors\<close>

text \<open>A throwing C++ expression is a value \<open>Inl e\<close>; \<open>rbind\<close> is sequencing.\<close>

definition rbind :: "'e + 'a \<Rightarrow> ('a \<Rightarrow> 'e + 'b) \<Rightarrow> 'e + 'b" where
  "rbind m f = (case m of Inl e \<Rightarrow> Inl e | Inr x \<Rightarrow> f x)"

lemma rbind_Inl [simp]: "rbind (Inl e) f = Inl e"
  and rbind_Inr [simp]: "rbind (Inr x) f = f x"
  by (simp_all add: rbind_def)

lemma rbind_eq_Inr [result_simps]: "rbind m f = Inr y \<longleftrightarrow> (\<exists>x. m = Inr x \<and> f x = Inr y)"
  by (cases m) auto

lemma rbind_eq_Inl [result_simps]:
  "rbind m f = Inl e \<longleftrightarrow> m = Inl e \<or> (\<exists>x. m = Inr x \<and> f x = Inl e)"
  by (cases m) auto

lemma rbind_cong [fundef_cong]:
  "m = m' \<Longrightarrow> (\<And>x. m' = Inr x \<Longrightarrow> f x = g x) \<Longrightarrow> rbind m f = rbind m' g"
  by (cases m') auto

definition is_ok :: "'e + 'a \<Rightarrow> bool" where
  "is_ok r = (case r of Inl _ \<Rightarrow> False | Inr _ \<Rightarrow> True)"

lemma is_ok_simps [simp]: "is_ok (Inr x)" "\<not> is_ok (Inl e)"
  by (simp_all add: is_ok_def)

section \<open>Searching strings\<close>

text \<open>
  \<open>find_sub p s\<close> is \<open>s.find(p)\<close> and \<open>std::search\<close> for the pattern \<open>p\<close>: the index of the
  first occurrence; \<open>None\<close> is \<open>npos\<close> (for \<open>std::search\<close>, the end iterator).
\<close>

fun find_sub :: "'a list \<Rightarrow> 'a list \<Rightarrow> nat option" where
  "find_sub p [] = (if p = [] then Some 0 else None)"
| "find_sub p (x # s) = (if prefix p (x # s) then Some 0 else map_option Suc (find_sub p s))"

definition find_char :: "'a \<Rightarrow> 'a list \<Rightarrow> nat option" where
  "find_char c s = find_sub [c] s"

text \<open>\<open>s.substr(pos, n)\<close>, for \<open>pos \<le> s.size()\<close>.\<close>

definition substr :: "'a list \<Rightarrow> nat \<Rightarrow> nat \<Rightarrow> 'a list" where
  "substr s pos n = take n (drop pos s)"

lemma find_sub_Some_prefix: "find_sub p s = Some i \<Longrightarrow> prefix p (drop i s)"
  by (induction p s arbitrary: i rule: find_sub.induct) (auto split: if_splits)

lemma find_sub_Some_len: "find_sub p s = Some i \<Longrightarrow> i + length p \<le> length s"
  by (induction p s arbitrary: i rule: find_sub.induct)
     (auto split: if_splits dest: prefix_length_le)

lemma find_sub_first: "find_sub p s = Some i \<Longrightarrow> j < i \<Longrightarrow> \<not> prefix p (drop j s)"
proof (induction p s arbitrary: i j rule: find_sub.induct)
  case (2 p x s)
  then show ?case by (cases j) (auto split: if_splits)
qed (auto split: if_splits)

lemma find_sub_None: "find_sub p s = None \<Longrightarrow> \<not> prefix p (drop j s)"
proof (induction p s arbitrary: j rule: find_sub.induct)
  case (2 p x s)
  then show ?case by (cases j) (auto split: if_splits)
qed (auto split: if_splits)

lemma find_sub_None_iff: "find_sub p s = None \<longleftrightarrow> \<not> sublist p s"
proof
  assume n: "find_sub p s = None"
  show "\<not> sublist p s"
  proof
    assume "sublist p s"
    then obtain a b where "s = a @ p @ b" by (auto simp: sublist_def)
    then have "prefix p (drop (length a) s)" by simp
    with find_sub_None [OF n] show False by blast
  qed
next
  assume n: "\<not> sublist p s"
  show "find_sub p s = None"
  proof (rule ccontr)
    assume "find_sub p s \<noteq> None"
    then obtain i where "find_sub p s = Some i" by auto
    then have "prefix p (drop i s)" by (rule find_sub_Some_prefix)
    then obtain t where "drop i s = p @ t" by (auto simp: prefix_def)
    then have "s = take i s @ p @ t" by (metis append_take_drop_id)
    with n show False by (metis sublist_appendI)
  qed
qed

lemma find_sub_append [str_simps]:
  "find_sub p s = Some i \<Longrightarrow> find_sub p (s @ t) = Some i"
proof (induction p s arbitrary: i rule: find_sub.induct)
  case (1 p)
  then show ?case by (cases t) (auto split: if_splits)
next
  case (2 p x s)
  show ?case
  proof (cases "prefix p (x # s)")
    case True
    then have "prefix p ((x # s) @ t)" by (rule prefix_prefix)
    with 2 True show ?thesis by simp
  next
    case False
    with 2 obtain k where k: "find_sub p s = Some k" "i = Suc k" by auto
    from find_sub_Some_len [OF k(1)] have "length p \<le> length (x # s)" by simp
    with False have "\<not> prefix p ((x # s) @ t)"
      by (metis prefix_append prefix_length_le append_prefixD le_antisym
          prefix_order.eq_iff length_append_singleton prefix_length_prefix prefixI)
    with 2 False k show ?thesis by simp
  qed
qed

lemma find_sub_split:
  assumes "find_sub p s = Some i"
  shows "s = take i s @ p @ drop (i + length p) s"
proof -
  from find_sub_Some_prefix [OF assms] obtain t where t: "drop i s = p @ t"
    by (auto simp: prefix_def)
  then have "t = drop (length p) (drop i s)" by simp
  then have "t = drop (i + length p) s" by (simp add: add.commute)
  with t show ?thesis by (metis append_take_drop_id)
qed

lemma find_char_Nil [simp]: "find_char c [] = None"
  and find_char_Cons [simp]:
    "find_char c (x # s) = (if x = c then Some 0 else map_option Suc (find_char c s))"
  by (auto simp: find_char_def)

lemma find_char_None_iff [str_simps]: "find_char c s = None \<longleftrightarrow> c \<notin> set s"
  by (induction s) auto

lemma find_char_append [str_simps]:
  "c \<notin> set s \<Longrightarrow> find_char c (s @ c # t) = Some (length s)"
  by (induction s) auto

lemma find_char_append_notin [str_simps]:
  "c \<notin> set s \<Longrightarrow> find_char c (s @ t) = map_option (\<lambda>i. length s + i) (find_char c t)"
  by (induction s; cases "find_char c t") auto

lemma find_char_less: "find_char c s = Some i \<Longrightarrow> i < length s"
  using find_sub_Some_len [of "[c]" s i] by (simp add: find_char_def)

text \<open>
  The scanning loop \<open>for (; i != end && P( *i); ++i) result.push_back( *i)\<close>: what it has
  collected and where the iterator stops.
\<close>

fun push_while :: "('a \<Rightarrow> bool) \<Rightarrow> 'a list \<Rightarrow> 'a list \<Rightarrow> 'a list \<times> 'a list" where
  "push_while P acc [] = (acc, [])"
| "push_while P acc (c # s) = (if P c then push_while P (acc @ [c]) s else (acc, c # s))"

lemma push_while_eq: "push_while P acc s = (acc @ takeWhile P s, dropWhile P s)"
  by (induction s arbitrary: acc) auto

section \<open>Decimal numbers\<close>

text \<open>\<open>isdigit\<close> and the value of a decimal digit; \<open>std::to_string\<close> of an unsigned value.\<close>

definition dec_digit :: "char \<Rightarrow> bool" where
  "dec_digit c \<longleftrightarrow> 48 \<le> (of_char c :: nat) \<and> (of_char c :: nat) \<le> 57"

definition digit_val :: "char \<Rightarrow> nat" where
  "digit_val c = of_char c - 48"

definition digit_chr :: "nat \<Rightarrow> char" where
  "digit_chr d = char_of (48 + d)"

fun show_nat :: "nat \<Rightarrow> string" where
  "show_nat n = (if n < 10 then [digit_chr n] else show_nat (n div 10) @ [digit_chr (n mod 10)])"

declare show_nat.simps [simp del]

definition show_int :: "int \<Rightarrow> string" where
  "show_int i = (if i < 0 then CHR ''-'' # show_nat (nat (- i)) else show_nat (nat i))"

definition read_dec :: "string \<Rightarrow> nat" where
  "read_dec ds = foldl (\<lambda>r c. 10 * r + digit_val c) 0 ds"

lemma of_char_digit_chr: "d < 10 \<Longrightarrow> of_char (digit_chr d) = (48 + d :: nat)"
  by (simp add: digit_chr_def)

lemma dec_digit_chr [simp]: "d < 10 \<Longrightarrow> dec_digit (digit_chr d)"
  by (simp add: dec_digit_def of_char_digit_chr)

lemma digit_val_chr [simp]: "d < 10 \<Longrightarrow> digit_val (digit_chr d) = d"
  by (simp add: digit_val_def of_char_digit_chr)

lemma digit_chr_val [simp]: "dec_digit c \<Longrightarrow> digit_chr (digit_val c) = c"
  by (simp add: dec_digit_def digit_val_def digit_chr_def)

lemma show_nat_digits: "c \<in> set (show_nat n) \<Longrightarrow> dec_digit c"
proof (induction n rule: show_nat.induct)
  case (1 n)
  then show ?case by (subst (asm) (2) show_nat.simps) (auto split: if_splits)
qed

lemma show_nat_nonempty [simp]: "show_nat n \<noteq> []"
  by (subst show_nat.simps) simp

lemma length_show_nat: "0 < k \<Longrightarrow> length (show_nat n) \<le> k \<longleftrightarrow> n < 10 ^ k"
proof (induction n arbitrary: k rule: show_nat.induct)
  case (1 n)
  obtain j where j: "k = Suc j" using 1(2) by (cases k) auto
  show ?case
  proof (cases "n < 10")
    case True
    then show ?thesis using j by (subst show_nat.simps) (simp add: less_le_trans [OF True])
  next
    case False
    show ?thesis
    proof (cases j)
      case 0
      have "1 \<le> length (show_nat (n div 10))" using show_nat_nonempty [of "n div 10"]
        by (cases "show_nat (n div 10)") auto
      then show ?thesis using False j 0 by (subst show_nat.simps) simp
    next
      case (Suc i)
      have "length (show_nat (n div 10)) \<le> j \<longleftrightarrow> n div 10 < 10 ^ j" using 1(1) [OF False, of j] Suc by simp
      also have "\<dots> \<longleftrightarrow> n < 10 ^ k" by (simp add: j div_less_iff_less_mult mult.commute)
      finally show ?thesis using False j by (subst show_nat.simps) simp
    qed
  qed
qed

lemma read_dec_snoc [simp]: "read_dec (ds @ [c]) = 10 * read_dec ds + digit_val c"
  by (simp add: read_dec_def)

lemma read_dec_Cons: "read_dec (c # s) = digit_val c * 10 ^ length s + read_dec s"
  by (induction s rule: rev_induct) (simp_all add: read_dec_def algebra_simps)

lemma read_dec_Nil [simp]: "read_dec [] = 0"
  by (simp add: read_dec_def)

lemma read_dec_show_nat [simp]: "read_dec (show_nat n) = n"
proof (induction n rule: show_nat.induct)
  case (1 n)
  then show ?case by (subst show_nat.simps) (auto simp: read_dec_def)
qed

lemma takeWhile_show_nat:
  "(\<And>c. s \<noteq> [] \<Longrightarrow> c = hd s \<Longrightarrow> \<not> dec_digit c) \<Longrightarrow> takeWhile dec_digit (show_nat n @ s) = show_nat n"
  by (cases s) (auto simp: takeWhile_append2 show_nat_digits takeWhile_append1)

text \<open>
  \<open>std::stoi\<close> (\<open>strtol\<close> in base 10): leading white space is skipped, a sign is allowed, the
  longest run of digits is read, and what follows is ignored. No digit is
  \<open>std::invalid_argument\<close>; a value outside \<open>int\<close> is \<open>std::out_of_range\<close>.
\<close>

datatype stoi_error = InvalidArgument | OutOfRange

definition is_space :: "char \<Rightarrow> bool" where
  "is_space c \<longleftrightarrow> (of_char c :: nat) = 32 \<or> (9 \<le> (of_char c :: nat) \<and> (of_char c :: nat) \<le> 13)"

definition stoi :: "string \<Rightarrow> stoi_error + int" where
  "stoi s =
     (let t = dropWhile is_space s;
          neg = (t \<noteq> [] \<and> hd t = CHR ''-'');
          u = (if t \<noteq> [] \<and> (hd t = CHR ''-'' \<or> hd t = CHR ''+'') then tl t else t);
          ds = takeWhile dec_digit u;
          v = (if neg then - int (read_dec ds) else int (read_dec ds))
      in if ds = [] then Inl InvalidArgument
         else if v < - 2147483648 \<or> 2147483647 < v then Inl OutOfRange
         else Inr v)"

lemma dec_digit_not_space: "dec_digit c \<Longrightarrow> \<not> is_space c"
  by (auto simp: dec_digit_def is_space_def)

lemma dec_digit_not_sign: "dec_digit c \<Longrightarrow> c \<noteq> CHR ''-'' \<and> c \<noteq> CHR ''+''"
  by (auto simp: dec_digit_def)

lemma stoi_digits:
  assumes "ds \<noteq> []" and "\<forall>c\<in>set ds. dec_digit c"
    and "s = [] \<or> \<not> dec_digit (hd s)" and "int (read_dec ds) \<le> 2147483647"
  shows "stoi (ds @ s) = Inr (int (read_dec ds))"
proof -
  obtain d ds' where ds: "ds = d # ds'" using assms(1) by (cases ds) auto
  have d: "dec_digit d" using assms(2) ds by simp
  have tw: "takeWhile dec_digit (ds @ s) = ds"
    using assms(2,3) by (cases s) (auto simp: takeWhile_append1 takeWhile_append2)
  have "dropWhile is_space (ds @ s) = ds @ s"
    using ds d dec_digit_not_space by simp
  then show ?thesis
    using tw ds dec_digit_not_sign [OF d] assms(4) by (simp add: stoi_def Let_def del: takeWhile.simps)
qed

lemma stoi_show_nat:
  "n \<le> 2147483647 \<Longrightarrow> s = [] \<or> \<not> dec_digit (hd s) \<Longrightarrow> stoi (show_nat n @ s) = Inr (int n)"
  using stoi_digits [of "show_nat n" s] by (auto intro: show_nat_digits)

section \<open>C++ integer division\<close>

text \<open>\<open>a / b\<close> and \<open>a % b\<close> on signed integers truncate towards zero.\<close>

definition cdiv :: "int \<Rightarrow> int \<Rightarrow> int" where
  "cdiv a b = sgn a * sgn b * (\<bar>a\<bar> div \<bar>b\<bar>)"

definition cmod :: "int \<Rightarrow> int \<Rightarrow> int" where
  "cmod a b = a - cdiv a b * b"

lemma cdiv_nonneg [simp]: "0 \<le> a \<Longrightarrow> 0 < b \<Longrightarrow> cdiv a b = a div b"
  by (cases "a = 0") (simp_all add: cdiv_def)

lemma cmod_nonneg [simp]: "0 \<le> a \<Longrightarrow> 0 < b \<Longrightarrow> cmod a b = a mod b"
  by (simp add: cmod_def minus_div_mult_eq_mod)

lemma cdiv_cmod: "cdiv a b * b + cmod a b = a"
  by (simp add: cmod_def)

lemma cdiv_neg: "a < 0 \<Longrightarrow> 0 < b \<Longrightarrow> cdiv a b = - ((- a) div b)"
  by (simp add: cdiv_def)

lemma cmod_neg:
  assumes "a < 0" and "0 < b"
  shows "cmod a b = - ((- a) mod b)"
proof -
  have "(- a) mod b = - a - (- a) div b * b"
    by (rule minus_div_mult_eq_mod [symmetric])
  moreover have "cmod a b = a + (- a) div b * b"
    using assms by (simp add: cmod_def cdiv_neg)
  ultimately show ?thesis by simp
qed

lemma cmod_bounds:
  assumes "0 < b"
  shows "- b < cmod a b \<and> cmod a b < b"
proof (cases "a < 0")
  case True
  then show ?thesis
    using pos_mod_bound [OF assms, of "- a"] pos_mod_sign [OF assms, of "- a"]
    by (simp only: cmod_neg [OF True assms]) linarith
next
  case False
  then show ?thesis
    using assms pos_mod_bound [OF assms, of a] pos_mod_sign [OF assms, of a] by simp
qed

end
