(* ===== verification/HttpTypes.thy ===== *)
theory HttpTypes
  imports FgPrelude
begin

text \<open>
  The data of the HTTP client \<open>src/RPI/SystemController/HTTPRequest.hpp\<close> (lines 56-177) and
  its character classes and digit conversions (lines 495-585). The two exception classes and
  \<open>std::system_error\<close> / \<open>std::length_error\<close> are the constructors of \<open>http_error\<close>.
\<close>

section \<open>Exceptions, protocol and URI\<close>

datatype http_error =
    RequestError string
  | ResponseError string
  | SystemError int string
  | LengthError

datatype internet_protocol = V4 | V6

record uri =
  scheme :: string
  user :: string
  password :: string
  host :: string
  port :: string
  path :: string
  query :: string
  fragment :: string

definition empty_uri :: uri where
  "empty_uri = \<lparr>scheme = [], user = [], password = [], host = [], port = [], path = [],
     query = [], fragment = []\<rparr>"

record http_version =
  major :: "16 word"
  minor :: "16 word"

record status =
  httpVersion :: http_version
  code :: "16 word"
  reason :: string

type_synonym header_field = "string \<times> string"
type_synonym header_fields = "header_field list"

record response =
  status :: status
  headerFields :: header_fields
  body :: "char list"

text \<open>
  A default-constructed \<open>Response\<close>. The integers of its status are uninitialised in the
  source; the model takes zero for them.
\<close>

definition empty_response :: response where
  "empty_response = \<lparr>status = \<lparr>httpVersion = \<lparr>major = 0, minor = 0\<rparr>, code = 0, reason = []\<rparr>,
     headerFields = [], body = []\<rparr>"

section \<open>Character classes\<close>

abbreviation byte :: "char \<Rightarrow> nat" where
  "byte c \<equiv> of_char c"

definition isWhiteSpaceChar :: "char \<Rightarrow> bool" where
  "isWhiteSpaceChar c \<longleftrightarrow> byte c = 0x20 \<or> byte c = 0x09"

definition isDigitChar :: "char \<Rightarrow> bool" where
  "isDigitChar c \<longleftrightarrow> byte c \<ge> 0x30 \<and> byte c \<le> 0x39"

definition isAlphaChar :: "char \<Rightarrow> bool" where
  "isAlphaChar c \<longleftrightarrow>
     (byte c \<ge> 0x61 \<and> byte c \<le> 0x7A) \<or> (byte c \<ge> 0x41 \<and> byte c \<le> 0x5A)"

definition isTokenChar :: "char \<Rightarrow> bool" where
  "isTokenChar c \<longleftrightarrow>
     byte c = 0x21 \<or> byte c = 0x23 \<or> byte c = 0x24 \<or> byte c = 0x25 \<or> byte c = 0x26 \<or>
     byte c = 0x27 \<or> byte c = 0x2A \<or> byte c = 0x2B \<or> byte c = 0x2D \<or> byte c = 0x2E \<or>
     byte c = 0x5E \<or> byte c = 0x5F \<or> byte c = 0x60 \<or> byte c = 0x7C \<or> byte c = 0x7E \<or>
     isDigitChar c \<or> isAlphaChar c"

definition isVisibleChar :: "char \<Rightarrow> bool" where
  "isVisibleChar c \<longleftrightarrow> byte c \<ge> 0x21 \<and> byte c \<le> 0x7E"

definition isObsoleteTextChar :: "char \<Rightarrow> bool" where
  "isObsoleteTextChar c \<longleftrightarrow> byte c \<ge> 0x80 \<and> byte c \<le> 0xFF"

text \<open>The loop condition \<open>parseReasonPhrase\<close> and \<open>parseFieldValue\<close> share.\<close>

abbreviation isTextChar :: "char \<Rightarrow> bool" where
  "isTextChar c \<equiv> isWhiteSpaceChar c \<or> isVisibleChar c \<or> isObsoleteTextChar c"

lemmas char_class_defs =
  isWhiteSpaceChar_def isDigitChar_def isAlphaChar_def isTokenChar_def isVisibleChar_def
  isObsoleteTextChar_def

lemma token_visible: "isTokenChar c \<Longrightarrow> isVisibleChar c"
  by (auto simp: char_class_defs)

lemma byte_lt: "byte c < 256"
  by simp

lemma text_char_iff: "isTextChar c \<longleftrightarrow> byte c = 9 \<or> (byte c \<ge> 0x20 \<and> byte c \<noteq> 0x7F)"
  using byte_lt [of c] by (simp only: char_class_defs) linarith

lemma digit_is_dec [simp]: "isDigitChar c \<longleftrightarrow> dec_digit c"
  by (simp add: isDigitChar_def dec_digit_def)

fun skipWhiteSpaces :: "string \<Rightarrow> string" where
  "skipWhiteSpaces [] = []"
| "skipWhiteSpaces (c # s) = (if \<not> isWhiteSpaceChar c then c # s else skipWhiteSpaces s)"

lemma skipWhiteSpaces_eq: "skipWhiteSpaces s = dropWhile isWhiteSpaceChar s"
  by (induction s) auto

text \<open>The recurring \<open>if (i == end || *i++ != c) throw e\<close>, for one character and for several.\<close>

definition expect :: "http_error \<Rightarrow> char \<Rightarrow> string \<Rightarrow> http_error + string" where
  "expect e c s = (case s of [] \<Rightarrow> Inl e | x # t \<Rightarrow> if x \<noteq> c then Inl e else Inr t)"

fun expect_all :: "http_error \<Rightarrow> string \<Rightarrow> string \<Rightarrow> http_error + string" where
  "expect_all e [] s = Inr s"
| "expect_all e (c # cs) s = rbind (expect e c s) (expect_all e cs)"

lemma expect_eq_Inr [result_simps]: "expect e c s = Inr t \<longleftrightarrow> s = c # t"
  by (cases s) (auto simp: expect_def)

lemma expect_eq_Inl [result_simps]: "expect e c s = Inl x \<longleftrightarrow> x = e \<and> (\<forall>t. s \<noteq> c # t)"
  by (cases s) (auto simp: expect_def)

lemma expect_Cons [simp]: "expect e c (c # t) = Inr t"
  by (simp add: expect_def)

lemma expect_all_eq_Inr [result_simps]: "expect_all e cs s = Inr t \<longleftrightarrow> s = cs @ t"
  by (induction cs arbitrary: s) (auto simp: result_simps)

lemma expect_all_eq_Inl [result_simps]:
  "expect_all e cs s = Inl x \<longleftrightarrow> x = e \<and> (\<forall>t. s \<noteq> cs @ t)"
  by (induction cs arbitrary: s) (auto simp: result_simps)

lemma expect_all_append [simp]: "expect_all e cs (cs @ t) = Inr t"
  by (simp add: result_simps)

section \<open>Digits\<close>

text \<open>
  The template parameter \<open>T\<close> (an unsigned type) is the word type \<open>'w\<close>: \<open>uint16_t\<close> for the
  status line, \<open>size_t\<close> for lengths.
\<close>

definition digitToUint :: "char \<Rightarrow> http_error + 'w::len word" where
  "digitToUint c =
     (if byte c \<ge> 0x30 \<and> byte c \<le> 0x39 then Inr (of_nat (byte c - 0x30))
      else Inl (ResponseError ''Invalid digit''))"

definition hexDigitToUint :: "char \<Rightarrow> http_error + 'w::len word" where
  "hexDigitToUint c =
     (if byte c \<ge> 0x30 \<and> byte c \<le> 0x39 then Inr (of_nat (byte c - 0x30))
      else if byte c \<ge> 0x41 \<and> byte c \<le> 0x46 then Inr (of_nat (byte c - 0x41) + 10)
      else if byte c \<ge> 0x61 \<and> byte c \<le> 0x66 then Inr (of_nat (byte c - 0x61) + 10)
      else Inl (ResponseError ''Invalid hex digit''))"

lemma digitToUint_digit: "dec_digit c \<Longrightarrow> digitToUint c = Inr (of_nat (digit_val c))"
  by (simp add: digitToUint_def dec_digit_def digit_val_def)

lemma digitToUint_not: "\<not> dec_digit c \<Longrightarrow> digitToUint c = Inl (ResponseError ''Invalid digit'')"
  by (auto simp: digitToUint_def dec_digit_def)

section \<open>Numbers in header fields and chunk headers\<close>

fun uintLoop :: "'w::len word \<Rightarrow> string \<Rightarrow> http_error + 'w word" where
  "uintLoop r [] = Inr r"
| "uintLoop r (c # s) = rbind (digitToUint c) (\<lambda>d. uintLoop (10 * r + d) s)"

definition stringToUint :: "string \<Rightarrow> http_error + 'w::len word" where
  "stringToUint s = uintLoop 0 s"

fun hexLoop :: "'w::len word \<Rightarrow> string \<Rightarrow> http_error + 'w word" where
  "hexLoop r [] = Inr r"
| "hexLoop r (c # s) = rbind (hexDigitToUint c) (\<lambda>d. hexLoop (16 * r + d) s)"

definition hexStringToUint :: "string \<Rightarrow> http_error + 'w::len word" where
  "hexStringToUint s = hexLoop 0 s"

lemma digitToUint_dec_cases:
  "digitToUint c =
     (if dec_digit c then Inr (of_nat (digit_val c)) else Inl (ResponseError ''Invalid digit''))"
  by (simp add: digitToUint_digit digitToUint_not)

lemma uintLoop_eq:
  "uintLoop r s =
     (if \<forall>c\<in>set s. dec_digit c then Inr (r * 10 ^ length s + of_nat (read_dec s))
      else Inl (ResponseError ''Invalid digit''))"
proof (induction s arbitrary: r)
  case Nil
  then show ?case by (simp add: read_dec_def)
next
  case (Cons c s)
  then show ?case
    by (simp add: digitToUint_dec_cases read_dec_Cons algebra_simps)
qed

lemma stringToUint_eq:
  "stringToUint s =
     (if \<forall>c\<in>set s. dec_digit c then Inr (of_nat (read_dec s))
      else Inl (ResponseError ''Invalid digit''))"
  by (simp add: stringToUint_def uintLoop_eq)

lemma stringToUint_show_nat [simp]: "stringToUint (show_nat n) = Inr (of_nat n)"
  using show_nat_digits [of _ n] by (simp add: stringToUint_eq)

text \<open>Hexadecimal: the value of a digit, and printing in lower case.\<close>

definition hex_digit :: "char \<Rightarrow> bool" where
  "hex_digit c \<longleftrightarrow> (byte c \<ge> 0x30 \<and> byte c \<le> 0x39) \<or> (byte c \<ge> 0x41 \<and> byte c \<le> 0x46) \<or>
     (byte c \<ge> 0x61 \<and> byte c \<le> 0x66)"

definition hex_val :: "char \<Rightarrow> nat" where
  "hex_val c = (if byte c \<le> 0x39 then byte c - 0x30
     else if byte c \<le> 0x46 then byte c - 0x41 + 10 else byte c - 0x61 + 10)"

definition hex_chr :: "nat \<Rightarrow> char" where
  "hex_chr d = (if d < 10 then char_of (0x30 + d) else char_of (0x61 + (d - 10)))"

fun show_hex :: "nat \<Rightarrow> string" where
  "show_hex n = (if n < 16 then [hex_chr n] else show_hex (n div 16) @ [hex_chr (n mod 16)])"

declare show_hex.simps [simp del]

definition read_hex :: "string \<Rightarrow> nat" where
  "read_hex ds = foldl (\<lambda>r c. 16 * r + hex_val c) 0 ds"

lemma hex_chr [simp]: "d < 16 \<Longrightarrow> hex_digit (hex_chr d)" "d < 16 \<Longrightarrow> hex_val (hex_chr d) = d"
  by (auto simp: hex_chr_def hex_digit_def hex_val_def)

lemma show_hex_digits: "c \<in> set (show_hex n) \<Longrightarrow> hex_digit c"
proof (induction n rule: show_hex.induct)
  case (1 n)
  then show ?case by (subst (asm) (2) show_hex.simps) (auto split: if_splits)
qed

lemma read_hex_show_hex [simp]: "read_hex (show_hex n) = n"
proof (induction n rule: show_hex.induct)
  case (1 n)
  then show ?case by (subst show_hex.simps) (auto simp: read_hex_def)
qed

lemma hexDigitToUint_cases:
  "hexDigitToUint c =
     (if hex_digit c then Inr (of_nat (hex_val c)) else Inl (ResponseError ''Invalid hex digit''))"
  by (auto simp: hexDigitToUint_def hex_digit_def hex_val_def)

lemma hexLoop_eq:
  "hexLoop r s =
     (if \<forall>c\<in>set s. hex_digit c then Inr (r * 16 ^ length s + of_nat (read_hex s))
      else Inl (ResponseError ''Invalid hex digit''))"
proof (induction s arbitrary: r)
  case Nil
  then show ?case by (simp add: read_hex_def)
next
  case (Cons c s)
  have "read_hex (c # s) = hex_val c * 16 ^ length s + read_hex s" for c
    by (induction s rule: rev_induct) (simp_all add: read_hex_def algebra_simps)
  then show ?case
    by (simp add: hexDigitToUint_cases Cons.IH algebra_simps)
qed

lemma hexStringToUint_eq:
  "hexStringToUint s =
     (if \<forall>c\<in>set s. hex_digit c then Inr (of_nat (read_hex s))
      else Inl (ResponseError ''Invalid hex digit''))"
  by (simp add: hexStringToUint_def hexLoop_eq)

lemma hexStringToUint_show_hex [simp]: "hexStringToUint (show_hex n) = Inr (of_nat n)"
  using show_hex_digits [of _ n] by (simp add: hexStringToUint_eq)

end
