(* ===== verification/HttpStatus.thy ===== *)
theory HttpStatus
  imports HttpTypes
begin

text \<open>
  The enumeration \<open>Status::Code\<close> of \<open>HTTPRequest.hpp\<close> (lines 94-162).
\<close>

section \<open>The enumeration\<close>

datatype (plugins only: code) status_code =
    Continue | SwitchingProtocol | Processing | EarlyHints
  | Ok | Created | Accepted | NonAuthoritativeInformation | NoContent | ResetContent
  | PartialContent | MultiStatus | AlreadyReported | ImUsed
  | MultipleChoice | MovedPermanently | Found | SeeOther | NotModified | UseProxy
  | TemporaryRedirect | PermanentRedirect
  | BadRequest | Unauthorized | PaymentRequired | Forbidden | NotFound | MethodNotAllowed
  | NotAcceptable | ProxyAuthenticationRequired | RequestTimeout | Conflict | Gone
  | LengthRequired | PreconditionFailed | PayloadTooLarge | UriTooLong
  | UnsupportedMediaType | RangeNotSatisfiable | ExpectationFailed | MisdirectedRequest
  | UnprocessableEntity | Locked | FailedDependency | TooEarly | UpgradeRequired
  | PreconditionRequired | TooManyRequests | RequestHeaderFieldsTooLarge
  | UnavailableForLegalReasons
  | InternalServerError | NotImplemented | BadGateway | ServiceUnavailable
  | GatewayTimeout | HttpVersionNotSupported | VariantAlsoNegotiates
  | InsufficientStorage | LoopDetected | NotExtended | NetworkAuthenticationRequired

text \<open>The enumerators with the values the source gives them.\<close>

definition status_code_table :: "(status_code \<times> nat) list" where
  "status_code_table =
    [(Continue, 100), (SwitchingProtocol, 101), (Processing, 102), (EarlyHints, 103),
     (Ok, 200), (Created, 201), (Accepted, 202), (NonAuthoritativeInformation, 203),
     (NoContent, 204), (ResetContent, 205), (PartialContent, 206), (MultiStatus, 207),
     (AlreadyReported, 208), (ImUsed, 226),
     (MultipleChoice, 300), (MovedPermanently, 301), (Found, 302), (SeeOther, 303),
     (NotModified, 304), (UseProxy, 305), (TemporaryRedirect, 307), (PermanentRedirect, 308),
     (BadRequest, 400), (Unauthorized, 401), (PaymentRequired, 402), (Forbidden, 403),
     (NotFound, 404), (MethodNotAllowed, 405), (NotAcceptable, 406),
     (ProxyAuthenticationRequired, 407), (RequestTimeout, 408), (Conflict, 409), (Gone, 410),
     (LengthRequired, 411), (PreconditionFailed, 412), (PayloadTooLarge, 413),
     (UriTooLong, 414), (UnsupportedMediaType, 415), (RangeNotSatisfiable, 416),
     (ExpectationFailed, 417), (MisdirectedRequest, 421), (UnprocessableEntity, 422),
     (Locked, 423), (FailedDependency, 424), (TooEarly, 425), (UpgradeRequired, 426),
     (PreconditionRequired, 428), (TooManyRequests, 429), (RequestHeaderFieldsTooLarge, 431),
     (UnavailableForLegalReasons, 451),
     (InternalServerError, 500), (NotImplemented, 501), (BadGateway, 502),
     (ServiceUnavailable, 503), (GatewayTimeout, 504), (HttpVersionNotSupported, 505),
     (VariantAlsoNegotiates, 506), (InsufficientStorage, 507), (LoopDetected, 508),
     (NotExtended, 510), (NetworkAuthenticationRequired, 511)]"

definition status_value :: "status_code \<Rightarrow> nat" where
  "status_value c = (case map_of status_code_table c of Some n \<Rightarrow> n | None \<Rightarrow> 0)"

end
