(* ===== verification/HttpUri.thy ===== *)
theory HttpUri
  imports HttpTypes
begin

text \<open>
  \<open>parseUri\<close> of \<open>HTTPRequest.hpp\<close> (lines 587-671). The iterator pair is the remaining
  string. \<open>show_uri\<close> prints
  a URI and \<open>wf_uri\<close> says when the printed text determines it: it is the specification of
  the parser.
\<close>

section \<open>The parser\<close>

definition isSchemeChar :: "char \<Rightarrow> bool" where
  "isSchemeChar c \<longleftrightarrow> isAlphaChar c \<or> isDigitChar c \<or> c = CHR ''+'' \<or> c = CHR ''-'' \<or> c = CHR ''.''"

definition parseScheme :: "string \<Rightarrow> http_error + (string \<times> string)" where
  "parseScheme s =
     (case s of [] \<Rightarrow> Inl (RequestError ''Invalid scheme'')
      | c # t \<Rightarrow>
         if \<not> isAlphaChar c then Inl (RequestError ''Invalid scheme'')
         else let (sch, i) = push_while isSchemeChar [c] t
              in rbind (expect (RequestError ''Invalid scheme'') CHR '':'' i) (\<lambda>i.
                 rbind (expect (RequestError ''Invalid scheme'') CHR ''/'' i) (\<lambda>i.
                 rbind (expect (RequestError ''Invalid scheme'') CHR ''/'' i) (\<lambda>i.
                 Inr (sch, i)))))"

text \<open>
  The \<open>find\<close> / \<open>substr(pos + 1)\<close> / \<open>resize(pos)\<close> idiom: what stands before the first
  \<open>c\<close>, and, when there is one, what stands after it.
\<close>

definition cut :: "char \<Rightarrow> string \<Rightarrow> string \<times> string option" where
  "cut c s = (case find_char c s of None \<Rightarrow> (s, None) | Some i \<Rightarrow> (take i s, Some (drop (i + 1) s)))"

definition parseUserinfo :: "string \<Rightarrow> uri \<Rightarrow> uri" where
  "parseUserinfo userinfo u =
     (case find_char CHR '':'' userinfo of
        Some p \<Rightarrow> u\<lparr>user := substr userinfo 0 p, password := drop (p + 1) userinfo\<rparr>
      | None \<Rightarrow> u\<lparr>user := userinfo\<rparr>)"

definition parseFragment :: "string \<times> uri \<Rightarrow> string \<times> uri" where
  "parseFragment p = (case p of (authority, u) \<Rightarrow>
     (case cut CHR ''#'' authority of
        (a, Some f) \<Rightarrow> (a, u\<lparr>fragment := f\<rparr>) | (a, None) \<Rightarrow> (a, u)))"

definition parseQuery :: "string \<times> uri \<Rightarrow> string \<times> uri" where
  "parseQuery p = (case p of (authority, u) \<Rightarrow>
     (case cut CHR ''?'' authority of
        (a, Some q) \<Rightarrow> (a, u\<lparr>query := q\<rparr>) | (a, None) \<Rightarrow> (a, u)))"

definition parsePath :: "string \<times> uri \<Rightarrow> string \<times> uri" where
  "parsePath p = (case p of (authority, u) \<Rightarrow>
     (case find_char CHR ''/'' authority of
        Some i \<Rightarrow> (take i authority, u\<lparr>path := drop i authority\<rparr>)
      | None \<Rightarrow> (authority, u\<lparr>path := ''/''\<rparr>)))"

definition parseHost :: "string \<times> uri \<Rightarrow> uri" where
  "parseHost p = (case p of (authority, u) \<Rightarrow>
     (case find_char CHR ''@'' authority of
        Some i \<Rightarrow> (parseUserinfo (substr authority 0 i) u)\<lparr>host := drop (i + 1) authority\<rparr>
      | None \<Rightarrow> u\<lparr>host := authority\<rparr>))"

definition parsePort :: "uri \<Rightarrow> uri" where
  "parsePort u =
     (case cut CHR '':'' (host u) of
        (h, Some p) \<Rightarrow> u\<lparr>port := p, host := h\<rparr> | (h, None) \<Rightarrow> u)"

definition parseAuthority :: "string \<Rightarrow> uri \<Rightarrow> uri" where
  "parseAuthority authority u = parsePort (parseHost (parsePath (parseQuery (parseFragment (authority, u)))))"

definition parseUri :: "string \<Rightarrow> http_error + uri" where
  "parseUri s = rbind (parseScheme s) (\<lambda>(sch, i).
     Inr (parseAuthority i (empty_uri\<lparr>scheme := sch\<rparr>)))"

section \<open>The URI grammar the parser is written for\<close>

definition opt_part :: "string \<Rightarrow> string \<Rightarrow> string" where
  "opt_part sep s = (if s = [] then [] else sep @ s)"

definition show_userinfo :: "uri \<Rightarrow> string" where
  "show_userinfo u = (if user u = [] \<and> password u = [] then []
     else user u @ opt_part '':'' (password u) @ ''@'')"

definition show_uri :: "uri \<Rightarrow> string" where
  "show_uri u = scheme u @ ''://'' @ show_userinfo u @ host u @ opt_part '':'' (port u) @
     path u @ opt_part ''?'' (query u) @ opt_part ''#'' (fragment u)"

definition free_of :: "string \<Rightarrow> string \<Rightarrow> bool" where
  "free_of cs s \<longleftrightarrow> list_all (\<lambda>c. c \<notin> set cs) s"

definition wf_scheme :: "string \<Rightarrow> bool" where
  "wf_scheme s \<longleftrightarrow> s \<noteq> [] \<and> isAlphaChar (hd s) \<and> list_all isSchemeChar s"

definition wf_uri :: "uri \<Rightarrow> bool" where
  "wf_uri u \<longleftrightarrow> wf_scheme (scheme u) \<and>
     free_of ''#?/@:'' (user u) \<and> free_of ''#?/@'' (password u) \<and>
     free_of ''#?/@:'' (host u) \<and> free_of ''#?/@'' (port u) \<and>
     path u \<noteq> [] \<and> hd (path u) = CHR ''/'' \<and> free_of ''#?'' (path u) \<and>
     free_of ''#'' (query u)"

section \<open>Lemmas\<close>

lemma alpha_is_scheme: "isAlphaChar c \<Longrightarrow> isSchemeChar c"
  by (simp add: isSchemeChar_def)

lemma not_scheme_colon [simp]: "\<not> isSchemeChar CHR '':''"
  by (simp add: isSchemeChar_def isAlphaChar_def dec_digit_def)

lemma parseScheme_Inr:
  "parseScheme s = Inr (sch, r) \<longleftrightarrow> wf_scheme sch \<and> s = sch @ ''://'' @ r" (is "?L = ?R")
proof
  assume L: ?L
  then obtain c t where s: "s = c # t" "isAlphaChar c"
    by (auto simp: parseScheme_def split: list.splits if_splits)
  with L have d: "dropWhile isSchemeChar t = ''://'' @ r" "sch = c # takeWhile isSchemeChar t"
    by (auto simp: parseScheme_def push_while_eq result_simps)
  have "list_all isSchemeChar (takeWhile isSchemeChar t)"
    by (auto simp: list_all_iff dest: set_takeWhileD)
  moreover have "t = takeWhile isSchemeChar t @ ''://'' @ r"
    using d(1) takeWhile_dropWhile_id [of isSchemeChar t] by simp
  ultimately show ?R
    using s d(2) by (auto simp: wf_scheme_def alpha_is_scheme)
next
  assume R: ?R
  then obtain c t where s: "sch = c # t" "isAlphaChar c" "list_all isSchemeChar t"
    by (cases sch) (auto simp: wf_scheme_def)
  then have "takeWhile isSchemeChar (t @ ''://'' @ r) = t"
    and "dropWhile isSchemeChar (t @ ''://'' @ r) = ''://'' @ r"
    by (auto simp: list_all_iff takeWhile_append2 dropWhile_append2)
  then show ?L
    using R s by (simp add: parseScheme_def push_while_eq)
qed

lemma parseScheme_Inl: "parseScheme s = Inl e \<Longrightarrow> e = RequestError ''Invalid scheme''"
  by (auto simp: parseScheme_def result_simps split: list.splits if_splits prod.splits)

lemma cut_found [str_simps]: "c \<notin> set s \<Longrightarrow> cut c (s @ c # t) = (s, Some t)"
  by (simp add: cut_def str_simps)

lemma cut_none [str_simps]: "c \<notin> set s \<Longrightarrow> cut c s = (s, None)"
  by (simp add: cut_def find_char_None_iff [THEN iffD2])

lemma cut_opt_part:
  "c \<notin> set s \<Longrightarrow>
   cut c (s @ opt_part [c] t) = (s, if t = [] then None else Some t)"
  by (auto simp: opt_part_def str_simps)

lemma free_of_iff [simp]: "free_of cs s \<longleftrightarrow> (\<forall>c\<in>set cs. c \<notin> set s)"
  by (auto simp: free_of_def list_all_iff)

lemma find_char_opt_part:
  "c \<notin> set s \<Longrightarrow>
   find_char c (s @ opt_part [c] t) = (if t = [] then None else Some (length s))"
  by (auto simp: opt_part_def str_simps)

text \<open>What each stage of the authority parser sees of a printed URI.\<close>

definition show_hostport :: "uri \<Rightarrow> string" where
  "show_hostport u = show_userinfo u @ host u @ opt_part '':'' (port u)"

lemma show_userinfo_parse:
  assumes "wf_uri u" and "user v = []" and "password v = []"
    and "user u \<noteq> [] \<or> password u \<noteq> []"
  shows "parseUserinfo (user u @ opt_part '':'' (password u)) v =
           v\<lparr>user := user u, password := password u\<rparr>"
proof -
  have "CHR '':'' \<notin> set (user u)" using assms by (simp add: wf_uri_def)
  from find_char_opt_part [OF this, of "password u"] show ?thesis
    using assms by (cases "password u = []") (auto simp: parseUserinfo_def substr_def opt_part_def)
qed

lemma hostport_parse:
  assumes "wf_uri u"
  shows "parseHost (show_hostport u, v) =
         (if user u = [] \<and> password u = [] then v
          else parseUserinfo (user u @ opt_part '':'' (password u)) v)
           \<lparr>host := host u @ opt_part '':'' (port u)\<rparr>"
proof (cases "user u = [] \<and> password u = []")
  case True
  then have "CHR ''@'' \<notin> set (show_hostport u)"
    using assms by (auto simp: show_hostport_def show_userinfo_def wf_uri_def opt_part_def)
  then show ?thesis
    using True
    by (simp add: parseHost_def find_char_None_iff [THEN iffD2] show_hostport_def show_userinfo_def)
next
  case False
  let ?ui = "user u @ opt_part '':'' (password u)"
  have sh: "show_hostport u = ?ui @ CHR ''@'' # (host u @ opt_part '':'' (port u))"
    using False by (auto simp: show_hostport_def show_userinfo_def)
  have "CHR ''@'' \<notin> set ?ui"
    using assms by (auto simp: wf_uri_def opt_part_def)
  from find_char_append [OF this]
  have fc: "find_char CHR ''@'' (show_hostport u) = Some (length ?ui)"
    unfolding sh .
  have "substr (show_hostport u) 0 (length ?ui) = ?ui"
    "drop (length ?ui + 1) (show_hostport u) = host u @ opt_part '':'' (port u)"
    unfolding sh by (simp_all add: substr_def)
  then show ?thesis
    using False by (simp only: parseHost_def prod.case fc option.case if_False)
qed

lemma path_parse:
  assumes "wf_uri u"
  shows "parsePath (show_hostport u @ path u, v) = (show_hostport u, v\<lparr>path := path u\<rparr>)"
proof -
  obtain p where "path u = CHR ''/'' # p"
    using assms by (cases "path u") (auto simp: wf_uri_def)
  moreover have "CHR ''/'' \<notin> set (show_hostport u)"
    using assms by (auto simp: show_hostport_def show_userinfo_def wf_uri_def opt_part_def)
  ultimately show ?thesis by (simp add: parsePath_def find_char_append)
qed

lemma query_parse:
  assumes "wf_uri u"
  shows "parseQuery (show_hostport u @ path u @ opt_part ''?'' (query u), v) =
           (show_hostport u @ path u, if query u = [] then v else v\<lparr>query := query u\<rparr>)"
proof -
  have "CHR ''?'' \<notin> set (show_hostport u @ path u)"
    using assms by (auto simp: show_hostport_def show_userinfo_def wf_uri_def opt_part_def)
  from cut_opt_part [OF this, of "query u"] show ?thesis by (simp add: parseQuery_def)
qed

lemma fragment_parse:
  assumes "wf_uri u"
  shows "parseFragment (show_hostport u @ path u @ opt_part ''?'' (query u) @ opt_part ''#'' (fragment u), v) =
           (show_hostport u @ path u @ opt_part ''?'' (query u),
            if fragment u = [] then v else v\<lparr>fragment := fragment u\<rparr>)"
proof -
  have "CHR ''#'' \<notin> set (show_hostport u @ path u @ opt_part ''?'' (query u))"
    using assms by (auto simp: show_hostport_def show_userinfo_def wf_uri_def opt_part_def)
  from cut_opt_part [OF this, of "fragment u"] show ?thesis by (simp add: parseFragment_def)
qed

lemma port_parse:
  assumes "wf_uri u" and "host v = host u @ opt_part '':'' (port u)" and "port v = []"
  shows "parsePort v = v\<lparr>host := host u, port := port u\<rparr>"
proof -
  have "CHR '':'' \<notin> set (host u)" using assms by (simp add: wf_uri_def)
  from cut_opt_part [OF this, of "port u"] show ?thesis
    using assms by (auto simp: parsePort_def opt_part_def)
qed

lemma parseAuthority_show:
  assumes "wf_uri u"
  shows "parseAuthority (show_hostport u @ path u @ opt_part ''?'' (query u) @ opt_part ''#'' (fragment u))
           (empty_uri\<lparr>scheme := scheme u\<rparr>) = u"
  using assms
  by (cases "user u = [] \<and> password u = []")
     (auto simp: parseAuthority_def fragment_parse query_parse path_parse hostport_parse
       show_userinfo_parse port_parse empty_uri_def)

lemma path_parsePort [simp]: "path (parsePort u) = path u"
  by (simp add: parsePort_def split: prod.split option.split)

lemma path_parseHost [simp]: "path (parseHost p) = path (snd p)"
  by (simp add: parseHost_def parseUserinfo_def split: prod.split option.split)

lemma path_parsePath:
  "path (snd (parsePath p)) \<noteq> [] \<and> hd (path (snd (parsePath p))) = CHR ''/''"
  using find_sub_Some_prefix [of "''/''"]
  by (force simp: parsePath_def find_char_def prefix_def split: option.splits prod.splits)

section \<open>Properties\<close>

text \<open>
  Parsing the text of a well-formed URI gives back its eight components: scheme, user,
  password, host, port, path, query and fragment.
\<close>

theorem parse_show_uri: "wf_uri u \<Longrightarrow> parseUri (show_uri u) = Inr u"
proof -
  assume wf: "wf_uri u"
  then have "parseScheme (show_uri u) = Inr (scheme u,
      show_hostport u @ path u @ opt_part ''?'' (query u) @ opt_part ''#'' (fragment u))"
    by (simp add: parseScheme_Inr wf_uri_def show_uri_def show_hostport_def)
  then show ?thesis
    by (simp add: parseUri_def parseAuthority_show [OF wf])
qed

definition feeder_uri :: uri where
  "feeder_uri = \<lparr>scheme = ''http'', user = ''a'', password = ''b:c'', host = ''foodgiver.hopto.org'',
     port = ''8080'', path = ''/req_treat/420'', query = ''q=1?'', fragment = ''f#''\<rparr>"

theorem parse_show_uri_witness:
  "parseUri ''http://a:b:c@foodgiver.hopto.org:8080/req_treat/420?q=1?#f#'' = Inr feeder_uri"
proof -
  have "wf_uri feeder_uri"
    by (simp add: feeder_uri_def wf_uri_def wf_scheme_def isSchemeChar_def isAlphaChar_def)
  from parse_show_uri [OF this] show ?thesis
    by (simp add: show_uri_def show_userinfo_def feeder_uri_def opt_part_def)
qed

text \<open>
  The parser accepts exactly the strings that start with a scheme (a letter, then
  letters, digits, plus, minus or dot) and \<open>://\<close>; every other string is rejected, always with
  the exception \<open>RequestError("Invalid scheme")\<close>; an accepted URI never has an empty path.
\<close>

theorem parseUri_accepts:
  "(if \<exists>sch rest. wf_scheme sch \<and> s = sch @ ''://'' @ rest
    then \<exists>u. parseUri s = Inr u \<and> path u \<noteq> [] \<and> hd (path u) = CHR ''/''
    else parseUri s = Inl (RequestError ''Invalid scheme''))"
proof (cases "parseScheme s")
  case (Inl e)
  with parseScheme_Inl [OF Inl] show ?thesis
    by (metis parseScheme_Inr parseUri_def rbind_Inl sum.distinct(1))
next
  case (Inr p)
  obtain sch r where p: "p = (sch, r)" by (cases p)
  have "path (parseAuthority r u) \<noteq> [] \<and> hd (path (parseAuthority r u)) = CHR ''/''" for u
    by (simp add: parseAuthority_def path_parsePath)
  then show ?thesis
    using Inr p parseScheme_Inr [of s sch r] by (auto simp: parseUri_def)
qed

end
