(* ===== verification/HttpParse.thy ===== *)
theory HttpParse
  imports HttpTypes
begin

text \<open>
  The response-head parsers of \<open>HTTPRequest.hpp\<close> (lines 673-858): HTTP version, status code,
  reason phrase, token, field value, field content with obsolete line folding, header field
  and status line. Each takes the remaining bytes and returns its value with the bytes that
  are left. The locale \<open>response_parser\<close> is the contract they share: what a parser returns is
  a suffix of its input, and it throws nothing but \<open>ResponseError\<close>.
\<close>

section \<open>The parsers\<close>

abbreviation CR :: char where "CR \<equiv> CHR 0x0D"
abbreviation LF :: char where "LF \<equiv> CHR 0x0A"
abbreviation crlf :: string where "crlf \<equiv> [CR, LF]"

definition versionDigit :: "string \<Rightarrow> http_error + (16 word \<times> string)" where
  "versionDigit i =
     (case i of [] \<Rightarrow> Inl (ResponseError ''Invalid HTTP version'')
      | c # i \<Rightarrow> rbind (digitToUint c) (\<lambda>d. Inr (d, i)))"

definition parseHttpVersion :: "string \<Rightarrow> http_error + (http_version \<times> string)" where
  "parseHttpVersion s =
     rbind (expect_all (ResponseError ''Invalid HTTP version'') ''HTTP/'' s) (\<lambda>i.
     rbind (versionDigit i) (\<lambda>(majorVersion, i).
     rbind (expect (ResponseError ''Invalid HTTP version'') CHR ''.'' i) (\<lambda>i.
     rbind (versionDigit i) (\<lambda>(minorVersion, i).
     Inr (\<lparr>major = majorVersion, minor = minorVersion\<rparr>, i)))))"

text \<open>The loop of \<open>parseStatusCode\<close>: the result so far and how many digits were read.\<close>

fun statusCodeLoop :: "16 word \<Rightarrow> nat \<Rightarrow> string \<Rightarrow> http_error + (16 word \<times> nat \<times> string)" where
  "statusCodeLoop r n [] = Inr (r, n, [])"
| "statusCodeLoop r n (c # i) =
     (if isDigitChar c
      then rbind (digitToUint c) (\<lambda>d. statusCodeLoop (r * 10 + d) (Suc n) i)
      else Inr (r, n, c # i))"

definition parseStatusCode :: "string \<Rightarrow> http_error + (16 word \<times> string)" where
  "parseStatusCode s =
     rbind (statusCodeLoop 0 0 s) (\<lambda>(r, n, i).
       if n \<noteq> 3 then Inl (ResponseError ''Invalid status code'') else Inr (r, i))"

definition parseReasonPhrase :: "string \<Rightarrow> http_error + (string \<times> string)" where
  "parseReasonPhrase s = Inr (push_while isTextChar [] s)"

definition parseToken :: "string \<Rightarrow> http_error + (string \<times> string)" where
  "parseToken s =
     (let (r, i) = push_while isTokenChar [] s
      in if r = [] then Inl (ResponseError ''Invalid token'') else Inr (r, i))"

text \<open>\<open>erase(find_if(rbegin, rend, not white space).base(), end)\<close>.\<close>

definition rtrim :: "string \<Rightarrow> string" where
  "rtrim s = rev (dropWhile isWhiteSpaceChar (rev s))"

definition parseFieldValue :: "string \<Rightarrow> string \<times> string" where
  "parseFieldValue s = (let (r, i) = push_while isTextChar [] s in (rtrim r, i))"

text \<open>
  The loop of \<open>parseFieldContent\<close>. It goes on only over CR, LF and one white space; every
  other continuation leaves the iterator behind the field value.
\<close>

definition foldedLine :: "string \<Rightarrow> string option" where
  "foldedLine i =
     (case i of
        c0 # c1 # c2 # t \<Rightarrow>
          if c0 \<noteq> CR then None else if c1 \<noteq> LF then None
          else if \<not> isWhiteSpaceChar c2 then None else Some t
      | _ \<Rightarrow> None)"

lemma foldedLine_length: "foldedLine i = Some t \<Longrightarrow> length t < length i"
  by (auto simp: foldedLine_def split: list.splits if_splits)

lemma parseFieldValue_length: "length (snd (parseFieldValue s)) \<le> length s"
  by (simp add: parseFieldValue_def push_while_eq Let_def length_dropWhile_le)

function fieldContentLoop :: "string \<Rightarrow> string \<Rightarrow> string \<times> string" where
  "fieldContentLoop result i =
     (case foldedLine (snd (parseFieldValue i)) of
        None \<Rightarrow> (result @ fst (parseFieldValue i), snd (parseFieldValue i))
      | Some t \<Rightarrow> fieldContentLoop (result @ fst (parseFieldValue i) @ '' '') t)"
  by pat_completeness auto
termination
  by (relation "measure (\<lambda>(result, i). length i)")
     (auto dest!: foldedLine_length intro: less_le_trans [OF _ parseFieldValue_length])

declare fieldContentLoop.simps [simp del]

definition parseFieldContent :: "string \<Rightarrow> http_error + (string \<times> string)" where
  "parseFieldContent s = Inr (fieldContentLoop [] s)"

definition parseHeaderField :: "string \<Rightarrow> http_error + (header_field \<times> string)" where
  "parseHeaderField s =
     rbind (parseToken s) (\<lambda>(fieldName, i).
     rbind (expect (ResponseError ''Invalid header'') CHR '':'' i) (\<lambda>i.
     rbind (parseFieldContent (skipWhiteSpaces i)) (\<lambda>(fieldValue, i).
     rbind (expect (ResponseError ''Invalid header'') CR i) (\<lambda>i.
     rbind (expect (ResponseError ''Invalid header'') LF i) (\<lambda>i.
     Inr ((fieldName, fieldValue), i))))))"

definition parseStatusLine :: "string \<Rightarrow> http_error + (status \<times> string)" where
  "parseStatusLine s =
     rbind (parseHttpVersion s) (\<lambda>(version, i).
     rbind (expect (ResponseError ''Invalid status line'') CHR '' '' i) (\<lambda>i.
     rbind (parseStatusCode i) (\<lambda>(statusCode, i).
     rbind (expect (ResponseError ''Invalid status line'') CHR '' '' i) (\<lambda>i.
     rbind (parseReasonPhrase i) (\<lambda>(reasonPhrase, i).
     rbind (expect (ResponseError ''Invalid status line'') CR i) (\<lambda>i.
     rbind (expect (ResponseError ''Invalid status line'') LF i) (\<lambda>i.
     Inr (\<lparr>httpVersion = version, code = statusCode, reason = reasonPhrase\<rparr>, i))))))))"

section \<open>The parser contract\<close>

definition response_error :: "http_error \<Rightarrow> bool" where
  "response_error e \<longleftrightarrow> (case e of ResponseError _ \<Rightarrow> True | _ \<Rightarrow> False)"

lemma response_error_simps [simp]: "response_error (ResponseError m)"
  by (simp add: response_error_def)

locale response_parser =
  fixes p :: "string \<Rightarrow> http_error + ('a \<times> string)"
  assumes rest_suffix: "p s = Inr (x, r) \<Longrightarrow> suffix r s"
    and only_response_errors: "p s = Inl e \<Longrightarrow> response_error e"
begin

lemma rest_length: "p s = Inr (x, r) \<Longrightarrow> length r \<le> length s"
  by (auto dest: rest_suffix suffix_length_le)

text \<open>Requiring a character behind the parsed part is again a parser, and one that consumes.\<close>

lemma then_expect_suffix:
  "p s = Inr (x, r) \<Longrightarrow> expect e c r = Inr t \<Longrightarrow> strict_suffix t s"
  using rest_suffix [of s x r] by (auto simp: result_simps strict_suffix_def suffix_def)

lemma sequence_suffix:
  "p s = Inr (x, r) \<Longrightarrow> strict_suffix t r \<Longrightarrow> strict_suffix t s"
  by (auto dest!: rest_suffix intro: suffix_order.less_le_trans)

end

text \<open>A parser that never succeeds without consuming: a loop over it ends.\<close>

locale consuming_parser = response_parser p for p :: "string \<Rightarrow> http_error + ('a \<times> string)" +
  assumes consumes: "p s = Inr (x, r) \<Longrightarrow> r \<noteq> s"
begin

lemma rest_shorter: "p s = Inr (x, r) \<Longrightarrow> length r < length s"
  using rest_suffix consumes by (blast intro: suffix_length_less suffix_order.le_neq_trans)

end

section \<open>Every parser of the client satisfies the contract\<close>

lemma push_while_suffix: "push_while P [] s = (r, i) \<Longrightarrow> suffix i s"
  by (auto simp: push_while_eq intro: suffix_dropWhile)

lemma versionDigit_Inr: "versionDigit i = Inr (d, r) \<longleftrightarrow>
    (\<exists>c. i = c # r \<and> dec_digit c \<and> d = of_nat (digit_val c))"
  by (cases i) (auto simp: versionDigit_def digitToUint_dec_cases)

lemma versionDigit_Inl: "versionDigit i = Inl e \<Longrightarrow> response_error e"
  by (cases i) (auto simp: versionDigit_def digitToUint_dec_cases split: if_splits)

lemma parseHttpVersion_Inr:
  "parseHttpVersion s = Inr (v, r) \<longleftrightarrow>
     (\<exists>c d. s = ''HTTP/'' @ c # CHR ''.'' # d # r \<and> dec_digit c \<and> dec_digit d \<and>
        v = \<lparr>major = of_nat (digit_val c), minor = of_nat (digit_val d)\<rparr>)"
  by (auto simp: parseHttpVersion_def result_simps versionDigit_Inr split: prod.splits)

interpretation version_parser: consuming_parser parseHttpVersion
proof unfold_locales
  fix s x r assume "parseHttpVersion s = Inr (x, r)"
  then obtain c d where s: "s = ''HTTP/'' @ c # CHR ''.'' # d # r"
    by (auto simp: parseHttpVersion_Inr)
  show "suffix r s" "r \<noteq> s" unfolding s by (auto simp: suffix_def)
next
  fix s e assume "parseHttpVersion s = Inl e"
  then show "response_error e"
    by (auto simp: parseHttpVersion_def result_simps split: prod.splits dest: versionDigit_Inl)
qed

text \<open>The status code loop reads every digit there is; only then is their number checked.\<close>

lemma statusCodeLoop_eq:
  "statusCodeLoop r n s =
     Inr (r * 10 ^ length (takeWhile dec_digit s) + of_nat (read_dec (takeWhile dec_digit s)),
          n + length (takeWhile dec_digit s), dropWhile dec_digit s)"
proof (induction s arbitrary: r n)
  case Nil
  then show ?case by simp
next
  case (Cons c s)
  then show ?case
    by (auto simp: digitToUint_digit read_dec_Cons algebra_simps)
qed

lemma parseStatusCode_eq:
  "parseStatusCode s =
     (if length (takeWhile dec_digit s) = 3
      then Inr (of_nat (read_dec (takeWhile dec_digit s)), dropWhile dec_digit s)
      else Inl (ResponseError ''Invalid status code''))"
  by (simp add: parseStatusCode_def statusCodeLoop_eq)

interpretation code_parser: consuming_parser parseStatusCode
proof unfold_locales
  fix s x r assume "parseStatusCode s = Inr (x, r)"
  then have r: "r = dropWhile dec_digit s" and "length (takeWhile dec_digit s) = 3"
    by (auto simp: parseStatusCode_eq split: if_splits)
  then show "suffix r s" "r \<noteq> s"
    by (auto simp: suffix_dropWhile dropWhile_eq_self_iff) (metis list.size(3) takeWhile_eq_Nil_iff zero_neq_numeral)
next
  fix s e assume "parseStatusCode s = Inl e"
  then show "response_error e" by (auto simp: parseStatusCode_eq split: if_splits)
qed

interpretation reason_parser: response_parser parseReasonPhrase
  by unfold_locales (auto simp: parseReasonPhrase_def dest: push_while_suffix)

interpretation token_parser: consuming_parser parseToken
proof unfold_locales
  fix s x r assume "parseToken s = Inr (x, r)"
  then have r: "r = dropWhile isTokenChar s" and "takeWhile isTokenChar s \<noteq> []"
    by (auto simp: parseToken_def push_while_eq split: if_splits)
  then show "suffix r s" "r \<noteq> s"
    by (auto simp: suffix_dropWhile dropWhile_eq_self_iff takeWhile_eq_Nil_iff)
next
  fix s e assume "parseToken s = Inl e"
  then show "response_error e" by (auto simp: parseToken_def push_while_eq split: if_splits)
qed

lemma parseFieldValue_suffix: "suffix (snd (parseFieldValue s)) s"
  by (simp add: parseFieldValue_def push_while_eq Let_def suffix_dropWhile)

lemma foldedLine_suffix: "foldedLine i = Some t \<Longrightarrow> suffix t i"
  by (auto simp: foldedLine_def suffix_ConsI split: list.splits if_splits)

lemma fieldContentLoop_suffix: "suffix (snd (fieldContentLoop r i)) i"
proof (induction r i rule: fieldContentLoop.induct)
  case (1 r i)
  show ?case
  proof (cases "foldedLine (snd (parseFieldValue i))")
    case None
    then show ?thesis by (subst fieldContentLoop.simps) (simp add: parseFieldValue_suffix)
  next
    case (Some t)
    from foldedLine_suffix [OF Some] have "suffix t i"
      using parseFieldValue_suffix by (rule suffix_order.trans)
    with 1 [OF Some] Some show ?thesis
      by (subst fieldContentLoop.simps) (auto intro: suffix_order.trans)
  qed
qed

interpretation content_parser: response_parser parseFieldContent
proof unfold_locales
  fix s x r assume "parseFieldContent s = Inr (x, r)"
  then show "suffix r s"
    using fieldContentLoop_suffix [of "[]" s] by (simp add: parseFieldContent_def)
qed (simp add: parseFieldContent_def)

lemma skipWhiteSpaces_suffix: "suffix (skipWhiteSpaces s) s"
  by (simp add: skipWhiteSpaces_eq suffix_dropWhile)

interpretation header_parser: consuming_parser parseHeaderField
proof unfold_locales
  fix s x r assume "parseHeaderField s = Inr (x, r)"
  then obtain n i v j where p: "parseToken s = Inr (n, CHR '':'' # i)"
    "parseFieldContent (skipWhiteSpaces i) = Inr (v, j)" "j = crlf @ r"
    by (auto simp: parseHeaderField_def result_simps split: prod.splits)
  from content_parser.rest_suffix [OF p(2)] skipWhiteSpaces_suffix [of i] p(3)
  have "suffix r i" by (meson suffix_appendD suffix_order.trans)
  then have "strict_suffix r (CHR '':'' # i)"
    by (auto simp: strict_suffix_def suffix_def)
  from token_parser.sequence_suffix [OF p(1) this] show "suffix r s" "r \<noteq> s"
    by (auto simp: strict_suffix_def)
next
  fix s e assume "parseHeaderField s = Inl e"
  then show "response_error e"
    by (auto simp: parseHeaderField_def result_simps split: prod.splits
        dest: token_parser.only_response_errors content_parser.only_response_errors)
qed

interpretation status_parser: consuming_parser parseStatusLine
proof unfold_locales
  fix s x r assume "parseStatusLine s = Inr (x, r)"
  then obtain v i c j p k where p: "parseHttpVersion s = Inr (v, CHR '' '' # i)"
    "parseStatusCode i = Inr (c, CHR '' '' # j)" "parseReasonPhrase j = Inr (p, crlf @ r)"
    by (auto simp: parseStatusLine_def result_simps split: prod.splits)
  from reason_parser.rest_suffix [OF p(3)] have "strict_suffix r (CHR '' '' # j)"
    by (auto simp: strict_suffix_def suffix_def)
  from code_parser.sequence_suffix [OF p(2) this] have "strict_suffix r (CHR '' '' # i)"
    by (auto simp: strict_suffix_def suffix_def)
  from version_parser.sequence_suffix [OF p(1) this] show "suffix r s" "r \<noteq> s"
    by (auto simp: strict_suffix_def)
next
  fix s e assume "parseStatusLine s = Inl e"
  then show "response_error e"
    by (auto simp: parseStatusLine_def result_simps split: prod.splits
        dest: version_parser.only_response_errors code_parser.only_response_errors
          reason_parser.only_response_errors)
qed

section \<open>What the parsers read\<close>

text \<open>Printing a status line and a header field, as a server sends them.\<close>

definition show_status_line :: "nat \<Rightarrow> nat \<Rightarrow> nat \<Rightarrow> string \<Rightarrow> string" where
  "show_status_line ma mi c r =
     ''HTTP/'' @ [digit_chr ma] @ ''.'' @ [digit_chr mi] @ '' '' @ show_nat c @ '' '' @ r @ crlf"

definition show_header :: "header_field \<Rightarrow> string" where
  "show_header h = fst h @ '': '' @ snd h @ crlf"

definition token :: "string \<Rightarrow> bool" where
  "token s \<longleftrightarrow> s \<noteq> [] \<and> list_all isTokenChar s"

text \<open>A field value as the sender means it: text without white space at its ends.\<close>

definition trimmed :: "string \<Rightarrow> bool" where
  "trimmed s \<longleftrightarrow> list_all isTextChar s \<and>
     (s \<noteq> [] \<longrightarrow> \<not> isWhiteSpaceChar (hd s) \<and> \<not> isWhiteSpaceChar (last s))"

definition wf_header :: "header_field \<Rightarrow> bool" where
  "wf_header h \<longleftrightarrow> token (fst h) \<and> trimmed (snd h)"

lemma special_chars [simp]:
  "\<not> isVisibleChar CR" "\<not> isObsoleteTextChar CR" "\<not> isVisibleChar LF" "\<not> isObsoleteTextChar LF"
  "\<not> isWhiteSpaceChar CR" "\<not> isWhiteSpaceChar LF" "isWhiteSpaceChar CHR '' ''"
  "\<not> isTokenChar CHR '':''" "\<not> isTokenChar CR"
  by (simp_all add: char_class_defs dec_digit_def)

lemma push_while_stop:
  "list_all P s \<Longrightarrow> \<not> P c \<Longrightarrow> push_while P [] (s @ c # t) = (s, c # t)"
  by (simp add: push_while_eq list_all_iff takeWhile_append2 dropWhile_append2)

lemma rtrim_trimmed: "trimmed s \<Longrightarrow> rtrim s = s"
  by (cases s rule: rev_cases) (auto simp: trimmed_def rtrim_def)

lemma parseFieldContent_trimmed:
  assumes "trimmed v" and "r = [] \<or> \<not> isWhiteSpaceChar (hd r)"
  shows "parseFieldContent (v @ crlf @ r) = Inr (v, crlf @ r)"
proof -
  have "parseFieldValue (v @ crlf @ r) = (v, crlf @ r)"
    using assms(1) push_while_stop [of isTextChar v CR "LF # r"] rtrim_trimmed [OF assms(1)]
    by (simp add: parseFieldValue_def trimmed_def)
  moreover have "foldedLine (crlf @ r) = None"
    using assms(2) by (cases r) (auto simp: foldedLine_def)
  ultimately show ?thesis
    by (simp add: parseFieldContent_def fieldContentLoop.simps)
qed

lemma parse_show_header:
  assumes "wf_header h" and "r = [] \<or> \<not> isWhiteSpaceChar (hd r)"
  shows "parseHeaderField (show_header h @ r) = Inr (h, r)"
proof -
  obtain n v where h: "h = (n, v)" by (cases h)
  have "parseToken (n @ CHR '':'' # t) = Inr (n, CHR '':'' # t)" for t
    using assms(1) h push_while_stop [of isTokenChar n "CHR '':''" t]
    by (simp add: parseToken_def wf_header_def token_def)
  moreover have "skipWhiteSpaces (CHR '' '' # v @ crlf @ r) = v @ crlf @ r"
    using assms(1) h by (cases v) (auto simp: wf_header_def trimmed_def)
  moreover have "parseFieldContent (v @ crlf @ r) = Inr (v, crlf @ r)"
    using assms h by (intro parseFieldContent_trimmed) (simp_all add: wf_header_def)
  ultimately show ?thesis
    using h by (simp add: parseHeaderField_def show_header_def)
qed

lemma length_show_nat_3:
  assumes "100 \<le> n" and "n \<le> 999"
  shows "length (show_nat n) = 3"
proof -
  have d: "\<not> n div 10 < 10" "n div 10 div 10 < 10" "\<not> n < 10" using assms by linarith+
  have "show_nat n = [digit_chr (n div 10 div 10), digit_chr (n div 10 mod 10), digit_chr (n mod 10)]"
    using assms d by (simp add: show_nat.simps [of n] show_nat.simps [of "n div 10"]
        show_nat.simps [of "n div 10 div 10"])
  then show ?thesis by simp
qed

lemma parseStatusCode_show:
  assumes "100 \<le> n" and "n \<le> 999"
  shows "parseStatusCode (show_nat n @ CHR '' '' # r) = Inr (of_nat n, CHR '' '' # r)"
proof -
  have sp: "\<not> dec_digit CHR '' ''" by (simp add: dec_digit_def)
  then have "takeWhile dec_digit (show_nat n @ CHR '' '' # r) = show_nat n"
    by (simp add: takeWhile_show_nat)
  moreover have "dropWhile dec_digit (show_nat n @ CHR '' '' # r) = CHR '' '' # r"
    using sp by (simp add: dropWhile_append2 show_nat_digits)
  ultimately show ?thesis
    using length_show_nat_3 [OF assms] by (simp add: parseStatusCode_eq)
qed

lemma status_line_read:
  assumes "ma < 10" and "mi < 10" and "100 \<le> c" and "c \<le> 999" and "list_all isTextChar r"
  shows "parseStatusLine (show_status_line ma mi c r @ rest) =
           Inr (\<lparr>httpVersion = \<lparr>major = of_nat ma, minor = of_nat mi\<rparr>, code = of_nat c, reason = r\<rparr>, rest)"
proof -
  have "parseHttpVersion (''HTTP/'' @ digit_chr ma # CHR ''.'' # digit_chr mi # t) =
      Inr (\<lparr>major = of_nat ma, minor = of_nat mi\<rparr>, t)" for t
    using assms(1,2) by (auto simp: parseHttpVersion_Inr)
  moreover have "parseReasonPhrase (r @ CR # t) = Inr (r, CR # t)" for t
    using push_while_stop [OF assms(5), of CR t] by (simp add: parseReasonPhrase_def)
  ultimately show ?thesis
    using parseStatusCode_show [OF assms(3,4)] by (simp add: parseStatusLine_def show_status_line_def)
qed

section \<open>Properties\<close>

text \<open>
  The status line parser reads back every status line a server can send: version digits,
  a three-digit code and a reason phrase of text characters, up to and including CR LF.
\<close>

theorem parse_show_status_line:
  assumes "ma < 10" and "mi < 10" and "100 \<le> c" and "c \<le> 999" and "list_all isTextChar r"
  shows "parseStatusLine (show_status_line ma mi c r @ rest) =
           Inr (\<lparr>httpVersion = \<lparr>major = of_nat ma, minor = of_nat mi\<rparr>, code = of_nat c, reason = r\<rparr>, rest)"
  using assms by (rule status_line_read)

theorem parse_show_status_line_witness:
  "parseStatusLine (show_status_line 1 1 200 ''OK'' @ ''A: b'') =
     Inr (\<lparr>httpVersion = \<lparr>major = 1, minor = 1\<rparr>, code = 200, reason = ''OK''\<rparr>, ''A: b'')"
proof -
  have "list_all isTextChar ''OK''" by (simp add: char_class_defs)
  then show ?thesis using parse_show_status_line [of 1 1 200 "''OK''" "''A: b''"] by simp
qed

text \<open>
  A header field that is printed as name, colon, space, value and CR LF is read back as
  it was, whatever follows it other than white space (which would continue the value).
\<close>

theorem parseHeaderField_roundtrip:
  assumes "wf_header h" and "r = [] \<or> \<not> isWhiteSpaceChar (hd r)"
  shows "parseHeaderField (show_header h @ r) = Inr (h, r)"
  using assms by (rule parse_show_header)

theorem parseHeaderField_roundtrip_witness:
  "parseHeaderField (show_header (''Content-Length'', ''5'') @ crlf) = Inr ((''Content-Length'', ''5''), crlf)"
proof (rule parseHeaderField_roundtrip)
  show "wf_header (''Content-Length'', ''5'')"
    by (simp add: wf_header_def token_def trimmed_def char_class_defs dec_digit_def)
qed simp

end
