(* ===== verification/HttpEncode.thy ===== *)
theory HttpEncode
  imports HttpUri HttpParse
begin

unbundle bit_operations_syntax

text \<open>
  The request encoder of \<open>HTTPRequest.hpp\<close> (lines 881-989): request line, header fields,
  Base64 for the \<open>Authorization\<close> field, and the whole request.
\<close>

section \<open>Request line and header fields\<close>

definition encodeRequestLine :: "string \<Rightarrow> string \<Rightarrow> string" where
  "encodeRequestLine method target = method @ '' '' @ target @ '' HTTP/1.1'' @ crlf"

fun encodeHeaderLoop :: "string \<Rightarrow> header_fields \<Rightarrow> http_error + string" where
  "encodeHeaderLoop result [] = Inr result"
| "encodeHeaderLoop result (h # hs) =
     (if fst h = [] then Inl (RequestError ''Invalid header field name'')
      else if \<not> list_all isTokenChar (fst h) then Inl (RequestError ''Invalid header field name'')
      else if \<not> list_all isTextChar (snd h) then Inl (RequestError ''Invalid header field value'')
      else encodeHeaderLoop (result @ fst h @ '': '' @ snd h @ crlf) hs)"

definition encodeHeaderFields :: "header_fields \<Rightarrow> http_error + string" where
  "encodeHeaderFields hs = encodeHeaderLoop [] hs"

section \<open>Base64\<close>

definition b64_chars :: string where
  "b64_chars = ''ABCDEFGHIJKLMNOPQRSTUVWXYZabcdefghijklmnopqrstuvwxyz0123456789+/''"

definition b64_chr :: "8 word \<Rightarrow> char" where
  "b64_chr w = b64_chars ! unat w"

abbreviation u8 :: "char \<Rightarrow> 8 word" where
  "u8 c \<equiv> of_char c"

definition b64_quad :: "8 word \<Rightarrow> 8 word \<Rightarrow> 8 word \<Rightarrow> string" where
  "b64_quad a b c =
     [b64_chr (drop_bit 2 (a AND 0xFC)),
      b64_chr (push_bit 4 (a AND 0x03) + drop_bit 4 (b AND 0xF0)),
      b64_chr (push_bit 2 (b AND 0x0F) + drop_bit 6 (c AND 0xC0)),
      b64_chr (c AND 0x3F)]"

text \<open>
  The loop over the input; \<open>buf\<close> is the filled part of \<open>charArray\<close>, so its length is the
  counter \<open>c\<close>.
\<close>

fun b64_loop :: "string \<Rightarrow> 8 word list \<Rightarrow> string \<Rightarrow> string \<times> 8 word list" where
  "b64_loop result buf [] = (result, buf)"
| "b64_loop result buf (i # s) =
     (let buf = buf @ [u8 i]
      in if length buf = 3 then b64_loop (result @ b64_quad (buf ! 0) (buf ! 1) (buf ! 2)) [] s
         else b64_loop result buf s)"

definition b64_finish :: "string \<times> 8 word list \<Rightarrow> string" where
  "b64_finish p = (case p of (result, buf) \<Rightarrow>
     if buf = [] then result
     else result @ b64_chr (drop_bit 2 (buf ! 0 AND 0xFC)) #
       (if length buf = 1 then [b64_chr (push_bit 4 (buf ! 0 AND 0x03))]
        else [b64_chr (push_bit 4 (buf ! 0 AND 0x03) + drop_bit 4 (buf ! 1 AND 0xF0)),
              b64_chr (push_bit 2 (buf ! 1 AND 0x0F))]) @
       replicate (3 - length buf) CHR ''='')"

definition encodeBase64 :: "string \<Rightarrow> string" where
  "encodeBase64 s = b64_finish (b64_loop [] [] s)"

section \<open>The request\<close>

definition encodeHtml :: "uri \<Rightarrow> string \<Rightarrow> string \<Rightarrow> header_fields \<Rightarrow> http_error + string" where
  "encodeHtml u method content hs =
     (if scheme u \<noteq> ''http'' then Inl (RequestError ''Only HTTP scheme is supported'')
      else let requestTarget = path u @ (if query u = [] then [] else CHR ''?'' # query u);
             hs = hs @ [(''Host'', host u)];
             hs = hs @ [(''Content-Length'', show_nat (length content))];
             hs = (if user u \<noteq> [] \<or> password u \<noteq> []
                   then hs @ [(''Authorization'', ''Basic '' @ encodeBase64 (user u @ '':'' @ password u))]
                   else hs)
           in rbind (encodeHeaderFields hs) (\<lambda>fields.
              Inr ((encodeRequestLine method requestTarget @ fields @ crlf) @ content)))"

section \<open>Base64 decoding, from RFC 4648\<close>

text \<open>
  The specification of the encoder: the value of a character of the alphabet, and the bytes
  that a group of four characters (the last one possibly padded) stands for.
\<close>

definition b64_value :: "char \<Rightarrow> nat option" where
  "b64_value c = find_char c b64_chars"

fun b64_decode :: "string \<Rightarrow> string option" where
  "b64_decode [] = Some []"
| "b64_decode [p, q, r, s] =
     (case (b64_value p, b64_value q) of
        (Some i, Some j) \<Rightarrow>
          if r = CHR ''='' \<and> s = CHR ''='' then Some [char_of (i * 4 + j div 16)]
          else (case b64_value r of None \<Rightarrow> None
            | Some k \<Rightarrow>
                if s = CHR ''='' then Some [char_of (i * 4 + j div 16), char_of (j mod 16 * 16 + k div 4)]
                else map_option (\<lambda>l. [char_of (i * 4 + j div 16), char_of (j mod 16 * 16 + k div 4),
                       char_of (k mod 4 * 64 + l)]) (b64_value s))
      | _ \<Rightarrow> None)"
| "b64_decode (p # q # r # s # t) =
     (case (b64_value p, b64_value q, b64_value r, b64_value s, b64_decode t) of
        (Some i, Some j, Some k, Some l, Some u) \<Rightarrow>
          Some (char_of (i * 4 + j div 16) # char_of (j mod 16 * 16 + k div 4) #
                char_of (k mod 4 * 64 + l) # u)
      | _ \<Rightarrow> None)"
| "b64_decode _ = None"

section \<open>Lemmas\<close>

lemma encodeHeaderLoop_eq:
  "encodeHeaderLoop acc hs =
     (case encodeHeaderLoop [] hs of Inl e \<Rightarrow> Inl e | Inr s \<Rightarrow> Inr (acc @ s))"
proof (induction hs arbitrary: acc)
  case Nil
  then show ?case by simp
next
  case (Cons h hs)
  show ?case
    using Cons [of "acc @ fst h @ '': '' @ snd h @ crlf"] Cons [of "fst h @ '': '' @ snd h @ crlf"]
    by (auto split: sum.split)
qed

definition sendable :: "header_field \<Rightarrow> bool" where
  "sendable h \<longleftrightarrow> token (fst h) \<and> list_all isTextChar (snd h)"

lemma encodeHeaderFields_Cons:
  "encodeHeaderFields (h # hs) =
     (if sendable h
      then case encodeHeaderFields hs of Inl e \<Rightarrow> Inl e | Inr s \<Rightarrow> Inr (show_header h @ s)
      else Inl (RequestError (if fst h = [] \<or> \<not> list_all isTokenChar (fst h)
        then ''Invalid header field name'' else ''Invalid header field value'')))"
  using encodeHeaderLoop_eq [of "show_header h" hs]
  by (auto simp: encodeHeaderFields_def sendable_def token_def show_header_def)

subsection \<open>Base64\<close>

lemma b64_value_chars: "i < 64 \<Longrightarrow> b64_value (b64_chars ! i) = Some i"
proof -
  have "list_all (\<lambda>i. b64_value (b64_chars ! i) = Some i) [0..<64]"
    by code_simp
  then show "i < 64 \<Longrightarrow> b64_value (b64_chars ! i) = Some i"
    by (auto simp: list_all_iff)
qed

lemma b64_chars_not_pad: "i < 64 \<Longrightarrow> b64_chars ! i \<noteq> CHR ''=''"
proof -
  have "list_all (\<lambda>i. b64_chars ! i \<noteq> CHR ''='') [0..<64]"
    by code_simp
  then show "i < 64 \<Longrightarrow> b64_chars ! i \<noteq> CHR ''=''"
    by (auto simp: list_all_iff)
qed

text \<open>The bit operations on one byte, as arithmetic.\<close>

lemma unat_byte_less: "unat (a :: 8 word) < 256"
  using unsigned_less [of a] by simp

lemma and_mask_numerals:
  "a AND 0x03 = take_bit 2 (a :: 8 word)" "a AND 0x0F = take_bit 4 a" "a AND 0x3F = take_bit 6 a"
  by (simp_all add: take_bit_eq_mask mask_eq_exp_minus_1)

lemma bits_first: "unat (drop_bit 2 (a AND 0xFC)) = unat (a :: 8 word) div 4"
proof -
  have "drop_bit 2 (a AND 0xFC) = take_bit 6 (drop_bit 2 a)"
    by (simp add: take_bit_eq_mask mask_eq_exp_minus_1)
  then show ?thesis
    using unat_byte_less [of a]
    by (simp add: take_bit_eq_mod drop_bit_eq_div unat_mod_distrib unat_div_distrib)
qed

lemma bits_last: "unat (a AND 0x3F) = unat (a :: 8 word) mod 64"
  by (simp add: and_mask_numerals take_bit_eq_mod unat_mod_distrib)

lemma bits_hi: "unat (push_bit 4 (a AND 0x03)) = unat (a :: 8 word) mod 4 * 16"
  "unat (drop_bit 4 (b AND 0xF0)) = unat (b :: 8 word) div 16"
proof -
  have "unat (a AND 0x03) = unat a mod 4"
    by (simp add: and_mask_numerals take_bit_eq_mod unat_mod_distrib)
  moreover have "unat a mod 4 * 16 < 256" by (rule less_le_trans [of _ "4 * 16"]) simp_all
  ultimately show "unat (push_bit 4 (a AND 0x03)) = unat a mod 4 * 16"
    by (simp add: push_bit_eq_mult unat_word_ariths)
  have "drop_bit 4 (b AND 0xF0) = take_bit 4 (drop_bit 4 b)"
    by (simp add: take_bit_eq_mask mask_eq_exp_minus_1)
  then show "unat (drop_bit 4 (b AND 0xF0)) = unat b div 16"
    using unat_byte_less [of b]
    by (simp add: take_bit_eq_mod drop_bit_eq_div unat_mod_distrib unat_div_distrib)
qed

lemma bits_lo: "unat (push_bit 2 (a AND 0x0F)) = unat (a :: 8 word) mod 16 * 4"
  "unat (drop_bit 6 (b AND 0xC0)) = unat (b :: 8 word) div 64"
proof -
  have "unat (a AND 0x0F) = unat a mod 16"
    by (simp add: and_mask_numerals take_bit_eq_mod unat_mod_distrib)
  moreover have "unat a mod 16 * 4 < 256" by (rule less_le_trans [of _ "16 * 4"]) simp_all
  ultimately show "unat (push_bit 2 (a AND 0x0F)) = unat a mod 16 * 4"
    by (simp add: push_bit_eq_mult unat_word_ariths)
  have "drop_bit 6 (b AND 0xC0) = take_bit 2 (drop_bit 6 b)"
    by (simp add: take_bit_eq_mask mask_eq_exp_minus_1)
  then show "unat (drop_bit 6 (b AND 0xC0)) = unat b div 64"
    using unat_byte_less [of b]
    by (simp add: take_bit_eq_mod drop_bit_eq_div unat_mod_distrib unat_div_distrib)
qed

lemma bits_sum:
  "unat (push_bit 4 (a AND 0x03) + drop_bit 4 (b AND 0xF0)) = unat (a :: 8 word) mod 4 * 16 + unat (b :: 8 word) div 16"
  "unat (push_bit 2 (a AND 0x0F) + drop_bit 6 (b AND 0xC0)) = unat (a :: 8 word) mod 16 * 4 + unat (b :: 8 word) div 64"
proof -
  have "unat a mod 4 * 16 + unat b div 16 < 256" "unat a mod 16 * 4 + unat b div 64 < 256"
    using unat_byte_less [of b] by linarith+
  then show "unat (push_bit 4 (a AND 0x03) + drop_bit 4 (b AND 0xF0)) = unat a mod 4 * 16 + unat b div 16"
    "unat (push_bit 2 (a AND 0x0F) + drop_bit 6 (b AND 0xC0)) = unat a mod 16 * 4 + unat b div 64"
    unfolding unat_word_ariths bits_hi bits_lo by simp_all
qed

lemma unat_u8 [simp]: "unat (u8 c) = byte c"
proof -
  have "u8 c = of_nat (byte c)" by (simp add: of_nat_of_char)
  then show ?thesis by (simp add: unat_of_nat)
qed

text \<open>A full group of three bytes, and the two kinds of remainder, in terms of the byte values.\<close>

lemma b64_quad_eq:
  "b64_quad (u8 x) (u8 y) (u8 z) =
     [b64_chars ! (byte x div 4), b64_chars ! (byte x mod 4 * 16 + byte y div 16),
      b64_chars ! (byte y mod 16 * 4 + byte z div 64), b64_chars ! (byte z mod 64)]"
  by (simp only: b64_quad_def b64_chr_def bits_first bits_last bits_sum unat_u8)

lemma b64_loop_groups:
  "b64_loop acc [] (x # y # z # s) = b64_loop (acc @ b64_quad (u8 x) (u8 y) (u8 z)) [] s"
  by (simp add: Let_def)

lemma b64_loop_acc: "b64_loop acc buf s = (acc @ fst (b64_loop [] buf s), snd (b64_loop [] buf s))"
proof (induction s arbitrary: acc buf)
  case (Cons i s)
  show ?case
    using Cons [of "acc @ b64_quad (buf ! 0) (buf ! 1) (u8 i)" "[]"]
      Cons [of "b64_quad (buf ! 0) (buf ! 1) (u8 i)" "[]"] Cons [of acc "buf @ [u8 i]"]
      Cons [of "acc @ b64_quad ((buf @ [u8 i]) ! 0) ((buf @ [u8 i]) ! 1) ((buf @ [u8 i]) ! 2)" "[]"]
      Cons [of "b64_quad ((buf @ [u8 i]) ! 0) ((buf @ [u8 i]) ! 1) ((buf @ [u8 i]) ! 2)" "[]"]
    by (simp add: Let_def)
qed simp

lemma encodeBase64_group:
  "encodeBase64 (x # y # z # s) = b64_quad (u8 x) (u8 y) (u8 z) @ encodeBase64 s"
proof -
  have "b64_finish (acc @ fst p, snd p) = acc @ b64_finish p" for acc p
    by (cases p) (simp add: b64_finish_def)
  then show ?thesis
    unfolding encodeBase64_def b64_loop_groups by (metis b64_loop_acc append_Nil)
qed

lemmas bits_arith = b64_chr_def bits_first bits_last bits_hi bits_lo bits_sum unat_u8

lemma b64_finish_eq:
  "b64_finish (r, []) = r"
  "b64_finish (r, [a]) = r @ [b64_chars ! (unat a div 4), b64_chars ! (unat a mod 4 * 16), CHR ''='', CHR ''='']"
  "b64_finish (r, [a, b]) = r @ [b64_chars ! (unat a div 4), b64_chars ! (unat a mod 4 * 16 + unat b div 16),
     b64_chars ! (unat b mod 16 * 4), CHR ''='']"
  by (simp_all only: b64_finish_def prod.case bits_arith) (simp_all add: numeral_2_eq_2)

lemma b64_loop_rest: "b64_loop [] [] [x] = ([], [u8 x])" "b64_loop [] [] [x, y] = ([], [u8 x, u8 y])"
  by simp_all

lemma encodeBase64_rest:
  "encodeBase64 [] = []"
  "encodeBase64 [x] = [b64_chars ! (byte x div 4), b64_chars ! (byte x mod 4 * 16), CHR ''='', CHR ''='']"
  "encodeBase64 [x, y] = [b64_chars ! (byte x div 4), b64_chars ! (byte x mod 4 * 16 + byte y div 16),
     b64_chars ! (byte y mod 16 * 4), CHR ''='']"
  by (simp_all add: encodeBase64_def b64_loop_rest b64_finish_eq)

text \<open>The indices into the alphabet are in range, and determine the bytes.\<close>

lemma b64_index_bounds:
  "byte x div 4 < 64" "byte x mod 4 * 16 < 64" "byte x mod 4 * 16 + byte y div 16 < 64"
  "byte x mod 16 * 4 < 64" "byte x mod 16 * 4 + byte y div 64 < 64" "byte x mod 64 < 64"
  using byte_lt [of x] byte_lt [of y] by linarith+

lemma b64_index_inverse:
  "byte y div 16 div 16 = 0" "byte y div 16 mod 16 = byte y div 16"
  "byte z div 64 div 4 = 0" "byte z div 64 mod 4 = byte z div 64"
proof -
  have "byte y div 16 < 16" "byte z div 64 < 4"
    using byte_lt [of y] byte_lt [of z] by linarith+
  then show "byte y div 16 div 16 = 0" "byte y div 16 mod 16 = byte y div 16"
    "byte z div 64 div 4 = 0" "byte z div 64 mod 4 = byte z div 64"
    by simp_all
qed

lemma b64_groups_induct [case_names Nil One Two Three]:
  assumes "P []" and "\<And>x. P [x]" and "\<And>x y. P [x, y]"
    and "\<And>x y z s. P s \<Longrightarrow> P (x # y # z # s)"
  shows "P s"
proof (induction s rule: length_induct)
  case (1 s)
  then show ?case
    using assms by (cases s; cases "tl s"; cases "tl (tl s)") auto
qed

lemma b64_decode_long:
  "t \<noteq> [] \<Longrightarrow> b64_decode (p # q # r # s # t) =
     (case (b64_value p, b64_value q, b64_value r, b64_value s, b64_decode t) of
        (Some i, Some j, Some k, Some l, Some u) \<Rightarrow>
          Some (char_of (i * 4 + j div 16) # char_of (j mod 16 * 16 + k div 4) #
                char_of (k mod 4 * 64 + l) # u)
      | _ \<Rightarrow> None)"
  by (cases t) auto

section \<open>Properties\<close>

text \<open>
  Base64 encoding loses nothing: the RFC 4648 decoder gives back the bytes that were
  encoded, for every length, so with zero, one or two padding characters.
\<close>

theorem decode_encodeBase64: "b64_decode (encodeBase64 s) = Some s"
proof (induction s rule: b64_groups_induct)
  case Nil
  then show ?case by (simp add: encodeBase64_rest)
next
  case (One x)
  then show ?case
    by (simp add: encodeBase64_rest b64_value_chars b64_index_bounds b64_index_inverse)
next
  case (Two x y)
  then show ?case
    by (simp add: encodeBase64_rest b64_value_chars b64_chars_not_pad b64_index_bounds
        b64_index_inverse)
next
  case (Three x y z s)
  show ?case
  proof (cases "encodeBase64 s = []")
    case True
    with Three.IH have "s = []" by simp
    then show ?thesis
      by (simp add: encodeBase64_group encodeBase64_rest b64_quad_eq b64_value_chars
          b64_chars_not_pad b64_index_bounds b64_index_inverse)
  next
    case False
    with Three.IH show ?thesis
      by (simp add: encodeBase64_group b64_quad_eq b64_decode_long b64_value_chars
          b64_index_bounds b64_index_inverse)
  qed
qed

text \<open>
  Header fields are encoded exactly when every name is a non-empty token and every value
  is text; the output is then one line per field and nothing else, so no field value can
  smuggle in a line of its own. Otherwise a \<open>RequestError\<close> names what is wrong.
\<close>

theorem encodeHeaderFields_spec:
  "encodeHeaderFields hs =
     (if list_all sendable hs then Inr (concat (map show_header hs))
      else Inl (RequestError
        (if token (fst (hd (dropWhile sendable hs)))
         then ''Invalid header field value'' else ''Invalid header field name'')))"
proof (induction hs)
  case Nil
  then show ?case by (simp add: encodeHeaderFields_def)
next
  case (Cons h hs)
  then show ?case
    by (cases "sendable h") (auto simp: encodeHeaderFields_Cons token_def)
qed

end
