(* ===== verification/HttpSocket.thy ===== *)
theory HttpSocket
  imports HttpTypes
begin

text \<open>
  The class \<open>Socket\<close> of \<open>HTTPRequest.hpp\<close> (lines 226-493, POSIX branch), in two parts.
  The first is the ownership of the descriptor: constructor, destructor, move constructor and
  move assignment over the descriptors the operating system has open. The second is the
  input and output: \<open>select\<close>, \<open>connect\<close>, \<open>send\<close> and \<open>recv\<close> with their retries on
  \<open>EINTR\<close>. The operating system is a parameter: the results of its calls, in order, are part
  of the state \<open>net\<close>.
\<close>

section \<open>Ownership of descriptors\<close>

definition invalid :: int where
  "invalid = -1"

definition getAddressFamily :: "internet_protocol \<Rightarrow> int" where
  "getAddressFamily p = (case p of V4 \<Rightarrow> 2 | V6 \<Rightarrow> 10)"

text \<open>
  The live \<open>Socket\<close> objects by name, with their \<open>endpoint\<close>; the descriptors that are open;
  and how often \<open>::close\<close> was called on one that was not.
\<close>

record sockets =
  endpoint :: "nat \<Rightarrow> int option"
  os_open :: "int set"
  bad_closes :: nat

definition os_close :: "int \<Rightarrow> sockets \<Rightarrow> sockets" where
  "os_close fd s =
     (if fd \<in> os_open s then s\<lparr>os_open := os_open s - {fd}\<rparr> else s\<lparr>bad_closes := Suc (bad_closes s)\<rparr>)"

text \<open>
  The constructor, given what \<open>::socket\<close> and the two \<open>fcntl\<close> calls return (with
  \<open>errno\<close>). On failure the object does not come to life, so its destructor does not run.
\<close>

definition Socket_new :: "nat \<Rightarrow> int \<Rightarrow> int \<Rightarrow> int \<Rightarrow> int \<Rightarrow> sockets \<Rightarrow> (http_error + unit) \<times> sockets" where
  "Socket_new x fd getfl setfl errno s =
     (if fd = invalid then (Inl (SystemError errno ''Failed to create socket''), s)
      else let s = s\<lparr>os_open := insert fd (os_open s)\<rparr>
           in if getfl = -1
              then (Inl (SystemError errno ''Failed to get socket flags''), os_close fd s)
              else if setfl = -1
              then (Inl (SystemError errno ''Failed to set socket flags''), os_close fd s)
              else (Inr (), s\<lparr>endpoint := (endpoint s)(x \<mapsto> fd)\<rparr>))"

definition Socket_delete :: "nat \<Rightarrow> sockets \<Rightarrow> sockets" where
  "Socket_delete x s =
     (case endpoint s x of None \<Rightarrow> s
      | Some e \<Rightarrow>
          let s' = (if e \<noteq> invalid then os_close e s else s)
          in s'\<lparr>endpoint := (endpoint s')(x := None)\<rparr>)"

text \<open>\<open>Socket x{std::move(other)}\<close>.\<close>

definition Socket_move :: "nat \<Rightarrow> nat \<Rightarrow> sockets \<Rightarrow> sockets" where
  "Socket_move x other s =
     (case endpoint s other of None \<Rightarrow> s
      | Some e \<Rightarrow> s\<lparr>endpoint := (endpoint s)(x \<mapsto> e, other \<mapsto> invalid)\<rparr>)"

text \<open>\<open>this = std::move(other)\<close>, with the test for self-assignment.\<close>

definition Socket_assign :: "nat \<Rightarrow> nat \<Rightarrow> sockets \<Rightarrow> sockets" where
  "Socket_assign this other s =
     (case (endpoint s this, endpoint s other) of
        (Some e, Some e') \<Rightarrow>
          if other = this then s
          else let s' = (if e \<noteq> invalid then os_close e s else s)
               in s'\<lparr>endpoint := (endpoint s')(this \<mapsto> e', other \<mapsto> invalid)\<rparr>
      | _ \<Rightarrow> s)"

subsection \<open>A program that uses sockets\<close>

datatype sock_op =
    New nat int int int int
  | Delete nat
  | Move nat nat
  | Assign nat nat

text \<open>
  When C++ and the system allow an operation: a constructor runs on a name that is not live,
  the others on live ones, and \<open>::socket\<close> returns -1 or a descriptor that is not open.
\<close>

fun op_allowed :: "sockets \<Rightarrow> sock_op \<Rightarrow> bool" where
  "op_allowed s (New x fd g f e) \<longleftrightarrow> endpoint s x = None \<and> fd \<notin> os_open s"
| "op_allowed s (Delete x) \<longleftrightarrow> endpoint s x \<noteq> None"
| "op_allowed s (Move x y) \<longleftrightarrow> endpoint s x = None \<and> endpoint s y \<noteq> None"
| "op_allowed s (Assign x y) \<longleftrightarrow> endpoint s x \<noteq> None \<and> endpoint s y \<noteq> None"

fun sock_step :: "sock_op \<Rightarrow> sockets \<Rightarrow> sockets" where
  "sock_step (New x fd g f e) s = snd (Socket_new x fd g f e s)"
| "sock_step (Delete x) s = Socket_delete x s"
| "sock_step (Move x y) s = Socket_move x y s"
| "sock_step (Assign x y) s = Socket_assign x y s"

definition no_sockets :: sockets where
  "no_sockets = \<lparr>endpoint = Map.empty, os_open = {}, bad_closes = 0\<rparr>"

fun run_allowed :: "sockets \<Rightarrow> sock_op list \<Rightarrow> bool" where
  "run_allowed s [] \<longleftrightarrow> True"
| "run_allowed s (x # xs) \<longleftrightarrow> op_allowed s x \<and> run_allowed (sock_step x s) xs"

inductive sock_reach :: "sockets \<Rightarrow> bool" where
  sock_start: "sock_reach no_sockets"
| sock_step: "sock_reach s \<Longrightarrow> op_allowed s x \<Longrightarrow> sock_reach (sock_step x s)"

text \<open>
  The objects that hold a descriptor. Every open descriptor has exactly one owner, a
  descriptor that is not open has none, and no close has failed.
\<close>

definition owners :: "sockets \<Rightarrow> int \<Rightarrow> nat set" where
  "owners s fd = {x. endpoint s x = Some fd}"

definition owned :: "sockets \<Rightarrow> bool" where
  "owned s \<longleftrightarrow> bad_closes s = 0 \<and> invalid \<notin> os_open s \<and>
     (\<forall>fd. fd \<noteq> invalid \<longrightarrow> (if fd \<in> os_open s then \<exists>x. owners s fd = {x} else owners s fd = {}))"

lemma ownedD:
  assumes "owned s"
  shows "bad_closes s = 0" "invalid \<notin> os_open s"
    "fd \<noteq> invalid \<Longrightarrow> fd \<in> os_open s \<Longrightarrow> \<exists>x. owners s fd = {x}"
    "fd \<noteq> invalid \<Longrightarrow> fd \<notin> os_open s \<Longrightarrow> owners s fd = {}"
  using assms by (auto simp: owned_def)

lemma owned_endpoint:
  assumes "owned s" and "endpoint s x = Some e" and "e \<noteq> invalid"
  shows "e \<in> os_open s" and "owners s e = {x}"
proof -
  from assms(2) have "x \<in> owners s e" by (simp add: owners_def)
  with ownedD(3,4) [OF assms(1,3)] show "e \<in> os_open s" "owners s e = {x}"
    by (metis empty_iff, metis empty_iff singletonD)
qed

lemma ownedI:
  assumes "bad_closes s = 0" and "invalid \<notin> os_open s"
    and "\<And>fd. fd \<noteq> invalid \<Longrightarrow> fd \<in> os_open s \<Longrightarrow> \<exists>x. owners s fd = {x}"
    and "\<And>fd. fd \<noteq> invalid \<Longrightarrow> fd \<notin> os_open s \<Longrightarrow> owners s fd = {}"
  shows "owned s"
  using assms by (auto simp: owned_def)

lemma owned_init: "owned no_sockets"
  by (simp add: owned_def owners_def no_sockets_def)

lemma owned_new:
  assumes "owned s" and "endpoint s x = None" and "fd \<notin> os_open s"
  shows "owned (snd (Socket_new x fd g f e s))"
proof (cases "fd = invalid \<or> g = -1 \<or> f = -1")
  case True
  have "insert fd (os_open s) - {fd} = os_open s" using assms(3) by auto
  then have "snd (Socket_new x fd g f e s) = s"
    using True by (auto simp: Socket_new_def os_close_def Let_def)
  then show ?thesis using assms(1) by simp
next
  case False
  then have eq: "snd (Socket_new x fd g f e s) =
      s\<lparr>os_open := insert fd (os_open s), endpoint := (endpoint s)(x \<mapsto> fd)\<rparr>" (is "_ = ?s'")
    by (simp add: Socket_new_def Let_def)
  have own: "owners ?s' d = (if d = fd then insert x (owners s d) else owners s d)" for d
    using assms(2) by (auto simp: owners_def)
  have "owners s fd = {}" using ownedD(4) [OF assms(1)] assms(3) False by blast
  then show ?thesis
    unfolding eq using False ownedD [OF assms(1)]
    by (intro ownedI) (auto simp: own)
qed

lemma owners_delete: "owners (s\<lparr>endpoint := (endpoint s)(x := None)\<rparr>) d = owners s d - {x}"
  by (auto simp: owners_def)

lemma owners_os_close [simp]: "owners (os_close fd s) d = owners s d"
  "endpoint (os_close fd s) = endpoint s"
  by (auto simp: owners_def os_close_def)

lemma os_close_open: "fd \<in> os_open s \<Longrightarrow> os_close fd s = s\<lparr>os_open := os_open s - {fd}\<rparr>"
  by (simp add: os_close_def)

lemma owners_other:
  assumes "endpoint s x = Some e" and "d \<noteq> e"
  shows "owners s d - {x} = owners s d"
  using assms by (auto simp: owners_def)

lemma owned_delete:
  assumes "owned s"
  shows "owned (Socket_delete x s)"
proof (cases "endpoint s x")
  case (Some e)
  show ?thesis
  proof (cases "e = invalid")
    case True
    then have eq: "Socket_delete x s = s\<lparr>endpoint := (endpoint s)(x := None)\<rparr>"
      using Some by (simp add: Socket_delete_def Let_def)
    show ?thesis
      unfolding eq using ownedD [OF assms] owners_other [OF Some] True
      by (intro ownedI) (simp_all add: owners_delete)
  next
    case False
    note o = owned_endpoint [OF assms Some False]
    have eq: "Socket_delete x s =
        s\<lparr>os_open := os_open s - {e}, endpoint := (endpoint s)(x := None)\<rparr>" (is "_ = ?s'")
      using Some False by (simp add: Socket_delete_def Let_def os_close_open [OF o(1)])
    have own: "owners ?s' d = (if d = e then {} else owners s d)" for d
      using o(2) Some by (auto simp: owners_def)
    show ?thesis
      unfolding eq using ownedD [OF assms] by (intro ownedI) (auto simp: own)
  qed
qed (simp add: Socket_delete_def assms)

lemma owned_move:
  assumes "owned s" and "endpoint s x = None"
  shows "owned (Socket_move x y s)"
proof (cases "endpoint s y")
  case (Some e)
  then have xy: "x \<noteq> y" using assms(2) by auto
  have eq: "Socket_move x y s = s\<lparr>endpoint := (endpoint s)(x \<mapsto> e, y \<mapsto> invalid)\<rparr>" (is "_ = ?s'")
    using Some by (simp add: Socket_move_def)
  have own: "owners ?s' d = (if d = e then {x} else owners s d)" if "d \<noteq> invalid" for d
    using that xy assms(2) Some owned_endpoint(2) [OF assms(1) Some] by (auto simp: owners_def)
  show ?thesis
    unfolding eq using ownedD [OF assms(1)] owned_endpoint(1) [OF assms(1) Some]
    by (intro ownedI) (auto simp: own)
qed (simp add: Socket_move_def assms)

lemma owned_assign:
  assumes "owned s"
  shows "owned (Socket_assign x y s)"
proof (cases "x = y \<or> endpoint s x = None \<or> endpoint s y = None")
  case True
  then show ?thesis using assms by (auto simp: Socket_assign_def split: option.splits)
next
  case False
  then obtain e e' where e: "endpoint s x = Some e" "endpoint s y = Some e'" and xy: "x \<noteq> y"
    by auto
  let ?o = "if e = invalid then os_open s else os_open s - {e}"
  have eq: "Socket_assign x y s =
      s\<lparr>os_open := ?o, endpoint := (endpoint s)(x \<mapsto> e', y \<mapsto> invalid)\<rparr>" (is "_ = ?s'")
    using e xy owned_endpoint(1) [OF assms e(1)]
    by (auto simp: Socket_assign_def Let_def os_close_open)
  have own: "owners ?s' d = (if d = e' then {x} else if d = e then {} else owners s d)"
    if "d \<noteq> invalid" for d
    using that xy e owned_endpoint(2) [OF assms e(1)] owned_endpoint(2) [OF assms e(2)]
    by (auto simp: owners_def)
  have "e' \<in> ?o" if "e' \<noteq> invalid"
    using owned_endpoint [OF assms e(2) that] owned_endpoint(2) [OF assms e(1)] xy e that by auto
  then show ?thesis
    unfolding eq using ownedD [OF assms]
    by (intro ownedI) (auto simp: own split: if_splits)
qed

lemma owned_step: "owned s \<Longrightarrow> op_allowed s x \<Longrightarrow> owned (sock_step x s)"
  by (cases x) (auto simp: owned_new owned_delete owned_move owned_assign)

lemma sock_reach_owned: "sock_reach s \<Longrightarrow> owned s"
  by (induction rule: sock_reach.induct) (auto intro: owned_init owned_step)

lemma sock_reach_run: "sock_reach s \<Longrightarrow> run_allowed s xs \<Longrightarrow> sock_reach (fold sock_step xs s)"
  by (induction xs arbitrary: s) (auto intro: sock_reach.sock_step)

section \<open>Input and output\<close>

text \<open>
  What a system call returns: a value, or -1 with \<open>errno\<close>. A connection's future is the list
  of results each kind of call will give; an exhausted list is a call that never returns.
\<close>

datatype 'a sysres = Ret 'a | Fail int

definition EINTR :: int where "EINTR = 4"
definition EINPROGRESS :: int where "EINPROGRESS = 115"

text \<open>\<open>r = f(); while (r == -1 && errno == EINTR) r = f();\<close>\<close>

fun retry :: "'a sysres list \<Rightarrow> ('a sysres \<times> 'a sysres list) option" where
  "retry [] = None"
| "retry (Ret n # t) = Some (Ret n, t)"
| "retry (Fail e # t) = (if e = EINTR then retry t else Some (Fail e, t))"

text \<open>\<open>Socket::SelectType\<close>.\<close>

datatype select_type = SelectRead | SelectWrite

text \<open>\<open>waits\<close> records what every wait for readiness was asked for.\<close>

record net =
  selects :: "int sysres list"
  connects :: "int sysres list"
  sockopts :: "int sysres list"
  sends :: "nat sysres list"
  recvs :: "string sysres list"
  sent :: string
  waits :: "(select_type \<times> (int \<times> int) option) list"
  clock :: "nat \<Rightarrow> int"
  ticks :: nat

text \<open>
  A call on the connection: \<open>None\<close> when it does not return, \<open>Inl\<close> an exception.
\<close>

type_synonym 'a call = "net \<Rightarrow> (http_error + 'a \<times> net) option"

definition nbind :: "'a call \<Rightarrow> ('a \<Rightarrow> 'b call) \<Rightarrow> 'b call" where
  "nbind m f s = (case m s of None \<Rightarrow> None | Some (Inl e) \<Rightarrow> Some (Inl e) | Some (Inr (x, s)) \<Rightarrow> f x s)"

definition nthrow :: "http_error \<Rightarrow> 'a call" where "nthrow e s = Some (Inl e)"
definition nreturn :: "'a \<Rightarrow> 'a call" where "nreturn x s = Some (Inr (x, s))"

text \<open>\<open>std::chrono::steady_clock::now()\<close>, in nanoseconds: the clock is read \<open>ticks\<close> times so far.\<close>

definition now :: "int call" where
  "now s = Some (Inr (clock s (ticks s), s\<lparr>ticks := Suc (ticks s)\<rparr>))"

text \<open>
  The \<open>timeval\<close> that \<open>select\<close> is called with: seconds and microseconds of the timeout in
  milliseconds, or none (wait for ever) when it is negative.
\<close>

definition selectTimeout :: "int \<Rightarrow> (int \<times> int) option" where
  "selectTimeout timeout =
     (if timeout \<ge> 0 then Some (cdiv timeout 1000, cmod timeout 1000 * 1000) else None)"

definition sock_select :: "select_type \<Rightarrow> int \<Rightarrow> unit call" where
  "sock_select type timeout s =
     (case retry (selects s) of
        None \<Rightarrow> None
      | Some (Fail e, t) \<Rightarrow> Some (Inl (SystemError e ''Failed to select socket''))
      | Some (Ret count, t) \<Rightarrow>
          if count = 0 then Some (Inl (ResponseError ''Request timed out''))
          else Some (Inr ((), s\<lparr>selects := t, waits := waits s @ [(type, selectTimeout timeout)]\<rparr>)))"

definition sock_getsockopt :: "int call" where
  "sock_getsockopt s =
     (case sockopts s of
        [] \<Rightarrow> None
      | Fail e # t \<Rightarrow> Some (Inl (SystemError e ''Failed to get socket option''))
      | Ret err # t \<Rightarrow> Some (Inr (err, s\<lparr>sockopts := t\<rparr>)))"

definition sock_connect :: "int \<Rightarrow> unit call" where
  "sock_connect timeout s =
     (case retry (connects s) of
        None \<Rightarrow> None
      | Some (Ret r, t) \<Rightarrow> Some (Inr ((), s\<lparr>connects := t\<rparr>))
      | Some (Fail e, t) \<Rightarrow>
          if e = EINPROGRESS
          then nbind (sock_select SelectWrite timeout) (\<lambda>_.
               nbind sock_getsockopt (\<lambda>socketError.
                 if socketError \<noteq> 0 then nthrow (SystemError socketError ''Failed to connect'')
                 else nreturn ())) (s\<lparr>connects := t\<rparr>)
          else Some (Inl (SystemError e ''Failed to connect'')))"

text \<open>
  \<open>::send\<close> takes at most the bytes it is given: a result \<open>Ret k\<close> is a kernel with room for
  \<open>k\<close> bytes. What it takes is appended to \<open>sent\<close>.
\<close>

definition sock_send :: "string \<Rightarrow> int \<Rightarrow> nat call" where
  "sock_send buffer timeout =
     nbind (sock_select SelectWrite timeout) (\<lambda>_ s.
       case retry (sends s) of
         None \<Rightarrow> None
       | Some (result, t) \<Rightarrow>
           (case result of
              Fail e \<Rightarrow> Some (Inl (SystemError e ''Failed to send data''))
            | Ret k \<Rightarrow> Some (Inr (min k (length buffer),
                s\<lparr>sends := t, sent := sent s @ take k buffer\<rparr>))))"

text \<open>\<open>::recv\<close> returns at most \<open>length\<close> bytes; what it leaves stays readable. No bytes: closed.\<close>

definition sock_recv :: "nat \<Rightarrow> int \<Rightarrow> string call" where
  "sock_recv length' timeout =
     nbind (sock_select SelectRead timeout) (\<lambda>_ s.
       case retry (recvs s) of
         None \<Rightarrow> None
       | Some (result, t) \<Rightarrow>
           (case result of
              Fail e \<Rightarrow> Some (Inl (SystemError e ''Failed to read data''))
            | Ret d \<Rightarrow> Some (Inr (take length' d,
                s\<lparr>recvs := (if length' < length d then Ret (drop length' d) # t else t)\<rparr>))))"

section \<open>Lemmas\<close>

lemma retry_shorter: "retry l = Some (r, t) \<Longrightarrow> length t < length l"
  by (induction l rule: retry.induct) (auto split: if_splits)

lemma retry_suffix: "retry l = Some (r, t) \<Longrightarrow> \<exists>k. l = replicate k (Fail EINTR) @ r # t"
proof (induction l rule: retry.induct)
  case (2 n t')
  then show ?case by (intro exI [of _ 0]) simp
next
  case (3 e l)
  show ?case
  proof (cases "e = EINTR")
    case True
    with 3 obtain k where "l = replicate k (Fail EINTR) @ r # t" by auto
    with True show ?thesis by (intro exI [of _ "Suc k"]) simp
  next
    case False
    with 3 show ?thesis by (intro exI [of _ 0]) simp
  qed
qed simp

lemma nbind_Inr:
  "nbind m f s = Some (Inr (y, s')) \<longleftrightarrow> (\<exists>x t. m s = Some (Inr (x, t)) \<and> f x t = Some (Inr (y, s')))"
  by (auto simp: nbind_def split: option.splits sum.splits)

lemma case_retry_eq:
  "(case m of None \<Rightarrow> None | Some (r, t) \<Rightarrow> f r t) = Some y \<longleftrightarrow>
     (\<exists>r t. m = Some (r, t) \<and> f r t = Some y)"
  by (auto split: option.splits)

lemma case_sysres_Inr:
  "(case r of Ret k \<Rightarrow> Some (Inr (f k)) | Fail e \<Rightarrow> Some (Inl (g e))) = Some (Inr y) \<longleftrightarrow>
     (\<exists>k. r = Ret k \<and> f k = y)"
  by (cases r) auto

lemma sock_select_frame:
  "sock_select ty to s = Some (Inr (u, s')) \<Longrightarrow>
     \<exists>t. s' = s\<lparr>selects := t, waits := waits s @ [(ty, selectTimeout to)]\<rparr>"
  by (auto simp: sock_select_def split: option.splits sysres.splits if_splits)

lemma sock_send_Inr:
  assumes "sock_send b to s = Some (Inr (n, s'))"
  shows "n \<le> length b" "sent s' = sent s @ take n b" "length (sends s') < length (sends s)"
    "recvs s' = recvs s" "clock s' = clock s" "ticks s' = ticks s"
    "waits s' = waits s @ [(SelectWrite, selectTimeout to)]"
proof -
  from assms obtain t k u r where t: "sock_select SelectWrite to s = Some (Inr (u, t))"
    "retry (sends t) = Some (Ret k, r)" "n = min k (length b)"
    "s' = t\<lparr>sends := r, sent := sent t @ take k b\<rparr>"
    by (auto simp: sock_send_def nbind_Inr case_retry_eq case_sysres_Inr)
  from sock_select_frame [OF t(1)] retry_shorter [OF t(2)] t
  show "n \<le> length b" "sent s' = sent s @ take n b" "length (sends s') < length (sends s)"
    "recvs s' = recvs s" "clock s' = clock s" "ticks s' = ticks s"
    "waits s' = waits s @ [(SelectWrite, selectTimeout to)]"
    by (auto simp: min_def)
qed

lemma sock_recv_Inr:
  assumes "sock_recv l to s = Some (Inr (d, s'))"
  shows "length d \<le> l" "sent s' = sent s" "clock s' = clock s" "ticks s' = ticks s"
    "waits s' = waits s @ [(SelectRead, selectTimeout to)]"
    "\<exists>k b t. recvs s = replicate k (Fail EINTR) @ Ret b # t \<and> d = take l b \<and>
       recvs s' = (if l < length b then Ret (drop l b) # t else t)"
proof -
  from assms obtain t b u r where t: "sock_select SelectRead to s = Some (Inr (u, t))"
    "retry (recvs t) = Some (Ret b, r)" "d = take l b"
    "s' = t\<lparr>recvs := (if l < length b then Ret (drop l b) # r else r)\<rparr>"
    by (auto simp: sock_recv_def nbind_Inr case_retry_eq case_sysres_Inr)
  from retry_suffix [OF t(2)] obtain k where k: "recvs t = replicate k (Fail EINTR) @ Ret b # r" by auto
  from sock_select_frame [OF t(1)] have f: "recvs t = recvs s" "sent t = sent s"
    "clock t = clock s" "ticks t = ticks s" "waits t = waits s @ [(SelectRead, selectTimeout to)]"
    by auto
  show "length d \<le> l" "sent s' = sent s" "clock s' = clock s" "ticks s' = ticks s"
    "waits s' = waits s @ [(SelectRead, selectTimeout to)]" using t(3,4) f by simp_all
  show "\<exists>k b t. recvs s = replicate k (Fail EINTR) @ Ret b # t \<and> d = take l b \<and>
       recvs s' = (if l < length b then Ret (drop l b) # t else t)"
    using t(3,4) k f by (intro exI [of _ k] exI [of _ b] exI [of _ r]) simp
qed

text \<open>How much the peer can still send: what bounds the receive loop.\<close>

fun recv_size :: "string sysres list \<Rightarrow> nat" where
  "recv_size [] = 0"
| "recv_size (Ret b # t) = Suc (length b + recv_size t)"
| "recv_size (Fail e # t) = Suc (recv_size t)"

lemma recv_size_append: "recv_size (a @ b) = recv_size a + recv_size b"
  by (induction a rule: recv_size.induct) auto

lemma sock_recv_smaller:
  assumes "sock_recv l to s = Some (Inr (d, s'))" and "0 < l"
  shows "recv_size (recvs s') < recv_size (recvs s)"
proof -
  from sock_recv_Inr(6) [OF assms(1)] obtain k b t where
    "recvs s = replicate k (Fail EINTR) @ Ret b # t"
    "recvs s' = (if l < length b then Ret (drop l b) # t else t)" by blast
  then show ?thesis using assms(2) by (auto simp: recv_size_append)
qed

section \<open>Properties\<close>

text \<open>
  C38: whatever a program does with \<open>Socket\<close> objects - construct them (also when the
  constructor fails half-way), move, move-assign and destroy them - no descriptor is closed
  twice, every open descriptor has exactly one owning object, and once no object is left
  no descriptor is open.
\<close>

theorem socket_ownership:
  assumes "sock_reach s"
  shows "bad_closes s = 0 \<and> (\<forall>fd. fd \<in> os_open s \<longrightarrow> (\<exists>!x. endpoint s x = Some fd)) \<and>
    (endpoint s = Map.empty \<longrightarrow> os_open s = {})"
proof -
  have o: "owned s" using assms by (rule sock_reach_owned)
  have u: "\<exists>!x. endpoint s x = Some fd" if fd: "fd \<in> os_open s" for fd
  proof -
    have "fd \<noteq> invalid" using ownedD(2) [OF o] fd by auto
    from ownedD(3) [OF o this fd] obtain x where "owners s fd = {x}" by auto
    then have "endpoint s y = Some fd \<longleftrightarrow> y = x" for y by (auto simp: owners_def)
    then show ?thesis by simp
  qed
  then show ?thesis using ownedD(1) [OF o] by fastforce
qed

text \<open>
  A program that opens descriptor 7, fails to make 8 non-blocking, and moves the first
  object.
\<close>

definition demo_sockets :: sockets where
  "demo_sockets = fold sock_step [New 0 7 0 0 0, New 1 8 0 (-1) 22, Move 2 0] no_sockets"

lemma demo_sockets_eq:
  "demo_sockets = \<lparr>endpoint = [0 \<mapsto> invalid, 2 \<mapsto> 7], os_open = {7}, bad_closes = 0\<rparr>"
  by (auto simp: demo_sockets_def no_sockets_def Socket_new_def Socket_move_def os_close_def
      invalid_def fun_eq_iff)

theorem socket_ownership_witness:
  "sock_reach demo_sockets \<and> bad_closes demo_sockets = 0 \<and> (\<exists>!x. endpoint demo_sockets x = Some 7)"
proof -
  have "sock_reach demo_sockets"
    unfolding demo_sockets_def
    by (rule sock_reach_run [OF sock_start])
       (simp add: no_sockets_def Socket_new_def os_close_def invalid_def)
  from socket_ownership [OF this] this show ?thesis
    by (simp add: demo_sockets_eq)
qed

end
