(* ===== verification/HttpRequest.thy ===== *)
theory HttpRequest
  imports HttpEncode HttpSocket
begin

text \<open>
  The class \<open>Request\<close> of \<open>HTTPRequest.hpp\<close> (lines 992-1205): connecting, sending the
  encoded request piece by piece, and the incremental parser of the response with its three
  framings (chunked, content length, end of connection). The variables of \<open>Request::send\<close>
  that live across the receive loop are the record \<open>rstate\<close>; the loop is split at its
  \<open>break\<close>s and \<open>return\<close>s.
\<close>

section \<open>The response parser\<close>

record rstate =
  resp :: response
  responseData :: string
  parsingBody :: bool
  contentLengthReceived :: bool
  contentLength :: "64 word"
  chunkedResponse :: bool
  expectedChunkSize :: "64 word"
  removeCrlfAfterChunk :: bool

definition init_rstate :: rstate where
  "init_rstate = \<lparr>resp = empty_response, responseData = [], parsingBody = False,
     contentLengthReceived = False, contentLength = 0, chunkedResponse = False,
     expectedChunkSize = 0, removeCrlfAfterChunk = False\<rparr>"

definition toLower :: "char \<Rightarrow> char" where
  "toLower c = (if byte c \<ge> 0x41 \<and> byte c \<le> 0x5A then char_of (byte c + 32) else c)"

definition add_field :: "string \<Rightarrow> string \<Rightarrow> rstate \<Rightarrow> rstate" where
  "add_field n v s = s\<lparr>resp := (resp s)\<lparr>headerFields := headerFields (resp s) @ [(n, v)]\<rparr>\<rparr>"

text \<open>
  What the loop does with one header field. \<open>body.reserve\<close> throws \<open>std::length_error\<close> beyond
  \<open>max_size()\<close>, which is \<open>PTRDIFF_MAX\<close> for a vector of bytes.
\<close>

definition applyHeader :: "rstate \<Rightarrow> header_field \<Rightarrow> http_error + rstate" where
  "applyHeader s h =
     (let fieldName = map toLower (fst h); fieldValue = snd h
      in if fieldName = ''transfer-encoding'' then
           (if fieldValue = ''chunked''
            then Inr (add_field fieldName fieldValue (s\<lparr>chunkedResponse := True\<rparr>))
            else Inl (ResponseError (''Unsupported transfer encoding: '' @ fieldValue)))
         else if fieldName = ''content-length'' then
           rbind (stringToUint fieldValue) (\<lambda>n.
             if unat n > 0x7FFFFFFFFFFFFFFF then Inl LengthError
             else Inr (add_field fieldName fieldValue
                    (s\<lparr>contentLength := n, contentLengthReceived := True\<rparr>)))
         else Inr (add_field fieldName fieldValue s))"

function headerLoop :: "rstate \<Rightarrow> string \<Rightarrow> http_error + rstate" where
  "headerLoop s i =
     (case parseHeaderField i of
        Inl e \<Rightarrow> Inl e
      | Inr (h, i') \<Rightarrow> rbind (applyHeader s h) (\<lambda>s. if i' = [] then Inr s else headerLoop s i'))"
  by pat_completeness auto
termination
  by (relation "measure (\<lambda>(s, i). length i)") (auto dest: header_parser.rest_shorter)

declare headerLoop.simps [simp del]

text \<open>The block under \<open>!parsingBody\<close>; \<open>None\<close> is its \<open>break\<close> out of the receive loop.\<close>

definition parseHead :: "rstate \<Rightarrow> http_error + rstate option" where
  "parseHead s =
     (case find_sub (crlf @ crlf) (responseData s) of
        None \<Rightarrow> Inr None
      | Some e \<Rightarrow>
          rbind (parseStatusLine (take (e + 2) (responseData s))) (\<lambda>(st, i).
          rbind (headerLoop (s\<lparr>resp := (resp s)\<lparr>status := st\<rparr>\<rparr>) i) (\<lambda>s'.
          Inr (Some (s'\<lparr>responseData := drop (e + 4) (responseData s), parsingBody := True\<rparr>)))))"

text \<open>One round of the chunk loop: \<open>break\<close>, \<open>return response\<close>, or another round.\<close>

datatype chunk_ctrl = Break rstate | Return rstate | Continue rstate

definition takeChunk :: "rstate \<Rightarrow> rstate" where
  "takeChunk s =
     (let toWrite = min (unat (expectedChunkSize s)) (length (responseData s));
          s = s\<lparr>resp := (resp s)\<lparr>body := body (resp s) @ take toWrite (responseData s)\<rparr>,
                responseData := drop toWrite (responseData s),
                expectedChunkSize := expectedChunkSize s - of_nat toWrite\<rparr>
      in if expectedChunkSize s = 0 then s\<lparr>removeCrlfAfterChunk := True\<rparr> else s)"

definition dropChunkCrlf :: "rstate \<Rightarrow> http_error + rstate option" where
  "dropChunkCrlf s =
     (if removeCrlfAfterChunk s then
        (if length (responseData s) < 2 then Inr None
         else if take 2 (responseData s) \<noteq> crlf then Inl (ResponseError ''Invalid chunk'')
         else Inr (Some (s\<lparr>removeCrlfAfterChunk := False, responseData := drop 2 (responseData s)\<rparr>)))
      else Inr (Some s))"

definition chunkSizeLine :: "rstate \<Rightarrow> http_error + chunk_ctrl" where
  "chunkSizeLine s =
     (case find_sub crlf (responseData s) of
        None \<Rightarrow> Inr (Break s)
      | Some i \<Rightarrow>
          rbind (hexStringToUint (take i (responseData s))) (\<lambda>n.
          let s = s\<lparr>expectedChunkSize := n, responseData := drop (i + 2) (responseData s)\<rparr>
          in Inr (if n = 0 then Return s else Continue s)))"

definition chunkStep :: "rstate \<Rightarrow> http_error + chunk_ctrl" where
  "chunkStep s =
     (if expectedChunkSize s > 0 then
        let s = takeChunk s in Inr (if responseData s = [] then Break s else Continue s)
      else rbind (dropChunkCrlf s) (\<lambda>r.
        case r of None \<Rightarrow> Inr (Break s) | Some s \<Rightarrow> chunkSizeLine s))"

lemma chunkSizeLine_shorter:
  "chunkSizeLine s = Inr (Continue s') \<Longrightarrow> length (responseData s') < length (responseData s)"
  by (auto simp: chunkSizeLine_def result_simps Let_def split: option.splits if_splits
      dest: find_sub_Some_len)

lemma dropChunkCrlf_le:
  "dropChunkCrlf s = Inr (Some t) \<Longrightarrow> length (responseData t) \<le> length (responseData s)"
  by (auto simp: dropChunkCrlf_def split: if_splits)

lemma takeChunk_data:
  "responseData (takeChunk s) = drop (unat (expectedChunkSize s)) (responseData s)"
  by (simp add: takeChunk_def Let_def min_def)

lemma chunkStep_shorter:
  assumes "chunkStep s = Inr (Continue s')"
  shows "length (responseData s') < length (responseData s)"
proof (cases "expectedChunkSize s > 0")
  case True
  then have "0 < unat (expectedChunkSize s)" by (simp add: unat_gt_0 word_neq_0_conv)
  moreover have "s' = takeChunk s" "responseData s' \<noteq> []"
    using assms True by (auto simp: chunkStep_def Let_def split: if_splits)
  ultimately show ?thesis by (simp add: takeChunk_data)
next
  case False
  then obtain t where "dropChunkCrlf s = Inr (Some t)" "chunkSizeLine t = Inr (Continue s')"
    using assms by (auto simp: chunkStep_def result_simps split: option.splits)
  then show ?thesis
    by (metis dropChunkCrlf_le chunkSizeLine_shorter order_less_le_trans)
qed

text \<open>The result says whether \<open>send\<close> returns (\<open>True\<close>) or receives more (\<open>False\<close>).\<close>

function chunkLoop :: "rstate \<Rightarrow> http_error + (bool \<times> rstate)" where
  "chunkLoop s =
     (case chunkStep s of
        Inl e \<Rightarrow> Inl e
      | Inr (Break s') \<Rightarrow> Inr (False, s')
      | Inr (Return s') \<Rightarrow> Inr (True, s')
      | Inr (Continue s') \<Rightarrow> chunkLoop s')"
  by pat_completeness auto
termination
  by (relation "measure (\<lambda>s. length (responseData s))") (auto dest: chunkStep_shorter)

declare chunkLoop.simps [simp del]

definition plainBody :: "rstate \<Rightarrow> bool \<times> rstate" where
  "plainBody s =
     (let s = s\<lparr>resp := (resp s)\<lparr>body := body (resp s) @ responseData s\<rparr>, responseData := []\<rparr>
      in (contentLengthReceived s \<and> length (body (resp s)) \<ge> unat (contentLength s), s))"

definition feed :: "rstate \<Rightarrow> string \<Rightarrow> rstate" where
  "feed s d = s\<lparr>responseData := responseData s @ d\<rparr>"

text \<open>The body of the receive loop, after \<open>recv\<close> has returned some bytes.\<close>

definition onData :: "string \<Rightarrow> rstate \<Rightarrow> http_error + (bool \<times> rstate)" where
  "onData d s =
     (let s = feed s d
      in rbind (if \<not> parsingBody s then parseHead s else Inr (Some s)) (\<lambda>r.
           case r of
             None \<Rightarrow> Inr (True, s)
           | Some s \<Rightarrow> if chunkedResponse s then chunkLoop s else Inr (plainBody s)))"

section \<open>Request::send\<close>

definition getRemainingMilliseconds :: "int \<Rightarrow> int call" where
  "getRemainingMilliseconds time =
     nbind now (\<lambda>n. let remainingTime = cdiv (time - n) 1000000
       in nreturn (if remainingTime > 0 then remainingTime else 0))"

definition callTimeout :: "int \<Rightarrow> int \<Rightarrow> int call" where
  "callTimeout timeout stopTime =
     (if timeout \<ge> 0 then getRemainingMilliseconds stopTime else nreturn (-1))"

definition timedSend :: "int \<Rightarrow> int \<Rightarrow> string \<Rightarrow> nat call" where
  "timedSend timeout stopTime d = nbind (callTimeout timeout stopTime) (sock_send d)"

definition timedRecv :: "int \<Rightarrow> int \<Rightarrow> string call" where
  "timedRecv timeout stopTime = nbind (callTimeout timeout stopTime) (sock_recv 4096)"

lemma callTimeout_frame:
  "callTimeout timeout st n = Some (Inr (t, n')) \<Longrightarrow>
     sends n' = sends n \<and> recvs n' = recvs n \<and> sent n' = sent n \<and> selects n' = selects n"
  by (auto simp: callTimeout_def getRemainingMilliseconds_def nbind_Inr now_def nreturn_def Let_def
      split: if_splits)

lemma timedSend_Inr:
  assumes "timedSend timeout st d n = Some (Inr (k, n'))"
  shows "k \<le> length d" "sent n' = sent n @ take k d" "length (sends n') < length (sends n)"
    "recvs n' = recvs n"
  using assms callTimeout_frame sock_send_Inr
  unfolding timedSend_def nbind_Inr by metis+

lemma timedRecv_Inr:
  assumes "timedRecv timeout st n = Some (Inr (d, n'))"
  shows "length d \<le> 4096" "sent n' = sent n" "recv_size (recvs n') < recv_size (recvs n)"
proof -
  from assms obtain t m where m: "callTimeout timeout st n = Some (Inr (t, m))"
    "sock_recv 4096 t m = Some (Inr (d, n'))" by (auto simp: timedRecv_def nbind_Inr)
  from callTimeout_frame [OF m(1)] sock_recv_Inr(1,2) [OF m(2)] sock_recv_smaller [OF m(2)]
  show "length d \<le> 4096" "sent n' = sent n" "recv_size (recvs n') < recv_size (recvs n)" by auto
qed

function sendLoop :: "int \<Rightarrow> int \<Rightarrow> string \<Rightarrow> unit call" where
  "sendLoop timeout stopTime d n =
     (if d = [] then Some (Inr ((), n))
      else case timedSend timeout stopTime d n of
          None \<Rightarrow> None
        | Some (Inl e) \<Rightarrow> Some (Inl e)
        | Some (Inr (k, n')) \<Rightarrow> sendLoop timeout stopTime (drop k d) n')"
  by pat_completeness auto
termination
  by (relation "measure (\<lambda>(to, st, d, n). length (sends n))") (auto dest: timedSend_Inr(3))

declare sendLoop.simps [simp del]

function recvLoop :: "int \<Rightarrow> int \<Rightarrow> rstate \<Rightarrow> response call" where
  "recvLoop timeout stopTime s n =
     (case timedRecv timeout stopTime n of
        None \<Rightarrow> None
      | Some (Inl e) \<Rightarrow> Some (Inl e)
      | Some (Inr (d, n')) \<Rightarrow>
          if d = [] then Some (Inr (resp s, n'))
          else (case onData d s of
              Inl e \<Rightarrow> Some (Inl e)
            | Inr (fin, s') \<Rightarrow>
                if fin then Some (Inr (resp s', n')) else recvLoop timeout stopTime s' n'))"
  by pat_completeness auto
termination
  by (relation "measure (\<lambda>(to, st, s, n). recv_size (recvs n))") (auto dest: timedRecv_Inr(3))

declare recvLoop.simps [simp del]

text \<open>
  What the system answers before the connection is there: \<open>getaddrinfo\<close> (\<open>Some errno\<close> when it
  fails), \<open>::socket\<close> and the two \<open>fcntl\<close> calls, and their \<open>errno\<close>.
\<close>

record host_env =
  getaddrinfo :: "string \<Rightarrow> string \<Rightarrow> internet_protocol \<Rightarrow> int option"
  new_socket :: "int \<times> int \<times> int \<times> int"

record request =
  internetProtocol :: internet_protocol
  target :: uri

definition Request_new :: "string \<Rightarrow> internet_protocol \<Rightarrow> http_error + request" where
  "Request_new uriString protocol =
     rbind (parseUri uriString) (\<lambda>u. Inr \<lparr>internetProtocol = protocol, target = u\<rparr>)"

definition openSocket :: "host_env \<Rightarrow> unit call" where
  "openSocket env n =
     (case new_socket env of (fd, getfl, setfl, errno) \<Rightarrow>
        case fst (Socket_new 0 fd getfl setfl errno no_sockets) of
          Inl e \<Rightarrow> Some (Inl e)
        | Inr _ \<Rightarrow> Some (Inr ((), n)))"

definition Request_send ::
    "host_env \<Rightarrow> request \<Rightarrow> string \<Rightarrow> string \<Rightarrow> header_fields \<Rightarrow> int \<Rightarrow> response call" where
  "Request_send env r method content hs timeout =
     nbind now (\<lambda>t. let stopTime = t + timeout * 1000000; u = target r
       in if scheme u \<noteq> ''http'' then nthrow (RequestError ''Only HTTP scheme is supported'')
          else let pt = (if port u = [] then ''80'' else port u)
          in case getaddrinfo env (host u) pt (internetProtocol r) of
            Some e \<Rightarrow> nthrow (SystemError e (''Failed to get address info of '' @ host u))
          | None \<Rightarrow>
              (case encodeHtml u method content hs of
                 Inl e \<Rightarrow> nthrow e
               | Inr requestData \<Rightarrow>
                   nbind (openSocket env) (\<lambda>_.
                   nbind (callTimeout timeout stopTime) (\<lambda>ms.
                   nbind (sock_connect ms) (\<lambda>_.
                   nbind (sendLoop timeout stopTime requestData) (\<lambda>_.
                   recvLoop timeout stopTime init_rstate))))))"

end
