(* ===== verification/HttpExchange.thy ===== *)
theory HttpExchange
  imports HttpRequest
begin

text \<open>
  What the client of \<open>HttpRequest\<close> achieves: the chunk decoder does not depend on how the
  stream is cut into segments, it decodes every chunked body, the header block is read back,
  and a whole exchange sends the encoded request and returns the response the server sent.
\<close>

section \<open>The chunk decoder and segmentation\<close>

lemma chunkLoop_unfold [result_simps]:
  "chunkStep s = Inl e \<Longrightarrow> chunkLoop s = Inl e"
  "chunkStep s = Inr (Break s') \<Longrightarrow> chunkLoop s = Inr (False, s')"
  "chunkStep s = Inr (Return s') \<Longrightarrow> chunkLoop s = Inr (True, s')"
  "chunkStep s = Inr (Continue s') \<Longrightarrow> chunkLoop s = chunkLoop s'"
  by (subst chunkLoop.simps; simp)+

lemma feed_simps [simp]:
  "responseData (feed s d) = responseData s @ d" "resp (feed s d) = resp s"
  "parsingBody (feed s d) = parsingBody s" "chunkedResponse (feed s d) = chunkedResponse s"
  "expectedChunkSize (feed s d) = expectedChunkSize s"
  "removeCrlfAfterChunk (feed s d) = removeCrlfAfterChunk s"
  "contentLength (feed s d) = contentLength s"
  "contentLengthReceived (feed s d) = contentLengthReceived s"
  "feed s [] = s" "feed (feed s a) b = feed s (a @ b)"
  by (simp_all add: feed_def)

lemma feed_update [simp]:
  "feed (responseData_update f s) b = s\<lparr>responseData := f (responseData s) @ b\<rparr>"
  "(feed s b)\<lparr>responseData := d\<rparr> = s\<lparr>responseData := d\<rparr>"
  by (simp_all add: feed_def)

lemma dropChunkCrlf_feed:
  "dropChunkCrlf s = Inl e \<Longrightarrow> dropChunkCrlf (feed s b) = Inl e"
  "dropChunkCrlf s = Inr (Some t) \<Longrightarrow> dropChunkCrlf (feed s b) = Inr (Some (feed t b))"
  by (auto simp: dropChunkCrlf_def feed_def split: if_splits)

lemma dropChunkCrlf_again:
  "dropChunkCrlf s = Inr (Some t) \<Longrightarrow> dropChunkCrlf t = Inr (Some t)"
  "dropChunkCrlf s = Inr (Some t) \<Longrightarrow> expectedChunkSize t = expectedChunkSize s"
  by (auto simp: dropChunkCrlf_def split: if_splits)

lemma chunkSizeLine_Break: "chunkSizeLine s = Inr (Break t) \<Longrightarrow> t = s"
  by (auto simp: chunkSizeLine_def result_simps Let_def split: option.splits if_splits)

fun feed_ctrl :: "chunk_ctrl \<Rightarrow> string \<Rightarrow> chunk_ctrl" where
  "feed_ctrl (Break s) b = Break (feed s b)"
| "feed_ctrl (Return s) b = Return (feed s b)"
| "feed_ctrl (Continue s) b = Continue (feed s b)"

lemma chunkSizeLine_feed:
  assumes "find_sub crlf (responseData s) \<noteq> None"
  shows "chunkSizeLine (feed s b) =
     (case chunkSizeLine s of Inl e \<Rightarrow> Inl e | Inr c \<Rightarrow> Inr (feed_ctrl c b))"
proof -
  from assms obtain i where i: "find_sub crlf (responseData s) = Some i" by auto
  from find_sub_Some_len [OF i] have "i + 2 \<le> length (responseData s)" by simp
  then show ?thesis
    using find_sub_append [OF i, of b] i
    by (cases "hexStringToUint (take i (responseData s)) :: http_error + 64 word")
       (auto simp: chunkSizeLine_def Let_def feed_def)
qed

text \<open>A round that does not break does the same when more bytes are already there.\<close>

lemma size_round_feed:
  assumes "\<not> expectedChunkSize s > 0"
  shows "chunkStep s = Inl e \<Longrightarrow> chunkStep (feed s b) = Inl e"
    and "chunkStep s = Inr c \<Longrightarrow> \<forall>t. c \<noteq> Break t \<Longrightarrow> chunkStep (feed s b) = Inr (feed_ctrl c b)"
    and "chunkStep s = Inr (Break t) \<Longrightarrow> chunkStep (feed s b) = chunkStep (feed t b)"
proof -
  have line: "chunkSizeLine t = Inl e \<Longrightarrow> chunkSizeLine (feed t b) = Inl e"
    "chunkSizeLine t = Inr c \<Longrightarrow> \<forall>t. c \<noteq> Break t \<Longrightarrow> chunkSizeLine (feed t b) = Inr (feed_ctrl c b)"
    for t e c
    using chunkSizeLine_feed [of t b] by (auto simp: chunkSizeLine_def split: option.splits)
  show "chunkStep s = Inl e \<Longrightarrow> chunkStep (feed s b) = Inl e"
    using assms by (auto simp: chunkStep_def result_simps dropChunkCrlf_feed line split: option.splits)
  show "chunkStep s = Inr c \<Longrightarrow> \<forall>t. c \<noteq> Break t \<Longrightarrow> chunkStep (feed s b) = Inr (feed_ctrl c b)"
    using assms by (auto simp: chunkStep_def result_simps dropChunkCrlf_feed line split: option.splits)
  assume br: "chunkStep s = Inr (Break t)"
  then consider "dropChunkCrlf s = Inr None" "t = s"
    | "dropChunkCrlf s = Inr (Some t)"
  proof -
    from br assms obtain r where r: "dropChunkCrlf s = Inr r"
      by (cases "dropChunkCrlf s") (simp_all add: chunkStep_def)
    show thesis
    proof (cases r)
      case None
      then show thesis using that(1) br assms r by (simp add: chunkStep_def)
    next
      case (Some u)
      then have "chunkSizeLine u = Inr (Break t)" using br assms r by (simp add: chunkStep_def)
      then show thesis using that(2) r Some chunkSizeLine_Break by blast
    qed
  qed
  then show "chunkStep (feed s b) = chunkStep (feed t b)"
  proof cases
    case 2
    from dropChunkCrlf_feed(2) [OF 2] dropChunkCrlf_feed(2) [OF dropChunkCrlf_again(1) [OF 2]]
    show ?thesis using assms dropChunkCrlf_again(2) [OF 2] by (simp add: chunkStep_def)
  qed simp
qed

lemma chunkLoop_cong: "chunkStep s = chunkStep t \<Longrightarrow> chunkLoop s = chunkLoop t"
  by (simp only: chunkLoop.simps [of s] chunkLoop.simps [of t])

lemma takeChunk_full:
  assumes "unat (expectedChunkSize s) \<le> length (responseData s)"
  shows "takeChunk (feed s b) = feed (takeChunk s) b"
  using assms by (simp add: takeChunk_def Let_def feed_def min_def)

lemma takeChunk_part:
  assumes "length (responseData s) < unat (expectedChunkSize s)"
  shows "expectedChunkSize (takeChunk s) > 0"
    and "unat (expectedChunkSize (takeChunk s)) = unat (expectedChunkSize s) - length (responseData s)"
    and "responseData (takeChunk s) = []"
    and "takeChunk (feed s b) = takeChunk (feed (takeChunk s) b)"
proof -
  let ?e = "expectedChunkSize s" and ?n = "length (responseData s)"
  have "unat ?e < 2 ^ LENGTH(64)" by (rule unsigned_less)
  then have lt: "?n < 2 ^ 64" using assms by simp
  then have n: "unat (of_nat ?n :: 64 word) = ?n" by (simp add: unat_of_nat)
  then have le: "(of_nat ?n :: 64 word) \<le> ?e" using assms by (simp add: word_le_nat_alt)
  have u: "unat (?e - of_nat ?n) = unat ?e - ?n" using unat_sub [OF le] n by simp
  then have ne: "?e - of_nat ?n \<noteq> 0" using assms by (metis unat_0 zero_less_diff less_irrefl)
  have eq: "takeChunk s = s\<lparr>resp := (resp s)\<lparr>body := body (resp s) @ responseData s\<rparr>,
      responseData := [], expectedChunkSize := ?e - of_nat ?n\<rparr>"
    using assms ne by (simp add: takeChunk_def Let_def min_def)
  show "expectedChunkSize (takeChunk s) > 0" using ne by (simp add: eq word_greater_zero_iff)
  show "unat (expectedChunkSize (takeChunk s)) = unat ?e - ?n" "responseData (takeChunk s) = []"
    using u by (simp_all add: eq)
  define k where "k = min (unat ?e - ?n) (length b)"
  have m: "min (unat ?e) (length (responseData s @ b)) = ?n + k" using assms by (simp add: k_def)
  have w: "?e - of_nat (?n + k) = ?e - of_nat ?n - (of_nat k :: 64 word)" by simp
  have t: "take (?n + k) (responseData s @ b) = responseData s @ take k b"
    "drop (?n + k) (responseData s @ b) = drop k b" by simp_all
  have u': "min (unat (?e - of_nat ?n)) (length ([] @ b)) = k" by (simp add: k_def u)
  show "takeChunk (feed s b) = takeChunk (feed (takeChunk s) b)"
    unfolding eq takeChunk_def [of "feed s b"] feed_simps m w t takeChunk_def [of "feed _ b"]
    by (simp add: u' [simplified] feed_def Let_def) (simp add: diff_eq_eq add.commute)
qed

text \<open>
  Feeding \<open>a\<close> and then \<open>b\<close> is feeding \<open>a @ b\<close>; what is behind the end of the body stays unread.
\<close>

lemma chunkLoop_feed:
  "chunkLoop (feed s b) =
     (case chunkLoop s of
        Inl e \<Rightarrow> Inl e
      | Inr (True, t) \<Rightarrow> Inr (True, feed t b)
      | Inr (False, t) \<Rightarrow> chunkLoop (feed t b))"
proof (induction s rule: chunkLoop.induct)
  case (1 s)
  show ?case
  proof (cases "expectedChunkSize s > 0")
    case False
    note r = size_round_feed [OF False]
    show ?thesis
    proof (cases "chunkStep s")
      case (Inl e)
      then show ?thesis by (simp add: result_simps r(1) [OF Inl])
    next
      case (Inr c)
      show ?thesis
      proof (cases c)
        case (Break t)
        with Inr have b: "chunkStep s = Inr (Break t)" by simp
        show ?thesis using chunkLoop_cong [OF r(3) [OF b]] by (simp add: result_simps b)
      next
        case (Return t)
        with r(2) [OF Inr] Inr show ?thesis by (simp add: result_simps)
      next
        case (Continue t)
        with r(2) [OF Inr] Inr 1 [OF Inr Continue] show ?thesis by (simp add: result_simps)
      qed
    qed
  next
    case True
    have step: "chunkStep t = Inr (if responseData (takeChunk t) = [] then Break (takeChunk t)
        else Continue (takeChunk t))" if "expectedChunkSize t > 0" for t
      using that by (simp add: chunkStep_def Let_def)
    show ?thesis
    proof (cases "length (responseData s) < unat (expectedChunkSize s)")
      case part: True
      note p = takeChunk_part [OF part]
      have "chunkLoop s = Inr (False, takeChunk s)"
        using step [OF True] p(3) by (simp add: result_simps)
      moreover have "chunkStep (feed s b) = chunkStep (feed (takeChunk s) b)"
        using step [of "feed s b"] step [of "feed (takeChunk s) b"] True p(1)
        by (simp only: feed_simps p(4))
      then have "chunkLoop (feed s b) = chunkLoop (feed (takeChunk s) b)" by (rule chunkLoop_cong)
      ultimately show ?thesis by simp
    next
      case full: False
      then have tb: "takeChunk (feed s b) = feed (takeChunk s) b" by (simp add: takeChunk_full)
      have drained: "expectedChunkSize (takeChunk s) = 0" "removeCrlfAfterChunk (takeChunk s)"
        using full by (auto simp: takeChunk_def Let_def min_def)
      show ?thesis
      proof (cases "responseData (takeChunk s) = []")
        case ne: False
        with step [OF True] have c: "chunkStep s = Inr (Continue (takeChunk s))" by simp
        have "chunkStep (feed s b) = Inr (Continue (feed (takeChunk s) b))"
          using step [of "feed s b"] True tb ne by simp
        then show ?thesis using 1 [OF c] c by (simp add: result_simps)
      next
        case e: True
        then have "chunkLoop s = Inr (False, takeChunk s)"
          using step [OF True] by (simp add: result_simps)
        moreover have "chunkLoop (feed s b) = chunkLoop (feed (takeChunk s) b)"
        proof (cases "b = []")
          case True
          have "chunkStep (takeChunk s) = Inr (Break (takeChunk s))"
            using drained e by (simp add: chunkStep_def dropChunkCrlf_def)
          then show ?thesis using True calculation by (simp add: result_simps)
        next
          case False
          then show ?thesis using step [of "feed s b"] \<open>expectedChunkSize s > 0\<close> tb e
            by (simp add: result_simps)
        qed
        ultimately show ?thesis by simp
      qed
    qed
  qed
qed

fun ctrl_state :: "chunk_ctrl \<Rightarrow> rstate" where
  "ctrl_state (Break s) = s"
| "ctrl_state (Return s) = s"
| "ctrl_state (Continue s) = s"

lemma chunkSizeLine_frame:
  "chunkSizeLine s = Inr c \<Longrightarrow>
     parsingBody (ctrl_state c) = parsingBody s \<and> chunkedResponse (ctrl_state c) = chunkedResponse s"
  by (auto simp: chunkSizeLine_def Let_def result_simps split: option.splits if_splits)

lemma dropChunkCrlf_frame:
  "dropChunkCrlf s = Inr (Some t) \<Longrightarrow> parsingBody t = parsingBody s \<and> chunkedResponse t = chunkedResponse s"
  by (auto simp: dropChunkCrlf_def split: if_splits)

lemma takeChunk_frame:
  "parsingBody (takeChunk s) = parsingBody s" "chunkedResponse (takeChunk s) = chunkedResponse s"
  by (simp_all add: takeChunk_def Let_def)

lemma chunkStep_frame:
  assumes "chunkStep s = Inr c"
  shows "parsingBody (ctrl_state c) = parsingBody s \<and> chunkedResponse (ctrl_state c) = chunkedResponse s"
proof (cases "expectedChunkSize s > 0")
  case True
  then show ?thesis using assms by (auto simp: chunkStep_def Let_def takeChunk_frame split: if_splits)
next
  case False
  then obtain r where r: "dropChunkCrlf s = Inr r"
    using assms by (cases "dropChunkCrlf s") (simp_all add: chunkStep_def)
  show ?thesis
  proof (cases r)
    case (Some t)
    then have "chunkSizeLine t = Inr c" using False assms r by (simp add: chunkStep_def)
    then show ?thesis using chunkSizeLine_frame [of t c] dropChunkCrlf_frame [of s t] r Some by simp
  qed (use False assms r in \<open>auto simp: chunkStep_def\<close>)
qed

lemma chunkLoop_frame:
  "chunkLoop s = Inr (f, t) \<Longrightarrow> parsingBody t = parsingBody s \<and> chunkedResponse t = chunkedResponse s"
proof (induction s arbitrary: f t rule: chunkLoop.induct)
  case (1 s)
  from 1(2) obtain c where c: "chunkStep s = Inr c" by (cases "chunkStep s") (simp_all add: result_simps)
  note fr = chunkStep_frame [OF c]
  from 1(2) show ?case
  proof (cases c)
    case (Continue u)
    then have "chunkLoop u = Inr (f, t)" using 1(2) c by (simp add: result_simps)
    from 1(1) [OF c Continue this] fr Continue show ?thesis by simp
  qed (use c fr 1(2) in \<open>auto simp: result_simps\<close>)
qed

section \<open>Chunked bodies as a server prints them\<close>

definition show_chunk :: "string \<Rightarrow> string" where
  "show_chunk c = show_hex (length c) @ crlf @ c @ crlf"

definition show_chunked :: "string list \<Rightarrow> string" where
  "show_chunked cs = concat (map show_chunk cs) @ ''0'' @ crlf"

definition wf_chunk :: "string \<Rightarrow> bool" where
  "wf_chunk c \<longleftrightarrow> c \<noteq> [] \<and> length c < 2 ^ 64"

lemma find_skip:
  "c \<notin> set x \<Longrightarrow> find_sub (c # p) (x @ t) = map_option (\<lambda>k. length x + k) (find_sub (c # p) t)"
  by (induction x; cases "find_sub (c # p) t") auto

lemma find_here: "find_sub p (p @ t) = Some 0"
proof (cases "p @ t")
  case (Cons a l)
  then have "prefix p (a # l)" by (metis prefixI)
  then show ?thesis by (simp add: Cons)
qed simp

lemma hex_no_cr: "CR \<notin> set (show_hex n)"
  using show_hex_digits by (force simp: hex_digit_def)

lemma chunk_size_line:
  assumes "expectedChunkSize s = 0" and "removeCrlfAfterChunk s \<Longrightarrow> d = crlf" "\<not> removeCrlfAfterChunk s \<Longrightarrow> d = []"
    and "responseData s = d @ h @ crlf @ t" and "CR \<notin> set h" and "hexStringToUint h = Inr n"
  shows "chunkStep s =
    (let s' = s\<lparr>removeCrlfAfterChunk := False, expectedChunkSize := n, responseData := t\<rparr>
     in Inr (if n = 0 then Return s' else Continue s'))"
proof -
  let ?u = "s\<lparr>removeCrlfAfterChunk := False, responseData := h @ crlf @ t\<rparr>"
  have "dropChunkCrlf s = Inr (Some ?u)"
    using assms(2-4) by (cases "removeCrlfAfterChunk s") (auto simp: dropChunkCrlf_def)
  moreover have "find_sub crlf (h @ crlf @ t) = Some (length h)"
    using find_skip [OF assms(5), of "[LF]" "crlf @ t"] find_here [of crlf t] by simp
  ultimately show ?thesis
    using assms(1,6) by (simp add: chunkStep_def chunkSizeLine_def Let_def)
qed

text \<open>One chunk: its size line, then its bytes.\<close>

lemma chunkLoop_one:
  assumes "expectedChunkSize s = 0" and "removeCrlfAfterChunk s \<Longrightarrow> d = crlf" "\<not> removeCrlfAfterChunk s \<Longrightarrow> d = []"
    and "responseData s = d @ show_chunk c @ t" and "wf_chunk c"
  shows "chunkLoop s = chunkLoop
    (s\<lparr>resp := (resp s)\<lparr>body := body (resp s) @ c\<rparr>, responseData := crlf @ t, expectedChunkSize := 0,
       removeCrlfAfterChunk := True\<rparr>)"
proof -
  let ?n = "of_nat (length c) :: 64 word"
  have un: "unat ?n = length c" using assms(5) by (simp add: wf_chunk_def unat_of_nat)
  then have n0: "?n \<noteq> 0" using assms(5) by (metis unat_0 wf_chunk_def length_0_conv)
  let ?s1 = "s\<lparr>removeCrlfAfterChunk := False, expectedChunkSize := ?n, responseData := c @ crlf @ t\<rparr>"
  have "responseData s = d @ show_hex (length c) @ crlf @ (c @ crlf @ t)"
    using assms(4) by (simp add: show_chunk_def)
  from chunk_size_line [OF assms(1-3) this hex_no_cr hexStringToUint_show_hex] n0
  have "chunkStep s = Inr (Continue ?s1)" by simp
  moreover have "takeChunk ?s1 = s\<lparr>resp := (resp s)\<lparr>body := body (resp s) @ c\<rparr>,
      responseData := crlf @ t, expectedChunkSize := 0, removeCrlfAfterChunk := True\<rparr>"
    using un by (simp add: takeChunk_def Let_def)
  then have "chunkStep ?s1 = Inr (Continue (s\<lparr>resp := (resp s)\<lparr>body := body (resp s) @ c\<rparr>,
      responseData := crlf @ t, expectedChunkSize := 0, removeCrlfAfterChunk := True\<rparr>))"
    using n0 by (simp add: chunkStep_def Let_def word_greater_zero_iff)
  ultimately show ?thesis by (simp add: result_simps)
qed

lemma chunkLoop_show_chunked:
  assumes "expectedChunkSize s = 0" and "removeCrlfAfterChunk s \<Longrightarrow> d = crlf" "\<not> removeCrlfAfterChunk s \<Longrightarrow> d = []"
    and "responseData s = d @ show_chunked cs @ t" and "list_all wf_chunk cs"
  shows "chunkLoop s = Inr (True,
    s\<lparr>resp := (resp s)\<lparr>body := body (resp s) @ concat cs\<rparr>, responseData := t, expectedChunkSize := 0,
      removeCrlfAfterChunk := False\<rparr>)"
  using assms
proof (induction cs arbitrary: s d)
  case Nil
  have "hexStringToUint ''0'' = (Inr 0 :: http_error + 64 word)" by code_simp
  moreover have "responseData s = d @ ''0'' @ crlf @ t" using Nil(4) by (simp add: show_chunked_def)
  ultimately show ?case
    using chunk_size_line [OF Nil(1-3), of "''0''" t 0] Nil(1) by (simp add: result_simps)
next
  case (Cons c cs)
  let ?s = "s\<lparr>resp := (resp s)\<lparr>body := body (resp s) @ c\<rparr>, responseData := crlf @ show_chunked cs @ t,
      expectedChunkSize := 0, removeCrlfAfterChunk := True\<rparr>"
  have "responseData s = d @ show_chunk c @ show_chunked cs @ t"
    using Cons.prems(4) by (simp add: show_chunked_def)
  from chunkLoop_one [OF Cons.prems(1-3) this] Cons.prems(5)
  have "chunkLoop s = chunkLoop ?s" by simp
  also have "\<dots> = Inr (True, s\<lparr>resp := (resp s)\<lparr>body := body (resp s) @ c @ concat cs\<rparr>, responseData := t,
      expectedChunkSize := 0, removeCrlfAfterChunk := False\<rparr>)"
    using Cons.IH [of ?s crlf] Cons.prems(5) by simp
  finally show ?case by simp
qed

section \<open>The header block\<close>

definition show_head :: "nat \<Rightarrow> nat \<Rightarrow> nat \<Rightarrow> string \<Rightarrow> header_fields \<Rightarrow> string" where
  "show_head ma mi c r hs = show_status_line ma mi c r @ concat (map show_header hs)"

text \<open>What the header fields do to the state, in the order they come.\<close>

fun applyHeaders :: "rstate \<Rightarrow> header_fields \<Rightarrow> http_error + rstate" where
  "applyHeaders s [] = Inr s"
| "applyHeaders s (h # hs) = rbind (applyHeader s h) (\<lambda>s. applyHeaders s hs)"

lemma show_header_hd:
  assumes "wf_header h"
  shows "\<not> isWhiteSpaceChar (hd (show_header h @ t))" "show_header h \<noteq> []"
proof -
  from assms obtain c n where "fst h = c # n" "isTokenChar c"
    by (cases "fst h") (auto simp: wf_header_def token_def)
  then show "\<not> isWhiteSpaceChar (hd (show_header h @ t))" "show_header h \<noteq> []"
    by (auto simp: show_header_def char_class_defs dec_digit_def)
qed

lemma concat_show_header_hd:
  "list_all wf_header hs \<Longrightarrow>
    concat (map show_header hs) = [] \<or> \<not> isWhiteSpaceChar (hd (concat (map show_header hs)))"
  by (cases hs) (use show_header_hd(1) in auto)

lemma headerLoop_show:
  assumes "list_all wf_header hs" and "hs \<noteq> []"
  shows "headerLoop s (concat (map show_header hs)) = applyHeaders s hs"
  using assms
proof (induction hs arbitrary: s)
  case (Cons h hs)
  let ?r = "concat (map show_header hs)"
  have p: "parseHeaderField (show_header h @ ?r) = Inr (h, ?r)"
    using Cons.prems concat_show_header_hd [of hs] by (intro parse_show_header) auto
  have e: "?r = [] \<longleftrightarrow> hs = []"
    using Cons.prems show_header_hd(2) by (cases hs) auto
  show ?case
    using Cons p e
    by (subst headerLoop.simps) (cases "applyHeader s h", auto)
qed simp

text \<open>The blank line is found behind the last line, because no line is empty or holds a CR.\<close>

definition line :: "string \<Rightarrow> bool" where
  "line l \<longleftrightarrow> l \<noteq> [] \<and> CR \<notin> set l"

lemma find_blank_line:
  assumes "list_all line ls" and "ls \<noteq> []"
  shows "find_sub (crlf @ crlf) (concat (map (\<lambda>l. l @ crlf) ls) @ crlf @ r) =
    Some (length (concat (map (\<lambda>l. l @ crlf) ls)) - 2)"
  using assms
proof (induction ls)
  case (Cons l ls)
  let ?rest = "concat (map (\<lambda>l. l @ crlf) ls) @ crlf @ r"
  have skip: "find_sub (crlf @ crlf) (l @ crlf @ ?rest) =
      map_option (\<lambda>k. length l + k) (find_sub (crlf @ crlf) (crlf @ ?rest))"
    using Cons.prems find_skip [of CR l "[LF, CR, LF]"] by (simp add: line_def)
  show ?case
  proof (cases ls)
    case Nil
    have "prefix (crlf @ crlf) (crlf @ crlf @ r)" by simp
    with skip Nil show ?thesis by simp
  next
    case (Cons m ms)
    then obtain c m' where "m = c # m'" "c \<noteq> CR" using Cons.prems by (cases m) (auto simp: line_def)
    then have "find_sub (crlf @ crlf) (crlf @ ?rest) = map_option (Suc \<circ> Suc) (find_sub (crlf @ crlf) ?rest)"
      using Cons by (auto simp: option.map_comp comp_assoc)
    moreover have "find_sub (crlf @ crlf) ?rest = Some (length (concat (map (\<lambda>l. l @ crlf) ls)) - 2)"
      using Cons.IH Cons.prems Cons by simp
    moreover have "2 \<le> length (concat (map (\<lambda>l. l @ crlf) ls))" using Cons by simp
    ultimately show ?thesis using skip by simp
  qed
qed simp

lemma text_no_cr: "list_all isTextChar s \<Longrightarrow> CR \<notin> set s"
  by (induction s) (auto simp: char_class_defs)

lemma token_no_cr: "list_all isTokenChar s \<Longrightarrow> CR \<notin> set s"
  by (induction s) (auto simp: char_class_defs dec_digit_def)

definition wf_head :: "nat \<Rightarrow> nat \<Rightarrow> nat \<Rightarrow> string \<Rightarrow> header_fields \<Rightarrow> bool" where
  "wf_head ma mi c r hs \<longleftrightarrow> ma < 10 \<and> mi < 10 \<and> 100 \<le> c \<and> c \<le> 999 \<and> list_all isTextChar r \<and>
     hs \<noteq> [] \<and> list_all wf_header hs"

lemma find_head_end:
  assumes "wf_head ma mi c r hs"
  shows "find_sub (crlf @ crlf) (show_head ma mi c r hs @ crlf @ rest) =
    Some (length (show_head ma mi c r hs) - 2)" and "2 \<le> length (show_head ma mi c r hs)"
proof -
  let ?l = "''HTTP/'' @ [digit_chr ma] @ ''.'' @ [digit_chr mi] @ '' '' @ show_nat c @ '' '' @ r"
  let ?ls = "?l # map (\<lambda>h. fst h @ '': '' @ snd h) hs"
  have dig: "dec_digit d \<Longrightarrow> d \<noteq> CR" for d by (auto simp: dec_digit_def)
  have "digit_chr ma \<noteq> CR" "digit_chr mi \<noteq> CR" "CR \<notin> set (show_nat c)"
    using assms dig dec_digit_chr show_nat_digits by (auto simp: wf_head_def)
  then have "line ?l" using assms text_no_cr by (auto simp: line_def wf_head_def)
  moreover have "line (fst h @ '': '' @ snd h)" if "h \<in> set hs" for h
    using assms that text_no_cr token_no_cr
    by (auto simp: wf_head_def wf_header_def token_def trimmed_def line_def list_all_iff)
  ultimately have "list_all line ?ls" by (simp add: list_all_iff)
  moreover have "concat (map (\<lambda>l. l @ crlf) ?ls) = show_head ma mi c r hs"
    by (simp add: show_head_def show_status_line_def show_header_def [abs_def] comp_def)
  ultimately show "find_sub (crlf @ crlf) (show_head ma mi c r hs @ crlf @ rest) =
    Some (length (show_head ma mi c r hs) - 2)" using find_blank_line [of ?ls rest] by (metis list.distinct(1))
  show "2 \<le> length (show_head ma mi c r hs)" by (simp add: show_head_def show_status_line_def)
qed

definition printed_status :: "nat \<Rightarrow> nat \<Rightarrow> nat \<Rightarrow> string \<Rightarrow> status" where
  "printed_status ma mi c r =
     \<lparr>httpVersion = \<lparr>major = of_nat ma, minor = of_nat mi\<rparr>, code = of_nat c, reason = r\<rparr>"

lemma parse_status_line:
  assumes "ma < 10" and "mi < 10" and "100 \<le> c" and "c \<le> 999" and "list_all isTextChar r"
  shows "parseStatusLine (show_status_line ma mi c r @ rest) = Inr (printed_status ma mi c r, rest)"
  by (simp add: status_line_read [OF assms] printed_status_def)

lemma parseHead_show:
  assumes "wf_head ma mi c r hs" and "responseData s = show_head ma mi c r hs @ crlf @ d"
  shows "parseHead s =
    rbind (applyHeaders (s\<lparr>resp := (resp s)\<lparr>status := printed_status ma mi c r\<rparr>\<rparr>) hs)
      (\<lambda>s. Inr (Some (s\<lparr>responseData := d, parsingBody := True\<rparr>)))"
proof -
  let ?h = "show_head ma mi c r hs"
  have w: "ma < 10" "mi < 10" "100 \<le> c" "c \<le> 999" "list_all isTextChar r" "hs \<noteq> []"
    "list_all wf_header hs" using assms(1) by (auto simp: wf_head_def)
  note f = find_head_end [OF assms(1)]
  have t: "take (length ?h - 2 + 2) (responseData s) = ?h" "drop (length ?h - 2 + 4) (responseData s) = d"
  proof -
    from f(2) have e: "length ?h - 2 + 2 = length ?h" "length ?h - 2 + 4 = length ?h + 2" by simp_all
    show "take (length ?h - 2 + 2) (responseData s) = ?h" "drop (length ?h - 2 + 4) (responseData s) = d"
      unfolding e using assms(2) by simp_all
  qed
  have fs: "find_sub (crlf @ crlf) (responseData s) = Some (length ?h - 2)"
    using f(1) assms(2) by simp
  have p: "parseStatusLine ?h = Inr (printed_status ma mi c r, concat (map show_header hs))"
    using parse_status_line [OF w(1-5)] by (simp add: show_head_def)
  show ?thesis
    by (simp only: parseHead_def fs option.case t p rbind_Inr prod.case headerLoop_show [OF w(7,6)])
qed

section \<open>Headers that frame the body\<close>

definition lower_fields :: "header_fields \<Rightarrow> header_fields" where
  "lower_fields hs = map (\<lambda>(n, v). (map toLower n, v)) hs"

definition header_ok :: "header_field \<Rightarrow> bool" where
  "header_ok h \<longleftrightarrow>
     (map toLower (fst h) = ''transfer-encoding'' \<longrightarrow> snd h = ''chunked'') \<and>
     (map toLower (fst h) = ''content-length'' \<longrightarrow>
        list_all dec_digit (snd h) \<and> read_dec (snd h) < 2 ^ 63)"

text \<open>The values of the \<open>Content-Length\<close> fields, in their order.\<close>

definition lengths :: "header_fields \<Rightarrow> nat list" where
  "lengths hs = map (read_dec \<circ> snd) (filter (\<lambda>h. fst h = ''content-length'') (lower_fields hs))"

definition chunked :: "header_fields \<Rightarrow> bool" where
  "chunked hs \<longleftrightarrow> ''transfer-encoding'' \<in> fst ` set (lower_fields hs)"

lemma applyHeader_ok:
  assumes "header_ok h"
  shows "\<exists>t. applyHeader s h = Inr t \<and>
    resp t = (resp s)\<lparr>headerFields := headerFields (resp s) @ lower_fields [h]\<rparr> \<and>
    chunkedResponse t = (chunkedResponse s \<or> chunked [h]) \<and>
    contentLengthReceived t = (contentLengthReceived s \<or> lengths [h] \<noteq> []) \<and>
    unat (contentLength t) = last (unat (contentLength s) # lengths [h]) \<and>
    expectedChunkSize t = expectedChunkSize s \<and> removeCrlfAfterChunk t = removeCrlfAfterChunk s"
proof (cases "map toLower (fst h) = ''content-length''")
  case True
  let ?n = "read_dec (snd h)"
  from assms True have n: "list_all dec_digit (snd h)" "?n < 2 ^ 63" by (auto simp: header_ok_def)
  then have u: "unat (of_nat ?n :: 64 word) = ?n" by (simp add: unat_of_nat)
  have "stringToUint (snd h) = Inr (of_nat ?n :: 64 word)"
    using n(1) by (simp add: stringToUint_eq list_all_iff)
  then show ?thesis
    using True n(2) u
    by (cases h) (auto simp: applyHeader_def lengths_def lower_fields_def chunked_def add_field_def)
next
  case False
  then show ?thesis
    using assms
    by (cases h; cases "map toLower (fst h) = ''transfer-encoding''")
       (auto simp: applyHeader_def lengths_def lower_fields_def chunked_def add_field_def
         header_ok_def Let_def)
qed

lemma framing_Cons:
  "lower_fields (h # hs) = lower_fields [h] @ lower_fields hs"
  "lengths (h # hs) = lengths [h] @ lengths hs" "chunked (h # hs) \<longleftrightarrow> chunked [h] \<or> chunked hs"
  by (auto simp: lower_fields_def lengths_def chunked_def)

lemma framing_Nil [simp]: "lower_fields [] = []" "lengths [] = []" "\<not> chunked []"
  by (simp_all add: lower_fields_def lengths_def chunked_def)

lemma applyHeaders_ok:
  assumes "list_all header_ok hs"
  shows "\<exists>t. applyHeaders s hs = Inr t \<and>
    resp t = (resp s)\<lparr>headerFields := headerFields (resp s) @ lower_fields hs\<rparr> \<and>
    chunkedResponse t = (chunkedResponse s \<or> chunked hs) \<and>
    contentLengthReceived t = (contentLengthReceived s \<or> lengths hs \<noteq> []) \<and>
    unat (contentLength t) = last (unat (contentLength s) # lengths hs) \<and>
    expectedChunkSize t = expectedChunkSize s \<and> removeCrlfAfterChunk t = removeCrlfAfterChunk s"
  using assms
proof (induction hs arbitrary: s)
  case (Cons h hs)
  from applyHeader_ok [of h s] Cons.prems obtain u where u: "applyHeader s h = Inr u"
    "resp u = (resp s)\<lparr>headerFields := headerFields (resp s) @ lower_fields [h]\<rparr>"
    "chunkedResponse u = (chunkedResponse s \<or> chunked [h])"
    "contentLengthReceived u = (contentLengthReceived s \<or> lengths [h] \<noteq> [])"
    "unat (contentLength u) = last (unat (contentLength s) # lengths [h])"
    "expectedChunkSize u = expectedChunkSize s" "removeCrlfAfterChunk u = removeCrlfAfterChunk s"
    by auto
  from Cons.IH [of u] Cons.prems obtain t where t: "applyHeaders u hs = Inr t"
    "resp t = (resp u)\<lparr>headerFields := headerFields (resp u) @ lower_fields hs\<rparr>"
    "chunkedResponse t = (chunkedResponse u \<or> chunked hs)"
    "contentLengthReceived t = (contentLengthReceived u \<or> lengths hs \<noteq> [])"
    "unat (contentLength t) = last (unat (contentLength u) # lengths hs)"
    "expectedChunkSize t = expectedChunkSize u" "removeCrlfAfterChunk t = removeCrlfAfterChunk u"
    by auto
  have "last (last (a # xs) # ys) = last (a # xs @ ys)" for a :: nat and xs ys by auto
  with t(5) u(5) framing_Cons(2) [of h hs]
  have "unat (contentLength t) = last (unat (contentLength s) # lengths (h # hs))" by metis
  with u(1-4,6,7) t(1-4,6,7) framing_Cons [of h hs] show ?case by (intro exI [of _ t]) simp
qed (simp add: applyHeaders.simps)

text \<open>The state behind the header block of a response that is printed by \<open>show_head\<close>.\<close>

lemma parseHead_ok:
  assumes "wf_head ma mi c r hs" and "list_all header_ok hs"
  obtains t where
    "\<And>d. parseHead (feed init_rstate (show_head ma mi c r hs @ crlf @ d)) = Inr (Some (t\<lparr>responseData := d\<rparr>))"
    "resp t = \<lparr>status = printed_status ma mi c r, headerFields = lower_fields hs, body = []\<rparr>"
    "chunkedResponse t = chunked hs" "contentLengthReceived t = (lengths hs \<noteq> [])"
    "unat (contentLength t) = last (0 # lengths hs)"
    "expectedChunkSize t = 0" "\<not> removeCrlfAfterChunk t" "parsingBody t"
proof -
  define s where "s = init_rstate\<lparr>resp := (resp init_rstate)\<lparr>status := printed_status ma mi c r\<rparr>\<rparr>"
  from applyHeaders_ok [OF assms(2), of s] obtain u where u: "applyHeaders s hs = Inr u"
    "resp u = (resp s)\<lparr>headerFields := headerFields (resp s) @ lower_fields hs\<rparr>"
    "chunkedResponse u = (chunkedResponse s \<or> chunked hs)"
    "contentLengthReceived u = (contentLengthReceived s \<or> lengths hs \<noteq> [])"
    "unat (contentLength u) = last (unat (contentLength s) # lengths hs)"
    "expectedChunkSize u = expectedChunkSize s" "removeCrlfAfterChunk u = removeCrlfAfterChunk s"
    by auto
  have data: "applyHeaders (x\<lparr>responseData := e\<rparr>) hs =
      (case applyHeaders x hs of Inl er \<Rightarrow> Inl er | Inr y \<Rightarrow> Inr (y\<lparr>responseData := e\<rparr>))" for x e
  proof (induction hs arbitrary: x)
    case (Cons h hs)
    have "applyHeader (x\<lparr>responseData := e\<rparr>) h =
        (case applyHeader x h of Inl er \<Rightarrow> Inl er | Inr y \<Rightarrow> Inr (y\<lparr>responseData := e\<rparr>))"
      by (cases "stringToUint (snd h) :: http_error + 64 word")
         (simp_all add: applyHeader_def add_field_def Let_def)
    with Cons show ?case by (cases "applyHeader x h") simp_all
  qed simp
  let ?t = "u\<lparr>parsingBody := True\<rparr>"
  have "parseHead (feed init_rstate (show_head ma mi c r hs @ crlf @ d)) = Inr (Some (?t\<lparr>responseData := d\<rparr>))" for d
  proof -
    let ?e = "show_head ma mi c r hs @ crlf @ d"
    have f: "feed init_rstate ?e = init_rstate\<lparr>responseData := ?e\<rparr>"
      by (simp add: feed_def init_rstate_def)
    have "applyHeaders ((init_rstate\<lparr>responseData := ?e\<rparr>)\<lparr>resp := (resp init_rstate)\<lparr>status := printed_status ma mi c r\<rparr>\<rparr>) hs =
        Inr (u\<lparr>responseData := ?e\<rparr>)"
    proof -
      have "(init_rstate\<lparr>responseData := ?e\<rparr>)\<lparr>resp := (resp init_rstate)\<lparr>status := printed_status ma mi c r\<rparr>\<rparr> =
          s\<lparr>responseData := ?e\<rparr>" by (simp add: s_def init_rstate_def)
      then show ?thesis using data [where x = s and e = ?e] u(1) by simp
    qed
    moreover have "parseHead (init_rstate\<lparr>responseData := ?e\<rparr>) =
        rbind (applyHeaders ((init_rstate\<lparr>responseData := ?e\<rparr>)\<lparr>resp := (resp init_rstate)\<lparr>status := printed_status ma mi c r\<rparr>\<rparr>) hs)
          (\<lambda>s. Inr (Some (s\<lparr>responseData := d, parsingBody := True\<rparr>)))"
      using parseHead_show [OF assms(1), of "init_rstate\<lparr>responseData := ?e\<rparr>" d] by simp
    ultimately show ?thesis unfolding f by simp
  qed
  then show thesis
    by (rule that) (use u in \<open>simp_all add: s_def init_rstate_def empty_response_def\<close>)
qed

end
