(* ===== verification/HttpClient.thy ===== *)
theory HttpClient
  imports HttpExchange
begin

text \<open>
  The properties of \<open>Request::send\<close>: which bytes reach the peer, and which \<open>Response\<close> the
  caller gets for a response that arrives in segments, in each of the three framings; what
  happens when the header block is cut; and how long the client waits.
\<close>

section \<open>The receive loop over the segments that arrive\<close>

fun feedAll :: "rstate \<Rightarrow> string list \<Rightarrow> http_error + (bool \<times> rstate)" where
  "feedAll s [] = Inr (False, s)"
| "feedAll s (d # ds) =
     rbind (onData d s) (\<lambda>(fin, s). if fin then Inr (True, s) else feedAll s ds)"

text \<open>
  A segment as one \<open>recv\<close> hands it over. \<open>ready k\<close>: the next \<open>k\<close> waits for readiness succeed.
\<close>

definition segment :: "string \<Rightarrow> bool" where
  "segment d \<longleftrightarrow> d \<noteq> [] \<and> length d \<le> 4096"

fun is_ready :: "int sysres \<Rightarrow> bool" where
  "is_ready (Ret c) \<longleftrightarrow> c \<noteq> 0"
| "is_ready (Fail e) \<longleftrightarrow> False"

definition ready :: "nat \<Rightarrow> net \<Rightarrow> bool" where
  "ready k n \<longleftrightarrow> k \<le> length (selects n) \<and> list_all is_ready (take k (selects n))"

lemma ready_mono: "ready k n \<Longrightarrow> j \<le> k \<Longrightarrow> ready j n"
  unfolding ready_def list_all_length by auto

lemma ready_select:
  assumes "ready (Suc k) n"
  obtains t where "sock_select ty to n =
      Some (Inr ((), n\<lparr>selects := t, waits := waits n @ [(ty, selectTimeout to)]\<rparr>))"
    "\<forall>m. selects m = t \<longrightarrow> ready k m"
proof -
  from assms obtain c t where "selects n = Ret c # t" "c \<noteq> 0"
    by (cases "selects n"; cases "hd (selects n)") (auto simp: ready_def)
  then show thesis using that [of t] assms by (simp add: sock_select_def ready_def)
qed

lemma callTimeout_returns:
  obtains ms m where "callTimeout timeout st n = Some (Inr (ms, m))"
    "sends m = sends n" "recvs m = recvs n" "sent m = sent n" "selects m = selects n"
proof -
  have "\<exists>ms m. callTimeout timeout st n = Some (Inr (ms, m))"
    by (simp add: callTimeout_def getRemainingMilliseconds_def nbind_def now_def nreturn_def Let_def)
  then obtain ms m where "callTimeout timeout st n = Some (Inr (ms, m))" by blast
  with callTimeout_frame [OF this] that show thesis by blast
qed

lemma timedRecv_segment:
  assumes "segment d" and "recvs n = Ret d # t" and "ready (Suc k) n"
  obtains m where "timedRecv timeout st n = Some (Inr (d, m))" "recvs m = t" "ready k m"
    "sent m = sent n"
proof -
  obtain ms p where p: "callTimeout timeout st n = Some (Inr (ms, p))" "recvs p = recvs n"
    "sent p = sent n" "selects p = selects n" using callTimeout_returns by blast
  then have "ready (Suc k) p" using assms(3) by (simp add: ready_def)
  then obtain sl where s: "sock_select SelectRead ms p =
      Some (Inr ((), p\<lparr>selects := sl, waits := waits p @ [(SelectRead, selectTimeout ms)]\<rparr>))"
    "\<forall>m. selects m = sl \<longrightarrow> ready k m" by (rule ready_select [where ty = SelectRead and to = ms])
  show thesis
    by (rule that [of "p\<lparr>selects := sl, waits := waits p @ [(SelectRead, selectTimeout ms)], recvs := t\<rparr>"])
       (use p s assms(1,2) in \<open>simp_all add: timedRecv_def nbind_def sock_recv_def segment_def\<close>)
qed

lemma recvLoop_feedAll:
  assumes "feedAll s segs = Inr (True, t)" and "list_all segment segs"
    and "recvs n = map Ret segs @ tail" and "ready (length segs) n"
  shows "\<exists>m. recvLoop timeout st s n = Some (Inr (resp t, m)) \<and> sent m = sent n"
  using assms
proof (induction segs arbitrary: s n)
  case (Cons d segs)
  from Cons.prems have d: "segment d" "recvs n = Ret d # (map Ret segs @ tail)"
    "ready (Suc (length segs)) n" by simp_all
  obtain m where m: "timedRecv timeout st n = Some (Inr (d, m))"
    "recvs m = map Ret segs @ tail" "ready (length segs) m" "sent m = sent n"
    using timedRecv_segment [OF d] by blast
  from Cons.prems(1) obtain f u where u: "onData d s = Inr (f, u)"
    "(if f then Inr (True, u) else feedAll u segs) = Inr (True, t)"
    by (auto simp: result_simps split: prod.splits)
  show ?case
  proof (cases f)
    case True
    then show ?thesis using m u d(1) by (subst recvLoop.simps) (simp add: segment_def)
  next
    case False
    then have "feedAll u segs = Inr (True, t)" using u(2) by simp
    from Cons.IH [OF this _ m(2,3)] Cons.prems(2) False m u d(1) show ?thesis
      by (subst recvLoop.simps) (simp add: segment_def)
  qed
qed simp

text \<open>The same when the peer closes the connection behind the segments.\<close>

lemma recvLoop_feedAll_close:
  assumes "feedAll s segs = Inr (False, t)" and "list_all segment segs"
    and "recvs n = map Ret segs @ Ret [] # tail" and "ready (Suc (length segs)) n"
  shows "\<exists>m. recvLoop timeout st s n = Some (Inr (resp t, m)) \<and> sent m = sent n"
  using assms
proof (induction segs arbitrary: s n)
  case Nil
  obtain ms p where p: "callTimeout timeout st n = Some (Inr (ms, p))" "recvs p = recvs n"
    "sent p = sent n" "selects p = selects n" using callTimeout_returns by blast
  with Nil have "ready (Suc 0) p" by (simp add: ready_def)
  then obtain sl where s: "sock_select SelectRead ms p =
      Some (Inr ((), p\<lparr>selects := sl, waits := waits p @ [(SelectRead, selectTimeout ms)]\<rparr>))"
    by (rule ready_select [where ty = SelectRead and to = ms])
  show ?case
    using Nil p s by (subst recvLoop.simps) (simp add: timedRecv_def nbind_def sock_recv_def)
next
  case (Cons d segs)
  from Cons.prems have d: "segment d" "recvs n = Ret d # (map Ret segs @ Ret [] # tail)"
    "ready (Suc (Suc (length segs))) n" by simp_all
  obtain m where m: "timedRecv timeout st n = Some (Inr (d, m))"
    "recvs m = map Ret segs @ Ret [] # tail" "ready (Suc (length segs)) m" "sent m = sent n"
    using timedRecv_segment [OF d] by blast
  from Cons.prems(1) obtain u where u: "onData d s = Inr (False, u)" "feedAll u segs = Inr (False, t)"
    by (auto simp: result_simps split: prod.splits if_splits)
  from Cons.IH [OF u(2) _ m(2,3)] Cons.prems(2) m u d(1) show ?case
    by (subst recvLoop.simps) (simp add: segment_def)
qed

section \<open>Bodies that arrive in segments\<close>

lemma onData_body:
  assumes "parsingBody s"
  shows "onData d s = (if chunkedResponse s then chunkLoop (feed s d) else Inr (plainBody (feed s d)))"
  using assms by (simp add: onData_def Let_def)

lemma feedAll_chunked:
  assumes "parsingBody s" and "chunkedResponse s" and "segs \<noteq> []"
    and "chunkLoop (feed s (concat segs)) = Inr (True, t)"
  shows "\<exists>u. feedAll s segs = Inr (True, u) \<and> resp u = resp t"
  using assms
proof (induction segs arbitrary: s)
  case (Cons d segs)
  have o: "onData d s = chunkLoop (feed s d)" using Cons.prems(1,2) by (simp add: onData_body)
  have c: "chunkLoop (feed (feed s d) (concat segs)) = Inr (True, t)" using Cons.prems(4) by simp
  then obtain f u where u: "chunkLoop (feed s d) = Inr (f, u)"
    by (subst (asm) chunkLoop_feed) (auto split: sum.splits)
  show ?case
  proof (cases f)
    case True
    then have "t = feed u (concat segs)" using c u by (subst (asm) chunkLoop_feed) simp
    then show ?thesis using True u o by simp
  next
    case False
    with c u have n: "chunkLoop (feed u (concat segs)) = Inr (True, t)"
      by (subst (asm) chunkLoop_feed) simp
    have idem: "chunkLoop u = Inr (False, u)"
      using u False chunkLoop_feed [of "feed s d" "[]"] by simp
    show ?thesis
    proof (cases "segs = []")
      case True
      then show ?thesis using n idem by simp
    next
      case ne: False
      from chunkLoop_frame [OF u] Cons.prems(1,2) have "parsingBody u" "chunkedResponse u" by simp_all
      from Cons.IH [OF this ne n] o u False show ?thesis by simp
    qed
  qed
qed simp

lemma feedAll_first:
  assumes "\<not> parsingBody s" and "parseHead (feed s (h @ d)) = Inr (Some (t\<lparr>responseData := d\<rparr>))"
    and "parsingBody t"
  shows "feedAll s ((h @ d) # ds) = feedAll (t\<lparr>responseData := []\<rparr>) (d # ds)"
  using assms by (simp add: onData_def Let_def feed_def)

lemma plainBody_simps [simp]:
  "snd (plainBody s) = s\<lparr>resp := (resp s)\<lparr>body := body (resp s) @ responseData s\<rparr>, responseData := []\<rparr>"
  "fst (plainBody s) \<longleftrightarrow> contentLengthReceived s \<and>
     unat (contentLength s) \<le> length (body (resp s)) + length (responseData s)"
  by (simp_all add: plainBody_def Let_def)

lemma feedAll_plain_step:
  assumes "parsingBody s" and "\<not> chunkedResponse s" and "responseData s = []"
  shows "feedAll s (d # ds) =
    (let u = s\<lparr>resp := (resp s)\<lparr>body := body (resp s) @ d\<rparr>\<rparr>
     in if contentLengthReceived s \<and> unat (contentLength s) \<le> length (body (resp s)) + length d
        then Inr (True, u) else feedAll u ds)"
proof -
  have "plainBody (feed s d) =
      (contentLengthReceived s \<and> unat (contentLength s) \<le> length (body (resp s)) + length d,
       s\<lparr>resp := (resp s)\<lparr>body := body (resp s) @ d\<rparr>\<rparr>)"
    using assms(3) by (cases s) (simp add: plainBody_def feed_def Let_def)
  then show ?thesis using onData_body [OF assms(1), of d] assms(2) by (simp add: Let_def)
qed

lemma feedAll_length:
  assumes "parsingBody s" and "\<not> chunkedResponse s" and "responseData s = []"
    and "contentLengthReceived s" and "unat (contentLength s) = length (body (resp s)) + length (concat segs)"
    and "segs \<noteq> []" and "[] \<notin> set (tl segs)"
  shows "\<exists>u. feedAll s segs = Inr (True, u) \<and> resp u = (resp s)\<lparr>body := body (resp s) @ concat segs\<rparr>"
  using assms
proof (induction segs arbitrary: s)
  case (Cons d segs)
  show ?case
  proof (cases segs)
    case Nil
    then show ?thesis using Cons.prems by (simp add: feedAll_plain_step Let_def del: feedAll.simps)
  next
    case more: (Cons e es)
    then have "0 < length (concat segs)" using Cons.prems(7) by auto
    with Cons.prems(5) have "\<not> unat (contentLength s) \<le> length (body (resp s)) + length d" by simp
    then have st: "feedAll s (d # segs) = feedAll (s\<lparr>resp := (resp s)\<lparr>body := body (resp s) @ d\<rparr>\<rparr>) segs"
      using Cons.prems(1-3) by (simp add: feedAll_plain_step Let_def del: feedAll.simps)
    have "[] \<notin> set (tl segs)" using Cons.prems(7) by (cases segs) auto
    then show ?thesis
      using Cons.IH [of "s\<lparr>resp := (resp s)\<lparr>body := body (resp s) @ d\<rparr>\<rparr>"] Cons.prems more
      unfolding st by simp
  qed
qed simp

lemma feedAll_close:
  assumes "parsingBody s" and "\<not> chunkedResponse s" and "responseData s = []"
    and "\<not> contentLengthReceived s"
  shows "\<exists>u. feedAll s segs = Inr (False, u) \<and> resp u = (resp s)\<lparr>body := body (resp s) @ concat segs\<rparr>"
  using assms
proof (induction segs arbitrary: s)
  case (Cons d segs)
  have st: "feedAll s (d # segs) = feedAll (s\<lparr>resp := (resp s)\<lparr>body := body (resp s) @ d\<rparr>\<rparr>) segs"
    using Cons.prems by (simp add: feedAll_plain_step Let_def del: feedAll.simps)
  show ?case
    using Cons.IH [of "s\<lparr>resp := (resp s)\<lparr>body := body (resp s) @ d\<rparr>\<rparr>"] Cons.prems
    unfolding st by simp
qed simp

section \<open>Sending\<close>

lemma sendLoop_unfold:
  "sendLoop timeout st d n =
     (if d = [] then Some (Inr ((), n))
      else nbind (timedSend timeout st d) (\<lambda>k. sendLoop timeout st (drop k d)) n)"
  by (subst sendLoop.simps) (simp add: nbind_def)

lemma sendLoop_sent:
  "sendLoop timeout st d n = Some (Inr (u, m)) \<Longrightarrow> sent m = sent n @ d \<and> recvs m = recvs n"
proof (induction timeout st d n rule: sendLoop.induct)
  case (1 timeout st d n)
  show ?case
  proof (cases "d = []")
    case True
    then show ?thesis using 1(2) by (subst (asm) sendLoop.simps) simp
  next
    case False
    with 1(2) obtain k p where k: "timedSend timeout st d n = Some (Inr (k, p))"
      "sendLoop timeout st (drop k d) p = Some (Inr (u, m))"
      by (subst (asm) sendLoop_unfold) (auto simp: nbind_Inr)
    from 1(1) [OF False k(1) refl refl k(2)] timedSend_Inr(2,4) [OF k(1)]
    show ?thesis by simp
  qed
qed

lemma timedSend_takes:
  assumes "sends n = Ret k # t" and "ready (Suc j) n"
  obtains m where "timedSend timeout st d n = Some (Inr (min k (length d), m))" "sends m = t"
    "ready j m"
proof -
  obtain ms p where p: "callTimeout timeout st n = Some (Inr (ms, p))" "sends p = sends n"
    "selects p = selects n" using callTimeout_returns by blast
  then have "ready (Suc j) p" using assms(2) by (simp add: ready_def)
  then obtain sl where s: "sock_select SelectWrite ms p =
      Some (Inr ((), p\<lparr>selects := sl, waits := waits p @ [(SelectWrite, selectTimeout ms)]\<rparr>))"
    "\<forall>m. selects m = sl \<longrightarrow> ready j m" by (rule ready_select [where ty = SelectWrite and to = ms])
  show thesis
    by (rule that [of "p\<lparr>selects := sl, waits := waits p @ [(SelectWrite, selectTimeout ms)],
          sends := t, sent := sent p @ take k d\<rparr>"])
       (use p s assms(1) in \<open>simp_all add: timedSend_def nbind_def sock_send_def\<close>)
qed

text \<open>It ends when the peer keeps taking bytes: at most one call per value of \<open>ks\<close>.\<close>

lemma sendLoop_returns:
  assumes "sends n = map Ret ks @ t" and "length d \<le> sum_list ks" and "ready (length ks + j) n"
  shows "\<exists>m. sendLoop timeout st d n = Some (Inr ((), m)) \<and> ready j m"
  using assms
proof (induction ks arbitrary: n d)
  case Nil
  then show ?case by (subst sendLoop.simps) simp
next
  case (Cons k ks)
  show ?case
  proof (cases "d = []")
    case True
    then show ?thesis using Cons.prems(3) ready_mono by (subst sendLoop.simps) auto
  next
    case False
    have p: "sends n = Ret k # (map Ret ks @ t)" "ready (Suc (length ks + j)) n"
      using Cons.prems by simp_all
    obtain m where m: "timedSend timeout st d n = Some (Inr (min k (length d), m))"
      "sends m = map Ret ks @ t" "ready (length ks + j) m"
      using timedSend_takes [OF p] by blast
    have "length (drop (min k (length d)) d) \<le> sum_list ks" using Cons.prems(2) by simp
    from Cons.IH [OF m(2) this m(3)] m(1) False show ?thesis
      by (subst sendLoop.simps) simp
  qed
qed

section \<open>The three framings\<close>

definition framed :: "nat \<Rightarrow> nat \<Rightarrow> nat \<Rightarrow> string \<Rightarrow> header_fields \<Rightarrow> string \<Rightarrow> response" where
  "framed ma mi c r hs b =
     \<lparr>status = printed_status ma mi c r, headerFields = lower_fields hs, body = b\<rparr>"

lemma feedAll_response_chunked:
  assumes "wf_head ma mi c r hs" and "list_all header_ok hs" and "chunked hs"
    and "list_all wf_chunk cs" and "concat (d # ds) = show_chunked cs @ junk"
  shows "\<exists>u. feedAll init_rstate ((show_head ma mi c r hs @ crlf @ d) # ds) = Inr (True, u) \<and>
    resp u = framed ma mi c r hs (concat cs)"
proof -
  obtain t where t:
    "\<And>d. parseHead (feed init_rstate (show_head ma mi c r hs @ crlf @ d)) = Inr (Some (t\<lparr>responseData := d\<rparr>))"
    "resp t = \<lparr>status = printed_status ma mi c r, headerFields = lower_fields hs, body = []\<rparr>"
    "chunkedResponse t" "expectedChunkSize t = 0" "\<not> removeCrlfAfterChunk t" "parsingBody t"
    using parseHead_ok [OF assms(1,2)] assms(3) by metis
  let ?t = "t\<lparr>responseData := []\<rparr>"
  have "\<exists>v. chunkLoop (feed ?t (concat (d # ds))) = Inr (True, v) \<and>
      resp v = framed ma mi c r hs (concat cs)"
    unfolding assms(5) using t assms(4)
    by (subst chunkLoop_show_chunked [where cs = cs and d = "[]" and t = junk])
       (simp_all add: framed_def)
  then obtain v where "chunkLoop (feed ?t (concat (d # ds))) = Inr (True, v)"
    "resp v = framed ma mi c r hs (concat cs)" by blast
  moreover have "feedAll init_rstate ((show_head ma mi c r hs @ crlf @ d) # ds) = feedAll ?t (d # ds)"
    using feedAll_first [of init_rstate "show_head ma mi c r hs @ crlf" d t ds] t
    by (simp add: init_rstate_def)
  ultimately show ?thesis using feedAll_chunked [of ?t "d # ds" v] t(3,6) by auto
qed

lemma feedAll_response_length:
  assumes "wf_head ma mi c r hs" and "list_all header_ok hs" and "\<not> chunked hs"
    and "lengths hs \<noteq> []" and "last (lengths hs) = length (concat (d # ds))" and "[] \<notin> set ds"
  shows "\<exists>u. feedAll init_rstate ((show_head ma mi c r hs @ crlf @ d) # ds) = Inr (True, u) \<and>
    resp u = framed ma mi c r hs (concat (d # ds))"
proof -
  obtain t where t:
    "\<And>d. parseHead (feed init_rstate (show_head ma mi c r hs @ crlf @ d)) = Inr (Some (t\<lparr>responseData := d\<rparr>))"
    "resp t = \<lparr>status = printed_status ma mi c r, headerFields = lower_fields hs, body = []\<rparr>"
    "\<not> chunkedResponse t" "contentLengthReceived t" "unat (contentLength t) = last (lengths hs)"
    "parsingBody t"
    using parseHead_ok [OF assms(1,2)] assms(3,4) by (metis last_ConsR)
  let ?t = "t\<lparr>responseData := []\<rparr>"
  have "feedAll init_rstate ((show_head ma mi c r hs @ crlf @ d) # ds) = feedAll ?t (d # ds)"
    using feedAll_first [of init_rstate "show_head ma mi c r hs @ crlf" d t ds] t
    by (simp add: init_rstate_def)
  then show ?thesis
    using feedAll_length [of ?t "d # ds"] t(2-6) assms(5,6) by (simp add: framed_def)
qed

lemma feedAll_response_close:
  assumes "wf_head ma mi c r hs" and "list_all header_ok hs" and "\<not> chunked hs" and "lengths hs = []"
  shows "\<exists>u. feedAll init_rstate ((show_head ma mi c r hs @ crlf @ d) # ds) = Inr (False, u) \<and>
    resp u = framed ma mi c r hs (concat (d # ds))"
proof -
  obtain t where t:
    "\<And>d. parseHead (feed init_rstate (show_head ma mi c r hs @ crlf @ d)) = Inr (Some (t\<lparr>responseData := d\<rparr>))"
    "resp t = \<lparr>status = printed_status ma mi c r, headerFields = lower_fields hs, body = []\<rparr>"
    "\<not> chunkedResponse t" "\<not> contentLengthReceived t" "parsingBody t"
    using parseHead_ok [OF assms(1,2)] assms(3,4) by metis
  let ?t = "t\<lparr>responseData := []\<rparr>"
  have "feedAll init_rstate ((show_head ma mi c r hs @ crlf @ d) # ds) = feedAll ?t (d # ds)"
    using feedAll_first [of init_rstate "show_head ma mi c r hs @ crlf" d t ds] t
    by (simp add: init_rstate_def)
  then show ?thesis
    using feedAll_close [of ?t "d # ds"] t(2-5) by (simp add: framed_def)
qed

section \<open>How long the client waits\<close>

text \<open>
  A wait that is within a timeout of so many milliseconds (without limit when it is negative).
\<close>

definition wait_within :: "int \<Rightarrow> select_type \<times> (int \<times> int) option \<Rightarrow> bool" where
  "wait_within timeout w \<longleftrightarrow>
     (case snd w of
        None \<Rightarrow> timeout < 0
      | Some (sec, usec) \<Rightarrow> 0 \<le> sec \<and> 0 \<le> usec \<and> usec < 1000000 \<and>
          sec * 1000000 + usec \<le> timeout * 1000)"

definition deadline :: "int \<Rightarrow> int \<Rightarrow> net \<Rightarrow> bool" where
  "deadline timeout st n \<longleftrightarrow> mono (clock n) \<and> st \<le> clock n (ticks n) + timeout * 1000000"

definition kept :: "int \<Rightarrow> net \<Rightarrow> net \<Rightarrow> bool" where
  "kept timeout n m \<longleftrightarrow> clock m = clock n \<and> ticks n \<le> ticks m \<and>
     (\<exists>ws. waits m = waits n @ ws \<and> list_all (wait_within timeout) ws)"

lemma kept_refl [simp]: "kept timeout n n"
  by (auto simp: kept_def intro!: exI [of _ "[]"])

lemma kept_trans: "kept timeout n m \<Longrightarrow> kept timeout m l \<Longrightarrow> kept timeout n l"
  by (force simp: kept_def)

lemma kept_wait:
  assumes "clock m = clock n" and "ticks m = ticks n" and "waits m = waits n @ [w]" and "wait_within timeout w"
  shows "kept timeout n m"
  using assms by (auto simp: kept_def intro!: exI [of _ "[w]"])

lemma kept_deadline:
  assumes "kept timeout n m" and "deadline timeout st n"
  shows "deadline timeout st m"
proof -
  have "clock n (ticks n) \<le> clock n (ticks m)"
    using assms by (auto simp: kept_def deadline_def mono_def)
  then show ?thesis using assms by (auto simp: kept_def deadline_def)
qed

lemma selectTimeout_within:
  assumes "if timeout \<ge> 0 then 0 \<le> ms \<and> ms \<le> timeout else ms = -1"
  shows "wait_within timeout (ty, selectTimeout ms)"
proof (cases "timeout \<ge> 0")
  case True
  have e: "ms div 1000 * 1000000 + ms mod 1000 * 1000 = 1000 * ms"
    using div_mult_mod_eq [of ms 1000] by linarith
  have b: "ms mod 1000 < 1000" "0 \<le> ms mod 1000" by simp_all
  show ?thesis using True assms e b
    by (simp add: wait_within_def selectTimeout_def pos_imp_zdiv_nonneg_iff)
next
  case False
  then show ?thesis using assms by (simp add: wait_within_def selectTimeout_def)
qed

lemma callTimeout_kept:
  assumes "callTimeout timeout st n = Some (Inr (ms, m))" and "deadline timeout st n"
  shows "kept timeout n m" "if timeout \<ge> 0 then 0 \<le> ms \<and> ms \<le> timeout else ms = -1"
proof -
  show "kept timeout n m"
    using assms(1) by (auto simp: callTimeout_def getRemainingMilliseconds_def nbind_def now_def
        nreturn_def Let_def kept_def split: if_splits)
  show "if timeout \<ge> 0 then 0 \<le> ms \<and> ms \<le> timeout else ms = -1"
  proof (cases "timeout \<ge> 0")
    case True
    let ?r = "st - clock n (ticks n)"
    have ms: "ms = max 0 (cdiv ?r 1000000)"
      using assms(1) True by (auto simp: callTimeout_def getRemainingMilliseconds_def nbind_def now_def
          nreturn_def Let_def)
    have le: "?r \<le> timeout * 1000000" using assms(2) by (simp add: deadline_def)
    have "cdiv ?r 1000000 \<le> timeout"
    proof (cases "?r < 0")
      case True
      then have "cdiv ?r 1000000 \<le> 0" by (simp add: cdiv_neg pos_imp_zdiv_nonneg_iff)
      then show ?thesis using \<open>timeout \<ge> 0\<close> by simp
    next
      case False
      then have "cdiv ?r 1000000 = ?r div 1000000" by simp
      also have "\<dots> \<le> timeout * 1000000 div 1000000" using le by (intro zdiv_mono1) simp_all
      finally show ?thesis by simp
    qed
    then show ?thesis using ms True by simp
  next
    case False
    then show ?thesis using assms(1) by (simp add: callTimeout_def nreturn_def)
  qed
qed

lemma timedSend_kept:
  assumes "timedSend timeout st d n = Some (Inr (k, m))" and "deadline timeout st n"
  shows "kept timeout n m"
proof -
  from assms(1) obtain ms p where p: "callTimeout timeout st n = Some (Inr (ms, p))"
    "sock_send d ms p = Some (Inr (k, m))" by (auto simp: timedSend_def nbind_Inr)
  note c = callTimeout_kept [OF p(1) assms(2)]
  have "kept timeout p m"
    using sock_send_Inr(5-7) [OF p(2)] selectTimeout_within [OF c(2)] by (rule kept_wait)
  with c(1) show ?thesis by (rule kept_trans)
qed

lemma timedRecv_kept:
  assumes "timedRecv timeout st n = Some (Inr (d, m))" and "deadline timeout st n"
  shows "kept timeout n m"
proof -
  from assms(1) obtain ms p where p: "callTimeout timeout st n = Some (Inr (ms, p))"
    "sock_recv 4096 ms p = Some (Inr (d, m))" by (auto simp: timedRecv_def nbind_Inr)
  note c = callTimeout_kept [OF p(1) assms(2)]
  have "kept timeout p m"
    using sock_recv_Inr(3-5) [OF p(2)] selectTimeout_within [OF c(2)] by (rule kept_wait)
  with c(1) show ?thesis by (rule kept_trans)
qed

lemma sendLoop_kept:
  "sendLoop timeout st d n = Some (Inr (u, m)) \<Longrightarrow> deadline timeout st n \<Longrightarrow> kept timeout n m"
proof (induction timeout st d n rule: sendLoop.induct)
  case (1 timeout st d n)
  show ?case
  proof (cases "d = []")
    case True
    then show ?thesis using 1(2) by (subst (asm) sendLoop.simps) simp
  next
    case False
    with 1(2) obtain k p where k: "timedSend timeout st d n = Some (Inr (k, p))"
      "sendLoop timeout st (drop k d) p = Some (Inr (u, m))"
      by (subst (asm) sendLoop_unfold) (auto simp: nbind_Inr)
    from timedSend_kept [OF k(1) 1(3)] have kp: "kept timeout n p" .
    from 1(1) [OF False k(1) refl refl k(2) kept_deadline [OF kp 1(3)]] kp
    show ?thesis by (blast intro: kept_trans)
  qed
qed

lemma recvLoop_cases:
  assumes "recvLoop timeout st s n = Some (Inr (x, m))"
  obtains d where "timedRecv timeout st n = Some (Inr (d, m))"
  | d p f u where "timedRecv timeout st n = Some (Inr (d, p))" "d \<noteq> []" "onData d s = Inr (f, u)"
      "\<not> f" "recvLoop timeout st u p = Some (Inr (x, m))"
  using assms by (subst (asm) recvLoop.simps)
    (auto split: option.splits sum.splits if_splits)

lemma recvLoop_kept:
  "recvLoop timeout st s n = Some (Inr (x, m)) \<Longrightarrow> deadline timeout st n \<Longrightarrow> kept timeout n m"
proof (induction timeout st s n rule: recvLoop.induct)
  case (1 timeout st s n)
  from 1(2) show ?case
  proof (cases rule: recvLoop_cases)
    case (1 d)
    then show ?thesis using timedRecv_kept 1 \<open>deadline timeout st n\<close> by blast
  next
    case (2 d p f u)
    from timedRecv_kept [OF 2(1) 1(3)] have kp: "kept timeout n p" .
    from 1(1) [OF 2(1) refl refl 2(2,3) refl 2(4,5) kept_deadline [OF kp 1(3)]] kp
    show ?thesis by (blast intro: kept_trans)
  qed
qed

lemma sock_connect_kept:
  assumes "sock_connect ms n = Some (Inr (u, m))"
    and "if timeout \<ge> 0 then 0 \<le> ms \<and> ms \<le> timeout else ms = -1"
  shows "kept timeout n m"
proof -
  from assms(1) consider t where "m = n\<lparr>connects := t\<rparr>"
    | t p so where "sock_select SelectWrite ms (n\<lparr>connects := t\<rparr>) = Some (Inr ((), p))"
      "m = p\<lparr>sockopts := so\<rparr>"
    by (auto simp: sock_connect_def nbind_Inr sock_getsockopt_def nreturn_def nthrow_def
        split: option.splits sysres.splits if_splits list.splits)
  then show ?thesis
  proof cases
    case 2
    from sock_select_frame [OF 2(1)] 2(2) show ?thesis
      by (intro kept_wait [OF _ _ _ selectTimeout_within [OF assms(2), of SelectWrite]]) auto
  qed (simp add: kept_def)
qed

section \<open>The whole of Request::send\<close>

lemma openSocket_Inr: "openSocket env n = Some (Inr (u, m)) \<Longrightarrow> m = n"
  by (auto simp: openSocket_def split: prod.splits sum.splits)

text \<open>A successful \<open>send\<close>, step by step.\<close>

lemma Request_send_Inr:
  assumes "Request_send env r method content fs timeout n = Some (Inr (x, m))"
  obtains d ms n1 n2 n3 where "encodeHtml (target r) method content fs = Inr d"
    "callTimeout timeout (clock n (ticks n) + timeout * 1000000) (n\<lparr>ticks := Suc (ticks n)\<rparr>) =
       Some (Inr (ms, n1))"
    "sock_connect ms n1 = Some (Inr ((), n2))"
    "sendLoop timeout (clock n (ticks n) + timeout * 1000000) d n2 = Some (Inr ((), n3))"
    "recvLoop timeout (clock n (ticks n) + timeout * 1000000) init_rstate n3 = Some (Inr (x, m))"
  using assms
  by (auto simp: Request_send_def now_def nbind_Inr nthrow_def Let_def dest!: openSocket_Inr
      split: if_splits option.splits sum.splits)

lemma sock_connect_sent: "sock_connect ms n = Some (Inr (u, m)) \<Longrightarrow> sent m = sent n \<and> recvs m = recvs n"
  by (auto simp: sock_connect_def nbind_Inr sock_getsockopt_def nreturn_def nthrow_def
      dest!: sock_select_frame split: option.splits sysres.splits if_splits list.splits)

lemma recvLoop_sent: "recvLoop timeout st s n = Some (Inr (x, m)) \<Longrightarrow> sent m = sent n"
proof (induction timeout st s n rule: recvLoop.induct)
  case (1 timeout st s n)
  from 1(2) show ?case
  proof (cases rule: recvLoop_cases)
    case (1 d)
    then show ?thesis using timedRecv_Inr(2) by blast
  next
    case (2 d p f u)
    from 1(1) [OF 2(1) refl refl 2(2,3) refl 2(4,5)] timedRecv_Inr(2) [OF 2(1)]
    show ?thesis by simp
  qed
qed

lemma openSocket_ok:
  "new_socket env = (fd, fl, sf, e) \<Longrightarrow> fd \<noteq> -1 \<Longrightarrow> fl \<noteq> -1 \<Longrightarrow> sf \<noteq> -1 \<Longrightarrow>
     openSocket env n = Some (Inr ((), n))"
  by (simp add: openSocket_def Socket_new_def Let_def invalid_def)

text \<open>
  The system reaches the peer: the name resolves, a socket opens, the connection is accepted
  at once, and the kernel takes the whole request in calls of sizes \<open>ks\<close>.
\<close>

definition reachable :: "host_env \<Rightarrow> request \<Rightarrow> net \<Rightarrow> nat list \<Rightarrow> string list \<Rightarrow> bool" where
  "reachable env r n ks segs \<longleftrightarrow>
     getaddrinfo env (host (target r)) (if port (target r) = [] then ''80'' else port (target r))
       (internetProtocol r) = None \<and>
     (case new_socket env of (fd, fl, sf, e) \<Rightarrow> fd \<noteq> -1 \<and> fl \<noteq> -1 \<and> sf \<noteq> -1) \<and>
     connects n = [Ret 0] \<and> sends n = map Ret ks \<and> recvs n = map Ret segs \<and>
     list_all segment segs \<and> ready (length ks + length segs) n"

lemma Request_send_returns:
  assumes "reachable env r n ks segs" and "encodeHtml (target r) method content fs = Inr d"
    and "length d \<le> sum_list ks" and "feedAll init_rstate segs = Inr (True, u)"
  shows "\<exists>m. Request_send env r method content fs timeout n = Some (Inr (resp u, m))"
proof -
  obtain fd fl sf e where env: "new_socket env = (fd, fl, sf, e)" "fd \<noteq> -1" "fl \<noteq> -1" "sf \<noteq> -1"
    using assms(1) by (auto simp: reachable_def)
  have a: "connects n = [Ret 0]" "sends n = map Ret ks" "recvs n = map Ret segs"
    "list_all segment segs" "ready (length ks + length segs) n"
    "getaddrinfo env (host (target r)) (if port (target r) = [] then ''80'' else port (target r))
       (internetProtocol r) = None"
    using assms(1) by (auto simp: reachable_def)
  have sc: "scheme (target r) = ''http''"
    using assms(2) by (auto simp: encodeHtml_def split: if_splits)
  let ?st = "clock n (ticks n) + timeout * 1000000" and ?n = "n\<lparr>ticks := Suc (ticks n)\<rparr>"
  obtain ms n1 where c: "callTimeout timeout ?st ?n = Some (Inr (ms, n1))" "sends n1 = sends n"
    "recvs n1 = recvs n" "selects n1 = selects n" "connects n1 = connects n"
  proof -
    obtain ms n1 where c: "callTimeout timeout ?st ?n = Some (Inr (ms, n1))" "sends n1 = sends ?n"
      "recvs n1 = recvs ?n" "sent n1 = sent ?n" "selects n1 = selects ?n"
      by (rule callTimeout_returns)
    moreover have "connects n1 = connects n"
      using c(1) by (auto simp: callTimeout_def getRemainingMilliseconds_def nbind_def now_def
          nreturn_def Let_def split: if_splits)
    ultimately show thesis using that by simp
  qed
  let ?n2 = "n1\<lparr>connects := []\<rparr>"
  have conn: "sock_connect ms n1 = Some (Inr ((), ?n2))" using c(5) a(1) by (simp add: sock_connect_def)
  have "ready (length ks + length segs) ?n2" using a(5) c(4) by (simp add: ready_def)
  then obtain n3 where s: "sendLoop timeout ?st d ?n2 = Some (Inr ((), n3))" "ready (length segs) n3"
    using sendLoop_returns [of ?n2 ks "[]" d "length segs" timeout ?st] a(2) c(2) assms(3) by auto
  have "recvs n3 = map Ret segs @ []" using sendLoop_sent [OF s(1)] a(3) c(3) by simp
  from recvLoop_feedAll [OF assms(4) a(4) this s(2)] obtain m where
    r: "recvLoop timeout ?st init_rstate n3 = Some (Inr (resp u, m))" by blast
  have "Request_send env r method content fs timeout n =
      nbind (openSocket env) (\<lambda>_. nbind (callTimeout timeout ?st) (\<lambda>ms. nbind (sock_connect ms) (\<lambda>_.
        nbind (sendLoop timeout ?st d) (\<lambda>_. recvLoop timeout ?st init_rstate)))) ?n"
    using sc a(6) assms(2) by (simp add: Request_send_def nbind_def [of now] now_def Let_def)
  also have "\<dots> = Some (Inr (resp u, m))"
    using openSocket_ok [OF env, of ?n] c(1) conn s(1) r by (simp add: nbind_def)
  finally show ?thesis by blast
qed

lemma Request_send_sent:
  assumes "Request_send env r method content fs timeout n = Some (Inr (x, m))"
  shows "\<exists>d. encodeHtml (target r) method content fs = Inr d \<and> sent m = sent n @ d"
proof -
  obtain d ms n1 n2 n3 where s: "encodeHtml (target r) method content fs = Inr d"
    "callTimeout timeout (clock n (ticks n) + timeout * 1000000) (n\<lparr>ticks := Suc (ticks n)\<rparr>) =
       Some (Inr (ms, n1))"
    "sock_connect ms n1 = Some (Inr ((), n2))"
    "sendLoop timeout (clock n (ticks n) + timeout * 1000000) d n2 = Some (Inr ((), n3))"
    "recvLoop timeout (clock n (ticks n) + timeout * 1000000) init_rstate n3 = Some (Inr (x, m))"
    using Request_send_Inr [OF assms] by blast
  from callTimeout_frame [OF s(2)] sock_connect_sent [OF s(3)] sendLoop_sent [OF s(4)]
    recvLoop_sent [OF s(5)] s(1) show ?thesis by simp
qed

section \<open>A sample exchange\<close>

text \<open>A peer and a system to try the client on: a partial send, a body in two pieces.\<close>

definition demo_net :: net where
  "demo_net = \<lparr>selects = replicate 4 (Ret 1), connects = [Ret 0], sockopts = [],
     sends = [Ret 10, Ret 100],
     recvs = [Ret (''HTTP/1.1 200 OK'' @ crlf @ ''Content-Length: 5'' @ crlf @ crlf @ ''al''), Ret ''low''],
     sent = [], waits = [], clock = (\<lambda>_. 0), ticks = 0\<rparr>"

definition demo_env :: host_env where
  "demo_env = \<lparr>getaddrinfo = (\<lambda>_ _ _. None), new_socket = (3, 0, 0, 0)\<rparr>"

definition demo_request :: request where
  "demo_request = \<lparr>internetProtocol = V4,
     target = empty_uri\<lparr>scheme := ''http'', host := ''h'', path := ''/a''\<rparr>\<rparr>"

definition demo_sent :: string where
  "demo_sent = ''POST /a HTTP/1.1'' @ crlf @ ''Host: h'' @ crlf @ ''Content-Length: 2'' @ crlf @ crlf @ ''hi''"

definition demo_response :: response where
  "demo_response = \<lparr>status = \<lparr>httpVersion = \<lparr>major = 1, minor = 1\<rparr>, code = 200, reason = ''OK''\<rparr>,
     headerFields = [(''content-length'', ''5'')], body = ''allow''\<rparr>"


definition demo_head :: string where
  "demo_head = show_head 1 1 200 ''OK'' [(''Content-Length'', ''5'')]"

lemma demo_wf:
  "wf_head 1 1 200 ''OK'' [(''Content-Length'', ''5'')]"
  by (simp add: wf_head_def wf_header_def token_def trimmed_def char_class_defs dec_digit_def)

lemma demo_lower: "lower_fields [(''Content-Length'', ''5'')] = [(''content-length'', ''5'')]"
  by code_simp

lemma demo_framing:
  "list_all header_ok [(''Content-Length'', ''5'')]"
  "\<not> chunked [(''Content-Length'', ''5'')]" "lengths [(''Content-Length'', ''5'')] = [5]"
proof -
  have v: "read_dec ''5'' = 5" "list_all dec_digit ''5''" "map toLower ''Content-Length'' = ''content-length''"
    by code_simp+
  then show "list_all header_ok [(''Content-Length'', ''5'')]" by (simp add: header_ok_def)
  show "\<not> chunked [(''Content-Length'', ''5'')]" "lengths [(''Content-Length'', ''5'')] = [5]"
    unfolding chunked_def lengths_def demo_lower using v(1) by simp_all
qed

lemma demo_encoded: "encodeHtml (target demo_request) ''POST'' ''hi'' [] = Inr demo_sent"
  by code_simp

lemma demo_reachable: "reachable demo_env demo_request demo_net [10, 100] [demo_head @ crlf @ ''al'', ''low'']"
proof -
  have "recvs demo_net = map Ret [demo_head @ crlf @ ''al'', ''low'']" by code_simp
  moreover have "list_all segment [demo_head @ crlf @ ''al'', ''low'']" by code_simp
  ultimately show ?thesis
    by (simp add: reachable_def demo_env_def demo_net_def demo_request_def empty_uri_def ready_def)
qed

lemma demo_response_eq: "framed 1 1 200 ''OK'' [(''Content-Length'', ''5'')] ''allow'' = demo_response"
  unfolding framed_def demo_lower by code_simp

lemma demo_returns:
  "\<exists>m. Request_send demo_env demo_request ''POST'' ''hi'' [] 1000 demo_net = Some (Inr (demo_response, m))"
proof -
  have "last (lengths [(''Content-Length'', ''5'')]) = length (concat [''al'', ''low''])"
    using demo_framing(3) by simp
  from feedAll_response_length [OF demo_wf demo_framing(1,2) _ this] demo_framing(3) obtain u where
    "feedAll init_rstate [demo_head @ crlf @ ''al'', ''low''] = Inr (True, u)" "resp u = demo_response"
    using demo_response_eq by (auto simp: demo_head_def)
  moreover have "length demo_sent \<le> sum_list [10, 100]" by code_simp
  ultimately show ?thesis using Request_send_returns [OF demo_reachable demo_encoded, of u 1000] by simp
qed

section \<open>Properties\<close>

text \<open>
  C9: when \<open>Request::send\<close> returns a response, the peer has received exactly the encoded
  request, whatever sizes the partial sends had, however often calls were interrupted, and
  whatever timeout was set.
\<close>

theorem request_delivered:
  assumes "Request_send env r method content fs timeout n = Some (Inr (x, m))"
  shows "\<exists>d. encodeHtml (target r) method content fs = Inr d \<and> sent m = sent n @ d"
  using assms by (rule Request_send_sent)

theorem request_delivered_witness:
  "\<exists>m. Request_send demo_env demo_request ''POST'' ''hi'' [] 1000 demo_net = Some (Inr (demo_response, m)) \<and>
     sent m = demo_sent"
proof -
  obtain m where m: "Request_send demo_env demo_request ''POST'' ''hi'' [] 1000 demo_net =
      Some (Inr (demo_response, m))" using demo_returns by blast
  from request_delivered [OF m] demo_encoded have "sent m = sent demo_net @ demo_sent" by simp
  then show ?thesis using m by (simp add: demo_net_def)
qed

text \<open>
  C8: against a reachable peer, and when the header block of the answer arrives whole in the
  first segment, \<open>Request::send\<close> returns, for every split of the request into sends, every cut of
  the body into segments and every timeout: a response with a \<open>Content-Length\<close> is returned with
  its status, its header fields (names in lower case) and its whole body.
\<close>

theorem request_exchange:
  assumes "reachable env r n ks ((show_head ma mi c p hs @ crlf @ d) # ds)"
    and "encodeHtml (target r) method content fs = Inr e" and "length e \<le> sum_list ks"
    and "wf_head ma mi c p hs" and "list_all header_ok hs" and "\<not> chunked hs"
    and "lengths hs \<noteq> []" and "last (lengths hs) = length (concat (d # ds))"
  shows "\<exists>m. Request_send env r method content fs timeout n =
    Some (Inr (framed ma mi c p hs (concat (d # ds)), m))"
proof -
  have "[] \<notin> set ds" using assms(1) by (auto simp: reachable_def segment_def list_all_iff)
  from feedAll_response_length [OF assms(4-8) this] obtain u where
    "feedAll init_rstate ((show_head ma mi c p hs @ crlf @ d) # ds) = Inr (True, u)"
    "resp u = framed ma mi c p hs (concat (d # ds))" by blast
  then show ?thesis using Request_send_returns [OF assms(1-3), of u timeout] by simp
qed

theorem request_exchange_witness:
  "\<exists>m. Request_send demo_env demo_request ''POST'' ''hi'' [] 20 demo_net =
     Some (Inr (framed 1 1 200 ''OK'' [(''Content-Length'', ''5'')] (concat [''al'', ''low'']), m))"
proof (rule request_exchange [where ks = "[10, 100]" and e = demo_sent])
  show "reachable demo_env demo_request demo_net [10, 100]
      [show_head 1 1 200 ''OK'' [(''Content-Length'', ''5'')] @ crlf @ ''al'', ''low'']"
    using demo_reachable by (simp add: demo_head_def)
  show "length demo_sent \<le> sum_list [10, 100]" by code_simp
  show "last (lengths [(''Content-Length'', ''5'')]) = length (concat [''al'', ''low''])"
    "lengths [(''Content-Length'', ''5'')] \<noteq> []" by (simp_all add: demo_framing(3))
qed (rule demo_encoded demo_wf demo_framing)+

text \<open>
  C10: a chunked response whose header block arrives whole in the first segment is decoded to the
  concatenation of its chunks, however the rest of the stream is cut into segments; what
  follows the last chunk is left alone.
\<close>

theorem chunked_response:
  assumes "wf_head ma mi c r hs" and "list_all header_ok hs" and "chunked hs"
    and "list_all wf_chunk cs" and "concat (d # ds) = show_chunked cs @ junk"
    and "list_all segment ((show_head ma mi c r hs @ crlf @ d) # ds)"
    and "recvs n = map Ret ((show_head ma mi c r hs @ crlf @ d) # ds)" and "ready (Suc (length ds)) n"
  shows "\<exists>m. recvLoop timeout st init_rstate n = Some (Inr (framed ma mi c r hs (concat cs), m))"
proof -
  from feedAll_response_chunked [OF assms(1-5)] obtain u where
    "feedAll init_rstate ((show_head ma mi c r hs @ crlf @ d) # ds) = Inr (True, u)"
    "resp u = framed ma mi c r hs (concat cs)" by blast
  with recvLoop_feedAll [OF _ assms(6), where t = u and n = n and tail = "[]" and timeout = timeout and st = st] assms(7,8) show ?thesis by auto
qed

definition chunked_net :: net where
  "chunked_net = demo_net\<lparr>recvs := map Ret
     [show_head 1 1 200 ''OK'' [(''Transfer-Encoding'', ''chunked'')] @ crlf @ ''3'', crlf @ ''all'' @ [CR],
      LF # ''2'' @ crlf @ ''ow'' @ crlf @ ''0'' @ crlf @ crlf]\<rparr>"

theorem chunked_response_witness:
  "\<exists>m. recvLoop 5 0 init_rstate chunked_net =
     Some (Inr (framed 1 1 200 ''OK'' [(''Transfer-Encoding'', ''chunked'')] ''allow'', m))"
proof -
  let ?hs = "[(''Transfer-Encoding'', ''chunked'')]"
  have "\<exists>m. recvLoop 5 0 init_rstate chunked_net = Some (Inr (framed 1 1 200 ''OK'' ?hs (concat [''all'', ''ow'']), m))"
  proof (rule chunked_response [where d = "''3''" and junk = crlf and
        ds = "[crlf @ ''all'' @ [CR], LF # ''2'' @ crlf @ ''ow'' @ crlf @ ''0'' @ crlf @ crlf]"])
    show "wf_head 1 1 200 ''OK'' ?hs"
      by (simp add: wf_head_def wf_header_def token_def trimmed_def char_class_defs dec_digit_def)
    have "map toLower ''Transfer-Encoding'' \<noteq> ''content-length''" by code_simp
    then show "list_all header_ok ?hs" by (simp only: header_ok_def list.pred_inject fst_conv snd_conv simp_thms)
    have "lower_fields ?hs = [(''transfer-encoding'', ''chunked'')]" by code_simp
    then show "chunked ?hs" by (simp add: chunked_def)
    show "list_all wf_chunk [''all'', ''ow'']" by (simp add: wf_chunk_def)
    show "concat (''3'' # [crlf @ ''all'' @ [CR], LF # ''2'' @ crlf @ ''ow'' @ crlf @ ''0'' @ crlf @ crlf]) =
        show_chunked [''all'', ''ow''] @ crlf" by code_simp
    show "list_all segment ((show_head 1 1 200 ''OK'' ?hs @ crlf @ ''3'') #
        [crlf @ ''all'' @ [CR], LF # ''2'' @ crlf @ ''ow'' @ crlf @ ''0'' @ crlf @ crlf])" by code_simp
  qed (simp_all add: chunked_net_def demo_net_def ready_def)
  then show ?thesis by simp
qed

text \<open>
  Without a framing header the body is everything up to the end of the connection.
\<close>

theorem close_delimited_response:
  assumes "wf_head ma mi c r hs" and "list_all header_ok hs" and "\<not> chunked hs" and "lengths hs = []"
    and "list_all segment ((show_head ma mi c r hs @ crlf @ d) # ds)"
    and "recvs n = map Ret ((show_head ma mi c r hs @ crlf @ d) # ds) @ [Ret []]"
    and "ready (length ds + 2) n"
  shows "\<exists>m. recvLoop timeout st init_rstate n = Some (Inr (framed ma mi c r hs (concat (d # ds)), m))"
proof -
  from feedAll_response_close [OF assms(1-4)] obtain u where
    "feedAll init_rstate ((show_head ma mi c r hs @ crlf @ d) # ds) = Inr (False, u)"
    "resp u = framed ma mi c r hs (concat (d # ds))" by blast
  with recvLoop_feedAll_close [OF _ assms(5), where t = u and n = n and tail = "[]" and timeout = timeout and st = st] assms(6,7) show ?thesis by auto
qed

theorem close_delimited_response_witness:
  "\<exists>m. recvLoop (-1) 0 init_rstate (demo_net\<lparr>recvs := map Ret
       ((show_head 1 0 404 [] [(''A'', ''b'')] @ crlf @ ''no'') # [''pe'']) @ [Ret []]\<rparr>) =
     Some (Inr (framed 1 0 404 [] [(''A'', ''b'')] (concat (''no'' # [''pe''])), m))"
proof (rule close_delimited_response)
  have l: "map toLower ''A'' = ''a''" by code_simp
  show "wf_head 1 0 404 [] [(''A'', ''b'')]"
    by (simp add: wf_head_def wf_header_def token_def trimmed_def char_class_defs dec_digit_def)
  show "list_all header_ok [(''A'', ''b'')]" "\<not> chunked [(''A'', ''b'')]" "lengths [(''A'', ''b'')] = []"
    using l by (simp_all add: header_ok_def chunked_def lengths_def lower_fields_def)
  show "list_all segment ((show_head 1 0 404 [] [(''A'', ''b'')] @ crlf @ ''no'') # [''pe''])" by code_simp
qed (simp_all add: demo_net_def ready_def)

text \<open>
  C12: when the first segment ends before the blank line behind the header block, \<open>send\<close> stops
  reading and returns a default-constructed response, with no error and whatever arrives
  later: the header block is never reassembled from two segments.
\<close>

theorem cut_header_block:
  assumes "segment d" and "find_sub (crlf @ crlf) d = None" and "recvs n = Ret d # t" and "ready 1 n"
  shows "\<exists>m. recvLoop timeout st init_rstate n = Some (Inr (empty_response, m)) \<and> recvs m = t"
proof -
  have rd: "ready (Suc 0) n" using assms(4) by simp
  obtain m where m: "timedRecv timeout st n = Some (Inr (d, m))" "recvs m = t"
    using timedRecv_segment [OF assms(1,3) rd] by blast
  have "onData d init_rstate = Inr (True, feed init_rstate d)"
    using assms(2) by (simp add: onData_def Let_def parseHead_def init_rstate_def feed_def)
  then show ?thesis
    using m assms(1) by (subst recvLoop.simps) (simp add: segment_def init_rstate_def)
qed

theorem cut_header_block_witness:
  "\<exists>m. recvLoop 5 0 init_rstate (demo_net\<lparr>recvs := [Ret (''HTTP/1.1 200 OK'' @ [CR]),
        Ret (LF # ''Content-Length: 0'' @ crlf @ crlf)]\<rparr>) = Some (Inr (empty_response, m)) \<and>
     recvs m = [Ret (LF # ''Content-Length: 0'' @ crlf @ crlf)]"
proof (rule cut_header_block)
  show "segment (''HTTP/1.1 200 OK'' @ [CR])" by (simp add: segment_def)
  show "find_sub (crlf @ crlf) (''HTTP/1.1 200 OK'' @ [CR]) = None" by code_simp
qed (simp_all add: demo_net_def ready_def)

text \<open>
  A response without any header field, which HTTP allows, is rejected with
  \<open>Invalid token\<close>, because the field parser runs before the end of the block is tested.
\<close>

theorem no_header_fields_rejected:
  assumes "ma < 10" and "mi < 10" and "100 \<le> c" and "c \<le> 999" and "list_all isTextChar r"
  shows "onData (show_status_line ma mi c r @ crlf @ b) init_rstate = Inl (ResponseError ''Invalid token'')"
proof -
  let ?l = "''HTTP/'' @ [digit_chr ma] @ ''.'' @ [digit_chr mi] @ '' '' @ show_nat c @ '' '' @ r"
  let ?h = "show_status_line ma mi c r"
  have dig: "dec_digit d \<Longrightarrow> d \<noteq> CR" for d by (auto simp: dec_digit_def)
  have "digit_chr ma \<noteq> CR" "digit_chr mi \<noteq> CR" "CR \<notin> set (show_nat c)"
    using assms dig dec_digit_chr show_nat_digits by auto
  then have "list_all line [?l]" using assms text_no_cr by (auto simp: line_def)
  from find_blank_line [OF this, of b]
  have f: "find_sub (crlf @ crlf) (?h @ crlf @ b) = Some (length ?h - 2)" by (simp add: show_status_line_def)
  have "length ?h - 2 + 2 = length ?h" by (simp add: show_status_line_def)
  then have t: "take (length ?h - 2 + 2) (?h @ crlf @ b) = ?h" by simp
  have h: "headerLoop s [] = Inl (ResponseError ''Invalid token'')" for s
    by (subst headerLoop.simps) (simp add: parseHeaderField_def parseToken_def)
  have p: "parseStatusLine ?h = Inr (printed_status ma mi c r, [])"
    using parse_status_line [OF assms, of "[]"] by simp
  have "parseHead (feed init_rstate (?h @ crlf @ b)) = Inl (ResponseError ''Invalid token'')"
  proof -
    have d: "responseData (feed init_rstate (?h @ crlf @ b)) = ?h @ crlf @ b" by (simp add: init_rstate_def)
    show ?thesis by (simp only: parseHead_def d f option.case t p rbind_Inr prod.case h rbind_Inl)
  qed
  moreover have "\<not> parsingBody (feed init_rstate (?h @ crlf @ b))" by (simp add: init_rstate_def)
  ultimately show ?thesis by (simp add: onData_def Let_def)
qed

theorem no_header_fields_rejected_witness:
  "onData (show_status_line 1 1 200 [] @ crlf @ []) init_rstate = Inl (ResponseError ''Invalid token'')"
  by (rule no_header_fields_rejected) simp_all

text \<open>
  The timeout bounds every wait. With a steady clock that does not go back, each
  \<open>select\<close> of a \<open>send\<close> that returns is asked to wait at most \<open>timeout\<close> milliseconds with
  microseconds below a million, and never without limit; with a negative timeout each waits
  without limit.
\<close>

theorem request_waits:
  assumes "Request_send env r method content fs timeout n = Some (Inr (x, m))" and "mono (clock n)"
  shows "\<exists>ws. waits m = waits n @ ws \<and> list_all (wait_within timeout) ws"
proof -
  let ?st = "clock n (ticks n) + timeout * 1000000" and ?n = "n\<lparr>ticks := Suc (ticks n)\<rparr>"
  obtain d ms n1 n2 n3 where e: "encodeHtml (target r) method content fs = Inr d"
    and s: "callTimeout timeout ?st ?n = Some (Inr (ms, n1))"
    "sock_connect ms n1 = Some (Inr ((), n2))" "sendLoop timeout ?st d n2 = Some (Inr ((), n3))"
    "recvLoop timeout ?st init_rstate n3 = Some (Inr (x, m))"
    using Request_send_Inr [OF assms(1)] by blast
  have "clock n (ticks n) \<le> clock n (Suc (ticks n))" using assms(2) by (simp add: mono_def)
  then have d0: "deadline timeout ?st ?n" using assms(2) by (simp add: deadline_def)
  note c = callTimeout_kept [OF s(1) d0]
  note k1 = kept_trans [OF c(1) sock_connect_kept [OF s(2) c(2)]]
  note k2 = kept_trans [OF k1 sendLoop_kept [OF s(3) kept_deadline [OF k1 d0]]]
  have "kept timeout ?n m"
    by (rule kept_trans [OF k2 recvLoop_kept [OF s(4) kept_deadline [OF k2 d0]]])
  then show ?thesis by (simp add: kept_def)
qed

theorem request_waits_witness:
  "\<exists>m ws. Request_send demo_env demo_request ''POST'' ''hi'' [] 1000 demo_net = Some (Inr (demo_response, m)) \<and>
     waits m = ws \<and> list_all (wait_within 1000) ws"
proof -
  obtain m where m: "Request_send demo_env demo_request ''POST'' ''hi'' [] 1000 demo_net =
      Some (Inr (demo_response, m))" using demo_returns by blast
  have "mono (clock demo_net)" by (simp add: demo_net_def mono_def)
  from request_waits [OF m this] m show ?thesis by (simp add: demo_net_def)
qed

text \<open>
  C11: the chunk decoder does not depend on segmentation: running it on some bytes and then on
  more is running it on all of them, errors included.
\<close>

theorem chunk_segmentation:
  "chunkLoop (feed s (a @ b)) =
     (case chunkLoop (feed s a) of
        Inl e \<Rightarrow> Inl e
      | Inr (True, t) \<Rightarrow> Inr (True, feed t b)
      | Inr (False, t) \<Rightarrow> chunkLoop (feed t b))"
  using chunkLoop_feed [of "feed s a" b] by simp

end
