(* ===== verification/RpiUart.thy ===== *)
theory RpiUart
  imports FgPrelude
begin

text \<open>
  The serial line of the feeder: \<open>RPIUart.hpp\<close> and \<open>RPIUart.cpp\<close>. The static file descriptor,
  the two line speeds and the bytes that went out are the record \<open>uart\<close>. What \<open>open\<close>, \<open>write\<close>
  and \<open>read\<close> return are arguments. The C++ arrays are modelled with their bounds, so that a
  write outside of one is a fault and not a value.
\<close>

section \<open>Faults\<close>

text \<open>
  Why a step has no defined result: an access outside of an array, freeing twice, or an
  exception nobody catches, which ends the program.
\<close>

datatype fault =
    WriteOutOfBounds
  | DoubleFree
  | UseAfterFree
  | Uncaught stoi_error

text \<open>A C string: \<open>strlen\<close>, \<open>strcpy\<close> and \<open>std::string(const char*)\<close> read up to the first NUL.\<close>

definition c_str :: "string \<Rightarrow> string" where
  "c_str s = takeWhile (\<lambda>c. c \<noteq> CHR 0x00) s"

definition plain :: "string \<Rightarrow> bool" where
  "plain s \<longleftrightarrow> CHR 0x00 \<notin> set s"

lemma c_str_plain [simp]: "plain s \<Longrightarrow> c_str s = s"
  by (auto simp: c_str_def plain_def)

lemma plain_c_str [simp]: "plain (c_str s)"
  by (auto simp: c_str_def plain_def dest: set_takeWhileD)

text \<open>An array of \<open>char\<close>s, \<open>None\<close> where nothing was stored yet.\<close>

type_synonym chars = "char option list"

definition new_chars :: "nat \<Rightarrow> chars" where
  "new_chars n = replicate n None"

definition store :: "chars \<Rightarrow> nat \<Rightarrow> char \<Rightarrow> fault + chars" where
  "store b i c = (if i < length b then Inr (b[i := Some c]) else Inl WriteOutOfBounds)"

section \<open>The serial line\<close>

record uart =
  uart0_filestream :: int
  speeds :: "nat \<times> nat"
  wire :: string

definition uart_start :: uart where
  "uart_start = \<lparr>uart0_filestream = -1, speeds = (0, 0), wire = []\<rparr>"

definition initializeUART :: "int \<Rightarrow> uart \<Rightarrow> uart" where
  "initializeUART fd u = u\<lparr>uart0_filestream := fd, speeds := (115200, 115200)\<rparr>"

text \<open>The loop that copies the command behind the \<open>S\<close>; it returns the final index as well.\<close>

function copyLoop :: "string \<Rightarrow> nat \<Rightarrow> chars \<Rightarrow> fault + (nat \<times> chars)" where
  "copyLoop command i tx_buffer =
     (if i < length command + 1
      then rbind (store tx_buffer i (command ! (i - 1))) (\<lambda>b. copyLoop command (i + 1) b)
      else Inr (i, tx_buffer))"
  by pat_completeness auto
termination
  by (relation "measure (\<lambda>(command, i, b). length command + 1 - i)") auto

declare copyLoop.simps [simp del]

text \<open>
  \<open>transmitBytes\<close> for a C string. \<open>put\<close> is the kernel's \<open>write\<close>: how many of the bytes it takes,
  or a negative number.
\<close>

definition transmitBytes :: "(string \<Rightarrow> int) \<Rightarrow> string \<Rightarrow> uart \<Rightarrow> fault + (int \<times> uart)" where
  "transmitBytes put command u =
     (let command = c_str command in
      rbind (store (new_chars 6) 0 (CHR ''S'')) (\<lambda>tx_buffer.
      rbind (copyLoop command 1 tx_buffer) (\<lambda>(i, tx_buffer).
      rbind (store tx_buffer i (CHR ''E'')) (\<lambda>tx_buffer.
        if uart0_filestream u \<noteq> -1 then
          (let frame = map the (take (i + 1) tx_buffer); count = put frame
           in if count < 0 then Inr (-1, u)
              else Inr (0, u\<lparr>wire := wire u @ take (nat count) frame\<rparr>))
        else Inr (0, u)))))"

text \<open>
  What \<open>readBytes\<close> returns: a pointer to its local buffer (which is dead by then) with the
  string stored in it, or, without a line, a pointer that was never set. \<open>got\<close> is what \<open>read\<close>
  delivers, \<open>None\<close> for an error.
\<close>

datatype rx_pointer = Local string | Unset

definition readBytes :: "string option \<Rightarrow> uart \<Rightarrow> rx_pointer" where
  "readBytes got u =
     (if uart0_filestream u \<noteq> -1
      then (case got of
              None \<Rightarrow> Local []
            | Some d \<Rightarrow> let d = take 10 d in if d = [] then Local [] else Local (c_str d))
      else Unset)"

section \<open>Lemmas\<close>

text \<open>The frame the micro controller gets for a command.\<close>

definition frame :: "string \<Rightarrow> string" where
  "frame command = ''S'' @ command @ ''E''"

lemma store_fill:
  "length xs < n \<Longrightarrow>
     store (map Some xs @ replicate (n - length xs) None) (length xs) c =
     Inr (map Some (xs @ [c]) @ replicate (n - length (xs @ [c])) None)"
  by (auto simp: store_def list_update_append Suc_diff_Suc simp flip: replicate_Suc
      intro!: nth_equalityI simp: nth_append nth_list_update nth_Cons split: nat.splits)

lemma copyLoop_fill:
  assumes "i \<le> length command" and "i < n"
  shows "copyLoop command (Suc i) (map Some (CHR ''S'' # take i command) @ replicate (n - Suc i) None) =
    (if length command < n
     then Inr (Suc (length command),
            map Some (CHR ''S'' # command) @ replicate (n - Suc (length command)) None)
     else Inl WriteOutOfBounds)"
  using assms
proof (induction "length command - i" arbitrary: i)
  case 0
  then have "i = length command" by simp
  with 0 show ?case by (subst copyLoop.simps) simp
next
  case (Suc k)
  then have lt: "i < length command" by simp
  let ?xs = "CHR ''S'' # take i command"
  have l: "length ?xs = Suc i" using lt by simp
  have nx: "take (Suc i) command = take i command @ [command ! i]" using lt by (rule take_Suc_conv_app_nth)
  show ?case
  proof (cases "Suc i < n")
    case True
    have "store (map Some ?xs @ replicate (n - Suc i) None) (Suc i) (command ! i) =
        Inr (map Some (CHR ''S'' # take (Suc i) command) @ replicate (n - Suc (Suc i)) None)"
      using store_fill [of ?xs n "command ! i"] True l by (simp add: nx)
    then show ?thesis
      using Suc(1) [of "Suc i"] Suc(2) lt True
      by (subst copyLoop.simps) simp
  next
    case False
    then have "store (map Some ?xs @ replicate (n - Suc i) None) (Suc i) (command ! i) = Inl WriteOutOfBounds"
      using l by (simp add: store_def)
    then show ?thesis using lt False
      by (subst copyLoop.simps) simp
  qed
qed

text \<open>What \<open>transmitBytes\<close> does, for every command: a frame for at most four bytes.\<close>

lemma transmitBytes_eq:
  "transmitBytes put s u =
     (if length (c_str s) \<le> 4 then
        (if uart0_filestream u = -1 then Inr (0, u)
         else if put (frame (c_str s)) < 0 then Inr (-1, u)
         else Inr (0, u\<lparr>wire := wire u @ take (nat (put (frame (c_str s)))) (frame (c_str s))\<rparr>))
      else Inl WriteOutOfBounds)"
proof -
  let ?c = "c_str s"
  have s0: "store (new_chars 6) 0 CHR ''S'' = Inr (map Some (CHR ''S'' # take 0 ?c) @ replicate (6 - Suc 0) None)"
    by (simp add: store_def new_chars_def numeral_eq_Suc)
  have cl: "copyLoop ?c (Suc 0) (map Some (CHR ''S'' # take 0 ?c) @ replicate (6 - Suc 0) None) =
    (if length ?c < 6
     then Inr (Suc (length ?c), map Some (CHR ''S'' # ?c) @ replicate (6 - Suc (length ?c)) None)
     else Inl WriteOutOfBounds)"
    using copyLoop_fill [of 0 ?c 6] by simp
  have st: "store (map Some (CHR ''S'' # ?c) @ replicate (6 - Suc (length ?c)) None) (Suc (length ?c)) CHR ''E'' =
      (if length ?c \<le> 4
       then Inr (map Some (CHR ''S'' # ?c @ ''E'') @ replicate (6 - Suc (Suc (length ?c))) None)
       else Inl WriteOutOfBounds)" if "length ?c < 6"
    using store_fill [of "CHR ''S'' # ?c" 6 "CHR ''E''"] that
    by (auto simp: store_def)
  have fr: "map the (take (Suc (Suc (length ?c)))
      (map Some (CHR ''S'' # ?c @ ''E'') @ replicate k None)) = frame ?c" for k
    by (simp add: frame_def comp_def)
  have build: "rbind (store (new_chars 6) 0 CHR ''S'') (\<lambda>b. rbind (copyLoop ?c 1 b) (\<lambda>(i, b).
      rbind (store b i CHR ''E'') (k i))) =
    (if length ?c \<le> 4
     then k (Suc (length ?c)) (map Some (CHR ''S'' # ?c @ ''E'') @ replicate (6 - Suc (Suc (length ?c))) None)
     else Inl WriteOutOfBounds)" for k :: "nat \<Rightarrow> chars \<Rightarrow> fault + (int \<times> uart)"
  proof (cases "length ?c < 6")
    case True
    show ?thesis
      by (simp only: s0 rbind_Inr One_nat_def cl True if_True prod.case st [OF True])
         (simp only: if_distrib [of "\<lambda>m. rbind m _"] rbind_Inr rbind_Inl)
  next
    case False
    then have "\<not> length ?c \<le> 4" by simp
    then show ?thesis
      by (simp only: s0 rbind_Inr One_nat_def cl False if_False rbind_Inl)
  qed
  show ?thesis
    unfolding transmitBytes_def Let_def build
    by (simp only: add_Suc_right add_0_right One_nat_def fr) simp
qed

end
