(* ===== verification/RpiPsoc.thy ===== *)
theory RpiPsoc
  imports RpiUart
begin

text \<open>
  The link to the PSoC micro controller: \<open>PsocComm.hpp\<close> and \<open>PsocComm.cpp\<close>. The singleton is
  the record \<open>psoc\<close>; its nested thread polls the serial line and turns the frames of the
  micro controller into messages for the command controller. A message on the queue is its
  identifier with the text in its \<open>response\<close> field.
\<close>

type_synonym msg = "nat \<times> string"

section \<open>Sending\<close>

record psoc =
  latestCommand :: "string option"
  uart_of :: uart
  console :: "string list"

definition psoc_start :: psoc where
  "psoc_start = \<lparr>latestCommand = None, uart_of = uart_start, console = []\<rparr>"

definition sendCommand :: "(string \<Rightarrow> int) \<Rightarrow> string \<Rightarrow> psoc \<Rightarrow> fault + psoc" where
  "sendCommand put s p =
     rbind (transmitBytes put s (uart_of p)) (\<lambda>(error, u).
       let say = (if error \<noteq> 0 then ''Error transmitting bytes.'' else ''Bytes transmitted.'')
       in Inr (p\<lparr>latestCommand := Some s, uart_of := u, console := console p @ [say]\<rparr>))"

section \<open>Listening\<close>

datatype psoc_id = ACK | NACK | WLOW | FLOW | TLOW | TR

definition id_value :: "psoc_id \<Rightarrow> nat" where
  "id_value i = (case i of ACK \<Rightarrow> 0 | NACK \<Rightarrow> 1 | WLOW \<Rightarrow> 2 | FLOW \<Rightarrow> 3 | TLOW \<Rightarrow> 4 | TR \<Rightarrow> 5)"

definition handleUart :: "string \<Rightarrow> msg list" where
  "handleUart uartString =
     (if uartString = ''SACKE'' then [(id_value ACK, uartString)]
      else if uartString = ''SNACKE'' then [(id_value NACK, uartString)]
      else if uartString = ''SWLOWE'' then [(id_value WLOW, uartString)]
      else if uartString = ''SFLOWE'' then [(id_value FLOW, uartString)]
      else if uartString = ''STLOWE'' then [(id_value TLOW, uartString)]
      else if uartString = ''STRE'' then [(id_value TLOW, uartString)]
      else [])"

text \<open>
  The polling loop over what the reads deliver. \<open>deref\<close> is what stands behind the pointer that
  \<open>readBytes\<close> returns: the memory it points to is no longer owned, so the code cannot know.
  \<open>None\<close>: nothing has come yet.
\<close>

fun waitForUartComm ::
    "(rx_pointer \<Rightarrow> string) \<Rightarrow> uart \<Rightarrow> string option list \<Rightarrow> (string \<times> string option list) option" where
  "waitForUartComm deref u [] = None"
| "waitForUartComm deref u (got # gs) =
     (let incomming = deref (readBytes got u)
      in if incomming \<noteq> [] \<and> hd incomming \<noteq> CHR 0x00 then Some (c_str incomming, gs)
         else waitForUartComm deref u gs)"

lemma waitForUartComm_shorter: "waitForUartComm deref u gs = Some (s, gs') \<Longrightarrow> length gs' < length gs"
  by (induction gs) (auto simp: Let_def split: if_splits)

text \<open>\<open>run\<close> over the reads of its lifetime: the messages it sends, in order.\<close>

function listener_run :: "(rx_pointer \<Rightarrow> string) \<Rightarrow> uart \<Rightarrow> string option list \<Rightarrow> msg list" where
  "listener_run deref u gs =
     (case waitForUartComm deref u gs of
        None \<Rightarrow> []
      | Some (uartInc, gs') \<Rightarrow> handleUart uartInc @ listener_run deref u gs')"
  by pat_completeness auto
termination
  by (relation "measure (\<lambda>(d, u, gs). length gs)") (auto dest: waitForUartComm_shorter)

declare listener_run.simps [simp del]

section \<open>Lemmas\<close>

text \<open>The six reports of the micro controller.\<close>

definition reports :: "string list" where
  "reports = [''ACK'', ''NACK'', ''WLOW'', ''FLOW'', ''TLOW'', ''TR'']"

lemma handleUart_frame:
  "handleUart s \<noteq> [] \<longleftrightarrow> s \<in> frame ` set reports"
  by (auto simp: handleUart_def reports_def frame_def)

lemma handleUart_msg: "m \<in> set (handleUart s) \<Longrightarrow> snd m = s \<and> fst m \<le> 4"
  by (auto simp: handleUart_def id_value_def split: if_splits)

lemma reports_length: "c \<in> set reports \<Longrightarrow> 2 \<le> length c \<and> length c \<le> 4"
  by (auto simp: reports_def)

text \<open>A frame of the micro controller holds one \<open>S\<close>, its first byte.\<close>

lemma report_no_S: "c \<in> set reports \<Longrightarrow> CHR ''S'' \<notin> set (c @ ''E'')"
  by (auto simp: reports_def)

lemma two_frames:
  assumes "a \<in> set reports" and "b \<in> set reports"
  shows "handleUart (frame a @ frame b) = []"
proof (rule ccontr)
  assume "handleUart (frame a @ frame b) \<noteq> []"
  then obtain c where c: "c \<in> set reports" "frame a @ frame b = frame c"
    by (auto simp: handleUart_frame)
  then have "a @ ''E'' @ frame b = c @ ''E''" by (simp add: frame_def)
  then have "CHR ''S'' \<in> set (c @ ''E'')" by (metis UnCI frame_def append.assoc append_Cons
        list.set_intros(1) set_append)
  with report_no_S [OF c(1)] show False by simp
qed

text \<open>With readable memory behind the pointer the listener handles every read that is not empty.\<close>

definition received :: "string option \<Rightarrow> string" where
  "received got = (case got of None \<Rightarrow> [] | Some d \<Rightarrow> c_str (take 10 d))"

lemma readBytes_open: "uart0_filestream u \<noteq> -1 \<Longrightarrow> readBytes got u = Local (received got)"
  by (cases got) (auto simp: readBytes_def received_def Let_def c_str_def)

lemma received_hd: "received got \<noteq> [] \<Longrightarrow> hd (received got) \<noteq> CHR 0x00"
proof (rule notI)
  assume ne: "received got \<noteq> []" and h: "hd (received got) = CHR 0x00"
  then have "CHR 0x00 \<in> set (received got)" by (metis list.set_sel(1))
  then show False by (cases got) (auto simp: received_def c_str_def dest: set_takeWhileD)
qed

lemma c_str_received [simp]: "c_str (received got) = received got"
  by (cases got) (simp_all add: received_def c_str_def)

lemma listener_run_Cons:
  assumes "uart0_filestream u \<noteq> -1" and "\<And>s. deref (Local s) = s"
  shows "listener_run deref u (got # gs) = handleUart (received got) @ listener_run deref u gs"
proof (cases "received got = []")
  case True
  have "handleUart [] = []" by (simp add: handleUart_def)
  then show ?thesis
    using True by (subst (1 2) listener_run.simps) (simp add: readBytes_open [OF assms(1)] assms(2) Let_def)
next
  case False
  then show ?thesis
    using received_hd [OF False]
    by (subst listener_run.simps) (simp add: readBytes_open [OF assms(1)] assms(2) Let_def)
qed

lemma listener_run_eq:
  assumes "uart0_filestream u \<noteq> -1" and "\<And>s. deref (Local s) = s"
  shows "listener_run deref u gs = concat (map (handleUart \<circ> received) gs)"
proof (induction gs)
  case Nil
  then show ?case by (subst listener_run.simps) simp
next
  case (Cons got gs)
  then show ?case using listener_run_Cons [OF assms] by simp
qed

text \<open>The identifier each report is sent with.\<close>

definition report_id :: "string \<Rightarrow> psoc_id" where
  "report_id c = (if c = ''ACK'' then ACK else if c = ''NACK'' then NACK else if c = ''WLOW'' then WLOW
     else if c = ''FLOW'' then FLOW else TLOW)"

lemma handleUart_report:
  "c \<in> set reports \<Longrightarrow> handleUart (frame c) = [(id_value (report_id c), frame c)]"
  by (auto simp: reports_def handleUart_def frame_def report_id_def)

lemma received_frame: "c \<in> set reports \<Longrightarrow> received (Some (frame c)) = frame c"
  by (auto simp: reports_def received_def frame_def c_str_def)

section \<open>Properties\<close>

text \<open>
  Reports of the micro controller that arrive one per poll are delivered: every frame
  becomes exactly one message that carries it unchanged, in order, polls without data do not
  matter, and the identifier is that of the report - except that a treat request \<open>TR\<close> is
  sent as \<open>TLOW\<close>.
\<close>

theorem reports_delivered:
  assumes "uart0_filestream u \<noteq> -1" and "\<And>s. deref (Local s) = s"
    and "\<forall>g \<in> set gs. \<forall>c. g = Some c \<longrightarrow> c \<in> set reports"
  shows "listener_run deref u (map (map_option frame) gs) =
    map (\<lambda>c. (id_value (report_id c), frame c)) (List.map_filter id gs)"
  using assms(3)
proof (induction gs)
  case Nil
  then show ?case using listener_run_eq [OF assms(1,2), of "[]"] by (simp add: map_filter_simps)
next
  case (Cons g gs)
  have "handleUart (received None) = []" by (simp add: received_def handleUart_def)
  then have "handleUart (received (map_option frame g)) =
      (case g of None \<Rightarrow> [] | Some c \<Rightarrow> [(id_value (report_id c), frame c)])"
    using Cons.prems received_frame handleUart_report by (cases g) auto
  then show ?case
    using Cons listener_run_Cons [OF assms(1,2), of "map_option frame g"]
    by (cases g) (simp_all add: map_filter_simps)
qed

theorem reports_delivered_witness:
  "listener_run (\<lambda>p. case p of Local s \<Rightarrow> s | Unset \<Rightarrow> []) (initializeUART 3 uart_start)
     [Some ''SFLOWE'', None, Some ''STRE''] = [(3, ''SFLOWE''), (4, ''STRE'')]"
proof -
  have "listener_run (\<lambda>p. case p of Local s \<Rightarrow> s | Unset \<Rightarrow> []) (initializeUART 3 uart_start)
     (map (map_option frame) [Some ''FLOW'', None, Some ''TR'']) =
    map (\<lambda>c. (id_value (report_id c), frame c)) (List.map_filter id [Some ''FLOW'', None, Some ''TR''])"
    by (rule reports_delivered) (auto simp: initializeUART_def reports_def)
  then show ?thesis by (simp add: map_filter_simps frame_def report_id_def id_value_def)
qed

text \<open>
  Two reports that arrive within one poll are both lost: no message is sent for them.
\<close>

theorem coalesced_reports_lost:
  assumes "a \<in> set reports" and "b \<in> set reports"
  shows "handleUart (frame a @ frame b) = []"
  using assms by (rule two_frames)

theorem coalesced_reports_lost_witness: "handleUart (frame ''ACK'' @ frame ''WLOW'') = []"
  by (rule coalesced_reports_lost) (simp_all add: reports_def)

end
