(* ===== verification/RpiWebComm.thy ===== *)
theory RpiWebComm
  imports RpiUart HttpClient
begin

text \<open>
  The feeder's side of a treat request: \<open>WebComm.hpp\<close> and \<open>WebComm.cpp\<close>. A request is posted
  to the server over the HTTP client; a listener thread then asks for the answer, at most
  seven times, and turns it into messages for the command controller. The listener's effects
  (messages sent and time slept, in milliseconds) are a list in their order. The network is a
  parameter: what the system answers to each attempt.
\<close>

section \<open>Asking the server\<close>

text \<open>\<open>if (s.find(p))\<close>: a position is a truth value, false only for position 0 (\<open>npos\<close> is not 0).\<close>

definition found :: "string \<Rightarrow> string \<Rightarrow> bool" where
  "found p s \<longleftrightarrow> find_sub p s \<noteq> Some 0"

lemma found_iff [simp]: "found p s \<longleftrightarrow> \<not> prefix p s"
proof (cases s)
  case (Cons c t)
  then show ?thesis by (auto simp: found_def split: option.splits)
qed (auto simp: found_def)

definition request_url :: string where
  "request_url = ''http://foodgiver.hopto.org:8080/req_treat/420''"

definition UNDEF :: string where
  "UNDEF = ''UNDEF''"

text \<open>
  \<open>postTreatRequest\<close>: \<open>None\<close> when the call does not return; otherwise the line it prints, or
  \<open>None\<close> when it caught an exception. The state of the connection afterwards is kept, for what
  was sent.
\<close>

definition postTreatRequest :: "int \<Rightarrow> host_env \<Rightarrow> net \<Rightarrow> (string \<times> net) option option" where
  "postTreatRequest devid env n =
     (case Request_new request_url V4 of
        Inl e \<Rightarrow> Some None
      | Inr request \<Rightarrow>
          (case Request_send env request ''POST'' ''foo=test''
                  [(''Content-Type'', ''application/x-www-form-urlencoded'')] (-1) n of
             None \<Rightarrow> None
           | Some (Inl e) \<Rightarrow> Some None
           | Some (Inr (response, m)) \<Rightarrow> Some (Some (body response @ [LF], m))))"

definition postNotification :: "string \<Rightarrow> unit" where
  "postNotification type = ()"

definition getRequestAnswer :: "host_env \<Rightarrow> net \<Rightarrow> string option" where
  "getRequestAnswer env n =
     (case Request_new request_url V4 of
        Inl e \<Rightarrow> Some UNDEF
      | Inr req \<Rightarrow>
          (case Request_send env req ''GET'' [] [] (-1) n of
             None \<Rightarrow> None
           | Some (Inl e) \<Rightarrow> Some UNDEF
           | Some (Inr (response, m)) \<Rightarrow>
               let resp = body response @ [LF]
               in if found ''deny'' resp then Some resp
                  else if found ''allow'' resp then Some resp
                  else Some UNDEF))"

section \<open>The listener thread\<close>

datatype effect = Send nat string | Sleep nat

definition handleResponse :: "int \<Rightarrow> string \<Rightarrow> effect list" where
  "handleResponse i response =
     (if found ''allow'' response then [Send 3 ''TA'']
      else if found ''deny'' response then [Send 3 ''TD'']
      else []) @ [Sleep 1000, Send 9 (show_int i)]"

text \<open>
  The loop of \<open>run\<close>; \<open>ask k\<close> is the \<open>k\<close>-th call of \<open>getRequestAnswer\<close>. The argument of its
  second \<open>find\<close> is \<open>"allow" || ...\<close>, which is \<open>true\<close> and so the character with code 1.
\<close>

partial_function (option) webLoop ::
    "(nat \<Rightarrow> string option) \<Rightarrow> int \<Rightarrow> string \<Rightarrow> nat \<Rightarrow> effect list option" where
  "webLoop ask thread answer i =
     (if answer = UNDEF then
        (if i = 10 then Some []
         else Option.bind (ask i) (\<lambda>answer.
           let handled = (if found [CHR 0x01] answer then handleResponse thread answer else [])
           in if i + 1 = 7 then Some handled
              else Option.bind (webLoop ask thread answer (i + 1)) (\<lambda>later.
                Some (handled @ [Sleep 10000] @ later))))
      else Some [])"

definition webListener_run :: "(nat \<Rightarrow> string option) \<Rightarrow> int \<Rightarrow> effect list option" where
  "webListener_run ask thread = webLoop ask thread UNDEF 0"

section \<open>The pool of listener threads\<close>

text \<open>An entry of \<open>threadPool\<close>: two null pointers, two live objects, or two freed ones.\<close>

datatype pool_entry = Null | Live | Freed

record webcomm =
  web_id :: int
  threadPool :: "int \<Rightarrow> pool_entry option"

definition webcomm_start :: webcomm where
  "webcomm_start = \<lparr>web_id = 0, threadPool = Map.empty\<rparr>"

definition createWebCommListenerThread :: "webcomm \<Rightarrow> webcomm" where
  "createWebCommListenerThread w =
     (let i = web_id w + 1 in w\<lparr>web_id := i, threadPool := (threadPool w)(i \<mapsto> Live)\<rparr>)"

text \<open>\<open>threadPool[id]\<close> creates a missing entry; the entry stays after its objects are deleted.\<close>

definition deleteThread :: "int \<Rightarrow> webcomm \<Rightarrow> fault + webcomm" where
  "deleteThread i w =
     (case threadPool w i of
        None \<Rightarrow> Inr (w\<lparr>threadPool := (threadPool w)(i \<mapsto> Null)\<rparr>)
      | Some Null \<Rightarrow> Inr w
      | Some Live \<Rightarrow> Inr (w\<lparr>threadPool := (threadPool w)(i \<mapsto> Freed)\<rparr>)
      | Some Freed \<Rightarrow> Inl DoubleFree)"

section \<open>Lemmas\<close>

definition feeder_request :: request where
  "feeder_request = \<lparr>internetProtocol = V4,
     target = \<lparr>scheme = ''http'', user = [], password = [], host = ''foodgiver.hopto.org'',
       port = ''8080'', path = ''/req_treat/420'', query = [], fragment = []\<rparr>\<rparr>"

lemma Request_new_feeder: "Request_new request_url V4 = Inr feeder_request"
  by code_simp

text \<open>Whenever the server answers, the answer is passed on as it is.\<close>

lemma getRequestAnswer_eq:
  "getRequestAnswer env n =
     (case Request_send env feeder_request ''GET'' [] [] (-1) n of
        None \<Rightarrow> None
      | Some (Inl e) \<Rightarrow> Some UNDEF
      | Some (Inr (response, m)) \<Rightarrow> Some (body response @ [LF]))"
proof -
  have "prefix ''deny'' s \<Longrightarrow> \<not> prefix ''allow'' s" for s :: string
    by (auto simp: prefix_def)
  then show ?thesis
    by (auto simp: getRequestAnswer_def Request_new_feeder Let_def split: option.splits sum.splits)
qed

lemma handleResponse_eq:
  "handleResponse i a =
     [Send 3 (if prefix ''allow'' a then ''TD'' else ''TA''), Sleep 1000, Send 9 (show_int i)]"
  by (auto simp: handleResponse_def prefix_def)

text \<open>Every answer but \<open>UNDEF\<close> ends the loop after one round.\<close>

lemma webLoop_answered:
  assumes "ask i = Some a" and "a \<noteq> UNDEF" and "i < 6" and "\<not> prefix [CHR 0x01] a"
  shows "webLoop ask thread UNDEF i = Some (handleResponse thread a @ [Sleep 10000])"
  using assms by (subst webLoop.simps) (simp add: webLoop.simps [of _ _ a])

lemma webLoop_undef:
  assumes "ask i = Some UNDEF" and "i < 6"
  shows "webLoop ask thread UNDEF i =
    map_option (\<lambda>later. handleResponse thread UNDEF @ [Sleep 10000] @ later)
      (webLoop ask thread UNDEF (i + 1))"
proof -
  have "\<not> prefix [CHR 0x01] UNDEF" by (simp add: UNDEF_def)
  then show ?thesis
    using assms by (subst webLoop.simps) (cases "webLoop ask thread UNDEF (i + 1)"; simp)
qed

lemma webLoop_last:
  assumes "ask 6 = Some a" and "\<not> prefix [CHR 0x01] a"
  shows "webLoop ask thread UNDEF 6 = Some (handleResponse thread a)"
  using assms by (subst webLoop.simps) simp

lemma webLoop_returns:
  assumes "\<And>k. k < 7 \<Longrightarrow> ask k \<noteq> None" and "i \<le> 6"
  shows "webLoop ask thread answer i \<noteq> None"
  using assms(2)
proof (induction "6 - i" arbitrary: i answer)
  case 0
  then have "i = 6" by simp
  obtain a where "ask 6 = Some a" using assms(1) [of 6] by auto
  then show ?case using \<open>i = 6\<close> by (subst webLoop.simps) (auto simp: Let_def)
next
  case (Suc j)
  then have i: "i < 6" "j = 6 - (i + 1)" "i + 1 \<le> 6" by simp_all
  obtain a where "ask i = Some a" using assms(1) [of i] i(1) by auto
  moreover obtain l where "webLoop ask thread a (i + 1) = Some l" using Suc.hyps(1) [OF i(2,3)] by auto
  ultimately show ?case using i(1) by (subst webLoop.simps) (auto simp: Let_def)
qed

text \<open>The rounds without an answer, and the round that ends the loop.\<close>

definition undef_rounds :: "int \<Rightarrow> nat \<Rightarrow> effect list" where
  "undef_rounds thread k = concat (replicate k (handleResponse thread UNDEF @ [Sleep 10000]))"

lemma webLoop_undef_rounds:
  assumes "\<And>j. i \<le> j \<Longrightarrow> j < i + k \<Longrightarrow> ask j = Some UNDEF" and "i + k \<le> 6"
  shows "webLoop ask thread UNDEF i =
    map_option (\<lambda>later. undef_rounds thread k @ later) (webLoop ask thread UNDEF (i + k))"
  using assms
proof (induction k arbitrary: i)
  case 0
  then show ?case by (simp add: undef_rounds_def option.map_ident)
next
  case (Suc k)
  then have "webLoop ask thread UNDEF i =
      map_option (\<lambda>later. handleResponse thread UNDEF @ [Sleep 10000] @ later)
        (webLoop ask thread UNDEF (i + 1))" by (intro webLoop_undef) simp_all
  moreover have "webLoop ask thread UNDEF (i + 1) =
      map_option (\<lambda>later. undef_rounds thread k @ later) (webLoop ask thread UNDEF (i + 1 + k))"
    using Suc.prems by (intro Suc.IH) simp_all
  ultimately show ?case by (simp add: option.map_comp comp_def undef_rounds_def)
qed

lemma listener_no_answer:
  assumes "\<And>j. j < 7 \<Longrightarrow> ask j = Some UNDEF"
  shows "webListener_run ask thread = Some (undef_rounds thread 6 @ handleResponse thread UNDEF)"
proof -
  have "webLoop ask thread UNDEF 6 = Some (handleResponse thread UNDEF)"
    using assms by (intro webLoop_last) (simp_all add: UNDEF_def)
  then show ?thesis
    using webLoop_undef_rounds [of 0 6 ask thread] assms by (simp add: webListener_run_def)
qed

lemma listener_answer:
  assumes "\<And>j. j < k \<Longrightarrow> ask j = Some UNDEF" and "k \<le> 6" and "ask k = Some a" and "a \<noteq> UNDEF"
    and "\<not> prefix [CHR 0x01] a"
  shows "webListener_run ask thread =
    Some (undef_rounds thread k @ handleResponse thread a @ (if k < 6 then [Sleep 10000] else []))"
proof -
  have "webLoop ask thread UNDEF k = Some (handleResponse thread a @ (if k < 6 then [Sleep 10000] else []))"
  proof (cases "k < 6")
    case True
    then show ?thesis using webLoop_answered [where ask = ask and i = k] assms(3-5) by simp
  next
    case False
    with assms(2) have "k = 6" by simp
    then show ?thesis using webLoop_last assms(3,5) by simp
  qed
  then show ?thesis
    using webLoop_undef_rounds [of 0 k ask thread] assms(1,2) by (simp add: webListener_run_def)
qed

section \<open>Properties\<close>

text \<open>
  What the listener makes of an answer, after any number of attempts the server did not
  answer: an answer that begins with \<open>allow\<close> makes it report \<open>TD\<close> (denied), and every other
  answer, \<open>deny\<close> included, \<open>TA\<close> (allowed), because the position returned by \<open>find\<close> is used as
  a truth value. It reports once per attempt, also for those without an answer.
\<close>

theorem treat_decision_inverted:
  assumes "\<And>j. j < k \<Longrightarrow> ask j = Some UNDEF" and "k \<le> 6" and "ask k = Some a" and "a \<noteq> UNDEF"
    and "\<not> prefix [CHR 0x01] a"
  shows "webListener_run ask thread =
    Some (undef_rounds thread k @
      [Send 3 (if prefix ''allow'' a then ''TD'' else ''TA''), Sleep 1000, Send 9 (show_int thread)] @
      (if k < 6 then [Sleep 10000] else []))"
  using listener_answer [where ask = ask and k = k and a = a and thread = thread] assms
  by (simp add: handleResponse_eq)

theorem treat_decision_inverted_witness:
  "webListener_run (\<lambda>j. if j = 0 then Some UNDEF else Some (''deny'' @ [LF])) 1 =
     Some (undef_rounds 1 1 @ [Send 3 ''TA'', Sleep 1000, Send 9 ''1''] @ [Sleep 10000])"
proof -
  have "show_int 1 = ''1''" by code_simp
  moreover have "webListener_run (\<lambda>j. if j = 0 then Some UNDEF else Some (''deny'' @ [LF])) 1 =
     Some (undef_rounds 1 1 @
      [Send 3 (if prefix ''allow'' (''deny'' @ [LF]) then ''TD'' else ''TA''), Sleep 1000,
        Send 9 (show_int 1)] @ (if (1::nat) < 6 then [Sleep 10000] else []))"
    by (rule treat_decision_inverted) (simp_all add: UNDEF_def)
  ultimately show ?thesis by simp
qed

text \<open>
  The listener ends after at most seven attempts, whatever they return, as long as each
  attempt itself returns.
\<close>

theorem listener_ends:
  assumes "\<And>j. j < 7 \<Longrightarrow> ask j \<noteq> None"
  shows "\<exists>effects. webListener_run ask thread = Some effects"
  using webLoop_returns [where ask = ask and i = 0 and thread = thread and answer = UNDEF] assms
  by (auto simp: webListener_run_def)

theorem listener_ends_witness:
  "\<exists>effects. webListener_run (\<lambda>j. if j < 7 then Some UNDEF else None) 4 = Some effects"
  by (rule listener_ends) simp

end
