(* ===== verification/RpiCommand.thy ===== *)
theory RpiCommand
  imports RpiPsoc RpiWebComm
begin

text \<open>
  The command controller: \<open>CommandController.hpp\<close> and \<open>CommandController.cpp\<close>. It takes messages
  from its queue and dispatches them: text for the micro controller, or the number of a
  listener thread to delete. Its messages come from the timer and settings threads
  (identifiers 1 and 2), the web listener (3 and 9) and the serial listener (0 to 4).
\<close>

section \<open>State and operations\<close>

record controller =
  cur_id :: nat
  psoc_of :: psoc
  web_of :: webcomm

definition controller_start :: controller where
  "controller_start = \<lparr>cur_id = 0, psoc_of = psoc_start, web_of = webcomm_start\<rparr>"

text \<open>\<open>strcpy(new char[5], s.c_str())\<close>: the text and its NUL have to fit.\<close>

definition strcpy5 :: "string \<Rightarrow> fault + string" where
  "strcpy5 s = (if length (c_str s) + 1 \<le> 5 then Inr (c_str s) else Inl WriteOutOfBounds)"

definition dispatchUartCommand :: "(string \<Rightarrow> int) \<Rightarrow> string \<Rightarrow> controller \<Rightarrow> fault + controller" where
  "dispatchUartCommand put s c = rbind (sendCommand put s (psoc_of c)) (\<lambda>p. Inr (c\<lparr>psoc_of := p\<rparr>))"

definition handleCommand :: "(string \<Rightarrow> int) \<Rightarrow> msg \<Rightarrow> controller \<Rightarrow> fault + controller" where
  "handleCommand put m c =
     (let i = fst m; resp = snd m
      in if resp = ''SACKE'' then Inr c
         else if resp = ''SNACKE'' then Inr c
         else if resp = ''STLOWE'' then Inr c
         else if resp = ''SFLOWE'' then Inr c
         else if resp = ''SWLOWE'' then Inr c
         else if resp = ''STRE'' then Inr c
         else if i = 1 then rbind (strcpy5 resp) (\<lambda>ptr. dispatchUartCommand put ptr c)
         else if i = 2 then rbind (strcpy5 resp) (\<lambda>ptr. dispatchUartCommand put ptr c)
         else if i = 3 then
           rbind (strcpy5 resp) (\<lambda>ptr. rbind (dispatchUartCommand put ptr c) (\<lambda>c.
             if resp = ''STAE'' then Inr c else if resp = ''STDE'' then Inr c else Inr c))
         else if i = 9 then
           (case stoi resp of
              Inl e \<Rightarrow> Inl (Uncaught e)
            | Inr deleteId \<Rightarrow> rbind (deleteThread deleteId (web_of c)) (\<lambda>w. Inr (c\<lparr>web_of := w\<rparr>)))
         else Inr c)"

text \<open>\<open>None\<close>: the queue is empty and \<open>receive\<close> blocks.\<close>

definition dispatchCommand ::
    "(string \<Rightarrow> int) \<Rightarrow> msg list \<times> controller \<Rightarrow> (fault + msg list \<times> controller) option" where
  "dispatchCommand put s =
     (case fst s of
        [] \<Rightarrow> None
      | m # q \<Rightarrow> Some (rbind (handleCommand put m ((snd s)\<lparr>cur_id := fst m\<rparr>)) (\<lambda>c. Inr (q, c))))"

definition requestTreat :: "host_env \<Rightarrow> net \<Rightarrow> (string \<times> net) option option" where
  "requestTreat env n = postTreatRequest 420 env n"

definition getTreatRequestAnswer :: "controller \<Rightarrow> controller" where
  "getTreatRequestAnswer c = c\<lparr>web_of := createWebCommListenerThread (web_of c)\<rparr>"

text \<open>The main loop over the messages that come.\<close>

fun commands :: "(string \<Rightarrow> int) \<Rightarrow> msg list \<Rightarrow> controller \<Rightarrow> fault + controller" where
  "commands put [] c = Inr c"
| "commands put (m # ms) c =
     rbind (handleCommand put m (c\<lparr>cur_id := fst m\<rparr>)) (\<lambda>c. commands put ms c)"

section \<open>Lemmas\<close>

text \<open>A line that takes every frame it is given, and the line of a controller.\<close>

definition takes_all :: "(string \<Rightarrow> int) \<Rightarrow> bool" where
  "takes_all put \<longleftrightarrow> (\<forall>s. put s = int (length s))"

abbreviation line_of :: "controller \<Rightarrow> uart" where
  "line_of c \<equiv> uart_of (psoc_of c)"

definition reported :: "string \<Rightarrow> bool" where
  "reported s \<longleftrightarrow> s \<in> frame ` set reports"

lemma reported_iff:
  "reported s \<longleftrightarrow> s = ''SACKE'' \<or> s = ''SNACKE'' \<or> s = ''SWLOWE'' \<or> s = ''SFLOWE'' \<or> s = ''STLOWE'' \<or> s = ''STRE''"
  by (auto simp: reported_def reports_def frame_def)

lemma handleCommand_reported: "reported (snd m) \<Longrightarrow> handleCommand put m c = Inr c"
  by (auto simp: reported_iff handleCommand_def Let_def)

lemma handleCommand_forward:
  assumes "\<not> reported s" and "i \<in> {1, 2, 3}"
  shows "handleCommand put (i, s) c = rbind (strcpy5 s) (\<lambda>ptr. dispatchUartCommand put ptr c)"
proof -
  have "rbind m (\<lambda>c. if a then Inr c else if b then Inr c else Inr c) = m"
    for m :: "fault + controller" and a b by (cases m) simp_all
  then show ?thesis
    using assms by (auto simp: reported_iff handleCommand_def Let_def)
qed

lemma sendCommand_eq:
  "sendCommand put s p =
     (if length (c_str s) \<le> 4 then
        (let ok = (uart0_filestream (uart_of p) = -1 \<or> put (frame (c_str s)) \<ge> 0);
             out = (if uart0_filestream (uart_of p) \<noteq> -1 then take (nat (put (frame (c_str s)))) (frame (c_str s)) else [])
         in Inr (p\<lparr>latestCommand := Some s, uart_of := (uart_of p)\<lparr>wire := wire (uart_of p) @ out\<rparr>,
               console := console p @ [if ok then ''Bytes transmitted.'' else ''Error transmitting bytes.'']\<rparr>))
      else Inl WriteOutOfBounds)"
  by (auto simp: sendCommand_def transmitBytes_eq Let_def)

text \<open>A forwarded command: at most four bytes, or a write outside of the buffer.\<close>

lemma forward_eq:
  assumes "\<not> reported s" and "i \<in> {1, 2, 3}" and "takes_all put" and "uart0_filestream (line_of c) \<noteq> -1"
  shows "handleCommand put (i, s) c =
    (if length (c_str s) \<le> 4
     then Inr (c\<lparr>psoc_of := (psoc_of c)\<lparr>latestCommand := Some (c_str s),
            uart_of := (line_of c)\<lparr>wire := wire (line_of c) @ frame (c_str s)\<rparr>,
            console := console (psoc_of c) @ [''Bytes transmitted.'']\<rparr>\<rparr>)
     else Inl WriteOutOfBounds)"
  using assms(3,4) unfolding handleCommand_forward [OF assms(1,2)]
  by (simp add: strcpy5_def dispatchUartCommand_def sendCommand_eq takes_all_def Let_def)

lemma show_int_nat [simp]: "0 \<le> i \<Longrightarrow> show_int i = show_nat (nat i)"
  by (simp add: show_int_def)

lemma stoi_thread: "0 \<le> i \<Longrightarrow> i \<le> 2147483647 \<Longrightarrow> stoi (show_int i) = Inr i"
  using stoi_show_nat [of "nat i" "[]"] by simp

lemma show_nat_not_reported: "\<not> reported (show_nat n)"
proof
  assume "reported (show_nat n)"
  then have "CHR ''S'' \<in> set (show_nat n)" by (auto simp: reported_iff)
  then show False using show_nat_digits [of "CHR ''S''" n] by (simp add: dec_digit_def)
qed

lemma handleCommand_delete:
  assumes "0 \<le> i" and "i \<le> 2147483647"
  shows "handleCommand put (9, show_int i) c =
    rbind (deleteThread i (web_of c)) (\<lambda>w. Inr (c\<lparr>web_of := w\<rparr>))"
proof -
  have "stoi (show_nat (nat i)) = Inr i" using stoi_thread [OF assms] assms(1) by simp
  then show ?thesis
    using show_nat_not_reported [of "nat i"] assms(1)
    by (simp add: handleCommand_def Let_def reported_iff)
qed

section \<open>What the web listener makes the controller do\<close>

text \<open>The messages among the effects of a listener.\<close>

fun messages :: "effect list \<Rightarrow> msg list" where
  "messages [] = []"
| "messages (Send i s # es) = (i, s) # messages es"
| "messages (Sleep ms # es) = messages es"

lemma messages_append [simp]: "messages (a @ b) = messages a @ messages b"
  by (induction a rule: messages.induct) simp_all

lemma messages_handleResponse:
  "messages (handleResponse i a) = [(3, if prefix ''allow'' a then ''TD'' else ''TA''), (9, show_int i)]"
  by (simp add: handleResponse_eq)

definition transmitted :: "string \<Rightarrow> controller \<Rightarrow> controller" where
  "transmitted s c = c\<lparr>psoc_of := (psoc_of c)\<lparr>latestCommand := Some s,
     uart_of := (line_of c)\<lparr>wire := wire (line_of c) @ frame s\<rparr>,
     console := console (psoc_of c) @ [''Bytes transmitted.'']\<rparr>\<rparr>"

lemma transmitted_simps [simp]:
  "web_of (transmitted s c) = web_of c" "wire (line_of (transmitted s c)) = wire (line_of c) @ frame s"
  "uart0_filestream (line_of (transmitted s c)) = uart0_filestream (line_of c)"
  by (simp_all add: transmitted_def)

lemma handle_reply:
  assumes "s = ''TA'' \<or> s = ''TD''" and "takes_all put" and "uart0_filestream (line_of c) \<noteq> -1"
  shows "handleCommand put (3, s) c = Inr (transmitted s c)"
proof -
  have r: "\<not> reported s" "c_str s = s" using assms(1) by (auto simp: reported_iff c_str_def)
  then show ?thesis
    using forward_eq [OF r(1) _ assms(2,3), of 3] assms(1) by (auto simp: transmitted_def)
qed

text \<open>One round of a listener: its reply goes out, then its thread is deleted.\<close>

lemma commands_round:
  assumes "takes_all put" and "uart0_filestream (line_of c) \<noteq> -1" and "0 \<le> i" and "i \<le> 2147483647"
  shows "commands put (messages (handleResponse i a) @ ms) c =
    (let s = (if prefix ''allow'' a then ''TD'' else ''TA'');
         c' = transmitted s (c\<lparr>cur_id := 3\<rparr>)\<lparr>cur_id := 9\<rparr>
     in rbind (deleteThread i (web_of c)) (\<lambda>w. commands put ms (c'\<lparr>web_of := w\<rparr>)))"
proof -
  let ?s = "if prefix ''allow'' a then ''TD'' else ''TA''"
  have r: "handleCommand put (3, ?s) (c\<lparr>cur_id := 3\<rparr>) = Inr (transmitted ?s (c\<lparr>cur_id := 3\<rparr>))"
    using assms(1,2) by (intro handle_reply) auto
  then show ?thesis
    using handleCommand_delete [OF assms(3,4)]
    by (cases "deleteThread i (web_of c)")
       (simp_all add: messages_handleResponse Let_def del: show_int_nat)
qed

section \<open>How long a command may be\<close>

lemma length_show_int: "length (show_int a) \<le> 3 \<longleftrightarrow> -99 \<le> a \<and> a \<le> 999"
proof (cases "a < 0")
  case True
  have "length (show_int a) \<le> 3 \<longleftrightarrow> length (show_nat (nat (- a))) \<le> 2" using True by (simp add: show_int_def)
  also have "\<dots> \<longleftrightarrow> nat (- a) < 100" using length_show_nat [of 2 "nat (- a)"] by simp
  finally show ?thesis using True by auto
next
  case False
  then have "length (show_int a) \<le> 3 \<longleftrightarrow> nat a < 1000"
    using length_show_nat [of 3 "nat a"] by simp
  then show ?thesis using False by auto
qed

lemma plain_show_int: "plain (show_int a)"
proof -
  have "\<not> dec_digit CHR 0x00" by (simp add: dec_digit_def)
  then have "CHR 0x00 \<notin> set (show_nat n)" for n using show_nat_digits by blast
  then show ?thesis by (auto simp: plain_def show_int_def)
qed

lemma feed_not_reported: "\<not> reported (CHR ''F'' # s)"
  by (auto simp: reported_iff)

text \<open>A listener whose first attempt is answered.\<close>

lemma listener_transmits:
  assumes "takes_all put" and "uart0_filestream (line_of c) \<noteq> -1"
    and "0 \<le> web_id (web_of c)" and "web_id (web_of c) < 2147483647"
    and "ask 0 = Some a" and "a \<noteq> UNDEF" and "\<not> prefix [CHR 0x01] a"
  shows "\<exists>es c'. webListener_run ask (web_id (web_of c) + 1) = Some es \<and>
    commands put (messages es) (getTreatRequestAnswer c) = Inr c' \<and>
    wire (line_of c') = wire (line_of c) @ (if prefix ''allow'' a then ''STDE'' else ''STAE'') \<and>
    threadPool (web_of c') (web_id (web_of c) + 1) = Some Freed"
proof -
  let ?i = "web_id (web_of c) + 1" and ?c = "getTreatRequestAnswer c"
  have run: "webListener_run ask ?i = Some (handleResponse ?i a @ [Sleep 10000])"
    using listener_answer [of 0 ask a ?i] assms(5-7) by (simp add: undef_rounds_def)
  have up: "uart0_filestream (line_of ?c) \<noteq> -1" "wire (line_of ?c) = wire (line_of c)"
    using assms(2) by (simp_all add: getTreatRequestAnswer_def)
  have "deleteThread ?i (web_of ?c) =
      Inr ((web_of ?c)\<lparr>threadPool := (threadPool (web_of ?c))(?i \<mapsto> Freed)\<rparr>)"
    by (simp add: deleteThread_def getTreatRequestAnswer_def createWebCommListenerThread_def Let_def)
  then show ?thesis
    using run commands_round [OF assms(1) up(1), of ?i a "[]"] assms(3,4) up(2)
    by (auto simp: Let_def frame_def transmitted_def)
qed

section \<open>Properties\<close>

text \<open>
  C30: the feeding command. The message \<open>F<amount>\<close> of the timer thread is sent to the micro
  controller as one frame when the amount has at most three characters; for every other
  amount \<open>strcpy\<close> writes past its five bytes.
\<close>

theorem feed_command:
  assumes "takes_all put" and "uart0_filestream (line_of c) \<noteq> -1"
  shows "handleCommand put (1, CHR ''F'' # show_int a) c =
    (if -99 \<le> a \<and> a \<le> 999 then Inr (transmitted (CHR ''F'' # show_int a) c)
     else Inl WriteOutOfBounds)"
proof -
  have "c_str (CHR ''F'' # show_int a) = CHR ''F'' # show_int a"
    using plain_show_int [of a] by (intro c_str_plain) (simp add: plain_def)
  then show ?thesis
    using forward_eq [OF feed_not_reported _ assms, of 1 "show_int a"] length_show_int [of a]
    by (simp add: transmitted_def)
qed

definition line_up :: controller where
  "line_up = controller_start\<lparr>psoc_of := psoc_start\<lparr>uart_of := initializeUART 3 uart_start\<rparr>\<rparr>"

theorem feed_command_witness:
  "handleCommand (\<lambda>s. int (length s)) (1, ''F100'') line_up = Inr (transmitted ''F100'' line_up) \<and>
   handleCommand (\<lambda>s. int (length s)) (1, ''F1000'') line_up = Inl WriteOutOfBounds"
proof -
  have "takes_all (\<lambda>s. int (length s))" "uart0_filestream (line_of line_up) \<noteq> -1"
    by (simp_all add: takes_all_def line_up_def psoc_start_def initializeUART_def)
  note f = feed_command [OF this]
  have "show_int 100 = ''100''" "show_int 1000 = ''1000''" by code_simp+
  then show ?thesis using f [of 100] f [of 1000] by simp
qed

text \<open>
  C13: a treat request that the server answers: the listener that was started for it makes the
  controller send one frame, \<open>STDE\<close> for an answer that begins with \<open>allow\<close> and \<open>STAE\<close> for every
  other one, and its thread is freed once.
\<close>

theorem answer_transmitted:
  assumes "takes_all put" and "uart0_filestream (line_of c) \<noteq> -1"
    and "0 \<le> web_id (web_of c)" and "web_id (web_of c) < 2147483647"
    and "ask 0 = Some a" and "a \<noteq> UNDEF" and "\<not> prefix [CHR 0x01] a"
  shows "\<exists>es c'. webListener_run ask (web_id (web_of c) + 1) = Some es \<and>
    commands put (messages es) (getTreatRequestAnswer c) = Inr c' \<and>
    wire (line_of c') = wire (line_of c) @ (if prefix ''allow'' a then ''STDE'' else ''STAE'') \<and>
    threadPool (web_of c') (web_id (web_of c) + 1) = Some Freed"
  by (intro listener_transmits [where ask = ask and a = a] assms)

theorem answer_transmitted_witness:
  "\<exists>es c'. webListener_run (\<lambda>_. Some (''deny'' @ [LF])) 1 = Some es \<and>
    commands (\<lambda>s. int (length s)) (messages es) (getTreatRequestAnswer line_up) = Inr c' \<and>
    wire (line_of c') = ''STAE''"
proof -
  have p: "takes_all (\<lambda>s. int (length s))" "uart0_filestream (line_of line_up) \<noteq> -1"
    "web_id (web_of line_up) = 0" "wire (line_of line_up) = []"
    by (simp_all add: takes_all_def line_up_def psoc_start_def initializeUART_def controller_start_def
        webcomm_start_def uart_start_def)
  from answer_transmitted [OF p(1,2), of "\<lambda>_. Some (''deny'' @ [LF])" "''deny'' @ [LF]"] p(3,4)
  show ?thesis by (auto simp: UNDEF_def)
qed

text \<open>
  C14: a treat request that gets no answer at all (no connection, or an error in the HTTP
  client): the listener still reports \<open>TA\<close> after every attempt, so the controller sends
  \<open>STAE\<close> for the first two of them, and it is then made to delete the listener's thread a
  second time, which frees freed memory.
\<close>

theorem unreachable_server:
  assumes "takes_all put" and "uart0_filestream (line_of c) \<noteq> -1"
    and "0 \<le> web_id (web_of c)" and "web_id (web_of c) < 2147483647"
    and "\<And>j. j < 7 \<Longrightarrow> ask j = Some UNDEF"
  shows "\<exists>es c'. webListener_run ask (web_id (web_of c) + 1) = Some es \<and>
    commands put (take 3 (messages es)) (getTreatRequestAnswer c) = Inr c' \<and>
    wire (line_of c') = wire (line_of c) @ ''STAESTAE'' \<and>
    commands put (messages es) (getTreatRequestAnswer c) = Inl DoubleFree"
proof -
  let ?i = "web_id (web_of c) + 1" and ?c = "getTreatRequestAnswer c"
  let ?h = "handleResponse ?i UNDEF" and ?es = "undef_rounds ?i 6 @ handleResponse ?i UNDEF"
  let ?ms = "messages (undef_rounds ?i 4 @ handleResponse ?i UNDEF)"
  have i: "0 \<le> ?i" "?i \<le> 2147483647" using assms(3,4) by simp_all
  have run: "webListener_run ask ?i = Some ?es" using listener_no_answer assms(5) by blast
  have ms: "messages ?es = messages ?h @ messages ?h @ ?ms"
    by (simp add: undef_rounds_def numeral_eq_Suc)
  have ta: "\<not> prefix ''allow'' UNDEF" by (simp add: UNDEF_def)
  let ?w = "(web_of ?c)\<lparr>threadPool := (threadPool (web_of ?c))(?i \<mapsto> Freed)\<rparr>"
  let ?c1 = "transmitted ''TA'' (?c\<lparr>cur_id := 3\<rparr>)\<lparr>cur_id := 9, web_of := ?w\<rparr>"
  have up: "uart0_filestream (line_of ?c) \<noteq> -1" "uart0_filestream (line_of ?c1) \<noteq> -1"
    using assms(2) by (simp_all add: getTreatRequestAnswer_def transmitted_def)
  have d1: "deleteThread ?i (web_of ?c) = Inr ?w"
    by (simp add: deleteThread_def getTreatRequestAnswer_def createWebCommListenerThread_def Let_def)
  have d2: "deleteThread ?i (web_of ?c1) = Inl DoubleFree" by (simp add: deleteThread_def)
  have r1: "commands put (messages ?h @ ms) ?c = commands put ms ?c1" for ms
    using commands_round [OF assms(1) up(1) i, of UNDEF ms] d1 ta by (simp add: Let_def)
  have r2: "commands put (messages ?h @ ms) ?c1 = Inl DoubleFree" for ms
    using commands_round [OF assms(1) up(2) i, of UNDEF ms] d2 by (simp add: Let_def)
  have t3: "take 3 (messages ?es) = messages ?h @ [(3, ''TA'')]"
    using ta unfolding ms by (simp add: messages_handleResponse)
  have "handleCommand put (3, ''TA'') (?c1\<lparr>cur_id := 3\<rparr>) = Inr (transmitted ''TA'' (?c1\<lparr>cur_id := 3\<rparr>))"
    using assms(1) up(2) by (intro handle_reply) simp_all
  then have "commands put (take 3 (messages ?es)) ?c = Inr (transmitted ''TA'' (?c1\<lparr>cur_id := 3\<rparr>))"
    unfolding t3 r1 by simp
  moreover have "wire (line_of (transmitted ''TA'' (?c1\<lparr>cur_id := 3\<rparr>))) = wire (line_of c) @ ''STAESTAE''"
    by (simp add: transmitted_def getTreatRequestAnswer_def frame_def)
  moreover have "commands put (messages ?es) ?c = Inl DoubleFree" unfolding ms r1 by (rule r2)
  ultimately show ?thesis using run by blast
qed

theorem unreachable_server_witness:
  "\<exists>es. webListener_run (\<lambda>_. Some UNDEF) 1 = Some es \<and>
    commands (\<lambda>s. int (length s)) (messages es) (getTreatRequestAnswer line_up) = Inl DoubleFree"
proof -
  have p: "takes_all (\<lambda>s. int (length s))" "uart0_filestream (line_of line_up) \<noteq> -1"
    "web_id (web_of line_up) = 0"
    by (simp_all add: takes_all_def line_up_def psoc_start_def initializeUART_def controller_start_def
        webcomm_start_def)
  from unreachable_server [OF p(1,2), of "\<lambda>_. Some UNDEF"] p(3) show ?thesis by auto
qed

end
