(* ===== verification/OsSync.thy ===== *)
theory OsSync
  imports FgPrelude "HOL-Library.Word"
begin

text \<open>
  Locks of the OS library on Linux: \<open>Mutex\<close>, \<open>ScopedLock\<close>, \<open>Semaphore\<close> and the timed wait of
  \<open>Conditional\<close>. What the POSIX calls do is stated as their documentation has it: a mutex is
  held by at most one thread, locking a held one blocks (also for its holder), and unlocking
  one that the caller does not hold is undefined.
\<close>

type_synonym tid = nat

datatype sync_fault = UnlockNotHeld | ConditionalError | SemaphoreError

section \<open>Mutexes\<close>

type_synonym mutex = "tid option"

definition mutex_new :: mutex where
  "mutex_new = None"

text \<open>\<open>None\<close>: the caller blocks.\<close>

definition mutex_lock :: "tid \<Rightarrow> mutex \<Rightarrow> mutex option" where
  "mutex_lock t m = (if m = None then Some (Some t) else None)"

definition mutex_unlock :: "tid \<Rightarrow> mutex \<Rightarrow> sync_fault + mutex" where
  "mutex_unlock t m = (if m = Some t then Inr None else Inl UnlockNotHeld)"

section \<open>Scoped locks\<close>

text \<open>The mutex and the flag \<open>taken_\<close>; \<open>None\<close> is a call that blocks.\<close>

type_synonym scoped = "mutex \<times> bool"

definition scoped_new :: "tid \<Rightarrow> mutex \<Rightarrow> scoped option" where
  "scoped_new t m = map_option (\<lambda>m. (m, True)) (mutex_lock t m)"

definition scoped_unlock :: "tid \<Rightarrow> scoped \<Rightarrow> sync_fault + scoped" where
  "scoped_unlock t s = rbind (mutex_unlock t (fst s)) (\<lambda>m. Inr (m, False))"

definition scoped_lock :: "tid \<Rightarrow> scoped \<Rightarrow> scoped option" where
  "scoped_lock t s = map_option (\<lambda>m. (m, True)) (mutex_lock t (fst s))"

definition scoped_delete :: "tid \<Rightarrow> scoped \<Rightarrow> sync_fault + mutex" where
  "scoped_delete t s = (if snd s then mutex_unlock t (fst s) else Inr (fst s))"

text \<open>The life of a scoped lock of thread \<open>t\<close>: its construction, calls, and its destruction.\<close>

datatype scoped_call = Unlock | Lock

fun scoped_calls :: "tid \<Rightarrow> scoped_call list \<Rightarrow> scoped \<Rightarrow> (sync_fault + scoped) option" where
  "scoped_calls t [] s = Some (Inr s)"
| "scoped_calls t (Unlock # cs) s =
     (case scoped_unlock t s of Inl e \<Rightarrow> Some (Inl e) | Inr s \<Rightarrow> scoped_calls t cs s)"
| "scoped_calls t (Lock # cs) s =
     (case scoped_lock t s of None \<Rightarrow> None | Some s \<Rightarrow> scoped_calls t cs s)"

definition scoped_life :: "tid \<Rightarrow> scoped_call list \<Rightarrow> mutex \<Rightarrow> (sync_fault + mutex) option" where
  "scoped_life t cs m =
     Option.bind (scoped_new t m) (\<lambda>s.
     Option.bind (scoped_calls t cs s) (\<lambda>r. Some (rbind r (scoped_delete t))))"

text \<open>Calls in turn: the destructor finds the flag to tell who holds the mutex.\<close>

fun in_turn :: "scoped_call \<Rightarrow> scoped_call list \<Rightarrow> bool" where
  "in_turn c [] \<longleftrightarrow> True"
| "in_turn c (d # cs) \<longleftrightarrow> d = c \<and> in_turn (if c = Unlock then Lock else Unlock) cs"

lemma scoped_calls_in_turn:
  "(in_turn Unlock cs \<longrightarrow> (\<exists>b. scoped_calls t cs (Some t, True) = Some (Inr (if b then Some t else None, b)))) \<and>
   (in_turn Lock cs \<longrightarrow> (\<exists>b. scoped_calls t cs (None, False) = Some (Inr (if b then Some t else None, b))))"
proof (induction cs)
  case (Cons c cs)
  then show ?case
    by (cases c) (auto simp: scoped_unlock_def scoped_lock_def mutex_unlock_def mutex_lock_def)
qed (auto intro: exI [of _ True] exI [of _ False])

lemma scoped_calls_out_of_turn:
  "(\<not> in_turn Unlock cs \<longrightarrow> scoped_calls t cs (Some t, True) \<in> {None, Some (Inl UnlockNotHeld)}) \<and>
   (\<not> in_turn Lock cs \<longrightarrow> scoped_calls t cs (None, False) \<in> {None, Some (Inl UnlockNotHeld)})"
proof (induction cs)
  case (Cons c cs)
  then show ?case
    by (cases c) (auto simp: scoped_unlock_def scoped_lock_def mutex_unlock_def mutex_lock_def)
qed simp

section \<open>Semaphores\<close>

text \<open>\<open>sem_wait\<close> and \<open>sem_post\<close> on a count; \<open>SEM_VALUE_MAX\<close> is the largest one Linux allows.\<close>

definition SEM_VALUE_MAX :: nat where
  "SEM_VALUE_MAX = 2147483647"

definition semaphore_new :: "nat \<Rightarrow> sync_fault + nat" where
  "semaphore_new initCount = (if initCount \<le> SEM_VALUE_MAX then Inr initCount else Inl SemaphoreError)"

definition semaphore_wait :: "nat \<Rightarrow> nat option" where
  "semaphore_wait n = (if n = 0 then None else Some (n - 1))"

definition semaphore_signal :: "nat \<Rightarrow> sync_fault + nat" where
  "semaphore_signal n = (if n = SEM_VALUE_MAX then Inl SemaphoreError else Inr (n + 1))"

section \<open>The timed wait\<close>

datatype awoken = SIGNALED | TIMEDOUT

text \<open>
  The absolute time until which \<open>waitTimed\<close> waits. \<open>tv_sec\<close> and \<open>tv_nsec\<close> are \<open>long\<close>s and
  \<open>size_t\<close> is their unsigned companion, all of 32 bits; mixed arithmetic is unsigned, the
  quotient is signed.
\<close>

definition cond_deadline :: "32 word \<Rightarrow> 32 word \<Rightarrow> 32 word \<Rightarrow> 32 word \<times> 32 word" where
  "cond_deadline tv_sec tv_nsec timeout =
     (let secs = timeout div 1000;
          msecs = timeout - secs * 1000;
          tv_sec = tv_sec + secs;
          tv_nsec = tv_nsec + msecs * 1000000;
          overflow = word_of_int (cdiv (sint tv_nsec) 1000000000)
      in if overflow \<noteq> 0 then (tv_sec + overflow, tv_nsec - overflow * 1000000000)
         else (tv_sec, tv_nsec))"

text \<open>\<open>timedwait\<close> is \<open>pthread_cond_timedwait\<close>: 0, \<open>ETIMEDOUT\<close> or another error number.\<close>

definition ETIMEDOUT :: int where
  "ETIMEDOUT = 110"

definition waitTimed ::
    "(32 word \<times> 32 word \<Rightarrow> int) \<Rightarrow> 32 word \<Rightarrow> 32 word \<Rightarrow> 32 word \<Rightarrow> sync_fault + awoken" where
  "waitTimed timedwait tv_sec tv_nsec timeout =
     (let res = timedwait (cond_deadline tv_sec tv_nsec timeout)
      in if res = ETIMEDOUT then Inr TIMEDOUT
         else if res = 0 then Inr SIGNALED
         else Inl ConditionalError)"

definition sleep_usecs :: "32 word \<Rightarrow> 32 word" where
  "sleep_usecs msecs = msecs * 1000"

lemma sint_small:
  fixes w :: "32 word"
  assumes "unat w < 2147483648"
  shows "sint w = int (unat w)"
proof -
  have "int (unat w) < 2147483648" using assms by linarith
  then have u: "uint w < 2147483648" by (simp only: uint_nat [symmetric])
  have "sint w = signed_take_bit 31 (uint w)" by (simp add: sint_uint)
  also have "\<dots> = uint w" 
    using u order_trans [OF _ uint_ge_0, of "- 2147483648" w] by (intro signed_take_bit_int_eq_self) simp_all
  finally show ?thesis by (simp only: uint_nat)
qed

lemma unat_add32: "unat (a :: 32 word) + unat b < 4294967296 \<Longrightarrow> unat (a + b) = unat a + unat b"
  using unat_add_lem [of a b] by simp

lemma unat_mult32: "unat (a :: 32 word) * unat b < 4294967296 \<Longrightarrow> unat (a * b) = unat a * unat b"
  using unat_mult_lem [of a b] by simp

lemma split_1000: "x = a * 1000 + b \<Longrightarrow> x * 1000000 = a * 1000000000 + b * (1000000 :: nat)"
  by simp

lemma cond_deadline_unat:
  assumes "unat tv_nsec < 1000000000" and "unat tv_sec + unat timeout div 1000 + 1 < 2147483648"
    and "cond_deadline tv_sec tv_nsec timeout = (s, n)"
  shows "unat n < 1000000000 \<and>
    unat s * 1000000000 + unat n = unat tv_sec * 1000000000 + unat tv_nsec + unat timeout * 1000000"
proof -
  let ?t = "unat timeout"
  let ?n1 = "unat tv_nsec + ?t mod 1000 * 1000000"
  have secs: "unat (timeout div 1000) = ?t div 1000" by (simp add: unat_div)
  have "timeout - timeout div 1000 * 1000 = timeout mod 1000" by (rule minus_div_mult_eq_mod)
  then have msecs: "unat (timeout - timeout div 1000 * 1000) = ?t mod 1000" by (simp add: unat_mod)
  have m: "?t mod 1000 < 1000" by simp
  have n0: "unat ((timeout - timeout div 1000 * 1000) * 1000000) = ?t mod 1000 * 1000000"
    using m msecs by (subst unat_mult32) simp_all
  have n1: "unat (tv_nsec + (timeout - timeout div 1000 * 1000) * 1000000) = ?n1" and n1l: "?n1 < 2000000000"
  proof -
    have "?t mod 1000 * 1000000 \<le> 999000000" using m by simp
    then show "?n1 < 2000000000" using assms(1) by linarith
    then show "unat (tv_nsec + (timeout - timeout div 1000 * 1000) * 1000000) = ?n1"
      using n0 by (subst unat_add32) simp_all
  qed
  have s1: "unat (tv_sec + timeout div 1000) = unat tv_sec + ?t div 1000"
    using assms(2) secs by (subst unat_add32) simp_all
  have t: "?t * 1000000 = ?t div 1000 * 1000000000 + ?t mod 1000 * 1000000"
    by (rule split_1000) simp
  let ?o = "?n1 div 1000000000"
  have "sint (tv_nsec + (timeout - timeout div 1000 * 1000) * 1000000) = int ?n1"
    using sint_small [of "tv_nsec + (timeout - timeout div 1000 * 1000) * 1000000"] n1l
    unfolding n1 by linarith
  moreover have "cdiv (int k) 1000000000 = int (k div 1000000000)" for k by (simp add: zdiv_int)
  ultimately have o: "word_of_int (cdiv (sint (tv_nsec + (timeout - timeout div 1000 * 1000) * 1000000)) 1000000000) =
      (of_nat ?o :: 32 word)" by (simp only: of_int_of_nat_eq)
  show ?thesis
  proof (cases "?n1 < 1000000000")
    case True
    then have "(of_nat ?o :: 32 word) = 0" by simp
    then show ?thesis
      using assms(3) o n1 s1 t True by (auto simp: cond_deadline_def Let_def algebra_simps)
  next
    case False
    then have o1: "?o = 1" using n1l by simp
    have u: "unat (tv_nsec + (timeout - timeout div 1000 * 1000) * 1000000 - 1000000000) = ?n1 - 1000000000"
      using False n1 by (subst unat_sub) (simp_all add: word_le_nat_alt)
    have v: "unat (tv_sec + timeout div 1000 + 1) = unat tv_sec + ?t div 1000 + 1"
      using assms(2) s1 by (subst unat_add32) simp_all
    have "s = tv_sec + timeout div 1000 + 1"
      "n = tv_nsec + (timeout - timeout div 1000 * 1000) * 1000000 - 1000000000"
      using assms(3) o o1 by (auto simp: cond_deadline_def Let_def)
    then have "unat n = ?n1 - 1000000000" "unat s = unat tv_sec + ?t div 1000 + 1" using u v by (simp_all only:)
    moreover have "(unat tv_sec + ?t div 1000 + 1) * 1000000000 =
        unat tv_sec * 1000000000 + ?t div 1000 * 1000000000 + 1000000000" by (simp add: add_mult_distrib)
    ultimately show ?thesis using t False n1l by linarith
  qed
qed

section \<open>Properties\<close>

text \<open>
  The life of a scoped lock of a thread that does not hold the mutex already. When its
  \<open>unlock\<close> and \<open>lock\<close> are called in turn it neither blocks nor fails, and after its destruction
  the mutex is free, whoever of the two was called last; called out of turn, it blocks for ever
  or unlocks a mutex it does not hold.
\<close>

theorem scoped_lock_releases:
  "if in_turn Unlock cs then scoped_life t cs None = Some (Inr None)
   else scoped_life t cs None \<in> {None, Some (Inl UnlockNotHeld)}"
proof -
  have new: "scoped_new t None = Some (Some t, True)" by (simp add: scoped_new_def mutex_lock_def)
  show ?thesis
    using scoped_calls_in_turn [of cs t] scoped_calls_out_of_turn [of cs t] new
    by (auto simp: scoped_life_def scoped_delete_def mutex_unlock_def)
qed

text \<open>
  The timed wait waits until exactly the timeout after the current time: the deadline is in
  normal form (fewer than 10^9 nanoseconds) and exact, for every timeout whose deadline has
  seconds below 2^31, and no intermediate value wraps.
\<close>

theorem waitTimed_deadline:
  assumes "unat tv_nsec < 1000000000" and "unat tv_sec + unat timeout div 1000 + 1 < 2147483648"
  shows "\<exists>s n. waitTimed timedwait tv_sec tv_nsec timeout =
      (if timedwait (s, n) = ETIMEDOUT then Inr TIMEDOUT
       else if timedwait (s, n) = 0 then Inr SIGNALED else Inl ConditionalError) \<and>
    unat n < 1000000000 \<and>
    unat s * 1000000000 + unat n = unat tv_sec * 1000000000 + unat tv_nsec + unat timeout * 1000000"
proof -
  obtain s n where d: "cond_deadline tv_sec tv_nsec timeout = (s, n)" by fastforce
  then show ?thesis
    using cond_deadline_unat [OF assms d] by (intro exI [of _ s] exI [of _ n]) (simp add: waitTimed_def)
qed

theorem waitTimed_deadline_witness:
  "\<exists>s n. waitTimed (\<lambda>_. 0) 7 999999999 1500 = Inr SIGNALED \<and> unat (n :: 32 word) < 1000000000 \<and>
    unat (s :: 32 word) * 1000000000 + unat n = 7999999999 + 1500 * 1000000"
  using waitTimed_deadline [of 999999999 7 1500 "\<lambda>_. 0"] by (auto simp: ETIMEDOUT_def)

end
