(* ===== verification/OsMsgQueue.thy ===== *)
theory OsMsgQueue
  imports OsSync
begin

text \<open>
  The message queue, \<open>BasicMsgQueue\<close> of \<open>inc/osapi/MsgQueue.hpp\<close>: a bounded queue under a mutex
  with two condition variables. The threads are interleaved at every statement that other
  threads can observe; a condition variable wakes some waiting thread when it is signalled, and
  may wake one without a signal. The locale \<open>bounded_queue\<close> is what the users of a queue rely on.
\<close>

section \<open>The interface\<close>

datatype 'm queue_op = Put 'm | Get

text \<open>A program of queue operations: what it got, and the queue; \<open>None\<close> if an operation would wait.\<close>

fun q_run :: "('s \<Rightarrow> bool) \<Rightarrow> ('m \<Rightarrow> 's \<Rightarrow> 's) \<Rightarrow> ('s \<Rightarrow> ('m \<times> 's) option) \<Rightarrow> 'm queue_op list \<Rightarrow> 's \<Rightarrow> ('m list \<times> 's) option" where
  "q_run room put get [] s = Some ([], s)"
| "q_run room put get (Put m # ops) s = (if room s then q_run room put get ops (put m s) else None)"
| "q_run room put get (Get # ops) s =
     (case get s of None \<Rightarrow> None | Some (m, s) \<Rightarrow> map_option (\<lambda>(ms, s). (m # ms, s)) (q_run room put get ops s))"

fun puts :: "'m queue_op list \<Rightarrow> 'm list" where
  "puts [] = []"
| "puts (Put m # ops) = m # puts ops"
| "puts (Get # ops) = puts ops"

lemma puts_append [simp]: "puts (ops @ ops') = puts ops @ puts ops'"
  by (induction ops rule: puts.induct) simp_all

locale bounded_queue =
  fixes bound :: nat and items :: "'s \<Rightarrow> 'm list"
    and room :: "'s \<Rightarrow> bool" and put :: "'m \<Rightarrow> 's \<Rightarrow> 's" and get :: "'s \<Rightarrow> ('m \<times> 's) option"
  assumes room_iff: "length (items s) \<le> bound \<Longrightarrow> room s \<longleftrightarrow> length (items s) < bound"
    and items_put: "room s \<Longrightarrow> items (put m s) = items s @ [m]"
    and get_None: "get s = None \<longleftrightarrow> items s = []"
    and get_Some: "get s = Some (m, s') \<Longrightarrow> items s = m # items s'"
begin

text \<open>First in, first out: what was got is the beginning of what was there and what was put.\<close>

lemma run_fifo: "q_run room put get ops s = Some (ms, s') \<Longrightarrow> items s @ puts ops = ms @ items s'"
proof (induction ops arbitrary: s ms)
  case (Cons op ops)
  show ?case
  proof (cases op)
    case (Put m)
    then show ?thesis using Cons.prems Cons.IH [of "put m s" ms] by (simp add: items_put split: if_splits)
  next
    case Get
    then show ?thesis using Cons by (auto dest: get_Some split: option.splits prod.splits)
  qed
qed simp

lemma run_bound:
  "q_run room put get ops s = Some (ms, s') \<Longrightarrow> length (items s) \<le> bound \<Longrightarrow> length (items s') \<le> bound"
proof (induction ops arbitrary: s ms)
  case (Cons op ops)
  show ?case
  proof (cases op)
    case (Put m)
    then show ?thesis using Cons room_iff [of s] by (auto simp: items_put split: if_splits)
  next
    case Get
    then show ?thesis using Cons by (fastforce dest: get_Some split: option.splits prod.splits)
  qed
qed simp

lemma run_append:
  "q_run room put get (ops @ ops') s =
     Option.bind (q_run room put get ops s) (\<lambda>(ms, s). map_option (\<lambda>(ms', s). (ms @ ms', s)) (q_run room put get ops' s))"
proof (induction ops arbitrary: s)
  case Nil
  show ?case by (cases "q_run room put get ops' s") auto
next
  case (Cons op ops)
  show ?case
  proof (cases op)
    case (Put m)
    then show ?thesis using Cons by simp
  next
    case Get
    then show ?thesis
      using Cons by (cases "get s"; cases "q_run room put get ops (snd (the (get s)))")
        (auto simp: option.map_comp comp_def case_prod_unfold)
  qed
qed

end

text \<open>The queue alone: a list of messages with their identifiers.\<close>

definition list_room :: "nat \<Rightarrow> 'a list \<Rightarrow> bool" where
  "list_room maxSize q \<longleftrightarrow> length q \<noteq> maxSize"

definition push_back :: "'a \<Rightarrow> 'a list \<Rightarrow> 'a list" where
  "push_back x q = q @ [x]"

definition pop_front :: "'a list \<Rightarrow> ('a \<times> 'a list) option" where
  "pop_front q = (case q of [] \<Rightarrow> None | x # q \<Rightarrow> Some (x, q))"

interpretation lq: bounded_queue maxSize "\<lambda>q. q" "list_room maxSize" push_back pop_front
  by unfold_locales (auto simp: list_room_def push_back_def pop_front_def split: list.splits)

section \<open>The threads\<close>

text \<open>Where a thread is in \<open>send\<close> or \<open>receive\<close>.\<close>

datatype 'm pc =
    Idle
  | SendLock 'm | SendTest 'm | SendWaiting 'm | SendRelock 'm | SendUnlock | SendSignal
  | RecvLock | RecvTest | RecvWaiting | RecvRelock | RecvSignal 'm | RecvUnlock 'm

record 'm mq =
  mqueue :: "'m list"
  mmut :: mutex
  pcs :: "'m pc list"
  sent :: "'m list"
  taken :: "'m list"

definition mq_new :: "nat \<Rightarrow> 'm mq" where
  "mq_new n = \<lparr>mqueue = [], mmut = mutex_new, pcs = replicate n Idle, sent = [], taken = []\<rparr>"

definition goto :: "tid \<Rightarrow> 'm pc \<Rightarrow> 'm mq \<Rightarrow> 'm mq" where
  "goto t p s = s\<lparr>pcs := (pcs s)[t := p]\<rparr>"

definition pc_at :: "'m mq \<Rightarrow> tid \<Rightarrow> 'm pc \<Rightarrow> bool" where
  "pc_at s t p \<longleftrightarrow> t < length (pcs s) \<and> pcs s ! t = p"

text \<open>The statements of \<open>send\<close> and \<open>receive\<close>.\<close>

inductive mq_step :: "nat \<Rightarrow> 'm mq \<Rightarrow> 'm mq \<Rightarrow> bool" for maxSize where
  send_lock: "pc_at s t (SendLock m) \<Longrightarrow> mutex_lock t (mmut s) = Some l \<Longrightarrow>
    mq_step maxSize s (goto t (SendTest m) (s\<lparr>mmut := l\<rparr>))"
| send_wait: "pc_at s t (SendTest m) \<Longrightarrow> length (mqueue s) = maxSize \<Longrightarrow> mutex_unlock t (mmut s) = Inr l \<Longrightarrow>
    mq_step maxSize s (goto t (SendWaiting m) (s\<lparr>mmut := l\<rparr>))"
| send_relock: "pc_at s t (SendRelock m) \<Longrightarrow> mutex_lock t (mmut s) = Some l \<Longrightarrow>
    mq_step maxSize s (goto t (SendTest m) (s\<lparr>mmut := l\<rparr>))"
| send_push: "pc_at s t (SendTest m) \<Longrightarrow> length (mqueue s) \<noteq> maxSize \<Longrightarrow>
    mq_step maxSize s (goto t SendUnlock (s\<lparr>mqueue := push_back m (mqueue s), sent := sent s @ [m]\<rparr>))"
| send_unlock: "pc_at s t SendUnlock \<Longrightarrow> mutex_unlock t (mmut s) = Inr l \<Longrightarrow>
    mq_step maxSize s (goto t SendSignal (s\<lparr>mmut := l\<rparr>))"
| send_signal: "pc_at s t SendSignal \<Longrightarrow> pc_at s r RecvWaiting \<Longrightarrow>
    mq_step maxSize s (goto t Idle (goto r RecvRelock s))"
| send_signal_none: "pc_at s t SendSignal \<Longrightarrow> \<nexists>r. pc_at s r RecvWaiting \<Longrightarrow> mq_step maxSize s (goto t Idle s)"
| recv_lock: "pc_at s t RecvLock \<Longrightarrow> mutex_lock t (mmut s) = Some l \<Longrightarrow>
    mq_step maxSize s (goto t RecvTest (s\<lparr>mmut := l\<rparr>))"
| recv_wait: "pc_at s t RecvTest \<Longrightarrow> length (mqueue s) = 0 \<Longrightarrow> mutex_unlock t (mmut s) = Inr l \<Longrightarrow>
    mq_step maxSize s (goto t RecvWaiting (s\<lparr>mmut := l\<rparr>))"
| recv_relock: "pc_at s t RecvRelock \<Longrightarrow> mutex_lock t (mmut s) = Some l \<Longrightarrow>
    mq_step maxSize s (goto t RecvTest (s\<lparr>mmut := l\<rparr>))"
| recv_pop: "pc_at s t RecvTest \<Longrightarrow> pop_front (mqueue s) = Some (m, q) \<Longrightarrow>
    mq_step maxSize s (goto t (RecvSignal m) (s\<lparr>mqueue := q, taken := taken s @ [m]\<rparr>))"
| recv_signal: "pc_at s t (RecvSignal m) \<Longrightarrow> pc_at s w (SendWaiting m') \<Longrightarrow>
    mq_step maxSize s (goto t (RecvUnlock m) (goto w (SendRelock m') s))"
| recv_signal_none: "pc_at s t (RecvSignal m) \<Longrightarrow> \<nexists>w m'. pc_at s w (SendWaiting m') \<Longrightarrow>
    mq_step maxSize s (goto t (RecvUnlock m) s)"
| recv_unlock: "pc_at s t (RecvUnlock m) \<Longrightarrow> mutex_unlock t (mmut s) = Inr l \<Longrightarrow>
    mq_step maxSize s (goto t Idle (s\<lparr>mmut := l\<rparr>))"

text \<open>What happens to the queue from outside: calls, and wake-ups without a signal.\<close>

inductive mq_env :: "'m mq \<Rightarrow> 'm mq \<Rightarrow> bool" where
  call_send: "pc_at s t Idle \<Longrightarrow> mq_env s (goto t (SendLock m) s)"
| call_receive: "pc_at s t Idle \<Longrightarrow> mq_env s (goto t RecvLock s)"
| send_spurious: "pc_at s t (SendWaiting m) \<Longrightarrow> mq_env s (goto t (SendRelock m) s)"
| recv_spurious: "pc_at s t RecvWaiting \<Longrightarrow> mq_env s (goto t RecvRelock s)"

inductive mq_reach :: "nat \<Rightarrow> nat \<Rightarrow> 'm mq \<Rightarrow> bool" for maxSize n where
  mq_start: "mq_reach maxSize n (mq_new n)"
| mq_inner: "mq_reach maxSize n s \<Longrightarrow> mq_step maxSize s s' \<Longrightarrow> mq_reach maxSize n s'"
| mq_outer: "mq_reach maxSize n s \<Longrightarrow> mq_env s s' \<Longrightarrow> mq_reach maxSize n s'"

text \<open>The destructor deletes the messages that are left.\<close>

definition mq_delete :: "(nat \<times> 'p) mq \<Rightarrow> 'p list" where
  "mq_delete s = map snd (mqueue s)"

section \<open>Counting threads\<close>

definition cnt :: "('m pc \<Rightarrow> bool) \<Rightarrow> 'm mq \<Rightarrow> nat" where
  "cnt P s = length (filter P (pcs s))"

lemma length_filter_update:
  "i < length xs \<Longrightarrow> length (filter P (xs[i := x])) + (if P (xs ! i) then 1 else 0) =
    length (filter P xs) + (if P x then 1 else 0)"
proof (induction xs arbitrary: i)
  case (Cons y xs)
  then show ?case using Cons.IH [of "i - 1"] by (cases i) auto
qed simp

lemma cnt_pos: "pc_at s t q \<Longrightarrow> P q \<Longrightarrow> 0 < cnt P s"
  unfolding cnt_def pc_at_def by (metis (full_types) filter_empty_conv length_greater_0_conv nth_mem)

lemma cnt_posD: "0 < cnt P s \<Longrightarrow> \<exists>t q. pc_at s t q \<and> P q"
  by (auto simp: cnt_def pc_at_def filter_empty_conv in_set_conv_nth)

lemma cnt_goto:
  "pc_at s t q \<Longrightarrow> cnt P (goto t p s) = (if P q then cnt P s - 1 else cnt P s) + (if P p then 1 else 0)"
  using length_filter_update [of t "pcs s" P p] cnt_pos [of s t q P]
  by (auto simp: cnt_def goto_def pc_at_def split: if_splits)

lemma goto_simps [simp]:
  "mqueue (goto t p s) = mqueue s" "mmut (goto t p s) = mmut s" "sent (goto t p s) = sent s"
  "taken (goto t p s) = taken s" "pcs (goto t p s) = (pcs s)[t := p]"
  by (simp_all add: goto_def)

lemma pc_at_goto: "pc_at s t q \<Longrightarrow> pc_at (goto t p s) r x \<longleftrightarrow> (if r = t then x = p else pc_at s r x)"
  by (auto simp: pc_at_def)

lemma pc_at_upd [simp]:
  "pc_at (s\<lparr>mqueue := q\<rparr>) t p = pc_at s t p" "pc_at (s\<lparr>mmut := l\<rparr>) t p = pc_at s t p"
  "pc_at (s\<lparr>sent := ss\<rparr>) t p = pc_at s t p" "pc_at (s\<lparr>taken := ss\<rparr>) t p = pc_at s t p"
  by (simp_all add: pc_at_def)

lemma cnt_upd [simp]:
  "cnt P (s\<lparr>mqueue := q\<rparr>) = cnt P s" "cnt P (s\<lparr>mmut := l\<rparr>) = cnt P s"
  "cnt P (s\<lparr>sent := ss\<rparr>) = cnt P s" "cnt P (s\<lparr>taken := ss\<rparr>) = cnt P s"
  by (simp_all add: cnt_def)

lemma pc_at_fun: "pc_at s t p \<Longrightarrow> pc_at s t q \<longleftrightarrow> q = p"
  by (auto simp: pc_at_def)

section \<open>Invariants\<close>

fun owns :: "'m pc \<Rightarrow> bool" where
  "owns (SendTest m) = True"
| "owns SendUnlock = True"
| "owns RecvTest = True"
| "owns (RecvSignal m) = True"
| "owns (RecvUnlock m) = True"
| "owns _ = False"

text \<open>Threads that will look at the queue for a message, or will still wake one that does.\<close>

fun reader_active :: "'m pc \<Rightarrow> bool" where
  "reader_active SendUnlock = True"
| "reader_active SendSignal = True"
| "reader_active RecvLock = True"
| "reader_active RecvTest = True"
| "reader_active RecvRelock = True"
| "reader_active _ = False"

fun writer_active :: "'m pc \<Rightarrow> bool" where
  "writer_active (RecvSignal m) = True"
| "writer_active (SendLock m) = True"
| "writer_active (SendTest m) = True"
| "writer_active (SendRelock m) = True"
| "writer_active _ = False"

fun recv_waits :: "'m pc \<Rightarrow> bool" where
  "recv_waits RecvWaiting = True"
| "recv_waits _ = False"

fun send_waits :: "'m pc \<Rightarrow> bool" where
  "send_waits (SendWaiting m) = True"
| "send_waits _ = False"

lemma recv_waits_iff: "recv_waits p \<longleftrightarrow> p = RecvWaiting"
  by (cases p) simp_all

lemma send_waits_iff: "send_waits p \<longleftrightarrow> (\<exists>m. p = SendWaiting m)"
  by (cases p) simp_all

definition lock_inv :: "'m mq \<Rightarrow> bool" where
  "lock_inv s \<longleftrightarrow> (\<forall>t. mmut s = Some t \<longleftrightarrow> (\<exists>p. pc_at s t p \<and> owns p))"

definition fifo_inv :: "nat \<Rightarrow> 'm mq \<Rightarrow> bool" where
  "fifo_inv maxSize s \<longleftrightarrow> length (mqueue s) \<le> maxSize \<and>
     (\<exists>ops. q_run (list_room maxSize) push_back pop_front ops [] = Some (taken s, mqueue s) \<and> puts ops = sent s)"

definition wake_inv :: "nat \<Rightarrow> 'm mq \<Rightarrow> bool" where
  "wake_inv maxSize s \<longleftrightarrow>
     (0 < cnt recv_waits s \<longrightarrow> length (mqueue s) \<le> cnt reader_active s) \<and>
     (0 < cnt send_waits s \<longrightarrow> maxSize \<le> length (mqueue s) + cnt writer_active s)"

lemmas lock_simps = mutex_lock_def mutex_unlock_def

lemma lock_inv_goto:
  assumes "lock_inv s" and "pc_at s t q"
    and "mmut s' = (if owns p = owns q then mmut s else if owns p then Some t else None)" and "pcs s' = pcs s"
    and "owns p \<Longrightarrow> \<not> owns q \<Longrightarrow> mmut s = None"
  shows "lock_inv (goto t p s')"
proof -
  have a: "pc_at s' r x = pc_at s r x" for r x using assms(4) by (simp add: pc_at_def)
  have q: "owns q \<longleftrightarrow> mmut s = Some t"
    using assms(1,2) pc_at_fun [OF assms(2)] by (auto simp: lock_inv_def)
  have i: "mmut s = Some r \<longleftrightarrow> (\<exists>x. pc_at s r x \<and> owns x)" for r using assms(1) by (simp add: lock_inv_def)
  have g: "pc_at (goto t p s') r x \<longleftrightarrow> (if r = t then x = p else pc_at s r x)" for r x
    using pc_at_goto [of s' t q p r x] assms(2) a by simp
  show ?thesis
    unfolding lock_inv_def
  proof
    fix r
    have g: "(\<exists>x. pc_at (goto t p s') r x \<and> owns x) \<longleftrightarrow> (if r = t then owns p else mmut s = Some r)"
      unfolding g i by auto
    show "mmut (goto t p s') = Some r \<longleftrightarrow> (\<exists>x. pc_at (goto t p s') r x \<and> owns x)"
      unfolding g goto_simps assms(3) using q assms(5) by auto
  qed
qed

lemma lock_inv_start: "lock_inv (mq_new n)"
  by (auto simp: lock_inv_def mq_new_def mutex_new_def pc_at_def)

lemma lock_inv_env: "mq_env s s' \<Longrightarrow> lock_inv s \<Longrightarrow> lock_inv s'"
  by (induction rule: mq_env.induct) (rule lock_inv_goto, assumption, assumption, (simp_all)[3])+

lemma lock_inv_step: "mq_step maxSize s s' \<Longrightarrow> lock_inv s \<Longrightarrow> lock_inv s'"
proof (induction rule: mq_step.induct)
  case (send_signal s t r)
  then have ne: "r \<noteq> t" by (auto simp: pc_at_def)
  have i: "lock_inv (goto r RecvRelock s)"
    by (rule lock_inv_goto [OF send_signal(3,2)]) simp_all
  show ?case
    by (rule lock_inv_goto [OF i, where q = SendSignal]) (use send_signal ne in \<open>simp_all add: pc_at_goto\<close>)
next
  case (recv_signal s t m w m')
  then have ne: "w \<noteq> t" by (auto simp: pc_at_def)
  have i: "lock_inv (goto w (SendRelock m') s)"
    by (rule lock_inv_goto [OF recv_signal(3,2)]) simp_all
  show ?case
    by (rule lock_inv_goto [OF i, where q = "RecvSignal m"]) (use recv_signal ne in \<open>simp_all add: pc_at_goto\<close>)
qed (rule lock_inv_goto, assumption, assumption, (auto simp: lock_simps split: if_splits)[3])+

lemma fifo_inv_same:
  "fifo_inv maxSize s \<Longrightarrow> mqueue s' = mqueue s \<Longrightarrow> sent s' = sent s \<Longrightarrow> taken s' = taken s \<Longrightarrow> fifo_inv maxSize s'"
  by (simp add: fifo_inv_def)

lemma fifo_inv_extend:
  assumes "fifo_inv maxSize s" and "q_run (list_room maxSize) push_back pop_front [op] (mqueue s) = Some (ms, mqueue s')"
    and "sent s' = sent s @ puts [op]" and "taken s' = taken s @ ms"
  shows "fifo_inv maxSize s'"
proof -
  obtain ops where ops: "q_run (list_room maxSize) push_back pop_front ops [] = Some (taken s, mqueue s)"
    "puts ops = sent s" and l: "length (mqueue s) \<le> maxSize" using assms(1) by (auto simp: fifo_inv_def)
  have "q_run (list_room maxSize) push_back pop_front (ops @ [op]) [] = Some (taken s', mqueue s')"
    unfolding lq.run_append ops(1) using assms(2,4) by simp
  moreover have "puts (ops @ [op]) = sent s'" using ops(2) assms(3) by simp
  moreover have "length (mqueue s') \<le> maxSize" by (rule lq.run_bound [OF assms(2) l])
  ultimately show ?thesis unfolding fifo_inv_def by blast
qed

lemma fifo_inv_env: "mq_env s s' \<Longrightarrow> fifo_inv maxSize s \<Longrightarrow> fifo_inv maxSize s'"
  by (induction rule: mq_env.induct) (erule fifo_inv_same, (simp_all)[3])+

lemma fifo_inv_step: "mq_step maxSize s s' \<Longrightarrow> fifo_inv maxSize s \<Longrightarrow> fifo_inv maxSize s'"
proof (induction rule: mq_step.induct)
  case (send_push s t m)
  then show ?case by (intro fifo_inv_extend [OF send_push(3), of "Put m"]) (simp_all add: list_room_def)
next
  case (recv_pop s t m q)
  then show ?case by (intro fifo_inv_extend [OF recv_pop(3), of Get "[m]"]) simp_all
qed (erule fifo_inv_same, (simp_all)[3])+

lemma wake_inv_env: "mq_env s s' \<Longrightarrow> wake_inv maxSize s \<Longrightarrow> wake_inv maxSize s'"
  by (induction rule: mq_env.induct) (auto simp: wake_inv_def cnt_goto)

lemma wake_inv_step: "mq_step maxSize s s' \<Longrightarrow> wake_inv maxSize s \<Longrightarrow> fifo_inv maxSize s \<Longrightarrow> wake_inv maxSize s'"
proof (induction rule: mq_step.induct)
  case (send_push s t m)
  then show ?case
    using cnt_pos [OF send_push(1), of writer_active]
    by (auto simp: wake_inv_def cnt_goto [of _ t "SendTest m"] push_back_def)
next
  case (recv_pop s t m q)
  then have "mqueue s = m # q" by (auto simp: pop_front_def split: list.splits)
  then show ?case
    using cnt_pos [OF recv_pop(1), of reader_active] recv_pop(1,3)
    by (auto simp: wake_inv_def cnt_goto [of _ t RecvTest])
next
  case (send_signal s t r)
  then have "r \<noteq> t" by (auto simp: pc_at_def)
  then have at': "pc_at (goto r RecvRelock s) t SendSignal" using send_signal by (simp add: pc_at_goto)
  then show ?case
    using send_signal cnt_pos [OF send_signal(1), of reader_active] cnt_pos [OF send_signal(2), of recv_waits]
    by (auto simp: wake_inv_def cnt_goto [OF at'] cnt_goto [OF send_signal(2)])
next
  case (send_signal_none s t)
  then have "cnt recv_waits s = 0" using cnt_posD [of recv_waits s] by (auto simp: recv_waits_iff)
  then show ?case using send_signal_none by (auto simp: wake_inv_def cnt_goto [OF send_signal_none(1)])
next
  case (recv_signal s t m w m')
  then have "w \<noteq> t" by (auto simp: pc_at_def)
  then have at': "pc_at (goto w (SendRelock m') s) t (RecvSignal m)" using recv_signal by (simp add: pc_at_goto)
  then show ?case
    using recv_signal cnt_pos [OF recv_signal(1), of writer_active] cnt_pos [OF recv_signal(2), of send_waits]
    by (auto simp: wake_inv_def cnt_goto [OF at'] cnt_goto [OF recv_signal(2)])
next
  case (recv_signal_none s t m)
  then have "cnt send_waits s = 0" using cnt_posD [of send_waits s] by (auto simp: send_waits_iff)
  then show ?case using recv_signal_none by (auto simp: wake_inv_def cnt_goto [OF recv_signal_none(1)])
next
  case (send_wait s t m l)
  then show ?case by (auto simp: wake_inv_def cnt_goto [of _ t "SendTest m"])
next
  case (recv_wait s t l)
  then show ?case by (auto simp: wake_inv_def cnt_goto [of _ t RecvTest])
next
  case (send_lock s t m l)
  then show ?case by (auto simp: wake_inv_def cnt_goto [of _ t "SendLock m"])
next
  case (send_relock s t m l)
  then show ?case by (auto simp: wake_inv_def cnt_goto [of _ t "SendRelock m"])
next
  case (send_unlock s t l)
  then show ?case by (auto simp: wake_inv_def cnt_goto [of _ t SendUnlock])
next
  case (recv_lock s t l)
  then show ?case by (auto simp: wake_inv_def cnt_goto [of _ t RecvLock])
next
  case (recv_relock s t l)
  then show ?case by (auto simp: wake_inv_def cnt_goto [of _ t RecvRelock])
next
  case (recv_unlock s t m l)
  then show ?case by (auto simp: wake_inv_def cnt_goto [of _ t "RecvUnlock m"])
qed

lemma mq_invariant: "mq_reach maxSize n s \<Longrightarrow> lock_inv s \<and> fifo_inv maxSize s \<and> wake_inv maxSize s"
proof (induction rule: mq_reach.induct)
  case mq_start
  have "q_run (list_room maxSize) push_back pop_front [] [] = Some ([], [])" by simp
  then have "fifo_inv maxSize (mq_new n)" by (auto simp: fifo_inv_def mq_new_def intro: exI [of _ "[]"])
  moreover have "wake_inv maxSize (mq_new n)" by (simp add: wake_inv_def cnt_def mq_new_def)
  ultimately show ?case using lock_inv_start by blast
next
  case (mq_inner s s')
  then show ?case using lock_inv_step fifo_inv_step wake_inv_step by blast
next
  case (mq_outer s s')
  then show ?case using lock_inv_env fifo_inv_env wake_inv_env by blast
qed

section \<open>Progress\<close>

lemma owner_steps:
  assumes "lock_inv s" and "pc_at s t p" and "owns p"
  shows "\<exists>s'. mq_step maxSize s s'"
proof -
  have "mmut s = Some t" using assms by (auto simp: lock_inv_def)
  then have u: "mutex_unlock t (mmut s) = Inr None" by (simp add: mutex_unlock_def)
  show ?thesis
  proof (cases p)
    case (SendTest m)
    then show ?thesis
      using assms(2) u by (cases "length (mqueue s) = maxSize") (blast intro: send_wait, blast intro: send_push)
  next
    case SendUnlock
    then show ?thesis using assms(2) u by (blast intro: send_unlock)
  next
    case RecvTest
    show ?thesis
    proof (cases "mqueue s")
      case Nil
      then show ?thesis using assms(2) u RecvTest recv_wait [of s t] by auto
    next
      case (Cons m q)
      then have "pop_front (mqueue s) = Some (m, q)" by (simp add: pop_front_def)
      then show ?thesis using assms(2) RecvTest by (blast intro: recv_pop)
    qed
  next
    case (RecvSignal m)
    then show ?thesis using assms(2) recv_signal recv_signal_none by metis
  next
    case (RecvUnlock m)
    then show ?thesis using assms(2) u by (blast intro: recv_unlock)
  qed (use assms(3) in simp_all)
qed

lemma stuck_pcs:
  assumes "lock_inv s" and "\<nexists>s'. mq_step maxSize s s'" and "pc_at s t p"
  shows "p = Idle \<or> send_waits p \<or> recv_waits p"
proof -
  have "mmut s = None"
  proof (rule ccontr)
    assume "mmut s \<noteq> None"
    then obtain u q where "pc_at s u q" "owns q" using assms(1) by (auto simp: lock_inv_def)
    then show False using owner_steps [OF assms(1)] assms(2) by blast
  qed
  then have l: "mutex_lock t (mmut s) = Some (Some t)" by (simp add: mutex_lock_def)
  show ?thesis
  proof (cases p)
    case SendSignal
    then show ?thesis using assms(2,3) send_signal send_signal_none by metis
  next
    case (SendLock m)
    then show ?thesis using assms(2,3) send_lock [OF _ l] by auto
  next
    case (SendRelock m)
    then show ?thesis using assms(2,3) send_relock [OF _ l] by auto
  next
    case RecvLock
    then show ?thesis using assms(2,3) recv_lock [OF _ l] by auto
  next
    case RecvRelock
    then show ?thesis using assms(2,3) recv_relock [OF _ l] by auto
  qed (use owner_steps [OF assms(1,3)] assms(2) in auto)
qed

section \<open>Properties\<close>

text \<open>
  C5: whatever the interleaving of any number of threads in \<open>send\<close> and \<open>receive\<close>, the queue
  is a bounded first-in first-out queue: the pushes and pops that happened are a program of
  abstract queue operations with this result, so what was taken and what is in the queue is
  exactly what was sent, in order; it never holds more than \<open>maxSize\<close> messages; and no two
  threads are inside the lock.
\<close>

theorem queue_refines_fifo:
  assumes "mq_reach maxSize n s"
  shows "(\<exists>ops. q_run (list_room maxSize) push_back pop_front ops [] = Some (taken s, mqueue s) \<and> puts ops = sent s) \<and>
    sent s = taken s @ mqueue s \<and> length (mqueue s) \<le> maxSize \<and>
    (\<forall>t u p q. pc_at s t p \<and> owns p \<and> pc_at s u q \<and> owns q \<longrightarrow> t = u)"
proof -
  have inv: "lock_inv s" "fifo_inv maxSize s" using mq_invariant [OF assms] by simp_all
  then obtain ops where ops: "q_run (list_room maxSize) push_back pop_front ops [] = Some (taken s, mqueue s)"
    "puts ops = sent s" "length (mqueue s) \<le> maxSize" by (auto simp: fifo_inv_def)
  moreover have "sent s = taken s @ mqueue s" using lq.run_fifo [OF ops(1)] ops(2) by simp
  moreover have "\<forall>t u p q. pc_at s t p \<and> owns p \<and> pc_at s u q \<and> owns q \<longrightarrow> t = u"
    using inv(1) unfolding lock_inv_def by (metis option.inject)
  ultimately show ?thesis by blast
qed

definition one_sent :: "nat mq" where
  "one_sent = \<lparr>mqueue = [7], mmut = Some 0, pcs = [SendUnlock], sent = [7], taken = []\<rparr>"

theorem queue_refines_fifo_witness: "mq_reach 1 1 one_sent \<and> sent one_sent = taken one_sent @ mqueue one_sent"
proof -
  let ?s = "goto 0 (SendLock 7) (mq_new 1) :: nat mq"
  let ?u = "goto 0 (SendTest 7) (?s\<lparr>mmut := Some 0\<rparr>)"
  have "mq_reach 1 1 ?s"
    by (rule mq_outer [OF mq_start call_send]) (simp add: pc_at_def mq_new_def)
  then have "mq_reach 1 1 ?u"
    by (rule mq_inner) (rule send_lock, simp_all add: pc_at_def mq_new_def lock_simps mutex_new_def)
  then have "mq_reach 1 1 (goto 0 SendUnlock (?u\<lparr>mqueue := push_back 7 (mqueue ?u), sent := sent ?u @ [7]\<rparr>))"
    by (rule mq_inner) (rule send_push, simp_all add: pc_at_def mq_new_def)
  moreover have "goto 0 SendUnlock (?u\<lparr>mqueue := push_back 7 (mqueue ?u), sent := sent ?u @ [7]\<rparr>) = one_sent"
    by (simp add: goto_def mq_new_def one_sent_def push_back_def)
  ultimately have "mq_reach 1 1 one_sent" by (simp only:)
  then show ?thesis using queue_refines_fifo [of 1 1 one_sent] by blast
qed

text \<open>
  C6: no wake-up is lost and nobody is stuck: when no thread inside the queue can go on, every
  thread is outside or waits, receivers wait only for an empty queue and senders only for a
  full one. So with room for at least one message no sender and receiver ever wait at once.
\<close>

theorem queue_no_lost_wakeup:
  assumes "mq_reach maxSize n s" and "\<nexists>s'. mq_step maxSize s s'"
  shows "(\<forall>p \<in> set (pcs s). p = Idle \<or> send_waits p \<or> recv_waits p) \<and>
    (RecvWaiting \<in> set (pcs s) \<longrightarrow> mqueue s = []) \<and>
    ((\<exists>p \<in> set (pcs s). send_waits p) \<longrightarrow> length (mqueue s) = maxSize)"
proof -
  have inv: "lock_inv s" "length (mqueue s) \<le> maxSize" "wake_inv maxSize s"
    using mq_invariant [OF assms(1)] by (simp_all add: fifo_inv_def)
  have pcs: "p = Idle \<or> send_waits p \<or> recv_waits p" if "pc_at s t p" for t p
    by (rule stuck_pcs [OF inv(1) assms(2) that])
  have all: "\<exists>t. pc_at s t p" if "p \<in> set (pcs s)" for p
    using that by (auto simp: pc_at_def in_set_conv_nth)
  have "reader_active p \<Longrightarrow> \<not> (p = Idle \<or> send_waits p \<or> recv_waits p)"
    "writer_active p \<Longrightarrow> \<not> (p = Idle \<or> send_waits p \<or> recv_waits p)" for p :: "'a pc" by (cases p; simp)+
  then have z: "cnt reader_active s = 0" "cnt writer_active s = 0" using cnt_posD pcs by blast+
  have "0 < cnt recv_waits s" if "RecvWaiting \<in> set (pcs s)" using all [OF that] cnt_pos by fastforce
  then have "RecvWaiting \<in> set (pcs s) \<longrightarrow> mqueue s = []" using inv(3) z by (auto simp: wake_inv_def)
  moreover have "0 < cnt send_waits s" if "p \<in> set (pcs s)" "send_waits p" for p
    using all [OF that(1)] that(2) cnt_pos by fastforce
  then have "(\<exists>p \<in> set (pcs s). send_waits p) \<longrightarrow> length (mqueue s) = maxSize"
    using inv(2,3) z by (fastforce simp: wake_inv_def)
  ultimately show ?thesis using pcs all by blast
qed

definition one_waits :: "nat mq" where
  "one_waits = \<lparr>mqueue = [], mmut = None, pcs = [RecvWaiting], sent = [], taken = []\<rparr>"

lemma one_waits_pc: "pc_at one_waits t p \<longleftrightarrow> t = 0 \<and> p = RecvWaiting"
  by (auto simp: pc_at_def one_waits_def)

theorem queue_no_lost_wakeup_witness: "mq_reach 1 1 one_waits \<and> mqueue one_waits = []"
proof -
  let ?s = "goto 0 RecvLock (mq_new 1) :: nat mq"
  let ?u = "goto 0 RecvTest (?s\<lparr>mmut := Some 0\<rparr>)"
  have "mq_reach 1 1 ?s"
    by (rule mq_outer [OF mq_start call_receive]) (simp add: pc_at_def mq_new_def)
  then have "mq_reach 1 1 ?u"
    by (rule mq_inner) (rule recv_lock, simp_all add: pc_at_def mq_new_def lock_simps mutex_new_def)
  then have "mq_reach 1 1 (goto 0 RecvWaiting (?u\<lparr>mmut := None\<rparr>))"
    by (rule mq_inner) (rule recv_wait, simp_all add: pc_at_def mq_new_def lock_simps)
  moreover have "goto 0 RecvWaiting (?u\<lparr>mmut := None\<rparr>) = one_waits"
    by (simp add: goto_def mq_new_def one_waits_def)
  ultimately have r: "mq_reach 1 1 one_waits" by (simp only:)
  have "\<not> mq_step 1 one_waits s'" for s' by (auto elim!: mq_step.cases simp: one_waits_pc)
  then show ?thesis using queue_no_lost_wakeup [OF r] r by (simp add: one_waits_def)
qed

end
