(* ===== verification/RpiSystem.thy ===== *)
theory RpiSystem
  imports RpiCommand OsMsgQueue
begin

unbundle bit_operations_syntax

text \<open>
  The system manager: \<open>SystemManager.hpp\<close> and \<open>SystemManager.cpp\<close>. The timer thread polls the
  clock and orders a feeding, the settings thread watches a file, and the main thread requests
  a treat and then dispatches commands for ever. Times are in seconds. The clock, the lengths
  of the sleeps and the inotify events are parameters.
\<close>

section \<open>Settings\<close>

record Setting =
  feedingHour :: int
  feedingMinute :: int
  foodAmount :: int
  treatLimit :: int
  treatsEnabled :: bool
  treatRequestsEnabled :: bool

definition currentSetting :: Setting where
  "currentSetting = \<lparr>feedingHour = 12, feedingMinute = 42, foodAmount = 100, treatLimit = 3,
     treatsEnabled = True, treatRequestsEnabled = True\<rparr>"

section \<open>The timer thread\<close>

text \<open>\<open>gmtime\<close>: hour and minute of a POSIX time.\<close>

definition tm_hour :: "int \<Rightarrow> int" where
  "tm_hour t = t div 3600 mod 24"

definition tm_min :: "int \<Rightarrow> int" where
  "tm_min t = t div 60 mod 60"

definition isFeedingTime :: "Setting \<Rightarrow> int \<Rightarrow> bool" where
  "isFeedingTime cs t \<longleftrightarrow>
     (if feedingHour cs = tm_hour t then (if feedingMinute cs = tm_min t then True else False) else False)"

definition feed_message :: "Setting \<Rightarrow> msg" where
  "feed_message cs = (1, ''F'' @ show_int (foodAmount cs))"

text \<open>
  One poll at time \<open>t\<close> and the sleep behind it (30 s, or 60 s after a feeding), which lasts
  \<open>lag\<close> seconds longer than asked for: the time of the next poll and what was sent.
\<close>

definition time_poll :: "Setting \<Rightarrow> int \<Rightarrow> int \<Rightarrow> int \<times> msg list" where
  "time_poll cs lag t =
     (if isFeedingTime cs t then (t + 60 + lag, [feed_message cs]) else (t + 30 + lag, []))"

text \<open>The thread over as many sleeps as \<open>lags\<close> has: the polls with what each of them sent.\<close>

fun time_run :: "Setting \<Rightarrow> int list \<Rightarrow> int \<Rightarrow> (int \<times> msg list) list" where
  "time_run cs [] t = [(t, snd (time_poll cs 0 t))]"
| "time_run cs (lag # lags) t =
     (case time_poll cs lag t of (t', ms) \<Rightarrow> (t, ms) # time_run cs lags t')"

section \<open>The settings thread\<close>

definition IN_MODIFY :: "32 word" where "IN_MODIFY = 2"
definition IN_CLOSE_WRITE :: "32 word" where "IN_CLOSE_WRITE = 8"

text \<open>\<open>event->mask & IN_CLOSE_WRITE | IN_MODIFY\<close>, as C++ reads it.\<close>

definition file_written :: "32 word \<Rightarrow> bool" where
  "file_written msk \<longleftrightarrow> (msk AND IN_CLOSE_WRITE) OR IN_MODIFY = 10"

definition settings_message :: msg where
  "settings_message = (2, ''TEST'')"

text \<open>
  The loop over one \<open>read\<close>: \<open>got\<close> is what it returned, \<open>event i\<close> the mask and name length of the
  event at offset \<open>i\<close>. \<open>split\<close> is Boost's splitting at commas; its result is the local vector
  \<open>settings\<close>, and the text that is split is the event buffer.
\<close>

function listener_events ::
    "(string \<Rightarrow> string list) \<Rightarrow> string \<Rightarrow> int \<Rightarrow> (int \<Rightarrow> 32 word \<times> nat) \<Rightarrow> int \<Rightarrow> string list \<Rightarrow> msg list \<times> string list" where
  "listener_events split buffer got event i settings =
     (if i < got then
        (case event i of (msk, len) \<Rightarrow>
           let next = i + 16 + int len
           in if file_written msk
              then (case listener_events split buffer got event next (split (c_str buffer)) of
                      (ms, settings) \<Rightarrow> (settings_message # ms, settings))
              else listener_events split buffer got event next settings)
      else ([], settings))"
  by pat_completeness auto
termination
  by (relation "measure (\<lambda>(sp, b, got, ev, i, s). nat (got - i))") auto

declare listener_events.simps [simp del]

section \<open>The system\<close>

text \<open>
  The running program: the command queue (bounded by 10), the controller, the settings the
  threads share, the timer's clock, the messages the web listener still has to send, and the
  fault that ended the program, if one has.
\<close>

record system =
  queue :: "msg list"
  ctrl :: controller
  cs :: Setting
  time_now :: int
  web_pending :: "msg list"
  web_ended :: bool
  fault :: "fault option"

text \<open>
  \<open>MainThread::run\<close> up to its loop: the settings and timer threads are started, the treat is
  requested, and the web listener is started; \<open>ask\<close> is what the server will answer to it.
\<close>

definition system_start :: "Setting \<Rightarrow> int \<Rightarrow> controller \<Rightarrow> effect list \<Rightarrow> system" where
  "system_start s t c es = \<lparr>queue = [], ctrl = getTreatRequestAnswer c, cs = s, time_now = t,
     web_pending = messages es, web_ended = False, fault = None\<rparr>"

definition room :: "system \<Rightarrow> bool" where
  "room s \<longleftrightarrow> length (queue s) < 10"

definition push :: "msg \<Rightarrow> system \<Rightarrow> system" where
  "push m s = s\<lparr>queue := queue s @ [m]\<rparr>"

definition pop :: "system \<Rightarrow> (msg \<times> system) option" where
  "pop s = (case queue s of [] \<Rightarrow> None | m # q \<Rightarrow> Some (m, s\<lparr>queue := q\<rparr>))"

text \<open>What the threads see of their queue is the bounded queue that \<open>MsgQueue\<close> implements.\<close>

interpretation sq: bounded_queue 10 queue room push pop
  by unfold_locales (auto simp: room_def push_def pop_def split: list.splits)

text \<open>
  The end of the listener's thread: after its last message it sleeps and signals \<open>threadDone_\<close> of
  its object, which the controller may have deleted by then.
\<close>

definition thread_end :: "webcomm \<Rightarrow> fault option" where
  "thread_end w = (if threadPool w (web_id w) = Some Freed then Some UseAfterFree else None)"

text \<open>The threads, interleaved at the queue: \<open>send\<close> waits for room, \<open>receive\<close> for a message.\<close>

inductive sys_step :: "(string \<Rightarrow> int) \<Rightarrow> system \<Rightarrow> system \<Rightarrow> bool" for put where
  idle_poll: "fault s = None \<Longrightarrow> 0 \<le> lag \<Longrightarrow> time_poll (cs s) lag (time_now s) = (t, []) \<Longrightarrow>
    sys_step put s (s\<lparr>time_now := t\<rparr>)"
| feed_poll: "fault s = None \<Longrightarrow> 0 \<le> lag \<Longrightarrow> time_poll (cs s) lag (time_now s) = (t, [m]) \<Longrightarrow> room s \<Longrightarrow>
    sys_step put s (push m (s\<lparr>time_now := t\<rparr>))"
| settings: "fault s = None \<Longrightarrow> file_written msk \<Longrightarrow> room s \<Longrightarrow> sys_step put s (push settings_message s)"
| web: "fault s = None \<Longrightarrow> web_pending s = m # ms \<Longrightarrow> room s \<Longrightarrow>
    sys_step put s (push m (s\<lparr>web_pending := ms\<rparr>))"
| web_end: "fault s = None \<Longrightarrow> web_pending s = [] \<Longrightarrow> \<not> web_ended s \<Longrightarrow>
    sys_step put s (s\<lparr>web_ended := True, fault := thread_end (web_of (ctrl s))\<rparr>)"
| dispatch: "fault s = None \<Longrightarrow> dispatchCommand put (queue s, ctrl s) = Some (Inr (q, c)) \<Longrightarrow>
    sys_step put s (s\<lparr>queue := q, ctrl := c\<rparr>)"
| crash: "fault s = None \<Longrightarrow> dispatchCommand put (queue s, ctrl s) = Some (Inl f) \<Longrightarrow>
    sys_step put s (s\<lparr>fault := Some f\<rparr>)"

inductive sys_reach :: "(string \<Rightarrow> int) \<Rightarrow> system \<Rightarrow> system \<Rightarrow> bool" for put s0 where
  sys_refl: "sys_reach put s0 s0"
| sys_more: "sys_reach put s0 s \<Longrightarrow> sys_step put s s' \<Longrightarrow> sys_reach put s0 s'"

section \<open>The timer feeds once a day\<close>

definition day :: "int \<Rightarrow> int" where
  "day t = t div 86400"

text \<open>The start of the feeding minute of a day.\<close>

definition feeding_start :: "Setting \<Rightarrow> int \<Rightarrow> int" where
  "feeding_start s d = d * 86400 + feedingHour s * 3600 + feedingMinute s * 60"

definition wf_setting :: "Setting \<Rightarrow> bool" where
  "wf_setting s \<longleftrightarrow> 0 \<le> feedingHour s \<and> feedingHour s < 24 \<and> 0 \<le> feedingMinute s \<and> feedingMinute s < 60"

lemma minute_unique:
  fixes a b c d r :: int
  assumes "0 \<le> b" "b < 60" "0 \<le> d" "d < 60" "0 \<le> r" "r < 60"
  shows "a = c \<and> b = d \<longleftrightarrow>
    3600 * a + 60 * b \<le> 3600 * c + 60 * d + r \<and> 3600 * c + 60 * d + r < 3600 * a + 60 * b + 60"
proof
  assume "a = c \<and> b = d"
  then show "3600 * a + 60 * b \<le> 3600 * c + 60 * d + r \<and>
    3600 * c + 60 * d + r < 3600 * a + 60 * b + 60" using assms by simp
next
  assume "3600 * a + 60 * b \<le> 3600 * c + 60 * d + r \<and> 3600 * c + 60 * d + r < 3600 * a + 60 * b + 60"
  then have e: "60 * a + b = 60 * c + d" using assms by linarith
  have "(60 * a + b) div 60 = a" "(60 * c + d) div 60 = c" using assms by simp_all
  with e show "a = c \<and> b = d" by simp
qed

lemma isFeedingTime_iff:
  assumes "wf_setting s"
  shows "isFeedingTime s t \<longleftrightarrow> feeding_start s (day t) \<le> t \<and> t < feeding_start s (day t) + 60"
proof -
  define h m r where "h = tm_hour t" and "m = tm_min t" and "r = t mod 60"
  have a: "t = 60 * (t div 60) + r" by (simp add: r_def)
  have b: "t div 60 = 60 * (t div 60 div 60) + m" by (simp add: m_def tm_min_def)
  have c: "t div 60 div 60 = t div 3600" by (simp add: zdiv_zmult2_eq [symmetric])
  have d: "t div 3600 = 24 * (t div 3600 div 24) + h" by (simp add: h_def tm_hour_def)
  have e: "t div 3600 div 24 = day t" by (simp add: day_def zdiv_zmult2_eq [symmetric])
  have t: "t = 86400 * day t + 3600 * h + 60 * m + r" using a b c d e by linarith
  have bounds: "0 \<le> h" "h < 24" "0 \<le> m" "m < 60" "0 \<le> r" "r < 60"
    by (simp_all add: h_def m_def r_def tm_hour_def tm_min_def)
  have "feedingHour s = h \<and> feedingMinute s = m \<longleftrightarrow>
      3600 * feedingHour s + 60 * feedingMinute s \<le> 3600 * h + 60 * m + r \<and>
      3600 * h + 60 * m + r < 3600 * feedingHour s + 60 * feedingMinute s + 60"
    using bounds assms unfolding wf_setting_def by (intro minute_unique) simp_all
  moreover have "isFeedingTime s t \<longleftrightarrow> feedingHour s = h \<and> feedingMinute s = m"
    by (auto simp: isFeedingTime_def h_def m_def)
  ultimately show ?thesis using t by (simp add: feeding_start_def) linarith
qed

text \<open>The times at which a run feeds.\<close>

definition feedings :: "Setting \<Rightarrow> int list \<Rightarrow> int \<Rightarrow> int list" where
  "feedings s lags t = map fst (filter (\<lambda>(t, ms). ms \<noteq> []) (time_run s lags t))"

definition pause :: "Setting \<Rightarrow> int \<Rightarrow> int" where
  "pause s t = (if isFeedingTime s t then 60 else 30)"

lemma feedings_simps:
  "feedings s [] t = (if isFeedingTime s t then [t] else [])"
  "feedings s (lag # lags) t =
     (if isFeedingTime s t then [t] else []) @ feedings s lags (t + pause s t + lag)"
  by (simp_all add: feedings_def time_poll_def pause_def)

lemma time_run_times:
  "time_run s (lag # lags) t = (t, if isFeedingTime s t then [feed_message s] else []) #
     time_run s lags (t + pause s t + lag)"
  by (simp add: time_poll_def pause_def)

lemma time_run_nonempty [simp]: "time_run s lags t \<noteq> []"
  by (cases lags) (auto simp: time_poll_def)

lemma feedings_later: "list_all (\<lambda>l. 0 \<le> l) lags \<Longrightarrow> x \<in> set (feedings s lags t) \<Longrightarrow> t \<le> x"
proof (induction lags arbitrary: t)
  case (Cons lag lags)
  then show ?case
    by (force simp: feedings_simps pause_def split: if_splits)
qed (auto simp: feedings_simps split: if_splits)

lemma feedings_are: "x \<in> set (feedings s lags t) \<Longrightarrow> isFeedingTime s x"
  by (induction lags arbitrary: t) (auto simp: feedings_simps split: if_splits)

text \<open>After a feeding the timer sleeps for longer than the minute lasts.\<close>

lemma feedings_at_most_once:
  assumes "wf_setting s" and "list_all (\<lambda>l. 0 \<le> l) lags"
  shows "length (filter (\<lambda>x. day x = d) (feedings s lags t)) \<le> 1"
  using assms(2)
proof (induction lags arbitrary: t)
  case (Cons lag lags)
  let ?t = "t + pause s t + lag"
  have IH: "length (filter (\<lambda>x. day x = d) (feedings s lags ?t)) \<le> 1" using Cons by simp
  show ?case
  proof (cases "isFeedingTime s t \<and> day t = d")
    case True
    have "day x \<noteq> d" if "x \<in> set (feedings s lags ?t)" for x
    proof
      assume "day x = d"
      moreover have "t + 60 \<le> x"
        using feedings_later [OF _ that] Cons.prems True by (simp add: pause_def)
      moreover have "isFeedingTime s x" using that by (rule feedings_are)
      ultimately have "x < feeding_start s d + 60" "t + 60 \<le> x"
        by (simp_all add: isFeedingTime_iff [OF assms(1)])
      moreover have "feeding_start s d \<le> t" using True by (auto simp: isFeedingTime_iff [OF assms(1)])
      ultimately show False by linarith
    qed
    then have "filter (\<lambda>x. day x = d) (feedings s lags ?t) = []" by (simp add: filter_empty_conv)
    then show ?thesis using True by (simp add: feedings_simps)
  next
    case False
    then show ?thesis using IH by (auto simp: feedings_simps)
  qed
qed (simp add: feedings_simps)

lemma day_start:
  assumes "wf_setting s" and "feeding_start s d \<le> t" and "t < feeding_start s d + 60"
  shows "day t = d"
proof -
  have "d * 86400 \<le> t" "t < d * 86400 + 86400"
    using assms by (simp_all add: wf_setting_def feeding_start_def)
  then have "t div 86400 = d" by (intro int_div_pos_eq [of _ _ _ "t - d * 86400"]) simp_all
  then show ?thesis by (simp add: day_def)
qed

lemma feedings_at_least_once:
  assumes "wf_setting s" and "list_all (\<lambda>l. 0 \<le> l \<and> l \<le> 30) lags"
    and "t < feeding_start s d + 60" and "feeding_start s d + 60 \<le> fst (last (time_run s lags t))"
  shows "\<exists>x \<in> set (feedings s lags t). day x = d"
  using assms(2-4)
proof (induction lags arbitrary: t)
  case Nil
  then show ?case by simp
next
  case (Cons lag lags)
  let ?t = "t + pause s t + lag"
  have last: "last (time_run s (lag # lags) t) = last (time_run s lags ?t)"
    unfolding time_run_times by simp
  show ?case
  proof (cases "feeding_start s d \<le> t")
    case True
    then have "day t = d" using day_start [OF assms(1) True] Cons.prems(2) by simp
    moreover from this have "isFeedingTime s t"
      using True Cons.prems(2) by (simp add: isFeedingTime_iff [OF assms(1)])
    ultimately show ?thesis by (auto simp: feedings_simps)
  next
    case False
    have "?t < feeding_start s d + 60"
    proof (cases "isFeedingTime s t")
      case True
      then have w: "feeding_start s (day t) \<le> t" "t < feeding_start s (day t) + 60"
        by (simp_all add: isFeedingTime_iff [OF assms(1)])
      with False have "feeding_start s (day t) < feeding_start s d" by simp
      then have "day t < d" by (simp add: feeding_start_def)
      then have "feeding_start s (day t) + 86400 \<le> feeding_start s d" by (simp add: feeding_start_def)
      then show ?thesis using w Cons.prems(1) by (simp add: pause_def)
    next
      case no: False
      then show ?thesis using False Cons.prems(1) by (simp add: pause_def)
    qed
    then obtain x where "x \<in> set (feedings s lags ?t)" "day x = d"
      using Cons.IH [of ?t] Cons.prems last by auto
    then show ?thesis by (auto simp: feedings_simps)
  qed
qed

section \<open>Properties of the timer and the settings thread\<close>

text \<open>
  C3: the timer orders exactly one feeding on every day: whatever the time of the start and
  however the sleeps are stretched (by up to 30 seconds each), a run that covers the feeding
  minute of a day sends exactly one feeding command on that day.
\<close>

theorem fed_once_a_day:
  assumes "wf_setting s" and "list_all (\<lambda>l. 0 \<le> l \<and> l \<le> 30) lags"
    and "t \<le> feeding_start s d" and "feeding_start s d + 60 \<le> fst (last (time_run s lags t))"
  shows "length (filter (\<lambda>x. day x = d) (feedings s lags t)) = 1"
proof -
  obtain x where "x \<in> set (feedings s lags t)" "day x = d"
    using feedings_at_least_once [OF assms(1,2) _ assms(4)] assms(3) by auto
  then have "filter (\<lambda>x. day x = d) (feedings s lags t) \<noteq> []" by (auto simp: filter_empty_conv)
  moreover have "list_all (\<lambda>l. 0 \<le> l) lags" using assms(2) by (simp add: list_all_iff)
  ultimately show ?thesis
    using feedings_at_most_once [OF assms(1), of lags d t] by (cases "filter (\<lambda>x. day x = d) (feedings s lags t)") auto
qed

theorem fed_once_a_day_witness:
  "length (filter (\<lambda>x. day x = 1) (feedings currentSetting [0, 30, 5, 0] (86400 + 12 * 3600 + 41 * 60 + 50))) = 1"
proof (rule fed_once_a_day)
  show "wf_setting currentSetting" by (simp add: wf_setting_def currentSetting_def)
  show "feeding_start currentSetting 1 + 60 \<le>
      fst (last (time_run currentSetting [0, 30, 5, 0] (86400 + 12 * 3600 + 41 * 60 + 50)))" by code_simp
qed (simp_all add: feeding_start_def currentSetting_def)

lemma file_written_iff: "file_written m \<longleftrightarrow> bit m 3"
proof -
  have "m AND 2 ^ 3 = (if bit m 3 then 2 ^ 3 else 0)"
  proof (cases "bit m 3")
    case True
    have "m AND 2 ^ 3 = 2 ^ 3"
      using True by (intro bit_word_eqI) (auto simp only: bit_and_iff bit_exp_iff)
    with True show ?thesis by simp
  next
    case False
    then have "m AND 2 ^ 3 = 0" by (simp only: and_exp_eq_0_iff_not_bit not_False_eq_True)
    with False show ?thesis by simp
  qed
  then have "m AND 8 = (if bit m 3 then 8 else 0)" by simp
  then show ?thesis unfolding file_written_def IN_MODIFY_def IN_CLOSE_WRITE_def by simp
qed

text \<open>The events of one read, end to end in the buffer from offset \<open>i\<close>.\<close>

fun layout :: "(int \<Rightarrow> 32 word \<times> nat) \<Rightarrow> int \<Rightarrow> (32 word \<times> nat) list \<Rightarrow> int \<Rightarrow> bool" where
  "layout event i [] got \<longleftrightarrow> got \<le> i"
| "layout event i (e # es) got \<longleftrightarrow> i < got \<and> event i = e \<and> layout event (i + 16 + int (snd e)) es got"

lemma listener_events_layout:
  "layout event i es got \<Longrightarrow>
    fst (listener_events split buffer got event i settings) =
      replicate (length (filter (\<lambda>e. bit (fst e) 3) es)) settings_message"
proof (induction es arbitrary: i settings)
  case Nil
  then show ?case by (subst listener_events.simps) simp
next
  case (Cons e es)
  then show ?case
    by (subst listener_events.simps)
       (simp add: file_written_iff Let_def split_def)
qed

text \<open>
  The settings thread. Because \<open>&\<close> binds tighter than \<open>|\<close>, the test for the two flags
  is a test of the flag \<open>IN_CLOSE_WRITE\<close> alone, and each such event of a read sends one
  \<open>TEST\<close> command and nothing else. The settings themselves are never changed.
\<close>

theorem settings_events:
  assumes "layout event 0 es got"
  shows "fst (listener_events split buffer got event 0 settings) =
    replicate (length (filter (\<lambda>e. bit (fst e) 3) es)) (2, ''TEST'')"
  using listener_events_layout [OF assms] by (simp add: settings_message_def)

theorem settings_events_witness:
  "fst (listener_events (\<lambda>s. [s]) [CHR 0x01] 64 (\<lambda>i. if i = 0 then (2, 16) else (8, 16)) 0 []) = [(2, ''TEST'')]"
  using settings_events [of "\<lambda>i. if i = 0 then (2, 16) else (8, 16)" "[(2, 16), (8, 16)]" 64 "\<lambda>s. [s]" "[CHR 0x01]" "[]"]
  by (simp add: bit_numeral_rec(1) bit_word_iff_drop_bit_and)

section \<open>The threads together\<close>

text \<open>The messages of a system whose timer has these settings and whose web listener is \<open>i\<close>.\<close>

definition forwards :: "Setting \<Rightarrow> msg set" where
  "forwards st = {feed_message st, settings_message, (3, ''TA''), (3, ''TD'')}"

definition deletes :: "msg list \<Rightarrow> nat" where
  "deletes ms = length (filter (\<lambda>m. fst m = 9) ms)"

lemma deletes_simps [simp]: "deletes [] = 0" "deletes (m # ms) = (if fst m = 9 then 1 else 0) + deletes ms"
  "deletes (a @ b) = deletes a + deletes b"
  by (simp_all add: deletes_def)

lemma handle_forward:
  assumes "m \<in> forwards st" and "-99 \<le> foodAmount st" and "foodAmount st \<le> 999"
    and "takes_all put" and "uart0_filestream (line_of c) \<noteq> -1"
  shows "handleCommand put m c = Inr (transmitted (snd m) c) \<and> fst m \<noteq> 9"
proof -
  have f: "c_str (CHR ''F'' # show_int a) = CHR ''F'' # show_int a" for a
    using plain_show_int [of a] by (intro c_str_plain) (simp add: plain_def)
  have t: "c_str ''TEST'' = ''TEST''" "\<not> reported ''TEST''" by (auto simp: c_str_def reported_iff)
  have l: "length (show_int (foodAmount st)) \<le> 3" using assms(2,3) by (simp add: length_show_int)
  from assms(1) consider "m = (1, CHR ''F'' # show_int (foodAmount st))" | "m = (2, ''TEST'')"
    | "m = (3, ''TA'') \<or> m = (3, ''TD'')"
    by (auto simp: forwards_def feed_message_def settings_message_def)
  then show ?thesis
  proof cases
    case 1
    then show ?thesis
      using forward_eq [OF feed_not_reported _ assms(4,5), of 1] f l by (simp add: transmitted_def)
  next
    case 2
    then show ?thesis
      using forward_eq [OF t(2) _ assms(4,5), of 2] t(1) by (simp add: transmitted_def)
  next
    case 3
    then have "m = (3, snd m)" "snd m = ''TA'' \<or> snd m = ''TD''" by auto
    with handle_reply [of "snd m" put c] assms(4,5) show ?thesis by (cases m) simp
  qed
qed

definition sys_inv :: "Setting \<Rightarrow> int \<Rightarrow> system \<Rightarrow> bool" where
  "sys_inv st i s \<longleftrightarrow>
     (fault s = None \<or> fault s = Some UseAfterFree \<and> threadPool (web_of (ctrl s)) i = Some Freed) \<and>
     web_id (web_of (ctrl s)) = i \<and> cs s = st \<and> length (queue s) \<le> 10 \<and>
     uart0_filestream (line_of (ctrl s)) \<noteq> -1 \<and>
     set (queue s @ web_pending s) \<subseteq> insert (9, show_int i) (forwards st) \<and>
     deletes (queue s @ web_pending s) \<le> 1 \<and>
     (0 < deletes (queue s @ web_pending s) \<longrightarrow> threadPool (web_of (ctrl s)) i = Some Live) \<and>
     (\<exists>cmds. wire (line_of (ctrl s)) = concat (map frame cmds) \<and> set cmds \<subseteq> snd ` forwards st)"

lemma sys_inv_push:
  assumes "sys_inv st i s" and "room s" and "m \<in> forwards st" and "fst m \<noteq> 9"
  shows "sys_inv st i (push m (s\<lparr>time_now := t\<rparr>))" "sys_inv st i (push m s)"
  using assms by (auto simp: sys_inv_def push_def room_def)

lemma forwards_not_9: "m \<in> forwards st \<Longrightarrow> fst m \<noteq> 9"
  by (auto simp: forwards_def feed_message_def settings_message_def)

lemma sys_inv_handle:
  assumes inv: "sys_inv st i s" and q: "queue s = m # q" and ok: "fault s = None"
    and am: "-99 \<le> foodAmount st" "foodAmount st \<le> 999" and i: "0 \<le> i" "i \<le> 2147483647"
    and put: "takes_all put"
  shows "\<exists>c. dispatchCommand put (queue s, ctrl s) = Some (Inr (q, c)) \<and>
    sys_inv st i (s\<lparr>queue := q, ctrl := c\<rparr>)"
proof -
  let ?c = "(ctrl s)\<lparr>cur_id := fst m\<rparr>"
  have up: "uart0_filestream (line_of ?c) \<noteq> -1" using inv by (simp add: sys_inv_def)
  obtain cmds where w: "wire (line_of (ctrl s)) = concat (map frame cmds)" "set cmds \<subseteq> snd ` forwards st"
    using inv by (auto simp: sys_inv_def)
  from inv q consider "m \<in> forwards st" | "m = (9, show_int i)" by (auto simp: sys_inv_def)
  then show ?thesis
  proof cases
    case 1
    note h = handle_forward [OF 1 am put up]
    have "\<exists>cmds. wire (line_of (transmitted (snd m) ?c)) = concat (map frame cmds) \<and> set cmds \<subseteq> snd ` forwards st"
      using w 1 by (intro exI [of _ "cmds @ [snd m]"]) auto
    then have "sys_inv st i (s\<lparr>queue := q, ctrl := transmitted (snd m) ?c\<rparr>)"
      using inv q h ok by (auto simp: sys_inv_def)
    then show ?thesis using h q by (auto simp: dispatchCommand_def)
  next
    case 2
    have live: "threadPool (web_of ?c) i = Some Live" using inv q 2 by (auto simp: sys_inv_def)
    let ?w = "(web_of ?c)\<lparr>threadPool := (threadPool (web_of ?c))(i \<mapsto> Freed)\<rparr>"
    have d: "deleteThread i (web_of ?c) = Inr ?w"
      using live by (auto simp: deleteThread_def)
    have h: "handleCommand put m ?c = Inr (?c\<lparr>web_of := ?w\<rparr>)"
      unfolding 2 handleCommand_delete [OF i] using d 2 by simp
    have z: "deletes (q @ web_pending s) = 0" using inv q 2 by (simp add: sys_inv_def)
    then have "sys_inv st i (s\<lparr>queue := q, ctrl := ?c\<lparr>web_of := ?w\<rparr>\<rparr>)"
      using inv q w ok by (auto simp: sys_inv_def)
    then show ?thesis using h q by (auto simp: dispatchCommand_def)
  qed
qed

lemma sys_inv_step:
  assumes inv: "sys_inv st i s" and step: "sys_step put s s'"
    and am: "-99 \<le> foodAmount st" "foodAmount st \<le> 999" and i: "0 \<le> i" "i \<le> 2147483647"
    and put: "takes_all put"
  shows "sys_inv st i s'"
  using step
proof cases
  case (idle_poll lag t)
  then show ?thesis using inv by (simp add: sys_inv_def)
next
  case (feed_poll lag t m)
  then have "m = feed_message st" using inv by (auto simp: time_poll_def sys_inv_def split: if_splits)
  then have "m \<in> forwards st" by (simp add: forwards_def)
  then show ?thesis using feed_poll inv sys_inv_push(1) forwards_not_9 by metis
next
  case (settings msk)
  have "settings_message \<in> forwards st" by (simp add: forwards_def)
  then show ?thesis using settings inv sys_inv_push(2) forwards_not_9 by metis
next
  case (web m ms)
  then show ?thesis using inv by (auto simp: sys_inv_def push_def room_def)
next
  case web_end
  then show ?thesis using inv by (auto simp: sys_inv_def thread_end_def)
next
  case (dispatch q c)
  then obtain m q' where "queue s = m # q'" by (cases "queue s") (auto simp: dispatchCommand_def)
  from sys_inv_handle [OF inv this _ am i put] dispatch show ?thesis by auto
next
  case (crash f)
  then obtain m q' where "queue s = m # q'" by (cases "queue s") (auto simp: dispatchCommand_def)
  from sys_inv_handle [OF inv this _ am i put] crash show ?thesis by auto
qed

lemma sys_reach_inv:
  assumes "sys_reach put s0 s" and "sys_inv st i s0"
    and "-99 \<le> foodAmount st" "foodAmount st \<le> 999" and "0 \<le> i" "i \<le> 2147483647" and "takes_all put"
  shows "sys_inv st i s"
  using assms by (induction rule: sys_reach.induct) (auto intro: sys_inv_step)

text \<open>The threads are never all blocked: a full queue can be served, any other one filled.\<close>

lemma sys_step_possible:
  assumes "fault s = None"
  shows "\<exists>s'. sys_step put s s'"
proof (cases "queue s")
  case Nil
  obtain t ms where p: "time_poll (cs s) 0 (time_now s) = (t, ms)" "ms = [] \<or> (\<exists>m. ms = [m])"
    by (cases "isFeedingTime (cs s) (time_now s)") (simp_all add: time_poll_def)
  have "room s" using Nil by (simp add: room_def)
  from p(2) show ?thesis
  proof
    assume "ms = []"
    with idle_poll [OF assms, of 0 t] p(1) show ?thesis by auto
  next
    assume "\<exists>m. ms = [m]"
    with feed_poll [OF assms, of 0 t] p(1) \<open>room s\<close> show ?thesis by auto
  qed
next
  case (Cons m q)
  then obtain r where r: "dispatchCommand put (queue s, ctrl s) = Some r" by (simp add: dispatchCommand_def)
  show ?thesis
  proof (cases r)
    case (Inl f)
    with crash [OF assms] r show ?thesis by blast
  next
    case (Inr p)
    with dispatch [OF assms, of put "fst p" "snd p"] r show ?thesis by auto
  qed
qed

lemma system_start_inv:
  assumes "messages es = [(3, r), (9, show_int (web_id (web_of c) + 1))]" and "r = ''TA'' \<or> r = ''TD''"
    and "uart0_filestream (line_of c) \<noteq> -1" and "wire (line_of c) = []"
  shows "sys_inv st (web_id (web_of c) + 1) (system_start st t c es)"
proof -
  have "\<exists>cmds. wire (line_of (ctrl (system_start st t c es))) = concat (map frame cmds) \<and>
      set cmds \<subseteq> snd ` forwards st"
    using assms(4) by (intro exI [of _ "[]"]) (simp add: system_start_def getTreatRequestAnswer_def)
  then show ?thesis
    using assms
    by (auto simp: sys_inv_def system_start_def getTreatRequestAnswer_def createWebCommListenerThread_def
        Let_def forwards_def)
qed

section \<open>Property of the whole feeder\<close>

text \<open>
  C2: the feeder while the server answers its treat request. With a feeding amount of at most
  three characters and an open serial line, the only fault that any interleaving of the timer,
  the settings thread, the web listener and the dispatcher can reach is the one at the end of
  the listener's thread, whose object the controller has deleted on the listener's own request;
  the queue never holds more than ten messages; what was sent to the micro controller is always
  a sequence of whole frames of known commands; and without that fault some thread can go on.
\<close>

theorem feeder_runs:
  assumes "sys_reach put (system_start st t c es) s"
    and "webListener_run ask (web_id (web_of c) + 1) = Some es" and "ask 0 = Some a" and "a \<noteq> UNDEF"
    and "\<not> prefix [CHR 0x01] a"
    and "-99 \<le> foodAmount st" and "foodAmount st \<le> 999" and "takes_all put"
    and "uart0_filestream (line_of c) \<noteq> -1" and "wire (line_of c) = []"
    and "0 \<le> web_id (web_of c)" and "web_id (web_of c) < 2147483647"
  shows "(fault s = None \<or> fault s = Some UseAfterFree \<and>
       threadPool (web_of (ctrl s)) (web_id (web_of c) + 1) = Some Freed) \<and>
    length (queue s) \<le> 10 \<and>
    (\<exists>cmds. wire (line_of (ctrl s)) = concat (map frame cmds) \<and>
       set cmds \<subseteq> {''F'' @ show_int (foodAmount st), ''TEST'', ''TA'', ''TD''}) \<and>
    (fault s = None \<longrightarrow> (\<exists>s'. sys_step put s s'))"
proof -
  let ?i = "web_id (web_of c) + 1"
  have "es = handleResponse ?i a @ [Sleep 10000]"
    using listener_answer [of 0 ask a ?i] assms(2-5) by (simp add: undef_rounds_def)
  then have "messages es = [(3, if prefix ''allow'' a then ''TD'' else ''TA''), (9, show_int ?i)]"
    by (simp add: messages_handleResponse del: show_int_nat)
  then have "sys_inv st ?i (system_start st t c es)"
    using assms(9,10) by (intro system_start_inv) auto
  from sys_reach_inv [OF assms(1) this assms(6,7) _ _ assms(8)] assms(11,12)
  have inv: "sys_inv st ?i s" by simp
  then show ?thesis
    using sys_step_possible [of s put] unfolding sys_inv_def
    by (auto simp: forwards_def feed_message_def settings_message_def)
qed

text \<open>
  A run to the fault: the listener sends its reply and the request to delete it, the controller
  dispatches both, and then the listener ends.
\<close>

theorem feeder_runs_witness:
  "\<exists>es s. webListener_run (\<lambda>_. Some (''deny'' @ [LF])) 1 = Some es \<and>
     sys_reach (\<lambda>s. int (length s)) (system_start currentSetting 0 line_up es) s \<and>
     fault s = Some UseAfterFree \<and> wire (line_of (ctrl s)) = ''STAE'' \<and> length (queue s) \<le> 10"
proof -
  let ?put = "\<lambda>s::string. int (length s)" and ?w = "\<lambda>s. web_of (ctrl s)"
  have p: "takes_all ?put" "uart0_filestream (line_of line_up) \<noteq> -1"
    "web_id (web_of line_up) = 0" "wire (line_of line_up) = []"
    by (simp_all add: takes_all_def line_up_def psoc_start_def initializeUART_def controller_start_def
        webcomm_start_def uart_start_def)
  obtain es where es: "webListener_run (\<lambda>_. Some (''deny'' @ [LF])) 1 = Some es"
    "messages es = [(3, ''TA''), (9, show_int 1)]"
    using listener_answer [of 0 "\<lambda>_. Some (''deny'' @ [LF])" "''deny'' @ [LF]" 1]
    by (auto simp: UNDEF_def undef_rounds_def messages_handleResponse simp del: show_int_nat)
  let ?s0 = "system_start currentSetting 0 line_up es"
  let ?s1 = "push (3, ''TA'') (?s0\<lparr>web_pending := [(9, show_int 1)]\<rparr>)"
  let ?s2 = "push (9, show_int 1) (?s1\<lparr>web_pending := []\<rparr>)"
  let ?c = "transmitted ''TA'' ((ctrl ?s2)\<lparr>cur_id := 3\<rparr>)"
  let ?s3 = "?s2\<lparr>queue := [(9, show_int 1)], ctrl := ?c\<rparr>"
  let ?d = "?c\<lparr>cur_id := 9, web_of := (web_of ?c)\<lparr>threadPool := (threadPool (web_of ?c))(1 \<mapsto> Freed)\<rparr>\<rparr>"
  let ?s4 = "?s3\<lparr>queue := [], ctrl := ?d\<rparr>"
  let ?s5 = "?s4\<lparr>web_ended := True, fault := thread_end (web_of (ctrl ?s4))\<rparr>"
  note unf = push_def system_start_def getTreatRequestAnswer_def
  have s1: "sys_step ?put ?s0 ?s1"
    using es(2) by (intro sys_step.web) (simp_all add: system_start_def room_def)
  have s2: "sys_step ?put ?s1 ?s2"
    by (intro sys_step.web) (simp_all add: system_start_def room_def push_def)
  have "handleCommand ?put (3, ''TA'') ((ctrl ?s2)\<lparr>cur_id := 3\<rparr>) = Inr ?c"
    using p(1,2) by (intro handle_reply) (simp_all add: unf)
  then have s3: "sys_step ?put ?s2 ?s3"
    by (intro sys_step.dispatch) (simp_all add: push_def system_start_def dispatchCommand_def)
  have "deleteThread 1 (web_of ?c) = Inr (web_of ?d)"
    using p(3) by (simp add: unf deleteThread_def createWebCommListenerThread_def Let_def)
  then have "handleCommand ?put (9, show_int 1) (?c\<lparr>cur_id := 9\<rparr>) = Inr ?d"
    by (subst handleCommand_delete) simp_all
  then have s4: "sys_step ?put ?s3 ?s4"
    by (intro sys_step.dispatch) (simp_all add: push_def system_start_def dispatchCommand_def del: show_int_nat)
  have s5: "sys_step ?put ?s4 ?s5"
    by (intro sys_step.web_end) (simp_all add: push_def system_start_def)
  have r: "sys_reach ?put ?s0 ?s5"
    by (rule sys_more [OF sys_more [OF sys_more [OF sys_more [OF sys_more [OF sys_refl s1] s2] s3] s4] s5])
  have "length (queue ?s5) \<le> 10"
    using feeder_runs [OF r, of "\<lambda>_. Some (''deny'' @ [LF])" "''deny'' @ [LF]"] es(1) p
    by (simp add: UNDEF_def currentSetting_def)
  moreover have "fault ?s5 = Some UseAfterFree"
    using p(3) by (simp add: thread_end_def unf createWebCommListenerThread_def Let_def)
  moreover have "wire (line_of (ctrl ?s5)) = ''STAE''"
    using p(4) by (simp add: unf frame_def)
  ultimately show ?thesis using es(1) r by blast
qed

end
