(* ===== verification/SrvRegistry.thy ===== *)
theory SrvRegistry
  imports FgPrelude
begin

text \<open>
  The registry of the server, \<open>m_registry\<close> of \<open>FgHandler\<close>: a \<open>std::map\<close> from connection
  numbers to the data of the connected mobile app. The locale \<open>ordered_map\<close> is what the
  handlers rely on: what \<open>find\<close> returns after each operation, and that a range-based loop
  visits every entry once, in the order of the keys. The model of the map is the list of its
  entries in that order.
\<close>

section \<open>The interface\<close>

locale ordered_map =
  fixes find :: "'k::linorder \<Rightarrow> 'm \<Rightarrow> 'v option"
    and emplace :: "'k \<Rightarrow> 'v \<Rightarrow> 'm \<Rightarrow> 'm"
    and erase :: "'k \<Rightarrow> 'm \<Rightarrow> 'm"
    and assign :: "'k \<Rightarrow> 'v \<Rightarrow> 'm \<Rightarrow> 'm"
    and entries :: "'m \<Rightarrow> ('k \<times> 'v) list"
    and ok :: "'m \<Rightarrow> bool"
  assumes ok_emplace: "ok m \<Longrightarrow> ok (emplace k v m)"
    and ok_erase: "ok m \<Longrightarrow> ok (erase k m)"
    and ok_assign: "ok m \<Longrightarrow> ok (assign k v m)"
    and find_emplace: "ok m \<Longrightarrow> find k' (emplace k v m) =
      (if k' = k then (case find k m of None \<Rightarrow> Some v | Some w \<Rightarrow> Some w) else find k' m)"
    and find_erase: "ok m \<Longrightarrow> find k' (erase k m) = (if k' = k then None else find k' m)"
    and find_assign: "ok m \<Longrightarrow> find k' (assign k v m) =
      (if k' = k \<and> find k m \<noteq> None then Some v else find k' m)"
    and sorted_entries: "ok m \<Longrightarrow> sorted (map fst (entries m)) \<and> distinct (map fst (entries m))"
    and find_entries: "ok m \<Longrightarrow> find k m = map_of (entries m) k"
begin

lemma entry_iff: "ok m \<Longrightarrow> (k, v) \<in> set (entries m) \<longleftrightarrow> find k m = Some v"
  using sorted_entries [of m] by (simp add: find_entries)

text \<open>What a loop that stops at the first entry with a property finds: the one with the least key.\<close>

lemma first_entry:
  assumes "ok m" and "List.find (\<lambda>e. P (snd e)) (entries m) = Some (k, v)"
  shows "find k m = Some v" and "P v" and "\<And>k' v'. find k' m = Some v' \<Longrightarrow> P v' \<Longrightarrow> k \<le> k'"
proof -
  from assms(2) obtain i where i: "i < length (entries m)" "entries m ! i = (k, v)" "P v"
    "\<forall>j<i. \<not> P (snd (entries m ! j))"
    unfolding find_Some_iff by (metis snd_conv)
  then show "find k m = Some v" "P v" using entry_iff [OF assms(1)] by (metis nth_mem)+
  fix k' v' assume k': "find k' m = Some v'" "P v'"
  then obtain j where j: "j < length (entries m)" "entries m ! j = (k', v')"
    using entry_iff [OF assms(1)] by (metis in_set_conv_nth)
  with i(4) k'(2) have "i \<le> j" by (metis not_le snd_conv)
  then have "map fst (entries m) ! i \<le> map fst (entries m) ! j"
    using sorted_entries [OF assms(1)] j(1) by (intro sorted_nth_mono) simp_all
  then show "k \<le> k'" using i j by simp
qed

lemma first_entry_least:
  assumes "ok m" and "find k m = Some v" and "P v" and "\<And>k' v'. k' < k \<Longrightarrow> find k' m = Some v' \<Longrightarrow> \<not> P v'"
  shows "List.find (\<lambda>e. P (snd e)) (entries m) = Some (k, v)"
proof (cases "List.find (\<lambda>e. P (snd e)) (entries m)")
  case None
  then show ?thesis using entry_iff [OF assms(1)] assms(2,3) by (fastforce simp: find_None_iff)
next
  case (Some e)
  obtain k' v' where e: "e = (k', v')" by (cases e)
  note f = first_entry [OF assms(1) Some [unfolded e]]
  have "k' \<le> k" using f(3) assms(2,3) by blast
  moreover have "\<not> k' < k" using assms(4) f(1,2) by blast
  ultimately have "k' = k" by simp
  then show ?thesis using Some e f(1) assms(2) by simp
qed

lemma no_entry:
  assumes "ok m" and "\<And>k v. find k m = Some v \<Longrightarrow> \<not> P v"
  shows "filter (\<lambda>e. P (snd e)) (entries m) = []" "List.find (\<lambda>e. P (snd e)) (entries m) = None"
  using entry_iff [OF assms(1)] assms(2) by (auto simp: filter_empty_conv find_None_iff)

end

section \<open>The map\<close>

type_synonym ('k, 'v) registry = "('k \<times> 'v) list"

definition reg_find :: "'k \<Rightarrow> ('k, 'v) registry \<Rightarrow> 'v option" where
  "reg_find k m = map_of m k"

fun reg_emplace :: "'k::linorder \<Rightarrow> 'v \<Rightarrow> ('k, 'v) registry \<Rightarrow> ('k, 'v) registry" where
  "reg_emplace k v [] = [(k, v)]"
| "reg_emplace k v (e # m) =
     (if k < fst e then (k, v) # e # m else if k = fst e then e # m else e # reg_emplace k v m)"

definition reg_erase :: "'k \<Rightarrow> ('k, 'v) registry \<Rightarrow> ('k, 'v) registry" where
  "reg_erase k m = filter (\<lambda>e. fst e \<noteq> k) m"

definition reg_assign :: "'k \<Rightarrow> 'v \<Rightarrow> ('k, 'v) registry \<Rightarrow> ('k, 'v) registry" where
  "reg_assign k v m = map (\<lambda>e. if fst e = k then (k, v) else e) m"

definition reg_ok :: "('k::linorder, 'v) registry \<Rightarrow> bool" where
  "reg_ok m \<longleftrightarrow> sorted (map fst m) \<and> distinct (map fst m)"

lemma reg_ok_Nil [simp]: "reg_ok []"
  by (simp add: reg_ok_def)

lemma reg_ok_Cons: "reg_ok (e # m) \<longleftrightarrow> reg_ok m \<and> (\<forall>x \<in> set m. fst e < fst x)"
  by (auto simp: reg_ok_def order.strict_iff_order)

lemma set_reg_emplace: "set (reg_emplace k v m) \<subseteq> insert (k, v) (set m)"
  by (induction m) auto

lemma reg_ok_emplace: "reg_ok m \<Longrightarrow> reg_ok (reg_emplace k v m)"
proof (induction m)
  case (Cons e m)
  have "fst e < fst x" if "fst e < k" "x \<in> set (reg_emplace k v m)" for x
    using that Cons.prems set_reg_emplace [of k v m] by (auto simp: reg_ok_Cons)
  then show ?case using Cons by (auto simp: reg_ok_Cons not_less_iff_gr_or_eq)
qed (simp add: reg_ok_Cons)

lemma reg_find_emplace:
  "reg_ok m \<Longrightarrow> reg_find k' (reg_emplace k v m) =
    (if k' = k then (case reg_find k m of None \<Rightarrow> Some v | Some w \<Rightarrow> Some w) else reg_find k' m)"
proof (induction m)
  case (Cons e m)
  have "map_of m k = None" if "k < fst e"
    using that Cons.prems by (force simp: reg_ok_Cons map_of_eq_None_iff)
  then show ?case using Cons by (auto simp: reg_find_def reg_ok_Cons split: option.splits)
qed (simp add: reg_find_def)

interpretation reg: ordered_map reg_find reg_emplace reg_erase reg_assign "\<lambda>m. m" reg_ok
proof unfold_locales
  fix m :: "('k::linorder, 'v) registry" and k k' :: 'k and v :: 'v
  assume ok: "reg_ok m"
  show "reg_ok (reg_emplace k v m)" using ok by (rule reg_ok_emplace)
  show "reg_ok (reg_erase k m)"
    using ok by (induction m) (auto simp: reg_erase_def reg_ok_Cons)
  show "reg_ok (reg_assign k v m)"
    using ok by (induction m) (auto simp: reg_assign_def reg_ok_Cons)
  show "reg_find k' (reg_emplace k v m) =
      (if k' = k then (case reg_find k m of None \<Rightarrow> Some v | Some w \<Rightarrow> Some w) else reg_find k' m)"
    using ok by (rule reg_find_emplace)
  show "reg_find k' (reg_erase k m) = (if k' = k then None else reg_find k' m)"
    by (induction m) (auto simp: reg_erase_def reg_find_def)
  show "reg_find k' (reg_assign k v m) = (if k' = k \<and> reg_find k m \<noteq> None then Some v else reg_find k' m)"
    by (induction m) (auto simp: reg_assign_def reg_find_def)
  show "sorted (map fst m) \<and> distinct (map fst m)" using ok by (simp add: reg_ok_def)
  show "reg_find k m = map_of m k" by (simp add: reg_find_def)
qed

end
