(* ===== verification/SrvPercent.thy ===== *)
theory SrvPercent
  imports FgPrelude
begin

unbundle bit_operations_syntax

text \<open>
  Percent decoding as the server applies it to the device number in a request path: the UTF-8
  checker (\<open>restinio/utils/utf8_checker.hpp\<close>) and \<open>unescape_percent_encoding\<close>
  (\<open>restinio/utils/percent_encoding.hpp\<close>), on bytes as 8-bit words.
\<close>

section \<open>The UTF-8 checker\<close>

datatype state_t = valid | invalid | may_be_overlong | overlong

record utf8_checker =
  m_current_symbol :: "32 word"
  m_current_symbol_rest_bytes :: nat
  m_state :: state_t

definition utf8_start :: utf8_checker where
  "utf8_start = \<lparr>m_current_symbol = 0, m_current_symbol_rest_bytes = 0, m_state = valid\<rparr>"

definition check_overlong :: "8 word \<Rightarrow> utf8_checker \<Rightarrow> utf8_checker" where
  "check_overlong b u =
     (if m_current_symbol_rest_bytes u > 0 \<and> m_state u = may_be_overlong then
        (if m_current_symbol_rest_bytes u = 2 \<and> b AND 0xE0 = 0x80 then u\<lparr>m_state := overlong\<rparr>
         else if m_current_symbol_rest_bytes u = 3 \<and> b AND 0xF0 = 0x80 then u\<lparr>m_state := overlong\<rparr>
         else if m_current_symbol_rest_bytes u = 4 \<and> b AND 0xF8 = 0x80 then u\<lparr>m_state := overlong\<rparr>
         else if m_current_symbol_rest_bytes u = 5 \<and> b AND 0xFC = 0x80 then u\<lparr>m_state := overlong\<rparr>
         else u\<lparr>m_state := valid\<rparr>)
      else
        (let u = (if b = 0xC0 \<or> b = 0xC1 then u\<lparr>m_state := overlong\<rparr>
                  else if b = 0xE0 then u\<lparr>m_state := may_be_overlong\<rparr>
                  else if b = 0xF0 then u\<lparr>m_state := may_be_overlong\<rparr> else u);
             u = (if b = 0xF8 then u\<lparr>m_state := may_be_overlong\<rparr> else u)
         in if b = 0xFC then u\<lparr>m_state := may_be_overlong\<rparr> else u))"

definition validate_current_symbol :: "utf8_checker \<Rightarrow> utf8_checker" where
  "validate_current_symbol u =
     (if (m_current_symbol u \<ge> 0xD800 \<and> m_current_symbol u \<le> 0xDFFF) \<or> m_current_symbol u \<ge> 0x110000
      then u\<lparr>m_state := invalid\<rparr> else u)"

definition process_byte :: "8 word \<Rightarrow> utf8_checker \<Rightarrow> bool \<times> utf8_checker" where
  "process_byte b u0 =
     (let u = check_overlong b u0;
          u = (if m_current_symbol_rest_bytes u > 0 then
                 (if b AND 0xC0 = 0x80 then
                    let u = u\<lparr>m_current_symbol := push_bit 6 (m_current_symbol u) OR ucast (b AND 0x3F),
                              m_current_symbol_rest_bytes := m_current_symbol_rest_bytes u - 1\<rparr>
                    in if m_current_symbol_rest_bytes u = 0 then validate_current_symbol u else u
                  else u\<lparr>m_state := invalid\<rparr>)
               else if b AND 0x80 = 0x00 then
                 u\<lparr>m_current_symbol := ucast b, m_current_symbol_rest_bytes := 0\<rparr>
               else if b AND 0xE0 = 0xC0 then
                 u\<lparr>m_current_symbol := ucast (b AND 0x1F), m_current_symbol_rest_bytes := 1\<rparr>
               else if b AND 0xF0 = 0xE0 then
                 u\<lparr>m_current_symbol := ucast (b AND 0xF), m_current_symbol_rest_bytes := 2\<rparr>
               else if b AND 0xF8 = 0xF0 then
                 u\<lparr>m_current_symbol := ucast (b AND 0x7), m_current_symbol_rest_bytes := 3\<rparr>
               else if b AND 0xFC = 0xF8 then
                 u\<lparr>m_current_symbol := ucast (b AND 0x3), m_current_symbol_rest_bytes := 4\<rparr>
               else if b AND 0xFE = 0xFC then
                 u\<lparr>m_current_symbol := ucast (b AND 0x1), m_current_symbol_rest_bytes := 5\<rparr>
               else u\<lparr>m_state := invalid, m_current_symbol := ucast b\<rparr>)
      in (m_state u = valid \<or> m_state u = may_be_overlong, u))"

definition finalized :: "utf8_checker \<Rightarrow> bool" where
  "finalized u \<longleftrightarrow> m_current_symbol_rest_bytes u = 0"

definition reset :: "utf8_checker \<Rightarrow> utf8_checker" where
  "reset u = u\<lparr>m_current_symbol := 0, m_current_symbol_rest_bytes := 0\<rparr>"

section \<open>Percent decoding\<close>

text \<open>\<open>restinio_default_unescape_traits::ordinary_char\<close>.\<close>

definition ordinary_char :: "char \<Rightarrow> bool" where
  "ordinary_char c \<longleftrightarrow>
     (CHR ''0'' \<le> c \<and> c \<le> CHR ''9'') \<or> (CHR ''a'' \<le> c \<and> c \<le> CHR ''z'') \<or>
     (CHR ''A'' \<le> c \<and> c \<le> CHR ''Z'') \<or>
     c = CHR ''-'' \<or> c = CHR ''.'' \<or> c = CHR ''~'' \<or> c = CHR ''_''"

definition is_hexdigit :: "char \<Rightarrow> bool" where
  "is_hexdigit c \<longleftrightarrow>
     (CHR ''0'' \<le> c \<and> c \<le> CHR ''9'') \<or> (CHR ''a'' \<le> c \<and> c \<le> CHR ''f'') \<or>
     (CHR ''A'' \<le> c \<and> c \<le> CHR ''F'')"

abbreviation octet :: "char \<Rightarrow> 8 word" where
  "octet c \<equiv> of_char c"

definition hex_nibble :: "char \<Rightarrow> 8 word" where
  "hex_nibble c =
     (if CHR ''0'' \<le> c \<and> c \<le> CHR ''9'' then octet c - octet CHR ''0''
      else 10 + (octet c OR 0x20) - octet CHR ''a'')"

definition extract_escaped_char :: "char \<Rightarrow> char \<Rightarrow> 8 word" where
  "extract_escaped_char c1 c2 = push_bit 4 (hex_nibble c1) + hex_nibble c2"

text \<open>The failures, with the position that their description names.\<close>

datatype pct_failure =
    next_byte_expected nat
  | invalid_utf8 nat
  | invalid_escape nat
  | invalid_char char nat
  | unfinished_utf8

text \<open>
  The loop of \<open>do_unescape_percent_encoding\<close>; \<open>pos\<close> is \<open>current_pos()\<close>, \<open>e\<close> is
  \<open>expect_next_utf8_byte\<close>, and \<open>acc\<close> what the collector has. \<open>ordinary\<close> are the traits.
\<close>

fun unescape_loop ::
    "(char \<Rightarrow> bool) \<Rightarrow> nat \<Rightarrow> utf8_checker \<Rightarrow> bool \<Rightarrow> 8 word list \<Rightarrow> string \<Rightarrow> pct_failure + 8 word list" where
  "unescape_loop ordinary pos u e acc [] = (if e then Inl unfinished_utf8 else Inr acc)"
| "unescape_loop ordinary pos u e acc (c # d) =
     (if e \<and> c \<noteq> CHR ''%'' then Inl (next_byte_expected pos)
      else if c = CHR ''%'' then
        (case d of
           c1 # c2 # d' \<Rightarrow>
             if is_hexdigit c1 \<and> is_hexdigit c2 then
               (let ch = extract_escaped_char c1 c2; r = process_byte ch u
                in if \<not> fst r then Inl (invalid_utf8 pos)
                   else let e' = (\<not> finalized (snd r))
                        in unescape_loop ordinary (pos + 3) (if e' then snd r else reset (snd r)) e' (acc @ [ch]) d')
             else Inl (invalid_escape pos)
         | _ \<Rightarrow> Inl (invalid_escape pos))
      else if c = CHR ''+'' then unescape_loop ordinary (pos + 1) u e (acc @ [octet CHR '' '']) d
      else if ordinary c then unescape_loop ordinary (pos + 1) u e (acc @ [octet c]) d
      else Inl (invalid_char c pos))"

definition chars_of :: "8 word list \<Rightarrow> string" where
  "chars_of = map (\<lambda>w. char_of (unat w))"

definition unescape_percent_encoding :: "string \<Rightarrow> pct_failure + string" where
  "unescape_percent_encoding d = rbind (unescape_loop ordinary_char 0 utf8_start False [] d) (\<lambda>ws. Inr (chars_of ws))"

section \<open>UTF-8, from RFC 3629\<close>

definition code_point :: "nat \<Rightarrow> bool" where
  "code_point n \<longleftrightarrow> n < 0x110000 \<and> (n < 0xD800 \<or> 0xDFFF < n)"

definition utf8_encode :: "nat \<Rightarrow> nat list" where
  "utf8_encode n =
     (if n < 0x80 then [n]
      else if n < 0x800 then [0xC0 + n div 64, 0x80 + n mod 64]
      else if n < 0x10000 then [0xE0 + n div 4096, 0x80 + n div 64 mod 64, 0x80 + n mod 64]
      else [0xF0 + n div 262144, 0x80 + n div 4096 mod 64, 0x80 + n div 64 mod 64, 0x80 + n mod 64])"

text \<open>A byte as a percent escape.\<close>

definition hex_upper :: "nat \<Rightarrow> char" where
  "hex_upper d = (if d < 10 then char_of (48 + d) else char_of (55 + d))"

definition pct_byte :: "nat \<Rightarrow> string" where
  "pct_byte b = [CHR ''%'', hex_upper (b div 16), hex_upper (b mod 16)]"

section \<open>Lemmas\<close>

text \<open>The masks of the checker as ranges.\<close>

lemma and_high:
  fixes w :: "8 word"
  assumes "n \<le> 8"
  shows "unat (w AND push_bit n (mask (8 - n))) = unat w div 2 ^ n * 2 ^ n"
proof -
  have "w AND push_bit n (mask (8 - n)) = push_bit n (drop_bit n w)"
    using assms by (intro bit_word_eqI) (auto simp: bit_simps)
  also have "unat \<dots> = unat w div 2 ^ n * 2 ^ n"
  proof -
    have "unat w < 2 ^ LENGTH(8)" by (rule unsigned_less)
    then have lt: "unat w < 256" by simp
    have "unat w div 2 ^ n * 2 ^ n \<le> unat w" by simp
    with lt have small: "unat w div 2 ^ n * 2 ^ n < 256" by (rule le_less_trans [rotated])
    have "unat (push_bit n (drop_bit n w)) = take_bit 8 (push_bit n (drop_bit n (take_bit 8 (unat w))))"
      by (simp only: unsigned_push_bit_eq unsigned_drop_bit_eq) simp
    also have "\<dots> = unat w div 2 ^ n * 2 ^ n"
      using small lt
      by (simp add: push_bit_eq_mult drop_bit_eq_div take_bit_eq_mod)
    finally show ?thesis .
  qed
  finally show ?thesis .
qed

text \<open>\<open>b AND m = v\<close> for a mask \<open>m\<close> that keeps the upper bits: a range of byte values.\<close>

lemma mask_range:
  fixes b :: "8 word"
  assumes "n \<le> 8" and "m = push_bit n (mask (8 - n))" and "unat v = k * 2 ^ n"
  shows "b AND m = v \<longleftrightarrow> k * 2 ^ n \<le> unat b \<and> unat b < k * 2 ^ n + 2 ^ n"
proof -
  have "b AND m = v \<longleftrightarrow> unat b div 2 ^ n * 2 ^ n = k * 2 ^ n"
    using and_high [OF assms(1), of b] assms(2,3) by (metis unsigned_word_eqI)
  also have "\<dots> \<longleftrightarrow> unat b div 2 ^ n = k" by simp
  also have "\<dots> \<longleftrightarrow> k * 2 ^ n \<le> unat b \<and> unat b < k * 2 ^ n + 2 ^ n"
  proof
    assume "unat b div 2 ^ n = k"
    then show "k * 2 ^ n \<le> unat b \<and> unat b < k * 2 ^ n + 2 ^ n"
      by (metis add.commute div_mult_mod_eq le_add1 mod_less_divisor nat_add_left_cancel_less zero_less_numeral zero_less_power)
  next
    assume "k * 2 ^ n \<le> unat b \<and> unat b < k * 2 ^ n + 2 ^ n"
    then show "unat b div 2 ^ n = k" by (intro div_nat_eqI) (simp_all add: algebra_simps)
  qed
  finally show ?thesis .
qed

lemma byte_masks [simp]:
  fixes b :: "8 word"
  shows "b AND 0xC0 = 0x80 \<longleftrightarrow> 128 \<le> unat b \<and> unat b < 192"
    "b AND 0x80 = 0 \<longleftrightarrow> unat b < 128"
    "b AND 0xE0 = 0xC0 \<longleftrightarrow> 192 \<le> unat b \<and> unat b < 224"
    "b AND 0xF0 = 0xE0 \<longleftrightarrow> 224 \<le> unat b \<and> unat b < 240"
    "b AND 0xF8 = 0xF0 \<longleftrightarrow> 240 \<le> unat b \<and> unat b < 248"
    "b AND 0xFC = 0xF8 \<longleftrightarrow> 248 \<le> unat b \<and> unat b < 252"
    "b AND 0xFE = 0xFC \<longleftrightarrow> 252 \<le> unat b \<and> unat b < 254"
    "b AND 0xE0 = 0x80 \<longleftrightarrow> 128 \<le> unat b \<and> unat b < 160"
    "b AND 0xF0 = 0x80 \<longleftrightarrow> 128 \<le> unat b \<and> unat b < 144"
  using mask_range [of 6 "0xC0" "0x80" 2 b] mask_range [of 7 "0x80" 0 0 b] mask_range [of 5 "0xE0" "0xC0" 6 b]
    mask_range [of 4 "0xF0" "0xE0" 14 b] mask_range [of 3 "0xF8" "0xF0" 30 b] mask_range [of 2 "0xFC" "0xF8" 62 b]
    mask_range [of 1 "0xFE" "0xFC" 126 b] mask_range [of 5 "0xE0" "0x80" 4 b] mask_range [of 4 "0xF0" "0x80" 8 b]
  by (simp_all add: mask_eq_exp_minus_1 push_bit_eq_mult)

lemma unat_low:
  fixes b :: "8 word"
  shows "unat (b AND 0x3F) = unat b mod 64" "unat (b AND 0x1F) = unat b mod 32"
    "unat (b AND 0xF) = unat b mod 16" "unat (b AND 0x7) = unat b mod 8"
proof -
  have m: "unat (b AND mask n) = unat b mod 2 ^ n" if "n \<le> 8" for n
  proof -
    have "unat (b AND mask n) = take_bit n (unat b)"
      by (simp only: take_bit_eq_mask [symmetric] unsigned_take_bit_eq)
    then show ?thesis by (simp add: take_bit_eq_mod)
  qed
  from m [of 6] m [of 5] m [of 4] m [of 3]
  show "unat (b AND 0x3F) = unat b mod 64" "unat (b AND 0x1F) = unat b mod 32"
    "unat (b AND 0xF) = unat b mod 16" "unat (b AND 0x7) = unat b mod 8"
    by (simp_all add: mask_eq_exp_minus_1)
qed

text \<open>Appending six bits to a symbol that has room for them.\<close>

lemma append_six:
  fixes s :: "32 word" and b :: "8 word"
  assumes "unat s < 2 ^ 26"
  shows "unat (push_bit 6 s OR ucast (b AND 0x3F)) = unat s * 64 + unat b mod 64"
proof -
  have m: "(0x3F :: 8 word) = mask 6" by (simp add: mask_eq_exp_minus_1)
  have "ucast (b AND 0x3F) = (take_bit 6 (ucast (b AND 0x3F)) :: 32 word)"
    unfolding m take_bit_eq_mask [symmetric] by (rule bit_word_eqI) (auto simp: bit_simps)
  then have "push_bit 6 s OR ucast (b AND 0x3F) = push_bit 6 s + (ucast (b AND 0x3F) :: 32 word)"
    by (intro disjunctive_add [symmetric]) (metis bit_push_bit_iff bit_take_bit_iff not_le)
  moreover have "unat (push_bit 6 s) = unat s * 64"
  proof -
    have "unat (push_bit 6 s) = take_bit 32 (push_bit 6 (unat s))" by (simp only: unsigned_push_bit_eq) simp
    then show ?thesis using assms by (simp add: push_bit_eq_mult take_bit_eq_mod)
  qed
  moreover have "unat (ucast (b AND 0x3F) :: 32 word) = unat b mod 64"
    by (simp add: unsigned_ucast_eq unat_low take_bit_eq_mod)
  ultimately show ?thesis using assms by (simp add: unat_word_ariths)
qed

text \<open>A checker in the middle of a symbol: its value so far, the bytes missing, its state.\<close>

definition at :: "utf8_checker \<Rightarrow> nat \<Rightarrow> nat \<Rightarrow> state_t \<Rightarrow> bool" where
  "at u v k st \<longleftrightarrow> unat (m_current_symbol u) = v \<and> m_current_symbol_rest_bytes u = k \<and> m_state u = st"

lemma unat_ucast8 [simp]: "unat (ucast (b :: 8 word) :: 32 word) = unat b"
proof -
  have "unat b < 2 ^ LENGTH(8)" by (rule unsigned_less)
  then show ?thesis by (simp add: unsigned_ucast_eq take_bit_eq_mod)
qed

lemma lead_byte:
  assumes "m_current_symbol_rest_bytes u = 0" and "m_state u = valid"
  shows "unat b < 128 \<Longrightarrow> \<exists>v. process_byte b u = (True, v) \<and> at v (unat b) 0 valid"
    and "0xC2 \<le> unat b \<Longrightarrow> unat b < 0xE0 \<Longrightarrow> \<exists>v. process_byte b u = (True, v) \<and> at v (unat b - 0xC0) 1 valid"
    and "0xE0 \<le> unat b \<Longrightarrow> unat b < 0xF0 \<Longrightarrow> \<exists>v. process_byte b u = (True, v) \<and>
       at v (unat b - 0xE0) 2 (if unat b = 0xE0 then may_be_overlong else valid)"
    and "0xF0 \<le> unat b \<Longrightarrow> unat b < 0xF8 \<Longrightarrow> \<exists>v. process_byte b u = (True, v) \<and>
       at v (unat b - 0xF0) 3 (if unat b = 0xF0 then may_be_overlong else valid)"
proof -
  have m: "unat b mod 32 = unat b - 192" if "192 \<le> unat b" "unat b < 224" using that by (simp add: mod_nat_eqI)
  have m': "unat b mod 16 = unat b - 224" if "224 \<le> unat b" "unat b < 240" using that by (simp add: mod_nat_eqI)
  have m'': "unat b mod 8 = unat b - 240" if "240 \<le> unat b" "unat b < 248" using that by (simp add: mod_nat_eqI)
  note defs = process_byte_def check_overlong_def Let_def at_def word_unat_eq_iff [of b] assms unat_low
  show "unat b < 128 \<Longrightarrow> \<exists>v. process_byte b u = (True, v) \<and> at v (unat b) 0 valid"
    by (simp add: defs)
  show "0xC2 \<le> unat b \<Longrightarrow> unat b < 0xE0 \<Longrightarrow> \<exists>v. process_byte b u = (True, v) \<and> at v (unat b - 0xC0) 1 valid"
    using m by (simp add: defs)
  show "0xE0 \<le> unat b \<Longrightarrow> unat b < 0xF0 \<Longrightarrow> \<exists>v. process_byte b u = (True, v) \<and>
       at v (unat b - 0xE0) 2 (if unat b = 0xE0 then may_be_overlong else valid)"
    using m' by (simp add: defs)
  show "0xF0 \<le> unat b \<Longrightarrow> unat b < 0xF8 \<Longrightarrow> \<exists>v. process_byte b u = (True, v) \<and>
       at v (unat b - 0xF0) 3 (if unat b = 0xF0 then may_be_overlong else valid)"
    using m'' by (simp add: defs)
qed

text \<open>A continuation byte that is not the last, and the last one.\<close>

lemma overlong_check:
  assumes "0 < m_current_symbol_rest_bytes u" and "st = valid \<or> st = may_be_overlong" and "m_state u = st"
    and "128 \<le> unat b" and "unat b < 192"
    and "st = may_be_overlong \<Longrightarrow> m_current_symbol_rest_bytes u = 2 \<and> 160 \<le> unat b \<or>
           m_current_symbol_rest_bytes u = 3 \<and> 144 \<le> unat b"
  shows "check_overlong b u = u\<lparr>m_state := valid\<rparr>"
proof (cases "st = valid")
  case True
  have "u\<lparr>m_state := valid\<rparr> = u" using assms(3) True by (cases u) simp
  moreover have "b \<noteq> 0xC0" "b \<noteq> 0xC1" "b \<noteq> 0xE0" "b \<noteq> 0xF0" "b \<noteq> 0xF8" "b \<noteq> 0xFC"
    using assms(5) by (auto simp: word_unat_eq_iff)
  ultimately show ?thesis using assms(3) True by (simp add: check_overlong_def)
next
  case False
  then show ?thesis using assms by (auto simp: check_overlong_def)
qed

lemma next_byte:
  assumes "at u v k st" and "st = valid \<or> st = may_be_overlong" and "128 \<le> unat b" and "unat b < 192"
    and "st = may_be_overlong \<Longrightarrow> k = 2 \<and> 160 \<le> unat b \<or> k = 3 \<and> 144 \<le> unat b" and "v < 2 ^ 20"
  shows "1 < k \<Longrightarrow> \<exists>w. process_byte b u = (True, w) \<and> at w (v * 64 + (unat b - 128)) (k - 1) valid"
    and "k = 1 \<Longrightarrow> code_point (v * 64 + (unat b - 128)) \<Longrightarrow>
      \<exists>w. process_byte b u = (True, w) \<and> at w (v * 64 + (unat b - 128)) 0 valid"
proof -
  have m: "unat b mod 64 = unat b - 128" using assms(3,4) by (simp add: mod_nat_eqI)
  have six: "unat (push_bit 6 (m_current_symbol u) OR ucast (b AND 0x3F)) = v * 64 + (unat b - 128)"
    using append_six [of "m_current_symbol u" b] assms(1,6) m by (simp add: at_def)
  have ov: "0 < k \<Longrightarrow> check_overlong b u = u\<lparr>m_state := valid\<rparr>"
    using assms(1-5) by (intro overlong_check [of u st]) (auto simp: at_def)
  show "1 < k \<Longrightarrow> \<exists>w. process_byte b u = (True, w) \<and> at w (v * 64 + (unat b - 128)) (k - 1) valid"
    using ov six assms(1,3,4) by (simp add: process_byte_def Let_def at_def)
  show "k = 1 \<Longrightarrow> code_point (v * 64 + (unat b - 128)) \<Longrightarrow>
      \<exists>w. process_byte b u = (True, w) \<and> at w (v * 64 + (unat b - 128)) 0 valid"
    using ov six assms(1,3,4)
    by (auto simp: process_byte_def Let_def at_def validate_current_symbol_def code_point_def word_le_nat_alt)
qed

section \<open>Decoding what was encoded\<close>

lemma hex_upper_ok: "d < 16 \<Longrightarrow> is_hexdigit (hex_upper d) \<and> hex_nibble (hex_upper d) = of_nat d"
proof -
  have "list_all (\<lambda>d. is_hexdigit (hex_upper d) \<and> hex_nibble (hex_upper d) = of_nat d) [0..<16]"
    by code_simp
  then show "d < 16 \<Longrightarrow> is_hexdigit (hex_upper d) \<and> hex_nibble (hex_upper d) = of_nat d"
    by (auto simp: list_all_iff)
qed

definition oct8 :: "nat \<Rightarrow> 8 word" where
  "oct8 b = of_nat b"

lemma extract_pct:
  assumes "b < 256"
  shows "extract_escaped_char (hex_upper (b div 16)) (hex_upper (b mod 16)) = oct8 b"
proof -
  have d: "b div 16 < 16" "b mod 16 < 16" using assms by simp_all
  have "(push_bit 4 (of_nat (b div 16)) + of_nat (b mod 16) :: 8 word) = of_nat (b div 16 * 16 + b mod 16)"
    by (simp only: push_bit_eq_mult of_nat_add of_nat_mult) simp
  also have "\<dots> = oct8 b" by (simp only: div_mult_mod_eq oct8_def)
  finally show ?thesis using hex_upper_ok [OF d(1)] hex_upper_ok [OF d(2)] by (simp add: extract_escaped_char_def)
qed

lemma unescape_byte:
  assumes "b < 256" and "process_byte (oct8 b) u = (True, v)"
  shows "unescape_loop ordinary pos u e acc (pct_byte b @ d) =
    unescape_loop ordinary (pos + 3) (if finalized v then reset v else v) (\<not> finalized v) (acc @ [oct8 b]) d"
proof -
  have d: "b div 16 < 16" "b mod 16 < 16" using assms(1) by simp_all
  show ?thesis
    using hex_upper_ok [OF d(1)] hex_upper_ok [OF d(2)] extract_pct [OF assms(1)] assms(2)
    by (simp add: pct_byte_def Let_def)
qed

definition ready :: "utf8_checker \<Rightarrow> bool" where
  "ready u \<longleftrightarrow> m_current_symbol_rest_bytes u = 0 \<and> m_state u = valid"

lemma at_finalized: "at v x k st \<Longrightarrow> finalized v \<longleftrightarrow> k = 0"
  by (auto simp: at_def finalized_def)

lemma at_reset: "at v x 0 valid \<Longrightarrow> ready (reset v)"
  by (auto simp: at_def reset_def ready_def)

lemma unat_byte: "b < 256 \<Longrightarrow> unat (oct8 b) = b"
  by (simp add: unat_of_nat oct8_def)

text \<open>The last byte of a symbol, and one in the middle.\<close>

lemma unescape_last:
  assumes "at u v 1 valid" and "b < 64" and "v < 2 ^ 20" and "code_point (v * 64 + b)"
  shows "\<exists>w. ready w \<and> unescape_loop ordinary pos u e acc (pct_byte (128 + b) @ d) =
    unescape_loop ordinary (pos + 3) w False (acc @ [oct8 (128 + b)]) d"
proof -
  have b: "128 + b < 256" "unat (oct8 (128 + b)) = 128 + b" using assms(2) unat_byte by simp_all
  from next_byte(2) [OF assms(1), of "oct8 (128 + b)"] assms(2-4) b(2) obtain w where
    w: "process_byte (oct8 (128 + b)) u = (True, w)" "at w (v * 64 + b) 0 valid" by auto
  from unescape_byte [OF b(1) w(1)] at_finalized [OF w(2)] at_reset [OF w(2)] show ?thesis by auto
qed

lemma unescape_middle:
  assumes "at u v k st" and "1 < k" and "b < 64" and "v < 2 ^ 20"
    and "st = valid \<or> st = may_be_overlong \<and> (k = 2 \<and> 32 \<le> b \<or> k = 3 \<and> 16 \<le> b)"
  shows "\<exists>w. at w (v * 64 + b) (k - 1) valid \<and> unescape_loop ordinary pos u e acc (pct_byte (128 + b) @ d) =
    unescape_loop ordinary (pos + 3) w True (acc @ [oct8 (128 + b)]) d"
proof -
  have b: "128 + b < 256" "unat (oct8 (128 + b)) = 128 + b" using assms(3) unat_byte by simp_all
  from next_byte(1) [OF assms(1), of "oct8 (128 + b)"] assms(2-5) b(2) obtain w where
    w: "process_byte (oct8 (128 + b)) u = (True, w)" "at w (v * 64 + b) (k - 1) valid" by auto
  from unescape_byte [OF b(1) w(1)] at_finalized [OF w(2)] assms(2) w(2) show ?thesis by auto
qed

text \<open>A whole symbol.\<close>

lemma unescape_symbol:
  assumes "code_point n" and "ready u"
  shows "\<exists>w p. ready w \<and> unescape_loop ordinary pos u False acc (concat (map pct_byte (utf8_encode n)) @ d) =
    unescape_loop ordinary p w False (acc @ map oct8 (utf8_encode n)) d"
proof -
  have u: "m_current_symbol_rest_bytes u = 0" "m_state u = valid" using assms(2) by (simp_all add: ready_def)
  have cp: "n < 0x110000" using assms(1) by (simp add: code_point_def)
  consider "n < 0x80" | "0x80 \<le> n" "n < 0x800" | "0x800 \<le> n" "n < 0x10000" | "0x10000 \<le> n" by linarith
  then show ?thesis
  proof cases
    case 1
    then have b: "n < 256" "unat (oct8 n) = n" using unat_byte by simp_all
    from lead_byte(1) [OF u, of "oct8 n"] 1 b(2) obtain v where
      v: "process_byte (oct8 n) u = (True, v)" "at v n 0 valid" by auto
    from unescape_byte [OF b(1) v(1)] at_finalized [OF v(2)] at_reset [OF v(2)] 1 show ?thesis
      by (auto simp: utf8_encode_def)
  next
    case 2
    let ?b = "0xC0 + n div 64"
    have b: "?b < 256" "unat (oct8 ?b) = ?b" using 2 unat_byte [of ?b] by simp_all
    have "2 \<le> n div 64" "n div 64 < 32" using 2 by (simp_all add: div_less_iff_less_mult less_eq_div_iff_mult_less_eq)
    with lead_byte(2) [OF u, of "oct8 ?b"] b(2) obtain v where
      v: "process_byte (oct8 ?b) u = (True, v)" "at v (n div 64) 1 valid" by auto
    have "n div 64 * 64 + n mod 64 = n" by simp
    then obtain w where "ready w" "unescape_loop ordinary (pos + 3) v True (acc @ [oct8 ?b]) (pct_byte (128 + n mod 64) @ d) =
        unescape_loop ordinary (pos + 3 + 3) w False ((acc @ [oct8 ?b]) @ [oct8 (128 + n mod 64)]) d"
      using unescape_last [OF v(2), of "n mod 64"] assms(1) \<open>n div 64 < 32\<close> by fastforce
    with unescape_byte [OF b(1) v(1)] at_finalized [OF v(2)] 2 show ?thesis
      by (auto simp: utf8_encode_def)
  next
    case 3
    let ?b = "0xE0 + n div 4096"
    have l: "n div 4096 < 16" using 3 by (simp add: div_less_iff_less_mult)
    have b: "?b < 256" "unat (oct8 ?b) = ?b" using l unat_byte [of ?b] by simp_all
    from lead_byte(3) [OF u, of "oct8 ?b"] b(2) l obtain v where
      v: "process_byte (oct8 ?b) u = (True, v)"
         "at v (n div 4096) 2 (if n div 4096 = 0 then may_be_overlong else valid)" by auto
    have "32 \<le> n div 64" using 3 by (simp add: less_eq_div_iff_mult_less_eq)
    then have ov: "32 \<le> n div 64 mod 64" if "n div 4096 = 0"
      using that 3 by (simp add: div_eq_0_iff div_less_iff_less_mult)
    obtain w where w: "at w (n div 4096 * 64 + n div 64 mod 64) 1 valid"
      "unescape_loop ordinary (pos + 3) v True (acc @ [oct8 ?b]) (pct_byte (128 + n div 64 mod 64) @ pct_byte (128 + n mod 64) @ d) =
        unescape_loop ordinary (pos + 3 + 3) w True ((acc @ [oct8 ?b]) @ [oct8 (128 + n div 64 mod 64)]) (pct_byte (128 + n mod 64) @ d)"
    proof -
      let ?st = "if n div 4096 = 0 then may_be_overlong else valid"
      have st: "?st = valid \<or> ?st = may_be_overlong \<and> ((2 :: nat) = 2 \<and> 32 \<le> n div 64 mod 64 \<or> (2 :: nat) = 3 \<and> 16 \<le> n div 64 mod 64)"
        using ov by (cases "n div 4096 = 0") simp_all
      have p: "(1 :: nat) < 2" "n div 64 mod 64 < 64" "n div 4096 < 2 ^ 20" using l by simp_all
      show thesis
        using unescape_middle [OF v(2) p st, of ordinary "pos + 3" True "acc @ [oct8 ?b]" "pct_byte (128 + n mod 64) @ d"] that
        by auto
    qed
    have e: "n div 4096 * 64 + n div 64 mod 64 = n div 64"
      using div_mult_mod_eq [of "n div 64" 64] by (simp add: div_mult2_eq [symmetric])
    have "n div 64 * 64 + n mod 64 = n" by simp
    moreover have "n div 64 < 2 ^ 20" using 3 by (simp add: div_less_iff_less_mult)
    ultimately obtain x where "ready x" "unescape_loop ordinary (pos + 3 + 3) w True ((acc @ [oct8 ?b]) @ [oct8 (128 + n div 64 mod 64)]) (pct_byte (128 + n mod 64) @ d) =
        unescape_loop ordinary (pos + 3 + 3 + 3) x False (((acc @ [oct8 ?b]) @ [oct8 (128 + n div 64 mod 64)]) @ [oct8 (128 + n mod 64)]) d"
      using unescape_last [OF w(1) [unfolded e], of "n mod 64"] assms(1) by fastforce
    with unescape_byte [OF b(1) v(1)] at_finalized [OF v(2)] w(2) 3 show ?thesis
      by (auto simp: utf8_encode_def)
  next
    case 4
    let ?b = "0xF0 + n div 262144"
    have l: "n div 262144 < 5" using cp by (simp add: div_less_iff_less_mult)
    have b: "?b < 256" "unat (oct8 ?b) = ?b" using l unat_byte [of ?b] by simp_all
    from lead_byte(4) [OF u, of "oct8 ?b"] b(2) l obtain v where
      v: "process_byte (oct8 ?b) u = (True, v)"
         "at v (n div 262144) 3 (if n div 262144 = 0 then may_be_overlong else valid)" by auto
    have "16 \<le> n div 4096" using 4 by (simp add: less_eq_div_iff_mult_less_eq)
    then have ov: "16 \<le> n div 4096 mod 64" if "n div 262144 = 0"
      using that by (simp add: div_eq_0_iff div_less_iff_less_mult)
    let ?a1 = "acc @ [oct8 ?b]" and ?a2 = "(acc @ [oct8 ?b]) @ [oct8 (128 + n div 4096 mod 64)]"
    let ?d2 = "pct_byte (128 + n div 64 mod 64) @ pct_byte (128 + n mod 64) @ d"
    obtain w where w: "at w (n div 262144 * 64 + n div 4096 mod 64) 2 valid"
      "unescape_loop ordinary (pos + 3) v True ?a1 (pct_byte (128 + n div 4096 mod 64) @ ?d2) =
        unescape_loop ordinary (pos + 3 + 3) w True ?a2 ?d2"
    proof -
      let ?st = "if n div 262144 = 0 then may_be_overlong else valid"
      have st: "?st = valid \<or> ?st = may_be_overlong \<and> ((3 :: nat) = 2 \<and> 32 \<le> n div 4096 mod 64 \<or> (3 :: nat) = 3 \<and> 16 \<le> n div 4096 mod 64)"
        using ov by (cases "n div 262144 = 0") simp_all
      have p: "(1 :: nat) < 3" "n div 4096 mod 64 < 64" "n div 262144 < 2 ^ 20" using l by simp_all
      show thesis using unescape_middle [OF v(2) p st, of ordinary "pos + 3" True ?a1 ?d2] that by auto
    qed
    have e: "n div 262144 * 64 + n div 4096 mod 64 = n div 4096"
      using div_mult_mod_eq [of "n div 4096" 64] by (simp add: div_mult2_eq [symmetric])
    have b1: "n div 4096 < 2 ^ 20" "n div 64 < 2 ^ 20" using cp by (simp_all add: div_less_iff_less_mult)
    obtain x where x: "at x (n div 4096 * 64 + n div 64 mod 64) 1 valid"
      "unescape_loop ordinary (pos + 3 + 3) w True ?a2 ?d2 =
        unescape_loop ordinary (pos + 3 + 3 + 3) x True (?a2 @ [oct8 (128 + n div 64 mod 64)]) (pct_byte (128 + n mod 64) @ d)"
      using unescape_middle [OF w(1) [unfolded e], of "n div 64 mod 64" ordinary "pos + 3 + 3" True ?a2 "pct_byte (128 + n mod 64) @ d"]
        b1(1) by auto
    have e2: "n div 4096 * 64 + n div 64 mod 64 = n div 64"
      using div_mult_mod_eq [of "n div 64" 64] by (simp add: div_mult2_eq [symmetric])
    have "n div 64 * 64 + n mod 64 = n" by simp
    then obtain y where "ready y" "unescape_loop ordinary (pos + 3 + 3 + 3) x True (?a2 @ [oct8 (128 + n div 64 mod 64)]) (pct_byte (128 + n mod 64) @ d) =
        unescape_loop ordinary (pos + 3 + 3 + 3 + 3) y False ((?a2 @ [oct8 (128 + n div 64 mod 64)]) @ [oct8 (128 + n mod 64)]) d"
      using unescape_last [OF x(1) [unfolded e2], of "n mod 64"] assms(1) b1(2) by fastforce
    with unescape_byte [OF b(1) v(1)] at_finalized [OF v(2)] w(2) x(2) 4 show ?thesis
      by (auto simp: utf8_encode_def)
  qed
qed

text \<open>A text as a client may write it: ordinary characters and percent-encoded symbols.\<close>

datatype item = Plain char | Symbol nat

fun wf_item :: "item \<Rightarrow> bool" where
  "wf_item (Plain c) \<longleftrightarrow> ordinary_char c"
| "wf_item (Symbol n) \<longleftrightarrow> code_point n"

text \<open>The same for other traits.\<close>

fun wf_item_for :: "(char \<Rightarrow> bool) \<Rightarrow> item \<Rightarrow> bool" where
  "wf_item_for ordinary (Plain c) \<longleftrightarrow> ordinary c \<and> c \<noteq> CHR ''%'' \<and> c \<noteq> CHR ''+''"
| "wf_item_for ordinary (Symbol n) \<longleftrightarrow> code_point n"

fun show_item :: "item \<Rightarrow> string" where
  "show_item (Plain c) = [c]"
| "show_item (Symbol n) = concat (map pct_byte (utf8_encode n))"

fun item_octets :: "item \<Rightarrow> 8 word list" where
  "item_octets (Plain c) = [octet c]"
| "item_octets (Symbol n) = map oct8 (utf8_encode n)"

fun item_bytes :: "item \<Rightarrow> string" where
  "item_bytes (Plain c) = [c]"
| "item_bytes (Symbol n) = map char_of (utf8_encode n)"

lemma ordinary_not_special: "ordinary_char c \<Longrightarrow> c \<noteq> CHR ''%'' \<and> c \<noteq> CHR ''+''"
  by (auto simp: ordinary_char_def less_eq_char_def)

lemma wf_item_default: "wf_item i \<Longrightarrow> wf_item_for ordinary_char i"
  by (cases i) (simp_all add: ordinary_not_special)

lemma utf8_encode_bytes: "code_point n \<Longrightarrow> b \<in> set (utf8_encode n) \<Longrightarrow> b < 256"
  by (auto simp: utf8_encode_def code_point_def div_less_iff_less_mult split: if_splits)

lemma unat_octet: "unat (octet c) = of_char c"
proof -
  have "(of_char c :: nat) < 256" by simp
  moreover have "octet c = of_nat (of_char c)" by (rule of_nat_of_char [symmetric])
  ultimately show ?thesis using unat_byte [of "of_char c"] by (simp add: oct8_def)
qed

lemma chars_of_item: "wf_item_for ordinary i \<Longrightarrow> chars_of (item_octets i) = item_bytes i"
  by (cases i) (auto simp: chars_of_def unat_octet unat_byte utf8_encode_bytes)

lemma unescape_items:
  assumes "list_all (wf_item_for ordinary) items" and "ready u"
  shows "unescape_loop ordinary pos u False acc (concat (map show_item items)) =
    Inr (acc @ concat (map item_octets items))"
  using assms
proof (induction items arbitrary: pos u acc)
  case (Cons i items)
  show ?case
  proof (cases i)
    case (Plain c)
    then show ?thesis using Cons by simp
  next
    case (Symbol n)
    with Cons.prems obtain w p where "ready w" "unescape_loop ordinary pos u False acc
        (concat (map pct_byte (utf8_encode n)) @ concat (map show_item items)) =
        unescape_loop ordinary p w False (acc @ map oct8 (utf8_encode n)) (concat (map show_item items))"
      using unescape_symbol [of n u ordinary pos acc "concat (map show_item items)"] by auto
    then show ?thesis using Cons Symbol by simp
  qed
qed simp

lemma unescape_shown:
  assumes "list_all (wf_item_for ordinary) items"
  shows "rbind (unescape_loop ordinary 0 utf8_start False [] (concat (map show_item items))) (\<lambda>ws. Inr (chars_of ws)) =
    Inr (concat (map item_bytes items))"
proof -
  have "ready utf8_start" by (simp add: ready_def utf8_start_def)
  moreover have "chars_of (concat (map item_octets items)) = concat (map item_bytes items)"
    using assms
  proof (induction items)
    case (Cons i items)
    then show ?case using chars_of_item [of ordinary i] by (simp add: chars_of_def)
  qed (simp add: chars_of_def)
  ultimately show ?thesis using unescape_items [OF assms, of utf8_start 0 "[]"] by simp
qed

lemma unescape_plain:
  assumes "list_all ordinary_char s"
  shows "unescape_percent_encoding s = Inr s"
proof -
  have r: "ready utf8_start" by (simp add: ready_def utf8_start_def)
  have "concat (map show_item (map Plain s)) = s" "concat (map item_octets (map Plain s)) = map octet s"
    by (induction s) simp_all
  moreover have "chars_of (map octet s) = s" by (simp add: chars_of_def unat_octet comp_def)
  moreover have "list_all (wf_item_for ordinary_char) (map Plain s)"
    using assms ordinary_not_special by (auto simp: list_all_iff)
  ultimately show ?thesis
    using unescape_items [OF _ r, of ordinary_char "map Plain s" 0 "[]"] by (simp add: unescape_percent_encoding_def)
qed

section \<open>Property\<close>

text \<open>
  Percent decoding gives back every text that was encoded: any mixture of ordinary
  characters and of percent-encoded Unicode symbols, of one to four bytes each, decodes to
  its UTF-8 bytes; none is taken for an overlong or invalid sequence.
\<close>

theorem unescape_encoded:
  assumes "list_all wf_item items"
  shows "unescape_percent_encoding (concat (map show_item items)) = Inr (concat (map item_bytes items))"
proof -
  have "list_all (wf_item_for ordinary_char) items" using assms wf_item_default by (auto simp: list_all_iff)
  then show ?thesis by (simp add: unescape_percent_encoding_def unescape_shown)
qed

theorem unescape_encoded_witness:
  "unescape_percent_encoding ''a%C3%A9'' = Inr [CHR ''a'', CHR 0xC3, CHR 0xA9]"
proof -
  have "list_all wf_item [Plain CHR ''a'', Symbol 0xE9]"
    by (simp add: ordinary_char_def less_eq_char_def code_point_def)
  from unescape_encoded [OF this]
  have "unescape_percent_encoding (concat (map show_item [Plain CHR ''a'', Symbol 0xE9])) =
    Inr (concat (map item_bytes [Plain CHR ''a'', Symbol 0xE9]))" .
  moreover have "concat (map show_item [Plain CHR ''a'', Symbol 0xE9]) = ''a%C3%A9''"
    "concat (map item_bytes [Plain CHR ''a'', Symbol 0xE9]) = [CHR ''a'', CHR 0xC3, CHR 0xA9]"
    by code_simp+
  ultimately show ?thesis by simp
qed

end
