(* ===== verification/WsBits.thy ===== *)
theory WsBits
  imports FgPrelude
begin

unbundle bit_operations_syntax

text \<open>
  Groups of bits of a bigger integer (\<open>restinio/utils/impl/bitops.hpp\<close>) and numbers in
  network byte order (\<open>restinio/websocket/impl/ws_parser.hpp\<close>). The WebSocket frames, the
  SHA-1 digest and the Base64 text of the handshake are built from both. A byte is an
  8-bit word here.
\<close>

named_theorems bits_simps \<open>extracting groups of bits\<close>

type_synonym byte_t = "8 word"
type_synonym raw_data_t = "byte_t list"

section \<open>Groups of bits\<close>

fun bits_mask :: "nat \<Rightarrow> 'a::len word" where
  "bits_mask n = (if n \<le> 1 then 1 else push_bit 1 (bits_mask (n - 1)) OR 1)"

declare bits_mask.simps [simp del]

definition n_bits_from :: "nat \<Rightarrow> nat \<Rightarrow> 'f::len word \<Rightarrow> 't::len word" where
  "n_bits_from shift n v = ucast (drop_bit shift v) AND bits_mask n"

lemma bits_mask_eq [bits_simps]: "0 < n \<Longrightarrow> bits_mask n = mask n"
proof (induction n rule: bits_mask.induct)
  case (1 n)
  show ?case
  proof (cases "n \<le> 1")
    case True
    with 1(2) have "n = 1" by simp
    then show ?thesis by (simp add: bits_mask.simps)
  next
    case False
    then have "bits_mask n = push_bit 1 (mask (n - 1)) OR (1 :: 'a word)"
      using 1 by (subst bits_mask.simps) simp
    also have "\<dots> = mask (Suc (n - 1))"
      by (simp add: mask_Suc_double or.commute push_bit_eq_mult mult.commute)
    finally show ?thesis using False by simp
  qed
qed

lemma n_bits_from_take [bits_simps]:
  "0 < n \<Longrightarrow> n_bits_from shift n v = take_bit n (ucast (drop_bit shift v))"
  by (simp add: n_bits_from_def bits_mask_eq take_bit_eq_mask)

lemma octet_bits [bits_simps]: "n_bits_from shift 8 v = (ucast (drop_bit shift v) :: byte_t)"
  by (simp add: bits_simps) (rule bit_word_eqI, simp add: bit_simps)

section \<open>Numbers in network byte order\<close>

definition read_number_from_big_endian_bytes :: "raw_data_t \<Rightarrow> 'a::len word" where
  "read_number_from_big_endian_bytes data = foldl (\<lambda>number byte. push_bit 8 number OR ucast byte) 0 data"

definition write_number_to_big_endian_bytes :: "nat \<Rightarrow> 64 word \<Rightarrow> raw_data_t \<Rightarrow> raw_data_t" where
  "write_number_to_big_endian_bytes n number data =
     data @ map (\<lambda>i. ucast (drop_bit ((n - i - 1) * 8) number AND 0xFF)) [0..<n]"

lemma length_write_number [simp]:
  "length (write_number_to_big_endian_bytes n number data) = length data + n"
  by (simp add: write_number_to_big_endian_bytes_def)

lemma write_number_append:
  "write_number_to_big_endian_bytes n number data = data @ write_number_to_big_endian_bytes n number []"
  by (simp add: write_number_to_big_endian_bytes_def)

lemma write_number_0 [simp]: "write_number_to_big_endian_bytes 0 number data = data"
  by (simp add: write_number_to_big_endian_bytes_def)

lemma write_number_Suc:
  "write_number_to_big_endian_bytes (Suc n) number [] =
     ucast (drop_bit (n * 8) number AND 0xFF) # write_number_to_big_endian_bytes n number []"
  by (simp add: write_number_to_big_endian_bytes_def upt_rec [of 0 "Suc n"] map_Suc_upt [symmetric] comp_def del: upt_Suc)

lemma shift_byte_step:
  fixes acc :: "'a::len word" and number :: "64 word"
  shows "push_bit (n * 8) (push_bit 8 acc OR ucast (ucast (drop_bit (n * 8) number AND 0xFF) :: byte_t))
      OR take_bit (n * 8) (ucast number) =
    push_bit (Suc n * 8) acc OR take_bit (Suc n * 8) (ucast number)"
proof (rule bit_word_eqI)
  fix i assume i: "i < LENGTH('a)"
  have ff: "(0xFF :: 64 word) = mask 8" by (simp add: mask_numeral)
  show "bit (push_bit (n * 8) (push_bit 8 acc OR ucast (ucast (drop_bit (n * 8) number AND 0xFF) :: byte_t))
      OR take_bit (n * 8) (ucast number)) i =
    bit (push_bit (Suc n * 8) acc OR take_bit (Suc n * 8) (ucast number)) i"
    using i by (auto simp: ff bit_simps add.commute)
qed

lemma read_write_acc:
  fixes acc :: "'a::len word"
  shows "foldl (\<lambda>number byte. push_bit 8 number OR ucast byte) acc
           (write_number_to_big_endian_bytes n number []) =
    push_bit (n * 8) acc OR take_bit (n * 8) (ucast number)"
proof (induction n arbitrary: acc)
  case (Suc n)
  show ?case by (simp only: write_number_Suc foldl_Cons Suc shift_byte_step)
qed simp

lemma read_write_number:
  "read_number_from_big_endian_bytes (write_number_to_big_endian_bytes n number []) =
     (take_bit (n * 8) (ucast number) :: 'a::len word)"
  by (simp add: read_number_from_big_endian_bytes_def read_write_acc)

lemma octets_write_number:
  fixes key :: "32 word"
  shows "[n_bits_from 24 8 key, n_bits_from 16 8 key, n_bits_from 8 8 key, n_bits_from 0 8 key] =
    write_number_to_big_endian_bytes 4 (ucast key) []"
proof -
  have ff: "(0xFF :: 64 word) = mask 8" by (simp add: mask_numeral)
  have *: "(ucast (drop_bit s key) :: byte_t) = ucast (drop_bit s (ucast key :: 64 word) AND 0xFF)" for s
    by (rule bit_word_eqI) (auto simp: ff bit_simps dest: bit_imp_le_length)
  show ?thesis
    by (simp add: write_number_to_big_endian_bytes_def upt_rec octet_bits * * [of 0, simplified])
qed

lemma read_key_octets:
  fixes key :: "32 word"
  shows "read_number_from_big_endian_bytes
    [n_bits_from 24 8 key, n_bits_from 16 8 key, n_bits_from 8 8 key, n_bits_from 0 8 key] = key"
  unfolding octets_write_number read_write_number by (rule bit_word_eqI) (simp add: bit_simps)

section \<open>Bytes and strings\<close>

text \<open>The bytes on a connection and the \<open>std::string\<close> that the code makes of them.\<close>

definition text_of :: "raw_data_t \<Rightarrow> string" where
  "text_of d = map (\<lambda>b. char_of (unat b)) d"

definition raw :: "string \<Rightarrow> raw_data_t" where
  "raw s = map of_char s"

lemma text_of_raw [simp]: "text_of (raw s) = s"
proof -
  have "char_of (unat (of_char c :: 8 word)) = c" for c
  proof -
    have "unat (of_nat (of_char c) :: 8 word) = of_char c" by (simp add: unat_of_nat)
    then show ?thesis by (simp add: of_nat_of_char)
  qed
  then show ?thesis by (simp add: text_of_def raw_def comp_def)
qed

lemma length_raw [simp]: "length (raw s) = length s"
  by (simp add: raw_def)

lemma text_of_append: "text_of (a @ b) = text_of a @ text_of b"
  by (simp add: text_of_def)

lemma raw_append: "raw (a @ b) = raw a @ raw b"
  by (simp add: raw_def)

end
