(* ===== verification/WsFrame.thy ===== *)
theory WsFrame
  imports WsBits
begin

unbundle bit_operations_syntax

text \<open>
  WebSocket frames of the server's connection to the mobile app: opcodes and status codes
  (\<open>restinio/websocket/message.hpp\<close>), the frame header and its incremental parser, masking and
  the writer of headers (\<open>restinio/websocket/impl/ws_parser.hpp\<close>). The lemmas show that a header
  written is the header parsed, however the bytes are cut into pieces.
\<close>

section \<open>Opcodes and status codes\<close>

text \<open>
  \<open>opcode_t\<close> is an enumeration over \<open>uint8_t\<close>; \<open>static_cast\<close> produces its unnamed values too,
  here \<open>unnamed_opcode\<close>.
\<close>

datatype opcode_t = continuation_frame | text_frame | binary_frame | connection_close_frame
  | ping_frame | pong_frame | unknown_frame | unnamed_opcode byte_t

definition opcode_of_code :: "byte_t \<Rightarrow> opcode_t" where
  "opcode_of_code b =
     (if b = 0x00 then continuation_frame else if b = 0x01 then text_frame
      else if b = 0x02 then binary_frame else if b = 0x08 then connection_close_frame
      else if b = 0x09 then ping_frame else if b = 0x0A then pong_frame
      else if b = 0x0F then unknown_frame else unnamed_opcode b)"

fun code_of_opcode :: "opcode_t \<Rightarrow> byte_t" where
  "code_of_opcode continuation_frame = 0x00"
| "code_of_opcode text_frame = 0x01"
| "code_of_opcode binary_frame = 0x02"
| "code_of_opcode connection_close_frame = 0x08"
| "code_of_opcode ping_frame = 0x09"
| "code_of_opcode pong_frame = 0x0A"
| "code_of_opcode unknown_frame = 0x0F"
| "code_of_opcode (unnamed_opcode b) = b"

fun opcode_to_string :: "opcode_t \<Rightarrow> string" where
  "opcode_to_string continuation_frame = ''continuation_frame''"
| "opcode_to_string text_frame = ''text_frame''"
| "opcode_to_string binary_frame = ''binary_frame''"
| "opcode_to_string connection_close_frame = ''connection_close_frame''"
| "opcode_to_string ping_frame = ''ping_frame''"
| "opcode_to_string pong_frame = ''pong_frame''"
| "opcode_to_string _ = ''unknown_frame''"

fun is_valid_opcode :: "opcode_t \<Rightarrow> bool" where
  "is_valid_opcode unknown_frame = False"
| "is_valid_opcode (unnamed_opcode b) = False"
| "is_valid_opcode _ = True"

type_synonym status_code_t = "16 word"

definition status_code_to_bin :: "status_code_t \<Rightarrow> raw_data_t" where
  "status_code_to_bin code = [n_bits_from 8 8 code, n_bits_from 0 8 code]"

definition status_code_from_bin :: "raw_data_t \<Rightarrow> status_code_t" where
  "status_code_from_bin data =
     (if 2 \<le> length data then push_bit 8 (ucast (data ! 0)) OR ucast (data ! 1) else 0)"

datatype final_frame_flag_t = final_frame | not_final_frame

record message_t =
  final_flag :: final_frame_flag_t
  msg_opcode :: opcode_t
  msg_payload :: raw_data_t

definition is_final :: "message_t \<Rightarrow> bool" where
  "is_final m \<longleftrightarrow> final_frame = final_flag m"

section \<open>Message details\<close>

record message_details_t =
  m_final_flag :: bool
  m_rsv1_flag :: bool
  m_rsv2_flag :: bool
  m_rsv3_flag :: bool
  m_opcode :: opcode_t
  m_mask_flag :: bool
  m_payload_len :: byte_t
  m_ext_payload_len :: "64 word"
  m_masking_key :: "32 word"

definition default_details :: message_details_t where
  "default_details = \<lparr>m_final_flag = True, m_rsv1_flag = False, m_rsv2_flag = False,
     m_rsv3_flag = False, m_opcode = continuation_frame, m_mask_flag = False, m_payload_len = 0,
     m_ext_payload_len = 0, m_masking_key = 0\<rparr>"

text \<open>\<open>init_payload_len\<close>; \<open>size_t\<close> has 64 bits.\<close>

definition init_payload_len :: "64 word \<Rightarrow> message_details_t \<Rightarrow> message_details_t" where
  "init_payload_len payload_len m =
     (if payload_len > 125
      then m\<lparr>m_payload_len := (if payload_len > 0xFFFF then 127 else 126), m_ext_payload_len := payload_len\<rparr>
      else m\<lparr>m_payload_len := ucast payload_len\<rparr>)"

definition message_details :: "final_frame_flag_t \<Rightarrow> opcode_t \<Rightarrow> 64 word \<Rightarrow> message_details_t" where
  "message_details fin opcode payload_len =
     init_payload_len payload_len
       (default_details\<lparr>m_final_flag := (final_frame = fin), m_opcode := opcode\<rparr>)"

definition masked_message_details ::
    "final_frame_flag_t \<Rightarrow> opcode_t \<Rightarrow> 64 word \<Rightarrow> 32 word \<Rightarrow> message_details_t" where
  "masked_message_details fin opcode payload_len masking_key =
     init_payload_len payload_len
       (default_details\<lparr>m_final_flag := (final_frame = fin), m_opcode := opcode,
          m_mask_flag := True, m_masking_key := masking_key\<rparr>)"

definition payload_len :: "message_details_t \<Rightarrow> 64 word" where
  "payload_len m = (if m_payload_len m > 125 then m_ext_payload_len m else ucast (m_payload_len m))"

definition set_masking_key :: "32 word \<Rightarrow> message_details_t \<Rightarrow> message_details_t" where
  "set_masking_key v m = m\<lparr>m_masking_key := v, m_mask_flag := True\<rparr>"

section \<open>Data with an expected size\<close>

record expected_data_t =
  m_expected_size :: nat
  m_loaded_data :: raw_data_t

definition expected_data :: "nat \<Rightarrow> expected_data_t" where
  "expected_data n = \<lparr>m_expected_size = n, m_loaded_data = []\<rparr>"

definition all_bytes_loaded :: "expected_data_t \<Rightarrow> bool" where
  "all_bytes_loaded e \<longleftrightarrow> length (m_loaded_data e) = m_expected_size e"

type_synonym exception_t = string

definition add_byte_and_check_size :: "byte_t \<Rightarrow> expected_data_t \<Rightarrow> exception_t + bool \<times> expected_data_t" where
  "add_byte_and_check_size byte e =
     (if length (m_loaded_data e) = m_expected_size e
      then Inl ''Cannot add one more bytes to expected data.''
      else let e = e\<lparr>m_loaded_data := m_loaded_data e @ [byte]\<rparr> in Inr (all_bytes_loaded e, e))"

definition reset_expected :: "nat \<Rightarrow> expected_data_t \<Rightarrow> expected_data_t" where
  "reset_expected n e = e\<lparr>m_expected_size := n, m_loaded_data := []\<rparr>"

section \<open>The parser of headers\<close>

datatype parser_state_t = waiting_for_first_2_bytes | waiting_for_ext_len | waiting_for_mask_key
  | header_parsed_state

record ws_parser_t =
  m_expected_data :: expected_data_t
  m_current_msg :: message_details_t
  m_current_state :: parser_state_t

definition ws_parser_start :: ws_parser_t where
  "ws_parser_start = \<lparr>m_expected_data = expected_data 2, m_current_msg = default_details,
     m_current_state = waiting_for_first_2_bytes\<rparr>"

definition header_parsed :: "ws_parser_t \<Rightarrow> bool" where
  "header_parsed p \<longleftrightarrow> m_current_state p = header_parsed_state"

definition reset_parser :: "ws_parser_t \<Rightarrow> ws_parser_t" where
  "reset_parser p = p\<lparr>m_current_state := waiting_for_first_2_bytes, m_current_msg := default_details,
     m_expected_data := reset_expected 2 (m_expected_data p)\<rparr>"

definition parse_first_2_bytes :: "raw_data_t \<Rightarrow> message_details_t \<Rightarrow> message_details_t" where
  "parse_first_2_bytes data m = m\<lparr>
     m_final_flag := data ! 0 AND 0x80 \<noteq> 0,
     m_rsv1_flag := data ! 0 AND 0x40 \<noteq> 0,
     m_rsv2_flag := data ! 0 AND 0x20 \<noteq> 0,
     m_rsv3_flag := data ! 0 AND 0x10 \<noteq> 0,
     m_opcode := opcode_of_code (data ! 0 AND 0x0F),
     m_mask_flag := data ! 1 AND 0x80 \<noteq> 0,
     m_payload_len := data ! 1 AND 0x7F\<rparr>"

definition parse_ext_payload_len :: "byte_t \<Rightarrow> raw_data_t \<Rightarrow> message_details_t \<Rightarrow> message_details_t" where
  "parse_ext_payload_len len data m =
     (if len = 126 then m\<lparr>m_ext_payload_len := read_number_from_big_endian_bytes data\<rparr>
      else if len = 127 then m\<lparr>m_ext_payload_len := read_number_from_big_endian_bytes data\<rparr>
      else m)"

definition parse_masking_key :: "bool \<Rightarrow> raw_data_t \<Rightarrow> message_details_t \<Rightarrow> message_details_t" where
  "parse_masking_key mask_flag data m =
     (if mask_flag then m\<lparr>m_masking_key := read_number_from_big_endian_bytes data\<rparr> else m)"

definition expect :: "nat \<Rightarrow> parser_state_t \<Rightarrow> ws_parser_t \<Rightarrow> ws_parser_t" where
  "expect n st p = p\<lparr>m_expected_data := reset_expected n (m_expected_data p), m_current_state := st\<rparr>"

definition process_first_2_bytes :: "ws_parser_t \<Rightarrow> ws_parser_t" where
  "process_first_2_bytes p0 =
     (let p = p0\<lparr>m_current_msg := parse_first_2_bytes (m_loaded_data (m_expected_data p0)) (m_current_msg p0)\<rparr>;
          len = m_payload_len (m_current_msg p)
      in if len > 125 then expect (if len = 126 then 2 else 8) waiting_for_ext_len p
         else if m_mask_flag (m_current_msg p) then expect 4 waiting_for_mask_key p
         else expect (unat len) header_parsed_state p)"

definition process_extended_length :: "ws_parser_t \<Rightarrow> ws_parser_t" where
  "process_extended_length p0 =
     (let p = p0\<lparr>m_current_msg := parse_ext_payload_len (m_payload_len (m_current_msg p0))
                  (m_loaded_data (m_expected_data p0)) (m_current_msg p0)\<rparr>
      in if m_mask_flag (m_current_msg p) then expect 4 waiting_for_mask_key p
         else p\<lparr>m_current_state := header_parsed_state\<rparr>)"

definition process_masking_key :: "ws_parser_t \<Rightarrow> ws_parser_t" where
  "process_masking_key p =
     p\<lparr>m_current_msg := parse_masking_key (m_mask_flag (m_current_msg p))
         (m_loaded_data (m_expected_data p)) (m_current_msg p),
       m_current_state := header_parsed_state\<rparr>"

definition process_header_byte :: "byte_t \<Rightarrow> ws_parser_t \<Rightarrow> exception_t + ws_parser_t" where
  "process_header_byte byte p =
     rbind (add_byte_and_check_size byte (m_expected_data p)) (\<lambda>(full, e).
       let p = p\<lparr>m_expected_data := e\<rparr>
       in Inr (if full then
                 (case m_current_state p of
                    waiting_for_first_2_bytes \<Rightarrow> process_first_2_bytes p
                  | waiting_for_ext_len \<Rightarrow> process_extended_length p
                  | waiting_for_mask_key \<Rightarrow> process_masking_key p
                  | header_parsed_state \<Rightarrow> p)
               else p))"

text \<open>The loop of \<open>parser_execute\<close> over the rest of the buffer; \<open>n\<close> is \<open>parsed_bytes\<close>.\<close>

fun parser_loop :: "nat \<Rightarrow> raw_data_t \<Rightarrow> ws_parser_t \<Rightarrow> exception_t + nat \<times> ws_parser_t" where
  "parser_loop n [] p = Inr (n, p)"
| "parser_loop n (b # data) p =
     (if m_current_state p \<noteq> header_parsed_state
      then rbind (process_header_byte b p) (\<lambda>p. parser_loop (Suc n) data p)
      else Inr (n, p))"

definition parser_execute :: "raw_data_t \<Rightarrow> ws_parser_t \<Rightarrow> exception_t + nat \<times> ws_parser_t" where
  "parser_execute data p = parser_loop 0 data p"

section \<open>Masking\<close>

definition mask_octets :: "32 word \<Rightarrow> raw_data_t" where
  "mask_octets key = [n_bits_from 24 8 key, n_bits_from 16 8 key, n_bits_from 8 8 key, n_bits_from 0 8 key]"

text \<open>
  The two nested loops: the inner one takes one byte of the payload for each byte of the mask
  until one of them ends.
\<close>

fun mask_group :: "raw_data_t \<Rightarrow> raw_data_t \<Rightarrow> raw_data_t \<times> raw_data_t" where
  "mask_group (m # ms) (b # bs) = (case mask_group ms bs of (out, rest) \<Rightarrow> ((b XOR m) # out, rest))"
| "mask_group ms bs = ([], bs)"

lemma length_mask_group: "length (snd (mask_group ms bs)) = length bs - length ms"
  by (induction ms bs rule: mask_group.induct) (auto split: prod.splits)

function mask_unmask_payload :: "32 word \<Rightarrow> raw_data_t \<Rightarrow> raw_data_t" where
  "mask_unmask_payload key bs =
     (if bs = [] then []
      else fst (mask_group (mask_octets key) bs) @
           mask_unmask_payload key (snd (mask_group (mask_octets key) bs)))"
  by pat_completeness auto
termination
  by (relation "measure (\<lambda>(key, bs). length bs)") (auto simp: length_mask_group mask_octets_def)

declare mask_unmask_payload.simps [simp del]

section \<open>Writing a header\<close>

definition flag_bit :: "bool \<Rightarrow> byte_t \<Rightarrow> byte_t \<Rightarrow> byte_t" where
  "flag_bit f m b = (if f then b OR m else b)"

definition write_message_details :: "message_details_t \<Rightarrow> raw_data_t" where
  "write_message_details m =
     (let byte = flag_bit (m_final_flag m) 0x80 0x00;
          byte = flag_bit (m_rsv1_flag m) 0x40 byte;
          byte = flag_bit (m_rsv2_flag m) 0x20 byte;
          byte = flag_bit (m_rsv3_flag m) 0x10 byte;
          byte = byte OR (code_of_opcode (m_opcode m) AND 0x0F);
          result = [byte];
          byte = flag_bit (m_mask_flag m) 0x80 0x00;
          len = m_payload_len m;
          result =
            (if len < 126 then result @ [byte OR len]
             else if len = 126 then
               write_number_to_big_endian_bytes 2 (m_ext_payload_len m) (result @ [byte OR 126])
             else if len = 127 then
               write_number_to_big_endian_bytes 8 (m_ext_payload_len m) (result @ [byte OR 127])
             else result)
      in if m_mask_flag m then result @ mask_octets (m_masking_key m) else result)"

section \<open>Lemmas on opcodes and bytes\<close>

lemma opcode_of_code_of [simp]: "code_of_opcode (opcode_of_code b) = b"
  by (simp add: opcode_of_code_def)

lemma is_valid_opcode_iff:
  "is_valid_opcode op \<longleftrightarrow> op \<in> {continuation_frame, text_frame, binary_frame,
     connection_close_frame, ping_frame, pong_frame}"
  by (cases op) auto

lemma valid_opcode_code:
  "is_valid_opcode op \<Longrightarrow> opcode_of_code (code_of_opcode op) = op \<and> code_of_opcode op AND 0x0F = code_of_opcode op"
  by (cases op) (auto simp: opcode_of_code_def)

lemma status_code_roundtrip: "status_code_from_bin (status_code_to_bin code @ rest) = code"
proof -
  have "push_bit 8 (ucast (ucast (drop_bit 8 code) :: byte_t)) OR ucast (ucast code :: byte_t) = code"
    by (rule bit_word_eqI) (auto simp: bit_simps dest: bit_imp_le_length)
  then show ?thesis
    by (simp add: status_code_from_bin_def status_code_to_bin_def octet_bits nth_append)
qed

lemma first_byte_bits:
  fixes c :: byte_t and f1 f2 f3 f4 :: bool
  defines "b \<equiv> flag_bit f4 0x10 (flag_bit f3 0x20 (flag_bit f2 0x40 (flag_bit f1 0x80 0x00))) OR (c AND 0x0F)"
  shows "b AND 0x80 \<noteq> 0 \<longleftrightarrow> f1" and "b AND 0x40 \<noteq> 0 \<longleftrightarrow> f2"
    and "b AND 0x20 \<noteq> 0 \<longleftrightarrow> f3" and "b AND 0x10 \<noteq> 0 \<longleftrightarrow> f4" and "b AND 0x0F = c AND 0x0F"
  by (auto simp: b_def flag_bit_def bit.conj_disj_distrib2 and.assoc)

lemma second_byte_bits:
  fixes len :: byte_t and f :: bool
  assumes "len \<le> 127"
  defines "b \<equiv> flag_bit f 0x80 0x00 OR len"
  shows "b AND 0x80 \<noteq> 0 \<longleftrightarrow> f" and "b AND 0x7F = len"
proof -
  have "len < 2 ^ 7" using assms(1) by (simp add: word_le_nat_alt word_less_nat_alt)
  then have "len AND mask 7 = len" by (rule less_mask_eq)
  then have low: "len AND 0x7F = len" by (simp add: mask_numeral)
  have "(len AND 0x7F) AND 0x80 = 0" by (simp add: and.assoc)
  then have "len AND 0x80 = 0" by (simp only: low)
  with low show "b AND 0x80 \<noteq> 0 \<longleftrightarrow> f" "b AND 0x7F = len"
    by (auto simp: b_def flag_bit_def bit.conj_disj_distrib2)
qed

text \<open>
  The messages a writer has: an opcode of four bits, the extended length exactly when the short
  one says so, and a key only with the mask flag.
\<close>

definition wf_details :: "message_details_t \<Rightarrow> bool" where
  "wf_details m \<longleftrightarrow>
     opcode_of_code (code_of_opcode (m_opcode m)) = m_opcode m \<and>
     code_of_opcode (m_opcode m) AND 0x0F = code_of_opcode (m_opcode m) \<and>
     m_payload_len m \<le> 127 \<and>
     (m_payload_len m < 126 \<longrightarrow> m_ext_payload_len m = 0) \<and>
     (m_payload_len m = 126 \<longrightarrow> m_ext_payload_len m \<le> 0xFFFF) \<and>
     (\<not> m_mask_flag m \<longrightarrow> m_masking_key m = 0)"

lemma unat_low_byte: "unat n < 256 \<Longrightarrow> unat (ucast (n :: 64 word) :: byte_t) = unat n"
  by (simp only: unsigned_ucast_eq unsigned_take_bit_eq) (simp add: take_bit_eq_mod)

lemma unat_wide_byte: "unat (ucast (b :: byte_t) :: 64 word) = unat b"
proof -
  have "unat b < 2 ^ LENGTH(8)" by (rule unsigned_less)
  then show ?thesis by (simp only: unsigned_ucast_eq unsigned_take_bit_eq) (simp add: take_bit_eq_mod)
qed

text \<open>The length given to a constructor is the length read from the message.\<close>

lemma payload_len_init: "m_ext_payload_len m = 0 \<Longrightarrow> payload_len (init_payload_len n m) = n"
proof (cases "n > 125")
  case False
  then have n: "unat n \<le> 125" by (simp add: word_less_nat_alt)
  then have u: "unat (ucast n :: byte_t) = unat n" by (intro unat_low_byte) simp
  have "unat (ucast (ucast n :: byte_t) :: 64 word) = unat n" by (simp only: unat_wide_byte u)
  then have "ucast (ucast n :: byte_t) = n" by (simp only: word_unat_eq_iff)
  then show ?thesis using False n u by (simp add: payload_len_def init_payload_len_def word_less_nat_alt)
qed (auto simp: payload_len_def init_payload_len_def)

lemma payload_len_details [simp]:
  "payload_len (message_details fin op n) = n" "payload_len (masked_message_details fin op n key) = n"
  by (simp_all add: message_details_def masked_message_details_def payload_len_init default_details_def)

lemma wf_written_details:
  assumes "is_valid_opcode op"
  shows "wf_details (message_details fin op n)" and "wf_details (masked_message_details fin op n key)"
proof -
  have "unat (ucast n :: byte_t) = unat n" if "\<not> 125 < n"
  proof -
    have "unat n \<le> 125" using that by (simp add: word_less_nat_alt)
    then show ?thesis by (intro unat_low_byte) simp
  qed
  then show "wf_details (message_details fin op n)" "wf_details (masked_message_details fin op n key)"
    using valid_opcode_code [OF assms]
    by (auto simp: wf_details_def message_details_def masked_message_details_def init_payload_len_def
        default_details_def word_less_nat_alt word_le_nat_alt)
qed

section \<open>Lemmas on the parser\<close>

text \<open>What a full buffer does to the parser.\<close>

definition dispatch :: "ws_parser_t \<Rightarrow> ws_parser_t" where
  "dispatch p = (case m_current_state p of
      waiting_for_first_2_bytes \<Rightarrow> process_first_2_bytes p
    | waiting_for_ext_len \<Rightarrow> process_extended_length p
    | waiting_for_mask_key \<Rightarrow> process_masking_key p
    | header_parsed_state \<Rightarrow> p)"

definition load :: "raw_data_t \<Rightarrow> ws_parser_t \<Rightarrow> ws_parser_t" where
  "load bs p = p\<lparr>m_expected_data := (m_expected_data p)\<lparr>m_loaded_data := m_loaded_data (m_expected_data p) @ bs\<rparr>\<rparr>"

definition missing :: "ws_parser_t \<Rightarrow> nat" where
  "missing p = m_expected_size (m_expected_data p) - length (m_loaded_data (m_expected_data p))"

lemma process_header_byte_eq:
  "0 < missing p \<Longrightarrow> process_header_byte b p = Inr (if missing p = 1 then dispatch (load [b] p) else load [b] p)"
  by (auto simp: process_header_byte_def add_byte_and_check_size_def all_bytes_loaded_def missing_def
      load_def dispatch_def Let_def split: parser_state_t.split)

lemma load_simps [simp]:
  "m_current_state (load bs p) = m_current_state p" "m_current_msg (load bs p) = m_current_msg p"
  "load bs (load as p) = load (as @ bs) p" "missing (load bs p) = missing p - length bs"
  by (simp_all add: load_def missing_def)

lemma parser_loop_load:
  "length bs < missing p \<Longrightarrow> \<not> header_parsed p \<Longrightarrow>
     parser_loop n (bs @ data) p = parser_loop (n + length bs) data (load bs p)"
proof (induction bs arbitrary: n p)
  case Nil
  then show ?case by (simp add: load_def)
next
  case (Cons b bs)
  then show ?case by (simp add: process_header_byte_eq header_parsed_def)
qed

lemma parser_loop_fill:
  assumes "length bs = missing p" and "bs \<noteq> []" and "\<not> header_parsed p"
  shows "parser_loop n (bs @ data) p = parser_loop (n + length bs) data (dispatch (load bs p))"
proof -
  obtain as b where bs: "bs = as @ [b]" using assms(2) by (cases bs rule: rev_cases) auto
  have m: "missing p = Suc (length as)" using assms(1) bs by simp
  with bs assms have "parser_loop n (bs @ data) p = parser_loop (n + length as) (b # data) (load as p)"
    using parser_loop_load [of as p n "b # data"] by simp
  also have "\<dots> = parser_loop (n + length bs) data (dispatch (load bs p))"
    using assms(3) by (simp add: bs m process_header_byte_eq header_parsed_def)
  finally show ?thesis .
qed

lemma parser_loop_parsed [simp]: "header_parsed p \<Longrightarrow> parser_loop n data p = Inr (n, p)"
  by (cases data) (auto simp: header_parsed_def)

text \<open>Segmentation: stopping between two bytes changes nothing.\<close>

lemma parser_loop_append:
  "parser_loop n (a @ b) p = rbind (parser_loop n a p) (\<lambda>(m, q). parser_loop m b q)"
proof (induction a arbitrary: n p)
  case (Cons x a)
  show ?case
    by (cases "process_header_byte x p") (auto simp: Cons header_parsed_def)
qed simp

lemma parser_loop_count:
  "parser_loop n data p = Inr (k, q) \<Longrightarrow> n \<le> k \<and> k \<le> n + length data"
proof (induction data arbitrary: n p)
  case (Cons x data)
  show ?case
  proof (cases "header_parsed p")
    case True
    then show ?thesis using Cons.prems parser_loop_parsed [OF True, of n "x # data"]
      by (simp del: parser_loop.simps)
  next
    case False
    with Cons.prems obtain p' where "parser_loop (Suc n) data p' = Inr (k, q)"
      by (auto simp: result_simps header_parsed_def split: if_splits)
    from Cons.IH [OF this] show ?thesis by simp
  qed
qed simp

lemma parser_loop_all:
  "parser_loop n data p = Inr (k, q) \<Longrightarrow> \<not> header_parsed q \<Longrightarrow> k = n + length data"
proof (induction data arbitrary: n p)
  case (Cons x data)
  show ?case
  proof (cases "header_parsed p")
    case True
    with Cons.prems parser_loop_parsed [OF True, of n "x # data"] show ?thesis
      by (simp del: parser_loop.simps)
  next
    case False
    with Cons.prems obtain p' where "parser_loop (Suc n) data p' = Inr (k, q)"
      by (auto simp: result_simps header_parsed_def split: if_splits)
    from Cons.IH [OF this Cons.prems(2)] show ?thesis by simp
  qed
qed simp

lemma parser_loop_from:
  "parser_loop (n + k) data p = rbind (parser_loop n data p) (\<lambda>(m, q). Inr (m + k, q))"
proof (induction data arbitrary: n p)
  case (Cons x data)
  show ?case
    by (cases "process_header_byte x p") (auto simp: Cons [of "Suc n", simplified])
qed simp

section \<open>Masking byte by byte\<close>

text \<open>What masking is: byte \<open>i\<close> of the payload is combined with byte \<open>i mod 4\<close> of the key.\<close>

fun xor_from :: "32 word \<Rightarrow> nat \<Rightarrow> raw_data_t \<Rightarrow> raw_data_t" where
  "xor_from key i [] = []"
| "xor_from key i (b # bs) = (b XOR mask_octets key ! (i mod 4)) # xor_from key (Suc i) bs"

lemma xor_from_append: "xor_from key i (a @ b) = xor_from key i a @ xor_from key (i + length a) b"
  by (induction a arbitrary: i) auto

lemma length_xor_from [simp]: "length (xor_from key i bs) = length bs"
  by (induction bs arbitrary: i) auto

lemma xor_from_xor_from [simp]: "xor_from key i (xor_from key i bs) = bs"
  by (induction bs arbitrary: i) (auto simp: xor.assoc)

lemma xor_from_mod: "i mod 4 = j mod 4 \<Longrightarrow> xor_from key i bs = xor_from key j bs"
proof (induction bs arbitrary: i j)
  case (Cons b bs)
  from Cons.prems have "Suc i mod 4 = Suc j mod 4" by (simp add: mod_Suc)
  from Cons.IH [OF this] Cons.prems show ?case by (simp only: xor_from.simps)
qed simp

lemma mask_group_eq:
  "mask_group (drop j (mask_octets key)) bs =
     (xor_from key j (take (4 - j) bs), drop (4 - j) bs)" if "j \<le> 4"
  using that
proof (induction bs arbitrary: j)
  case Nil
  then show ?case by (cases "drop j (mask_octets key)") auto
next
  case (Cons b bs)
  show ?case
  proof (cases "j = 4")
    case True
    then show ?thesis by (simp add: mask_octets_def)
  next
    case False
    with Cons.prems have j: "j < 4" by simp
    then have d: "drop j (mask_octets key) = mask_octets key ! j # drop (Suc j) (mask_octets key)"
      by (intro Cons_nth_drop_Suc [symmetric]) (simp add: mask_octets_def)
    have s: "4 - j = Suc (4 - Suc j)" using j by simp
    show ?thesis using Cons.IH [of "Suc j"] j unfolding d s by simp
  qed
qed

lemma mask_unmask_eq: "mask_unmask_payload key bs = xor_from key 0 bs"
proof (induction key bs rule: mask_unmask_payload.induct)
  case (1 key bs)
  show ?case
  proof (cases "bs = []")
    case True
    then show ?thesis by (simp add: mask_unmask_payload.simps)
  next
    case False
    have g: "mask_group (mask_octets key) bs = (xor_from key 0 (take 4 bs), drop 4 bs)"
      using mask_group_eq [of 0 key bs] by simp
    have "mask_unmask_payload key bs = xor_from key 0 (take 4 bs) @ xor_from key 0 (drop 4 bs)"
      using False 1 by (subst mask_unmask_payload.simps) (simp add: g)
    also have "xor_from key 0 (drop 4 bs) = xor_from key (length (take 4 bs)) (drop 4 bs)"
      by (cases "length bs < 4") (auto intro!: xor_from_mod)
    also have "xor_from key 0 (take 4 bs) @ \<dots> = xor_from key 0 (take 4 bs @ drop 4 bs)"
      by (simp only: xor_from_append add_0)
    finally show ?thesis by simp
  qed
qed

lemma mask_unmask_involution: "mask_unmask_payload key (mask_unmask_payload key bs) = bs"
  by (simp add: mask_unmask_eq)

section \<open>The round trip of a header\<close>

definition first_two :: "message_details_t \<Rightarrow> raw_data_t" where
  "first_two m =
     [flag_bit (m_rsv3_flag m) 0x10 (flag_bit (m_rsv2_flag m) 0x20 (flag_bit (m_rsv1_flag m) 0x40
        (flag_bit (m_final_flag m) 0x80 0x00))) OR (code_of_opcode (m_opcode m) AND 0x0F),
      flag_bit (m_mask_flag m) 0x80 0x00 OR m_payload_len m]"

definition ext_part :: "message_details_t \<Rightarrow> raw_data_t" where
  "ext_part m =
     (if m_payload_len m = 126 then write_number_to_big_endian_bytes 2 (m_ext_payload_len m) []
      else if m_payload_len m = 127 then write_number_to_big_endian_bytes 8 (m_ext_payload_len m) []
      else [])"

definition key_part :: "message_details_t \<Rightarrow> raw_data_t" where
  "key_part m = (if m_mask_flag m then mask_octets (m_masking_key m) else [])"

lemma payload_len_cases:
  assumes "(len :: byte_t) \<le> 127"
  obtains "len < 126" "len \<noteq> 126" "len \<noteq> 127" "\<not> 125 < len" | "len = 126" | "len = 127"
proof -
  have "unat len < 126 \<or> unat len = 126 \<or> unat len = 127"
    using assms by (auto simp: word_le_nat_alt)
  then consider "unat len < 126" | "unat len = 126" | "unat len = 127" by blast
  then show thesis
  proof cases
    case 1
    then show ?thesis using that(1) by (force simp: word_less_nat_alt)
  next
    case 2
    then show ?thesis using that(2) by (simp add: word_unat_eq_iff)
  next
    case 3
    then show ?thesis using that(3) by (simp add: word_unat_eq_iff)
  qed
qed

lemma write_message_details_parts:
  assumes "wf_details m"
  shows "write_message_details m = first_two m @ ext_part m @ key_part m"
proof -
  have len: "m_payload_len m \<le> 127" using assms by (simp add: wf_details_def)
  then show ?thesis
    by (rule payload_len_cases)
      (auto simp: write_message_details_def first_two_def ext_part_def key_part_def Let_def
        write_number_append [of _ _ "[_, _]"])
qed

definition head_msg :: "message_details_t \<Rightarrow> message_details_t" where
  "head_msg m = m\<lparr>m_ext_payload_len := 0, m_masking_key := 0\<rparr>"

lemma parse_first_two:
  assumes "wf_details m"
  shows "parse_first_2_bytes (first_two m) default_details = head_msg m"
proof -
  have len: "m_payload_len m \<le> 127" and c: "code_of_opcode (m_opcode m) AND 0x0F = code_of_opcode (m_opcode m)"
    and op: "opcode_of_code (code_of_opcode (m_opcode m)) = m_opcode m"
    using assms by (simp_all add: wf_details_def)
  note bits = first_byte_bits [where c = "code_of_opcode (m_opcode m)", unfolded c]
  show ?thesis
    by (intro message_details_t.equality)
      (simp_all add: parse_first_2_bytes_def first_two_def head_msg_def default_details_def
        c op bits second_byte_bits [OF len])
qed

lemma read_ext_part:
  assumes "wf_details m"
  shows "parse_ext_payload_len (m_payload_len m) (ext_part m) (head_msg m) = m\<lparr>m_masking_key := 0\<rparr>"
proof -
  have low: "take_bit 16 n = n" if "n \<le> 0xFFFF" for n :: "64 word"
  proof -
    have "n < 2 ^ 16" using that by (simp add: word_le_nat_alt word_less_nat_alt)
    then show ?thesis by (simp add: take_bit_eq_mask less_mask_eq)
  qed
  have full: "take_bit 64 n = n" for n :: "64 word"
    by (rule bit_word_eqI) (simp add: bit_simps)
  have len: "m_payload_len m \<le> 127" using assms by (simp add: wf_details_def)
  show ?thesis
    by (rule payload_len_cases [OF len])
      (use assms in \<open>auto simp: parse_ext_payload_len_def ext_part_def head_msg_def read_write_number
        wf_details_def low full intro!: message_details_t.equality\<close>)
qed

lemma read_key_part:
  "\<not> mask_flag \<longrightarrow> key = 0 \<Longrightarrow>
     parse_masking_key mask_flag (mask_octets key) (m\<lparr>m_masking_key := 0\<rparr>) =
     (if mask_flag then m\<lparr>m_masking_key := key\<rparr> else m\<lparr>m_masking_key := 0\<rparr>)"
  by (auto simp: parse_masking_key_def mask_octets_def read_key_octets)

text \<open>The last part: the key, if there is one.\<close>

lemma parse_key_phase:
  assumes "m_current_state p = waiting_for_mask_key" and "m_expected_data p = \<lparr>m_expected_size = 4, m_loaded_data = []\<rparr>"
    and "m_mask_flag (m_current_msg p)"
  shows "\<exists>q. parser_loop n (mask_octets key @ data) p = Inr (n + 4, q) \<and> header_parsed q \<and>
    m_current_msg q = (m_current_msg p)\<lparr>m_masking_key := key\<rparr>"
proof -
  let ?q = "dispatch (load (mask_octets key) p)"
  have key: "mask_octets key \<noteq> []" "length (mask_octets key) = 4" by (simp_all add: mask_octets_def)
  then have "parser_loop n (mask_octets key @ data) p = parser_loop (n + 4) data ?q"
    using assms by (subst parser_loop_fill) (auto simp: missing_def header_parsed_def)
  moreover have "header_parsed ?q" and "m_current_msg ?q = (m_current_msg p)\<lparr>m_masking_key := key\<rparr>"
    using assms by (simp_all add: dispatch_def load_def process_masking_key_def header_parsed_def
        parse_masking_key_def read_key_octets mask_octets_def)
  ultimately show ?thesis by simp
qed

lemma parse_ext_phase:
  assumes wf: "wf_details m" and st: "m_current_state p = waiting_for_ext_len"
    and e: "m_expected_data p = \<lparr>m_expected_size = length (ext_part m), m_loaded_data = []\<rparr>"
    and ne: "ext_part m \<noteq> []" and msg: "m_current_msg p = head_msg m"
  shows "\<exists>q. parser_loop n (ext_part m @ key_part m @ data) p =
      Inr (n + length (ext_part m @ key_part m), q) \<and> header_parsed q \<and> m_current_msg q = m"
proof -
  let ?q = "dispatch (load (ext_part m) p)"
  have *: "parser_loop n (ext_part m @ key_part m @ data) p =
      parser_loop (n + length (ext_part m)) (key_part m @ data) ?q"
    using e ne st by (subst parser_loop_fill) (auto simp: missing_def header_parsed_def)
  have h: "m_payload_len (head_msg m) = m_payload_len m" "m_mask_flag (head_msg m) = m_mask_flag m"
    by (simp_all add: head_msg_def)
  show ?thesis
  proof (cases "m_mask_flag m")
    case True
    have "m_current_state ?q = waiting_for_mask_key" "m_expected_data ?q = \<lparr>m_expected_size = 4, m_loaded_data = []\<rparr>"
      "m_current_msg ?q = m\<lparr>m_masking_key := 0\<rparr>"
      using st e msg h True read_ext_part [OF wf]
      by (simp_all add: dispatch_def load_def process_extended_length_def Let_def expect_def reset_expected_def)
    from parse_key_phase [OF this(1,2), of "n + length (ext_part m)" "m_masking_key m" data] this(3) True
    show ?thesis unfolding * by (auto simp: key_part_def mask_octets_def)
  next
    case False
    then have "m\<lparr>m_masking_key := 0\<rparr> = m" using wf by (simp add: wf_details_def)
    then have "header_parsed ?q" "m_current_msg ?q = m"
      using st e msg h False read_ext_part [OF wf]
      by (simp_all add: dispatch_def load_def process_extended_length_def Let_def header_parsed_def)
    then show ?thesis unfolding * using False by (simp add: key_part_def)
  qed
qed

lemma parse_written:
  assumes wf: "wf_details m"
  shows "\<exists>q. parser_loop n (write_message_details m @ data) (reset_parser p0) =
      Inr (n + length (write_message_details m), q) \<and> header_parsed q \<and> m_current_msg q = m"
proof -
  let ?p = "dispatch (load (first_two m) (reset_parser p0))"
  have two: "length (first_two m) = 2" "first_two m \<noteq> []" by (simp_all add: first_two_def)
  have *: "parser_loop n (write_message_details m @ data) (reset_parser p0) =
      parser_loop (n + 2) (ext_part m @ key_part m @ data) ?p"
    using parser_loop_fill [of "first_two m" "reset_parser p0" n "ext_part m @ key_part m @ data"] two
    by (simp add: write_message_details_parts [OF wf] missing_def reset_parser_def reset_expected_def header_parsed_def)
  have p: "?p = process_first_2_bytes (load (first_two m) (reset_parser p0))"
    by (simp add: dispatch_def reset_parser_def)
  have msg: "m_current_msg ?p = head_msg m"
    unfolding p using parse_first_two [OF wf]
    by (simp add: process_first_2_bytes_def load_def reset_parser_def reset_expected_def Let_def expect_def)
  have h: "m_payload_len (head_msg m) = m_payload_len m" "m_mask_flag (head_msg m) = m_mask_flag m"
    by (simp_all add: head_msg_def)
  have len: "m_payload_len m \<le> 127" using wf by (simp add: wf_details_def)
  have total: "length (write_message_details m) = 2 + length (ext_part m @ key_part m)"
    by (simp add: write_message_details_parts [OF wf] two)
  note defs = process_first_2_bytes_def load_def reset_parser_def reset_expected_def Let_def expect_def
    parse_first_two [OF wf] h
  show ?thesis
  proof (cases "m_payload_len m > 125")
    case True
    with len have "ext_part m \<noteq> []"
      by (rule_tac payload_len_cases [OF len]) (auto simp: ext_part_def write_number_Suc eval_nat_numeral)
    moreover have "m_current_state ?p = waiting_for_ext_len"
      unfolding p using True by (simp add: defs)
    moreover have "m_expected_data ?p = \<lparr>m_expected_size = length (ext_part m), m_loaded_data = []\<rparr>"
      unfolding p using True by (rule_tac payload_len_cases [OF len]) (auto simp: defs ext_part_def)
    ultimately show ?thesis using parse_ext_phase [OF wf _ _ _ msg, of "n + 2" data]
      unfolding * total by (simp add: add.assoc)
  next
    case short: False
    with len have x: "ext_part m = []" and "m_ext_payload_len m = 0"
      using wf by (auto simp: ext_part_def wf_details_def elim: payload_len_cases)
    then have m: "head_msg m = m\<lparr>m_masking_key := 0\<rparr>" by (simp add: head_msg_def)
    show ?thesis
    proof (cases "m_mask_flag m")
      case True
      have "m_current_state ?p = waiting_for_mask_key" "m_expected_data ?p = \<lparr>m_expected_size = 4, m_loaded_data = []\<rparr>"
        unfolding p using short True by (simp_all add: defs)
      from parse_key_phase [OF this, of "n + 2" "m_masking_key m" data] msg m True h
      show ?thesis unfolding * total by (auto simp: x key_part_def mask_octets_def add.assoc)
    next
      case False
      then have "head_msg m = m" using m wf by (simp add: wf_details_def)
      moreover have "header_parsed ?p"
        unfolding p using short False by (simp add: defs header_parsed_def)
      ultimately show ?thesis using msg False unfolding * total by (simp add: x key_part_def)
    qed
  qed
qed

text \<open>The bytes as they arrive: one call of \<open>parser_execute\<close> for each piece read.\<close>

fun feed :: "raw_data_t list \<Rightarrow> ws_parser_t \<Rightarrow> exception_t + ws_parser_t" where
  "feed [] p = Inr p"
| "feed (c # cs) p = rbind (parser_execute c p) (\<lambda>(n, p). feed cs p)"

lemma feed_eq: "feed cs p = rbind (parser_loop n (concat cs) p) (\<lambda>(m, q). Inr q)"
proof (induction cs arbitrary: n p)
  case (Cons c cs)
  show ?case
  proof (cases "parser_loop 0 c p")
    case (Inl e)
    then show ?thesis using parser_loop_from [of 0 n c p]
      by (simp add: parser_execute_def parser_loop_append)
  next
    case (Inr v)
    obtain m q where v: "v = (m, q)" by (cases v)
    have "parser_loop n c p = Inr (m + n, q)"
      using parser_loop_from [of 0 n c p] Inr v by simp
    then show ?thesis using Inr v Cons [of q "m + n"]
      by (simp add: parser_execute_def parser_loop_append)
  qed
qed simp

lemma parser_loop_pieces:
  assumes "parser_loop 0 (a @ c @ rest) p = Inr (length (a @ c), q)"
  shows "\<exists>r. parser_loop 0 a p = Inr (length a, r) \<and> parser_loop 0 (c @ rest) r = Inr (length c, q)"
proof (cases "parser_loop 0 a p")
  case (Inl e)
  with assms show ?thesis by (simp add: parser_loop_append [of 0 a])
next
  case (Inr v)
  obtain k r where v: "v = (k, r)" by (cases v)
  then have r: "parser_loop 0 a p = Inr (k, r)" using Inr by simp
  then have k: "k \<le> length a" using parser_loop_count [of 0 a p k r] by simp
  have rest: "parser_loop k (c @ rest) r = Inr (length (a @ c), q)"
    using assms r by (simp add: parser_loop_append [of 0 a])
  have c: "parser_loop 0 (c @ rest) r = Inr (length (a @ c) - k, q)"
  proof -
    have "rbind (parser_loop 0 (c @ rest) r) (\<lambda>(m, q). Inr (m + k, q)) = Inr (length (a @ c), q)"
      using parser_loop_from [of 0 k "c @ rest" r] rest by simp
    then show ?thesis by (auto simp: result_simps)
  qed
  show ?thesis
  proof (cases "header_parsed r")
    case True
    then have "length a + length c = k" using rest by simp
    then have "k = length a" and "length c = 0" using k by linarith+
    then show ?thesis using r c by simp
  next
    case False
    then have "k = length a" using parser_loop_all [OF r] by simp
    then show ?thesis using r c by simp
  qed
qed

text \<open>
  C36: a frame header that the writer produces is read back exactly, however the connection cuts
  its bytes into pieces and whatever follows: feeding the pieces to a reset parser raises no
  exception, the last call consumes just the bytes of the header, and the message details are
  those written (flags, opcode, mask, both codings of the length, and the key).
\<close>

theorem frame_header_roundtrip:
  assumes "wf_details m" and "concat cs @ c = write_message_details m"
  shows "\<exists>p q. feed cs (reset_parser p0) = Inr p \<and> parser_execute (c @ rest) p = Inr (length c, q) \<and>
    header_parsed q \<and> m_current_msg q = m"
proof -
  from parse_written [OF assms(1), of 0 rest p0] obtain q where
    q: "parser_loop 0 (concat cs @ c @ rest) (reset_parser p0) = Inr (length (concat cs @ c), q)"
      "header_parsed q" "m_current_msg q = m"
    by (auto simp: assms(2) [symmetric])
  from parser_loop_pieces [OF q(1)] q(2,3) show ?thesis
    by (auto simp: feed_eq [of _ _ 0] parser_execute_def)
qed

theorem frame_header_roundtrip_witness:
  "\<exists>p q. feed [[0x81], [0xFE, 0x00]] (reset_parser ws_parser_start) = Inr p \<and>
     parser_execute ([0x80, 0x37, 0xFA, 0x21, 0x3D] @ [0x7F, 0x9F]) p = Inr (5, q) \<and>
     header_parsed q \<and> m_current_msg q = masked_message_details final_frame text_frame 128 0x37FA213D"
proof -
  let ?m = "masked_message_details final_frame text_frame 128 0x37FA213D"
  have m: "?m = \<lparr>m_final_flag = True, m_rsv1_flag = False, m_rsv2_flag = False,
     m_rsv3_flag = False, m_opcode = text_frame, m_mask_flag = True, m_payload_len = 126,
     m_ext_payload_len = 128, m_masking_key = 0x37FA213D\<rparr>"
    by (simp add: masked_message_details_def init_payload_len_def default_details_def)
  have wf: "wf_details ?m" unfolding m by (simp add: wf_details_def opcode_of_code_def)
  have w: "concat [[0x81], [0xFE, 0x00]] @ [0x80, 0x37, 0xFA, 0x21, 0x3D] = write_message_details ?m"
    unfolding m by (simp add: write_message_details_def flag_bit_def Let_def mask_octets_def octet_bits
        write_number_to_big_endian_bytes_def upt_rec)
  from frame_header_roundtrip [OF wf w, of ws_parser_start "[0x7F, 0x9F]"] show ?thesis
    by (simp add: eval_nat_numeral)
qed

end
