(* ===== verification/SrvHandler.thy ===== *)
theory SrvHandler
  imports SrvRegistry SrvPercent WsFrame
begin

text \<open>
  The treat server: \<open>FoodgiverServer.hpp\<close> and \<open>FoodgiverServer.cpp\<close>. Mobile apps connect by
  WebSocket, say which feeder they belong to, and answer its treat requests; the feeder posts
  a request and polls for the answer over HTTP. The state is the registry; the handlers return
  the new registry, what they send on the sockets, and the HTTP response. RESTinio's
  connection numbers are 64-bit words.
\<close>

section \<open>Data\<close>

definition REPLY_UNDEF :: string where "REPLY_UNDEF = ''no reply yet''"
definition REPLY_DENY :: string where "REPLY_DENY = ''deny''"
definition REPLY_ALLOW :: string where "REPLY_ALLOW = ''allow''"

type_synonym conn = "64 word"

record fgSocketData =
  fg_id :: int
  ws_handle :: conn
  reply :: string

type_synonym registry_t = "(conn, fgSocketData) registry"

record http_reply =
  http_status :: nat
  http_headers :: "(string \<times> string) list"
  http_body :: string
  http_close :: bool

definition create_response :: http_reply where
  "create_response = \<lparr>http_status = 200, http_headers = [], http_body = [], http_close = False\<rparr>"

definition mark_as_bad_request :: "http_reply \<Rightarrow> http_reply" where
  "mark_as_bad_request resp = resp\<lparr>http_status := 400\<rparr>"

definition set_body :: "string \<Rightarrow> http_reply \<Rightarrow> http_reply" where
  "set_body b resp = resp\<lparr>http_body := b\<rparr>"

definition append_headers :: "(string \<times> string) list \<Rightarrow> http_reply \<Rightarrow> http_reply" where
  "append_headers hs resp = resp\<lparr>http_headers := http_headers resp @ hs\<rparr>"

text \<open>\<open>date\<close> is what RESTinio puts in the date field.\<close>

definition init_resp :: "string \<Rightarrow> http_reply \<Rightarrow> http_reply" where
  "init_resp date resp = append_headers [(''Server'', ''Foodgiver Server /v.0.9''), (''Date'', date)] resp"

text \<open>What goes out on a socket: the connection and the payload of a text frame.\<close>

type_synonym ws_out = "(conn \<times> string) list"

section \<open>The HTTP handlers\<close>

text \<open>The device number of the path: \<open>None\<close> for an exception of the decoder or of \<open>stoi\<close>.\<close>

definition dev_id_param :: "string \<Rightarrow> int option" where
  "dev_id_param p =
     (case unescape_percent_encoding p of
        Inl e \<Rightarrow> None
      | Inr s \<Rightarrow> (case stoi s of Inl e \<Rightarrow> None | Inr i \<Rightarrow> Some i))"

fun check_loop :: "int \<Rightarrow> bool \<times> http_reply \<Rightarrow> registry_t \<Rightarrow> bool \<times> http_reply" where
  "check_loop dev_id s [] = s"
| "check_loop dev_id (found, resp) ((k, v) # es) =
     (if fg_id v = dev_id
      then check_loop dev_id (True, set_body (''Mobile app present'' @ [CHR 0x0A]) resp) es
      else check_loop dev_id (found, resp) es)"

definition onGetCheckId :: "string \<Rightarrow> string \<Rightarrow> registry_t \<Rightarrow> http_reply" where
  "onGetCheckId date p reg =
     (let resp = init_resp date create_response
      in case dev_id_param p of
           None \<Rightarrow> mark_as_bad_request resp
         | Some dev_id \<Rightarrow>
             (case check_loop dev_id (False, resp) reg of (found, resp) \<Rightarrow>
                if \<not> found then set_body ''Mobile app not found'' resp else resp))"

text \<open>The loop of \<open>onGetReqTreat\<close> returns from inside at the first match.\<close>

fun get_loop :: "int \<Rightarrow> http_reply \<Rightarrow> registry_t \<Rightarrow> registry_t \<Rightarrow> (http_reply \<times> registry_t) option" where
  "get_loop dev_id resp reg [] = None"
| "get_loop dev_id resp reg ((k, v) # es) =
     (if fg_id v = dev_id
      then Some (set_body (reply v) resp,
             (case reg_find k reg of None \<Rightarrow> reg | Some d \<Rightarrow> reg_assign k (d\<lparr>reply := REPLY_UNDEF\<rparr>) reg))
      else get_loop dev_id resp reg es)"

definition onGetReqTreat :: "string \<Rightarrow> string \<Rightarrow> registry_t \<Rightarrow> http_reply \<times> registry_t" where
  "onGetReqTreat date p reg =
     (let resp = init_resp date create_response
      in case dev_id_param p of
           None \<Rightarrow> (mark_as_bad_request resp, reg)
         | Some dev_id \<Rightarrow>
             (case get_loop dev_id resp reg reg of
                Some r \<Rightarrow> r
              | None \<Rightarrow> (set_body ''Mobile app not found'' resp, reg)))"

text \<open>The loop of \<open>onPostReqTreat\<close>: \<open>found\<close>, the response, and what was sent.\<close>

fun post_loop :: "int \<Rightarrow> bool \<times> http_reply \<times> ws_out \<Rightarrow> registry_t \<Rightarrow> bool \<times> http_reply \<times> ws_out" where
  "post_loop dev_id s [] = s"
| "post_loop dev_id (found, resp, out) ((k, v) # es) =
     (let (found, out) = (if fg_id v = dev_id then (True, out @ [(ws_handle v, ''treat request'')])
                          else (found, out));
          resp = (if found = False then set_body ''No mobile app with this id found'' resp else resp)
      in post_loop dev_id (found, resp, out) es)"

definition onPostReqTreat :: "string \<Rightarrow> string \<Rightarrow> registry_t \<Rightarrow> http_reply \<times> ws_out" where
  "onPostReqTreat date p reg =
     (let resp = init_resp date create_response
      in case dev_id_param p of
           None \<Rightarrow> (mark_as_bad_request resp, [])
         | Some dev_id \<Rightarrow>
             (case post_loop dev_id (False, resp, []) reg of (found, resp, out) \<Rightarrow> (resp, out)))"

definition options :: "string \<Rightarrow> http_reply" where
  "options date = append_headers [(''Access-Control-Allow-Methods'', ''OPTIONS, GET, POST''),
     (''Access-Control-Allow-Headers'', ''content-type''), (''Access-Control-Max-Age'', ''86400'')]
     (init_resp date create_response)"

fun sendMessage :: "int \<Rightarrow> string \<Rightarrow> registry_t \<Rightarrow> ws_out" where
  "sendMessage i message [] = []"
| "sendMessage i message ((k, v) # es) =
     (if fg_id v = i then (ws_handle v, message) # sendMessage i message es else sendMessage i message es)"

section \<open>The WebSocket handlers\<close>

datatype srv_fault = StoiThrows stoi_error | DereferencesEnd

text \<open>\<open>payload.find_first_of('_') + 1\<close>; \<open>npos + 1\<close> is 0.\<close>

definition id_pos :: "string \<Rightarrow> nat" where
  "id_pos payload = (case find_char CHR ''_'' payload of None \<Rightarrow> 0 | Some i \<Rightarrow> i + 1)"

definition has :: "string \<Rightarrow> string \<Rightarrow> bool" where
  "has p s \<longleftrightarrow> find_sub p s \<noteq> None"

definition handleWsMessage :: "conn \<Rightarrow> string \<Rightarrow> registry_t \<Rightarrow> srv_fault + (string \<times> registry_t)" where
  "handleWsMessage wsh payload reg =
     (let pos = id_pos payload
      in case stoi (substr payload pos (pos + 2)) of
           Inl e \<Rightarrow> Inl (StoiThrows e)
         | Inr i \<Rightarrow>
             if has ''auth'' payload then
               (case reg_find wsh reg of
                  None \<Rightarrow> Inl DereferencesEnd
                | Some d \<Rightarrow> Inr (payload, reg_assign wsh (d\<lparr>fg_id := i\<rparr>) reg))
             else if has ''treat ack'' payload then
               Inr (''Treat request acknowledged, relaying msg to device'' @ [CHR 0x0A],
                 (case reg_find wsh reg of None \<Rightarrow> reg | Some d \<Rightarrow> reg_assign wsh (d\<lparr>reply := REPLY_ALLOW\<rparr>) reg))
             else if has ''treat nack'' payload then
               Inr (''Treat request not acknowledged, relaying msg to device'' @ [CHR 0x0A],
                 (case reg_find wsh reg of None \<Rightarrow> reg | Some d \<Rightarrow> reg_assign wsh (d\<lparr>reply := REPLY_DENY\<rparr>) reg))
             else Inr (payload, reg))"

text \<open>The message callback: the new registry and the frames sent, each with its opcode.\<close>

definition onWsFrame ::
    "conn \<Rightarrow> opcode_t \<Rightarrow> string \<Rightarrow> registry_t \<Rightarrow> srv_fault + (registry_t \<times> (conn \<times> opcode_t \<times> string) list)" where
  "onWsFrame wsh op payload reg =
     (if op = text_frame \<or> op = binary_frame \<or> op = continuation_frame then
        rbind (handleWsMessage wsh payload reg) (\<lambda>(response, reg). Inr (reg, [(wsh, op, response)]))
      else if op = ping_frame then Inr (reg, [(wsh, pong_frame, payload)])
      else if op = connection_close_frame then Inr (reg_erase wsh reg, [])
      else Inr (reg, []))"

text \<open>
  What a request says of its connection: an upgrade, with the \<open>Sec-WebSocket-Key\<close> if there is one,
  or anything else.
\<close>

datatype http_connection_header = conn_upgrade "string option" | conn_other

datatype request_handling_status = request_accepted | request_rejected

datatype connect_exception = NoWebSocketKey | ConnectionMoved

text \<open>
  RESTinio's \<open>upgrade\<close> throws when the key is missing. Otherwise it moves the connection out of the
  request, so that \<open>req->create_response()\<close>, which comes after the registration of the app,
  throws: \<open>request_accepted\<close> is never returned.
\<close>

definition onWebsocketConnect :: "http_connection_header \<Rightarrow> conn \<Rightarrow> registry_t \<Rightarrow>
    (connect_exception + request_handling_status) \<times> registry_t" where
  "onWebsocketConnect upgrade wsh reg =
     (case upgrade of
        conn_upgrade None \<Rightarrow> (Inl NoWebSocketKey, reg)
      | conn_upgrade (Some key) \<Rightarrow>
          (Inl ConnectionMoved, reg_emplace wsh \<lparr>fg_id = -1, ws_handle = wsh, reply = REPLY_UNDEF\<rparr> reg)
      | conn_other \<Rightarrow> (Inr request_rejected, reg))"

section \<open>The server as a system of events\<close>

datatype event =
    Connect http_connection_header conn
  | Frame conn opcode_t string
  | Post string
  | Get string string
  | Check string

fun srv_step :: "event \<Rightarrow> registry_t \<Rightarrow> srv_fault + registry_t" where
  "srv_step (Connect up c) reg = Inr (snd (onWebsocketConnect up c reg))"
| "srv_step (Frame c op p) reg = rbind (onWsFrame c op p reg) (\<lambda>(reg, out). Inr reg)"
| "srv_step (Post p) reg = Inr reg"
| "srv_step (Get date p) reg = Inr (snd (onGetReqTreat date p reg))"
| "srv_step (Check p) reg = Inr reg"

inductive srv_reach :: "registry_t \<Rightarrow> bool" where
  srv_start: "srv_reach []"
| srv_event: "srv_reach reg \<Longrightarrow> srv_step e reg = Inr reg' \<Longrightarrow> srv_reach reg'"

section \<open>Lemmas\<close>

lemma get_loop_eq:
  "get_loop d resp reg es =
     map_option (\<lambda>(k, v). (set_body (reply v) resp,
       (case reg_find k reg of None \<Rightarrow> reg | Some w \<Rightarrow> reg_assign k (w\<lparr>reply := REPLY_UNDEF\<rparr>) reg)))
     (List.find (\<lambda>e. fg_id (snd e) = d) es)"
  by (induction d resp reg es rule: get_loop.induct) auto

lemma check_loop_eq:
  "check_loop d (found, resp) es =
     (found \<or> (\<exists>e \<in> set es. fg_id (snd e) = d),
      if \<exists>e \<in> set es. fg_id (snd e) = d then set_body (''Mobile app present'' @ [CHR 0x0A]) resp else resp)"
  by (induction d "(found, resp)" es arbitrary: found resp rule: check_loop.induct)
     (auto simp: set_body_def)

definition matching :: "int \<Rightarrow> registry_t \<Rightarrow> registry_t" where
  "matching d es = filter (\<lambda>e. fg_id (snd e) = d) es"

lemma post_loop_eq:
  "post_loop d (found, resp, out) es =
     (found \<or> matching d es \<noteq> [],
      if found \<or> es = [] \<or> fg_id (snd (hd es)) = d then resp
      else set_body ''No mobile app with this id found'' resp,
      out @ map (\<lambda>e. (ws_handle (snd e), ''treat request'')) (matching d es))"
proof (induction es arbitrary: found resp out)
  case (Cons e es)
  obtain k v where e: "e = (k, v)" by (cases e)
  have idem: "set_body b (set_body b r) = set_body b r" for b r by (simp add: set_body_def)
  show ?case
    using Cons.IH by (simp add: e matching_def idem Let_def)
qed (simp add: matching_def)

lemma sendMessage_eq: "sendMessage d m es = map (\<lambda>e. (ws_handle (snd e), m)) (matching d es)"
  by (induction d m es rule: sendMessage.induct) (auto simp: matching_def)

lemma dev_id_param_decimal:
  assumes "n \<le> 2147483647"
  shows "dev_id_param (show_nat n) = Some (int n)"
proof -
  have "ordinary_char c" if "dec_digit c" for c
    using that by (auto simp: ordinary_char_def dec_digit_def less_eq_char_def)
  then have "list_all ordinary_char (show_nat n)" using show_nat_digits by (auto simp: list_all_iff)
  from unescape_plain [OF this] show ?thesis
    using stoi_show_nat [OF assms, of "[]"] by (simp add: dev_id_param_def)
qed

text \<open>What every reachable registry satisfies.\<close>

definition srv_inv :: "registry_t \<Rightarrow> bool" where
  "srv_inv reg \<longleftrightarrow> reg_ok reg \<and>
     (\<forall>k v. reg_find k reg = Some v \<longrightarrow>
        ws_handle v = k \<and> reply v \<in> {REPLY_UNDEF, REPLY_ALLOW, REPLY_DENY})"

lemma srv_inv_assign:
  assumes "srv_inv reg" and "reg_find k reg = Some d" and "ws_handle v = ws_handle d"
    and "reply v \<in> {REPLY_UNDEF, REPLY_ALLOW, REPLY_DENY}"
  shows "srv_inv (reg_assign k v reg)"
  using assms reg.find_assign [of reg] reg.ok_assign [of reg k v] by (auto simp: srv_inv_def)

lemma srv_inv_message:
  assumes "srv_inv reg" and "handleWsMessage c p reg = Inr (r, reg')"
  shows "srv_inv reg'"
proof -
  have inv: "reply d \<in> {REPLY_UNDEF, REPLY_ALLOW, REPLY_DENY}" if "reg_find c reg = Some d" for d
    using assms(1) that by (auto simp: srv_inv_def)
  show ?thesis
    using assms(2) srv_inv_assign [OF assms(1), of c] assms(1) inv
    by (auto simp: handleWsMessage_def Let_def split: sum.splits if_splits option.splits)
qed

lemma srv_inv_step:
  assumes "srv_inv reg" and "srv_step e reg = Inr reg'"
  shows "srv_inv reg'"
proof (cases e)
  case (Connect up c)
  have ok: "reg_ok reg" using assms(1) by (simp add: srv_inv_def)
  let ?d = "\<lparr>fg_id = -1, ws_handle = c, reply = REPLY_UNDEF\<rparr>"
  have "srv_inv (reg_emplace c ?d reg)"
    unfolding srv_inv_def
  proof (intro conjI allI impI)
    fix k v assume "reg_find k (reg_emplace c ?d reg) = Some v"
    then have "(k = c \<and> v = ?d) \<or> reg_find k reg = Some v"
      using reg.find_emplace [OF ok, of k c ?d] by (auto split: if_splits option.splits)
    then show "ws_handle v = k" "reply v \<in> {REPLY_UNDEF, REPLY_ALLOW, REPLY_DENY}"
      using assms(1) by (auto simp: srv_inv_def)
  qed (rule reg.ok_emplace [OF ok])
  then show ?thesis
    using assms Connect by (auto simp: onWebsocketConnect_def split: http_connection_header.splits option.splits)
next
  case (Frame c op p)
  have ok: "reg_ok reg" using assms(1) by (simp add: srv_inv_def)
  have er: "srv_inv (reg_erase c reg)"
    using assms(1) reg.ok_erase [OF ok] reg.find_erase [OF ok] by (auto simp: srv_inv_def split: if_splits)
  show ?thesis
    using assms Frame er srv_inv_message [OF assms(1), of c p]
    by (auto simp: onWsFrame_def result_simps split: if_splits prod.splits)
next
  case (Get date p)
  have "srv_inv (snd r)" if g: "get_loop d resp reg reg = Some r" for d resp r
  proof -
    from g obtain e where f: "List.find (\<lambda>e. fg_id (snd e) = d) reg = Some e"
      unfolding get_loop_eq by (cases "List.find (\<lambda>e. fg_id (snd e) = d) reg") auto
    obtain k v where e: "e = (k, v)" by (cases e)
    have "r = (set_body (reply v) resp,
        (case reg_find k reg of None \<Rightarrow> reg | Some w \<Rightarrow> reg_assign k (w\<lparr>reply := REPLY_UNDEF\<rparr>) reg))"
      using g f by (simp add: get_loop_eq e)
    then show ?thesis using assms(1) srv_inv_assign [OF assms(1), of k] by (cases "reg_find k reg") auto
  qed
  then show ?thesis
    using assms Get by (auto simp: onGetReqTreat_def Let_def split: option.splits)
qed (use assms in auto)

lemma srv_reach_inv: "srv_reach reg \<Longrightarrow> srv_inv reg"
proof (induction rule: srv_reach.induct)
  case srv_start
  then show ?case by (simp add: srv_inv_def reg_find_def)
next
  case (srv_event reg e reg')
  then show ?case using srv_inv_step by blast
qed

text \<open>The connection that answers for a feeder: the one with the least number that claims it.\<close>

definition first_for :: "int \<Rightarrow> conn \<Rightarrow> registry_t \<Rightarrow> bool" where
  "first_for d k reg \<longleftrightarrow> (\<exists>v. reg_find k reg = Some v \<and> fg_id v = d) \<and>
     (\<forall>k' v. k' < k \<longrightarrow> reg_find k' reg = Some v \<longrightarrow> fg_id v \<noteq> d)"

lemma get_first:
  assumes "reg_ok reg" and "first_for d k reg" and "reg_find k reg = Some v" and "dev_id_param p = Some d"
  shows "onGetReqTreat date p reg = (set_body (reply v) (init_resp date create_response), reg_assign k (v\<lparr>reply := REPLY_UNDEF\<rparr>) reg)"
proof -
  have "List.find (\<lambda>e. fg_id (snd e) = d) reg = Some (k, v)"
    using assms(1-3) by (intro reg.first_entry_least [where P = "\<lambda>v. fg_id v = d"])
      (auto simp: first_for_def)
  then show ?thesis using assms(3,4) by (simp add: onGetReqTreat_def Let_def get_loop_eq)
qed

lemma first_for_assign:
  assumes "reg_ok reg" and "first_for d k reg" and "reg_find k reg = Some v" and "fg_id w = fg_id v"
  shows "first_for d k (reg_assign k w reg)"
  using assms reg.find_assign [OF assms(1)] by (auto simp: first_for_def)

lemma get_absent:
  assumes "reg_ok reg" and "\<forall>k v. reg_find k reg = Some v \<longrightarrow> fg_id v \<noteq> d" and "dev_id_param p = Some d"
  shows "onGetReqTreat date p reg = (set_body ''Mobile app not found'' (init_resp date create_response), reg)"
proof -
  have "List.find (\<lambda>e. fg_id (snd e) = d) reg = None"
    using reg.no_entry(2) [OF assms(1), of "\<lambda>v. fg_id v = d"] assms(2) by auto
  then show ?thesis using assms(3) by (simp add: onGetReqTreat_def Let_def get_loop_eq)
qed

subsection \<open>The messages of the mobile app\<close>

definition auth_message :: "nat \<Rightarrow> string" where
  "auth_message n = ''auth_'' @ show_nat n"

definition answer_message :: "bool \<Rightarrow> nat \<Rightarrow> string" where
  "answer_message ok n = (if ok then ''treat ack_'' else ''treat nack_'') @ show_nat n"

lemma has_append: "has p (p @ s)"
proof (cases "p @ s")
  case (Cons c t)
  then have "prefix p (c # t)" by (metis prefixI)
  then show ?thesis by (simp add: has_def Cons)
qed (simp add: has_def)

lemma message_id:
  assumes "CHR ''_'' \<notin> set h" and "n \<le> 2147483647" and "length (show_nat n) \<le> length h + 3"
  shows "stoi (substr (h @ CHR ''_'' # show_nat n) (id_pos (h @ CHR ''_'' # show_nat n))
    (id_pos (h @ CHR ''_'' # show_nat n) + 2)) = Inr (int n)"
proof -
  have "id_pos (h @ CHR ''_'' # show_nat n) = length h + 1"
    using assms(1) by (simp add: id_pos_def find_char_append)
  then show ?thesis
    using assms(3) stoi_show_nat [OF assms(2), of "[]"] by (simp add: substr_def)
qed

lemma digit_no_letter: "dec_digit c \<Longrightarrow> c \<notin> set ''auth treat nack_''"
  by (auto simp: dec_digit_def)

text \<open>A pattern that begins with a letter is not found in digits, and not across them.\<close>

lemma find_answer:
  "\<not> has ''auth'' (answer_message ok n)" "has ''treat ack'' (answer_message True n)"
  "\<not> has ''treat ack'' (answer_message False n)" "has ''treat nack'' (answer_message False n)"
proof -
  have no: "find_sub (c # p) (show_nat n) = None" if "c \<in> set ''auth treat nack_''" for c p
  proof -
    have "c \<notin> set (show_nat n)" using that show_nat_digits digit_no_letter by blast
    then show ?thesis by (auto simp: find_sub_None_iff dest: set_mono_sublist)
  qed
  have a: "CHR ''a'' \<in> set ''auth treat nack_''" "CHR ''t'' \<in> set ''auth treat nack_''" by simp_all
  show "\<not> has ''auth'' (answer_message ok n)" "\<not> has ''treat ack'' (answer_message False n)"
    using no [OF a(1)] no [OF a(2)] by (auto simp: has_def answer_message_def)
  show "has ''treat ack'' (answer_message True n)" "has ''treat nack'' (answer_message False n)"
    using has_append [of "''treat ack''" "CHR ''_'' # show_nat n"] has_append [of "''treat nack''" "CHR ''_'' # show_nat n"]
    by (simp_all add: answer_message_def)
qed

definition acknowledgement :: "bool \<Rightarrow> string" where
  "acknowledgement ok = (if ok then ''Treat request acknowledged, relaying msg to device''
     else ''Treat request not acknowledged, relaying msg to device'') @ [CHR 0x0A]"

lemma handle_answer_reply:
  assumes "reg_find k reg = Some v" and "n < 100000"
  shows "handleWsMessage k (answer_message ok n) reg =
    Inr (acknowledgement ok, reg_assign k (v\<lparr>reply := (if ok then REPLY_ALLOW else REPLY_DENY)\<rparr>) reg)"
proof -
  have l: "length (show_nat n) \<le> 5" using length_show_nat [of 5 n] assms(2) by simp
  have "stoi (substr (answer_message ok n) (id_pos (answer_message ok n)) (id_pos (answer_message ok n) + 2)) = Inr (int n)"
    using message_id [of "''treat ack''" n] message_id [of "''treat nack''" n] assms(2) l
    by (simp add: answer_message_def)
  then show ?thesis
    using assms(1) find_answer by (cases ok) (auto simp: handleWsMessage_def acknowledgement_def Let_def)
qed

lemma handle_answer:
  assumes "reg_find k reg = Some v" and "n < 100000"
  shows "\<exists>r. handleWsMessage k (answer_message ok n) reg =
    Inr (r, reg_assign k (v\<lparr>reply := (if ok then REPLY_ALLOW else REPLY_DENY)\<rparr>) reg)"
  using handle_answer_reply [OF assms] by blast

text \<open>A message with none of the words of the protocol changes nothing, whether its id can be read or not.\<close>

definition says_nothing :: "string \<Rightarrow> bool" where
  "says_nothing p \<longleftrightarrow> \<not> has ''auth'' p \<and> \<not> has ''treat ack'' p \<and> \<not> has ''treat nack'' p"

lemma nothing_said: "says_nothing p \<Longrightarrow> handleWsMessage k p reg = Inr (r, reg') \<Longrightarrow> reg' = reg"
  by (auto simp: handleWsMessage_def says_nothing_def Let_def split: sum.splits)

lemma handle_auth:
  assumes "reg_find k reg = Some v" and "n < 100000"
  shows "handleWsMessage k (auth_message n) reg = Inr (auth_message n, reg_assign k (v\<lparr>fg_id := int n\<rparr>) reg)"
proof -
  have l: "length (show_nat n) \<le> 5" using length_show_nat [of 5 n] assms(2) by simp
  have "stoi (substr (auth_message n) (id_pos (auth_message n)) (id_pos (auth_message n) + 2)) = Inr (int n)"
    using message_id [of "''auth''" n] assms(2) l by (simp add: auth_message_def)
  moreover have "has ''auth'' (auth_message n)"
    using has_append [of "''auth''" "CHR ''_'' # show_nat n"] by (simp add: auth_message_def)
  ultimately show ?thesis using assms(1) by (simp add: handleWsMessage_def Let_def)
qed

end
