(* ===== verification/SrvServer.thy ===== *)
theory SrvServer
  imports SrvHandler
begin

text \<open>
  The HTTP side of the treat server as a whole: the router that \<open>server_handler\<close> of
  \<open>FoodgiverServer.cpp\<close> builds, and what its handlers do for a request. A route of RESTinio's
  Express router is a regular expression made from the route's path: a literal path ends in
  an optional slash, and a parameter \<open>:dev_id\<close> stands for one or more characters that are not
  slashes. Letters are compared without case. The routes are tried in the order of their
  registration.
\<close>

section \<open>Routes\<close>

datatype http_method = M_GET | M_POST | M_OPTIONS | M_OTHER string

definition to_lower :: "char \<Rightarrow> char" where
  "to_lower c = (if CHR ''A'' \<le> c \<and> c \<le> CHR ''Z'' then char_of (of_char c + 32 :: nat) else c)"

text \<open>The match of \<open>^<path>(?:/)?$\<close> and of \<open>^<path>([^/]+?)(?:/)?$\<close>, with its parameter.\<close>

definition path_match :: "string \<Rightarrow> string \<Rightarrow> bool" where
  "path_match route_path target =
     (map to_lower target = map to_lower route_path \<or> map to_lower target = map to_lower route_path @ ''/'')"

definition param_match :: "string \<Rightarrow> string \<Rightarrow> string option" where
  "param_match route_path target =
     (let n = length route_path; rest = drop n target;
          dev_id = takeWhile (\<lambda>c. c \<noteq> CHR ''/'') rest;
          tail = dropWhile (\<lambda>c. c \<noteq> CHR ''/'') rest
      in if map to_lower (take n target) = map to_lower route_path \<and> dev_id \<noteq> [] \<and> (tail = [] \<or> tail = ''/'')
         then Some dev_id else None)"

datatype route =
  Options | Chat | Check_id string | Get_treat string | Post_treat string | Not_allowed | Not_handled

definition server_handler :: "http_method \<Rightarrow> string \<Rightarrow> route" where
  "server_handler m p =
     (if m = M_OPTIONS \<and> path_match ''/'' p then Options
      else if m = M_GET \<and> path_match ''/chat'' p then Chat
      else if m = M_GET \<and> param_match ''/check/'' p \<noteq> None then Check_id (the (param_match ''/check/'' p))
      else if m = M_GET \<and> param_match ''/req_treat/'' p \<noteq> None then Get_treat (the (param_match ''/req_treat/'' p))
      else if m = M_POST \<and> param_match ''/req_treat/'' p \<noteq> None then Post_treat (the (param_match ''/req_treat/'' p))
      else if m \<noteq> M_GET \<and> m \<noteq> M_POST \<and> path_match ''/'' p then Not_allowed
      else Not_handled)"

definition method_not_allowed :: http_reply where
  "method_not_allowed = create_response\<lparr>http_status := 405, http_close := True\<rparr>"

section \<open>A request\<close>

text \<open>
  What a request does: the response, if a handler makes one, the registry, and the frames
  sent. \<open>upgrade\<close> and \<open>c\<close> are the connection field of the request and the number its
  WebSocket would get.
\<close>

datatype outcome = Answer http_reply | Accepted | Rejected | Throws connect_exception

definition http_request ::
    "string \<Rightarrow> http_connection_header \<Rightarrow> conn \<Rightarrow> http_method \<Rightarrow> string \<Rightarrow> registry_t \<Rightarrow> outcome \<times> registry_t \<times> ws_out" where
  "http_request date upgrade c m path reg =
     (case server_handler m path of
        Options \<Rightarrow> (Answer (options date), reg, [])
      | Chat \<Rightarrow>
          (case onWebsocketConnect upgrade c reg of (r, reg) \<Rightarrow>
             (case r of Inl e \<Rightarrow> Throws e
              | Inr request_accepted \<Rightarrow> Accepted | Inr request_rejected \<Rightarrow> Rejected, reg, []))
      | Check_id p \<Rightarrow> (Answer (onGetCheckId date p reg), reg, [])
      | Get_treat p \<Rightarrow> (case onGetReqTreat date p reg of (resp, reg) \<Rightarrow> (Answer resp, reg, []))
      | Post_treat p \<Rightarrow> (case onPostReqTreat date p reg of (resp, out) \<Rightarrow> (Answer resp, reg, out))
      | Not_allowed \<Rightarrow> (Answer method_not_allowed, reg, [])
      | Not_handled \<Rightarrow> (Rejected, reg, []))"

section \<open>Lemmas\<close>

lemma param_match_number:
  "param_match route_path (route_path @ show_nat n) = Some (show_nat n)"
proof -
  have "c \<noteq> CHR ''/''" if "c \<in> set (show_nat n)" for c
    using show_nat_digits [OF that] by (auto simp: dec_digit_def)
  then have t: "takeWhile (\<lambda>c. c \<noteq> CHR ''/'') (show_nat n) = show_nat n"
    "dropWhile (\<lambda>c. c \<noteq> CHR ''/'') (show_nat n) = []"
    by (auto simp: takeWhile_eq_all_conv)
  have "drop (length route_path) (route_path @ show_nat n) = show_nat n" by simp
  then show ?thesis unfolding param_match_def Let_def by (simp only: t) simp
qed

lemma route_number:
  "server_handler M_GET (''/req_treat/'' @ show_nat n) = Get_treat (show_nat n)"
  "server_handler M_POST (''/req_treat/'' @ show_nat n) = Post_treat (show_nat n)"
  "server_handler M_GET (''/check/'' @ show_nat n) = Check_id (show_nat n)"
  using param_match_number [of "''/req_treat/''" n] param_match_number [of "''/check/''" n]
  by (simp_all add: server_handler_def path_match_def param_match_def [of "''/check/''"] to_lower_def)

text \<open>A request leaves a registry that an event of the server leaves, or the registry as it was.\<close>

lemma http_request_reach:
  assumes "srv_reach reg" and "http_request date up c m path reg = (r, reg', out)"
  shows "srv_reach reg'"
proof -
  have g: "srv_reach (snd (onGetReqTreat date p reg))" for p
    by (rule srv_event [OF assms(1), of "Get date p"]) simp
  have w: "srv_reach (snd (onWebsocketConnect up c reg))"
    by (rule srv_event [OF assms(1), of "Connect up c"]) simp
  show ?thesis
    using assms g w by (auto simp: http_request_def split: route.splits prod.splits)
      (metis snd_conv)+
qed

lemma get_number:
  "n \<le> 2147483647 \<Longrightarrow> http_request date up c M_GET (''/req_treat/'' @ show_nat n) reg =
    (case onGetReqTreat date (show_nat n) reg of (resp, reg) \<Rightarrow> (Answer resp, reg, []))"
  by (simp only: http_request_def route_number route.simps)

text \<open>The answer of the app that answers for a feeder, as the feeder's next request reads it.\<close>

lemma get_answered:
  assumes "srv_inv reg" and "first_for (int m) k reg" and "m \<le> 2147483647" and "n < 100000"
  obtains v where "reg_find k reg = Some v"
    and "\<exists>r. handleWsMessage k (answer_message ok n) reg =
      Inr (r, reg_assign k (v\<lparr>reply := (if ok then REPLY_ALLOW else REPLY_DENY)\<rparr>) reg)"
    and "onGetReqTreat date (show_nat m) (reg_assign k (v\<lparr>reply := (if ok then REPLY_ALLOW else REPLY_DENY)\<rparr>) reg) =
      (set_body (if ok then REPLY_ALLOW else REPLY_DENY) (init_resp date create_response),
       reg_assign k (v\<lparr>reply := REPLY_UNDEF\<rparr>) reg)"
    and "onGetReqTreat date' (show_nat m) (reg_assign k (v\<lparr>reply := REPLY_UNDEF\<rparr>) reg) =
      (set_body REPLY_UNDEF (init_resp date' create_response), reg_assign k (v\<lparr>reply := REPLY_UNDEF\<rparr>) reg)"
proof -
  have ok: "reg_ok reg" using assms(1) by (simp add: srv_inv_def)
  obtain v where v: "reg_find k reg = Some v" using assms(2) by (auto simp: first_for_def)
  have twice: "reg_assign k b (reg_assign k a reg) = reg_assign k b reg" for a b
    by (simp add: reg_assign_def)
  have get: "onGetReqTreat date (show_nat m) (reg_assign k w reg) =
      (set_body (reply w) (init_resp date create_response), reg_assign k (w\<lparr>reply := REPLY_UNDEF\<rparr>) reg)"
    if "fg_id w = fg_id v" for w date
  proof -
    have a: "reg_find k (reg_assign k w reg) = Some w" using reg.find_assign [OF ok] v by simp
    show ?thesis
      using get_first [OF reg.ok_assign [OF ok] first_for_assign [OF ok assms(2) v that] a
          dev_id_param_decimal [OF assms(3)]] by (simp add: twice)
  qed
  show thesis
    using that [OF v] handle_answer [OF v assms(4)] get by simp
qed

lemma post_number:
  assumes "srv_inv reg" and "n \<le> 2147483647"
  shows "http_request date up c M_POST (''/req_treat/'' @ show_nat n) reg =
    (Answer (if reg = [] \<or> fg_id (snd (hd reg)) = int n then init_resp date create_response
       else set_body ''No mobile app with this id found'' (init_resp date create_response)),
     reg, map (\<lambda>k. (k, ''treat request'')) (map fst (filter (\<lambda>(k, v). fg_id v = int n) reg)))"
proof -
  have h: "ws_handle (snd e) = fst e" if "e \<in> set reg" for e
    using assms(1) reg.entry_iff [of reg "fst e" "snd e"] that by (auto simp: srv_inv_def)
  have "map (\<lambda>e. (ws_handle (snd e), m)) (matching d reg) =
      map (\<lambda>k. (k, m)) (map fst (filter (\<lambda>(k, v). fg_id v = d) reg))" for m d
    using h by (auto simp: matching_def case_prod_unfold)
  then show ?thesis
    using dev_id_param_decimal [OF assms(2)]
    by (simp only: http_request_def route_number route.simps)
       (simp add: onPostReqTreat_def Let_def post_loop_eq)
qed

lemma check_number:
  assumes "n \<le> 2147483647"
  shows "http_request date up c M_GET (''/check/'' @ show_nat n) reg =
    (Answer (set_body (if \<exists>e \<in> set reg. fg_id (snd e) = int n then ''Mobile app present'' @ [CHR 0x0A]
       else ''Mobile app not found'') (init_resp date create_response)), reg, [])"
  using dev_id_param_decimal [OF assms]
  by (simp only: http_request_def route_number route.simps)
     (simp add: onGetCheckId_def Let_def check_loop_eq)

text \<open>A payload without an underscore is read from its beginning, and must be a number there.\<close>

lemma message_not_number:
  assumes "CHR ''_'' \<notin> set p" and "p = [] \<or> \<not> (dec_digit (hd p) \<or> is_space (hd p) \<or> hd p = CHR ''-'' \<or> hd p = CHR ''+'')"
  shows "handleWsMessage c p reg = Inl (StoiThrows InvalidArgument)"
proof -
  have pos: "id_pos p = 0" using assms(1) find_char_None_iff [of "CHR ''_''" p] by (simp add: id_pos_def)
  have "stoi (substr p 0 (0 + 2)) = Inl InvalidArgument"
    using assms(2) by (cases p) (auto simp: substr_def stoi_def numeral_2_eq_2)
  then show ?thesis by (simp only: handleWsMessage_def pos Let_def sum.case)
qed

subsection \<open>A server with one mobile app\<close>

definition demo_app :: "registry_t" where
  "demo_app = [(1, \<lparr>fg_id = 5, ws_handle = 1, reply = REPLY_UNDEF\<rparr>)]"

lemma auth_step:
  assumes "reg_find c reg = Some v" and "n < 100000"
  shows "srv_step (Frame c text_frame (auth_message n)) reg = Inr (reg_assign c (v\<lparr>fg_id := int n\<rparr>) reg)"
  using handle_auth [OF assms] by (simp add: onWsFrame_def)

lemma demo_app_reach: "srv_reach demo_app"
proof -
  let ?d = "\<lparr>fg_id = -1, ws_handle = 1, reply = REPLY_UNDEF\<rparr>" and ?m = "auth_message 5"
  let ?r = "[(1 :: conn, ?d)]"
  have r: "srv_reach ?r"
    by (rule srv_event [OF srv_start, of "Connect (conn_upgrade (Some key)) 1"]) (simp add: onWebsocketConnect_def)
  have "reg_find 1 ?r = Some ?d" by (simp add: reg_find_def)
  then have "srv_step (Frame 1 text_frame ?m) ?r = Inr (reg_assign 1 (?d\<lparr>fg_id := int 5\<rparr>) ?r)"
    by (rule auth_step) simp
  moreover have "reg_assign 1 (?d\<lparr>fg_id := int 5\<rparr>) ?r = demo_app"
    by (simp add: reg_assign_def demo_app_def)
  ultimately have "srv_step (Frame 1 text_frame ?m) ?r = Inr demo_app" by (simp only:)
  with r show ?thesis by (rule srv_event)
qed

section \<open>Properties\<close>

text \<open>
  C15: the registry of a server that has handled any sequence of connections, frames and
  requests: its connection numbers are in strictly ascending order, every entry sends on the
  connection it is filed under, and its reply is one of the three the protocol has.
\<close>

theorem registry_invariant:
  assumes "srv_reach reg"
  shows "sorted (map fst reg) \<and> distinct (map fst reg) \<and>
    (\<forall>(k, v) \<in> set reg. ws_handle v = k \<and> reply v \<in> {REPLY_UNDEF, REPLY_ALLOW, REPLY_DENY})"
proof -
  have inv: "srv_inv reg" using assms by (rule srv_reach_inv)
  then have ok: "reg_ok reg" by (simp add: srv_inv_def)
  then show ?thesis
    using reg.sorted_entries [OF ok] reg.entry_iff [OF ok] inv by (auto simp: srv_inv_def)
qed

theorem registry_invariant_witness:
  "distinct (map fst demo_app) \<and> ws_handle (snd (hd demo_app)) = 1 \<and>
   reply (snd (hd demo_app)) \<in> {REPLY_UNDEF, REPLY_ALLOW, REPLY_DENY}"
proof -
  have e: "(1, snd (hd demo_app)) \<in> set demo_app" by (simp add: demo_app_def)
  note i = registry_invariant [OF demo_app_reach]
  from bspec [OF i [THEN conjunct2, THEN conjunct2] e] show ?thesis using i by simp
qed

text \<open>
  C4: an answer is read once. When the mobile app that answers for a feeder (the connection
  with the least number of those with its id) says yes or no, the feeder's next request for
  the answer gets \<open>allow\<close> or \<open>deny\<close>, and every request after that \<open>no reply yet\<close>, until the app
  answers again; nothing else in the registry changes.
\<close>

theorem answer_read_once:
  assumes "srv_reach reg" and "first_for (int m) k reg" and "m \<le> 2147483647" and "n < 100000"
  shows "\<exists>reg1 reg2 out.
    onWsFrame k text_frame (answer_message ok n) reg = Inr (reg1, out) \<and>
    http_request date up c M_GET (''/req_treat/'' @ show_nat m) reg1 =
      (Answer (set_body (if ok then ''allow'' else ''deny'') (init_resp date create_response)), reg2, []) \<and>
    http_request date' up' c' M_GET (''/req_treat/'' @ show_nat m) reg2 =
      (Answer (set_body ''no reply yet'' (init_resp date' create_response)), reg2, []) \<and>
    (\<forall>k'. k' \<noteq> k \<longrightarrow> reg_find k' reg2 = reg_find k' reg)"
proof -
  have inv: "srv_inv reg" using assms(1) by (rule srv_reach_inv)
  then have ok: "reg_ok reg" by (simp add: srv_inv_def)
  obtain v r where v: "reg_find k reg = Some v"
    and h: "handleWsMessage k (answer_message ok n) reg =
      Inr (r, reg_assign k (v\<lparr>reply := (if ok then REPLY_ALLOW else REPLY_DENY)\<rparr>) reg)"
    and g: "onGetReqTreat date (show_nat m) (reg_assign k (v\<lparr>reply := (if ok then REPLY_ALLOW else REPLY_DENY)\<rparr>) reg) =
      (set_body (if ok then REPLY_ALLOW else REPLY_DENY) (init_resp date create_response),
       reg_assign k (v\<lparr>reply := REPLY_UNDEF\<rparr>) reg)"
    and g': "onGetReqTreat date' (show_nat m) (reg_assign k (v\<lparr>reply := REPLY_UNDEF\<rparr>) reg) =
      (set_body REPLY_UNDEF (init_resp date' create_response), reg_assign k (v\<lparr>reply := REPLY_UNDEF\<rparr>) reg)"
    using get_answered [OF inv assms(2-4), of ok date date'] by blast
  have f: "onWsFrame k text_frame (answer_message ok n) reg =
      Inr (reg_assign k (v\<lparr>reply := (if ok then REPLY_ALLOW else REPLY_DENY)\<rparr>) reg, [(k, text_frame, r)])"
    using h by (simp add: onWsFrame_def)
  have b: "(if ok then REPLY_ALLOW else REPLY_DENY) = (if ok then ''allow'' else ''deny'')"
    by (simp add: REPLY_ALLOW_def REPLY_DENY_def)
  show ?thesis
  proof (intro exI conjI, rule f)
    show "http_request date up c M_GET (''/req_treat/'' @ show_nat m)
        (reg_assign k (v\<lparr>reply := (if ok then REPLY_ALLOW else REPLY_DENY)\<rparr>) reg) =
      (Answer (set_body (if ok then ''allow'' else ''deny'') (init_resp date create_response)),
        reg_assign k (v\<lparr>reply := REPLY_UNDEF\<rparr>) reg, [])"
      unfolding get_number [OF assms(3)] g prod.case by (simp only: b)
    show "http_request date' up' c' M_GET (''/req_treat/'' @ show_nat m) (reg_assign k (v\<lparr>reply := REPLY_UNDEF\<rparr>) reg) =
      (Answer (set_body ''no reply yet'' (init_resp date' create_response)),
        reg_assign k (v\<lparr>reply := REPLY_UNDEF\<rparr>) reg, [])"
      unfolding get_number [OF assms(3)] g' prod.case by (simp add: REPLY_UNDEF_def)
    show "\<forall>k'. k' \<noteq> k \<longrightarrow> reg_find k' (reg_assign k (v\<lparr>reply := REPLY_UNDEF\<rparr>) reg) = reg_find k' reg"
      using reg.find_assign [OF ok] by simp
  qed
qed

theorem answer_read_once_witness:
  "\<exists>reg1 reg2 out.
    onWsFrame 1 text_frame (answer_message False 5) demo_app = Inr (reg1, out) \<and>
    http_request [] conn_other 2 M_GET (''/req_treat/'' @ show_nat 5) reg1 =
      (Answer (set_body ''deny'' (init_resp [] create_response)), reg2, []) \<and>
    http_request [] conn_other 2 M_GET (''/req_treat/'' @ show_nat 5) reg2 =
      (Answer (set_body ''no reply yet'' (init_resp [] create_response)), reg2, [])"
proof -
  have "first_for (int 5) 1 demo_app"
    by (auto simp: first_for_def demo_app_def reg_find_def split: if_splits)
  from answer_read_once [OF demo_app_reach this, of 5 False "[]" conn_other 2 "[]" conn_other 2]
  show ?thesis by auto
qed

text \<open>
  C27: a new mobile app that says which feeder it belongs to is registered for it and found by
  a check of that feeder; the other entries stay as they were, and the app gets its message
  back.
\<close>

theorem auth_registers:
  assumes "srv_reach reg" and "reg_find k reg = None" and "n < 100000"
  shows "\<exists>reg'. onWsFrame k text_frame (auth_message n) (snd (onWebsocketConnect (conn_upgrade (Some key)) k reg)) =
      Inr (reg', [(k, text_frame, auth_message n)]) \<and>
    reg_find k reg' = Some \<lparr>fg_id = int n, ws_handle = k, reply = ''no reply yet''\<rparr> \<and>
    (\<forall>k'. k' \<noteq> k \<longrightarrow> reg_find k' reg' = reg_find k' reg) \<and>
    http_request date up c M_GET (''/check/'' @ show_nat n) reg' =
      (Answer (set_body (''Mobile app present'' @ [CHR 0x0A]) (init_resp date create_response)), reg', [])"
proof -
  have ok: "reg_ok reg" using srv_reach_inv [OF assms(1)] by (simp add: srv_inv_def)
  let ?d = "\<lparr>fg_id = -1, ws_handle = k, reply = REPLY_UNDEF\<rparr>" and ?e = "\<lparr>fg_id = int n, ws_handle = k, reply = REPLY_UNDEF\<rparr>"
  let ?r = "reg_emplace k ?d reg"
  let ?s = "reg_assign k ?e ?r"
  have ok': "reg_ok ?r" "reg_ok ?s" using ok by (simp_all add: reg.ok_emplace reg.ok_assign)
  have r: "reg_find k ?r = Some ?d" using reg.find_emplace [OF ok] assms(2) by simp
  have s: "reg_find k' ?s = (if k' = k then Some ?e else reg_find k' reg)" for k'
    using reg.find_assign [OF ok'(1)] reg.find_emplace [OF ok] r by simp
  have "(k, ?e) \<in> set ?s" using reg.entry_iff [OF ok'(2)] s by simp
  then have "\<exists>e \<in> set ?s. fg_id (snd e) = int n" by force
  then have c: "http_request date up c M_GET (''/check/'' @ show_nat n) ?s =
      (Answer (set_body (''Mobile app present'' @ [CHR 0x0A]) (init_resp date create_response)), ?s, [])"
    using check_number [of n date up c ?s] assms(3) by simp
  have "onWsFrame k text_frame (auth_message n) ?r = Inr (?s, [(k, text_frame, auth_message n)])"
    using handle_auth [OF r assms(3)] by (simp add: onWsFrame_def)
  then show ?thesis using s c by (simp add: onWebsocketConnect_def REPLY_UNDEF_def)
qed

theorem auth_registers_witness:
  "\<exists>reg'. onWsFrame 2 text_frame (auth_message 7) (snd (onWebsocketConnect (conn_upgrade (Some [])) 2 demo_app)) =
      Inr (reg', [(2, text_frame, auth_message 7)]) \<and>
    reg_find 1 reg' = reg_find 1 demo_app"
proof -
  have "reg_find 2 demo_app = None" "(7 :: nat) < 100000" by (simp_all add: demo_app_def reg_find_def)
  note auth_registers [OF demo_app_reach this, of "[]" "[]" conn_other 2]
  moreover have "(1 :: conn) \<noteq> 2" by simp
  ultimately show ?thesis by blast
qed

text \<open>
  C16: a feeder's treat request goes to every mobile app registered for it, once, in the order of
  the connection numbers, and changes nothing. The response says \<open>No mobile app with this id
  found\<close> exactly when the first connected app belongs to another feeder, even if a later one
  was found, and says nothing when no app is connected at all.
\<close>

theorem treat_request_delivered:
  assumes "srv_reach reg" and "n \<le> 2147483647"
  shows "http_request date up c M_POST (''/req_treat/'' @ show_nat n) reg =
    (Answer (if reg = [] \<or> fg_id (snd (hd reg)) = int n then init_resp date create_response
       else set_body ''No mobile app with this id found'' (init_resp date create_response)),
     reg, map (\<lambda>k. (k, ''treat request'')) (map fst (filter (\<lambda>(k, v). fg_id v = int n) reg)))"
  by (rule post_number [OF srv_reach_inv [OF assms(1)] assms(2)])

theorem treat_request_delivered_witness:
  "http_request [] conn_other 2 M_POST (''/req_treat/'' @ show_nat 5) demo_app =
    (Answer (init_resp [] create_response), demo_app, [(1, ''treat request'')])"
  using treat_request_delivered [OF demo_app_reach, of 5 "[]" conn_other 2] by (simp add: demo_app_def)

text \<open>
  A message without an underscore, such as \<open>treat ack\<close> without an id, that does not begin
  with a number never reaches the registry: reading its id throws, whatever it says.
\<close>

theorem id_required:
  assumes "CHR ''_'' \<notin> set p" and "op \<in> {text_frame, binary_frame, continuation_frame}"
    and "p = [] \<or> \<not> (dec_digit (hd p) \<or> is_space (hd p) \<or> hd p = CHR ''-'' \<or> hd p = CHR ''+'')"
  shows "onWsFrame k op p reg = Inl (StoiThrows InvalidArgument)"
  using message_not_number [OF assms(1,3)] assms(2) by (auto simp: onWsFrame_def)

theorem id_required_witness:
  "onWsFrame 1 text_frame ''treat ack'' demo_app = Inl (StoiThrows InvalidArgument)"
  by (rule id_required) (simp_all add: dec_digit_def is_space_def)

end
