(* ===== verification/OsTime.thy ===== *)
theory OsTime
  imports FgPrelude
begin

text \<open>
  Points in time: \<open>Time\<close> of the OS library (\<open>common/Time.cpp\<close>). Seconds are a \<open>signed long\<close>,
  which has 32 bits on the feeder (and on Windows), milliseconds a \<open>signed long long\<close>. Signed
  arithmetic that leaves its type is undefined in C++ and a fault here; a conversion to
  \<open>signed long\<close> takes the low 32 bits.
\<close>

section \<open>Machine integers\<close>

datatype overflow = SignedOverflow

definition in_long :: "int \<Rightarrow> bool" where
  "in_long x \<longleftrightarrow> -2147483648 \<le> x \<and> x \<le> 2147483647"

definition in_llong :: "int \<Rightarrow> bool" where
  "in_llong x \<longleftrightarrow> -9223372036854775808 \<le> x \<and> x \<le> 9223372036854775807"

definition to_long :: "int \<Rightarrow> int" where
  "to_long x = (x + 2147483648) mod 4294967296 - 2147483648"

definition long :: "int \<Rightarrow> overflow + int" where
  "long x = (if in_long x then Inr x else Inl SignedOverflow)"

definition llong :: "int \<Rightarrow> overflow + int" where
  "llong x = (if in_llong x then Inr x else Inl SignedOverflow)"

lemma to_long_id [simp]: "in_long x \<Longrightarrow> to_long x = x"
  by (simp add: in_long_def to_long_def)

lemma in_long_to_long [simp]: "in_long (to_long x)"
proof -
  have "0 \<le> (x + 2147483648) mod 4294967296" "(x + 2147483648) mod 4294967296 < 4294967296" by simp_all
  then show ?thesis by (simp add: in_long_def to_long_def)
qed

lemma long_ok [simp]: "in_long x \<Longrightarrow> long x = Inr x"
  by (simp add: long_def)

lemma llong_ok [simp]: "in_llong x \<Longrightarrow> llong x = Inr x"
  by (simp add: llong_def)

section \<open>The class\<close>

datatype time = Time (sec: int) (msec: int)

definition Time_zero :: time where
  "Time_zero = Time 0 0"

definition Time_sec_msec :: "int \<Rightarrow> int \<Rightarrow> overflow + time" where
  "Time_sec_msec s m = rbind (long (s + to_long (cdiv m 1000))) (\<lambda>s. Inr (Time s (cmod m 1000)))"

definition Time_msec :: "int \<Rightarrow> time" where
  "Time_msec m = Time (to_long (cdiv m 1000)) (cmod m 1000)"

text \<open>\<open>operator+=\<close> and \<open>operator-=\<close> of a time, and \<open>operator+=\<close> of milliseconds.\<close>

definition add_assign :: "time \<Rightarrow> time \<Rightarrow> overflow + time" where
  "add_assign t u =
     rbind (llong (msec t + msec u)) (\<lambda>m.
     rbind (long (sec u + to_long (cdiv m 1000))) (\<lambda>k.
     rbind (long (sec t + k)) (\<lambda>s. Inr (Time s (cmod m 1000)))))"

definition sub_assign :: "time \<Rightarrow> time \<Rightarrow> overflow + time" where
  "sub_assign t u =
     rbind (if msec u > msec t
            then rbind (long (sec t - 1)) (\<lambda>s. rbind (llong (msec t + 1000)) (\<lambda>m. Inr (Time s m)))
            else Inr t) (\<lambda>t.
     rbind (llong (msec t - msec u)) (\<lambda>m.
     rbind (long (sec t - sec u)) (\<lambda>s. Inr (Time s m))))"

definition add_msec :: "time \<Rightarrow> int \<Rightarrow> overflow + time" where
  "add_msec t m =
     rbind (llong (msec t + m)) (\<lambda>m.
     rbind (long (sec t + to_long (cdiv m 1000))) (\<lambda>s. Inr (Time s (cmod m 1000))))"

text \<open>\<open>sec_*1000\<close> is a product of \<open>long\<close>s.\<close>

definition totalMSecs :: "time \<Rightarrow> overflow + int" where
  "totalMSecs t = rbind (long (sec t * 1000)) (\<lambda>r. llong (r + msec t))"

section \<open>Comparison\<close>

text \<open>\<open>Time::operator<\<close> and the free \<open>operator<=\<close>; the instance gives them their symbols.\<close>

definition time_lt :: "time \<Rightarrow> time \<Rightarrow> bool" where
  "time_lt t u \<longleftrightarrow> (if sec t < sec u then True else if msec t < msec u \<and> sec t = sec u then True else False)"

definition time_le :: "time \<Rightarrow> time \<Rightarrow> bool" where
  "time_le t u \<longleftrightarrow> \<not> time_lt u t"

instantiation time :: linorder
begin

definition less_time :: "time \<Rightarrow> time \<Rightarrow> bool" where
  "less_time = time_lt"

definition less_eq_time :: "time \<Rightarrow> time \<Rightarrow> bool" where
  "less_eq_time = time_le"

lemmas time_order_defs = less_time_def less_eq_time_def time_lt_def time_le_def

instance
proof
  fix x y z :: time
  show "x < y \<longleftrightarrow> x \<le> y \<and> \<not> y \<le> x" by (auto simp: time_order_defs)
  show "x \<le> x" by (auto simp: time_order_defs)
  show "x \<le> y \<Longrightarrow> y \<le> z \<Longrightarrow> x \<le> z" by (auto simp: time_order_defs split: if_splits)
  show "x \<le> y \<Longrightarrow> y \<le> x \<Longrightarrow> x = y"
    by (cases x; cases y) (auto simp: time_order_defs split: if_splits)
  show "x \<le> y \<or> y \<le> x" by (auto simp: time_order_defs)
qed

end

section \<open>The free operators\<close>

definition plus_time :: "time \<Rightarrow> time \<Rightarrow> overflow + time" where
  "plus_time t1 t2 = add_assign t1 t2"

definition plus_msec_time :: "int \<Rightarrow> time \<Rightarrow> overflow + time" where
  "plus_msec_time t1 t2 = add_msec t2 t1"

definition plus_time_msec :: "time \<Rightarrow> int \<Rightarrow> overflow + time" where
  "plus_time_msec t1 t2 = add_msec t1 t2"

definition minus_time :: "time \<Rightarrow> time \<Rightarrow> overflow + time" where
  "minus_time t1 t2 = sub_assign t1 t2"

text \<open>\<open>t2 -= t1; return t1;\<close> - the difference is dropped, and the number is converted to a time.\<close>

definition minus_msec_time :: "int \<Rightarrow> time \<Rightarrow> overflow + time" where
  "minus_msec_time t1 t2 = rbind (sub_assign t2 (Time_msec t1)) (\<lambda>t2. Inr (Time_msec t1))"

definition minus_time_msec :: "time \<Rightarrow> int \<Rightarrow> overflow + time" where
  "minus_time_msec t1 t2 = sub_assign t1 (Time_msec t2)"

section \<open>The clock\<close>

text \<open>\<open>getCurrentMonotonicTime\<close> and \<open>getCurrentTime\<close> of a \<open>timespec\<close> on Linux.\<close>

definition time_of_timespec :: "int \<Rightarrow> int \<Rightarrow> overflow + time" where
  "time_of_timespec tv_sec tv_nsec = Time_sec_msec tv_sec (cdiv tv_nsec 1000000)"

section \<open>Times as numbers of milliseconds\<close>

definition normal :: "time \<Rightarrow> bool" where
  "normal t \<longleftrightarrow> 0 \<le> msec t \<and> msec t < 1000 \<and> in_long (sec t)"

definition in_ms :: "time \<Rightarrow> int" where
  "in_ms t = sec t * 1000 + msec t"

text \<open>The numbers of milliseconds that a normal time can stand for.\<close>

definition ms_range :: "int \<Rightarrow> bool" where
  "ms_range x \<longleftrightarrow> in_long (x div 1000)"

lemma ms_div_mod: "normal t \<Longrightarrow> in_ms t div 1000 = sec t \<and> in_ms t mod 1000 = msec t"
  by (simp add: normal_def in_ms_def)

lemma normal_range: "normal t \<Longrightarrow> ms_range (in_ms t)"
  by (simp add: ms_range_def ms_div_mod) (simp add: normal_def)

lemma normal_eqI: "normal t \<Longrightarrow> ms_range x \<Longrightarrow> in_ms t = x \<Longrightarrow> t = Time (x div 1000) (x mod 1000)"
  by (cases t) (auto dest: ms_div_mod)

lemma time_of_ms: "ms_range x \<Longrightarrow> normal (Time (x div 1000) (x mod 1000)) \<and> in_ms (Time (x div 1000) (x mod 1000)) = x"
  by (simp add: normal_def ms_range_def in_ms_def)

lemma less_ms: "normal t \<Longrightarrow> normal u \<Longrightarrow> t < u \<longleftrightarrow> in_ms t < in_ms u"
  by (auto simp: time_order_defs normal_def in_ms_def)

lemma less_eq_ms: "normal t \<Longrightarrow> normal u \<Longrightarrow> t \<le> u \<longleftrightarrow> in_ms t \<le> in_ms u"
  using less_ms [of u t] by (auto simp: time_order_defs)

lemma add_assign_ms:
  assumes "normal t" and "normal u" and "sec u < 2147483647" and "ms_range (in_ms t + in_ms u)"
  shows "\<exists>r. add_assign t u = Inr r \<and> normal r \<and> in_ms r = in_ms t + in_ms u"
proof -
  let ?m = "msec t + msec u"
  have b: "0 \<le> ?m" "?m < 2000" "in_long (sec t)" "in_long (sec u)" using assms(1,2) by (auto simp: normal_def)
  have k: "0 \<le> ?m div 1000" "?m div 1000 \<le> 1" using b(1,2) by simp_all
  have "(in_ms t + in_ms u) div 1000 = sec t + (sec u + ?m div 1000)" by (simp add: in_ms_def algebra_simps)
  then have s: "in_long (sec t + (sec u + ?m div 1000))" using assms(4) by (simp add: ms_range_def)
  have "in_llong ?m" "in_long (?m div 1000)" using b k by (auto simp: in_llong_def in_long_def)
  moreover have "in_long (sec u + ?m div 1000)" using b k assms(3) by (auto simp: in_long_def)
  ultimately have "add_assign t u = Inr (Time (sec t + (sec u + ?m div 1000)) (?m mod 1000))"
    using s b(1) by (simp add: add_assign_def)
  then show ?thesis using s by (simp add: normal_def in_ms_def algebra_simps)
qed

lemma sub_assign_ms:
  assumes "normal t" and "normal u" and "-2147483648 < sec t" and "ms_range (in_ms t - in_ms u)"
  shows "\<exists>r. sub_assign t u = Inr r \<and> normal r \<and> in_ms r = in_ms t - in_ms u"
proof (cases "msec u > msec t")
  case True
  have b: "0 \<le> msec t" "msec u < 1000" "in_long (sec t)" using assms(1,2) by (auto simp: normal_def)
  have m: "0 \<le> msec t + 1000 - msec u" "msec t + 1000 - msec u < 1000" using b True by simp_all
  have "in_ms t - in_ms u = (sec t - 1 - sec u) * 1000 + (msec t + 1000 - msec u)" by (simp add: in_ms_def)
  then have "(in_ms t - in_ms u) div 1000 = sec t - 1 - sec u" using m by simp
  then have s: "in_long (sec t - 1 - sec u)" using assms(4) by (simp add: ms_range_def)
  have "in_llong (msec t + 1000)" "in_llong (msec t + 1000 - msec u)" "in_long (sec t - 1)"
    using assms b m True by (auto simp: in_llong_def in_long_def normal_def)
  then have "sub_assign t u = Inr (Time (sec t - 1 - sec u) (msec t + 1000 - msec u))"
    using s True by (simp add: sub_assign_def)
  then show ?thesis using s m by (simp add: normal_def in_ms_def)
next
  case False
  have m: "0 \<le> msec t - msec u" "msec t - msec u < 1000" using assms(1,2) False by (auto simp: normal_def)
  have "in_ms t - in_ms u = (sec t - sec u) * 1000 + (msec t - msec u)" by (simp add: in_ms_def)
  then have "(in_ms t - in_ms u) div 1000 = sec t - sec u" using m by simp
  then have s: "in_long (sec t - sec u)" using assms(4) by (simp add: ms_range_def)
  have "in_llong (msec t - msec u)" using m by (simp add: in_llong_def)
  then have "sub_assign t u = Inr (Time (sec t - sec u) (msec t - msec u))"
    using s False by (simp add: sub_assign_def)
  then show ?thesis using s m by (simp add: normal_def in_ms_def)
qed

lemma add_msec_ms:
  assumes "normal t" and "0 \<le> m" and "m < 4294967296" and "ms_range (in_ms t + m)"
  shows "\<exists>r. add_msec t m = Inr r \<and> normal r \<and> in_ms r = in_ms t + m"
proof -
  let ?m = "msec t + m"
  have b: "0 \<le> ?m" "?m < 4294968296" using assms(1-3) by (auto simp: normal_def)
  have k: "0 \<le> ?m div 1000" "?m div 1000 \<le> 4294968" using b by simp_all
  have "(in_ms t + m) div 1000 = sec t + ?m div 1000" by (simp add: in_ms_def algebra_simps)
  then have s: "in_long (sec t + ?m div 1000)" using assms(4) by (simp add: ms_range_def)
  have "in_llong ?m" "in_long (?m div 1000)" using b k by (auto simp: in_llong_def in_long_def)
  then have "add_msec t m = Inr (Time (sec t + ?m div 1000) (?m mod 1000))"
    using s b(1) by (simp add: add_msec_def)
  then show ?thesis using s by (simp add: normal_def in_ms_def algebra_simps)
qed

lemma time_of_timespec_ms:
  assumes "in_long s" and "0 \<le> n" and "n < 1000000000"
  shows "\<exists>r. time_of_timespec s n = Inr r \<and> normal r \<and> in_ms r = s * 1000 + n div 1000000"
proof -
  have "0 \<le> n div 1000000" "n div 1000000 < 1000" using assms(2,3) by simp_all
  then show ?thesis
    using assms(1,2) by (simp add: time_of_timespec_def Time_sec_msec_def normal_def in_ms_def in_long_def)
qed

text \<open>A number minus a time is the number.\<close>

lemma number_minus_time:
  assumes "normal t2" and "-2147483648 < sec t2" and "normal (Time_msec t1)"
    and "ms_range (in_ms t2 - in_ms (Time_msec t1))"
  shows "minus_msec_time t1 t2 = Inr (Time_msec t1)"
  using sub_assign_ms [OF assms(1,3,2,4)] by (auto simp: minus_msec_time_def)

section \<open>Properties\<close>

text \<open>
  Times in normal form (milliseconds from 0 to 999) behave as numbers of milliseconds: they
  are ordered as those, and sums, differences and sums with a timeout below 2^32 are exact
  and in normal form again whenever the result fits the type, and no step towards it overflows.
\<close>

theorem time_refines_milliseconds:
  assumes "normal t" and "normal u" and "sec u < 2147483647" and "-2147483648 < sec t"
    and "0 \<le> m" and "m < 4294967296"
  shows "(t < u \<longleftrightarrow> in_ms t < in_ms u) \<and> (t \<le> u \<longleftrightarrow> in_ms t \<le> in_ms u) \<and>
    (ms_range (in_ms t + in_ms u) \<longrightarrow> (\<exists>r. plus_time t u = Inr r \<and> normal r \<and> in_ms r = in_ms t + in_ms u)) \<and>
    (ms_range (in_ms t - in_ms u) \<longrightarrow> (\<exists>r. minus_time t u = Inr r \<and> normal r \<and> in_ms r = in_ms t - in_ms u)) \<and>
    (ms_range (in_ms t + m) \<longrightarrow> (\<exists>r. plus_time_msec t m = Inr r \<and> normal r \<and> in_ms r = in_ms t + m))"
  using less_ms [OF assms(1,2)] less_eq_ms [OF assms(1,2)] add_assign_ms [OF assms(1-3)]
    sub_assign_ms [OF assms(1,2,4)] add_msec_ms [OF assms(1,5,6)]
  unfolding plus_time_def minus_time_def plus_time_msec_def by blast

theorem time_refines_milliseconds_witness:
  "\<exists>r. minus_time (Time 5 200) (Time 1 900) = Inr r \<and> normal r \<and> in_ms r = 3300"
proof -
  have n: "normal (Time 5 200)" "normal (Time 1 900)" by (simp_all add: normal_def in_long_def)
  have "in_ms (Time 5 200) - in_ms (Time 1 900) = 3300" "ms_range 3300"
    by (simp_all add: in_ms_def ms_range_def in_long_def)
  then show ?thesis using time_refines_milliseconds [OF n, of 0] by simp
qed

text \<open>
  \<open>totalMSecs\<close> of a time is its number of milliseconds only up to about 24 days: the product
  of the seconds and 1000 is computed in 32 bits and overflows for every time further from 0,
  in particular for the time of day.
\<close>

theorem totalMSecs_range:
  assumes "normal t"
  shows "totalMSecs t = (if -2147483 \<le> sec t \<and> sec t \<le> 2147483 then Inr (in_ms t) else Inl SignedOverflow)"
proof -
  have "in_long (sec t * 1000) \<longleftrightarrow> -2147483 \<le> sec t \<and> sec t \<le> 2147483" by (auto simp: in_long_def)
  moreover have "in_llong (sec t * 1000 + msec t)" if "-2147483 \<le> sec t" "sec t \<le> 2147483"
    using that assms by (auto simp: in_llong_def normal_def)
  ultimately show ?thesis by (auto simp: totalMSecs_def long_def in_ms_def)
qed

theorem totalMSecs_range_witness:
  "totalMSecs (Time 1655000000 0) = Inl SignedOverflow"
  using totalMSecs_range [of "Time 1655000000 0"] by (simp add: normal_def in_long_def)

end
