(* ===== verification/OsTimer.thy ===== *)
theory OsTimer
  imports OsTime OsSync OsMsgQueue
begin

text \<open>
  The timers of the OS library (\<open>common/Timer.cpp\<close>): a thread that keeps the armed timers in a
  multimap ordered by their deadlines, waits for the first of them and sends its message. An
  iterator into the map is the number of the entry; timers and message queues are numbered too.
  The clock is a parameter: what it shows at each look at it. A timer's message goes to its bounded
  queue, and the thread waits there, with the locks of the timers held, while the queue is full;
  what the other threads do with the queue until it goes on is a parameter too, as operations of
  \<open>OsMsgQueue\<close>. The messages sent are kept in their order.
\<close>

section \<open>State\<close>

type_synonym entry = "time \<times> nat \<times> nat"

record 'm timer_id =
  armedTime :: time
  timeOut :: nat
  timer_mq :: nat
  msg_id :: nat
  pending_msg :: "'m option"
  canceled :: bool
  containerPos :: "nat option"

type_synonym 'm item = "nat \<times> 'm option"

record 'm msg_queue =
  mq_maxSize :: nat
  mq_items :: "'m item list"

record 'm timer =
  container :: "entry list"
  next_entry :: nat
  ids :: "nat \<Rightarrow> 'm timer_id"
  queues :: "nat \<Rightarrow> 'm msg_queue"
  outbox :: "(nat \<times> nat \<times> 'm option) list"

text \<open>\<open>multimap::insert\<close> puts an entry behind those with the same key.\<close>

fun mm_insert :: "entry \<Rightarrow> entry list \<Rightarrow> entry list" where
  "mm_insert e [] = [e]"
| "mm_insert e (x # xs) = (if fst e < fst x then e # x # xs else x # mm_insert e xs)"

definition mm_erase :: "nat \<Rightarrow> entry list \<Rightarrow> entry list" where
  "mm_erase h xs = filter (\<lambda>e. fst (snd e) \<noteq> h) xs"

definition upd_id :: "nat \<Rightarrow> ('m timer_id \<Rightarrow> 'm timer_id) \<Rightarrow> 'm timer \<Rightarrow> 'm timer" where
  "upd_id i f s = s\<lparr>ids := (ids s)(i := f (ids s i))\<rparr>"

section \<open>The timer thread's operations\<close>

text \<open>\<open>Timer::arm\<close>, \<open>Timer::internalDisArm\<close> and \<open>Timer::disArm\<close>.\<close>

definition Timer_arm :: "nat \<Rightarrow> time \<Rightarrow> 'm timer \<Rightarrow> 'm timer" where
  "Timer_arm i t s =
     upd_id i (\<lambda>d. d\<lparr>containerPos := Some (next_entry s)\<rparr>)
       (s\<lparr>container := mm_insert (t, next_entry s, i) (container s), next_entry := next_entry s + 1\<rparr>)"

definition internalDisArm :: "nat \<Rightarrow> 'm timer \<Rightarrow> 'm timer" where
  "internalDisArm i s =
     (case containerPos (ids s i) of
        None \<Rightarrow> s
      | Some h \<Rightarrow> upd_id i (\<lambda>d. d\<lparr>containerPos := None\<rparr>) (s\<lparr>container := mm_erase h (container s)\<rparr>))"

definition Timer_disArm :: "nat \<Rightarrow> 'm timer \<Rightarrow> 'm timer" where
  "Timer_disArm i s = internalDisArm i s"

section \<open>Timers\<close>

definition setCanceled :: "'m timer_id \<Rightarrow> 'm timer_id" where
  "setCanceled d = d\<lparr>canceled := True\<rparr>"

definition setNotCanceled :: "'m timer_id \<Rightarrow> 'm timer_id" where
  "setNotCanceled d = d\<lparr>canceled := False\<rparr>"

definition TimerId_arm :: "nat \<Rightarrow> nat \<Rightarrow> 'm option \<Rightarrow> time \<Rightarrow> 'm timer \<Rightarrow> overflow + 'm timer" where
  "TimerId_arm i timeout m now_t s =
     rbind (plus_time_msec now_t (int timeout)) (\<lambda>t.
       Inr (Timer_arm i t (upd_id i (\<lambda>d. setNotCanceled (d\<lparr>timeOut := timeout, armedTime := t, pending_msg := m\<rparr>)) s)))"

definition TimerId_reArm :: "nat \<Rightarrow> 'm option \<Rightarrow> 'm timer \<Rightarrow> overflow + 'm timer" where
  "TimerId_reArm i m s =
     rbind (add_msec (armedTime (ids s i)) (int (timeOut (ids s i)))) (\<lambda>t.
       Inr (Timer_arm i t (upd_id i (\<lambda>d. (setNotCanceled (d\<lparr>pending_msg := m\<rparr>))\<lparr>armedTime := t\<rparr>) s)))"

text \<open>The message that was not sent is deleted.\<close>

definition TimerId_disArm :: "nat \<Rightarrow> 'm timer \<Rightarrow> 'm timer" where
  "TimerId_disArm i s = Timer_disArm i (upd_id i (\<lambda>d. setCanceled (d\<lparr>pending_msg := None\<rparr>)) s)"

section \<open>The message of a timer\<close>

text \<open>
  What other threads do with a queue before a send goes on: a \<open>receive\<close> of an empty queue and a
  \<open>send\<close> to a full one wait and leave it as it is.
\<close>

fun others_do :: "nat \<Rightarrow> 'a queue_op list \<Rightarrow> 'a list \<Rightarrow> 'a list" where
  "others_do maxSize [] q = q"
| "others_do maxSize (Put x # ops) q = others_do maxSize ops (if list_room maxSize q then push_back x q else q)"
| "others_do maxSize (Get # ops) q = others_do maxSize ops (case pop_front q of None \<Rightarrow> q | Some (x, q) \<Rightarrow> q)"

text \<open>\<open>traffic k q\<close>: what they do with a queue that holds \<open>q\<close> when the \<open>k\<close>-th message is sent to it.\<close>

type_synonym 'm traffic = "nat \<Rightarrow> 'm item list \<Rightarrow> 'm item queue_op list"

text \<open>\<open>MsgQueue::send\<close> to the end: \<open>None\<close> means that the queue stays full, and the call waits for ever.\<close>

definition mq_send :: "('m item list \<Rightarrow> 'm item queue_op list) \<Rightarrow> 'm item \<Rightarrow> 'm msg_queue \<Rightarrow> 'm msg_queue option" where
  "mq_send others x q =
     (let items = others_do (mq_maxSize q) (others (mq_items q)) (mq_items q)
      in if list_room (mq_maxSize q) items then Some (q\<lparr>mq_items := push_back x items\<rparr>) else None)"

definition sendTimerMsg :: "('m item list \<Rightarrow> 'm item queue_op list) \<Rightarrow> nat \<Rightarrow> 'm timer \<Rightarrow> 'm timer option" where
  "sendTimerMsg others i s =
     (let d = ids s i; x = (msg_id d, pending_msg d)
      in case mq_send others x (queues s (timer_mq d)) of
           None \<Rightarrow> None
         | Some q \<Rightarrow> Some (upd_id i (\<lambda>d. d\<lparr>pending_msg := None\<rparr>)
             (s\<lparr>queues := (queues s)(timer_mq d := q), outbox := outbox s @ [(i, x)]\<rparr>)))"

section \<open>The thread\<close>

text \<open>
  The loop over the timers that are due. \<open>clock k\<close> is the \<open>k\<close>-th look at the clock; \<open>None\<close> means that
  the loop has not ended, because the fuel was not enough or because a \<open>send\<close> waits for ever.
\<close>

fun fire :: "nat \<Rightarrow> 'm traffic \<Rightarrow> (nat \<Rightarrow> time) \<Rightarrow> 'm timer \<Rightarrow> 'm timer option" where
  "fire 0 traffic clock s = None"
| "fire (Suc fuel) traffic clock s =
     (case container s of
        [] \<Rightarrow> Some s
      | e # es \<Rightarrow>
          if fst e \<le> clock 0
          then (case sendTimerMsg (traffic 0) (snd (snd e)) s of
                  None \<Rightarrow> None
                | Some s \<Rightarrow> fire fuel (\<lambda>k. traffic (Suc k)) (\<lambda>k. clock (Suc k))
                    (internalDisArm (snd (snd (hd (container s)))) s))
          else Some s)"

text \<open>
  One round of \<open>Timer::run\<close> with a timer in the container: \<open>wait\<close> is \<open>waitTimed\<close>.
\<close>

definition timer_round ::
    "nat \<Rightarrow> 'm traffic \<Rightarrow> time \<Rightarrow> (int \<Rightarrow> awoken) \<Rightarrow> (nat \<Rightarrow> time) \<Rightarrow> 'm timer \<Rightarrow> overflow + 'm timer option" where
  "timer_round fuel traffic now_t wait clock s =
     (case container s of
        [] \<Rightarrow> Inr (Some s)
      | e # es \<Rightarrow>
          rbind (minus_time (fst e) now_t) (\<lambda>deadline.
            if deadline < Time_msec 0 then Inr (fire fuel traffic clock s)
            else rbind (totalMSecs deadline) (\<lambda>timeout.
              if wait timeout = TIMEDOUT then Inr (fire fuel traffic clock s) else Inr (Some s))))"

section \<open>Invariant\<close>

text \<open>The entries are ordered, and each belongs to one timer that knows it.\<close>

definition timer_ok :: "'m timer \<Rightarrow> bool" where
  "timer_ok s \<longleftrightarrow> sorted (map fst (container s)) \<and> distinct (map (fst \<circ> snd) (container s)) \<and>
     (\<forall>e \<in> set (container s). fst (snd e) < next_entry s \<and> containerPos (ids s (snd (snd e))) = Some (fst (snd e))) \<and>
     (\<forall>i h. containerPos (ids s i) = Some h \<longrightarrow> (\<exists>t. (t, h, i) \<in> set (container s)))"

lemma set_mm_insert [simp]: "set (mm_insert e xs) = insert e (set xs)"
  by (induction xs) auto

lemma sorted_mm_insert: "sorted (map fst xs) \<Longrightarrow> sorted (map fst (mm_insert e xs))"
  by (induction xs) auto

lemma distinct_mm_insert:
  "distinct (map (fst \<circ> snd) xs) \<Longrightarrow> fst (snd e) \<notin> (fst \<circ> snd) ` set xs \<Longrightarrow> distinct (map (fst \<circ> snd) (mm_insert e xs))"
  by (induction xs) auto

lemma upd_id_simps [simp]:
  "container (upd_id i f s) = container s" "next_entry (upd_id i f s) = next_entry s"
  "queues (upd_id i f s) = queues s" "outbox (upd_id i f s) = outbox s" "ids (upd_id i f s) j = (if j = i then f (ids s i) else ids s j)"
  by (simp_all add: upd_id_def)

lemma timer_ok_upd:
  "timer_ok s \<Longrightarrow> (\<And>d. containerPos (f d) = containerPos d) \<Longrightarrow> timer_ok (upd_id i f s)"
  by (auto simp: timer_ok_def)

lemma timer_entry: "timer_ok s \<Longrightarrow> containerPos (ids s i) = Some h \<Longrightarrow> \<exists>t. (t, h, i) \<in> set (container s)"
  by (simp add: timer_ok_def)

lemma timer_ok_arm:
  assumes "timer_ok s" and "containerPos (ids s i) = None"
  shows "timer_ok (Timer_arm i t s)"
proof -
  have n: "fst (snd e) < next_entry s" "snd (snd e) \<noteq> i" if "e \<in> set (container s)" for e
    using assms that by (auto simp: timer_ok_def)
  have p: "containerPos (ids s (snd (snd e))) = Some (fst (snd e))" if "e \<in> set (container s)" for e
    using assms(1) that by (simp add: timer_ok_def)
  have q: "\<exists>t. (t, h, j) \<in> set (container s)" if "containerPos (ids s j) = Some h" for j h
    using assms(1) that by (simp add: timer_ok_def)
  have "next_entry s \<notin> (fst \<circ> snd) ` set (container s)" using n(1) by force
  then have "distinct (map (fst \<circ> snd) (mm_insert (t, next_entry s, i) (container s)))"
    using assms(1) by (intro distinct_mm_insert) (simp_all add: timer_ok_def)
  moreover have "sorted (map fst (mm_insert (t, next_entry s, i) (container s)))"
    using assms(1) by (intro sorted_mm_insert) (simp add: timer_ok_def)
  ultimately show ?thesis
    using n p q by (auto simp: timer_ok_def Timer_arm_def less_Suc_eq)
qed

lemma timer_ok_disArm:
  assumes "timer_ok s"
  shows "timer_ok (internalDisArm i s)"
proof (cases "containerPos (ids s i)")
  case (Some h)
  have inj: "e = e'" if "e \<in> set (container s)" "e' \<in> set (container s)" "fst (snd e) = fst (snd e')" for e e'
    using assms that unfolding timer_ok_def by (metis comp_apply distinct_map inj_onD)
  obtain t where t: "(t, h, i) \<in> set (container s)" using assms Some unfolding timer_ok_def by blast
  have "sorted (map fst (mm_erase h (container s)))"
    using assms by (simp add: timer_ok_def mm_erase_def sorted_filter)
  moreover have "distinct (map (fst \<circ> snd) (mm_erase h (container s)))"
    using assms by (simp add: timer_ok_def mm_erase_def distinct_map_filter)
  moreover have "snd (snd e) \<noteq> i" if "e \<in> set (container s)" "fst (snd e) \<noteq> h" for e
    using that assms Some by (auto simp: timer_ok_def)
  moreover have "h' \<noteq> h" if c: "containerPos (ids s j) = Some h'" "j \<noteq> i" for j h'
  proof
    assume "h' = h"
    then obtain t' where "(t', h, j) \<in> set (container s)" using timer_entry [OF assms] c(1) by blast
    from inj [OF this t] c(2) show False by simp
  qed
  ultimately show ?thesis
    using assms Some by (fastforce simp: timer_ok_def internalDisArm_def mm_erase_def)
qed (use assms in \<open>simp add: internalDisArm_def\<close>)

section \<open>The queues\<close>

lemma others_do_bound: "length q \<le> maxSize \<Longrightarrow> length (others_do maxSize ops q) \<le> maxSize"
  by (induction maxSize ops q rule: others_do.induct)
    (auto simp: list_room_def push_back_def pop_front_def split: list.splits)

text \<open>A receiver that goes on makes room.\<close>

lemma others_do_Get:
  "others_do maxSize (ops @ [Get]) q = (case others_do maxSize ops q of [] \<Rightarrow> [] | x # q \<Rightarrow> q)"
  by (induction maxSize ops q rule: others_do.induct) (auto simp: pop_front_def split: list.splits)

lemma others_make_room:
  "length q \<le> maxSize \<Longrightarrow> 0 < maxSize \<Longrightarrow> list_room maxSize (others_do maxSize (ops @ [Get]) q)"
  using others_do_bound [of q maxSize ops] by (auto simp: others_do_Get list_room_def split: list.splits)

definition queues_bounded :: "'m timer \<Rightarrow> bool" where
  "queues_bounded s \<longleftrightarrow> (\<forall>n. length (mq_items (queues s n)) \<le> mq_maxSize (queues s n))"

text \<open>No queue stays full: when a message of a timer waits for room, there comes to be some.\<close>

definition room_comes :: "'m traffic \<Rightarrow> 'm timer \<Rightarrow> bool" where
  "room_comes traffic s \<longleftrightarrow>
     (\<forall>k n q. length q \<le> mq_maxSize (queues s n) \<longrightarrow>
        list_room (mq_maxSize (queues s n)) (others_do (mq_maxSize (queues s n)) (traffic k q) q))"

lemma room_comes_later:
  "room_comes traffic s \<Longrightarrow> (\<And>n. mq_maxSize (queues s' n) = mq_maxSize (queues s n)) \<Longrightarrow> room_comes (\<lambda>k. traffic (Suc k)) s'"
  by (simp add: room_comes_def)

lemma mq_send_sends:
  assumes "length (mq_items q) \<le> mq_maxSize q"
    and "list_room (mq_maxSize q) (others_do (mq_maxSize q) (others (mq_items q)) (mq_items q))"
  obtains q' where "mq_send others x q = Some q'" "mq_maxSize q' = mq_maxSize q" "length (mq_items q') \<le> mq_maxSize q"
  using assms others_do_bound [OF assms(1), of "others (mq_items q)"]
  by (auto simp: mq_send_def list_room_def push_back_def)

lemma sendTimerMsg_sends:
  assumes "queues_bounded s" and "room_comes traffic s"
  obtains s' where "sendTimerMsg (traffic k) i s = Some s'" "container s' = container s" "next_entry s' = next_entry s"
    "ids s' = (ids s)(i := (ids s i)\<lparr>pending_msg := None\<rparr>)"
    "outbox s' = outbox s @ [(i, msg_id (ids s i), pending_msg (ids s i))]"
    "queues_bounded s'" "\<And>n. mq_maxSize (queues s' n) = mq_maxSize (queues s n)"
proof -
  let ?q = "queues s (timer_mq (ids s i))" and ?x = "(msg_id (ids s i), pending_msg (ids s i))"
  have "length (mq_items ?q) \<le> mq_maxSize ?q" using assms(1) by (simp add: queues_bounded_def)
  moreover from this have "list_room (mq_maxSize ?q) (others_do (mq_maxSize ?q) (traffic k (mq_items ?q)) (mq_items ?q))"
    using assms(2) by (simp add: room_comes_def)
  ultimately obtain q' where "mq_send (traffic k) ?x ?q = Some q'" "mq_maxSize q' = mq_maxSize ?q" "length (mq_items q') \<le> mq_maxSize ?q"
    by (rule mq_send_sends)
  then show thesis
    using assms(1)
    by (intro that [of "upd_id i (\<lambda>d. d\<lparr>pending_msg := None\<rparr>)
        (s\<lparr>queues := (queues s)(timer_mq (ids s i) := q'), outbox := outbox s @ [(i, ?x)]\<rparr>)"])
      (simp_all add: sendTimerMsg_def Let_def upd_id_def queues_bounded_def)
qed

section \<open>The loop over the timers that are due\<close>

definition fired :: "'m timer \<Rightarrow> entry \<Rightarrow> nat \<times> nat \<times> 'm option" where
  "fired s e = (snd (snd e), msg_id (ids s (snd (snd e))), pending_msg (ids s (snd (snd e))))"

lemma fire_one:
  assumes "timer_ok s" and "container s = e # es" and "queues_bounded s" and "room_comes traffic s"
  defines "i \<equiv> snd (snd e)"
  obtains s0 s' where "sendTimerMsg (traffic k) i s = Some s0" "s' = internalDisArm i s0" "container s0 = container s"
    "container s' = es" "timer_ok s'" "outbox s' = outbox s @ [fired s e]"
    "\<And>j. j \<noteq> i \<Longrightarrow> ids s' j = ids s j" "\<And>e'. e' \<in> set es \<Longrightarrow> snd (snd e') \<noteq> i"
    "queues_bounded s'" "\<And>n. mq_maxSize (queues s' n) = mq_maxSize (queues s n)"
proof -
  have p: "containerPos (ids s i) = Some (fst (snd e))" using assms(1,2) by (simp add: timer_ok_def i_def)
  have d: "fst (snd e) \<notin> (fst \<circ> snd) ` set es" using assms(1,2) by (simp add: timer_ok_def)
  have other: "snd (snd e') \<noteq> i" if "e' \<in> set es" for e'
  proof
    assume "snd (snd e') = i"
    then have "fst (snd e') = fst (snd e)" using assms(1,2) that p by (auto simp: timer_ok_def)
    moreover have "(fst \<circ> snd) e' \<in> (fst \<circ> snd) ` set es" using that by (rule imageI)
    ultimately show False using d by simp
  qed
  have e: "mm_erase (fst (snd e)) (e # es) = es"
    using d by (auto simp: mm_erase_def filter_id_conv image_iff)
  show thesis
  proof (rule sendTimerMsg_sends [OF assms(3,4), of k i])
    fix s0
    assume s0: "sendTimerMsg (traffic k) i s = Some s0" "container s0 = container s" "next_entry s0 = next_entry s"
      "ids s0 = (ids s)(i := (ids s i)\<lparr>pending_msg := None\<rparr>)"
      "outbox s0 = outbox s @ [(i, msg_id (ids s i), pending_msg (ids s i))]"
      "queues_bounded s0" "\<And>n. mq_maxSize (queues s0 n) = mq_maxSize (queues s n)"
    have "timer_ok s0" using assms(1) s0(2-4) by (auto simp: timer_ok_def)
    then have ok: "timer_ok (internalDisArm i s0)" by (rule timer_ok_disArm)
    have a: "internalDisArm i s0 = upd_id i (\<lambda>d. d\<lparr>containerPos := None\<rparr>) (s0\<lparr>container := es\<rparr>)"
      using p s0(2,4) e assms(2) by (simp add: internalDisArm_def)
    show thesis
      by (rule that [OF s0(1) refl s0(2)])
        (use ok s0 other in \<open>simp_all add: a [unfolded i_def] fired_def i_def queues_bounded_def\<close>)
  qed
qed

lemma fire_due:
  assumes "timer_ok s" and "queues_bounded s" and "room_comes traffic s" and "length (container s) < fuel"
  shows "\<exists>k s'. fire fuel traffic clock s = Some s' \<and> k \<le> length (container s) \<and>
    (\<forall>j < k. fst (container s ! j) \<le> clock j) \<and>
    (k < length (container s) \<longrightarrow> clock k < fst (container s ! k)) \<and>
    container s' = drop k (container s) \<and> outbox s' = outbox s @ map (fired s) (take k (container s)) \<and>
    timer_ok s' \<and> queues_bounded s'"
  using assms
proof (induction fuel arbitrary: s clock traffic)
  case (Suc fuel)
  show ?case
  proof (cases "container s")
    case Nil
    then show ?thesis using Suc.prems by (intro exI [of _ 0] exI [of _ s]) simp
  next
    case (Cons e es)
    show ?thesis
    proof (cases "fst e \<le> clock 0")
      case True
      obtain s0 t where one: "sendTimerMsg (traffic 0) (snd (snd e)) s = Some s0" "t = internalDisArm (snd (snd e)) s0"
        "container s0 = container s" "container t = es" "timer_ok t" "outbox t = outbox s @ [fired s e]"
        "\<And>j. j \<noteq> snd (snd e) \<Longrightarrow> ids t j = ids s j" "\<And>e'. e' \<in> set es \<Longrightarrow> snd (snd e') \<noteq> snd (snd e)"
        "queues_bounded t" "\<And>n. mq_maxSize (queues t n) = mq_maxSize (queues s n)"
        using fire_one [OF Suc.prems(1) Cons Suc.prems(2,3), of 0] by blast
      have f: "fire (Suc fuel) traffic clock s = fire fuel (\<lambda>k. traffic (Suc k)) (\<lambda>k. clock (Suc k)) t"
        using True Cons one(1-3) by simp
      have len: "length (container t) < fuel" using Suc.prems(4) Cons one(4) by simp
      note room = room_comes_later [OF Suc.prems(3) one(10)]
      from Suc.IH [OF one(5,9) room len, of "\<lambda>k. clock (Suc k)"] obtain k s' where
        k: "fire fuel (\<lambda>k. traffic (Suc k)) (\<lambda>k. clock (Suc k)) t = Some s'" "k \<le> length es"
          "\<And>j. j < k \<Longrightarrow> fst (es ! j) \<le> clock (Suc j)" "k < length es \<Longrightarrow> clock (Suc k) < fst (es ! k)"
          "container s' = drop k es" "outbox s' = outbox t @ map (fired t) (take k es)" "timer_ok s'" "queues_bounded s'"
        unfolding one(4) by blast
      have "fired t e' = fired s e'" if "e' \<in> set es" for e'
        using one(7) one(8) [OF that] by (simp add: fired_def)
      then have "map (fired t) (take k es) = map (fired s) (take k es)" by (auto dest: in_set_takeD)
      moreover have "fst ((e # es) ! j) \<le> clock j" if "j < Suc k" for j
        using that True k(3) by (cases j) auto
      ultimately show ?thesis
        using k f Cons one(6) by (intro exI [of _ "Suc k"] exI [of _ s']) simp
    next
      case False
      then show ?thesis using Cons Suc.prems by (intro exI [of _ 0] exI [of _ s]) auto
    qed
  qed
qed simp

text \<open>An entry whose timer has forgotten it stays the first one for ever.\<close>

lemma sendTimerMsg_keeps:
  "sendTimerMsg others i s = Some s' \<Longrightarrow> container s' = container s \<and> containerPos (ids s' j) = containerPos (ids s j)"
  by (auto simp: sendTimerMsg_def Let_def split: option.splits)

lemma fire_stale:
  assumes "container s = (t, h, i) # es" and "containerPos (ids s i) = None" and "\<And>k. t \<le> clock k"
  shows "fire fuel traffic clock s = None"
  using assms
proof (induction fuel arbitrary: s clock traffic)
  case (Suc fuel)
  show ?case
  proof (cases "sendTimerMsg (traffic 0) i s")
    case (Some s')
    note keeps = sendTimerMsg_keeps [OF Some]
    have "fire fuel (\<lambda>k. traffic (Suc k)) (\<lambda>k. clock (Suc k)) (internalDisArm i s') = None"
      using Suc.prems keeps by (intro Suc.IH) (simp_all add: internalDisArm_def)
    then show ?thesis using Suc.prems Some keeps by simp
  qed (use Suc.prems in simp)
qed simp

text \<open>
  The thread waits inside the loop: a message for a full queue that nobody reads is never sent, and
  the pass does not end. The locks are held meanwhile, so a reader of the queue that first arms or
  disarms a timer waits too.
\<close>

lemma full_queue_blocks:
  assumes "container s = e # es" and "fst e \<le> clock 0"
    and "length (mq_items (queues s (timer_mq (ids s (snd (snd e)))))) = mq_maxSize (queues s (timer_mq (ids s (snd (snd e)))))"
    and "\<And>q. traffic 0 q = []"
  shows "fire fuel traffic clock s = None"
  using assms by (cases fuel) (simp_all add: sendTimerMsg_def mq_send_def list_room_def)

section \<open>Properties\<close>

text \<open>
  C7: when every entry of the container is known to its timer and no queue stays full, one pass of
  the timer thread ends: whatever the other threads do with the queues while it sends, it sends the
  message of every timer that is due exactly once, in the order of the deadlines, none before its
  deadline; it stops at the first one that is not due, disarms those it fired and leaves the others
  as they were, and no queue is longer than its bound. (A send waits for room with the locks of
  the timers held; when none comes the pass does not end. A thread that arms or disarms a timer
  meanwhile is taken to do so before or after the pass.)
\<close>

theorem due_timers_fire:
  assumes "timer_ok s" and "queues_bounded s" and "room_comes traffic s" and "length (container s) < fuel"
  shows "\<exists>k s'. fire fuel traffic clock s = Some s' \<and> k \<le> length (container s) \<and>
    (\<forall>j < k. fst (container s ! j) \<le> clock j) \<and>
    (k < length (container s) \<longrightarrow> clock k < fst (container s ! k)) \<and>
    container s' = drop k (container s) \<and> outbox s' = outbox s @ map (fired s) (take k (container s)) \<and>
    timer_ok s' \<and> queues_bounded s'"
  by (rule fire_due [OF assms])

text \<open>Timers with one queue for one message, and a receiver that takes a message during every send.\<close>

definition fresh_timer :: "nat timer" where
  "fresh_timer = \<lparr>container = [], next_entry = 0,
     ids = (\<lambda>i. \<lparr>armedTime = Time_zero, timeOut = 0, timer_mq = 0, msg_id = i, pending_msg = None, canceled = False,
       containerPos = None\<rparr>),
     queues = (\<lambda>_. \<lparr>mq_maxSize = 1, mq_items = [(7, None)]\<rparr>), outbox = []\<rparr>"

definition reader :: "nat traffic" where
  "reader k q = [Get]"

lemma fresh_timer_ok: "timer_ok fresh_timer" "queues_bounded fresh_timer"
  by (simp_all add: timer_ok_def queues_bounded_def fresh_timer_def)

lemma reader_makes_room: "(\<And>n. 0 < mq_maxSize (queues s n)) \<Longrightarrow> room_comes reader s"
  unfolding room_comes_def reader_def by (intro allI impI others_make_room [of _ _ "[]", unfolded append_Nil]) simp_all

theorem due_timers_fire_witness:
  "\<exists>k s'. fire 2 reader (\<lambda>_. Time 9 0) (Timer_arm 3 (Time 8 0) fresh_timer) = Some s' \<and> k \<le> 1 \<and>
    outbox s' = map (\<lambda>_. (3, 3, None)) [0..<k]"
proof -
  let ?s = "Timer_arm 3 (Time 8 0) fresh_timer"
  have ok: "timer_ok ?s" by (rule timer_ok_arm [OF fresh_timer_ok(1)]) (simp add: fresh_timer_def)
  have q: "queues ?s = queues fresh_timer" by (simp add: Timer_arm_def upd_id_def)
  have bounded: "queues_bounded ?s" using fresh_timer_ok(2) by (simp add: queues_bounded_def q)
  have room: "room_comes reader ?s" by (rule reader_makes_room, unfold q) (simp add: fresh_timer_def)
  have c: "container ?s = [(Time 8 0, 0, 3)]" by (simp add: Timer_arm_def fresh_timer_def)
  obtain k s' where "fire 2 reader (\<lambda>_. Time 9 0) ?s = Some s'" "k \<le> 1"
    "outbox s' = outbox ?s @ map (fired ?s) (take k (container ?s))"
    using due_timers_fire [OF ok bounded room, of 2 "\<lambda>_. Time 9 0"] c by auto
  moreover have "outbox ?s @ map (fired ?s) (take k (container ?s)) = map (\<lambda>_. (3, 3, None)) [0..<k]"
    using \<open>k \<le> 1\<close> c by (cases k) (simp_all add: fired_def Timer_arm_def fresh_timer_def)
  ultimately show ?thesis by auto
qed

text \<open>
  C40: a timer that is armed again while it is armed loses its first entry: once that is due, the
  pass of the timer thread sends empty messages for ever, or waits for ever at a full queue,
  whatever the fuel and whatever the other threads do with the queues.
\<close>

theorem rearmed_timer_livelock:
  assumes "container s = []" and "t1 \<le> t2" and "\<And>k. t1 \<le> clock k"
  shows "fire fuel traffic clock (Timer_arm i t2 (Timer_arm i t1 s)) = None"
proof (cases fuel)
  case (Suc n)
  let ?s = "Timer_arm i t2 (Timer_arm i t1 s)" and ?h = "next_entry s"
  have c: "container ?s = [(t1, ?h, i), (t2, ?h + 1, i)]" "containerPos (ids ?s i) = Some (?h + 1)"
    using assms(1,2) by (auto simp: Timer_arm_def)
  show ?thesis
  proof (cases "sendTimerMsg (traffic 0) i ?s")
    case (Some s')
    note keeps = sendTimerMsg_keeps [OF Some, unfolded c]
    have "container (internalDisArm i s') = [(t1, ?h, i)]" "containerPos (ids (internalDisArm i s') i) = None"
      using keeps [of i] c(2) by (simp_all add: internalDisArm_def mm_erase_def)
    then have "fire n (\<lambda>k. traffic (Suc k)) (\<lambda>k. clock (Suc k)) (internalDisArm i s') = None"
      using assms(3) by (intro fire_stale) auto
    then show ?thesis using Suc c Some keeps assms(3) by simp
  qed (use Suc c assms(3) in simp)
qed simp

theorem rearmed_timer_livelock_witness:
  "fire 1000 reader (\<lambda>_. Time 9 0) (Timer_arm 3 (Time 8 0) (Timer_arm 3 (Time 7 0) fresh_timer)) = None"
  by (rule rearmed_timer_livelock) (simp_all add: fresh_timer_def time_order_defs)

end
