(* ===== verification/OsThread.thy ===== *)
theory OsThread
  imports OsSync
begin

text \<open>
  Threads of the OS library: \<open>Completion\<close>, the Linux \<open>Thread\<close> and \<open>ThreadFunctor\<close>, and the
  Windows \<open>Thread\<close>. A method that holds the mutex of a completion from its beginning to its end
  or to a wait is one step. The calls into the operating system are parameters: their results.
\<close>

section \<open>Completions\<close>

text \<open>Where a thread is with respect to \<open>Completion::wait\<close>.\<close>

datatype waiter = Outside | Blocked | Woken | Returned

record completion =
  done_flag :: bool
  waiters :: "waiter list"

definition completion_new :: "nat \<Rightarrow> completion" where
  "completion_new n = \<lparr>done_flag = False, waiters = replicate n Outside\<rparr>"

text \<open>The test of the loop in \<open>wait\<close>, under the lock.\<close>

definition wait_test :: "tid \<Rightarrow> completion \<Rightarrow> completion" where
  "wait_test t c = c\<lparr>waiters := (waiters c)[t := (if done_flag c then Returned else Blocked)]\<rparr>"

definition completion_signal :: "completion \<Rightarrow> completion" where
  "completion_signal c =
     c\<lparr>done_flag := True, waiters := map (\<lambda>w. if w = Blocked then Woken else w) (waiters c)\<rparr>"

text \<open>A functor's thread runs once; \<open>threadMapper\<close> signals its completion when \<open>run\<close> returns.\<close>

datatype phase = Created | Running | Finished

record thread_functor =
  phase :: phase
  threadDone :: completion

inductive functor_step :: "thread_functor \<Rightarrow> thread_functor \<Rightarrow> bool" where
  run_begins: "phase f = Created \<Longrightarrow> functor_step f (f\<lparr>phase := Running\<rparr>)"
| run_ends: "phase f = Running \<Longrightarrow>
    functor_step f (f\<lparr>phase := Finished, threadDone := completion_signal (threadDone f)\<rparr>)"
| join_called: "t < length (waiters (threadDone f)) \<Longrightarrow> waiters (threadDone f) ! t = Outside \<Longrightarrow>
    functor_step f (f\<lparr>threadDone := wait_test t (threadDone f)\<rparr>)"
| join_spurious: "t < length (waiters (threadDone f)) \<Longrightarrow> waiters (threadDone f) ! t = Blocked \<Longrightarrow>
    functor_step f (f\<lparr>threadDone := (threadDone f)\<lparr>waiters := (waiters (threadDone f))[t := Woken]\<rparr>\<rparr>)"
| join_retest: "t < length (waiters (threadDone f)) \<Longrightarrow> waiters (threadDone f) ! t = Woken \<Longrightarrow>
    functor_step f (f\<lparr>threadDone := wait_test t (threadDone f)\<rparr>)"

inductive functor_reach :: "nat \<Rightarrow> thread_functor \<Rightarrow> bool" for n where
  functor_start: "functor_reach n \<lparr>phase = Created, threadDone = completion_new n\<rparr>"
| functor_more: "functor_reach n f \<Longrightarrow> functor_step f f' \<Longrightarrow> functor_reach n f'"

definition functor_inv :: "thread_functor \<Rightarrow> bool" where
  "functor_inv f \<longleftrightarrow> (done_flag (threadDone f) \<longleftrightarrow> phase f = Finished) \<and>
     (\<forall>w \<in> set (waiters (threadDone f)). w = Returned \<longrightarrow> phase f = Finished) \<and>
     (phase f = Finished \<longrightarrow> Blocked \<notin> set (waiters (threadDone f)))"

lemma functor_inv_step: "functor_step f f' \<Longrightarrow> functor_inv f \<Longrightarrow> functor_inv f'"
proof (induction rule: functor_step.induct)
  case (join_called t f)
  then show ?case
    by (auto simp: functor_inv_def wait_test_def dest!: subsetD [OF set_update_subset_insert])
next
  case (join_retest t f)
  then show ?case
    by (auto simp: functor_inv_def wait_test_def dest!: subsetD [OF set_update_subset_insert])
next
  case (join_spurious t f)
  then show ?case
    by (auto simp: functor_inv_def dest!: subsetD [OF set_update_subset_insert])
qed (auto simp: functor_inv_def completion_signal_def split: if_splits)

lemma functor_reach_inv: "functor_reach n f \<Longrightarrow> functor_inv f"
proof (induction rule: functor_reach.induct)
  case functor_start
  then show ?case by (auto simp: functor_inv_def completion_new_def)
qed (rule functor_inv_step)

section \<open>Linux threads\<close>

datatype priority =
  PRIORITY_LOW | PRIORITY_BELOW_NORMAL | PRIORITY_NORMAL | PRIORITY_ABOVE_NORMAL | PRIORITY_HIGH

fun priority_value :: "priority \<Rightarrow> int" where
  "priority_value PRIORITY_LOW = 15"
| "priority_value PRIORITY_BELOW_NORMAL = 30"
| "priority_value PRIORITY_NORMAL = 45"
| "priority_value PRIORITY_ABOVE_NORMAL = 60"
| "priority_value PRIORITY_HIGH = 75"

text \<open>An exception that leaves a destructor ends the program; an unset \<open>pthread_t\<close> is undefined.\<close>

datatype thread_fault = ThreadError | Terminate | UnsetThreadId

record thread =
  tf_set :: bool
  prio :: priority
  thread_name :: string
  threadId_set :: bool
  attached :: bool

text \<open>
  What the system answers: the user, the results of the four attribute calls, of the creation
  with a priority or with default attributes, and of a change of priority.
\<close>

record os =
  getuid :: nat
  attr_calls :: "int list"
  pthread_create :: "int option \<Rightarrow> int"
  pthread_setschedprio :: "int \<Rightarrow> int"

definition thread_start :: "os \<Rightarrow> thread \<Rightarrow> thread_fault + thread" where
  "thread_start env th =
     (if getuid env = 0 then
        (if \<exists>r \<in> set (attr_calls env). r \<noteq> 0 then Inl ThreadError
         else if pthread_create env (Some (priority_value (prio th))) \<noteq> 0 then Inl ThreadError
         else Inr (th\<lparr>threadId_set := True, attached := True\<rparr>))
      else if pthread_create env None \<noteq> 0 then Inl ThreadError
      else Inr (th\<lparr>threadId_set := True, attached := True\<rparr>))"

definition thread_new :: "os \<Rightarrow> priority \<Rightarrow> string \<Rightarrow> bool \<Rightarrow> thread_fault + thread" where
  "thread_new env p n autoStart =
     (let th = \<lparr>tf_set = True, prio = p, thread_name = n, threadId_set = False, attached = True\<rparr>
      in if autoStart then thread_start env th else Inr th)"

definition thread_setPriority :: "os \<Rightarrow> priority \<Rightarrow> thread \<Rightarrow> thread_fault + thread" where
  "thread_setPriority env p th =
     (if \<not> attached th then Inl ThreadError
      else if getuid env = 0 then
        (if pthread_setschedprio env (priority_value p) \<noteq> 0 then Inl ThreadError
         else Inr (th\<lparr>prio := p\<rparr>))
      else Inr th)"

text \<open>\<open>None\<close>: the caller waits, because the completion is not done.\<close>

definition thread_join :: "bool \<Rightarrow> thread \<Rightarrow> (thread_fault + thread) option" where
  "thread_join is_done th =
     (if \<not> attached th then Some (Inl ThreadError) else if is_done then Some (Inr th) else None)"

definition thread_detach :: "thread \<Rightarrow> thread_fault + thread" where
  "thread_detach th =
     (if \<not> attached th then Inl ThreadError
      else if \<not> threadId_set th then Inl UnsetThreadId
      else Inr (th\<lparr>attached := False, tf_set := False\<rparr>))"

definition thread_delete :: "thread \<Rightarrow> thread_fault + unit" where
  "thread_delete th =
     (case thread_detach th of
        Inl e \<Rightarrow> Inl (if e = ThreadError then Terminate else e)
      | Inr th \<Rightarrow> Inr ())"

section \<open>Windows threads\<close>

text \<open>The priorities of the system, from \<open>THREAD_PRIORITY_LOWEST\<close> to \<open>THREAD_PRIORITY_HIGHEST\<close>.\<close>

fun conversionToDetail :: "priority \<Rightarrow> int" where
  "conversionToDetail PRIORITY_LOW = -2"
| "conversionToDetail PRIORITY_BELOW_NORMAL = -1"
| "conversionToDetail PRIORITY_NORMAL = 0"
| "conversionToDetail PRIORITY_ABOVE_NORMAL = 1"
| "conversionToDetail PRIORITY_HIGH = 2"

definition conversionFromDetail :: "int \<Rightarrow> thread_fault + priority" where
  "conversionFromDetail p =
     (if p = -2 then Inr PRIORITY_LOW
      else if p = -1 then Inr PRIORITY_BELOW_NORMAL
      else if p = 0 then Inr PRIORITY_NORMAL
      else if p = 1 then Inr PRIORITY_ABOVE_NORMAL
      else if p = 2 then Inr PRIORITY_HIGH
      else Inl ThreadError)"

text \<open>\<open>os_priority\<close> is the priority the system was last told.\<close>

record wthread =
  wtf_set :: bool
  wpriority :: int
  wname :: string
  wattached :: bool
  os_priority :: "int option"

definition wthread_setPriority :: "(int \<Rightarrow> bool) \<Rightarrow> int \<Rightarrow> wthread \<Rightarrow> thread_fault + wthread" where
  "wthread_setPriority SetThreadPriority p th =
     (if \<not> SetThreadPriority (wpriority th) then Inl ThreadError
      else Inr (th\<lparr>os_priority := Some (wpriority th), wpriority := p\<rparr>))"

definition wthread_start :: "(int \<Rightarrow> bool) \<Rightarrow> wthread \<Rightarrow> thread_fault + wthread" where
  "wthread_start SetThreadPriority th = wthread_setPriority SetThreadPriority (wpriority th) th"

definition wthread_new :: "(int \<Rightarrow> bool) \<Rightarrow> priority \<Rightarrow> string \<Rightarrow> bool \<Rightarrow> thread_fault + wthread" where
  "wthread_new SetThreadPriority p n autoStart =
     (let th = \<lparr>wtf_set = True, wpriority = conversionToDetail p, wname = n, wattached = True, os_priority = None\<rparr>
      in if autoStart then wthread_start SetThreadPriority th else Inr th)"

definition wthread_getPriority :: "wthread \<Rightarrow> thread_fault + priority" where
  "wthread_getPriority th = conversionFromDetail (wpriority th)"

definition wthread_join :: "bool \<Rightarrow> wthread \<Rightarrow> (thread_fault + wthread) option" where
  "wthread_join is_done th = (if wattached th then (if is_done then Some (Inr th) else None) else Some (Inr th))"

definition wthread_detach :: "wthread \<Rightarrow> thread_fault + wthread" where
  "wthread_detach th = (if wattached th then Inr (th\<lparr>wattached := False, wtf_set := False\<rparr>) else Inr th)"

definition wthread_delete :: "wthread \<Rightarrow> thread_fault + unit" where
  "wthread_delete th = (case wthread_detach th of Inl e \<Rightarrow> Inr () | Inr th \<Rightarrow> Inr ())"

text \<open>Several changes of priority.\<close>

fun wthread_priorities :: "(int \<Rightarrow> bool) \<Rightarrow> priority list \<Rightarrow> wthread \<Rightarrow> thread_fault + wthread" where
  "wthread_priorities f [] th = Inr th"
| "wthread_priorities f (p # ps) th =
     rbind (wthread_setPriority f (conversionToDetail p) th) (wthread_priorities f ps)"

lemma conversion_roundtrip: "conversionFromDetail (conversionToDetail p) = Inr p"
  by (cases p) (simp_all add: conversionFromDetail_def)

lemma wthread_priorities_snoc:
  "wthread_priorities f (ps @ [p]) th =
     rbind (wthread_priorities f ps th) (wthread_setPriority f (conversionToDetail p))"
  by (induction ps arbitrary: th) (auto simp: rbind_def split: sum.splits)

lemma wthread_priorities_last:
  assumes "\<And>x. f x" and "ps \<noteq> []"
  shows "\<exists>th'. wthread_priorities f ps th = Inr th' \<and> wpriority th' = conversionToDetail (last ps)"
proof -
  have "ps = butlast ps @ [last ps]" using assms(2) by simp
  moreover have "\<exists>th'. wthread_priorities f qs th = Inr th'" for qs
    using assms(1) by (induction qs arbitrary: th) (simp_all add: wthread_setPriority_def)
  then obtain th' where "wthread_priorities f (butlast ps) th = Inr th'" by blast
  ultimately show ?thesis
    using wthread_priorities_snoc [of f "butlast ps" "last ps" th] assms(1)
    by (simp add: wthread_setPriority_def)
qed

section \<open>Properties\<close>

text \<open>
  \<open>join\<close> returns exactly when the thread is over: in no interleaving of the thread and any
  number of joiners, with spurious wake-ups, has a joiner returned before \<open>run\<close> has returned,
  and once it has, no joiner is left waiting, and each one that goes on returns.
\<close>

theorem join_waits_for_run:
  assumes "functor_reach n f"
  shows "(Returned \<in> set (waiters (threadDone f)) \<longrightarrow> phase f = Finished) \<and>
    (phase f = Finished \<longrightarrow> Blocked \<notin> set (waiters (threadDone f)) \<and>
      (\<forall>t < length (waiters (threadDone f)). waiters (wait_test t (threadDone f)) ! t = Returned))"
  using functor_reach_inv [OF assms] by (auto simp: functor_inv_def wait_test_def)

theorem join_waits_for_run_witness:
  "\<exists>f. functor_reach 1 f \<and> phase f = Finished \<and> Blocked \<notin> set (waiters (threadDone f)) \<and>
    waiters (threadDone f) = [Woken]"
proof -
  let ?c = "completion_new 1"
  let ?f = "\<lparr>phase = Created, threadDone = ?c\<rparr>"
  let ?g = "?f\<lparr>phase := Running\<rparr>"
  let ?h = "?g\<lparr>threadDone := wait_test 0 (threadDone ?g)\<rparr>"
  let ?k = "?h\<lparr>phase := Finished, threadDone := completion_signal (threadDone ?h)\<rparr>"
  have "functor_step ?f ?g" by (rule run_begins) simp
  moreover have "functor_step ?g ?h" by (rule join_called) (simp_all add: completion_new_def)
  moreover have "functor_step ?h ?k" by (rule run_ends) simp
  ultimately have r: "functor_reach 1 ?k" using functor_start [of 1] by (blast intro: functor_more)
  have "waiters (threadDone ?k) = [Woken]"
    by (simp add: completion_signal_def wait_test_def completion_new_def)
  then show ?thesis using join_waits_for_run [OF r] r by auto
qed

text \<open>
  An explicit \<open>detach\<close>. On Linux every later call but the destructor throws, and the
  destructor, which detaches again, ends the program; a thread that was never started must not
  be destroyed at all. On Windows all of this is harmless.
\<close>

theorem detached_thread:
  assumes "thread_new env p n True = Inr th" and "thread_detach th = Inr d"
    and "wthread_new f p n False = Inr w" and "wthread_detach w = Inr wd"
  shows "thread_delete th = Inr () \<and> thread_delete d = Inl Terminate \<and>
    thread_detach d = Inl ThreadError \<and> thread_join b d = Some (Inl ThreadError) \<and>
    thread_setPriority env q d = Inl ThreadError \<and>
    (\<forall>u. thread_new env p n False = Inr u \<longrightarrow> thread_delete u = Inl UnsetThreadId) \<and>
    wthread_delete w = Inr () \<and> wthread_delete wd = Inr () \<and> wthread_detach wd = Inr wd \<and>
    wthread_join b wd = Some (Inr wd)"
proof -
  have a: "attached th" "threadId_set th"
    using assms(1) by (auto simp: thread_new_def thread_start_def Let_def split: if_splits)
  then have "d = th\<lparr>attached := False, tf_set := False\<rparr>" using assms(2) by (simp add: thread_detach_def)
  moreover have "\<not> wattached wd" using assms(4) by (auto simp: wthread_detach_def split: if_splits)
  ultimately show ?thesis
    using a by (auto simp: thread_delete_def thread_detach_def thread_join_def thread_setPriority_def
        thread_new_def Let_def wthread_delete_def wthread_detach_def wthread_join_def)
qed

definition pi_user :: os where
  "pi_user = \<lparr>getuid = 1000, attr_calls = [0, 0, 0, 0], pthread_create = (\<lambda>_. 0), pthread_setschedprio = (\<lambda>_. 0)\<rparr>"

theorem detached_thread_witness:
  "\<exists>th d. thread_new pi_user PRIORITY_NORMAL [] True = Inr th \<and> thread_detach th = Inr d \<and>
    thread_delete th = Inr () \<and> thread_delete d = Inl Terminate"
proof -
  obtain th where th: "thread_new pi_user PRIORITY_NORMAL [] True = Inr th" "attached th" "threadId_set th"
    by (simp add: thread_new_def thread_start_def pi_user_def)
  then obtain d where d: "thread_detach th = Inr d" by (simp add: thread_detach_def)
  obtain w where w: "wthread_new (\<lambda>_. True) PRIORITY_NORMAL [] False = Inr w" by (simp add: wthread_new_def)
  obtain wd where "wthread_detach w = Inr wd" by (cases "wattached w") (auto simp: wthread_detach_def)
  from detached_thread [OF th(1) d w this] th(1) d show ?thesis by blast
qed

text \<open>
  On Windows a change of priority takes effect one call late: the system is told the priority
  the object had before, so it always runs with the one before the last, while \<open>getPriority\<close>
  returns the last.
\<close>

theorem windows_priority_lags:
  assumes "\<And>x. f x" and "ps \<noteq> []"
  shows "\<exists>th'. wthread_priorities f (ps @ [p]) th = Inr th' \<and> wthread_getPriority th' = Inr p \<and>
    os_priority th' = Some (conversionToDetail (last ps))"
proof -
  obtain th' where "wthread_priorities f ps th = Inr th'" "wpriority th' = conversionToDetail (last ps)"
    using wthread_priorities_last [where f = f and ps = ps and th = th] assms by blast
  then show ?thesis
    using assms(1) by (simp add: wthread_priorities_snoc wthread_setPriority_def wthread_getPriority_def
        conversion_roundtrip)
qed

theorem windows_priority_lags_witness:
  "\<exists>th'. wthread_priorities (\<lambda>_. True) [PRIORITY_LOW, PRIORITY_HIGH]
      \<lparr>wtf_set = True, wpriority = 0, wname = [], wattached = True, os_priority = None\<rparr> = Inr th' \<and>
    wthread_getPriority th' = Inr PRIORITY_HIGH \<and> os_priority th' = Some (-2)"
  using windows_priority_lags [of "\<lambda>_. True" "[PRIORITY_LOW]" PRIORITY_HIGH] by simp

end
