(* ===== verification/OsLog.thy ===== *)
theory OsLog
  imports OsTime OsMsgQueue
begin

text \<open>
  The log of the OS library: \<open>common/LogTypes.cpp\<close>, \<open>common/LogSystem.cpp\<close> and
  \<open>common/LogOutputStdOut.cpp\<close>. Callers put messages into a queue; the log's thread takes them
  out and handles them one by one. Outputs are numbered; the lines each of them was given are
  kept in order. \<open>strftime\<close> and \<open>gmtime\<close> are one parameter: seconds and format to text.
\<close>

section \<open>Levels\<close>

datatype level = Emergency | Alert | Critical | Error | Warning | Notice | Informational | Debug

fun level_value :: "level \<Rightarrow> nat" where
  "level_value Emergency = 0"
| "level_value Alert = 1"
| "level_value Critical = 2"
| "level_value Error = 3"
| "level_value Warning = 4"
| "level_value Notice = 5"
| "level_value Informational = 6"
| "level_value Debug = 7"

definition LevelStr :: "string list" where
  "LevelStr = [''EMG'', ''ALT'', ''CRT'', ''ERR'', ''WRN'', ''NOT'', ''INF'', ''DBG'']"

definition strLvl :: "(string \<times> level) list" where
  "strLvl = [(''emergency'', Emergency), (''EMG'', Emergency), (''alert'', Alert), (''ALT'', Alert),
     (''critical'', Critical), (''CRT'', Critical), (''error'', Error), (''ERR'', Error),
     (''warning'', Warning), (''WRN'', Warning), (''notice'', Notice), (''NOT'', Notice),
     (''informational'', Informational), (''INF'', Informational), (''debug'', Debug), (''DBG'', Debug)]"

text \<open>The text of the exception \<open>LogLevelError\<close>, or the level.\<close>

definition convertStrToLvl :: "string \<Rightarrow> string + level" where
  "convertStrToLvl lvl =
     (case map_of strLvl lvl of
        None \<Rightarrow> Inl (lvl @ '', is not a valid log level name'')
      | Some l \<Rightarrow> Inr l)"

lemma LevelStr_nth: "LevelStr ! level_value l \<in> set LevelStr"
  by (cases l) (simp_all add: LevelStr_def)

section \<open>Messages\<close>

record log_entry =
  log_lvl :: level
  fileName :: string
  lineNo :: int
  functionName :: string
  timeStamp :: time
  logString :: string

text \<open>A message of the queue with its identifier; \<open>Other\<close> is any that the log does not know.\<close>

datatype log_msg =
  SetNewOutput nat | SetLogLvl level | Log log_entry | TerminateMsg | Other nat

definition MAX_LOG_MSG :: nat where
  "MAX_LOG_MSG = 100"

definition log_line :: "(int \<Rightarrow> string \<Rightarrow> string) \<Rightarrow> log_entry \<Rightarrow> string" where
  "log_line timeToStr e =
     timeToStr (sec (timeStamp e)) ''%Y-%m-%d %H:%M:%S.'' @ show_int (msec (timeStamp e)) @ '' '' @
     LevelStr ! level_value (log_lvl e) @ '' ('' @ fileName e @ '':'' @ show_int (lineNo e) @ '' - '' @
     functionName e @ '') '' @ logString e @ [CHR 0x0A]"

text \<open>
  \<open>timeToStr\<close> on Linux: the buffer of 65 characters is returned whole; on Windows it is cut to
  what was written.
\<close>

definition timeToStr_linux :: "(int \<Rightarrow> string \<Rightarrow> string) \<Rightarrow> int \<Rightarrow> string \<Rightarrow> string" where
  "timeToStr_linux strftime s fmt = strftime s fmt @ replicate (65 - length (strftime s fmt)) (CHR 0x00)"

definition timeToStr_windows :: "(int \<Rightarrow> string \<Rightarrow> string) \<Rightarrow> int \<Rightarrow> string \<Rightarrow> string" where
  "timeToStr_windows strftime s fmt = strftime s fmt"

section \<open>The thread\<close>

record log_system =
  running :: bool
  lvl :: level
  logOutput :: nat
  written :: "(nat \<times> string) list"
  deleted :: "nat list"

definition log_system_new :: "nat \<Rightarrow> log_system" where
  "log_system_new out = \<lparr>running = True, lvl = Debug, logOutput = out, written = [], deleted = []\<rparr>"

definition handleSetNewOutput :: "nat \<Rightarrow> log_system \<Rightarrow> log_system" where
  "handleSetNewOutput out s = s\<lparr>deleted := deleted s @ [logOutput s], logOutput := out\<rparr>"

definition handleSetLogLvl :: "level \<Rightarrow> log_system \<Rightarrow> log_system" where
  "handleSetLogLvl l s = s\<lparr>lvl := l\<rparr>"

definition handleLog :: "(int \<Rightarrow> string \<Rightarrow> string) \<Rightarrow> log_entry \<Rightarrow> log_system \<Rightarrow> log_system" where
  "handleLog timeToStr e s = s\<lparr>written := written s @ [(logOutput s, log_line timeToStr e)]\<rparr>"

fun handleMsg :: "(int \<Rightarrow> string \<Rightarrow> string) \<Rightarrow> log_msg \<Rightarrow> log_system \<Rightarrow> log_system" where
  "handleMsg f (SetNewOutput out) s = handleSetNewOutput out s"
| "handleMsg f (SetLogLvl l) s = handleSetLogLvl l s"
| "handleMsg f (Log e) s = handleLog f e s"
| "handleMsg f TerminateMsg s = s\<lparr>running := False\<rparr>"
| "handleMsg f (Other i) s = s"

text \<open>\<open>run\<close> over the messages that come: the state when it ends or waits, and what is left.\<close>

fun log_run :: "(int \<Rightarrow> string \<Rightarrow> string) \<Rightarrow> log_msg list \<Rightarrow> log_system \<Rightarrow> log_system \<times> log_msg list" where
  "log_run f [] s = (s, [])"
| "log_run f (m # ms) s = (if running s then log_run f ms (handleMsg f m s) else (s, m # ms))"

section \<open>Lemmas\<close>

text \<open>What has to be written: each entry to the output that was set last before it.\<close>

fun entries_to :: "nat \<Rightarrow> log_msg list \<Rightarrow> (nat \<times> log_entry) list" where
  "entries_to out [] = []"
| "entries_to out (SetNewOutput out' # ms) = entries_to out' ms"
| "entries_to out (Log e # ms) = (out, e) # entries_to out ms"
| "entries_to out (m # ms) = entries_to out ms"

lemma log_run_stopped: "\<not> running s \<Longrightarrow> log_run f ms s = (s, ms)"
  by (cases ms) simp_all

lemma log_run_written:
  "running s \<Longrightarrow> log_run f ms s = (s', rest) \<Longrightarrow>
    written s' = written s @ map (\<lambda>(out, e). (out, log_line f e))
      (entries_to (logOutput s) (takeWhile (\<lambda>m. m \<noteq> TerminateMsg) ms))"
proof (induction ms arbitrary: s)
  case (Cons m ms)
  show ?case
    using Cons.IH [of "handleMsg f m s"] Cons.prems
    by (cases m) (auto simp: handleSetNewOutput_def handleSetLogLvl_def handleLog_def log_run_stopped)
qed simp

lemma log_run_rest:
  "running s \<Longrightarrow> log_run f ms s = (s', rest) \<Longrightarrow>
    rest = drop 1 (dropWhile (\<lambda>m. m \<noteq> TerminateMsg) ms) \<and> (running s' \<longleftrightarrow> TerminateMsg \<notin> set ms)"
proof (induction ms arbitrary: s)
  case (Cons m ms)
  show ?case
    using Cons.IH [of "handleMsg f m s"] Cons.prems
    by (cases m) (auto simp: handleSetNewOutput_def handleSetLogLvl_def handleLog_def log_run_stopped)
qed simp

section \<open>Properties\<close>

text \<open>
  The names of the levels are read back: the three letters a line shows are converted to
  the level they stand for, and a name that is none of the sixteen is refused with its text.
\<close>

theorem level_roundtrip:
  "convertStrToLvl (LevelStr ! level_value l) = Inr l \<and>
   ((\<exists>m. convertStrToLvl s = Inr m) = (s \<in> fst ` set strLvl)) \<and>
   (convertStrToLvl s = Inl (s @ '', is not a valid log level name'') \<or> s \<in> fst ` set strLvl)"
proof -
  have "convertStrToLvl (LevelStr ! level_value l) = Inr l"
    by (cases l) (simp_all add: convertStrToLvl_def LevelStr_def strLvl_def)
  moreover have "map_of strLvl s \<noteq> None \<longleftrightarrow> s \<in> fst ` set strLvl" by (simp add: map_of_eq_None_iff)
  ultimately show ?thesis by (cases "map_of strLvl s") (auto simp: convertStrToLvl_def)
qed

text \<open>
  The log thread writes every entry that comes before the request to terminate, in order, to
  the output set last before it - whatever the log level was set to, which is never consulted -
  and nothing behind that request.
\<close>

theorem log_writes_all:
  assumes "running s" and "log_run f ms s = (s', rest)"
  shows "written s' = written s @ map (\<lambda>(out, e). (out, log_line f e))
      (entries_to (logOutput s) (takeWhile (\<lambda>m. m \<noteq> TerminateMsg) ms)) \<and>
    rest = drop 1 (dropWhile (\<lambda>m. m \<noteq> TerminateMsg) ms) \<and> (running s' \<longleftrightarrow> TerminateMsg \<notin> set ms)"
  using log_run_written [OF assms] log_run_rest [OF assms] by blast

definition debug_entry :: log_entry where
  "debug_entry = \<lparr>log_lvl = Debug, fileName = ''main.cpp'', lineNo = 9, functionName = ''main'',
     timeStamp = Time 0 5, logString = ''up''\<rparr>"

theorem log_writes_all_witness:
  "written (fst (log_run (\<lambda>_ _. ''00:00:00.'') [SetLogLvl Emergency, Log debug_entry, TerminateMsg, Log debug_entry]
     (log_system_new 0))) = [(0, log_line (\<lambda>_ _. ''00:00:00.'') debug_entry)]"
proof -
  let ?ms = "[SetLogLvl Emergency, Log debug_entry, TerminateMsg, Log debug_entry]"
  obtain s' rest where run: "log_run (\<lambda>_ _. ''00:00:00.'') ?ms (log_system_new 0) = (s', rest)"
    by (rule prod.exhaust)
  have "running (log_system_new 0)" by (simp add: log_system_new_def)
  from log_writes_all [OF this run] have "written s' = [(0, log_line (\<lambda>_ _. ''00:00:00.'') debug_entry)]"
    by (simp add: log_system_new_def)
  then show ?thesis unfolding run by simp
qed

end
