(* ===== verification/OsWin.thy ===== *)
theory OsWin
  imports OsTime OsSync
begin

text \<open>
  The Windows half of the OS library as far as it differs from the Linux one: critical sections,
  condition variables, semaphores and the clock. The results of the system calls are parameters.
\<close>

section \<open>Critical sections\<close>

text \<open>A critical section may be entered again by its owner: the owner and how often it entered.\<close>

type_synonym critical_section = "(tid \<times> nat) option"

definition wmutex_lock :: "tid \<Rightarrow> critical_section \<Rightarrow> critical_section option" where
  "wmutex_lock t m =
     (case m of None \<Rightarrow> Some (Some (t, 1)) | Some (u, n) \<Rightarrow> if u = t then Some (Some (t, n + 1)) else None)"

definition wmutex_unlock :: "tid \<Rightarrow> critical_section \<Rightarrow> sync_fault + critical_section" where
  "wmutex_unlock t m =
     (case m of None \<Rightarrow> Inl UnlockNotHeld
      | Some (u, n) \<Rightarrow> if u \<noteq> t then Inl UnlockNotHeld else Inr (if n = 1 then None else Some (t, n - 1)))"

section \<open>Condition variables\<close>

definition WAIT_TIMEOUT :: int where "WAIT_TIMEOUT = 258"
definition ERROR_TIMEOUT :: int where "ERROR_TIMEOUT = 1460"

text \<open>\<open>slept\<close> is the result of \<open>SleepConditionVariableCS\<close>, \<open>err\<close> that of \<open>GetLastError\<close>.\<close>

definition wcond_wait :: "bool \<Rightarrow> sync_fault + unit" where
  "wcond_wait slept = (if \<not> slept then Inl ConditionalError else Inr ())"

definition wcond_waitTimed :: "bool \<Rightarrow> int \<Rightarrow> sync_fault + awoken" where
  "wcond_waitTimed slept err =
     (if slept then Inr SIGNALED
      else if err = WAIT_TIMEOUT \<or> err = ERROR_TIMEOUT then Inr TIMEDOUT
      else Inl ConditionalError)"

section \<open>Semaphores\<close>

definition MAX_COUNT :: nat where
  "MAX_COUNT = 1024"

text \<open>\<open>CreateSemaphore\<close> and \<open>ReleaseSemaphore\<close> fail beyond the maximum.\<close>

definition wsemaphore_new :: "nat \<Rightarrow> sync_fault + nat" where
  "wsemaphore_new initCount = (if initCount \<le> MAX_COUNT then Inr initCount else Inl SemaphoreError)"

definition wsemaphore_wait :: "nat \<Rightarrow> nat option" where
  "wsemaphore_wait n = (if n = 0 then None else Some (n - 1))"

definition wsemaphore_signal :: "nat \<Rightarrow> sync_fault + nat" where
  "wsemaphore_signal n = (if n + 1 \<le> MAX_COUNT then Inr (n + 1) else Inl SemaphoreError)"

text \<open>A program of waits (\<open>False\<close>) and signals (\<open>True\<close>); \<open>None\<close> when a wait blocks.\<close>

fun wsemaphore_run :: "bool list \<Rightarrow> nat \<Rightarrow> (sync_fault + nat) option" where
  "wsemaphore_run [] n = Some (Inr n)"
| "wsemaphore_run (True # ops) n =
     (case wsemaphore_signal n of Inl e \<Rightarrow> Some (Inl e) | Inr n \<Rightarrow> wsemaphore_run ops n)"
| "wsemaphore_run (False # ops) n =
     (case wsemaphore_wait n of None \<Rightarrow> None | Some n \<Rightarrow> wsemaphore_run ops n)"

lemma wsemaphore_count:
  "wsemaphore_run ops n = Some (Inr m) \<Longrightarrow> n \<le> MAX_COUNT \<Longrightarrow>
    m \<le> MAX_COUNT \<and> m + length (filter Not ops) = n + length (filter id ops)"
proof (induction ops n rule: wsemaphore_run.induct)
  case (2 ops n)
  then show ?case by (auto simp: wsemaphore_signal_def split: if_splits)
next
  case (3 ops n)
  then show ?case by (auto simp: wsemaphore_wait_def split: if_splits)
qed simp

section \<open>The clock\<close>

text \<open>
  \<open>FILETIME\<close> counts units of 100 ns since 1601 in 64 bits; both constants are signed and are
  converted to the unsigned type of the count.
\<close>

definition EPOCH_DIFF :: "64 word" where "EPOCH_DIFF = 0x019DB1DED53E8000"
definition RATE_DIFF :: "64 word" where "RATE_DIFF = 10000"

definition wgetCurrentTime :: "64 word \<Rightarrow> time" where
  "wgetCurrentTime quad = Time_msec (sint ((quad - EPOCH_DIFF) div RATE_DIFF))"

definition wgetCurrentMonotonicTime :: "64 word \<Rightarrow> time" where
  "wgetCurrentMonotonicTime ticks = Time_msec (sint ticks)"

text \<open>The Unix time in milliseconds, up to the year 2038.\<close>

lemma wgetCurrentTime_ms:
  assumes "EPOCH_DIFF \<le> quad" and "ms_range ((uint quad - uint EPOCH_DIFF) div 10000)"
  shows "normal (wgetCurrentTime quad) \<and>
    in_ms (wgetCurrentTime quad) = (uint quad - 116444736000000000) div 10000"
proof -
  let ?d = "(uint quad - 116444736000000000) div 10000"
  have e: "uint EPOCH_DIFF = 116444736000000000" by (simp add: EPOCH_DIFF_def)
  have "uint (quad - EPOCH_DIFF) = uint quad - 116444736000000000"
    using uint_minus_simple_alt [of EPOCH_DIFF quad] assms(1) e by simp
  then have u: "uint ((quad - EPOCH_DIFF) div RATE_DIFF) = ?d"
    by (simp add: uint_div RATE_DIFF_def)
  have r: "in_long (?d div 1000)" using assms(2) e by (simp add: ms_range_def)
  have nn: "0 \<le> ?d" using u uint_ge_0 by metis
  have "?d < 2147483648000" using r by (auto simp: in_long_def)
  then have "sint ((quad - EPOCH_DIFF) div RATE_DIFF) = ?d"
    unfolding sint_uint u using nn by (simp add: signed_take_bit_int_eq_self)
  then show ?thesis
    using r nn by (simp add: wgetCurrentTime_def Time_msec_def normal_def in_ms_def)
qed

end
