(* ===== verification/WsValidator.thy ===== *)
theory WsValidator
  imports WsFrame SrvPercent
begin

unbundle bit_operations_syntax

text \<open>
  The protocol validator of the server's WebSocket connections
  (\<open>restinio/websocket/impl/ws_protocol_validator.hpp\<close>): the checks on a frame header, on the
  order of frames, on close codes and on the UTF-8 text of a payload that arrives in parts, and
  the unmasking of the payload. The lemmas say which headers are accepted, that a text split
  into frames and parts anywhere is accepted and unmasked, and what a control frame in the
  middle of a symbol does.
\<close>

section \<open>States\<close>

datatype validation_state_t = initial_state | frame_header_is_valid | payload_part_is_valid
  | frame_is_valid | invalid_opcode | empty_mask_from_client_side | non_final_control_frame
  | non_zero_rsv_flags | payload_len_is_too_big | continuation_frame_without_data_frame
  | new_data_frame_without_finishing_previous | invalid_close_code | incorrect_utf8_data

fun validation_state_str :: "validation_state_t \<Rightarrow> string" where
  "validation_state_str initial_state = ''initial_state''"
| "validation_state_str frame_header_is_valid = ''frame_header_is_valid''"
| "validation_state_str payload_part_is_valid = ''payload_part_is_valid''"
| "validation_state_str frame_is_valid = ''frame_is_valid''"
| "validation_state_str invalid_opcode = ''invalid_opcode''"
| "validation_state_str empty_mask_from_client_side = ''empty_mask_from_client_side''"
| "validation_state_str non_final_control_frame = ''non_final_control_frame''"
| "validation_state_str non_zero_rsv_flags = ''non_zero_rsv_flags''"
| "validation_state_str payload_len_is_too_big = ''payload_len_is_too_big''"
| "validation_state_str continuation_frame_without_data_frame = ''continuation_frame_without_data_frame''"
| "validation_state_str new_data_frame_without_finishing_previous = ''new_data_frame_without_finishing_previous''"
| "validation_state_str invalid_close_code = ''invalid_close_code''"
| "validation_state_str incorrect_utf8_data = ''incorrect_utf8_data''"

fun is_control_frame :: "opcode_t \<Rightarrow> bool" where
  "is_control_frame op \<longleftrightarrow> op = connection_close_frame \<or> op = ping_frame \<or> op = pong_frame"

fun is_data_frame :: "opcode_t \<Rightarrow> bool" where
  "is_data_frame op \<longleftrightarrow> op = text_frame \<or> op = binary_frame"

text \<open>\<open>m_processed_bytes_count\<close> is only used modulo 4, which divides the range of \<open>size_t\<close>.\<close>

record unmasker_t =
  m_mask :: raw_data_t
  m_processed_bytes_count :: nat

definition unmask_byte :: "byte_t \<Rightarrow> unmasker_t \<Rightarrow> byte_t \<times> unmasker_t" where
  "unmask_byte b u =
     (b XOR m_mask u ! (m_processed_bytes_count u mod 4),
      u\<lparr>m_processed_bytes_count := Suc (m_processed_bytes_count u)\<rparr>)"

definition reset_unmasker :: "32 word \<Rightarrow> unmasker_t \<Rightarrow> unmasker_t" where
  "reset_unmasker key u = u\<lparr>m_processed_bytes_count := 0, m_mask := mask_octets key\<rparr>"

datatype working_state_t = empty_state | processing_frame
datatype previous_data_frame_t = prev_none | prev_text | prev_binary

record ws_protocol_validator_t =
  m_validation_state :: validation_state_t
  m_working_state :: working_state_t
  m_previous_data_frame :: previous_data_frame_t
  m_current_frame :: message_details_t
  m_expected_close_code :: expected_data_t
  m_utf8_checker :: utf8_checker
  m_unmask_flag :: bool
  m_unmasker :: unmasker_t

definition validator_start :: "bool \<Rightarrow> unmasker_t \<Rightarrow> ws_protocol_validator_t" where
  "validator_start do_unmask u =
     \<lparr>m_validation_state = initial_state, m_working_state = empty_state,
      m_previous_data_frame = prev_none, m_current_frame = default_details,
      m_expected_close_code = expected_data 0, m_utf8_checker = utf8_start,
      m_unmask_flag = do_unmask, m_unmasker = u\<rparr>"

abbreviation set_validation_state ::
    "validation_state_t \<Rightarrow> ws_protocol_validator_t \<Rightarrow> ws_protocol_validator_t" where
  "set_validation_state s v \<equiv> v\<lparr>m_validation_state := s\<rparr>"

definition is_state_still_valid :: "ws_protocol_validator_t \<Rightarrow> bool" where
  "is_state_still_valid v \<longleftrightarrow>
     m_validation_state v = initial_state \<or> m_validation_state v = frame_header_is_valid \<or>
     m_validation_state v = payload_part_is_valid \<or> m_validation_state v = frame_is_valid"

section \<open>Frame headers\<close>

definition validate_frame_header ::
    "message_details_t \<Rightarrow> ws_protocol_validator_t \<Rightarrow> bool \<times> ws_protocol_validator_t" where
  "validate_frame_header frame v0 =
     (let v = set_validation_state frame_header_is_valid v0;
          v = (if \<not> is_valid_opcode (m_opcode frame) then set_validation_state invalid_opcode v
               else if is_control_frame (m_opcode frame) \<and> \<not> m_final_flag frame
               then set_validation_state non_final_control_frame v
               else if \<not> m_mask_flag frame then set_validation_state empty_mask_from_client_side v
               else if m_rsv1_flag frame \<or> m_rsv2_flag frame \<or> m_rsv3_flag frame
               then set_validation_state non_zero_rsv_flags v
               else if is_control_frame (m_opcode frame) \<and> payload_len frame > 125
               then set_validation_state payload_len_is_too_big v
               else v)
      in (frame_header_is_valid = m_validation_state v, v))"

definition check_previous_frame_type ::
    "opcode_t \<Rightarrow> ws_protocol_validator_t \<Rightarrow> bool \<times> ws_protocol_validator_t" where
  "check_previous_frame_type op v =
     (if m_previous_data_frame v = prev_none \<and> op = continuation_frame
      then (False, set_validation_state continuation_frame_without_data_frame v)
      else if m_previous_data_frame v \<noteq> prev_none \<and> is_data_frame op
      then (False, set_validation_state new_data_frame_without_finishing_previous v)
      else (True, v))"

definition accept_frame :: "message_details_t \<Rightarrow> ws_protocol_validator_t \<Rightarrow> ws_protocol_validator_t" where
  "accept_frame frame v0 =
     (let v = (case m_opcode frame of
                 text_frame \<Rightarrow> if \<not> m_final_flag frame then v0\<lparr>m_previous_data_frame := prev_text\<rparr> else v0
               | binary_frame \<Rightarrow> if \<not> m_final_flag frame then v0\<lparr>m_previous_data_frame := prev_binary\<rparr> else v0
               | connection_close_frame \<Rightarrow>
                   v0\<lparr>m_expected_close_code := reset_expected 2 (m_expected_close_code v0)\<rparr>
               | _ \<Rightarrow> v0);
          v = v\<lparr>m_current_frame := frame, m_working_state := processing_frame\<rparr>
      in if m_unmask_flag v then v\<lparr>m_unmasker := reset_unmasker (m_masking_key frame) (m_unmasker v)\<rparr> else v)"

definition process_new_frame ::
    "message_details_t \<Rightarrow> ws_protocol_validator_t \<Rightarrow> exception_t + validation_state_t \<times> ws_protocol_validator_t" where
  "process_new_frame frame v0 =
     (if m_working_state v0 \<noteq> empty_state then Inl ''another frame is processing now''
      else let (ok, v) = validate_frame_header frame v0;
               (ok, v) = (if ok then check_previous_frame_type (m_opcode frame) v else (False, v));
               v = (if ok then accept_frame frame v else v)
           in Inr (m_validation_state v, v))"

section \<open>Payload\<close>

definition validate_close_code :: "16 word \<Rightarrow> ws_protocol_validator_t \<Rightarrow> ws_protocol_validator_t" where
  "validate_close_code code v =
     (if code < 1000 \<or> (code > 1011 \<and> code < 3000) \<or> code > 4999
      then set_validation_state invalid_close_code v
      else if code = 1004 \<or> code = 1005 \<or> code = 1006
      then set_validation_state invalid_close_code v
      else v)"

definition check_utf8 :: "byte_t \<Rightarrow> ws_protocol_validator_t \<Rightarrow> ws_protocol_validator_t" where
  "check_utf8 b v =
     (let (ok, u) = process_byte b (m_utf8_checker v);
          v = v\<lparr>m_utf8_checker := u\<rparr>
      in if \<not> ok then set_validation_state incorrect_utf8_data v else v)"

definition process_payload_byte ::
    "byte_t \<Rightarrow> ws_protocol_validator_t \<Rightarrow> exception_t + byte_t \<times> ws_protocol_validator_t" where
  "process_payload_byte byte v0 =
     (let (b, v) = (if m_unmask_flag v0
                    then (case unmask_byte byte (m_unmasker v0) of (b, u) \<Rightarrow> (b, v0\<lparr>m_unmasker := u\<rparr>))
                    else (byte, v0))
      in if m_opcode (m_current_frame v) = text_frame \<or>
            (m_opcode (m_current_frame v) = continuation_frame \<and> m_previous_data_frame v = prev_text)
         then Inr (b, check_utf8 b v)
         else if m_opcode (m_current_frame v) = connection_close_frame
         then (if \<not> all_bytes_loaded (m_expected_close_code v)
               then rbind (add_byte_and_check_size b (m_expected_close_code v)) (\<lambda>(full, e).
                 let v = v\<lparr>m_expected_close_code := e\<rparr>
                 in Inr (b, if full then validate_close_code (read_number_from_big_endian_bytes (m_loaded_data e)) v
                            else v))
               else Inr (b, check_utf8 b v))
         else Inr (b, v))"

text \<open>The loop over a part of the payload: the bytes after it, unmasked as far as it went.\<close>

fun payload_loop ::
    "raw_data_t \<Rightarrow> ws_protocol_validator_t \<Rightarrow> exception_t + raw_data_t \<times> ws_protocol_validator_t" where
  "payload_loop [] v = Inr ([], v)"
| "payload_loop (b # data) v =
     rbind (process_payload_byte b v) (\<lambda>(c, v).
       if m_validation_state v \<noteq> payload_part_is_valid then Inr (c # data, v)
       else rbind (payload_loop data v) (\<lambda>(out, v). Inr (c # out, v)))"

definition process_and_unmask_next_payload_part :: "raw_data_t \<Rightarrow> ws_protocol_validator_t \<Rightarrow>
    exception_t + validation_state_t \<times> raw_data_t \<times> ws_protocol_validator_t" where
  "process_and_unmask_next_payload_part data v =
     (if m_working_state v = empty_state then Inl ''current state is empty''
      else if is_state_still_valid v
      then rbind (payload_loop data (set_validation_state payload_part_is_valid v)) (\<lambda>(out, v).
             Inr (m_validation_state v, out, v))
      else Inr (m_validation_state v, data, v))"

definition process_next_payload_part :: "raw_data_t \<Rightarrow> ws_protocol_validator_t \<Rightarrow>
    exception_t + validation_state_t \<times> ws_protocol_validator_t" where
  "process_next_payload_part data v =
     (if m_working_state v = empty_state then Inl ''current state is empty''
      else if is_state_still_valid v
      then rbind (payload_loop data (set_validation_state payload_part_is_valid v)) (\<lambda>(out, v).
             Inr (m_validation_state v, v))
      else Inr (m_validation_state v, v))"

definition finish_frame :: "ws_protocol_validator_t \<Rightarrow> validation_state_t \<times> ws_protocol_validator_t" where
  "finish_frame v0 =
     (let v = (if is_state_still_valid v0 then set_validation_state frame_is_valid v0 else v0);
          v = (if m_final_flag (m_current_frame v)
               then (let v = (if \<not> finalized (m_utf8_checker v) then set_validation_state incorrect_utf8_data v else v)
                     in v\<lparr>m_utf8_checker := reset (m_utf8_checker v)\<rparr>)
               else v);
          v = v\<lparr>m_working_state := empty_state\<rparr>;
          v = (if m_previous_data_frame v \<noteq> prev_none \<and> \<not> is_control_frame (m_opcode (m_current_frame v)) \<and>
                  m_final_flag (m_current_frame v)
               then v\<lparr>m_previous_data_frame := prev_none\<rparr> else v)
      in (m_validation_state v, set_validation_state initial_state v))"

definition reset_validator :: "ws_protocol_validator_t \<Rightarrow> ws_protocol_validator_t" where
  "reset_validator v =
     v\<lparr>m_validation_state := initial_state, m_working_state := empty_state,
       m_previous_data_frame := prev_none, m_utf8_checker := reset (m_utf8_checker v)\<rparr>"

section \<open>UTF-8 byte by byte\<close>

text \<open>The checker over several bytes; \<open>None\<close> when it rejects one.\<close>

fun utf8_bytes :: "raw_data_t \<Rightarrow> utf8_checker \<Rightarrow> utf8_checker option" where
  "utf8_bytes [] u = Some u"
| "utf8_bytes (b # bs) u = (if fst (process_byte b u) then utf8_bytes bs (snd (process_byte b u)) else None)"

lemma utf8_bytes_append: "utf8_bytes (a @ b) u = Option.bind (utf8_bytes a u) (utf8_bytes b)"
  by (induction a arbitrary: u) auto

lemma utf8_bytes_appendE:
  assumes "utf8_bytes (a @ b) u = Some w"
  obtains v where "utf8_bytes a u = Some v" "utf8_bytes b v = Some w"
  using assms by (auto simp: utf8_bytes_append Option.bind_eq_Some_conv)

lemma at_ready: "at v x 0 valid \<Longrightarrow> ready v"
  by (simp add: at_def ready_def)

lemma next_octet:
  assumes "at u v k st" and "0 < k" and "b < 64" and "v < 2 ^ 20"
    and "st = valid \<or> st = may_be_overlong \<and> (k = 2 \<and> 32 \<le> b \<or> k = 3 \<and> 16 \<le> b)"
    and "k = 1 \<Longrightarrow> code_point (v * 64 + b)"
  shows "\<exists>w. process_byte (oct8 (128 + b)) u = (True, w) \<and> at w (v * 64 + b) (k - 1) valid"
proof -
  have b: "unat (oct8 (128 + b)) = 128 + b" using assms(3) unat_byte [of "128 + b"] by simp
  show ?thesis
  proof (cases "k = 1")
    case True
    from next_byte(2) [OF assms(1), of "oct8 (128 + b)"] assms b True show ?thesis by auto
  next
    case False
    from next_byte(1) [OF assms(1), of "oct8 (128 + b)"] assms b False show ?thesis by auto
  qed
qed

lemma utf8_bytes_step:
  "process_byte b u = (True, v) \<Longrightarrow> utf8_bytes (b # bs) u = utf8_bytes bs v"
  by simp

text \<open>Every encoded code point is accepted, from any state between two symbols.\<close>

lemma utf8_symbol:
  assumes "code_point n" and "ready u"
  shows "\<exists>w. utf8_bytes (map oct8 (utf8_encode n)) u = Some w \<and> ready w"
proof -
  have u: "m_current_symbol_rest_bytes u = 0" "m_state u = valid" using assms(2) by (simp_all add: ready_def)
  have cp: "n < 0x110000" using assms(1) by (simp add: code_point_def)
  have e1: "n div 64 * 64 + n mod 64 = n" by simp
  have lt: "n div 64 mod 64 < 64" "n div 4096 mod 64 < 64" by simp_all
  have e2: "n div 4096 * 64 + n div 64 mod 64 = n div 64"
    using div_mult_mod_eq [of "n div 64" 64] by (simp add: div_mult2_eq [symmetric])
  have e3: "n div 262144 * 64 + n div 4096 mod 64 = n div 4096"
    using div_mult_mod_eq [of "n div 4096" 64] by (simp add: div_mult2_eq [symmetric])
  have small: "n div 64 < 2 ^ 20" "n div 4096 < 2 ^ 20" "n div 262144 < 2 ^ 20"
    using cp by (simp_all add: div_less_iff_less_mult)
  consider "n < 0x80" | "0x80 \<le> n" "n < 0x800" | "0x800 \<le> n" "n < 0x10000" | "0x10000 \<le> n" by linarith
  then show ?thesis
  proof cases
    case 1
    from lead_byte(1) [OF u, of "oct8 n"] 1 unat_byte [of n] obtain v where
      "process_byte (oct8 n) u = (True, v)" "at v n 0 valid" by auto
    then show ?thesis using 1 at_ready by (auto simp: utf8_encode_def)
  next
    case 2
    have "2 \<le> n div 64" "n div 64 < 32" using 2 by (simp_all add: div_less_iff_less_mult less_eq_div_iff_mult_less_eq)
    with lead_byte(2) [OF u, of "oct8 (0xC0 + n div 64)"] unat_byte [of "0xC0 + n div 64"] obtain v where
      v: "process_byte (oct8 (0xC0 + n div 64)) u = (True, v)" "at v (n div 64) 1 valid" by auto
    from next_octet [OF v(2), of "n mod 64"] assms(1) small(1) e1 obtain w where
      "process_byte (oct8 (128 + n mod 64)) v = (True, w)" "at w n 0 valid" by auto
    then show ?thesis using 2 v(1) at_ready by (auto simp: utf8_encode_def)
  next
    case 3
    have "n div 4096 < 16" using 3 by (simp add: div_less_iff_less_mult)
    with lead_byte(3) [OF u, of "oct8 (0xE0 + n div 4096)"] unat_byte [of "0xE0 + n div 4096"] obtain v where
      v: "process_byte (oct8 (0xE0 + n div 4096)) u = (True, v)"
        "at v (n div 4096) 2 (if n div 4096 = 0 then may_be_overlong else valid)" by auto
    have "32 \<le> n div 64" using 3 by (simp add: less_eq_div_iff_mult_less_eq)
    then have ov: "32 \<le> n div 64 mod 64" if "n div 4096 = 0"
      using that 3 by (simp add: div_eq_0_iff div_less_iff_less_mult)
    obtain w where
      w: "process_byte (oct8 (128 + n div 64 mod 64)) v = (True, w)" "at w (n div 64) 1 valid"
      using next_octet [OF v(2) _ lt(1) small(2)] e2 ov by (cases "n div 4096 = 0") auto
    from next_octet [OF w(2), of "n mod 64"] assms(1) small(1) e1 obtain x where
      "process_byte (oct8 (128 + n mod 64)) w = (True, x)" "at x n 0 valid" by auto
    then show ?thesis using 3 v(1) w(1) at_ready by (auto simp: utf8_encode_def)
  next
    case 4
    have "n div 262144 < 8" using cp by (simp add: div_less_iff_less_mult)
    with lead_byte(4) [OF u, of "oct8 (0xF0 + n div 262144)"] unat_byte [of "0xF0 + n div 262144"] obtain v where
      v: "process_byte (oct8 (0xF0 + n div 262144)) u = (True, v)"
        "at v (n div 262144) 3 (if n div 262144 = 0 then may_be_overlong else valid)" by auto
    have "16 \<le> n div 4096" using 4 by (simp add: less_eq_div_iff_mult_less_eq)
    then have ov: "16 \<le> n div 4096 mod 64" if "n div 262144 = 0"
      using that by (simp add: div_eq_0_iff div_less_iff_less_mult)
    obtain w where
      w: "process_byte (oct8 (128 + n div 4096 mod 64)) v = (True, w)" "at w (n div 4096) 2 valid"
      using next_octet [OF v(2) _ lt(2) small(3)] e3 ov by (cases "n div 262144 = 0") auto
    from next_octet [OF w(2), of "n div 64 mod 64"] small(2) e2 obtain x where
      x: "process_byte (oct8 (128 + n div 64 mod 64)) w = (True, x)" "at x (n div 64) 1 valid" by auto
    from next_octet [OF x(2), of "n mod 64"] assms(1) small(1) e1 obtain y where
      "process_byte (oct8 (128 + n mod 64)) x = (True, y)" "at y n 0 valid" by auto
    then show ?thesis using 4 v(1) w(1) x(1) at_ready by (auto simp: utf8_encode_def)
  qed
qed

text \<open>The bytes of a text.\<close>

definition utf8_text :: "nat list \<Rightarrow> raw_data_t" where
  "utf8_text ns = concat (map (\<lambda>n. map oct8 (utf8_encode n)) ns)"

lemma utf8_text_accepted:
  "list_all code_point ns \<Longrightarrow> ready u \<Longrightarrow> \<exists>w. utf8_bytes (utf8_text ns) u = Some w \<and> ready w"
proof (induction ns arbitrary: u)
  case (Cons n ns)
  from utf8_symbol [of n u] Cons.prems obtain v where
    v: "utf8_bytes (map oct8 (utf8_encode n)) u = Some v" "ready v" by auto
  with Cons show ?case by (simp add: utf8_text_def utf8_bytes_append)
qed (simp add: utf8_text_def)

section \<open>Which headers are accepted\<close>

text \<open>The rules of RFC 6455 for a frame of a client, after the data frames before it.\<close>

definition header_allowed :: "previous_data_frame_t \<Rightarrow> message_details_t \<Rightarrow> bool" where
  "header_allowed prev m \<longleftrightarrow>
     is_valid_opcode (m_opcode m) \<and> m_mask_flag m \<and>
     \<not> m_rsv1_flag m \<and> \<not> m_rsv2_flag m \<and> \<not> m_rsv3_flag m \<and>
     (is_control_frame (m_opcode m) \<longrightarrow> m_final_flag m \<and> payload_len m \<le> 125) \<and>
     (m_opcode m = continuation_frame \<longrightarrow> prev \<noteq> prev_none) \<and>
     (is_data_frame (m_opcode m) \<longrightarrow> prev = prev_none)"

lemma process_new_frame_allowed:
  assumes "m_working_state v = empty_state" and "header_allowed (m_previous_data_frame v) m"
  shows "process_new_frame m v =
    Inr (frame_header_is_valid, accept_frame m (set_validation_state frame_header_is_valid v))"
proof -
  have "m_validation_state (accept_frame m (set_validation_state frame_header_is_valid v)) = frame_header_is_valid"
    by (simp add: accept_frame_def Let_def split: opcode_t.split)
  then show ?thesis using assms
    by (auto simp: process_new_frame_def validate_frame_header_def check_previous_frame_type_def
        header_allowed_def Let_def)
qed

lemma process_new_frame_refused:
  assumes "m_working_state v = empty_state" and "\<not> header_allowed (m_previous_data_frame v) m"
  shows "\<exists>st. process_new_frame m v = Inr (st, set_validation_state st v) \<and> st \<noteq> frame_header_is_valid \<and>
    st \<in> {invalid_opcode, empty_mask_from_client_side, non_final_control_frame, non_zero_rsv_flags,
      payload_len_is_too_big, continuation_frame_without_data_frame,
      new_data_frame_without_finishing_previous}"
  using assms
  by (auto simp: process_new_frame_def validate_frame_header_def check_previous_frame_type_def
      header_allowed_def Let_def)

lemma close_code_accepted:
  "m_validation_state (validate_close_code code v) = m_validation_state v \<longleftrightarrow>
     m_validation_state v = invalid_close_code \<or>
     unat code \<in> {1000..1003} \<union> {1007..1011} \<union> {3000..4999}"
  by (auto simp: validate_close_code_def word_less_nat_alt word_unat_eq_iff)

section \<open>Whole frames\<close>

text \<open>
  What the connection asks of the validator for one frame: its header, its payload in the parts
  the socket delivers, and the end of the frame.
\<close>

fun validate_parts :: "raw_data_t list \<Rightarrow> ws_protocol_validator_t \<Rightarrow>
    exception_t + validation_state_t \<times> raw_data_t \<times> ws_protocol_validator_t" where
  "validate_parts [] v = Inr (payload_part_is_valid, [], v)"
| "validate_parts (d # ds) v =
     rbind (process_and_unmask_next_payload_part d v) (\<lambda>(st, out, v).
       if st = payload_part_is_valid
       then rbind (validate_parts ds v) (\<lambda>(st, out', v). Inr (st, out @ out', v))
       else Inr (st, out, v))"

definition validate_frame :: "message_details_t \<times> raw_data_t list \<Rightarrow> ws_protocol_validator_t \<Rightarrow>
    exception_t + validation_state_t \<times> raw_data_t \<times> ws_protocol_validator_t" where
  "validate_frame f v =
     rbind (process_new_frame (fst f) v) (\<lambda>(st, v).
       if st \<noteq> frame_header_is_valid then Inr (st, [], v)
       else rbind (validate_parts (snd f) v) (\<lambda>(st, out, v).
         if st \<noteq> payload_part_is_valid then Inr (st, out, v)
         else (case finish_frame v of (st, v) \<Rightarrow> Inr (st, out, v))))"

fun validate_frames :: "(message_details_t \<times> raw_data_t list) list \<Rightarrow> ws_protocol_validator_t \<Rightarrow>
    exception_t + validation_state_t \<times> raw_data_t list \<times> ws_protocol_validator_t" where
  "validate_frames [] v = Inr (frame_is_valid, [], v)"
| "validate_frames (f # fs) v =
     rbind (validate_frame f v) (\<lambda>(st, out, v).
       if st = frame_is_valid
       then rbind (validate_frames fs v) (\<lambda>(st, outs, v). Inr (st, out # outs, v))
       else Inr (st, [out], v))"

text \<open>A frame in progress whose payload is text, and a validator between two messages.\<close>

definition in_text :: "32 word \<Rightarrow> nat \<Rightarrow> utf8_checker \<Rightarrow> ws_protocol_validator_t \<Rightarrow> bool" where
  "in_text key i u v \<longleftrightarrow>
     m_working_state v = processing_frame \<and> m_unmask_flag v \<and> is_state_still_valid v \<and>
     m_mask (m_unmasker v) = mask_octets key \<and> m_processed_bytes_count (m_unmasker v) = i \<and>
     m_utf8_checker v = u \<and>
     (m_opcode (m_current_frame v) = text_frame \<or>
      m_opcode (m_current_frame v) = continuation_frame \<and> m_previous_data_frame v = prev_text)"

definition idle :: "ws_protocol_validator_t \<Rightarrow> bool" where
  "idle v \<longleftrightarrow> m_working_state v = empty_state \<and> m_validation_state v = initial_state \<and> m_unmask_flag v"

text \<open>What a byte or a part of a payload leaves alone.\<close>

definition same_frame :: "ws_protocol_validator_t \<Rightarrow> ws_protocol_validator_t \<Rightarrow> bool" where
  "same_frame v w \<longleftrightarrow> m_current_frame w = m_current_frame v \<and> m_previous_data_frame w = m_previous_data_frame v"

lemma payload_loop_text:
  assumes "in_text key i u v" and "m_validation_state v = payload_part_is_valid"
    and "utf8_bytes (xor_from key i data) u = Some x"
  shows "\<exists>w. payload_loop data v = Inr (xor_from key i data, w) \<and> in_text key (i + length data) x w \<and>
    m_validation_state w = payload_part_is_valid \<and> same_frame v w"
  using assms
proof (induction data arbitrary: i u v)
  case Nil
  then show ?case by (auto simp: same_frame_def)
next
  case (Cons b data)
  let ?c = "b XOR mask_octets key ! (i mod 4)"
  let ?v = "v\<lparr>m_unmasker := (m_unmasker v)\<lparr>m_processed_bytes_count := Suc i\<rparr>,
              m_utf8_checker := snd (process_byte ?c u)\<rparr>"
  have ok: "fst (process_byte ?c u)" and rest: "utf8_bytes (xor_from key (Suc i) data) (snd (process_byte ?c u)) = Some x"
    using Cons.prems(3) by (auto split: if_splits)
  have step: "process_payload_byte b v = Inr (?c, ?v)"
    using Cons.prems(1) ok
    by (auto simp: process_payload_byte_def in_text_def unmask_byte_def check_utf8_def Let_def split: prod.split)
  have "in_text key (Suc i) (snd (process_byte ?c u)) ?v" "m_validation_state ?v = payload_part_is_valid"
    using Cons.prems by (simp_all add: in_text_def is_state_still_valid_def)
  from Cons.IH [OF this rest] obtain w where
    "payload_loop data ?v = Inr (xor_from key (Suc i) data, w)" "in_text key (Suc i + length data) x w"
    "m_validation_state w = payload_part_is_valid" "same_frame ?v w" by blast
  then show ?case using step Cons.prems(2) by (simp add: same_frame_def)
qed

lemma validate_parts_text:
  assumes "in_text key i u v" and "utf8_bytes (xor_from key i (concat ds)) u = Some x"
  shows "\<exists>w. validate_parts ds v = Inr (payload_part_is_valid, xor_from key i (concat ds), w) \<and>
    in_text key (i + length (concat ds)) x w \<and> same_frame v w"
  using assms
proof (induction ds arbitrary: i u v)
  case Nil
  then show ?case by (auto simp: same_frame_def)
next
  case (Cons d ds)
  obtain y where y: "utf8_bytes (xor_from key i d) u = Some y"
    "utf8_bytes (xor_from key (i + length d) (concat ds)) y = Some x"
    using Cons.prems(2) by (auto simp: xor_from_append elim: utf8_bytes_appendE)
  let ?v = "set_validation_state payload_part_is_valid v"
  have "in_text key i u ?v" "m_validation_state ?v = payload_part_is_valid"
    using Cons.prems(1) by (simp_all add: in_text_def is_state_still_valid_def)
  from payload_loop_text [OF this y(1)] obtain w where
    w: "payload_loop d ?v = Inr (xor_from key i d, w)" "in_text key (i + length d) y w"
      "m_validation_state w = payload_part_is_valid" "same_frame ?v w" by blast
  from Cons.IH [OF w(2) y(2)] obtain z where
    "validate_parts ds w = Inr (payload_part_is_valid, xor_from key (i + length d) (concat ds), z)"
    "in_text key (i + length d + length (concat ds)) x z" "same_frame w z" by blast
  then show ?case using w Cons.prems(1)
    by (simp add: process_and_unmask_next_payload_part_def in_text_def xor_from_append same_frame_def add.assoc)
qed

lemma masked_details_simps [simp]:
  "m_final_flag (masked_message_details fin op n key) \<longleftrightarrow> fin = final_frame"
  "m_opcode (masked_message_details fin op n key) = op"
  "m_mask_flag (masked_message_details fin op n key)"
  "m_masking_key (masked_message_details fin op n key) = key"
  "\<not> m_rsv1_flag (masked_message_details fin op n key)"
  "\<not> m_rsv2_flag (masked_message_details fin op n key)"
  "\<not> m_rsv3_flag (masked_message_details fin op n key)"
  by (auto simp: masked_message_details_def init_payload_len_def default_details_def)

definition text_opcode :: "opcode_t \<Rightarrow> previous_data_frame_t \<Rightarrow> bool" where
  "text_opcode op prev \<longleftrightarrow> op = text_frame \<and> prev = prev_none \<or> op = continuation_frame \<and> prev = prev_text"

text \<open>One frame of a text: accepted and unmasked, however its payload is cut.\<close>

lemma text_frame_valid:
  assumes "idle v" and op: "text_opcode op (m_previous_data_frame v)"
    and parts: "concat parts = mask_unmask_payload key d"
    and u: "utf8_bytes d (m_utf8_checker v) = Some x" and fin: "fin = final_frame \<longrightarrow> finalized x"
  shows "\<exists>w. validate_frame (masked_message_details fin op n key, parts) v = Inr (frame_is_valid, d, w) \<and>
    idle w \<and> m_previous_data_frame w = (if fin = final_frame then prev_none else prev_text) \<and>
    m_utf8_checker w = (if fin = final_frame then reset x else x)"
proof -
  let ?m = "masked_message_details fin op n key"
  let ?v = "accept_frame ?m (set_validation_state frame_header_is_valid v)"
  have st: "m_working_state v = empty_state" "m_unmask_flag v" using assms(1) by (simp_all add: idle_def)
  have "header_allowed (m_previous_data_frame v) ?m"
    using op by (auto simp: header_allowed_def text_opcode_def)
  with st(1) have new: "process_new_frame ?m v = Inr (frame_header_is_valid, ?v)"
    by (rule process_new_frame_allowed)
  have v: "in_text key 0 (m_utf8_checker v) ?v" "m_current_frame ?v = ?m"
    "m_previous_data_frame ?v = (if fin = final_frame then m_previous_data_frame v else prev_text)"
    using st op by (auto simp: accept_frame_def in_text_def is_state_still_valid_def reset_unmasker_def
        text_opcode_def Let_def)
  have d: "xor_from key 0 (concat parts) = d" by (simp add: parts mask_unmask_eq)
  from validate_parts_text [OF v(1), of parts x] d u obtain w where
    w: "validate_parts parts ?v = Inr (payload_part_is_valid, d, w)" "in_text key (length (concat parts)) x w"
      "same_frame ?v w" by auto
  have "fst (finish_frame w) = frame_is_valid" "idle (snd (finish_frame w))"
    "m_previous_data_frame (snd (finish_frame w)) = (if fin = final_frame then prev_none else prev_text)"
    "m_utf8_checker (snd (finish_frame w)) = (if fin = final_frame then reset x else x)"
    using w(2,3) v(2,3) fin op
    by (auto simp: finish_frame_def in_text_def is_state_still_valid_def same_frame_def idle_def
        text_opcode_def Let_def)
  then show ?thesis using new w(1)
    by (auto simp: validate_frame_def split: prod.split)
qed

text \<open>
  A text message as a client may send it: in one or more frames, each with its own key, the
  first a text frame, the others continuations, the last one final; each payload arrives in
  parts.
\<close>

type_synonym sent_frame = "32 word \<times> raw_data_t \<times> raw_data_t list"

definition parts_match :: "sent_frame \<Rightarrow> bool" where
  "parts_match f = (case f of (key, d, parts) \<Rightarrow> concat parts = mask_unmask_payload key d)"

fun text_frames :: "opcode_t \<Rightarrow> sent_frame list \<Rightarrow> (message_details_t \<times> raw_data_t list) list" where
  "text_frames op [] = []"
| "text_frames op ((key, d, parts) # fs) =
     (masked_message_details (if fs = [] then final_frame else not_final_frame) op (of_nat (length d)) key, parts) #
     text_frames continuation_frame fs"

definition sent_payload :: "sent_frame \<Rightarrow> raw_data_t" where
  "sent_payload f = fst (snd f)"

lemma sent_payload_simp [simp]: "sent_payload (key, d, parts) = d"
  by (simp add: sent_payload_def)

lemma text_frames_valid:
  assumes "fs \<noteq> []" and "list_all parts_match fs" and "idle v" and "text_opcode op (m_previous_data_frame v)"
    and "utf8_bytes (concat (map sent_payload fs)) (m_utf8_checker v) = Some x" and "finalized x"
  shows "\<exists>w. validate_frames (text_frames op fs) v = Inr (frame_is_valid, map sent_payload fs, w) \<and>
    idle w \<and> m_previous_data_frame w = prev_none \<and> m_utf8_checker w = reset x"
  using assms
proof (induction fs arbitrary: op v)
  case (Cons f fs)
  obtain key d parts where f: "f = (key, d, parts)" by (cases f)
  have parts: "concat parts = mask_unmask_payload key d" using Cons.prems(2) f by (simp add: parts_match_def)
  obtain y where y: "utf8_bytes d (m_utf8_checker v) = Some y" "utf8_bytes (concat (map sent_payload fs)) y = Some x"
    using Cons.prems(5) f by (auto elim: utf8_bytes_appendE)
  let ?fin = "if fs = [] then final_frame else not_final_frame"
  have fin: "?fin = final_frame \<longrightarrow> finalized y" using y(2) Cons.prems(6) by auto
  have iff: "?fin = final_frame \<longleftrightarrow> fs = []" by simp
  from text_frame_valid [OF Cons.prems(3,4) parts y(1) fin, of "of_nat (length d)", unfolded iff] obtain w where
    w: "validate_frame (masked_message_details ?fin op (of_nat (length d)) key, parts) v = Inr (frame_is_valid, d, w)"
      "idle w" "m_previous_data_frame w = (if fs = [] then prev_none else prev_text)"
      "m_utf8_checker w = (if fs = [] then reset y else y)"
    by blast
  show ?case
  proof (cases "fs = []")
    case True
    then show ?thesis using w y(2) by (simp add: f)
  next
    case False
    have "text_opcode continuation_frame (m_previous_data_frame w)" "utf8_bytes (concat (map sent_payload fs)) (m_utf8_checker w) = Some x"
      using w(3,4) y(2) False by (simp_all add: text_opcode_def)
    from Cons.IH [OF False _ w(2) this Cons.prems(6)] Cons.prems(2) obtain z where
      "validate_frames (text_frames continuation_frame fs) w = Inr (frame_is_valid, map sent_payload fs, z)"
      "idle z" "m_previous_data_frame z = prev_none" "m_utf8_checker z = reset x" by auto
    then show ?thesis using w(1) False by (simp add: f)
  qed
qed simp

text \<open>A frame in progress whose payload is not checked: a ping or a pong.\<close>

definition in_ping :: "32 word \<Rightarrow> nat \<Rightarrow> ws_protocol_validator_t \<Rightarrow> bool" where
  "in_ping key i v \<longleftrightarrow>
     m_working_state v = processing_frame \<and> m_unmask_flag v \<and> is_state_still_valid v \<and>
     m_mask (m_unmasker v) = mask_octets key \<and> m_processed_bytes_count (m_unmasker v) = i \<and>
     m_opcode (m_current_frame v) \<in> {ping_frame, pong_frame}"

lemma payload_loop_ping:
  assumes "in_ping key i v" and "m_validation_state v = payload_part_is_valid"
  shows "\<exists>w. payload_loop data v = Inr (xor_from key i data, w) \<and> in_ping key (i + length data) w \<and>
    m_validation_state w = payload_part_is_valid \<and> same_frame v w \<and> m_utf8_checker w = m_utf8_checker v"
  using assms
proof (induction data arbitrary: i v)
  case Nil
  then show ?case by (auto simp: same_frame_def)
next
  case (Cons b data)
  let ?v = "v\<lparr>m_unmasker := (m_unmasker v)\<lparr>m_processed_bytes_count := Suc i\<rparr>\<rparr>"
  have step: "process_payload_byte b v = Inr (b XOR mask_octets key ! (i mod 4), ?v)"
    using Cons.prems(1) by (auto simp: process_payload_byte_def in_ping_def unmask_byte_def Let_def)
  have "in_ping key (Suc i) ?v" "m_validation_state ?v = payload_part_is_valid"
    using Cons.prems by (simp_all add: in_ping_def is_state_still_valid_def)
  from Cons.IH [OF this] obtain w where
    "payload_loop data ?v = Inr (xor_from key (Suc i) data, w)" "in_ping key (Suc i + length data) w"
    "m_validation_state w = payload_part_is_valid" "same_frame ?v w" "m_utf8_checker w = m_utf8_checker ?v" by blast
  then show ?case using step Cons.prems(2) by (simp add: same_frame_def)
qed

lemma validate_parts_ping:
  assumes "in_ping key i v"
  shows "\<exists>w. validate_parts ds v = Inr (payload_part_is_valid, xor_from key i (concat ds), w) \<and>
    in_ping key (i + length (concat ds)) w \<and> same_frame v w \<and> m_utf8_checker w = m_utf8_checker v"
  using assms
proof (induction ds arbitrary: i v)
  case Nil
  then show ?case by (auto simp: same_frame_def)
next
  case (Cons d ds)
  let ?v = "set_validation_state payload_part_is_valid v"
  have "in_ping key i ?v" "m_validation_state ?v = payload_part_is_valid"
    using Cons.prems(1) by (simp_all add: in_ping_def is_state_still_valid_def)
  from payload_loop_ping [OF this, of d] obtain w where
    w: "payload_loop d ?v = Inr (xor_from key i d, w)" "in_ping key (i + length d) w"
      "m_validation_state w = payload_part_is_valid" "same_frame ?v w" "m_utf8_checker w = m_utf8_checker v" by auto
  from Cons.IH [OF w(2)] obtain z where
    "validate_parts ds w = Inr (payload_part_is_valid, xor_from key (i + length d) (concat ds), z)"
    "in_ping key (i + length d + length (concat ds)) z" "same_frame w z" "m_utf8_checker z = m_utf8_checker w" by blast
  then show ?case using w Cons.prems(1)
    by (simp add: process_and_unmask_next_payload_part_def in_ping_def xor_from_append same_frame_def add.assoc)
qed

text \<open>A ping or pong after any frame: its validity is that of the symbol checked last.\<close>

lemma ping_frame_result:
  assumes "idle v" and op: "op \<in> {ping_frame, pong_frame}" and len: "length d \<le> 125"
    and parts: "concat parts = mask_unmask_payload key d"
  shows "\<exists>w. validate_frame (masked_message_details final_frame op (of_nat (length d)) key, parts) v =
      Inr (if finalized (m_utf8_checker v) then frame_is_valid else incorrect_utf8_data, d, w) \<and>
    idle w \<and> m_previous_data_frame w = m_previous_data_frame v \<and> m_utf8_checker w = reset (m_utf8_checker v)"
proof -
  let ?m = "masked_message_details final_frame op (of_nat (length d)) key"
  let ?v = "accept_frame ?m (set_validation_state frame_header_is_valid v)"
  have st: "m_working_state v = empty_state" "m_unmask_flag v" using assms(1) by (simp_all add: idle_def)
  have "payload_len ?m \<le> 125" using len by (simp add: word_le_nat_alt unat_of_nat)
  then have "header_allowed (m_previous_data_frame v) ?m"
    using op by (auto simp: header_allowed_def)
  with st(1) have new: "process_new_frame ?m v = Inr (frame_header_is_valid, ?v)"
    by (rule process_new_frame_allowed)
  have v: "in_ping key 0 ?v" "m_current_frame ?v = ?m" "m_utf8_checker ?v = m_utf8_checker v"
    "m_previous_data_frame ?v = m_previous_data_frame v"
    using st op by (auto simp: accept_frame_def in_ping_def is_state_still_valid_def reset_unmasker_def Let_def)
  have d: "xor_from key 0 (concat parts) = d" by (simp add: parts mask_unmask_eq)
  from validate_parts_ping [OF v(1), of parts] d obtain w where
    w: "validate_parts parts ?v = Inr (payload_part_is_valid, d, w)" "in_ping key (length (concat parts)) w"
      "same_frame ?v w" "m_utf8_checker w = m_utf8_checker v" using v(3) by auto
  have "fst (finish_frame w) = (if finalized (m_utf8_checker v) then frame_is_valid else incorrect_utf8_data)"
    "idle (snd (finish_frame w))" "m_utf8_checker (snd (finish_frame w)) = reset (m_utf8_checker v)"
    "m_previous_data_frame (snd (finish_frame w)) = m_previous_data_frame v"
    using w(2-4) v(2-4) op
    by (auto simp: finish_frame_def in_ping_def is_state_still_valid_def same_frame_def idle_def Let_def)
  then show ?thesis using new w(1) by (auto simp: validate_frame_def split: prod.split)
qed

section \<open>Properties\<close>

text \<open>
  A text message is accepted and unmasked whatever its framing: for every text, every split
  of its UTF-8 bytes into frames (also inside a symbol), every masking key per frame and every
  split of each payload into parts, the validator answers that each frame is valid, gives back
  the payloads as they were before masking, and is ready for the next message.
\<close>

theorem text_message_valid:
  assumes "list_all code_point ns" and "concat (map sent_payload fs) = utf8_text ns" and "fs \<noteq> []"
    and "list_all parts_match fs"
    and "idle v" and "m_previous_data_frame v = prev_none" and "ready (m_utf8_checker v)"
  shows "\<exists>w. validate_frames (text_frames text_frame fs) v = Inr (frame_is_valid, map sent_payload fs, w) \<and>
    idle w \<and> m_previous_data_frame w = prev_none \<and> ready (m_utf8_checker w)"
proof -
  from utf8_text_accepted [OF assms(1,7)] obtain x where
    x: "utf8_bytes (utf8_text ns) (m_utf8_checker v) = Some x" "ready x" by blast
  have "finalized x" "ready (reset x)" using x(2) by (simp_all add: ready_def finalized_def reset_def)
  with text_frames_valid [OF assms(3,4,5), of text_frame x] assms(2,6) x(1) show ?thesis
    by (auto simp: text_opcode_def)
qed

theorem text_message_valid_witness:
  "\<exists>w. validate_frames
     [(masked_message_details not_final_frame text_frame 2 0x37FA213D, [[0x56], [0x39]]),
      (masked_message_details final_frame continuation_frame 1 0x01020304, [[0xA8]])]
     (validator_start True \<lparr>m_mask = [], m_processed_bytes_count = 0\<rparr>) =
     Inr (frame_is_valid, [[0x61, 0xC3], [0xA9]], w) \<and>
     idle w \<and> m_previous_data_frame w = prev_none \<and> ready (m_utf8_checker w)"
proof -
  let ?fs = "[(0x37FA213D, [0x61, 0xC3], [[0x56], [0x39]]), (0x01020304, [0xA9], [[0xA8]])] :: sent_frame list"
  let ?v = "validator_start True \<lparr>m_mask = [], m_processed_bytes_count = 0\<rparr>"
  have "list_all code_point [0x61, 0xE9]" by (simp add: code_point_def)
  moreover have "concat (map sent_payload ?fs) = utf8_text [0x61, 0xE9]"
    by (simp add: utf8_text_def utf8_encode_def oct8_def)
  moreover have "list_all parts_match ?fs"
    by (simp add: parts_match_def mask_unmask_eq mask_octets_def octet_bits)
  moreover have "idle ?v" "m_previous_data_frame ?v = prev_none" "ready (m_utf8_checker ?v)"
    by (simp_all add: validator_start_def idle_def ready_def utf8_start_def)
  ultimately show ?thesis using text_message_valid [of "[0x61, 0xE9]" ?fs ?v] by simp
qed

text \<open>
  A ping or pong between two frames of a text, which RFC 6455 allows anywhere, is rejected as
  incorrect UTF-8 when the text was cut inside a symbol: the end of the control frame tests and
  resets the checker of the text.
\<close>

theorem ping_inside_symbol:
  assumes "idle v" and "m_previous_data_frame v = prev_none"
    and "utf8_bytes p (m_utf8_checker v) = Some x" and "\<not> finalized x"
    and "op \<in> {ping_frame, pong_frame}" and "length d \<le> 125"
    and "concat parts = mask_unmask_payload key p" and "concat parts' = mask_unmask_payload key' d"
  shows "\<exists>w. validate_frames
      [(masked_message_details not_final_frame text_frame (of_nat (length p)) key, parts),
       (masked_message_details final_frame op (of_nat (length d)) key', parts')] v =
      Inr (incorrect_utf8_data, [p, d], w) \<and> finalized (m_utf8_checker w)"
proof -
  from text_frame_valid [OF assms(1) _ assms(7,3), of text_frame not_final_frame "of_nat (length p)"] assms(2)
  obtain y where y: "validate_frame (masked_message_details not_final_frame text_frame (of_nat (length p)) key, parts) v =
      Inr (frame_is_valid, p, y)" "idle y" "m_utf8_checker y = x" by (auto simp: text_opcode_def)
  from ping_frame_result [OF y(2) assms(5,6,8)] y(3) assms(4) obtain w where
    "validate_frame (masked_message_details final_frame op (of_nat (length d)) key', parts') y =
      Inr (incorrect_utf8_data, d, w)" "m_utf8_checker w = reset x" by auto
  then show ?thesis using y(1) by (simp add: finalized_def reset_def)
qed

theorem ping_inside_symbol_witness:
  "\<exists>w. validate_frames
      [(masked_message_details not_final_frame text_frame 2 0, [[0x61, 0xC3]]),
       (masked_message_details final_frame ping_frame 0 0, [])]
      (validator_start True \<lparr>m_mask = [], m_processed_bytes_count = 0\<rparr>) =
      Inr (incorrect_utf8_data, [[0x61, 0xC3], []], w) \<and> finalized (m_utf8_checker w)"
proof -
  let ?v = "validator_start True \<lparr>m_mask = [], m_processed_bytes_count = 0\<rparr>"
  have v: "idle ?v" "m_previous_data_frame ?v = prev_none" by (simp_all add: validator_start_def idle_def)
  have "\<exists>x. utf8_bytes [0x61, 0xC3] (m_utf8_checker ?v) = Some x \<and> \<not> finalized x"
    by (simp add: validator_start_def utf8_start_def process_byte_def check_overlong_def Let_def finalized_def)
  then obtain x where x: "utf8_bytes [0x61, 0xC3] (m_utf8_checker ?v) = Some x" "\<not> finalized x" by blast
  have m: "concat [[0x61, 0xC3]] = mask_unmask_payload 0 [0x61, 0xC3]" "concat [] = mask_unmask_payload 0 []"
    by (simp_all add: mask_unmask_eq mask_octets_def octet_bits)
  from ping_inside_symbol [OF v x _ _ m(1) m(2), of ping_frame] show ?thesis by simp
qed

end
