(* ===== verification/WsSha1.thy ===== *)
theory WsSha1
  imports WsBits
begin

unbundle bit_operations_syntax

text \<open>
  The SHA-1 digest of the WebSocket handshake (\<open>restinio/utils/sha1.hpp\<close>): the transformation of
  a block, the builder that collects the bytes of a message, and the text of a digest; and SHA-1
  as FIPS 180-4 defines it. The lemmas show that the in-place transformation with its window of
  sixteen words is the standard's compression function, and what the builder computes for every
  message.
\<close>

section \<open>The transformation of a block\<close>

type_synonym int_block_t = "32 word list"
type_synonym digest_t = "32 word list"

definition rotate_left :: "nat \<Rightarrow> 32 word \<Rightarrow> 32 word" where
  "rotate_left shift x = push_bit shift x OR drop_bit (32 - shift) x"

definition blk :: "int_block_t \<Rightarrow> nat \<Rightarrow> 32 word" where
  "blk block i = rotate_left 1
     (block ! ((i + 13) mod 16) XOR block ! ((i + 8) mod 16) XOR block ! ((i + 2) mod 16) XOR block ! i)"

text \<open>
  The five round functions get the block, the values of \<open>v\<close>, \<open>w\<close>, \<open>x\<close>, \<open>y\<close>, \<open>z\<close> and the index,
  and return the block and the new values of \<open>w\<close> and \<open>z\<close>. An index \<open>& 15\<close> is written \<open>mod 16\<close>.
\<close>

type_synonym round_result = "int_block_t \<times> 32 word \<times> 32 word"
type_synonym round_function =
  "int_block_t \<Rightarrow> 32 word \<Rightarrow> 32 word \<Rightarrow> 32 word \<Rightarrow> 32 word \<Rightarrow> 32 word \<Rightarrow> nat \<Rightarrow> round_result"

definition R0 :: round_function where
  "R0 block v w x y z i =
     (let z = z + (((w AND (x XOR y)) XOR y) + block ! i + 0x5a827999 + rotate_left 5 v)
      in (block, rotate_left 30 w, z))"

definition R1 :: round_function where
  "R1 block0 v w x y z i =
     (let block = block0[i := blk block0 i];
          z = z + (((w AND (x XOR y)) XOR y) + block ! i + 0x5a827999 + rotate_left 5 v)
      in (block, rotate_left 30 w, z))"

definition R2 :: round_function where
  "R2 block0 v w x y z i =
     (let block = block0[i := blk block0 i];
          z = z + ((w XOR x XOR y) + block ! i + 0x6ed9eba1 + rotate_left 5 v)
      in (block, rotate_left 30 w, z))"

definition R3 :: round_function where
  "R3 block0 v w x y z i =
     (let block = block0[i := blk block0 i];
          z = z + ((((w OR x) AND y) OR (w AND x)) + block ! i + 0x8f1bbcdc + rotate_left 5 v)
      in (block, rotate_left 30 w, z))"

definition R4 :: round_function where
  "R4 block0 v w x y z i =
     (let block = block0[i := blk block0 i];
          z = z + ((w XOR x XOR y) + block ! i + 0xca62c1d6 + rotate_left 5 v)
      in (block, rotate_left 30 w, z))"

text \<open>
  The eighty calls of \<open>transform\<close> as they are written there: the function, the variables passed
  (\<open>a\<close> to \<open>e\<close> are 0 to 4), and the index.
\<close>

datatype call_name = R0_call | R1_call | R2_call | R3_call | R4_call

fun round_of :: "call_name \<Rightarrow> round_function" where
  "round_of R0_call = R0"
| "round_of R1_call = R1"
| "round_of R2_call = R2"
| "round_of R3_call = R3"
| "round_of R4_call = R4"

definition transform_calls :: "(call_name \<times> nat list \<times> nat) list" where
  "transform_calls =
    [(R0_call, [0, 1, 2, 3, 4], 0), (R0_call, [4, 0, 1, 2, 3], 1), (R0_call, [3, 4, 0, 1, 2], 2), (R0_call, [2, 3, 4, 0, 1], 3),
     (R0_call, [1, 2, 3, 4, 0], 4), (R0_call, [0, 1, 2, 3, 4], 5), (R0_call, [4, 0, 1, 2, 3], 6), (R0_call, [3, 4, 0, 1, 2], 7),
     (R0_call, [2, 3, 4, 0, 1], 8), (R0_call, [1, 2, 3, 4, 0], 9), (R0_call, [0, 1, 2, 3, 4], 10), (R0_call, [4, 0, 1, 2, 3], 11),
     (R0_call, [3, 4, 0, 1, 2], 12), (R0_call, [2, 3, 4, 0, 1], 13), (R0_call, [1, 2, 3, 4, 0], 14), (R0_call, [0, 1, 2, 3, 4], 15),
     (R1_call, [4, 0, 1, 2, 3], 0), (R1_call, [3, 4, 0, 1, 2], 1), (R1_call, [2, 3, 4, 0, 1], 2), (R1_call, [1, 2, 3, 4, 0], 3),
     (R2_call, [0, 1, 2, 3, 4], 4), (R2_call, [4, 0, 1, 2, 3], 5), (R2_call, [3, 4, 0, 1, 2], 6), (R2_call, [2, 3, 4, 0, 1], 7),
     (R2_call, [1, 2, 3, 4, 0], 8), (R2_call, [0, 1, 2, 3, 4], 9), (R2_call, [4, 0, 1, 2, 3], 10), (R2_call, [3, 4, 0, 1, 2], 11),
     (R2_call, [2, 3, 4, 0, 1], 12), (R2_call, [1, 2, 3, 4, 0], 13), (R2_call, [0, 1, 2, 3, 4], 14), (R2_call, [4, 0, 1, 2, 3], 15),
     (R2_call, [3, 4, 0, 1, 2], 0), (R2_call, [2, 3, 4, 0, 1], 1), (R2_call, [1, 2, 3, 4, 0], 2), (R2_call, [0, 1, 2, 3, 4], 3),
     (R2_call, [4, 0, 1, 2, 3], 4), (R2_call, [3, 4, 0, 1, 2], 5), (R2_call, [2, 3, 4, 0, 1], 6), (R2_call, [1, 2, 3, 4, 0], 7),
     (R3_call, [0, 1, 2, 3, 4], 8), (R3_call, [4, 0, 1, 2, 3], 9), (R3_call, [3, 4, 0, 1, 2], 10), (R3_call, [2, 3, 4, 0, 1], 11),
     (R3_call, [1, 2, 3, 4, 0], 12), (R3_call, [0, 1, 2, 3, 4], 13), (R3_call, [4, 0, 1, 2, 3], 14), (R3_call, [3, 4, 0, 1, 2], 15),
     (R3_call, [2, 3, 4, 0, 1], 0), (R3_call, [1, 2, 3, 4, 0], 1), (R3_call, [0, 1, 2, 3, 4], 2), (R3_call, [4, 0, 1, 2, 3], 3),
     (R3_call, [3, 4, 0, 1, 2], 4), (R3_call, [2, 3, 4, 0, 1], 5), (R3_call, [1, 2, 3, 4, 0], 6), (R3_call, [0, 1, 2, 3, 4], 7),
     (R3_call, [4, 0, 1, 2, 3], 8), (R3_call, [3, 4, 0, 1, 2], 9), (R3_call, [2, 3, 4, 0, 1], 10), (R3_call, [1, 2, 3, 4, 0], 11),
     (R4_call, [0, 1, 2, 3, 4], 12), (R4_call, [4, 0, 1, 2, 3], 13), (R4_call, [3, 4, 0, 1, 2], 14), (R4_call, [2, 3, 4, 0, 1], 15),
     (R4_call, [1, 2, 3, 4, 0], 0), (R4_call, [0, 1, 2, 3, 4], 1), (R4_call, [4, 0, 1, 2, 3], 2), (R4_call, [3, 4, 0, 1, 2], 3),
     (R4_call, [2, 3, 4, 0, 1], 4), (R4_call, [1, 2, 3, 4, 0], 5), (R4_call, [0, 1, 2, 3, 4], 6), (R4_call, [4, 0, 1, 2, 3], 7),
     (R4_call, [3, 4, 0, 1, 2], 8), (R4_call, [2, 3, 4, 0, 1], 9), (R4_call, [1, 2, 3, 4, 0], 10), (R4_call, [0, 1, 2, 3, 4], 11),
     (R4_call, [4, 0, 1, 2, 3], 12), (R4_call, [3, 4, 0, 1, 2], 13), (R4_call, [2, 3, 4, 0, 1], 14), (R4_call, [1, 2, 3, 4, 0], 15)]"

definition do_call :: "call_name \<times> nat list \<times> nat \<Rightarrow> int_block_t \<times> 32 word list \<Rightarrow> int_block_t \<times> 32 word list" where
  "do_call c s = (case (c, s) of ((f, vs, i), (block, r)) \<Rightarrow>
     (case round_of f block (r ! (vs ! 0)) (r ! (vs ! 1)) (r ! (vs ! 2)) (r ! (vs ! 3)) (r ! (vs ! 4)) i of
        (block, w, z) \<Rightarrow> (block, r[vs ! 1 := w, vs ! 4 := z])))"

definition int_block :: "raw_data_t \<Rightarrow> int_block_t" where
  "int_block buf = map (\<lambda>i.
     ucast (buf ! (4 * i + 3) AND 0xff) OR
     push_bit 8 (ucast (buf ! (4 * i + 2) AND 0xff)) OR
     push_bit 16 (ucast (buf ! (4 * i + 1) AND 0xff)) OR
     push_bit 24 (ucast (buf ! (4 * i + 0) AND 0xff))) [0..<16]"

definition transform :: "digest_t \<Rightarrow> raw_data_t \<Rightarrow> digest_t" where
  "transform digest buf =
     (let r = snd (fold do_call transform_calls (int_block buf, digest))
      in map (\<lambda>i. digest ! i + r ! i) [0..<5])"

section \<open>The builder\<close>

record builder_t =
  m_digest :: digest_t
  m_buffer_len :: nat
  m_transforms_count :: "64 word"
  m_buffer :: raw_data_t

definition builder_start :: builder_t where
  "builder_start = \<lparr>
     m_digest = [0x67452301, 0xEFCDAB89, 0x98BADCFE, 0x10325476, 0xC3D2E1F0],
     m_buffer_len = 0, m_transforms_count = 0, m_buffer = replicate 64 0\<rparr>"

text \<open>
  The loop of \<open>update\<close>; \<open>what\<close> is the rest of the message, so its length is \<open>length\<close>. The
  buffer never holds more than 64 bytes, so \<open>block_size - m_buffer_len\<close> does not wrap.
\<close>

definition fill_buffer :: "raw_data_t \<Rightarrow> builder_t \<Rightarrow> builder_t" where
  "fill_buffer part b =
     b\<lparr>m_buffer := take (m_buffer_len b) (m_buffer b) @ part @ drop (m_buffer_len b + length part) (m_buffer b),
       m_buffer_len := m_buffer_len b + length part\<rparr>"

function update_builder :: "raw_data_t \<Rightarrow> builder_t \<Rightarrow> builder_t" where
  "update_builder what b =
     (let part_len = min (length what) (64 - m_buffer_len b);
          b' = fill_buffer (take part_len what) b
      in if m_buffer_len b' \<noteq> 64 then b'
         else update_builder (drop part_len what)
                (b'\<lparr>m_digest := transform (m_digest b') (m_buffer b'),
                    m_transforms_count := m_transforms_count b' + 1, m_buffer_len := 0\<rparr>))"
  by pat_completeness auto
termination
  by (relation "measure (\<lambda>(what, b). 2 * length what + (if m_buffer_len b = 64 then 1 else 0))")
    (auto simp: fill_buffer_def min_def split: if_splits)

declare update_builder.simps [simp del]

definition calculate_total_bits_count :: "builder_t \<Rightarrow> 64 word" where
  "calculate_total_bits_count b = (m_transforms_count b * 64 + of_nat (m_buffer_len b)) * 8"

definition push_uint_to_buffer :: "nat \<Rightarrow> 64 word \<Rightarrow> raw_data_t \<Rightarrow> raw_data_t" where
  "push_uint_to_buffer i big_value buf =
     (let v = ucast big_value :: 32 word
      in buf[i := n_bits_from 24 8 v, i + 1 := n_bits_from 16 8 v, i + 2 := n_bits_from 8 8 v,
             i + 3 := n_bits_from 0 8 v])"

definition finish_builder :: "builder_t \<Rightarrow> digest_t" where
  "finish_builder b =
     (let total_bits = calculate_total_bits_count b;
          original_buf_len = m_buffer_len b;
          buf = take original_buf_len (m_buffer b) @ [0x80] @ replicate (63 - original_buf_len) 0x00;
          (digest, buf) = (if original_buf_len > 56 then (transform (m_digest b) buf, replicate 64 0)
                           else (m_digest b, buf));
          buf = push_uint_to_buffer 56 (drop_bit 32 total_bits) buf;
          buf = push_uint_to_buffer 60 (total_bits AND 0xffffffff) buf
      in transform digest buf)"

definition make_digest :: "raw_data_t \<Rightarrow> digest_t" where
  "make_digest what = finish_builder (update_builder what builder_start)"

section \<open>The text of a digest\<close>

definition hex_digits :: string where
  "hex_digits = ''0123456789abcdef''"

definition to_hex_string :: "digest_t \<Rightarrow> string" where
  "to_hex_string what = concat (map (\<lambda>c.
     map (\<lambda>shift. hex_digits ! unat (n_bits_from shift 4 c :: 32 word)) [28, 24, 20, 16, 12, 8, 4, 0]) what)"

definition digest_to_string :: "digest_t \<Rightarrow> raw_data_t" where
  "digest_to_string what = concat (map (\<lambda>c.
     [n_bits_from 24 8 c, n_bits_from 16 8 c, n_bits_from 8 8 c, n_bits_from 0 8 c]) what)"

section \<open>SHA-1, from FIPS 180-4\<close>

definition sha_f :: "nat \<Rightarrow> 32 word \<Rightarrow> 32 word \<Rightarrow> 32 word \<Rightarrow> 32 word" where
  "sha_f t x y z =
     (if t < 20 then (x AND y) XOR (NOT x AND z)
      else if t < 40 then x XOR y XOR z
      else if t < 60 then (x AND y) XOR (x AND z) XOR (y AND z)
      else x XOR y XOR z)"

definition sha_K :: "nat \<Rightarrow> 32 word" where
  "sha_K t = (if t < 20 then 0x5a827999 else if t < 40 then 0x6ed9eba1
     else if t < 60 then 0x8f1bbcdc else 0xca62c1d6)"

text \<open>The rotation of a word by \<open>n\<close> bits, and the message schedule of a block.\<close>

definition ROTL :: "nat \<Rightarrow> 32 word \<Rightarrow> 32 word" where
  "ROTL n x = word_rotl n x"

function schedule :: "32 word list \<Rightarrow> nat \<Rightarrow> 32 word" where
  "schedule M t =
     (if t < 16 then M ! t
      else ROTL 1 (schedule M (t - 3) XOR schedule M (t - 8) XOR schedule M (t - 14) XOR schedule M (t - 16)))"
  by pat_completeness auto
termination by (relation "measure snd") auto

declare schedule.simps [simp del]

type_synonym sha_state = "32 word \<times> 32 word \<times> 32 word \<times> 32 word \<times> 32 word"

definition sha_round :: "32 word list \<Rightarrow> nat \<Rightarrow> sha_state \<Rightarrow> sha_state" where
  "sha_round M t s = (case s of (a, b, c, d, e) \<Rightarrow>
     (ROTL 5 a + sha_f t b c d + e + sha_K t + schedule M t, a, ROTL 30 b, c, d))"

definition sha_compress :: "digest_t \<Rightarrow> raw_data_t \<Rightarrow> digest_t" where
  "sha_compress H block =
     (let M = map (\<lambda>i. read_number_from_big_endian_bytes (take 4 (drop (4 * i) block))) [0..<16]
      in case fold (sha_round M) [0..<80] (H ! 0, H ! 1, H ! 2, H ! 3, H ! 4) of (a, b, c, d, e) \<Rightarrow>
           [H ! 0 + a, H ! 1 + b, H ! 2 + c, H ! 3 + d, H ! 4 + e])"

function hash_blocks :: "digest_t \<Rightarrow> raw_data_t \<Rightarrow> digest_t" where
  "hash_blocks H bs =
     (if length bs < 64 then H else hash_blocks (sha_compress H (take 64 bs)) (drop 64 bs))"
  by pat_completeness auto
termination by (relation "measure (\<lambda>(H, bs). length bs)") auto

declare hash_blocks.simps [simp del]

definition sha_H0 :: digest_t where
  "sha_H0 = [0x67452301, 0xefcdab89, 0x98badcfe, 0x10325476, 0xc3d2e1f0]"

text \<open>
  The padding of a message of whole bytes: the bit 1, the least number of zeros that leaves room
  for the length, and the length in bits as a 64-bit number.
\<close>

definition sha_length :: "raw_data_t \<Rightarrow> raw_data_t" where
  "sha_length m = write_number_to_big_endian_bytes 8 (of_nat (8 * length m)) []"

definition sha_pad :: "raw_data_t \<Rightarrow> raw_data_t" where
  "sha_pad m = m @ [0x80] @ replicate ((119 - length m mod 64) mod 64) 0 @ sha_length m"

definition sha1 :: "raw_data_t \<Rightarrow> digest_t" where
  "sha1 m = hash_blocks sha_H0 (sha_pad m)"

section \<open>The transformation computes the compression function\<close>

lemma rotate_left_eq: "0 < n \<Longrightarrow> n < 32 \<Longrightarrow> rotate_left n x = ROTL n x"
proof (rule bit_word_eqI)
  fix i assume n: "0 < n" "n < 32" and i: "i < LENGTH(32)"
  show "bit (rotate_left n x) i = bit (ROTL n x) i"
  proof (cases "i < n")
    case True
    define j where "j = 32 - n"
    have "i + j < 32" using True n by (simp add: j_def)
    then have "(i + (32 - n mod 32)) mod 32 = j + i" using n by (simp add: j_def)
    then show ?thesis using True n i \<open>i + j < 32\<close>
      by (simp add: rotate_left_def ROTL_def bit_push_bit_iff bit_or_iff bit_drop_bit_eq bit_word_rotl_iff flip: j_def) (simp add: add.commute)
  next
    case False
    then have "(i + (32 - n)) mod 32 = i - n" using n i by (simp add: mod_if)
    moreover have "\<not> bit x (32 - n + i)" using False by (auto dest: bit_imp_le_length)
    ultimately show ?thesis using False n i by (simp add: rotate_left_def ROTL_def bit_simps)
  qed
qed

lemma choose_eq: "(w AND (x XOR y)) XOR y = (w AND x) XOR (NOT w AND y)" for w :: "32 word"
  by (rule bit_word_eqI) (auto simp: bit_simps)

lemma majority_eq: "((w OR x) AND y) OR (w AND x) = (w AND x) XOR (w AND y) XOR (x AND y)" for w :: "32 word"
  by (rule bit_word_eqI) (auto simp: bit_simps)

definition call_at :: "nat \<Rightarrow> call_name" where
  "call_at t = (if t < 16 then R0_call else if t < 20 then R1_call else if t < 40 then R2_call
     else if t < 60 then R3_call else R4_call)"

text \<open>The table follows a rule: each call uses the variables of the one before, moved by one.\<close>

lemma transform_calls_eq:
  "transform_calls = map (\<lambda>t. (call_at t, map (\<lambda>k. (k + 4 * t) mod 5) [0..<5], t mod 16)) [0..<80]"
  by code_simp

definition next_block :: "nat \<Rightarrow> int_block_t \<Rightarrow> int_block_t" where
  "next_block t block = (if t < 16 then block else block[t mod 16 := blk block (t mod 16)])"

lemma round_eq:
  "t < 80 \<Longrightarrow> round_of (call_at t) block v w x y z (t mod 16) =
     (next_block t block, ROTL 30 w,
      ROTL 5 v + sha_f t w x y + z + sha_K t + next_block t block ! (t mod 16))"
  by (auto simp: call_at_def next_block_def R0_def R1_def R2_def R3_def R4_def Let_def rotate_left_eq
      sha_f_def sha_K_def choose_eq majority_eq algebra_simps)

text \<open>The window holds the last sixteen words of the schedule.\<close>

definition window :: "32 word list \<Rightarrow> nat \<Rightarrow> int_block_t \<Rightarrow> bool" where
  "window M t block \<longleftrightarrow> length block = 16 \<and>
     (\<forall>s. s < max 16 t \<and> max 16 t \<le> s + 16 \<longrightarrow> block ! (s mod 16) = schedule M s)"

lemma windowD: "window M t block \<Longrightarrow> 16 \<le> t \<Longrightarrow> s < t \<Longrightarrow> t \<le> s + 16 \<Longrightarrow> block ! (s mod 16) = schedule M s"
  by (simp add: window_def max_def)

lemma window_next:
  assumes "window M t block"
  shows "window M (Suc t) (next_block t block)" and "next_block t block ! (t mod 16) = schedule M t"
proof -
  have "window M (Suc t) (next_block t block) \<and> next_block t block ! (t mod 16) = schedule M t"
  proof (cases "t < 16")
    case True
    then show ?thesis using assms by (auto simp: window_def next_block_def max_def)
  next
    case False
    let ?i = "t mod 16"
    have len: "length block = 16" using assms by (simp add: window_def)
    have "t + 13 = t - 3 + 16" "t + 8 = t - 8 + 16" "t + 2 = t - 14 + 16" "t = t - 16 + 16"
      using False by simp_all
    then have idx: "(?i + 13) mod 16 = (t - 3) mod 16" "(?i + 8) mod 16 = (t - 8) mod 16"
      "(?i + 2) mod 16 = (t - 14) mod 16" "?i = (t - 16) mod 16"
      by (metis mod_add_left_eq mod_add_self2)+
    have "16 \<le> t" using False by simp
    note w = windowD [OF assms this]
    have w': "block ! ((t - 3) mod 16) = schedule M (t - 3)" "block ! ((t - 8) mod 16) = schedule M (t - 8)"
      "block ! ((t - 14) mod 16) = schedule M (t - 14)" "block ! ((t - 16) mod 16) = schedule M (t - 16)"
      by (rule w; use False in simp)+
    have "blk block ?i = ROTL 1 (schedule M (t - 3) XOR schedule M (t - 8) XOR schedule M (t - 14) XOR schedule M (t - 16))"
      by (simp only: blk_def idx(1-3) w'(1-3) rotate_left_eq [of 1]) (simp only: idx(4) w'(4))
    also have "\<dots> = schedule M t" using False by (simp add: schedule.simps [of M t])
    finally have b: "blk block ?i = schedule M t" .
    have ne: "s mod 16 \<noteq> t mod 16" if "s < t" "t \<le> 15 + s" for s
    proof
      assume "s mod 16 = t mod 16"
      then have "16 dvd t - s" using that(1) by (metis less_imp_le mod_eq_dvd_iff_nat)
      then show False using that by (auto dest: dvd_imp_le)
    qed
    show ?thesis using False assms len b
      by (auto simp: ne ne [symmetric] window_def next_block_def max_def less_Suc_eq nth_list_update)
  qed
  then show "window M (Suc t) (next_block t block)" "next_block t block ! (t mod 16) = schedule M t" by auto
qed

text \<open>The five variables rotate: after \<open>t\<close> calls component \<open>k\<close> is in variable \<open>(k + 4 t) mod 5\<close>.\<close>

definition state_comp :: "sha_state \<Rightarrow> nat \<Rightarrow> 32 word" where
  "state_comp s k = (case s of (a, b, c, d, e) \<Rightarrow> [a, b, c, d, e] ! k)"

definition vars :: "nat \<Rightarrow> sha_state \<Rightarrow> 32 word list" where
  "vars t s = map (\<lambda>j. state_comp s ((j + t) mod 5)) [0..<5]"

lemma five: "[0..<5] = [0, 1, 2, 3, 4 :: nat]"
  by (simp add: upt_rec)

lemma update_five [simp]:
  "[a, b, c, d, e][Suc 0 := x] = [a, x, c, d, e]" "[a, b, c, d, e][2 := x] = [a, b, x, d, e]"
  "[a, b, c, d, e][3 := x] = [a, b, c, x, e]" "[a, b, c, d, e][4 := x] = [a, b, c, d, x]"
  by (simp_all add: eval_nat_numeral)

lemma do_call_step:
  assumes "t < 80" and "window M t block"
  shows "do_call (call_at t, map (\<lambda>k. (k + 4 * t) mod 5) [0..<5], t mod 16) (block, vars t s) =
    (next_block t block, vars (Suc t) (sha_round M t s))"
proof -
  obtain a b c d e where s: "s = (a, b, c, d, e)" by (cases s)
  let ?r = "t mod 5"
  have calls: "map (\<lambda>k. (k + 4 * t) mod 5) [0..<5] = map (\<lambda>k. (k + 4 * ?r) mod 5) [0..<5]"
    by (intro map_cong refl) (metis mod_add_right_eq mod_mult_right_eq)
  have v: "vars t s = map (\<lambda>j. state_comp s ((j + ?r) mod 5)) [0..<5]"
    "vars (Suc t) s' = map (\<lambda>j. state_comp s' ((j + Suc ?r) mod 5)) [0..<5]" for s'
  proof -
    have j: "(j + t) mod 5 = (j + ?r) mod 5" "(j + Suc t) mod 5 = (j + Suc ?r) mod 5" for j
      using mod_add_right_eq [of j t 5] mod_add_right_eq [of "Suc j" t 5] by simp_all
    show "vars t s = map (\<lambda>j. state_comp s ((j + ?r) mod 5)) [0..<5]"
      "vars (Suc t) s' = map (\<lambda>j. state_comp s' ((j + Suc ?r) mod 5)) [0..<5]"
      unfolding vars_def by (intro map_cong refl arg_cong [of _ _ "state_comp _"] j)+
  qed
  note rounds = round_eq [OF assms(1)] window_next(2) [OF assms(2)]
  have "?r < 5" by simp
  then consider "?r = 0" | "?r = 1" | "?r = 2" | "?r = 3" | "?r = 4" by linarith
  then show ?thesis
    by cases (simp_all only: calls v, simp_all add: five do_call_def state_comp_def s rounds sha_round_def)
qed

lemma fold_calls:
  assumes "window M 0 block" and "n \<le> 80"
  shows "\<exists>block'. fold do_call (map (\<lambda>t. (call_at t, map (\<lambda>k. (k + 4 * t) mod 5) [0..<5], t mod 16)) [0..<n])
      (block, vars 0 s) = (block', vars n (fold (sha_round M) [0..<n] s)) \<and> window M n block'"
  using assms(2)
proof (induction n)
  case 0
  then show ?case using assms(1) by simp
next
  case (Suc n)
  then obtain block' where
    "fold do_call (map (\<lambda>t. (call_at t, map (\<lambda>k. (k + 4 * t) mod 5) [0..<5], t mod 16)) [0..<n])
      (block, vars 0 s) = (block', vars n (fold (sha_round M) [0..<n] s))" and w: "window M n block'"
    by auto
  then show ?case using Suc.prems do_call_step [OF _ w] window_next(1) [OF w]
    by (auto simp del: upt.simps(2) simp: upt_Suc_append)
qed

lemma word_of_bytes:
  fixes a b c d :: byte_t
  shows "(ucast d OR push_bit 8 (ucast c) OR push_bit 16 (ucast b) OR push_bit 24 (ucast a) :: 32 word) =
    read_number_from_big_endian_bytes [a, b, c, d]"
  by (rule bit_word_eqI) (auto simp: read_number_from_big_endian_bytes_def bit_simps)

lemma int_block_eq:
  assumes "length buf = 64"
  shows "int_block buf = map (\<lambda>i. read_number_from_big_endian_bytes (take 4 (drop (4 * i) buf))) [0..<16]"
proof -
  have ff: "b AND 0xff = b" for b :: byte_t
    using take_bit_length_eq [of b] by (simp add: take_bit_eq_mask mask_numeral)
  have "take 4 (drop (4 * i) buf) = [buf ! (4 * i), buf ! (4 * i + 1), buf ! (4 * i + 2), buf ! (4 * i + 3)]"
    if "i < 16" for i
    using that assms by (intro nth_equalityI) (auto simp: less_Suc_eq eval_nat_numeral)
  then show ?thesis by (simp add: int_block_def ff word_of_bytes)
qed

theorem transform_eq:
  assumes "length digest = 5" and "length buf = 64"
  shows "transform digest buf = sha_compress digest buf"
proof -
  let ?M = "int_block buf" and ?s = "(digest ! 0, digest ! 1, digest ! 2, digest ! 3, digest ! 4)"
  obtain a b c d e where r: "fold (sha_round ?M) [0..<80] ?s = (a, b, c, d, e)"
    by (cases "fold (sha_round ?M) [0..<80] ?s")
  have "length digest = Suc (Suc (Suc (Suc (Suc 0))))" using assms(1) by simp
  then obtain h0 h1 h2 h3 h4 where h: "digest = [h0, h1, h2, h3, h4]"
    by (auto simp: length_Suc_conv)
  have "digest = vars 0 ?s" by (simp add: h vars_def state_comp_def five)
  moreover have "length ?M = 16" by (simp add: int_block_def)
  then have "window ?M 0 ?M" by (simp add: window_def schedule.simps [of ?M])
  ultimately obtain block where
    "fold do_call transform_calls (?M, digest) = (block, vars 80 (fold (sha_round ?M) [0..<80] ?s))"
    using fold_calls [of ?M ?M 80 ?s] unfolding transform_calls_eq by auto
  then have "transform digest buf = map (\<lambda>i. digest ! i + vars 80 (a, b, c, d, e) ! i) [0..<5]"
    by (simp only: transform_def r Let_def snd_conv)
  also have "\<dots> = sha_compress digest buf"
    unfolding sha_compress_def int_block_eq [OF assms(2), symmetric] Let_def r
    by (simp add: vars_def state_comp_def five)
  finally show ?thesis .
qed

section \<open>The builder\<close>

lemma length_sha_compress [simp]: "length (sha_compress H b) = 5"
  by (simp add: sha_compress_def Let_def split: prod.split)

lemma hash_blocks_short [simp]: "length bs < 64 \<Longrightarrow> hash_blocks H bs = H"
  by (simp add: hash_blocks.simps)

lemma hash_blocks_block: "length b = 64 \<Longrightarrow> hash_blocks H (b @ bs) = hash_blocks (sha_compress H b) bs"
  by (simp add: hash_blocks.simps [of H])

lemma length_hash_blocks: "length H = 5 \<Longrightarrow> length (hash_blocks H bs) = 5"
proof (induction H bs rule: hash_blocks.induct)
  case (1 H bs)
  then show ?case by (cases "length bs < 64") (simp_all add: hash_blocks.simps [of H bs])
qed

lemma hash_blocks_append: "length a mod 64 = 0 \<Longrightarrow> hash_blocks H (a @ b) = hash_blocks (hash_blocks H a) b"
proof (induction H a rule: hash_blocks.induct)
  case (1 H a)
  show ?case
  proof (cases "length a < 64")
    case True
    with 1(2) show ?thesis by simp
  next
    case False
    then have "length (drop 64 a) mod 64 = 0" using 1(2) by (simp add: le_mod_geq)
    with 1(1) [OF False] have "hash_blocks H (take 64 a @ drop 64 a @ b) = hash_blocks (hash_blocks H (take 64 a @ drop 64 a)) b"
      using False by (simp add: hash_blocks_block del: append_take_drop_id)
    then show ?thesis by (metis append_assoc append_take_drop_id)
  qed
qed

text \<open>
  What the builder has of a message \<open>a @ r\<close>: \<open>n\<close> whole blocks \<open>a\<close>, transformed, and the rest \<open>r\<close>
  in the buffer.
\<close>

definition collected :: "builder_t \<Rightarrow> nat \<Rightarrow> raw_data_t \<Rightarrow> raw_data_t \<Rightarrow> bool" where
  "collected b n a r \<longleftrightarrow>
     length a = 64 * n \<and> length r < 64 \<and> length (m_buffer b) = 64 \<and>
     m_digest b = hash_blocks sha_H0 a \<and> m_transforms_count b = of_nat n \<and>
     m_buffer_len b = length r \<and> take (length r) (m_buffer b) = r"

lemma collected_start: "collected builder_start 0 [] []"
  by (simp add: collected_def builder_start_def sha_H0_def)

lemma collected_fill:
  assumes "collected b n a r" and "length r + length part \<le> 64"
  shows "m_buffer_len (fill_buffer part b) = length r + length part"
    and "length (m_buffer (fill_buffer part b)) = 64"
    and "take (length r + length part) (m_buffer (fill_buffer part b)) = r @ part"
    and "m_digest (fill_buffer part b) = m_digest b"
    and "m_transforms_count (fill_buffer part b) = m_transforms_count b"
  using assms by (auto simp: collected_def fill_buffer_def)

lemma collected_update:
  "collected b n a r \<Longrightarrow> \<exists>n' a' r'. collected (update_builder what b) n' a' r' \<and> a' @ r' = a @ r @ what"
proof (induction what b arbitrary: n a r rule: update_builder.induct)
  case (1 what b)
  let ?k = "min (length what) (64 - m_buffer_len b)"
  let ?p = "take ?k what"
  have r: "m_buffer_len b = length r" "length r < 64" using 1(2) by (simp_all add: collected_def)
  then have le: "length r + length ?p \<le> 64" by simp
  note f = collected_fill [OF 1(2) le]
  show ?case
  proof (cases "m_buffer_len (fill_buffer ?p b) \<noteq> 64")
    case True
    then have lt: "length r + length ?p < 64" using le f(1) by simp
    then have p: "?p = what" using r by simp
    have "update_builder what b = fill_buffer ?p b" using True by (simp add: update_builder.simps [of what])
    moreover have "collected (fill_buffer what b) n a (r @ what)"
      using 1(2) f lt unfolding p by (simp add: collected_def)
    ultimately show ?thesis unfolding p by auto
  next
    case False
    let ?b = "fill_buffer ?p b"
    let ?b' = "?b\<lparr>m_digest := transform (m_digest ?b) (m_buffer ?b),
      m_transforms_count := m_transforms_count ?b + 1, m_buffer_len := 0\<rparr>"
    have full: "length r + length ?p = 64" using False f(1) by simp
    then have buf: "m_buffer ?b = r @ ?p" using f(2,3) by simp
    have dig: "length (m_digest ?b) = 5" using f(4) 1(2)
      by (simp add: collected_def length_hash_blocks sha_H0_def)
    have "length (r @ ?p) = 64" using full by simp
    then have "hash_blocks (m_digest b) (r @ ?p) = sha_compress (m_digest b) (r @ ?p)"
      using hash_blocks_block [of "r @ ?p" "m_digest b" "[]"] by simp
    also have "\<dots> = transform (m_digest ?b) (m_buffer ?b)"
      using transform_eq [OF dig f(2)] f(4) buf by simp
    finally have "hash_blocks sha_H0 (a @ r @ ?p) = transform (m_digest ?b) (m_buffer ?b)"
      using 1(2) by (simp add: hash_blocks_append collected_def)
    then have "collected ?b' (Suc n) (a @ r @ ?p) []"
      using 1(2) f(2,5) full by (simp add: collected_def)
    from 1(1) [OF refl refl False this] obtain n' a' r' where
      "collected (update_builder (drop ?k what) ?b') n' a' r'" "a' @ r' = (a @ r @ ?p) @ [] @ drop ?k what" by blast
    moreover have "update_builder what b = update_builder (drop ?k what) ?b'"
      using False by (simp add: update_builder.simps [of what b] Let_def)
    ultimately show ?thesis by auto
  qed
qed

lemma push_uint_end:
  assumes "length xs = i"
  shows "push_uint_to_buffer i v (xs @ [b0, b1, b2, b3] @ ys) =
    xs @ write_number_to_big_endian_bytes 4 (v AND 0xffffffff) [] @ ys"
proof -
  have "ucast (ucast v :: 32 word) = v AND 0xffffffff" for v :: "64 word"
  proof -
    have ff: "(0xffffffff :: 64 word) = mask 32" by (simp add: mask_numeral)
    show ?thesis unfolding ff by (rule bit_word_eqI) (auto simp: bit_simps)
  qed
  then have "write_number_to_big_endian_bytes 4 (v AND 0xffffffff) [] =
      [n_bits_from 24 8 (ucast v :: 32 word), n_bits_from 16 8 (ucast v :: 32 word),
       n_bits_from 8 8 (ucast v :: 32 word), n_bits_from 0 8 (ucast v :: 32 word)]"
    using octets_write_number [of "ucast v"] by simp
  then show ?thesis using assms
    by (simp add: push_uint_to_buffer_def Let_def list_update_append eval_nat_numeral)
qed

lemma write_number_8:
  "write_number_to_big_endian_bytes 4 (drop_bit 32 t AND 0xffffffff) [] @
     write_number_to_big_endian_bytes 4 (t AND 0xffffffff AND 0xffffffff) [] =
   write_number_to_big_endian_bytes 8 t []"
proof -
  have ff: "(0xffffffff :: 64 word) = mask 32" "(0xFF :: 64 word) = mask 8" by (simp_all add: mask_numeral)
  have hi: "(ucast (drop_bit s (drop_bit 32 t AND 0xffffffff) AND 0xFF) :: byte_t) = ucast (drop_bit (s + 32) t AND 0xFF)"
    and lo: "(ucast (drop_bit s (t AND 0xffffffff AND 0xffffffff) AND 0xFF) :: byte_t) = ucast (drop_bit s t AND 0xFF)"
    if "s \<le> 24" for s
    unfolding ff using that by (auto intro!: bit_word_eqI simp: bit_simps ac_simps)
  show ?thesis
    using hi [of 24] hi [of 16] hi [of 8] hi [of 0] lo [of 24] lo [of 16] lo [of 8] lo [of 0]
    by (simp add: write_number_to_big_endian_bytes_def upt_rec)
qed

lemma push_length:
  assumes "length buf = 64"
  shows "push_uint_to_buffer 60 (t AND 0xffffffff) (push_uint_to_buffer 56 (drop_bit 32 t) buf) =
    take 56 buf @ write_number_to_big_endian_bytes 8 t []"
proof -
  have "length (drop 56 buf) = Suc (Suc (Suc (Suc (Suc (Suc (Suc (Suc 0)))))))" using assms by simp
  then obtain b0 b1 b2 b3 b4 b5 b6 b7 where d: "drop 56 buf = [b0, b1, b2, b3] @ [b4, b5, b6, b7]"
    by (auto simp: length_Suc_conv simp del: length_drop)
  let ?w = "write_number_to_big_endian_bytes 4 (drop_bit 32 t AND 0xffffffff) []"
  have len: "length (take 56 buf) = 56" "length (take 56 buf @ ?w) = 60" using assms by simp_all
  have "buf = take 56 buf @ [b0, b1, b2, b3] @ [b4, b5, b6, b7]" by (metis append_take_drop_id d)
  then have "push_uint_to_buffer 56 (drop_bit 32 t) buf = take 56 buf @ ?w @ [b4, b5, b6, b7]"
    using push_uint_end [OF len(1), of "drop_bit 32 t" b0 b1 b2 b3 "[b4, b5, b6, b7]"] by simp
  also have "push_uint_to_buffer 60 (t AND 0xffffffff) \<dots> =
      take 56 buf @ ?w @ write_number_to_big_endian_bytes 4 (t AND 0xffffffff AND 0xffffffff) []"
    using push_uint_end [OF len(2), of "t AND 0xffffffff" b4 b5 b6 b7 "[]"] by simp
  finally show ?thesis by (simp only: write_number_8)
qed

lemma total_bits:
  "collected b n a r \<Longrightarrow> calculate_total_bits_count b = of_nat (8 * length (a @ r))"
  by (simp add: collected_def calculate_total_bits_count_def algebra_simps)

lemma finish_collected:
  assumes c: "collected b n a r"
  shows "finish_builder b =
    (if length r = 56 then hash_blocks sha_H0 ((a @ r) @ sha_length (a @ r)) else sha1 (a @ r))"
proof -
  have a: "length a mod 64 = 0" "length r < 64" and dig: "m_digest b = hash_blocks sha_H0 a"
    and r: "m_buffer_len b = length r" "take (length r) (m_buffer b) = r"
    using c by (simp_all add: collected_def)
  have d5: "length (m_digest b) = 5" by (simp add: dig length_hash_blocks sha_H0_def)
  have l8: "length (sha_length m) = 8" for m by (simp add: sha_length_def)
  have lm: "length (a @ r) mod 64 = length r" using c by (simp add: collected_def)
  let ?buf = "r @ [0x80] @ replicate (63 - length r) 0"
  have buf: "length ?buf = 64" using a(2) by simp
  have last: "push_uint_to_buffer 60 (calculate_total_bits_count b AND 0xffffffff)
      (push_uint_to_buffer 56 (drop_bit 32 (calculate_total_bits_count b)) x) = take 56 x @ sha_length (a @ r)"
    if "length x = 64" for x
    using push_length [OF that] total_bits [OF c] by (simp add: sha_length_def)
  have one: "transform H (x @ y) = hash_blocks H (x @ y)" if "length H = 5" "length (x @ y) = 64" for H x y
    using transform_eq [OF that] hash_blocks_block [OF that(2), of H "[]"] by simp
  have pad: "hash_blocks sha_H0 (a @ x) = hash_blocks (m_digest b) x" for x
    using a(1) by (simp add: hash_blocks_append dig)
  consider "length r < 56" | "length r = 56" | "56 < length r" by linarith
  then show ?thesis
  proof cases
    case 1
    have "(119 - length r) mod 64 = 55 - length r" using 1 by (simp add: mod_if)
    moreover have "56 - length r = Suc (55 - length r)" using 1 by simp
    ultimately have "sha_pad (a @ r) = a @ (take 56 ?buf @ sha_length (a @ r))"
      using 1 unfolding sha_pad_def lm by (simp add: min_def)
    moreover have "finish_builder b = transform (m_digest b) (take 56 ?buf @ sha_length (a @ r))"
      using 1 r last [OF buf] by (simp add: finish_builder_def Let_def)
    moreover have "length (take 56 ?buf @ sha_length (a @ r)) = 64" using buf l8 by simp
    ultimately show ?thesis using 1 one [OF d5] unfolding sha1_def by (simp only: pad) simp
  next
    case 2
    have "take 56 ?buf = r" using 2 by simp
    then have "finish_builder b = transform (m_digest b) (r @ sha_length (a @ r))"
      using 2 r last [OF buf] by (simp add: finish_builder_def Let_def)
    moreover have "length (r @ sha_length (a @ r)) = 64" using 2 l8 by simp
    ultimately show ?thesis using 2 one [OF d5] by (simp add: pad)
  next
    case 3
    have k: "(119 - length r) mod 64 = (63 - length r) + 56" using 3 a(2) by (simp add: mod_if)
    then have "sha_pad (a @ r) = a @ (?buf @ (replicate 56 0 @ sha_length (a @ r)))"
      unfolding sha_pad_def lm k replicate_add by simp
    moreover have "finish_builder b = transform (transform (m_digest b) ?buf) (replicate 56 0 @ sha_length (a @ r))"
      using 3 r last [of "replicate 64 0"] by (simp add: finish_builder_def Let_def)
    moreover have "transform (m_digest b) ?buf = sha_compress (m_digest b) ?buf"
      using transform_eq [OF d5 buf] .
    moreover have "length (replicate 56 0 @ sha_length (a @ r)) = 64" using l8 by simp
    ultimately show ?thesis using 3 one [OF length_sha_compress] hash_blocks_block [OF buf] unfolding sha1_def
      by (simp only: pad) simp
  qed
qed

lemma make_digest_result:
  "make_digest m = (if length m mod 64 = 56 then hash_blocks sha_H0 (m @ sha_length m) else sha1 m)"
proof -
  from collected_update [OF collected_start, of m] obtain n a r where
    c: "collected (update_builder m builder_start) n a r" and m: "a @ r = m" by auto
  have "length m mod 64 = length r" using c by (simp add: collected_def m [symmetric])
  with finish_collected [OF c] show ?thesis by (simp add: make_digest_def m)
qed

section \<open>Property\<close>

text \<open>
  C37: \<open>make_digest\<close> is the SHA-1 of FIPS 180-4 for every message, except one whose length leaves
  56 in the division by 64: there the byte 0x80 behind the message is overwritten by the length,
  so one block is hashed that the standard does not hash.
\<close>

theorem make_digest_sha1:
  "make_digest m = (if length m mod 64 = 56 then hash_blocks sha_H0 (m @ sha_length m) else sha1 m)"
  by (rule make_digest_result)

end
