(* ===== verification/WsBase64.thy ===== *)
theory WsBase64
  imports WsSha1 HttpEncode
begin

unbundle bit_operations_syntax

text \<open>
  Base64 as the server's WebSocket library has it (\<open>restinio/utils/base64.hpp\<close> with its tables in
  \<open>base64_lut.ipp\<close>), and the answer to a client's key in the handshake (\<open>upgrade\<close> in
  \<open>restinio/websocket/websocket.hpp\<close>). The lemmas relate the encoder to the one of the feeder's
  HTTP client, invert it by the decoder, and give the handshake value of every key.
\<close>

section \<open>Tables\<close>

definition is_base64_char_lut :: "byte_t list" where
  "is_base64_char_lut =
    [0, 0, 0, 0, 0, 0, 0, 0, 0, 0, 0, 0, 0, 0, 0, 0, 0, 0, 0, 0, 0, 0, 0, 0, 0, 0, 0, 0, 0, 0, 0, 0,
     0, 0, 0, 0, 0, 0, 0, 0, 0, 0, 0, 1, 0, 0, 0, 1, 1, 1, 1, 1, 1, 1, 1, 1, 1, 1, 0, 0, 0, 1, 0, 0,
     0, 1, 1, 1, 1, 1, 1, 1, 1, 1, 1, 1, 1, 1, 1, 1, 1, 1, 1, 1, 1, 1, 1, 1, 1, 1, 1, 0, 0, 0, 0, 0,
     0, 1, 1, 1, 1, 1, 1, 1, 1, 1, 1, 1, 1, 1, 1, 1, 1, 1, 1, 1, 1, 1, 1, 1, 1, 1, 1, 0, 0, 0, 0, 0,
     0, 0, 0, 0, 0, 0, 0, 0, 0, 0, 0, 0, 0, 0, 0, 0, 0, 0, 0, 0, 0, 0, 0, 0, 0, 0, 0, 0, 0, 0, 0, 0,
     0, 0, 0, 0, 0, 0, 0, 0, 0, 0, 0, 0, 0, 0, 0, 0, 0, 0, 0, 0, 0, 0, 0, 0, 0, 0, 0, 0, 0, 0, 0, 0,
     0, 0, 0, 0, 0, 0, 0, 0, 0, 0, 0, 0, 0, 0, 0, 0, 0, 0, 0, 0, 0, 0, 0, 0, 0, 0, 0, 0, 0, 0, 0, 0,
     0, 0, 0, 0, 0, 0, 0, 0, 0, 0, 0, 0, 0, 0, 0, 0, 0, 0, 0, 0, 0, 0, 0, 0, 0, 0, 0, 0, 0, 0, 0, 0]"

definition base64_alphabet :: "byte_t list" where
  "base64_alphabet =
    [0x41, 0x42, 0x43, 0x44, 0x45, 0x46, 0x47, 0x48, 0x49, 0x4a, 0x4b, 0x4c, 0x4d,
     0x4e, 0x4f, 0x50, 0x51, 0x52, 0x53, 0x54, 0x55, 0x56, 0x57, 0x58, 0x59, 0x5a,
     0x61, 0x62, 0x63, 0x64, 0x65, 0x66, 0x67, 0x68, 0x69, 0x6a, 0x6b, 0x6c, 0x6d,
     0x6e, 0x6f, 0x70, 0x71, 0x72, 0x73, 0x74, 0x75, 0x76, 0x77, 0x78, 0x79, 0x7a,
     0x30, 0x31, 0x32, 0x33, 0x34, 0x35, 0x36, 0x37, 0x38, 0x39, 0x2b, 0x2f]"

definition base64_decode_lut :: "byte_t list" where
  "base64_decode_lut =
    [0, 0, 0, 0, 0, 0, 0, 0, 0, 0, 0, 0, 0, 0, 0, 0, 0, 0, 0, 0, 0, 0, 0, 0, 0, 0, 0, 0, 0, 0, 0, 0,
     0, 0, 0, 0, 0, 0, 0, 0, 0, 0, 0, 62, 0, 0, 0, 63, 52, 53, 54, 55, 56, 57, 58, 59, 60, 61, 0, 0, 0, 0, 0, 0,
     0, 0, 1, 2, 3, 4, 5, 6, 7, 8, 9, 10, 11, 12, 13, 14, 15, 16, 17, 18, 19, 20, 21, 22, 23, 24, 25, 0, 0, 0, 0, 0,
     0, 26, 27, 28, 29, 30, 31, 32, 33, 34, 35, 36, 37, 38, 39, 40, 41, 42, 43, 44, 45, 46, 47, 48, 49, 50, 51, 0, 0, 0, 0, 0,
     0, 0, 0, 0, 0, 0, 0, 0, 0, 0, 0, 0, 0, 0, 0, 0, 0, 0, 0, 0, 0, 0, 0, 0, 0, 0, 0, 0, 0, 0, 0, 0,
     0, 0, 0, 0, 0, 0, 0, 0, 0, 0, 0, 0, 0, 0, 0, 0, 0, 0, 0, 0, 0, 0, 0, 0, 0, 0, 0, 0, 0, 0, 0, 0,
     0, 0, 0, 0, 0, 0, 0, 0, 0, 0, 0, 0, 0, 0, 0, 0, 0, 0, 0, 0, 0, 0, 0, 0, 0, 0, 0, 0, 0, 0, 0, 0,
     0, 0, 0, 0, 0, 0, 0, 0, 0, 0, 0, 0, 0, 0, 0, 0, 0, 0, 0, 0, 0, 0, 0, 0, 0, 0, 0, 0, 0, 0, 0, 0]"

section \<open>Validity\<close>

definition is_base64_char :: "byte_t \<Rightarrow> bool" where
  "is_base64_char c \<longleftrightarrow> 1 = is_base64_char_lut ! unat c"

datatype expected_type = b64ch | b64ch_or_padding | padding

fun valid_loop :: "expected_type \<Rightarrow> nat \<Rightarrow> nat \<Rightarrow> raw_data_t \<Rightarrow> bool" where
  "valid_loop expects b64chars_found paddings_found [] = True"
| "valid_loop b64ch b64chars_found paddings_found (ch # str) =
     (if 0x3d = ch then False
      else if is_base64_char ch
      then valid_loop (if b64chars_found + 1 \<ge> 2 then b64ch_or_padding else b64ch)
             (b64chars_found + 1) paddings_found str
      else False)"
| "valid_loop b64ch_or_padding b64chars_found paddings_found (ch # str) =
     (if 0x3d = ch then valid_loop padding b64chars_found (paddings_found + 1) str
      else if is_base64_char ch then valid_loop b64ch_or_padding b64chars_found paddings_found str
      else False)"
| "valid_loop padding b64chars_found paddings_found (ch # str) =
     (if 0x3d = ch then
        (if paddings_found + 1 > 2 then False else valid_loop padding b64chars_found (paddings_found + 1) str)
      else False)"

definition is_valid_base64_string :: "raw_data_t \<Rightarrow> bool" where
  "is_valid_base64_string str = (if length str < 4 then False else valid_loop b64ch 0 0 str)"

section \<open>Encoding\<close>

text \<open>\<open>uint_fast32_t\<close> has at least 32 bits; no value here needs more than 24.\<close>

definition uch :: "byte_t \<Rightarrow> 32 word" where
  "uch ch = ucast ch"

definition sixbits_char :: "nat \<Rightarrow> 32 word \<Rightarrow> byte_t" where
  "sixbits_char shift bs = n_bits_from shift 6 bs"

definition alphabet_char :: "byte_t \<Rightarrow> byte_t" where
  "alphabet_char ch = base64_alphabet ! unat ch"

text \<open>The loop over groups of three, and the one or two bytes that remain.\<close>

fun encode :: "raw_data_t \<Rightarrow> raw_data_t" where
  "encode (a # b # c # str) =
     (let bs = push_bit 16 (uch a) OR push_bit 8 (uch b) OR uch c
      in [alphabet_char (sixbits_char 18 bs), alphabet_char (sixbits_char 12 bs),
          alphabet_char (sixbits_char 6 bs), alphabet_char (sixbits_char 0 bs)] @ encode str)"
| "encode [] = []"
| "encode [a] =
     (let bs = push_bit 16 (uch a)
      in [alphabet_char (sixbits_char 18 bs), alphabet_char (sixbits_char 12 bs), 0x3d, 0x3d])"
| "encode [a, b] =
     (let bs = push_bit 16 (uch a) OR push_bit 8 (uch b)
      in [alphabet_char (sixbits_char 18 bs), alphabet_char (sixbits_char 12 bs),
          alphabet_char (sixbits_char 6 bs), 0x3d])"

section \<open>Decoding\<close>

text \<open>
  \<open>try_decode\<close> returns \<open>invalid_base64_sequence\<close>; \<open>out_of_bounds\<close> stands for a read behind the
  end of the \<open>string_view\<close>, which is undefined.
\<close>

datatype decoding_failure = invalid_base64_sequence | out_of_bounds

definition or_table :: "byte_t \<Rightarrow> 32 word \<Rightarrow> 32 word" where
  "or_table ch bs = bs OR ucast (base64_decode_lut ! unat ch)"

fun decode_loop :: "raw_data_t \<Rightarrow> raw_data_t \<Rightarrow> decoding_failure + raw_data_t" where
  "decode_loop result [] = Inr result"
| "decode_loop result (a # b # c # d # str) =
     (let bs = or_table a 0;
          bs = or_table b (push_bit 6 bs);
          bs = push_bit 6 bs;
          (paddings_found, bs) = (if 0x3d = c then (1, bs) else (0 :: nat, or_table c bs));
          bs = push_bit 6 bs;
          (paddings_found, bs) = (if 0x3d = d then (paddings_found + 1, bs) else (paddings_found, or_table d bs));
          result = result @ [n_bits_from 16 8 bs];
          result = (if paddings_found < 2 then result @ [n_bits_from 8 8 bs] else result);
          result = (if paddings_found < 1 then result @ [n_bits_from 0 8 bs] else result)
      in decode_loop result str)"
| "decode_loop result str = Inl out_of_bounds"

definition try_decode :: "raw_data_t \<Rightarrow> decoding_failure + raw_data_t" where
  "try_decode str =
     (if \<not> is_valid_base64_string str then Inl invalid_base64_sequence else decode_loop [] str)"

section \<open>The handshake\<close>

definition websocket_accept_field_suffix :: string where
  "websocket_accept_field_suffix = ''258EAFA5-E914-47DA-95CA-C5AB0DC85B11''"

text \<open>The value of the field \<open>Sec-WebSocket-Accept\<close> for the key of the request.\<close>

definition sec_websocket_accept_field_value :: "string \<Rightarrow> raw_data_t" where
  "sec_websocket_accept_field_value sec_websocket_key =
     (let ws_key = sec_websocket_key @ websocket_accept_field_suffix;
          digest = make_digest (map of_char ws_key)
      in encode (digest_to_string digest))"

section \<open>Lemmas\<close>

lemma alphabet_table:
  "list_all (\<lambda>k. base64_decode_lut ! unat (base64_alphabet ! k) = of_nat k \<and>
     is_base64_char (base64_alphabet ! k) \<and> base64_alphabet ! k \<noteq> 0x3d \<and>
     base64_alphabet ! k = of_char (b64_chars ! k)) [0..<64]"
  by code_simp

lemma six_bits: "unat (sixbits_char shift bs) < 64"
proof -
  have "sixbits_char shift bs = take_bit 6 (ucast (drop_bit shift bs))"
    by (simp add: sixbits_char_def n_bits_from_take)
  then have "unat (sixbits_char shift bs) = take_bit 6 (unat (ucast (drop_bit shift bs) :: byte_t))"
    by (simp only: unsigned_take_bit_eq)
  then show ?thesis by (simp add: take_bit_eq_mod)
qed

lemma alphabet_char_facts:
  "base64_decode_lut ! unat (alphabet_char (sixbits_char shift bs)) = sixbits_char shift bs"
  "is_base64_char (alphabet_char (sixbits_char shift bs))"
  "alphabet_char (sixbits_char shift bs) \<noteq> 0x3d" "0x3d \<noteq> alphabet_char (sixbits_char shift bs)"
  "alphabet_char (sixbits_char shift bs) = of_char (b64_chr (sixbits_char shift bs))"
proof -
  let ?k = "unat (sixbits_char shift bs)"
  have e: "of_nat ?k = sixbits_char shift bs" by simp
  have "?k \<in> set [0..<64]" using six_bits [of shift bs] by simp
  with alphabet_table [unfolded list_all_iff] have
    "base64_decode_lut ! unat (base64_alphabet ! ?k) = of_nat ?k \<and> is_base64_char (base64_alphabet ! ?k) \<and>
     base64_alphabet ! ?k \<noteq> 0x3d \<and> base64_alphabet ! ?k = of_char (b64_chars ! ?k)" by (rule bspec)
  then show "base64_decode_lut ! unat (alphabet_char (sixbits_char shift bs)) = sixbits_char shift bs"
    "is_base64_char (alphabet_char (sixbits_char shift bs))"
    "alphabet_char (sixbits_char shift bs) \<noteq> 0x3d" "0x3d \<noteq> alphabet_char (sixbits_char shift bs)"
    "alphabet_char (sixbits_char shift bs) = of_char (b64_chr (sixbits_char shift bs))"
    unfolding alphabet_char_def b64_chr_def using e by metis+
qed

lemma bit_six: "bit (ucast (sixbits_char shift bs) :: 32 word) j \<longleftrightarrow> j < 6 \<and> bit bs (shift + j)"
  by (auto simp: sixbits_char_def n_bits_from_take bit_simps dest: bit_imp_le_length)

lemma group_value:
  fixes bs :: "32 word"
  assumes "take_bit 24 bs = bs"
  shows "push_bit 6 (push_bit 6 (push_bit 6 (ucast (sixbits_char 18 bs)) OR ucast (sixbits_char 12 bs)) OR
    ucast (sixbits_char 6 bs)) OR ucast (sixbits_char 0 bs) = bs"
proof -
  have lt: "bit bs i \<Longrightarrow> i < 24" for i using assms by (metis bit_take_bit_iff)
  show ?thesis
  proof (rule bit_word_eqI)
    fix i assume i: "i < LENGTH(32)"
    consider "i < 6" | "6 \<le> i" "i < 12" | "12 \<le> i" "i < 18" | "18 \<le> i" "i < 24" | "24 \<le> i" by linarith
    then show "bit (push_bit 6 (push_bit 6 (push_bit 6 (ucast (sixbits_char 18 bs) :: 32 word) OR ucast (sixbits_char 12 bs)) OR
        ucast (sixbits_char 6 bs)) OR ucast (sixbits_char 0 bs)) i = bit bs i"
      using i by cases (simp_all add: bit_push_bit_iff bit_or_iff bit_six, auto dest: lt)
  qed
qed

lemma byte_bit: "bit (b :: byte_t) i \<Longrightarrow> i < 8"
  using bit_imp_le_length [of b i] by simp

lemma octets_of_group:
  fixes a b c :: byte_t
  defines "bs \<equiv> push_bit 16 (uch a) OR push_bit 8 (uch b) OR uch c"
  shows "take_bit 24 bs = bs" and "n_bits_from 16 8 bs = a" and "n_bits_from 8 8 bs = b" and "n_bits_from 0 8 bs = c"
proof -
  show "take_bit 24 bs = bs"
  proof (rule bit_word_eqI)
    fix i
    show "bit (take_bit 24 bs) i = bit bs i"
      using byte_bit [of a "i - 16"] byte_bit [of b "i - 8"] byte_bit [of c i]
      by (cases "i < 24") (auto simp: bs_def uch_def bit_simps)
  qed
  have high: "\<not> bit b (8 + i)" "\<not> bit c (16 + i)" "\<not> bit c (8 + i)" for i
    using byte_bit [of b "8 + i"] byte_bit [of c "16 + i"] byte_bit [of c "8 + i"] by auto
  show "n_bits_from 16 8 bs = a" "n_bits_from 8 8 bs = b" "n_bits_from 0 8 bs = c"
    unfolding bs_def uch_def octet_bits
    using high by (auto intro!: bit_word_eqI simp: bit_simps)
qed

lemma uch_0 [simp]: "uch 0 = 0"
  by (simp add: uch_def)

lemma sixbits_0 [simp]: "sixbits_char 0 (push_bit 8 x OR push_bit 16 y) = sixbits_char 0 0"
  "sixbits_char 0 (push_bit 8 x) = sixbits_char 0 0" "sixbits_char 0 (push_bit 16 x) = sixbits_char 0 0"
  "sixbits_char 6 (push_bit 16 x) = sixbits_char 6 0"
  by (auto intro!: bit_word_eqI simp: sixbits_char_def n_bits_from_take bit_simps)

lemma sixbits_zero [simp]: "sixbits_char shift 0 = 0"
  by (simp add: sixbits_char_def n_bits_from_def)

lemma decode_group:
  "decode_loop result (encode [a, b, c] @ str) = decode_loop (result @ [a, b, c]) str"
  using group_value [OF octets_of_group(1) [of a b c]] octets_of_group(2-4) [of a b c]
  by (simp add: Let_def or_table_def alphabet_char_facts(1-4))

lemma decode_two: "decode_loop result (encode [a, b]) = Inr (result @ [a, b])"
proof -
  have "sixbits_char 0 (push_bit 16 (uch a) OR push_bit 8 (uch b)) = 0"
    by (simp add: or.commute [of "push_bit 16 _"])
  then show ?thesis
    using group_value [OF octets_of_group(1) [of a b 0]] octets_of_group(2,3) [of a b 0]
    by (simp add: Let_def or_table_def alphabet_char_facts(1-4))
qed

lemma decode_one: "decode_loop result (encode [a]) = Inr (result @ [a])"
  using group_value [OF octets_of_group(1) [of a 0 0]] octets_of_group(2) [of a 0 0]
  by (simp add: Let_def or_table_def alphabet_char_facts(1-4))

lemma encode_split: "encode (a # b # c # str) = encode [a, b, c] @ encode str"
  by (simp add: Let_def)

lemma decode_encode_loop: "decode_loop result (encode str) = Inr (result @ str)"
proof (induction str arbitrary: result rule: encode.induct)
  case (1 a b c str)
  show ?case by (subst encode_split) (simp only: decode_group 1, simp)
next
  case 2
  show ?case by simp
qed (simp_all only: decode_one decode_two)

text \<open>Four characters of the alphabet or more, then at most two paddings.\<close>

lemma valid_tail:
  "list_all (\<lambda>c. is_base64_char c \<and> c \<noteq> 0x3d) cs \<Longrightarrow> valid_loop b64ch_or_padding n 0 (cs @ pads) =
     valid_loop b64ch_or_padding n 0 pads"
  by (induction cs) auto

lemma encode_shape:
  "\<exists>cs pads. encode str = cs @ pads \<and> list_all (\<lambda>c. is_base64_char c \<and> c \<noteq> 0x3d) cs \<and>
     pads \<in> {[], [0x3d], [0x3d, 0x3d]} \<and> (str \<noteq> [] \<longrightarrow> 2 \<le> length cs)"
proof (induction str rule: encode.induct)
  case (1 a b c str)
  then obtain cs pads where "encode str = cs @ pads" "list_all (\<lambda>c. is_base64_char c \<and> c \<noteq> 0x3d) cs"
    "pads \<in> {[], [0x3d], [0x3d, 0x3d]}" by blast
  then have "encode (a # b # c # str) = (encode [a, b, c] @ cs) @ pads" by (subst encode_split) simp
  moreover have "list_all (\<lambda>c. is_base64_char c \<and> c \<noteq> 0x3d) (encode [a, b, c] @ cs)"
    using \<open>list_all _ cs\<close> by (simp add: Let_def alphabet_char_facts(1-4))
  moreover have "2 \<le> length (encode [a, b, c] @ cs)" by (simp add: Let_def)
  ultimately show ?case using \<open>pads \<in> _\<close> by blast
next
  case 2
  show ?case by (rule exI [of _ "[]"]) simp
next
  case (3 a)
  let ?e = "encode [a]"
  show ?case
    by (intro exI [of _ "take 2 ?e"] exI [of _ "[0x3d, 0x3d]"])
      (simp add: Let_def alphabet_char_facts(1-4) take_Cons')
next
  case (4 a b)
  let ?e = "encode [a, b]"
  show ?case
    by (intro exI [of _ "take 3 ?e"] exI [of _ "[0x3d]"])
      (simp add: Let_def alphabet_char_facts(1-4) take_Cons')
qed

lemma length_encode: "length (encode str) = (length str + 2) div 3 * 4"
proof (induction str rule: encode.induct)
  case (1 a b c str)
  have "(length (a # b # c # str) + 2) div 3 = (length str + 2) div 3 + 1" by simp
  then show ?case using 1 by (subst encode_split, simp only: length_append) (simp add: Let_def)
qed (simp_all add: Let_def)

lemma encode_valid:
  assumes "str \<noteq> []"
  shows "is_valid_base64_string (encode str)"
proof -
  have len: "\<not> length (encode str) < 4" using assms by (cases str) (simp_all add: length_encode)
  obtain cs pads where e: "encode str = cs @ pads" and cs: "list_all (\<lambda>c. is_base64_char c \<and> c \<noteq> 0x3d) cs"
    "2 \<le> length cs" and pads: "pads \<in> {[], [0x3d], [0x3d, 0x3d]}"
    using encode_shape [of str] assms by blast
  obtain c d cs' where c: "cs = c # d # cs'" using cs(2) by (cases cs; cases "tl cs") auto
  have "valid_loop b64ch 0 0 (cs @ pads) = valid_loop b64ch_or_padding 2 0 (cs' @ pads)"
    using cs(1) by (auto simp: c eval_nat_numeral)
  also have "\<dots> = valid_loop b64ch_or_padding 2 0 pads" using cs(1) by (intro valid_tail) (simp add: c)
  also have "\<dots>" using pads by auto
  finally show ?thesis using len by (simp add: is_valid_base64_string_def e)
qed

lemma try_decode_encode: "try_decode (encode str) = (if str = [] then Inl invalid_base64_sequence else Inr str)"
  using encode_valid [of str] decode_encode_loop [of "[]" str]
  by (cases "str = []") (simp_all add: try_decode_def is_valid_base64_string_def)

text \<open>
  The validity test does not ask for whole groups of four: a string of another length passes it
  and is then read behind its end.
\<close>

lemma decode_loop_step: "\<exists>result'. decode_loop result (a # b # c # d # str) = decode_loop result' str"
  by (simp only: decode_loop.simps Let_def split: prod.split) blast

lemma decode_loop_rest: "length str mod 4 \<noteq> 0 \<Longrightarrow> decode_loop result str = Inl out_of_bounds"
proof (induction str arbitrary: result rule: length_induct)
  case (1 str)
  show ?case
  proof (cases "length str < 4")
    case True
    with 1(2) show ?thesis by (cases "(result, str)" rule: decode_loop.cases) auto
  next
    case False
    then obtain a b c d str' where s: "str = a # b # c # d # str'"
      by (cases "(result, str)" rule: decode_loop.cases) auto
    obtain result' where "decode_loop result str = decode_loop result' str'"
      unfolding s using decode_loop_step by blast
    then show ?thesis using 1 by (simp add: s)
  qed
qed

lemma try_decode_out_of_bounds: "try_decode [0x41, 0x41, 0x41, 0x41, 0x41] = Inl out_of_bounds"
proof -
  have "is_valid_base64_string [0x41, 0x41, 0x41, 0x41, 0x41]"
    by (simp add: is_valid_base64_string_def is_base64_char_def is_base64_char_lut_def)
  then show ?thesis by (simp add: try_decode_def decode_loop_rest)
qed

section \<open>The encoder of the HTTP client\<close>

lemma mask_bits:
  "bit (0xFC :: byte_t) n \<longleftrightarrow> 2 \<le> n \<and> n < 8" "bit (0xF0 :: byte_t) n \<longleftrightarrow> 4 \<le> n \<and> n < 8"
  "bit (0xC0 :: byte_t) n \<longleftrightarrow> 6 \<le> n \<and> n < 8" "bit (0x3F :: byte_t) n \<longleftrightarrow> n < 6"
  "bit (0x0F :: byte_t) n \<longleftrightarrow> n < 4" "bit (0x03 :: byte_t) n \<longleftrightarrow> n < 2"
  "bit (0x30 :: byte_t) n \<longleftrightarrow> 4 \<le> n \<and> n < 6" "bit (0x3C :: byte_t) n \<longleftrightarrow> 2 \<le> n \<and> n < 6"
proof -
  have m: "(0xFC :: byte_t) = push_bit 2 (mask 6)" "(0xF0 :: byte_t) = push_bit 4 (mask 4)"
    "(0xC0 :: byte_t) = push_bit 6 (mask 2)" "(0x3F :: byte_t) = mask 6" "(0x0F :: byte_t) = mask 4"
    "(0x03 :: byte_t) = mask 2" "(0x30 :: byte_t) = push_bit 4 (mask 2)" "(0x3C :: byte_t) = push_bit 2 (mask 4)" by (simp_all add: mask_numeral push_bit_eq_mult)
  show "bit (0xFC :: byte_t) n \<longleftrightarrow> 2 \<le> n \<and> n < 8" "bit (0xF0 :: byte_t) n \<longleftrightarrow> 4 \<le> n \<and> n < 8"
    "bit (0xC0 :: byte_t) n \<longleftrightarrow> 6 \<le> n \<and> n < 8" "bit (0x3F :: byte_t) n \<longleftrightarrow> n < 6"
    "bit (0x0F :: byte_t) n \<longleftrightarrow> n < 4" "bit (0x03 :: byte_t) n \<longleftrightarrow> n < 2"
  "bit (0x30 :: byte_t) n \<longleftrightarrow> 4 \<le> n \<and> n < 6" "bit (0x3C :: byte_t) n \<longleftrightarrow> 2 \<le> n \<and> n < 6"
    unfolding m by (auto simp: bit_simps)
qed

lemma sixbits_quad:
  fixes a b c :: byte_t
  defines "bs \<equiv> push_bit 16 (uch a) OR push_bit 8 (uch b) OR uch c"
  shows "sixbits_char 18 bs = drop_bit 2 (a AND 0xFC)"
    and "sixbits_char 12 bs = push_bit 4 (a AND 0x03) + drop_bit 4 (b AND 0xF0)"
    and "sixbits_char 6 bs = push_bit 2 (b AND 0x0F) + drop_bit 6 (c AND 0xC0)"
    and "sixbits_char 0 bs = c AND 0x3F"
proof -
  have d: "push_bit 4 (a AND 0x03) + drop_bit 4 (b AND 0xF0) = push_bit 4 (a AND 0x03) OR drop_bit 4 (b AND 0xF0)"
    "push_bit 2 (b AND 0x0F) + drop_bit 6 (c AND 0xC0) = push_bit 2 (b AND 0x0F) OR drop_bit 6 (c AND 0xC0)"
    by (rule disjunctive_add, simp only: bit_push_bit_iff bit_drop_bit_eq bit_and_iff mask_bits comp_apply, arith)+
  note bits = sixbits_char_def n_bits_from_take bs_def uch_def bit_simps mask_bits
  have high: "8 \<le> i \<Longrightarrow> \<not> bit a i" "8 \<le> i \<Longrightarrow> \<not> bit b i" "8 \<le> i \<Longrightarrow> \<not> bit c i" for i
    using byte_bit [of a i] byte_bit [of b i] byte_bit [of c i] by auto
  show "sixbits_char 18 bs = drop_bit 2 (a AND 0xFC)"
    by (rule bit_word_eqI) (auto simp: bits high simp del: bit_numeral_word_iff)
  show "sixbits_char 12 bs = push_bit 4 (a AND 0x03) + drop_bit 4 (b AND 0xF0)"
    unfolding d by (rule bit_word_eqI) (auto simp: bits high simp del: bit_numeral_word_iff)
  show "sixbits_char 6 bs = push_bit 2 (b AND 0x0F) + drop_bit 6 (c AND 0xC0)"
    unfolding d by (rule bit_word_eqI) (auto simp: bits high simp del: bit_numeral_word_iff)
  show "sixbits_char 0 bs = c AND 0x3F"
    by (rule bit_word_eqI) (auto simp: bits high simp del: bit_numeral_word_iff)
qed

lemma encode_three:
  "encode (map of_char [x, y, z]) = map of_char (b64_quad (of_char x) (of_char y) (of_char z))"
  using sixbits_quad [of "of_char x" "of_char y" "of_char z"]
  by (simp add: Let_def alphabet_char_facts(5) b64_quad_def)

lemma b64_finish_loop:
  "map of_char (b64_finish (b64_loop r [] s)) = map of_char r @ encode (map of_char s)"
proof (induction "map of_char s :: raw_data_t" arbitrary: r s rule: encode.induct)
  case (1 a b c str)
  then obtain x y z t where s: "s = x # y # z # t" "str = map of_char t" by auto
  show ?case using 1(1) [OF refl s(2), of "r @ b64_quad (of_char x) (of_char y) (of_char z)"] encode_three [of x y z]
    unfolding s by (simp add: Let_def)
next
  case 2
  then show ?case by (simp add: b64_finish_def)
next
  case (3 a)
  then obtain x where "s = [x]" by auto
  then show ?case using sixbits_quad [of "of_char x" 0 0]
    by (simp add: b64_finish_def Let_def alphabet_char_facts(5) numeral_2_eq_2)
next
  case (4 a b)
  then obtain x y where "s = [x, y]" by auto
  then show ?case using sixbits_quad [of "of_char x" "of_char y" 0]
    by (simp add: b64_finish_def Let_def alphabet_char_facts(5))
qed

lemma encode_client: "encode (map of_char s) = map of_char (encodeBase64 s)"
  using b64_finish_loop [of "[]" s] by (simp add: encodeBase64_def)

section \<open>Property\<close>

lemma shift_length: "n mod 64 \<noteq> 20 \<Longrightarrow> (n + 36) mod 64 \<noteq> (56 :: nat)"
proof -
  have "(n + 36) mod 64 = (n mod 64 + 36) mod 64" by (rule mod_add_left_eq [symmetric])
  moreover have "n mod 64 < 64" by simp
  ultimately show "n mod 64 \<noteq> 20 \<Longrightarrow> (n + 36) mod 64 \<noteq> 56"
    by (cases "n mod 64 + 36 < 64") (simp_all add: le_mod_geq)
qed

lemma suffix_length: "length websocket_accept_field_suffix = 36"
  by (simp add: websocket_accept_field_suffix_def)

lemma digest_to_string_length: "length (digest_to_string d) = 4 * length d"
  by (induction d) (simp_all add: digest_to_string_def)

lemma byte_chars: "of_char (char_of (unat (b :: byte_t))) = b"
proof -
  have "unat b < 2 ^ LENGTH(8)" by (rule unsigned_less)
  then have "of_nat (of_char (char_of (unat b)) :: nat) = b" by simp
  then show ?thesis by (simp only: of_nat_of_char)
qed

lemma length_sha1: "length (sha1 m) = 5"
  by (simp add: sha1_def length_hash_blocks sha_H0_def)

text \<open>
  The handshake answer: for every key, except of a length that leaves 20 in the division by
  64, the field \<open>Sec-WebSocket-Accept\<close> is the 28 characters of Base64 that decode to the SHA-1
  digest, as the standard defines it, of the key and the fixed suffix; it is also what the
  Base64 encoder of the HTTP client gives for that digest.
\<close>

theorem accept_value:
  assumes "length key mod 64 \<noteq> 20"
    and digest: "digest = digest_to_string (sha1 (map of_char (key @ websocket_accept_field_suffix)))"
  shows "sec_websocket_accept_field_value key = map of_char (encodeBase64 (map (\<lambda>b. char_of (unat b)) digest)) \<and>
    try_decode (sec_websocket_accept_field_value key) = Inr digest \<and>
    length (sec_websocket_accept_field_value key) = 28"
proof -
  have "(length key + 36) mod 64 \<noteq> 56" using assms(1) by (rule shift_length)
  then have "length (map of_char (key @ websocket_accept_field_suffix) :: raw_data_t) mod 64 \<noteq> 56"
    unfolding length_map length_append suffix_length .
  then have "make_digest (map of_char (key @ websocket_accept_field_suffix)) =
      sha1 (map of_char (key @ websocket_accept_field_suffix))"
    unfolding make_digest_result by (rule if_not_P)
  then have e: "sec_websocket_accept_field_value key = encode digest"
    unfolding sec_websocket_accept_field_value_def Let_def digest by (rule arg_cong)
  have len: "length digest = 20" by (simp add: digest digest_to_string_length length_sha1)
  have "map of_char (map (\<lambda>b. char_of (unat b)) digest) = digest" by (simp add: o_def byte_chars)
  then have "sec_websocket_accept_field_value key = map of_char (encodeBase64 (map (\<lambda>b. char_of (unat b)) digest))"
    using encode_client [of "map (\<lambda>b. char_of (unat b)) digest"] e by simp
  moreover have "try_decode (sec_websocket_accept_field_value key) = Inr digest"
  proof -
    have "digest \<noteq> []" using len by (metis list.size(3) zero_neq_numeral)
    then show ?thesis by (simp only: e try_decode_encode if_False)
  qed
  moreover have "length (sec_websocket_accept_field_value key) = 28" by (simp add: e length_encode len)
  ultimately show ?thesis by blast
qed

theorem accept_value_witness:
  "try_decode (sec_websocket_accept_field_value ''dGhlIHNhbXBsZSBub25jZQ=='') =
     Inr (digest_to_string (sha1 (map of_char (''dGhlIHNhbXBsZSBub25jZQ=='' @ websocket_accept_field_suffix))))"
proof -
  have "length ''dGhlIHNhbXBsZSBub25jZQ=='' mod 64 \<noteq> 20" by simp
  from accept_value [OF this refl] show ?thesis by blast
qed

end
