(* ===== verification/WsConnection.thy ===== *)
theory WsConnection
  imports WsValidator
begin

text \<open>
  The server's end of a WebSocket connection (\<open>restinio/websocket/impl/ws_connection.hpp\<close>), the
  buffers it reads into and writes from (\<open>restinio/impl/fixed_buffer.hpp\<close>,
  \<open>restinio/impl/write_group_output_ctx.hpp\<close>) and the handle the application holds
  (\<open>restinio/websocket/websocket.hpp\<close>). The state has the members of \<open>ws_connection_t\<close>, the
  operations asked of the socket and still pending, and the clock. One event of asio runs one
  callback to its end, as the strand of the connection does.
\<close>

section \<open>Output\<close>

type_synonym write_group_t = "raw_data_t list"

record write_group_output_ctx_t =
  m_current_wg :: "write_group_t option"
  m_next_writable_item_index :: nat

definition transmitting :: "write_group_output_ctx_t \<Rightarrow> bool" where
  "transmitting x \<longleftrightarrow> m_current_wg x \<noteq> None"

definition start_next_write_group :: "write_group_t option \<Rightarrow> write_group_output_ctx_t \<Rightarrow> write_group_output_ctx_t" where
  "start_next_write_group wg x = x\<lparr>m_current_wg := wg\<rparr>"

datatype write_operation_t = none_write_operation | trivial_write_operation "raw_data_t list"

text \<open>\<open>min( asio_ns::detail::max_iov_len, 64 )\<close>, with the 1024 of Linux for the former.\<close>

definition max_iov_len :: nat where "max_iov_len = 64"

definition extract_next_write_operation ::
    "write_group_output_ctx_t \<Rightarrow> write_operation_t \<times> write_group_output_ctx_t" where
  "extract_next_write_operation x =
     (case m_current_wg x of
        None \<Rightarrow> (none_write_operation, x)
      | Some items \<Rightarrow>
          if m_next_writable_item_index x < length items
          then (trivial_write_operation (take max_iov_len (drop (m_next_writable_item_index x) items)),
                x\<lparr>m_next_writable_item_index := min (length items) (m_next_writable_item_index x + max_iov_len)\<rparr>)
          else (none_write_operation, x))"

definition finish_write_group :: "write_group_output_ctx_t \<Rightarrow> write_group_output_ctx_t" where
  "finish_write_group x = x\<lparr>m_current_wg := None, m_next_writable_item_index := 0\<rparr>"

text \<open>The index of the next item keeps its value here.\<close>

definition fail_write_group :: "write_group_output_ctx_t \<Rightarrow> write_group_output_ctx_t" where
  "fail_write_group x = x\<lparr>m_current_wg := None\<rparr>"

section \<open>The connection\<close>

datatype write_state_t = write_enabled | write_disabled
datatype read_state_t = read_any_frame | read_only_close_frame | read_nothing

text \<open>
  A pending \<open>async_read_some\<close>: into the buffer for headers, or into the payload from a position,
  with the number of bytes that remain and \<open>do_validate_payload_and_call_msg_handler\<close>.
\<close>

datatype read_operation_t = ReadHeader | ReadPayload nat nat bool

text \<open>
  The one-shot actions \<open>m_close_frame_to_user\<close>, \<open>m_close_frame_to_peer\<close> and \<open>m_close_impl\<close> are the
  value of their \<open>m_not_executed_yet\<close>. \<open>m_buf\<close> holds the bytes not consumed. The fields after
  \<open>m_timer_scheduled\<close> are outside the class: the state of the socket and the operations pending
  on it, everything given to \<open>async_write\<close>, the clock, the application's \<open>ws_t\<close> (whether it
  still has the connection and whether anybody still holds it), and the messages its
  handler was called with.
\<close>

record ws_connection_t =
  m_parser :: ws_parser_t
  m_buf :: raw_data_t
  m_payload :: raw_data_t
  m_protocol_validator :: ws_protocol_validator_t
  m_read_state :: read_state_t
  m_write_state :: write_state_t
  m_close_frame_to_user :: bool
  m_close_frame_to_peer :: bool
  m_close_impl :: bool
  m_write_output_ctx :: write_group_output_ctx_t
  m_outgoing_data :: "write_group_t list"
  m_websocket_weak_handle :: bool
  m_write_operation_timeout_after :: nat
  m_close_frame_from_peer_timeout_after :: "nat option"
  m_timer_scheduled :: bool
  socket_is_open :: bool
  reads_pending :: "read_operation_t list"
  writes_pending :: nat
  written :: "write_group_t list"
  steady_clock :: nat
  ws_has_connection :: bool
  ws_referenced :: bool
  handler_calls :: "message_t list"

definition ws_connection_start :: "unmasker_t \<Rightarrow> ws_connection_t" where
  "ws_connection_start u =
     \<lparr>m_parser = ws_parser_start, m_buf = [], m_payload = [],
      m_protocol_validator = validator_start True u,
      m_read_state = read_nothing, m_write_state = write_enabled,
      m_close_frame_to_user = True, m_close_frame_to_peer = True, m_close_impl = True,
      m_write_output_ctx = \<lparr>m_current_wg = None, m_next_writable_item_index = 0\<rparr>,
      m_outgoing_data = [], m_websocket_weak_handle = False, m_write_operation_timeout_after = 0,
      m_close_frame_from_peer_timeout_after = None, m_timer_scheduled = False,
      socket_is_open = True, reads_pending = [], writes_pending = 0, written = [],
      steady_clock = 0, ws_has_connection = True, ws_referenced = True, handler_calls = []\<rparr>"

text \<open>
  What the application does with its handle: it sends a message, ends the connection, kills it,
  or drops its last reference.
\<close>

datatype ws_action = SendMessage final_frame_flag_t opcode_t raw_data_t | Shutdown | Kill | Release

text \<open>
  The world of a connection: the application's handler, which may act differently at each call
  and is given all its calls so far; whether a string of some size can be had; and the time limits.
\<close>

record ws_env =
  m_msg_handler :: "message_t list \<Rightarrow> ws_action list"
  resize_succeeds :: "nat \<Rightarrow> bool"
  m_write_http_response_timelimit :: nat
  m_read_next_http_message_timelimit :: nat

section \<open>Writing\<close>

text \<open>\<open>write_message_details\<close> of a flag, an opcode and a size.\<close>

definition write_message_header :: "final_frame_flag_t \<Rightarrow> opcode_t \<Rightarrow> nat \<Rightarrow> raw_data_t" where
  "write_message_header fin op n = write_message_details (message_details fin op (of_nat n))"

definition append_outgoing :: "write_group_t \<Rightarrow> ws_connection_t \<Rightarrow> ws_connection_t" where
  "append_outgoing wg c = c\<lparr>m_outgoing_data := m_outgoing_data c @ [wg]\<rparr>"

definition pop_ready_buffers :: "ws_connection_t \<Rightarrow> write_group_t option \<times> ws_connection_t" where
  "pop_ready_buffers c =
     (case m_outgoing_data c of [] \<Rightarrow> (None, c) | wg # rest \<Rightarrow> (Some wg, c\<lparr>m_outgoing_data := rest\<rparr>))"

definition guard_write_operation :: "ws_env \<Rightarrow> ws_connection_t \<Rightarrow> ws_connection_t" where
  "guard_write_operation env c =
     c\<lparr>m_write_operation_timeout_after := steady_clock c + m_write_http_response_timelimit env\<rparr>"

definition handle_trivial_write_operation :: "ws_env \<Rightarrow> raw_data_t list \<Rightarrow> ws_connection_t \<Rightarrow> ws_connection_t" where
  "handle_trivial_write_operation env bufs c0 =
     (let c = guard_write_operation env c0
      in c\<lparr>writes_pending := Suc (writes_pending c), written := written c @ [bufs]\<rparr>)"

text \<open>
  \<open>handle_current_write_ctx\<close>, with \<open>finish_handling_current_write_ctx\<close> and \<open>init_write\<close> that it
  calls when the group has nothing left to write.
\<close>

function handle_current_write_ctx :: "ws_env \<Rightarrow> ws_connection_t \<Rightarrow> ws_connection_t" where
  "handle_current_write_ctx env c0 =
     (case extract_next_write_operation (m_write_output_ctx c0) of
        (trivial_write_operation bufs, x) \<Rightarrow>
          handle_trivial_write_operation env bufs (c0\<lparr>m_write_output_ctx := x\<rparr>)
      | (none_write_operation, x) \<Rightarrow>
          (case pop_ready_buffers (c0\<lparr>m_write_output_ctx := finish_write_group x\<rparr>) of
             (None, c) \<Rightarrow> c
           | (Some wg, c) \<Rightarrow>
               handle_current_write_ctx env
                 (c\<lparr>m_write_output_ctx := start_next_write_group (Some wg) (m_write_output_ctx c)\<rparr>)))"
  by pat_completeness auto
termination
  by (relation "measure (\<lambda>(env, c). length (m_outgoing_data c))")
     (auto simp: pop_ready_buffers_def split: list.splits)

declare handle_current_write_ctx.simps [simp del]

definition init_write :: "ws_env \<Rightarrow> ws_connection_t \<Rightarrow> ws_connection_t" where
  "init_write env c0 =
     (case pop_ready_buffers c0 of
        (None, c) \<Rightarrow> c
      | (Some wg, c) \<Rightarrow>
          handle_current_write_ctx env
            (c\<lparr>m_write_output_ctx := start_next_write_group (Some wg) (m_write_output_ctx c)\<rparr>))"

definition init_write_if_necessary :: "ws_env \<Rightarrow> ws_connection_t \<Rightarrow> ws_connection_t" where
  "init_write_if_necessary env c = (if \<not> transmitting (m_write_output_ctx c) then init_write env c else c)"

definition guard_close_frame_from_peer_operation :: "ws_env \<Rightarrow> ws_connection_t \<Rightarrow> ws_connection_t" where
  "guard_close_frame_from_peer_operation env c =
     c\<lparr>m_close_frame_from_peer_timeout_after := Some (steady_clock c + m_read_next_http_message_timelimit env)\<rparr>"

definition start_waiting_close_frame_only :: "ws_env \<Rightarrow> ws_connection_t \<Rightarrow> ws_connection_t" where
  "start_waiting_close_frame_only env c =
     guard_close_frame_from_peer_operation env (c\<lparr>m_read_state := read_only_close_frame\<rparr>)"

definition write_data_impl :: "ws_env \<Rightarrow> write_group_t \<Rightarrow> bool \<Rightarrow> ws_connection_t \<Rightarrow> ws_connection_t" where
  "write_data_impl env wg is_close_frame c0 =
     (if socket_is_open c0
      then (let c = (if is_close_frame
                     then start_waiting_close_frame_only env
                       (c0\<lparr>m_close_frame_to_peer := False, m_close_frame_to_user := False,
                           m_write_state := write_disabled\<rparr>)
                     else c0)
            in init_write_if_necessary env (append_outgoing wg c))
      else c0)"

definition write_data :: "ws_env \<Rightarrow> write_group_t \<Rightarrow> bool \<Rightarrow> ws_connection_t \<Rightarrow> ws_connection_t" where
  "write_data env wg is_close_frame c =
     (if write_enabled = m_write_state c then write_data_impl env wg is_close_frame c else c)"

section \<open>Closing\<close>

definition close_impl :: "ws_connection_t \<Rightarrow> ws_connection_t" where
  "close_impl c = (if m_close_impl c then c\<lparr>m_close_impl := False, socket_is_open := False\<rparr> else c)"

definition send_close_payload_to_peer :: "ws_env \<Rightarrow> raw_data_t \<Rightarrow> ws_connection_t \<Rightarrow> ws_connection_t" where
  "send_close_payload_to_peer env payload c0 =
     (let bufs = [write_message_header final_frame connection_close_frame (length payload), payload];
          c = init_write_if_necessary env (append_outgoing bufs c0)
      in c\<lparr>m_write_state := write_disabled\<rparr>)"

definition send_close_frame_to_peer :: "ws_env \<Rightarrow> status_code_t \<Rightarrow> ws_connection_t \<Rightarrow> ws_connection_t" where
  "send_close_frame_to_peer env code c = send_close_payload_to_peer env (status_code_to_bin code) c"

text \<open>\<open>m_close_frame_to_peer.run_if_first\<close>\<close>

definition close_frame_to_peer_first ::
    "(ws_connection_t \<Rightarrow> ws_connection_t) \<Rightarrow> ws_connection_t \<Rightarrow> ws_connection_t" where
  "close_frame_to_peer_first action c =
     (if m_close_frame_to_peer c then action (c\<lparr>m_close_frame_to_peer := False\<rparr>) else c)"

definition graceful_close :: "ws_env \<Rightarrow> ws_connection_t \<Rightarrow> ws_connection_t" where
  "graceful_close env c =
     close_frame_to_peer_first
       (\<lambda>c. start_waiting_close_frame_only env (send_close_frame_to_peer env 1000 c)) c"

definition shutdown_connection :: "ws_env \<Rightarrow> ws_connection_t \<Rightarrow> ws_connection_t" where
  "shutdown_connection env c = graceful_close env (c\<lparr>m_close_frame_to_user := False\<rparr>)"

definition kill_connection :: "ws_connection_t \<Rightarrow> ws_connection_t" where
  "kill_connection c = close_impl (c\<lparr>m_close_frame_to_user := False, m_close_frame_to_peer := False\<rparr>)"

section \<open>The application's handle\<close>

definition ws_shutdown :: "ws_env \<Rightarrow> ws_connection_t \<Rightarrow> ws_connection_t" where
  "ws_shutdown env c =
     (if ws_has_connection c then shutdown_connection env (c\<lparr>ws_has_connection := False\<rparr>) else c)"

definition ws_kill :: "ws_connection_t \<Rightarrow> ws_connection_t" where
  "ws_kill c = (if ws_has_connection c then kill_connection (c\<lparr>ws_has_connection := False\<rparr>) else c)"

definition ws_send_message :: "ws_env \<Rightarrow> final_frame_flag_t \<Rightarrow> opcode_t \<Rightarrow> raw_data_t \<Rightarrow>
    ws_connection_t \<Rightarrow> exception_t + ws_connection_t" where
  "ws_send_message env fin op payload c =
     (if ws_has_connection c
      then (let wg = [write_message_header fin op (length payload), payload];
                is_close_frame = (connection_close_frame = op)
            in if is_close_frame
               then Inr (write_data env wg is_close_frame (c\<lparr>ws_has_connection := False\<rparr>))
               else Inr (write_data env wg is_close_frame c))
      else Inl ''websocket is not available'')"

text \<open>The destructor of \<open>ws_t\<close>, when nobody holds it any more.\<close>

definition destroy_ws :: "ws_env \<Rightarrow> ws_connection_t \<Rightarrow> ws_connection_t" where
  "destroy_ws env c = (if ws_referenced c then c else ws_shutdown env c)"

text \<open>
  What a handler does, in order; an exception ends it. It holds the handle it was called with
  until it ends.
\<close>

fun handler_actions :: "ws_env \<Rightarrow> ws_action list \<Rightarrow> ws_connection_t \<Rightarrow> ws_connection_t" where
  "handler_actions env [] c = c"
| "handler_actions env (SendMessage fin op payload # as) c =
     (case ws_send_message env fin op payload c of Inl e \<Rightarrow> c | Inr c \<Rightarrow> handler_actions env as c)"
| "handler_actions env (Shutdown # as) c = handler_actions env as (ws_shutdown env c)"
| "handler_actions env (Kill # as) c = handler_actions env as (ws_kill c)"
| "handler_actions env (Release # as) c = handler_actions env as (c\<lparr>ws_referenced := False\<rparr>)"

definition call_message_handler :: "ws_env \<Rightarrow> message_t \<Rightarrow> ws_connection_t \<Rightarrow> ws_connection_t" where
  "call_message_handler env m c0 =
     (if m_websocket_weak_handle c0 \<and> ws_referenced c0
      then (let c = c0\<lparr>handler_calls := handler_calls c0 @ [m]\<rparr>
            in destroy_ws env (handler_actions env (m_msg_handler env (handler_calls c)) c))
      else c0)"

definition call_close_handler_if_necessary :: "ws_env \<Rightarrow> status_code_t \<Rightarrow> ws_connection_t \<Rightarrow> ws_connection_t" where
  "call_close_handler_if_necessary env status c =
     (if m_close_frame_to_user c
      then call_message_handler env
             \<lparr>final_flag = final_frame, msg_opcode = connection_close_frame,
              msg_payload = status_code_to_bin status\<rparr> (c\<lparr>m_close_frame_to_user := False\<rparr>)
      else c)"

definition trigger_error_and_close :: "ws_env \<Rightarrow> status_code_t \<Rightarrow> ws_connection_t \<Rightarrow> ws_connection_t" where
  "trigger_error_and_close env status c = close_impl (call_close_handler_if_necessary env status c)"

section \<open>Reading\<close>

text \<open>How a callback goes on: it returns, it reads the next header, or an exception leaves it.\<close>

datatype flow = Stop | Again | Throw

definition reset_parser_and_payload :: "ws_connection_t \<Rightarrow> ws_connection_t" where
  "reset_parser_and_payload c = c\<lparr>m_parser := reset_parser (m_parser c), m_payload := []\<rparr>"

definition obtained_bytes :: "raw_data_t \<Rightarrow> ws_connection_t \<Rightarrow> ws_connection_t" where
  "obtained_bytes data c = c\<lparr>m_buf := data\<rparr>"

definition consumed_bytes :: "nat \<Rightarrow> ws_connection_t \<Rightarrow> ws_connection_t" where
  "consumed_bytes n c = c\<lparr>m_buf := drop n (m_buf c)\<rparr>"

definition consume_header_from_socket :: "ws_connection_t \<Rightarrow> ws_connection_t" where
  "consume_header_from_socket c = c\<lparr>reads_pending := reads_pending c @ [ReadHeader]\<rparr>"

definition start_read_payload :: "nat \<Rightarrow> nat \<Rightarrow> bool \<Rightarrow> ws_connection_t \<Rightarrow> ws_connection_t" where
  "start_read_payload pos length_remaining do_validate c =
     c\<lparr>reads_pending := reads_pending c @ [ReadPayload pos length_remaining do_validate]\<rparr>"

definition handle_invalid_payload :: "ws_env \<Rightarrow> validation_state_t \<Rightarrow> ws_connection_t \<Rightarrow> ws_connection_t" where
  "handle_invalid_payload env validation_result c =
     (if validation_result = invalid_close_code
      then (case m_read_state c of
              read_any_frame \<Rightarrow>
                call_close_handler_if_necessary env 1002
                  (close_frame_to_peer_first (send_close_frame_to_peer env 1002) c)
            | read_only_close_frame \<Rightarrow> close_impl c
            | read_nothing \<Rightarrow> c)
      else if m_read_state c = read_any_frame
      then call_close_handler_if_necessary env 1007
             (close_frame_to_peer_first
               (\<lambda>c. start_waiting_close_frame_only env (send_close_frame_to_peer env 1007 c)) c)
      else c)"

definition call_handler_on_current_message :: "ws_env \<Rightarrow> ws_connection_t \<Rightarrow> flow \<times> ws_connection_t" where
  "call_handler_on_current_message env c0 =
     (let md = m_current_msg (m_parser c0);
          (validation_result, v) = finish_frame (m_protocol_validator c0);
          c = c0\<lparr>m_protocol_validator := v\<rparr>
      in if validation_result = frame_is_valid
         then (if m_read_state c = read_any_frame
               then (let c = (if connection_close_frame = m_opcode md
                              then (close_frame_to_peer_first (send_close_payload_to_peer env (m_payload c))
                                     (c\<lparr>m_close_frame_to_user := False\<rparr>))\<lparr>m_read_state := read_nothing\<rparr>
                              else c);
                         m = \<lparr>final_flag = (if m_final_flag md then final_frame else not_final_frame),
                              msg_opcode = m_opcode md, msg_payload = m_payload c\<rparr>;
                         c = call_message_handler env m (c\<lparr>m_payload := []\<rparr>)
                     in if read_nothing \<noteq> m_read_state c then (Again, c) else (Stop, c))
               else if connection_close_frame = m_opcode md
               then (Stop, close_impl (c\<lparr>m_timer_scheduled := False\<rparr>))
               else (Again, c))
         else (Stop, handle_invalid_payload env validation_result c))"

definition overwrite :: "nat \<Rightarrow> raw_data_t \<Rightarrow> raw_data_t \<Rightarrow> raw_data_t" where
  "overwrite pos d s = take pos s @ d @ drop (pos + length d) s"

text \<open>
  \<open>validate_payload_part\<close> on the part of the payload at \<open>pos\<close>: \<open>Inr\<close> for true, \<open>Inl\<close> for false
  with what it has done itself.
\<close>

definition validate_payload_part :: "ws_env \<Rightarrow> nat \<Rightarrow> nat \<Rightarrow> nat \<Rightarrow> ws_connection_t \<Rightarrow>
    flow \<times> ws_connection_t + ws_connection_t" where
  "validate_payload_part env pos len next_length_remaining c0 =
     (case process_and_unmask_next_payload_part (take len (drop pos (m_payload c0))) (m_protocol_validator c0) of
        Inl e \<Rightarrow> Inl (Throw, c0)
      | Inr (validation_result, out, v) \<Rightarrow>
          let c = c0\<lparr>m_payload := overwrite pos out (m_payload c0), m_protocol_validator := v\<rparr>
          in if validation_result \<noteq> payload_part_is_valid
             then (let c = handle_invalid_payload env validation_result c
                   in if validation_result = incorrect_utf8_data
                      then (let c = c\<lparr>m_protocol_validator := reset_validator (m_protocol_validator c)\<rparr>
                            in if 0 = next_length_remaining then Inl (Again, c)
                               else Inl (Stop, start_read_payload (pos + len) next_length_remaining False c))
                      else Inl (Stop, c))
             else Inr c)"

definition handle_parsed_and_valid_header ::
    "ws_env \<Rightarrow> message_details_t \<Rightarrow> ws_connection_t \<Rightarrow> flow \<times> ws_connection_t" where
  "handle_parsed_and_valid_header env md c0 =
     (let payload_length = unat (payload_len md)
      in if \<not> resize_succeeds env payload_length then (Throw, c0)
         else let c = c0\<lparr>m_payload := replicate payload_length 0\<rparr>
              in if payload_length = 0 then call_handler_on_current_message env c
                 else let payload_part_size = min (length (m_buf c)) payload_length;
                          c = c\<lparr>m_payload := overwrite 0 (take payload_part_size (m_buf c)) (m_payload c)\<rparr>;
                          c = consumed_bytes payload_part_size c;
                          length_remaining = payload_length - payload_part_size
                      in case validate_payload_part env 0 payload_part_size length_remaining c of
                           Inl r \<Rightarrow> r
                         | Inr c \<Rightarrow>
                             if 0 = length_remaining then call_handler_on_current_message env c
                             else (Stop, start_read_payload payload_part_size length_remaining True c))"

definition handle_parsed_header ::
    "ws_env \<Rightarrow> message_details_t \<Rightarrow> ws_connection_t \<Rightarrow> flow \<times> ws_connection_t" where
  "handle_parsed_header env md c0 =
     (case process_new_frame md (m_protocol_validator c0) of
        Inl e \<Rightarrow> (Throw, c0)
      | Inr (validation_result, v) \<Rightarrow>
          let c = c0\<lparr>m_protocol_validator := v\<rparr>
          in if frame_header_is_valid \<noteq> validation_result
             then (Stop,
                   case m_read_state c of
                     read_any_frame \<Rightarrow>
                       call_close_handler_if_necessary env 1002
                         (close_frame_to_peer_first (send_close_frame_to_peer env 1002) c)
                   | read_only_close_frame \<Rightarrow> close_impl c
                   | read_nothing \<Rightarrow> c)
             else handle_parsed_and_valid_header env md c)"

text \<open>The bytes are all those in the buffer, in both calls.\<close>

definition consume_header_from_buffer :: "ws_env \<Rightarrow> ws_connection_t \<Rightarrow> flow \<times> ws_connection_t" where
  "consume_header_from_buffer env c0 =
     (case parser_execute (m_buf c0) (m_parser c0) of
        Inl e \<Rightarrow> (Throw, c0)
      | Inr (nparsed, p) \<Rightarrow>
          let c = consumed_bytes nparsed (c0\<lparr>m_parser := p\<rparr>)
          in if header_parsed p then handle_parsed_header env (m_current_msg p) c
             else (Stop, consume_header_from_socket c))"

definition read_header_once :: "ws_env \<Rightarrow> ws_connection_t \<Rightarrow> flow \<times> ws_connection_t" where
  "read_header_once env c0 =
     (let c = reset_parser_and_payload c0
      in if 0 = length (m_buf c) then (Stop, consume_header_from_socket c)
         else consume_header_from_buffer env c)"

subsection \<open>What the output does not touch\<close>

named_theorems input_simps \<open>operations that leave the input alone\<close>

definition same_input :: "ws_connection_t \<Rightarrow> ws_connection_t \<Rightarrow> bool" where
  "same_input c d \<longleftrightarrow> m_parser d = m_parser c \<and> m_buf d = m_buf c \<and> m_payload d = m_payload c \<and>
     m_protocol_validator d = m_protocol_validator c \<and> reads_pending d = reads_pending c"

lemma same_input_refl [simp]: "same_input c c"
  by (simp add: same_input_def)

lemma same_input_trans: "same_input c d \<Longrightarrow> same_input d e \<Longrightarrow> same_input c e"
  by (simp add: same_input_def)

lemma current_write_ctx_input: "same_input c (handle_current_write_ctx env c)"
proof (induction env c rule: handle_current_write_ctx.induct)
  case (1 env c)
  show ?case
    by (subst handle_current_write_ctx.simps)
       (use 1 in \<open>auto simp: same_input_def pop_ready_buffers_def handle_trivial_write_operation_def
          guard_write_operation_def Let_def split: prod.splits write_operation_t.splits list.splits\<close>)
qed

lemma init_write_input: "same_input c (init_write_if_necessary env c)"
  using current_write_ctx_input
  by (auto simp: init_write_if_necessary_def init_write_def pop_ready_buffers_def same_input_def
      split: list.splits)

lemma waiting_input: "same_input c (start_waiting_close_frame_only env c)"
  by (simp add: same_input_def start_waiting_close_frame_only_def guard_close_frame_from_peer_operation_def)

lemma append_outgoing_input: "same_input c (append_outgoing wg c)"
  by (simp add: same_input_def append_outgoing_def)

lemma write_data_input: "same_input c (write_data env wg b c)"
  using init_write_input waiting_input append_outgoing_input
  by (simp add: write_data_def write_data_impl_def Let_def same_input_def)

lemma close_impl_input: "same_input c (close_impl c)"
  by (simp add: same_input_def close_impl_def)

lemma send_close_input: "same_input c (send_close_payload_to_peer env p c)"
  using init_write_input append_outgoing_input
  by (simp add: send_close_payload_to_peer_def Let_def same_input_def)

lemma to_peer_first_input:
  "(\<And>d. same_input d (action d)) \<Longrightarrow> same_input c (close_frame_to_peer_first action c)"
  by (simp add: close_frame_to_peer_first_def same_input_def)

lemma send_close_waiting_input:
  "same_input c (start_waiting_close_frame_only env (send_close_frame_to_peer env code c))"
  using send_close_input waiting_input by (simp add: send_close_frame_to_peer_def same_input_def)

lemma ws_shutdown_input: "same_input c (ws_shutdown env c)"
  using to_peer_first_input [OF send_close_waiting_input]
  by (simp add: ws_shutdown_def shutdown_connection_def graceful_close_def same_input_def)

lemma ws_kill_input: "same_input c (ws_kill c)"
  using close_impl_input by (simp add: ws_kill_def kill_connection_def same_input_def)

lemma ws_send_message_input: "ws_send_message env fin op p c = Inr d \<Longrightarrow> same_input c d"
  using write_data_input by (auto simp: ws_send_message_def Let_def same_input_def split: if_splits)

lemma handler_actions_input: "same_input c (handler_actions env as c)"
proof (induction env as c rule: handler_actions.induct)
  case (2 env fin op p as c)
  then show ?case
    using ws_send_message_input [of env fin op p c] by (auto split: sum.splits dest: same_input_trans)
next
  case (5 env as c)
  then show ?case by (simp add: same_input_def)
next
  case (3 env as c)
  from same_input_trans [OF ws_shutdown_input 3] show ?case by simp
next
  case (4 env as c)
  from same_input_trans [OF ws_kill_input 4] show ?case by simp
qed simp

lemma call_message_handler_input: "same_input c (call_message_handler env m c)"
  using handler_actions_input ws_shutdown_input
  by (simp add: call_message_handler_def destroy_ws_def Let_def same_input_def)

lemma call_close_handler_input: "same_input c (call_close_handler_if_necessary env st c)"
  using call_message_handler_input by (simp add: call_close_handler_if_necessary_def same_input_def)

lemma handle_invalid_payload_input: "same_input c (handle_invalid_payload env st c)"
proof -
  have *: "same_input c (call_close_handler_if_necessary env code (close_frame_to_peer_first action c))"
    if "\<And>d. same_input d (action d)" for code action
    using to_peer_first_input [OF that] call_close_handler_input same_input_trans by blast
  have "same_input d (send_close_frame_to_peer env 1002 d)" for d
    using send_close_input by (simp add: send_close_frame_to_peer_def)
  then show ?thesis
    using * [of "send_close_frame_to_peer env 1002"] * [OF send_close_waiting_input] close_impl_input
    by (auto simp: handle_invalid_payload_def split: read_state_t.split)
qed

lemmas buf_simps =
  close_impl_input [unfolded same_input_def] send_close_input [unfolded same_input_def]
  call_message_handler_input [unfolded same_input_def] call_close_handler_input [unfolded same_input_def]
  handle_invalid_payload_input [unfolded same_input_def]

lemma to_peer_buf:
  "m_buf (close_frame_to_peer_first (send_close_payload_to_peer env p) c) = m_buf c"
  "m_buf (close_frame_to_peer_first (send_close_frame_to_peer env code) c) = m_buf c"
  by (simp_all add: close_frame_to_peer_first_def send_close_frame_to_peer_def buf_simps)

subsection \<open>The loop over the frames in the buffer\<close>

lemma current_message_buf: "m_buf (snd (call_handler_on_current_message env c)) = m_buf c"
  by (simp add: call_handler_on_current_message_def Let_def buf_simps to_peer_buf split: prod.split)

lemma validate_part_buf:
  "(case validate_payload_part env pos len rest c of Inl r \<Rightarrow> m_buf (snd r) | Inr d \<Rightarrow> m_buf d) = m_buf c"
  by (auto simp: validate_payload_part_def Let_def buf_simps start_read_payload_def split: sum.split prod.split)

lemma valid_header_buf: "length (m_buf (snd (handle_parsed_and_valid_header env md c))) \<le> length (m_buf c)"
proof -
  let ?n = "unat (payload_len md)"
  let ?k = "min (length (m_buf c)) ?n"
  let ?c = "consumed_bytes ?k (c\<lparr>m_payload := overwrite 0 (take ?k (m_buf c)) (replicate ?n 0)\<rparr>)"
  have b: "length (m_buf ?c) \<le> length (m_buf c)" by (simp add: consumed_bytes_def)
  show ?thesis
    using validate_part_buf [of env 0 ?k "?n - ?k" ?c] b
    by (auto simp: handle_parsed_and_valid_header_def Let_def current_message_buf start_read_payload_def
        split: sum.splits)
qed

lemma parsed_header_buf: "length (m_buf (snd (handle_parsed_header env md c))) \<le> length (m_buf c)"
proof (cases "process_new_frame md (m_protocol_validator c)")
  case (Inr r)
  obtain st v where r: "r = (st, v)" by (cases r)
  show ?thesis
    using Inr r valid_header_buf [of env md "c\<lparr>m_protocol_validator := v\<rparr>"]
    by (simp add: handle_parsed_header_def Let_def buf_simps to_peer_buf split: read_state_t.split)
qed (simp add: handle_parsed_header_def)

lemma parser_progress:
  assumes "parser_loop n data p = Inr (k, q)" and "data \<noteq> []" and "\<not> header_parsed p"
  shows "n < k"
proof -
  obtain b rest where d: "data = b # rest" using assms(2) by (cases data) auto
  from assms(1,3) obtain p' where "parser_loop (Suc n) rest p' = Inr (k, q)"
    by (auto simp: d result_simps header_parsed_def split: if_splits)
  from parser_loop_count [OF this] show ?thesis by simp
qed

lemma read_header_progress:
  assumes "read_header_once env c = (Again, d)"
  shows "length (m_buf d) < length (m_buf c)"
proof -
  let ?c = "reset_parser_and_payload c"
  have buf: "m_buf ?c = m_buf c" by (simp add: reset_parser_and_payload_def)
  have np: "\<not> header_parsed (m_parser ?c)"
    by (simp add: reset_parser_and_payload_def reset_parser_def header_parsed_def)
  have ne: "m_buf c \<noteq> []" and once: "consume_header_from_buffer env ?c = (Again, d)"
    using assms buf by (auto simp: read_header_once_def Let_def split: if_splits)
  from once obtain k q where q: "parser_loop 0 (m_buf c) (m_parser ?c) = Inr (k, q)"
    "handle_parsed_header env (m_current_msg q) (consumed_bytes k (?c\<lparr>m_parser := q\<rparr>)) = (Again, d)"
    by (auto simp: consume_header_from_buffer_def parser_execute_def buf Let_def split: sum.splits prod.splits if_splits)
  from parser_progress [OF q(1) ne np] have "0 < k" .
  then show ?thesis
    using parsed_header_buf [of env "m_current_msg q" "consumed_bytes k (?c\<lparr>m_parser := q\<rparr>)"] q(2) ne buf
    by (cases "m_buf c") (auto simp: consumed_bytes_def)
qed

function start_read_header :: "ws_env \<Rightarrow> ws_connection_t \<Rightarrow> flow \<times> ws_connection_t" where
  "start_read_header env c0 =
     (case read_header_once env c0 of
        (Again, c) \<Rightarrow> start_read_header env c
      | (Stop, c) \<Rightarrow> (Stop, c)
      | (Throw, c) \<Rightarrow> (Throw, c))"
  by pat_completeness auto
termination
  by (relation "measure (\<lambda>(env, c). length (m_buf c))") (auto dest!: read_header_progress [OF sym])

declare start_read_header.simps [simp del]

section \<open>The callbacks\<close>

text \<open>The \<open>try\<close> and \<open>catch\<close> around each of them.\<close>

definition guarded :: "ws_env \<Rightarrow> flow \<times> ws_connection_t \<Rightarrow> ws_connection_t" where
  "guarded env r = (case r of (fl, c) \<Rightarrow> if fl = Throw then trigger_error_and_close env 1011 c else c)"

definition go_on :: "ws_env \<Rightarrow> flow \<times> ws_connection_t \<Rightarrow> flow \<times> ws_connection_t" where
  "go_on env r = (case r of (fl, c) \<Rightarrow> if fl = Again then start_read_header env c else (fl, c))"

text \<open>\<open>upgrade\<close> writes the response of the handshake and activates the connection at once.\<close>

definition init_read :: "ws_env \<Rightarrow> ws_connection_t \<Rightarrow> ws_connection_t" where
  "init_read env c =
     guarded env (start_read_header env
       (c\<lparr>m_timer_scheduled := True, m_websocket_weak_handle := True, m_read_state := read_any_frame\<rparr>))"

definition upgrade :: "ws_env \<Rightarrow> raw_data_t \<Rightarrow> unmasker_t \<Rightarrow> ws_connection_t" where
  "upgrade env response u = init_read env (write_data env [response] False (ws_connection_start u))"

definition handle_read_error :: "ws_env \<Rightarrow> ws_connection_t \<Rightarrow> ws_connection_t" where
  "handle_read_error env c = trigger_error_and_close env 1006 c"

definition after_read_header :: "ws_env \<Rightarrow> raw_data_t \<Rightarrow> ws_connection_t \<Rightarrow> flow \<times> ws_connection_t" where
  "after_read_header env data c = go_on env (consume_header_from_buffer env (obtained_bytes data c))"

text \<open>The read has put \<open>data\<close> into the payload at \<open>pos\<close>.\<close>

definition after_read_payload :: "ws_env \<Rightarrow> nat \<Rightarrow> nat \<Rightarrow> bool \<Rightarrow> raw_data_t \<Rightarrow>
    ws_connection_t \<Rightarrow> flow \<times> ws_connection_t" where
  "after_read_payload env pos length_remaining do_validate data c0 =
     (let c = c0\<lparr>m_payload := overwrite pos data (m_payload c0)\<rparr>;
          next_length_remaining = length_remaining - length data
      in go_on env
           (if do_validate
            then (case validate_payload_part env pos (length data) next_length_remaining c of
                    Inl r \<Rightarrow> r
                  | Inr c \<Rightarrow>
                      if 0 = next_length_remaining then call_handler_on_current_message env c
                      else (Stop, start_read_payload (pos + length data) next_length_remaining do_validate c))
            else if 0 = next_length_remaining then (Again, c)
            else (Stop, start_read_payload (pos + length data) next_length_remaining do_validate c)))"

definition after_write :: "ws_env \<Rightarrow> bool \<Rightarrow> ws_connection_t \<Rightarrow> ws_connection_t" where
  "after_write env ok c0 =
     (if ok then handle_current_write_ctx env c0
      else let c = trigger_error_and_close env 1006 c0
           in c\<lparr>m_write_output_ctx := fail_write_group (m_write_output_ctx c)\<rparr>)"

definition check_timeout :: "ws_env \<Rightarrow> ws_connection_t \<Rightarrow> ws_connection_t" where
  "check_timeout env c =
     (let now = steady_clock c
      in if transmitting (m_write_output_ctx c) \<and> now > m_write_operation_timeout_after c
         then close_impl (call_close_handler_if_necessary env 1011 (c\<lparr>m_close_frame_to_peer := False\<rparr>))
         else if (case m_close_frame_from_peer_timeout_after c of None \<Rightarrow> False | Some t \<Rightarrow> now > t)
         then close_impl c
         else c\<lparr>m_timer_scheduled := True\<rparr>)"

section \<open>The connection as a system of events\<close>

text \<open>
  A read ends with some bytes, at most as many as it asked for, or with an error; a write ends
  well or with an error; the timer fires; time passes; the application acts on its own. The
  opcodes an application sends are those that have names.
\<close>

datatype connection_event = HeaderRead raw_data_t | PayloadRead raw_data_t | ReadFails
  | WriteDone | WriteFails | CheckTimeout | Tick nat | Action ws_action

fun named_action :: "ws_action \<Rightarrow> bool" where
  "named_action (SendMessage fin (unnamed_opcode b) p) \<longleftrightarrow> False"
| "named_action a \<longleftrightarrow> True"

definition enabled :: "connection_event \<Rightarrow> ws_connection_t \<Rightarrow> bool" where
  "enabled e c \<longleftrightarrow>
     (case e of
        HeaderRead data \<Rightarrow>
          (case reads_pending c of ReadHeader # rs \<Rightarrow> data \<noteq> [] \<and> length data \<le> 14 | _ \<Rightarrow> False)
      | PayloadRead data \<Rightarrow>
          (case reads_pending c of ReadPayload pos n v # rs \<Rightarrow> data \<noteq> [] \<and> length data \<le> n | _ \<Rightarrow> False)
      | ReadFails \<Rightarrow> reads_pending c \<noteq> []
      | WriteDone \<Rightarrow> 0 < writes_pending c
      | WriteFails \<Rightarrow> 0 < writes_pending c
      | CheckTimeout \<Rightarrow> m_timer_scheduled c
      | Tick n \<Rightarrow> True
      | Action a \<Rightarrow> ws_referenced c \<and> named_action a)"

definition read_completed :: "ws_connection_t \<Rightarrow> ws_connection_t" where
  "read_completed c = c\<lparr>reads_pending := tl (reads_pending c)\<rparr>"

definition write_completed :: "ws_connection_t \<Rightarrow> ws_connection_t" where
  "write_completed c = c\<lparr>writes_pending := writes_pending c - 1\<rparr>"

fun on_event :: "ws_env \<Rightarrow> connection_event \<Rightarrow> ws_connection_t \<Rightarrow> ws_connection_t" where
  "on_event env (HeaderRead data) c = guarded env (after_read_header env data (read_completed c))"
| "on_event env (PayloadRead data) c =
     (case reads_pending c of
        ReadPayload pos n v # rs \<Rightarrow> guarded env (after_read_payload env pos n v data (read_completed c))
      | _ \<Rightarrow> c)"
| "on_event env ReadFails c = handle_read_error env (read_completed c)"
| "on_event env WriteDone c = after_write env True (write_completed c)"
| "on_event env WriteFails c = after_write env False (write_completed c)"
| "on_event env CheckTimeout c = check_timeout env (c\<lparr>m_timer_scheduled := False\<rparr>)"
| "on_event env (Tick n) c = c\<lparr>steady_clock := steady_clock c + n\<rparr>"
| "on_event env (Action a) c = destroy_ws env (handler_actions env [a] c)"

fun on_events :: "ws_env \<Rightarrow> connection_event list \<Rightarrow> ws_connection_t \<Rightarrow> ws_connection_t" where
  "on_events env [] c = c"
| "on_events env (e # es) c = on_events env es (on_event env e c)"

text \<open>
  The states a connection reaches, with the events that \<open>allow\<close> lets happen: \<open>enabled\<close>, or those
  among them that do not bring data after the socket was closed.
\<close>

inductive ws_reach :: "(connection_event \<Rightarrow> ws_connection_t \<Rightarrow> bool) \<Rightarrow> ws_env \<Rightarrow> ws_connection_t \<Rightarrow> bool"
  for allow env where
  ws_upgraded: "ws_reach allow env (upgrade env response u)"
| ws_stepped: "ws_reach allow env c \<Longrightarrow> allow e c \<Longrightarrow> ws_reach allow env (on_event env e c)"

definition prompt :: "connection_event \<Rightarrow> ws_connection_t \<Rightarrow> bool" where
  "prompt e c \<longleftrightarrow> enabled e c \<and>
     (case e of HeaderRead data \<Rightarrow> socket_is_open c | PayloadRead data \<Rightarrow> socket_is_open c | _ \<Rightarrow> True)"

section \<open>A sample connection\<close>

definition quiet_env :: ws_env where
  "quiet_env = \<lparr>m_msg_handler = \<lambda>ms. [], resize_succeeds = \<lambda>n. True,
     m_write_http_response_timelimit = 5, m_read_next_http_message_timelimit = 60\<rparr>"

definition sample_unmasker :: unmasker_t where
  "sample_unmasker = \<lparr>m_mask = [], m_processed_bytes_count = 0\<rparr>"

definition sample_connection :: ws_connection_t where
  "sample_connection = upgrade quiet_env [0x48] sample_unmasker"

lemma sample_reach: "ws_reach allow quiet_env sample_connection"
  unfolding sample_connection_def by (rule ws_upgraded)

text \<open>Several events, each possible when it happens.\<close>

fun all_enabled :: "ws_env \<Rightarrow> connection_event list \<Rightarrow> ws_connection_t \<Rightarrow> bool" where
  "all_enabled env [] c \<longleftrightarrow> True"
| "all_enabled env (e # es) c \<longleftrightarrow> enabled e c \<and> all_enabled env es (on_event env e c)"

lemma ws_reach_events:
  "ws_reach enabled env c \<Longrightarrow> all_enabled env es c \<Longrightarrow> ws_reach enabled env (on_events env es c)"
  by (induction es arbitrary: c) (auto intro: ws_stepped)

end
