(* ===== verification/WsClosing.thy ===== *)
theory WsClosing
  imports WsConnection
begin

unbundle bit_operations_syntax

text \<open>
  Invariants of a WebSocket connection (the model of theory \<open>WsConnection\<close>) over every order of
  events: what is given to the socket and in which order, at most one close frame and nothing
  after it, how often the application is told of the end, and which reads are pending.
\<close>

section \<open>The queue of output\<close>

definition good_group :: "write_group_t \<Rightarrow> bool" where
  "good_group g \<longleftrightarrow> g \<noteq> [] \<and> length g \<le> 2"

text \<open>Everything given to the socket so far and everything that waits for it.\<close>

definition sent :: "ws_connection_t \<Rightarrow> write_group_t list" where
  "sent c = written c @ m_outgoing_data c"

definition is_close_group :: "write_group_t \<Rightarrow> bool" where
  "is_close_group g \<longleftrightarrow> length g = 2 \<and> g ! 0 \<noteq> [] \<and> (g ! 0) ! 0 AND 0x0F = 0x08"

definition no_close :: "write_group_t list \<Rightarrow> bool" where
  "no_close gs \<longleftrightarrow> list_all (\<lambda>g. \<not> is_close_group g) gs"

definition closes_last :: "write_group_t list \<Rightarrow> bool" where
  "closes_last gs \<longleftrightarrow> no_close (butlast gs)"

lemma no_close_simps [simp]:
  "no_close []" "no_close (g # gs) \<longleftrightarrow> \<not> is_close_group g \<and> no_close gs"
  "no_close (a @ b) \<longleftrightarrow> no_close a \<and> no_close b"
  by (auto simp: no_close_def)

lemma no_close_closes_last: "no_close gs \<Longrightarrow> closes_last gs"
  by (auto simp: closes_last_def no_close_def list_all_iff dest: in_set_butlastD)

lemma closes_last_snoc [simp]: "closes_last (gs @ [g]) \<longleftrightarrow> no_close gs"
  by (simp add: closes_last_def)

lemma closes_last_append: "b \<noteq> [] \<Longrightarrow> closes_last (a @ b) \<longleftrightarrow> no_close a \<and> closes_last b"
  by (simp add: closes_last_def butlast_append)

lemma closes_last_drop: "closes_last (a @ g # b) \<Longrightarrow> closes_last (a @ b)"
  using no_close_closes_last by (auto simp: closes_last_def butlast_append)

lemma closes_last_swap: "closes_last (a @ g # b) \<Longrightarrow> \<not> is_close_group h \<Longrightarrow> closes_last (a @ h # b)"
  by (auto simp: closes_last_def butlast_append)

lemma write_message_details_head:
  "\<exists>rest. write_message_details m =
     (flag_bit (m_rsv3_flag m) 0x10 (flag_bit (m_rsv2_flag m) 0x20 (flag_bit (m_rsv1_flag m) 0x40
       (flag_bit (m_final_flag m) 0x80 0x00))) OR (code_of_opcode (m_opcode m) AND 0x0F)) # rest"
  by (simp add: write_message_details_def Let_def write_number_append [of _ _ "[_, _]"])

lemma is_close_header:
  "is_close_group [write_message_header fin op n, p] \<longleftrightarrow> code_of_opcode op AND 0x0F = 0x08"
proof -
  have op: "m_opcode (message_details fin op (of_nat n)) = op"
    by (simp add: message_details_def init_payload_len_def default_details_def)
  from write_message_details_head [of "message_details fin op (of_nat n)"] obtain rest f1 f2 f3 f4 where
    "write_message_header fin op n = (flag_bit f4 0x10 (flag_bit f3 0x20 (flag_bit f2 0x40
       (flag_bit f1 0x80 0x00))) OR (code_of_opcode op AND 0x0F)) # rest"
    unfolding write_message_header_def op by blast
  then show ?thesis by (simp add: is_close_group_def first_byte_bits(5))
qed

text \<open>One round of \<open>handle_current_write_ctx\<close>: the rest of the group, or the next group.\<close>

lemma write_rest:
  assumes "m_write_output_ctx c = \<lparr>m_current_wg = Some g, m_next_writable_item_index = i\<rparr>"
    and "i < length g" and "length g \<le> 2"
  shows "handle_current_write_ctx env c =
    c\<lparr>m_write_output_ctx := \<lparr>m_current_wg = Some g, m_next_writable_item_index = length g\<rparr>,
      m_write_operation_timeout_after := steady_clock c + m_write_http_response_timelimit env,
      writes_pending := Suc (writes_pending c), written := written c @ [drop i g]\<rparr>"
  using assms
  by (subst handle_current_write_ctx.simps)
     (simp add: extract_next_write_operation_def handle_trivial_write_operation_def
       guard_write_operation_def Let_def max_iov_len_def)

lemma write_next:
  assumes "m_write_output_ctx c = \<lparr>m_current_wg = Some g, m_next_writable_item_index = i\<rparr>"
    and "length g \<le> i" and "list_all good_group (m_outgoing_data c)"
  shows "handle_current_write_ctx env c =
    (case m_outgoing_data c of
       [] \<Rightarrow> c\<lparr>m_write_output_ctx := \<lparr>m_current_wg = None, m_next_writable_item_index = 0\<rparr>\<rparr>
     | h # rest \<Rightarrow>
         c\<lparr>m_write_output_ctx := \<lparr>m_current_wg = Some h, m_next_writable_item_index = length h\<rparr>,
           m_write_operation_timeout_after := steady_clock c + m_write_http_response_timelimit env,
           m_outgoing_data := rest, writes_pending := Suc (writes_pending c), written := written c @ [h]\<rparr>)"
proof (cases "m_outgoing_data c")
  case Nil
  then show ?thesis using assms
    by (subst handle_current_write_ctx.simps)
       (simp add: extract_next_write_operation_def finish_write_group_def pop_ready_buffers_def)
next
  case (Cons h rest)
  then have h: "0 < length h" "length h \<le> 2" using assms(3) by (auto simp: good_group_def)
  show ?thesis using assms(1,2) Cons
    by (subst handle_current_write_ctx.simps)
       (simp add: extract_next_write_operation_def finish_write_group_def pop_ready_buffers_def
         start_next_write_group_def write_rest [OF _ h])
qed

text \<open>The group in progress has been given to the socket as a whole.\<close>

definition group_written :: "ws_connection_t \<Rightarrow> bool" where
  "group_written c \<longleftrightarrow>
     (case m_current_wg (m_write_output_ctx c) of
        None \<Rightarrow> socket_is_open c \<longrightarrow>
          m_next_writable_item_index (m_write_output_ctx c) = 0 \<and> m_outgoing_data c = []
      | Some g \<Rightarrow> length g \<le> m_next_writable_item_index (m_write_output_ctx c))"

abbreviation is_transmitting :: "ws_connection_t \<Rightarrow> bool" where
  "is_transmitting c \<equiv> transmitting (m_write_output_ctx c)"

lemma ctx_cases:
  obtains i where "m_write_output_ctx c = \<lparr>m_current_wg = None, m_next_writable_item_index = i\<rparr>"
  | g i where "m_write_output_ctx c = \<lparr>m_current_wg = Some g, m_next_writable_item_index = i\<rparr>"
  by (metis (full_types) not_Some_eq write_group_output_ctx_t.surjective old.unit.exhaust)

lemma small_part: "good_group g \<Longrightarrow> 0 < i \<Longrightarrow> \<not> is_close_group (drop i g)"
  by (auto simp: good_group_def is_close_group_def)

text \<open>What writing changes in a connection.\<close>

abbreviation with_output :: "write_group_output_ctx_t \<Rightarrow> write_group_t list \<Rightarrow> write_group_t list \<Rightarrow> nat \<Rightarrow> nat \<Rightarrow>
    ws_connection_t \<Rightarrow> ws_connection_t" where
  "with_output x q w n t c \<equiv> c\<lparr>m_write_output_ctx := x, m_outgoing_data := q, written := w,
     writes_pending := n, m_write_operation_timeout_after := t\<rparr>"

lemma append_write:
  assumes "group_written c" and "list_all good_group (m_outgoing_data c)" and "good_group wg"
    and "closes_last (sent c @ [wg])"
  obtains x q w n t where
    "init_write_if_necessary env (append_outgoing wg c) = with_output x q w n t c"
    and "group_written (with_output x q w n t c)" and "list_all good_group q" and "closes_last (w @ q)"
    and "no_close (sent c @ [wg]) \<longrightarrow> no_close (w @ q)"
    and "n + of_bool (is_transmitting c) = writes_pending c + of_bool (transmitting x)"
    and "is_transmitting c \<longrightarrow> transmitting x" and "socket_is_open c \<longrightarrow> w @ q = sent c @ [wg]"
proof (cases c rule: ctx_cases)
  case (2 g i)
  let ?d' = "with_output (m_write_output_ctx c) (m_outgoing_data c @ [wg]) (written c) (writes_pending c)
    (m_write_operation_timeout_after c) c"
  have e: "init_write_if_necessary env (append_outgoing wg c) = ?d'"
    by (simp add: init_write_if_necessary_def append_outgoing_def transmitting_def 2)
  have g: "group_written ?d'" using assms(1) by (simp add: group_written_def 2)
  show thesis using assms(2-4) by (intro that [OF e g]) (simp_all add: sent_def)
next
  case (1 i)
  obtain g rest where q: "m_outgoing_data c @ [wg] = g # rest" by (cases "m_outgoing_data c") auto
  have good: "good_group g" "list_all good_group rest"
    using assms(2,3) q by (cases "m_outgoing_data c", auto)+
  have s: "sent c @ [wg] = written c @ g # rest" using q by (simp add: sent_def)
  have cl: "closes_last (written c @ g # rest)" using assms(4) s by simp
  let ?c = "c\<lparr>m_outgoing_data := rest,
    m_write_output_ctx := \<lparr>m_current_wg = Some g, m_next_writable_item_index = i\<rparr>\<rparr>"
  have e: "init_write_if_necessary env (append_outgoing wg c) = handle_current_write_ctx env ?c"
    by (simp add: init_write_if_necessary_def append_outgoing_def transmitting_def 1 init_write_def
        pop_ready_buffers_def start_next_write_group_def q)
  show thesis
  proof (cases "i < length g")
    case True
    have w: "handle_current_write_ctx env ?c =
        with_output \<lparr>m_current_wg = Some g, m_next_writable_item_index = length g\<rparr> rest (written c @ [drop i g])
          (Suc (writes_pending c)) (steady_clock c + m_write_http_response_timelimit env) c"
      using good(1) True by (subst write_rest [of _ g i]) (auto simp: good_group_def intro: ws_connection_t.equality)
    have "i = 0 \<or> \<not> is_close_group (drop i g)" using small_part [OF good(1), of i] by auto
    then have "closes_last (written c @ drop i g # rest)"
      "no_close (written c @ g # rest) \<longrightarrow> no_close (written c @ drop i g # rest)"
      using cl closes_last_swap [OF cl] by auto
    moreover have "socket_is_open c \<longrightarrow> i = 0" using assms(1) by (auto simp: group_written_def 1)
    ultimately show thesis
      by (intro that [OF e [unfolded w]]) (auto simp: group_written_def good transmitting_def 1 s)
  next
    case False
    show thesis
    proof (cases rest)
      case Nil
      have w: "handle_current_write_ctx env ?c =
          with_output \<lparr>m_current_wg = None, m_next_writable_item_index = 0\<rparr> [] (written c)
            (writes_pending c) (m_write_operation_timeout_after c) c"
        using False Nil by (subst write_next [of _ g i]) (auto intro: ws_connection_t.equality)
      show thesis using closes_last_drop [OF cl] assms(1) good(1) False
        by (intro that [OF e [unfolded w]])
           (auto simp: group_written_def Nil transmitting_def 1 s good_group_def)
    next
      case (Cons h rest')
      have w: "handle_current_write_ctx env ?c =
          with_output \<lparr>m_current_wg = Some h, m_next_writable_item_index = length h\<rparr> rest' (written c @ [h])
            (Suc (writes_pending c)) (steady_clock c + m_write_http_response_timelimit env) c"
        using False Cons good(2) by (subst write_next [of _ g i]) (auto intro: ws_connection_t.equality)
      show thesis using closes_last_drop [OF cl] assms(1) good False
        by (intro that [OF e [unfolded w]])
           (auto simp: group_written_def Cons transmitting_def 1 s good_group_def)
    qed
  qed
qed

subsection \<open>The invariant of the output\<close>

definition output_ok :: "ws_connection_t \<Rightarrow> bool" where
  "output_ok c \<longleftrightarrow> group_written c \<and> list_all good_group (m_outgoing_data c) \<and> closes_last (sent c) \<and>
     (m_write_state c = write_enabled \<longrightarrow> no_close (sent c)) \<and>
     (m_close_frame_to_peer c \<longrightarrow> m_write_state c = write_enabled) \<and>
     (m_close_impl c \<or> \<not> socket_is_open c)"

text \<open>
  What an operation does to it: it keeps the invariant, and starts a write only when none was
  in progress.
\<close>

definition out_rel :: "ws_connection_t \<Rightarrow> ws_connection_t \<Rightarrow> bool" where
  "out_rel c d \<longleftrightarrow> output_ok c \<longrightarrow> output_ok d \<and> (is_transmitting c \<longrightarrow> is_transmitting d) \<and>
     writes_pending d + of_bool (is_transmitting c) = writes_pending c + of_bool (is_transmitting d)"

lemma out_rel_trans: "out_rel c d \<Longrightarrow> out_rel d e \<Longrightarrow> out_rel c e"
  by (auto simp: out_rel_def)

lemma out_rel_same:
  assumes "m_write_output_ctx d = m_write_output_ctx c" and "m_outgoing_data d = m_outgoing_data c"
    and "written d = written c" and "writes_pending d = writes_pending c"
    and "m_write_state d = m_write_state c" and "m_close_impl d = m_close_impl c"
    and "socket_is_open d = socket_is_open c" and "m_close_frame_to_peer d \<longrightarrow> m_close_frame_to_peer c"
  shows "out_rel c d"
  using assms by (auto simp: out_rel_def output_ok_def group_written_def sent_def split: option.splits)

lemma out_rel_refl [simp]: "out_rel c c"
  by (rule out_rel_same) simp_all

lemma close_impl_out: "out_rel c (close_impl c)"
  by (auto simp: close_impl_def out_rel_def output_ok_def group_written_def sent_def split: option.splits)

lemma waiting_out: "out_rel c (start_waiting_close_frame_only env c)"
  by (rule out_rel_same)
     (simp_all add: start_waiting_close_frame_only_def guard_close_frame_from_peer_operation_def)

lemma write_data_out:
  assumes "good_group wg" and "is_close_group wg \<longrightarrow> b"
  shows "out_rel c (write_data env wg b c)"
proof (cases "output_ok c \<and> m_write_state c = write_enabled \<and> socket_is_open c")
  case True
  define c1 where "c1 = (if b then start_waiting_close_frame_only env
      (c\<lparr>m_close_frame_to_peer := False, m_close_frame_to_user := False, m_write_state := write_disabled\<rparr>)
    else c)"
  have same: "m_write_output_ctx c1 = m_write_output_ctx c" "m_outgoing_data c1 = m_outgoing_data c"
    "written c1 = written c" "writes_pending c1 = writes_pending c" "socket_is_open c1 = socket_is_open c"
    "m_close_impl c1 = m_close_impl c" "m_write_state c1 = (if b then write_disabled else write_enabled)"
    "m_close_frame_to_peer c1 \<longrightarrow> \<not> b"
    using True by (auto simp: c1_def start_waiting_close_frame_only_def guard_close_frame_from_peer_operation_def)
  have c: "group_written c1" "list_all good_group (m_outgoing_data c1)" "no_close (sent c1)"
    using True same(1-5) by (auto simp: output_ok_def group_written_def sent_def split: option.splits)
  have "closes_last (sent c1 @ [wg])" using c(3) by simp
  then obtain x q w n t where
    e: "init_write_if_necessary env (append_outgoing wg c1) = with_output x q w n t c1"
    and g: "group_written (with_output x q w n t c1)" "list_all good_group q" "closes_last (w @ q)"
      "no_close (sent c1 @ [wg]) \<longrightarrow> no_close (w @ q)"
      "n + of_bool (is_transmitting c1) = writes_pending c1 + of_bool (transmitting x)"
      "is_transmitting c1 \<longrightarrow> transmitting x" "socket_is_open c1 \<longrightarrow> w @ q = sent c1 @ [wg]"
    by (rule append_write [OF c(1,2) assms(1)])
  have "write_data env wg b c = init_write_if_necessary env (append_outgoing wg c1)"
    using True by (simp add: c1_def write_data_def write_data_impl_def)
  from trans [OF this e] have d: "write_data env wg b c = with_output x q w n t c1" .
  have "output_ok (with_output x q w n t c1)"
    using g(1-4) same(5-8) c(3) assms(2) True unfolding output_ok_def sent_def
    by (cases b) auto
  then show ?thesis
    using g(5,6) same(1,4) unfolding out_rel_def d by simp
qed (auto simp: write_data_def write_data_impl_def out_rel_def)

lemma send_close_out:
  "out_rel c (close_frame_to_peer_first (send_close_payload_to_peer env p) c)"
proof (cases "output_ok c \<and> m_close_frame_to_peer c")
  case True
  let ?wg = "[write_message_header final_frame connection_close_frame (length p), p]"
  define c1 where "c1 = c\<lparr>m_close_frame_to_peer := False\<rparr>"
  have same: "m_write_output_ctx c1 = m_write_output_ctx c" "m_outgoing_data c1 = m_outgoing_data c"
    "written c1 = written c" "writes_pending c1 = writes_pending c" "socket_is_open c1 = socket_is_open c"
    "m_close_impl c1 = m_close_impl c" "\<not> m_close_frame_to_peer c1" by (simp_all add: c1_def)
  have c: "group_written c1" "list_all good_group (m_outgoing_data c1)" "no_close (sent c1)"
    using True same(1-5) by (auto simp: output_ok_def group_written_def sent_def split: option.splits)
  have wg: "good_group ?wg" by (simp add: good_group_def)
  from c(3) have "closes_last (sent c1 @ [?wg])" by simp
  then obtain x q w n t where
    e: "init_write_if_necessary env (append_outgoing ?wg c1) = with_output x q w n t c1"
    and g: "group_written (with_output x q w n t c1)" "list_all good_group q" "closes_last (w @ q)"
      "no_close (sent c1 @ [?wg]) \<longrightarrow> no_close (w @ q)"
      "n + of_bool (is_transmitting c1) = writes_pending c1 + of_bool (transmitting x)"
      "is_transmitting c1 \<longrightarrow> transmitting x" "socket_is_open c1 \<longrightarrow> w @ q = sent c1 @ [?wg]"
    by (rule append_write [OF c(1,2) wg])
  have "close_frame_to_peer_first (send_close_payload_to_peer env p) c =
      (init_write_if_necessary env (append_outgoing ?wg c1))\<lparr>m_write_state := write_disabled\<rparr>"
    using True by (simp add: c1_def close_frame_to_peer_first_def send_close_payload_to_peer_def)
  then have d: "close_frame_to_peer_first (send_close_payload_to_peer env p) c =
      (with_output x q w n t c1)\<lparr>m_write_state := write_disabled\<rparr>" by (simp only: e)
  have "group_written ((with_output x q w n t c1)\<lparr>m_write_state := write_disabled\<rparr>)"
    using g(1) by (simp add: group_written_def split: option.splits)
  then have "output_ok ((with_output x q w n t c1)\<lparr>m_write_state := write_disabled\<rparr>)"
    using g(2,3) same(5-7) True unfolding output_ok_def sent_def by auto
  then show ?thesis using g(5,6) same(1,4) unfolding out_rel_def d by simp
qed (auto simp: close_frame_to_peer_first_def out_rel_def)

lemma send_close_waiting_out:
  "out_rel c (close_frame_to_peer_first
     (\<lambda>c. start_waiting_close_frame_only env (send_close_frame_to_peer env code c)) c)"
proof -
  have "close_frame_to_peer_first
      (\<lambda>c. start_waiting_close_frame_only env (send_close_frame_to_peer env code c)) c =
    (if m_close_frame_to_peer c
     then start_waiting_close_frame_only env (close_frame_to_peer_first
       (send_close_payload_to_peer env (status_code_to_bin code)) c) else c)"
    by (simp add: close_frame_to_peer_first_def send_close_frame_to_peer_def)
  then show ?thesis using out_rel_trans [OF send_close_out waiting_out] by simp
qed

lemma ws_shutdown_out: "out_rel c (ws_shutdown env c)"
proof (cases "ws_has_connection c")
  case True
  have "out_rel c (c\<lparr>ws_has_connection := False, m_close_frame_to_user := False\<rparr>)" by (rule out_rel_same) simp_all
  from out_rel_trans [OF this send_close_waiting_out] True show ?thesis
    by (simp add: ws_shutdown_def shutdown_connection_def graceful_close_def)
qed (simp add: ws_shutdown_def)

lemma ws_kill_out: "out_rel c (ws_kill c)"
proof (cases "ws_has_connection c")
  case True
  have "out_rel c (c\<lparr>ws_has_connection := False, m_close_frame_to_user := False, m_close_frame_to_peer := False\<rparr>)"
    by (rule out_rel_same) simp_all
  from out_rel_trans [OF this close_impl_out] True show ?thesis
    by (simp add: ws_kill_def kill_connection_def)
qed (simp add: ws_kill_def)

lemma ws_send_message_out:
  assumes "ws_send_message env fin op p c = Inr d" and "named_action (SendMessage fin op p)"
  shows "out_rel c d"
proof -
  have close: "code_of_opcode op AND 0x0F = 0x08 \<longleftrightarrow> op = connection_close_frame"
    using assms(2) by (cases op) auto
  have wg: "good_group [write_message_header fin op (length p), p]" by (simp add: good_group_def)
  have "out_rel c (c\<lparr>ws_has_connection := False\<rparr>)" by (rule out_rel_same) simp_all
  from write_data_out [OF wg, of True c env] out_rel_trans [OF this write_data_out [OF wg]]
    write_data_out [OF wg, of False c env] assms(1)
  show ?thesis by (auto simp: ws_send_message_def Let_def is_close_header close split: if_splits)
qed

lemma handler_actions_out: "list_all named_action as \<Longrightarrow> out_rel c (handler_actions env as c)"
proof (induction env as c rule: handler_actions.induct)
  case (2 env fin op p as c)
  show ?case
  proof (cases "ws_send_message env fin op p c")
    case (Inr d)
    from out_rel_trans [OF ws_send_message_out [OF Inr] "2.IH" [OF Inr]] "2.prems" show ?thesis
      by (simp add: Inr)
  qed simp
next
  case (3 env as c)
  from out_rel_trans [OF ws_shutdown_out "3.IH"] "3.prems" show ?case by simp
next
  case (4 env as c)
  from out_rel_trans [OF ws_kill_out "4.IH"] "4.prems" show ?case by simp
next
  case (5 env as c)
  have "out_rel c (c\<lparr>ws_referenced := False\<rparr>)" by (rule out_rel_same) simp_all
  from out_rel_trans [OF this "5.IH"] "5.prems" show ?case by simp
qed simp

text \<open>An application that only sends opcodes with names.\<close>

definition named_handler :: "ws_env \<Rightarrow> bool" where
  "named_handler env \<longleftrightarrow> (\<forall>ms. list_all named_action (m_msg_handler env ms))"

lemma destroy_ws_out: "out_rel c (destroy_ws env c)"
  by (simp add: destroy_ws_def ws_shutdown_out)

lemma call_message_handler_out: "named_handler env \<Longrightarrow> out_rel c (call_message_handler env m c)"
proof -
  assume "named_handler env"
  then have a: "list_all named_action (m_msg_handler env ms)" for ms by (simp add: named_handler_def)
  have "out_rel c (c\<lparr>handler_calls := handler_calls c @ [m]\<rparr>)" by (rule out_rel_same) simp_all
  from out_rel_trans [OF out_rel_trans [OF this handler_actions_out [OF a]] destroy_ws_out]
  show ?thesis by (simp add: call_message_handler_def Let_def)
qed

lemma call_close_handler_out: "named_handler env \<Longrightarrow> out_rel c (call_close_handler_if_necessary env st c)"
proof -
  assume "named_handler env"
  have "out_rel c (c\<lparr>m_close_frame_to_user := False\<rparr>)" by (rule out_rel_same) simp_all
  from out_rel_trans [OF this call_message_handler_out [OF \<open>named_handler env\<close>]]
  show ?thesis by (simp add: call_close_handler_if_necessary_def)
qed

lemma trigger_error_out: "named_handler env \<Longrightarrow> out_rel c (trigger_error_and_close env st c)"
  unfolding trigger_error_and_close_def by (rule out_rel_trans [OF call_close_handler_out close_impl_out])

text \<open>Fields that have nothing to do with the output.\<close>

lemma output_ok_updates [simp]:
  "output_ok (c\<lparr>m_parser := x0\<rparr>) = output_ok c"
  "output_ok (c\<lparr>m_buf := x1\<rparr>) = output_ok c"
  "output_ok (c\<lparr>m_payload := x2\<rparr>) = output_ok c"
  "output_ok (c\<lparr>m_protocol_validator := x3\<rparr>) = output_ok c"
  "output_ok (c\<lparr>m_read_state := x4\<rparr>) = output_ok c"
  "output_ok (c\<lparr>m_timer_scheduled := x5\<rparr>) = output_ok c"
  "output_ok (c\<lparr>reads_pending := x6\<rparr>) = output_ok c"
  "output_ok (c\<lparr>steady_clock := x7\<rparr>) = output_ok c"
  "output_ok (c\<lparr>m_websocket_weak_handle := x8\<rparr>) = output_ok c"
  by (auto simp: output_ok_def group_written_def sent_def split: option.splits)

lemma out_rel_updates [simp]:
  "out_rel (c\<lparr>m_parser := x0\<rparr>) d = out_rel c d" "out_rel c (d\<lparr>m_parser := x0\<rparr>) = out_rel c d"
  "out_rel (c\<lparr>m_buf := x1\<rparr>) d = out_rel c d" "out_rel c (d\<lparr>m_buf := x1\<rparr>) = out_rel c d"
  "out_rel (c\<lparr>m_payload := x2\<rparr>) d = out_rel c d" "out_rel c (d\<lparr>m_payload := x2\<rparr>) = out_rel c d"
  "out_rel (c\<lparr>m_protocol_validator := x3\<rparr>) d = out_rel c d" "out_rel c (d\<lparr>m_protocol_validator := x3\<rparr>) = out_rel c d"
  "out_rel (c\<lparr>m_read_state := x4\<rparr>) d = out_rel c d" "out_rel c (d\<lparr>m_read_state := x4\<rparr>) = out_rel c d"
  "out_rel (c\<lparr>m_timer_scheduled := x5\<rparr>) d = out_rel c d" "out_rel c (d\<lparr>m_timer_scheduled := x5\<rparr>) = out_rel c d"
  "out_rel (c\<lparr>reads_pending := x6\<rparr>) d = out_rel c d" "out_rel c (d\<lparr>reads_pending := x6\<rparr>) = out_rel c d"
  "out_rel (c\<lparr>steady_clock := x7\<rparr>) d = out_rel c d" "out_rel c (d\<lparr>steady_clock := x7\<rparr>) = out_rel c d"
  "out_rel (c\<lparr>m_websocket_weak_handle := x8\<rparr>) d = out_rel c d" "out_rel c (d\<lparr>m_websocket_weak_handle := x8\<rparr>) = out_rel c d"
  by (simp_all add: out_rel_def)

lemma to_peer_send_code:
  "out_rel c (close_frame_to_peer_first (send_close_frame_to_peer env code) c)"
proof -
  have "send_close_frame_to_peer env code = send_close_payload_to_peer env (status_code_to_bin code)"
    by (rule ext) (simp add: send_close_frame_to_peer_def)
  then show ?thesis by (simp add: send_close_out)
qed

lemma handle_invalid_payload_out:
  assumes "named_handler env"
  shows "out_rel c (handle_invalid_payload env st c)"
  using out_rel_trans [OF to_peer_send_code call_close_handler_out [OF assms]]
    out_rel_trans [OF send_close_waiting_out call_close_handler_out [OF assms]] close_impl_out
  by (simp add: handle_invalid_payload_def split: read_state_t.split)

lemma current_message_out:
  assumes "named_handler env"
  shows "out_rel c (snd (call_handler_on_current_message env c))"
proof -
  obtain st v where f: "finish_frame (m_protocol_validator c) = (st, v)" by (cases "finish_frame (m_protocol_validator c)")
  let ?c = "c\<lparr>m_protocol_validator := v\<rparr>"
  have u: "out_rel ?c (?c\<lparr>m_close_frame_to_user := False\<rparr>)" by (rule out_rel_same) simp_all
  note h = call_message_handler_out [OF assms]
  let ?d = "close_frame_to_peer_first (send_close_payload_to_peer env (m_payload c)) (?c\<lparr>m_close_frame_to_user := False\<rparr>)"
  let ?e = "?d\<lparr>m_read_state := read_nothing, m_payload := []\<rparr>"
  have d: "out_rel c ?d" using out_rel_trans [OF u send_close_out] by simp
  have "out_rel c (call_message_handler env m ?e)" for m
    using out_rel_trans [OF d, of "call_message_handler env m ?e"] h [of ?e m] by simp
  moreover have "out_rel c (call_message_handler env m (?c\<lparr>m_payload := []\<rparr>))" for m
    using h [of "?c\<lparr>m_payload := []\<rparr>" m] by simp
  moreover have "out_rel c (handle_invalid_payload env st ?c)"
    using handle_invalid_payload_out [OF assms, of ?c st] by simp
  moreover have "out_rel c (close_impl (?c\<lparr>m_timer_scheduled := False\<rparr>))"
    using close_impl_out [of "?c\<lparr>m_timer_scheduled := False\<rparr>"] by simp
  ultimately show ?thesis
    by (auto simp: call_handler_on_current_message_def Let_def f)
qed

lemma validate_part_out:
  assumes "named_handler env"
  shows "case validate_payload_part env pos len rest c of Inl r \<Rightarrow> out_rel c (snd r) | Inr d \<Rightarrow> out_rel c d"
proof -
  have "out_rel c (handle_invalid_payload env st (c\<lparr>m_payload := p, m_protocol_validator := v\<rparr>))" for st p v
    using handle_invalid_payload_out [OF assms, of "c\<lparr>m_payload := p, m_protocol_validator := v\<rparr>" st] by simp
  then show ?thesis
    by (auto simp: validate_payload_part_def Let_def start_read_payload_def split: sum.split prod.split)
qed

lemma valid_header_out:
  assumes "named_handler env"
  shows "out_rel c (snd (handle_parsed_and_valid_header env md c))"
proof -
  let ?n = "unat (payload_len md)"
  let ?k = "min (length (m_buf c)) ?n"
  let ?c = "consumed_bytes ?k (c\<lparr>m_payload := overwrite 0 (take ?k (m_buf c)) (replicate ?n 0)\<rparr>)"
  have c: "out_rel c d \<longleftrightarrow> out_rel ?c d" for d by (simp add: consumed_bytes_def)
  show ?thesis
  proof (cases "?n = 0")
    case True
    then show ?thesis using current_message_out [OF assms, of "c\<lparr>m_payload := []\<rparr>"]
      by (simp add: handle_parsed_and_valid_header_def Let_def)
  next
    case False
    then show ?thesis
      using validate_part_out [OF assms, where c = ?c and pos = 0 and len = ?k and rest = "?n - ?k"] out_rel_trans [OF _ current_message_out [OF assms]]
      unfolding c
      by (auto simp: handle_parsed_and_valid_header_def Let_def start_read_payload_def consumed_bytes_def split: sum.splits)
  qed
qed

lemma parsed_header_out:
  assumes "named_handler env"
  shows "out_rel c (snd (handle_parsed_header env md c))"
proof -
  let ?c = "\<lambda>v. c\<lparr>m_protocol_validator := v\<rparr>"
  have "out_rel c (call_close_handler_if_necessary env 1002
      (close_frame_to_peer_first (send_close_frame_to_peer env 1002) (?c v)))" for v
    using out_rel_trans [OF to_peer_send_code call_close_handler_out [OF assms], of "?c v"] by simp
  moreover have "out_rel c (close_impl (?c v))" for v using close_impl_out [of "?c v"] by simp
  moreover have "out_rel c (snd (handle_parsed_and_valid_header env md (?c v)))" for v
    using valid_header_out [OF assms, of "?c v" md] by simp
  ultimately show ?thesis
    by (auto simp: handle_parsed_header_def Let_def split: sum.split prod.split read_state_t.split)
qed

lemma header_buffer_out:
  assumes "named_handler env"
  shows "out_rel c (snd (consume_header_from_buffer env c))"
proof -
  have "out_rel c (snd (handle_parsed_header env md (consumed_bytes n (c\<lparr>m_parser := p\<rparr>))))" for md n p
    using parsed_header_out [OF assms, of "consumed_bytes n (c\<lparr>m_parser := p\<rparr>)" md] by (simp add: consumed_bytes_def)
  then show ?thesis
    by (auto simp: consume_header_from_buffer_def Let_def consume_header_from_socket_def consumed_bytes_def
        split: sum.split prod.split)
qed

lemma read_header_out:
  "named_handler env \<Longrightarrow> out_rel c (snd (start_read_header env c))"
proof (induction env c rule: start_read_header.induct)
  case (1 env c)
  let ?c = "reset_parser_and_payload c"
  have r: "out_rel ?c d = out_rel c d" for d by (simp add: reset_parser_and_payload_def)
  have once: "out_rel c (snd (read_header_once env c))"
    using header_buffer_out [OF 1(2), of ?c]
    by (auto simp: read_header_once_def r Let_def consume_header_from_socket_def reset_parser_and_payload_def)
  obtain fl d where d: "read_header_once env c = (fl, d)" by (cases "read_header_once env c")
  with once have "out_rel c d" by simp
  then show ?case
    using 1 d out_rel_trans by (subst start_read_header.simps) (auto split: flow.split)
qed

lemma go_on_out: "named_handler env \<Longrightarrow> out_rel c (snd r) \<Longrightarrow> out_rel c (snd (go_on env r))"
  using out_rel_trans read_header_out by (auto simp: go_on_def split: prod.split)

lemma guarded_out: "named_handler env \<Longrightarrow> out_rel c (snd r) \<Longrightarrow> out_rel c (guarded env r)"
  using out_rel_trans trigger_error_out by (auto simp: guarded_def split: prod.split)

lemma after_read_payload_out:
  assumes "named_handler env"
  shows "out_rel c (snd (after_read_payload env pos n v data c))"
proof -
  let ?c = "c\<lparr>m_payload := overwrite pos data (m_payload c)\<rparr>"
  have c: "out_rel c d \<longleftrightarrow> out_rel ?c d" for d by simp
  show ?thesis
    unfolding after_read_payload_def Let_def
    using validate_part_out [OF assms, where c = ?c and pos = pos and len = "length data" and rest = "n - length data"]
      out_rel_trans [OF _ current_message_out [OF assms]]
    by (intro go_on_out [OF assms]) (auto simp: start_read_payload_def split: sum.split)
qed

text \<open>The invariant between two events: a write is pending exactly while a group is in progress.\<close>

definition output_inv :: "ws_connection_t \<Rightarrow> bool" where
  "output_inv c \<longleftrightarrow> output_ok c \<and> writes_pending c = of_bool (is_transmitting c)"

lemma output_inv_rel: "output_inv c \<Longrightarrow> out_rel c d \<Longrightarrow> output_inv d"
  by (auto simp: output_inv_def out_rel_def)

lemma current_written:
  assumes "output_ok c" and "is_transmitting c"
  obtains g i where "m_write_output_ctx c = \<lparr>m_current_wg = Some g, m_next_writable_item_index = i\<rparr>" "length g \<le> i"
  using assms by (cases c rule: ctx_cases) (auto simp: output_ok_def group_written_def transmitting_def)

text \<open>A write that ends well starts the next group, if there is one.\<close>

lemma after_write_ok:
  assumes "output_inv c" and "0 < writes_pending c"
  shows "output_inv (on_event env WriteDone c)" and "sent (on_event env WriteDone c) = sent c"
    and "m_outgoing_data (on_event env WriteDone c) = tl (m_outgoing_data c)"
    and "writes_pending (on_event env WriteDone c) = of_bool (m_outgoing_data c \<noteq> [])"
    and "socket_is_open (on_event env WriteDone c) = socket_is_open c"
proof -
  have t: "is_transmitting c" "writes_pending c = 1" using assms by (auto simp: output_inv_def split: if_splits)
  from current_written [OF _ t(1)] assms(1) obtain g i where
    gi: "m_write_output_ctx c = \<lparr>m_current_wg = Some g, m_next_writable_item_index = i\<rparr>" "length g \<le> i"
    by (auto simp: output_inv_def)
  have good: "list_all good_group (m_outgoing_data c)" using assms(1) by (simp add: output_inv_def output_ok_def)
  have "on_event env WriteDone c =
    (case m_outgoing_data c of
       [] \<Rightarrow> c\<lparr>writes_pending := 0, m_write_output_ctx := \<lparr>m_current_wg = None, m_next_writable_item_index = 0\<rparr>\<rparr>
     | h # rest \<Rightarrow>
         c\<lparr>m_write_output_ctx := \<lparr>m_current_wg = Some h, m_next_writable_item_index = length h\<rparr>,
           m_write_operation_timeout_after := steady_clock c + m_write_http_response_timelimit env,
           m_outgoing_data := rest, writes_pending := 1, written := written c @ [h]\<rparr>)"
    using gi good t(2)
    by (subst on_event.simps) (simp add: after_write_def write_completed_def write_next split: list.split)
  then show "output_inv (on_event env WriteDone c)" "sent (on_event env WriteDone c) = sent c"
    "m_outgoing_data (on_event env WriteDone c) = tl (m_outgoing_data c)"
    "writes_pending (on_event env WriteDone c) = of_bool (m_outgoing_data c \<noteq> [])"
    "socket_is_open (on_event env WriteDone c) = socket_is_open c"
    using assms(1)
    by (auto simp: output_inv_def output_ok_def group_written_def sent_def transmitting_def split: list.split)
qed

lemma close_impl_closes: "output_ok c \<Longrightarrow> \<not> socket_is_open (close_impl c)"
  by (auto simp: close_impl_def output_ok_def)

lemma after_write_fails:
  assumes "output_inv c" and "0 < writes_pending c" and "named_handler env"
  shows "output_inv (on_event env WriteFails c)"
proof -
  let ?c = "write_completed c"
  let ?d = "trigger_error_and_close env 1006 ?c"
  have t: "is_transmitting c" "writes_pending c = 1" using assms(1,2) by (auto simp: output_inv_def split: if_splits)
  have c: "output_ok ?c" "is_transmitting ?c" "writes_pending ?c = 0"
    using assms(1) t by (auto simp: output_inv_def output_ok_def write_completed_def group_written_def sent_def split: option.splits)
  have d: "output_ok ?d" "writes_pending ?d = 0"
    using trigger_error_out [OF assms(3), of ?c 1006] c by (auto simp: out_rel_def)
  have "output_ok (call_close_handler_if_necessary env 1006 ?c)"
    using call_close_handler_out [OF assms(3), of ?c 1006] c(1) by (simp add: out_rel_def)
  then have "\<not> socket_is_open ?d" unfolding trigger_error_and_close_def by (rule close_impl_closes)
  with d show ?thesis
    by (auto simp: after_write_def Let_def output_inv_def output_ok_def group_written_def fail_write_group_def
        transmitting_def sent_def)
qed

lemma check_timeout_out:
  assumes "named_handler env"
  shows "out_rel c (check_timeout env c)"
proof -
  have "out_rel c (c\<lparr>m_close_frame_to_peer := False\<rparr>)" by (rule out_rel_same) simp_all
  from out_rel_trans [OF out_rel_trans [OF this call_close_handler_out [OF assms]] close_impl_out] close_impl_out
  show ?thesis by (simp add: check_timeout_def Let_def)
qed

lemma on_event_output:
  assumes "output_inv c" and "enabled e c" and "named_handler env"
  shows "output_inv (on_event env e c)"
proof -
  have r: "out_rel (read_completed c) d \<longleftrightarrow> out_rel c d" for d by (simp add: read_completed_def)
  note g = output_inv_rel [OF assms(1)]
  show ?thesis
  proof (cases e)
    case (HeaderRead data)
    have "out_rel (read_completed c) (snd (after_read_header env data (read_completed c)))"
      unfolding after_read_header_def
      using header_buffer_out [OF assms(3), of "obtained_bytes data (read_completed c)"]
      by (intro go_on_out [OF assms(3)]) (simp add: obtained_bytes_def)
    then show ?thesis using g guarded_out [OF assms(3)] by (simp add: HeaderRead r)
  next
    case (PayloadRead data)
    have "out_rel c (guarded env (after_read_payload env pos n v data (read_completed c)))" for pos n v
      using guarded_out [OF assms(3) after_read_payload_out [OF assms(3)], of "read_completed c" pos n v data] by (simp add: r)
    then show ?thesis using g assms(1) by (auto simp: PayloadRead split: list.split read_operation_t.split)
  next
    case ReadFails
    have "out_rel c (handle_read_error env (read_completed c))"
      using trigger_error_out [OF assms(3), of "read_completed c" 1006] by (simp add: handle_read_error_def r)
    then show ?thesis using g by (simp add: ReadFails)
  next
    case WriteDone
    then show ?thesis using after_write_ok(1) [OF assms(1)] assms(2) by (simp add: enabled_def del: on_event.simps)
  next
    case WriteFails
    then show ?thesis using after_write_fails [OF assms(1) _ assms(3)] assms(2) by (simp add: enabled_def del: on_event.simps)
  next
    case CheckTimeout
    then show ?thesis using g check_timeout_out [OF assms(3), of "c\<lparr>m_timer_scheduled := False\<rparr>"] by simp
  next
    case (Tick n)
    then show ?thesis using g by simp
  next
    case (Action a)
    then have "list_all named_action [a]" using assms(2) by (simp add: enabled_def)
    from out_rel_trans [OF handler_actions_out [OF this] destroy_ws_out] g show ?thesis by (simp add: Action)
  qed
qed

lemma upgrade_output:
  assumes "named_handler env"
  shows "output_inv (upgrade env response u)"
proof -
  have "output_inv (ws_connection_start u)"
    by (simp add: output_inv_def output_ok_def ws_connection_start_def group_written_def sent_def transmitting_def closes_last_def)
  moreover have "out_rel c (init_read env c)" for c
    using guarded_out [OF assms read_header_out [OF assms], of "c\<lparr>m_timer_scheduled := True, m_websocket_weak_handle := True, m_read_state := read_any_frame\<rparr>"]
    by (simp add: init_read_def)
  moreover have "out_rel (ws_connection_start u) (write_data env [response] False (ws_connection_start u))"
    by (rule write_data_out) (simp_all add: good_group_def is_close_group_def)
  ultimately show ?thesis unfolding upgrade_def using output_inv_rel by blast
qed

lemma ws_reach_output:
  assumes "ws_reach allow env c" and "named_handler env" and "\<And>e c. allow e c \<Longrightarrow> enabled e c"
  shows "output_inv c"
  using assms(1)
proof (induction rule: ws_reach.induct)
  case (ws_upgraded response u)
  show ?case by (rule upgrade_output [OF assms(2)])
next
  case (ws_stepped c e)
  from on_event_output [OF ws_stepped(3) assms(3) [OF ws_stepped(2)] assms(2)] show ?case .
qed

section \<open>The pending read\<close>

text \<open>
  A parser that takes the next byte, and a validator whose expected close code is not longer than
  two bytes.
\<close>

definition parser_ready :: "ws_parser_t \<Rightarrow> bool" where
  "parser_ready p \<longleftrightarrow> header_parsed p \<or> 0 < missing p"

definition close_code_ok :: "ws_protocol_validator_t \<Rightarrow> bool" where
  "close_code_ok v \<longleftrightarrow> length (m_loaded_data (m_expected_close_code v)) \<le> m_expected_size (m_expected_close_code v)"

lemma dispatch_ready: "\<not> header_parsed p \<Longrightarrow> parser_ready (dispatch p)"
proof -
  assume "\<not> header_parsed p"
  moreover have "parser_ready (process_first_2_bytes p)"
    by (simp add: process_first_2_bytes_def Let_def parser_ready_def header_parsed_def missing_def
        expect_def reset_expected_def)
  moreover have "parser_ready (process_extended_length p)"
    by (simp add: process_extended_length_def Let_def parser_ready_def header_parsed_def missing_def
        expect_def reset_expected_def)
  moreover have "parser_ready (process_masking_key p)"
    by (simp add: process_masking_key_def parser_ready_def header_parsed_def)
  ultimately show ?thesis
    by (cases "m_current_state p") (simp_all add: dispatch_def header_parsed_def)
qed

lemma header_byte_ready:
  assumes "parser_ready p" and "\<not> header_parsed p"
  shows "\<exists>q. process_header_byte b p = Inr q \<and> parser_ready q"
proof -
  have m: "0 < missing p" using assms by (simp add: parser_ready_def)
  have n: "\<not> header_parsed (load [b] p)" using assms(2) by (simp add: header_parsed_def)
  have "missing p \<noteq> 1 \<Longrightarrow> 0 < missing (load [b] p)" using m by simp
  then have "parser_ready (if missing p = 1 then dispatch (load [b] p) else load [b] p)"
    using dispatch_ready [OF n] by (simp add: parser_ready_def)
  with process_header_byte_eq [OF m] show ?thesis by blast
qed

lemma parser_loop_ready:
  "parser_ready p \<Longrightarrow> \<exists>k q. parser_loop n data p = Inr (k, q) \<and> parser_ready q \<and>
     (\<not> header_parsed q \<longrightarrow> k = n + length data)"
proof (induction data arbitrary: n p)
  case (Cons b data)
  show ?case
  proof (cases "header_parsed p")
    case True
    then show ?thesis using Cons.prems by (simp add: header_parsed_def)
  next
    case False
    with header_byte_ready [OF Cons.prems, of b] obtain q where
      q: "process_header_byte b p = Inr q" "parser_ready q" by blast
    from Cons.IH [OF q(2), of "Suc n"] q(1) False show ?thesis by (auto simp: header_parsed_def)
  qed
qed auto

lemma new_frame_working:
  assumes "m_working_state v = empty_state" and "close_code_ok v"
  shows "\<exists>st w. process_new_frame md v = Inr (st, w) \<and> close_code_ok w \<and>
    m_working_state w = (if st = frame_header_is_valid then processing_frame else empty_state)"
proof (cases "header_allowed (m_previous_data_frame v) md")
  case True
  from process_new_frame_allowed [OF assms(1) True] show ?thesis using assms(2)
    by (auto simp: accept_frame_def close_code_ok_def reset_expected_def Let_def split: opcode_t.split)
next
  case False
  from process_new_frame_refused [OF assms(1) False] show ?thesis using assms
    by (auto simp: close_code_ok_def)
qed

lemma check_utf8_keeps:
  "m_expected_close_code (check_utf8 b v) = m_expected_close_code v" "m_working_state (check_utf8 b v) = m_working_state v"
  by (simp_all add: check_utf8_def Let_def split: prod.split)

lemma validate_close_code_keeps:
  "m_expected_close_code (validate_close_code k v) = m_expected_close_code v"
  "m_working_state (validate_close_code k v) = m_working_state v"
  by (simp_all add: validate_close_code_def)

lemma payload_byte_working:
  assumes "close_code_ok v"
  shows "\<exists>c w. process_payload_byte b v = Inr (c, w) \<and> close_code_ok w \<and> m_working_state w = m_working_state v"
proof -
  obtain c v' where u: "(if m_unmask_flag v
      then (case unmask_byte b (m_unmasker v) of (b, u) \<Rightarrow> (b, v\<lparr>m_unmasker := u\<rparr>)) else (b, v)) = (c, v')"
    and v': "m_expected_close_code v' = m_expected_close_code v" "m_working_state v' = m_working_state v"
    by (cases "m_unmask_flag v"; cases "unmask_byte b (m_unmasker v)") auto
  obtain e where e: "m_expected_close_code v = e" by blast
  have len: "length (m_loaded_data e) \<le> m_expected_size e" using assms e by (simp add: close_code_ok_def)
  have add: "\<exists>full e'. add_byte_and_check_size c e = Inr (full, e') \<and> length (m_loaded_data e') \<le> m_expected_size e'"
    if "\<not> all_bytes_loaded e"
    using that len by (auto simp: add_byte_and_check_size_def all_bytes_loaded_def Let_def)
  show ?thesis
  proof (cases "m_opcode (m_current_frame v') = connection_close_frame \<and> \<not> all_bytes_loaded e")
    case True
    with add obtain full e' where a: "add_byte_and_check_size c e = Inr (full, e')" "length (m_loaded_data e') \<le> m_expected_size e'"
      by blast
    then show ?thesis
      using True unfolding process_payload_byte_def u
      by (simp add: v' e close_code_ok_def validate_close_code_keeps Let_def)
  next
    case False
    then show ?thesis
      using len unfolding process_payload_byte_def u
      by (auto simp: v' e close_code_ok_def check_utf8_keeps)
  qed
qed

lemma payload_loop_working:
  assumes "close_code_ok v"
  shows "\<exists>out w. payload_loop data v = Inr (out, w) \<and> close_code_ok w \<and> m_working_state w = m_working_state v \<and>
    length out = length data"
  using assms
proof (induction data arbitrary: v)
  case (Cons b data)
  from payload_byte_working [OF Cons.prems, of b] obtain c v' where
    v': "process_payload_byte b v = Inr (c, v')" "close_code_ok v'" "m_working_state v' = m_working_state v" by blast
  from Cons.IH [OF v'(2)] obtain out w where
    "payload_loop data v' = Inr (out, w)" "close_code_ok w" "m_working_state w = m_working_state v'"
    "length out = length data" by blast
  then show ?case using v' by (cases "m_validation_state v' = payload_part_is_valid") auto
qed auto

lemma payload_part_working:
  assumes "m_working_state v = processing_frame" and "close_code_ok v"
  shows "\<exists>st out w. process_and_unmask_next_payload_part data v = Inr (st, out, w) \<and> close_code_ok w \<and>
    m_working_state w = processing_frame \<and> length out = length data"
proof -
  have "close_code_ok (set_validation_state payload_part_is_valid v)" using assms(2) by (simp add: close_code_ok_def)
  from payload_loop_working [OF this, of data] assms show ?thesis
    by (auto simp: process_and_unmask_next_payload_part_def)
qed

lemma finish_frame_working:
  assumes "close_code_ok v"
  shows "close_code_ok (snd (finish_frame v))" and "m_working_state (snd (finish_frame v)) = empty_state"
  using assms by (simp_all add: finish_frame_def close_code_ok_def Let_def)

definition read_fits :: "read_operation_t list \<Rightarrow> raw_data_t \<Rightarrow> ws_parser_t \<Rightarrow> raw_data_t \<Rightarrow> working_state_t \<Rightarrow> bool" where
  "read_fits rs buf p payload w \<longleftrightarrow> rs = [] \<or>
     rs = [ReadHeader] \<and> buf = [] \<and> w = empty_state \<and> \<not> header_parsed p \<and> parser_ready p \<or>
     (\<exists>pos n v. rs = [ReadPayload pos n v] \<and> buf = [] \<and> 0 < n \<and> pos + n = length payload \<and>
        w = (if v then processing_frame else empty_state))"

definition input_ok :: "ws_connection_t \<Rightarrow> bool" where
  "input_ok c \<longleftrightarrow> close_code_ok (m_protocol_validator c) \<and>
     read_fits (reads_pending c) (m_buf c) (m_parser c) (m_payload c) (m_working_state (m_protocol_validator c))"

text \<open>Before a header is read, and what a step of a callback establishes.\<close>

definition header_next :: "ws_connection_t \<Rightarrow> bool" where
  "header_next c \<longleftrightarrow> close_code_ok (m_protocol_validator c) \<and> reads_pending c = [] \<and>
     m_working_state (m_protocol_validator c) = empty_state"

definition flow_ok :: "ws_env \<Rightarrow> flow \<times> ws_connection_t \<Rightarrow> bool" where
  "flow_ok env r \<longleftrightarrow>
     (case r of
        (Again, c) \<Rightarrow> header_next c
      | (Stop, c) \<Rightarrow> input_ok c
      | (Throw, c) \<Rightarrow> (\<exists>n. \<not> resize_succeeds env n) \<and> input_ok c)"

lemma same_input_ok: "same_input c d \<Longrightarrow> input_ok d = input_ok c" "same_input c d \<Longrightarrow> header_next d = header_next c"
  by (simp_all add: same_input_def input_ok_def header_next_def)

lemma header_next_ok: "header_next c \<Longrightarrow> input_ok c"
  by (simp add: header_next_def input_ok_def read_fits_def)

lemma current_message_flow:
  assumes "close_code_ok (m_protocol_validator c)" and "reads_pending c = []"
  shows "flow_ok env (call_handler_on_current_message env c)"
proof -
  obtain st v where f: "finish_frame (m_protocol_validator c) = (st, v)" by (cases "finish_frame (m_protocol_validator c)")
  with finish_frame_working [OF assms(1)] have v: "close_code_ok v" "m_working_state v = empty_state" by simp_all
  let ?c = "c\<lparr>m_protocol_validator := v\<rparr>"
  have c: "header_next ?c" using v assms(2) by (simp add: header_next_def)
  have p: "same_input d (close_frame_to_peer_first (send_close_payload_to_peer env p) d)" for d p
    by (rule to_peer_first_input) (rule send_close_input)
  let ?d = "close_frame_to_peer_first (send_close_payload_to_peer env (m_payload c)) (?c\<lparr>m_close_frame_to_user := False\<rparr>)"
  have "header_next (?d\<lparr>m_read_state := read_nothing, m_payload := []\<rparr>)"
    using same_input_ok(2) [OF p, of "m_payload c" "?c\<lparr>m_close_frame_to_user := False\<rparr>"] c by (simp add: header_next_def)
  then have "header_next (call_message_handler env m (?d\<lparr>m_read_state := read_nothing, m_payload := []\<rparr>))" for m
    using same_input_ok(2) [OF call_message_handler_input] by simp
  moreover have "header_next (call_message_handler env m (?c\<lparr>m_payload := []\<rparr>))" for m
    using same_input_ok(2) [OF call_message_handler_input, of env m "?c\<lparr>m_payload := []\<rparr>"] c by (simp add: header_next_def)
  moreover have "header_next (handle_invalid_payload env st ?c)"
    using same_input_ok(2) [OF handle_invalid_payload_input, of env st ?c] c by simp
  moreover have "header_next (close_impl (?c\<lparr>m_timer_scheduled := False\<rparr>))"
    using same_input_ok(2) [OF close_impl_input, of "?c\<lparr>m_timer_scheduled := False\<rparr>"] c by (simp add: header_next_def)
  ultimately show ?thesis using c header_next_ok
    by (auto simp: call_handler_on_current_message_def Let_def f flow_ok_def)
qed

lemma length_overwrite [simp]: "pos + length d \<le> length s \<Longrightarrow> length (overwrite pos d s) = length s"
  by (simp add: overwrite_def)

lemma validate_part_flow:
  assumes "close_code_ok (m_protocol_validator c)" and "reads_pending c = []" and "m_buf c = [] \<or> rest = 0"
    and "m_working_state (m_protocol_validator c) = processing_frame" and "pos + len + rest = length (m_payload c)"
  shows "case validate_payload_part env pos len rest c of
      Inl r \<Rightarrow> flow_ok env r
    | Inr d \<Rightarrow> close_code_ok (m_protocol_validator d) \<and> reads_pending d = [] \<and> m_buf d = m_buf c \<and>
        m_working_state (m_protocol_validator d) = processing_frame \<and> length (m_payload d) = length (m_payload c)"
proof -
  let ?data = "take len (drop pos (m_payload c))"
  obtain st out w where w: "process_and_unmask_next_payload_part ?data (m_protocol_validator c) = Inr (st, out, w)"
    "close_code_ok w" "m_working_state w = processing_frame" "length out = length ?data"
    using payload_part_working [OF assms(4,1)] by blast
  have len: "length (overwrite pos out (m_payload c)) = length (m_payload c)" using w(4) assms(5) by simp
  let ?c = "c\<lparr>m_payload := overwrite pos out (m_payload c), m_protocol_validator := w\<rparr>"
  obtain d where d: "handle_invalid_payload env st ?c = d" "m_buf d = m_buf c" "reads_pending d = []"
    "m_protocol_validator d = w" "length (m_payload d) = length (m_payload c)"
    using handle_invalid_payload_input [of ?c env st] assms(2) len by (auto simp: same_input_def)
  have r: "close_code_ok (reset_validator w)" "m_working_state (reset_validator w) = empty_state"
    using w(2) by (simp_all add: close_code_ok_def reset_validator_def)
  show ?thesis
  proof (cases "st = payload_part_is_valid")
    case True
    then show ?thesis using w assms(2) len by (simp add: validate_payload_part_def Let_def)
  next
    case False
    then have *: "validate_payload_part env pos len rest c =
        Inl (if st = incorrect_utf8_data
             then (let e = d\<lparr>m_protocol_validator := reset_validator w\<rparr>
                   in if rest = 0 then (Again, e) else (Stop, start_read_payload (pos + len) rest False e))
             else (Stop, d))"
      using w(1) d(1,4)
      by (cases "st = incorrect_utf8_data") (simp_all add: validate_payload_part_def Let_def)
    have "input_ok d" using w(2) d by (simp add: input_ok_def read_fits_def)
    then show ?thesis unfolding * using r d assms(3,5)
      by (auto simp: flow_ok_def header_next_def start_read_payload_def input_ok_def read_fits_def Let_def)
  qed
qed

text \<open>A header whose payload is not empty.\<close>

lemma valid_header_eq:
  fixes md c
  defines "n \<equiv> unat (payload_len md)"
  defines "k \<equiv> min (length (m_buf c)) n"
  defines "c' \<equiv> consumed_bytes k (c\<lparr>m_payload := overwrite 0 (take k (m_buf c)) (replicate n 0)\<rparr>)"
  assumes "resize_succeeds env n" and "n \<noteq> 0"
  shows "handle_parsed_and_valid_header env md c =
    (case validate_payload_part env 0 k (n - k) c' of
       Inl r \<Rightarrow> r
     | Inr c \<Rightarrow> if n - k = 0 then call_handler_on_current_message env c
               else (Stop, start_read_payload k (n - k) True c))"
  using assms(4,5) unfolding n_def k_def c'_def
  by (simp add: handle_parsed_and_valid_header_def Let_def split: sum.split)

lemma valid_header_flow:
  assumes "close_code_ok (m_protocol_validator c)" and "reads_pending c = []"
    and "m_working_state (m_protocol_validator c) = processing_frame"
  shows "flow_ok env (handle_parsed_and_valid_header env md c)"
proof -
  define n where "n = unat (payload_len md)"
  define k where "k = min (length (m_buf c)) n"
  define c1 where "c1 = consumed_bytes k (c\<lparr>m_payload := overwrite 0 (take k (m_buf c)) (replicate n 0)\<rparr>)"
  have c1: "close_code_ok (m_protocol_validator c1)" "reads_pending c1 = []"
    "m_working_state (m_protocol_validator c1) = processing_frame" "0 + k + (n - k) = length (m_payload c1)"
    using assms by (simp_all add: c1_def consumed_bytes_def k_def)
  have b: "m_buf c1 = [] \<or> n - k = 0" by (simp add: c1_def consumed_bytes_def k_def min_def)
  show ?thesis
  proof (cases "resize_succeeds env n")
    case False
    then show ?thesis using assms
      by (auto simp: handle_parsed_and_valid_header_def Let_def flow_ok_def input_ok_def read_fits_def n_def)
  next
    case r: True
    show ?thesis
    proof (cases "n = 0")
      case True
      then show ?thesis using r current_message_flow [of "c\<lparr>m_payload := []\<rparr>"] assms
        by (simp add: handle_parsed_and_valid_header_def Let_def n_def)
    next
      case False
      have eq: "handle_parsed_and_valid_header env md c =
          (case validate_payload_part env 0 k (n - k) c1 of
             Inl r \<Rightarrow> r
           | Inr c \<Rightarrow> if n - k = 0 then call_handler_on_current_message env c
                     else (Stop, start_read_payload k (n - k) True c))"
        using valid_header_eq [of env md c] r False by (simp only: n_def k_def c1_def) simp
      note v = validate_part_flow [OF c1(1,2) b c1(3,4), of env]
      show ?thesis
      proof (cases "validate_payload_part env 0 k (n - k) c1")
        case (Inl r)
        then show ?thesis using v by (simp add: eq)
      next
        case (Inr d)
        with v have d: "close_code_ok (m_protocol_validator d)" "reads_pending d = []" "m_buf d = m_buf c1"
          "m_working_state (m_protocol_validator d) = processing_frame" "length (m_payload d) = length (m_payload c1)"
          by simp_all
        show ?thesis
        proof (cases "n - k = 0")
          case True
          then show ?thesis using current_message_flow [OF d(1,2)] Inr by (simp add: eq)
        next
          case False
          then have "m_buf d = []" using b d(3) by simp
          then have "flow_ok env (Stop, start_read_payload k (n - k) True d)"
            using False d c1(4) by (auto simp: flow_ok_def start_read_payload_def input_ok_def read_fits_def)
          then show ?thesis using False Inr by (simp add: eq)
        qed
      qed
    qed
  qed
qed

lemma parsed_header_flow:
  assumes "header_next c"
  shows "flow_ok env (handle_parsed_header env md c)"
proof -
  from assms have c: "close_code_ok (m_protocol_validator c)" "m_working_state (m_protocol_validator c) = empty_state"
    "reads_pending c = []" by (simp_all add: header_next_def)
  from new_frame_working [OF c(2,1), of md] obtain st w where
    w: "process_new_frame md (m_protocol_validator c) = Inr (st, w)" "close_code_ok w"
      "m_working_state w = (if st = frame_header_is_valid then processing_frame else empty_state)" by blast
  let ?c = "c\<lparr>m_protocol_validator := w\<rparr>"
  show ?thesis
  proof (cases "st = frame_header_is_valid")
    case True
    with w c valid_header_flow [of ?c env md] show ?thesis by (simp add: handle_parsed_header_def)
  next
    case False
    then have ok: "input_ok ?c" using w c by (simp add: input_ok_def read_fits_def)
    have "same_input d (close_frame_to_peer_first (send_close_frame_to_peer env code) d)" for d code
      by (rule to_peer_first_input) (simp add: send_close_frame_to_peer_def send_close_input)
    from same_input_trans [OF this call_close_handler_input] close_impl_input
    have "same_input ?c (call_close_handler_if_necessary env 1002
        (close_frame_to_peer_first (send_close_frame_to_peer env 1002) ?c))" "same_input ?c (close_impl ?c)" by blast+
    with ok same_input_ok(1) have "input_ok (call_close_handler_if_necessary env 1002
        (close_frame_to_peer_first (send_close_frame_to_peer env 1002) ?c))" "input_ok (close_impl ?c)" by blast+
    then show ?thesis using False w(1) ok
      by (auto simp: handle_parsed_header_def Let_def flow_ok_def split: read_state_t.split)
  qed
qed

lemma header_buffer_flow:
  assumes "header_next c" and "parser_ready (m_parser c)" and "m_buf c \<noteq> []"
  shows "flow_ok env (consume_header_from_buffer env c)"
proof -
  obtain k q where q: "parser_execute (m_buf c) (m_parser c) = Inr (k, q)" "parser_ready q"
    "\<not> header_parsed q \<longrightarrow> k = length (m_buf c)"
    using parser_loop_ready [OF assms(2), of 0 "m_buf c"] by (auto simp: parser_execute_def)
  let ?c = "consumed_bytes k (c\<lparr>m_parser := q\<rparr>)"
  have c: "header_next ?c" using assms(1) by (simp add: header_next_def consumed_bytes_def)
  show ?thesis
  proof (cases "header_parsed q")
    case True
    then show ?thesis using q(1) parsed_header_flow [OF c] by (simp add: consume_header_from_buffer_def)
  next
    case False
    then have "input_ok (consume_header_from_socket ?c)"
      using q c by (simp add: consume_header_from_socket_def input_ok_def read_fits_def header_next_def consumed_bytes_def)
    then show ?thesis using q(1) False by (simp add: consume_header_from_buffer_def flow_ok_def)
  qed
qed

lemma read_header_flow: "header_next c \<Longrightarrow> flow_ok env (start_read_header env c) \<and> fst (start_read_header env c) \<noteq> Again"
proof (induction env c rule: start_read_header.induct)
  case (1 env c)
  let ?c = "reset_parser_and_payload c"
  have c: "header_next ?c" "parser_ready (m_parser ?c)" "\<not> header_parsed (m_parser ?c)" "m_buf ?c = m_buf c"
    using 1(2) by (simp_all add: header_next_def reset_parser_and_payload_def parser_ready_def reset_parser_def
        missing_def reset_expected_def header_parsed_def)
  have "flow_ok env (read_header_once env c)"
  proof (cases "m_buf c = []")
    case True
    then show ?thesis using c
      by (simp add: read_header_once_def Let_def flow_ok_def consume_header_from_socket_def input_ok_def read_fits_def header_next_def)
  next
    case False
    then show ?thesis using header_buffer_flow [OF c(1,2)] c(4) by (simp add: read_header_once_def Let_def)
  qed
  moreover obtain fl d where d: "read_header_once env c = (fl, d)" by (cases "read_header_once env c")
  ultimately show ?case
    using 1(1) by (subst (1 2) start_read_header.simps) (auto simp: flow_ok_def split: flow.split)
qed

lemma flow_ok_simps:
  "flow_ok env (Again, c) = header_next c" "flow_ok env (Stop, c) = input_ok c"
  "flow_ok env (Throw, c) \<longleftrightarrow> (\<exists>n. \<not> resize_succeeds env n) \<and> input_ok c"
  by (simp_all add: flow_ok_def)

lemma go_on_flow:
  assumes "flow_ok env r"
  shows "flow_ok env (go_on env r) \<and> fst (go_on env r) \<noteq> Again"
proof -
  obtain fl c where r: "r = (fl, c)" by (cases r)
  show ?thesis
    using assms read_header_flow [of c env] by (cases fl) (simp_all add: r go_on_def flow_ok_simps)
qed

lemma trigger_error_input: "same_input c (trigger_error_and_close env st c)"
  unfolding trigger_error_and_close_def by (rule same_input_trans [OF call_close_handler_input close_impl_input])

lemma guarded_flow: "flow_ok env r \<Longrightarrow> fst r \<noteq> Again \<Longrightarrow> input_ok (guarded env r)"
  using same_input_ok(1) [OF trigger_error_input] by (cases r; cases "fst r") (auto simp: guarded_def flow_ok_def)

lemma read_cases:
  assumes "input_ok c"
  obtains "reads_pending c = []" "close_code_ok (m_protocol_validator c)"
  | "reads_pending c = [ReadHeader]" "m_buf c = []" "header_next (read_completed c)"
      "\<not> header_parsed (m_parser c)" "parser_ready (m_parser c)"
  | pos n v where "reads_pending c = [ReadPayload pos n v]" "m_buf c = []" "0 < n" "pos + n = length (m_payload c)"
      "close_code_ok (m_protocol_validator c)"
      "m_working_state (m_protocol_validator c) = (if v then processing_frame else empty_state)"
  using assms by (auto simp: input_ok_def read_fits_def header_next_def read_completed_def)

lemma header_read_flow:
  assumes "input_ok c" and "enabled (HeaderRead data) c"
  shows "flow_ok env (after_read_header env data (read_completed c)) \<and>
    fst (after_read_header env data (read_completed c)) \<noteq> Again"
  using assms(1)
proof (cases rule: read_cases)
  case 2
  let ?c = "obtained_bytes data (read_completed c)"
  have "header_next ?c" "parser_ready (m_parser ?c)" "m_buf ?c \<noteq> []"
    using 2 assms(2) by (simp_all add: header_next_def obtained_bytes_def read_completed_def enabled_def)
  from go_on_flow [OF header_buffer_flow [OF this]] show ?thesis by (simp add: after_read_header_def)
qed (use assms(2) in \<open>simp_all add: enabled_def\<close>)

text \<open>What a part of the payload leads to, before the next header is read.\<close>

lemma payload_part_flow:
  fixes c pos data
  defines "c1 \<equiv> (read_completed c)\<lparr>m_payload := overwrite pos data (m_payload (read_completed c))\<rparr>"
  assumes "input_ok c" and "reads_pending c = ReadPayload pos n v # rs" and "length data \<le> n"
  shows "flow_ok env
      (if v
       then (case validate_payload_part env pos (length data) (n - length data) c1 of
               Inl r \<Rightarrow> r
             | Inr c \<Rightarrow>
                 if 0 = n - length data then call_handler_on_current_message env c
                 else (Stop, start_read_payload (pos + length data) (n - length data) v c))
       else if 0 = n - length data then (Again, c1)
       else (Stop, start_read_payload (pos + length data) (n - length data) v c1))"
  using assms(2)
proof (cases rule: read_cases)
  case (3 pos' n' v')
  have eq: "pos' = pos" "n' = n" "v' = v" using 3(1) assms(3) by simp_all
  have len: "pos + length data + (n - length data) = length (m_payload c1)"
    using 3(4) assms(4) by (simp add: c1_def eq read_completed_def)
  have c1: "close_code_ok (m_protocol_validator c1)" "reads_pending c1 = []" "m_buf c1 = []"
    "m_working_state (m_protocol_validator c1) = (if v then processing_frame else empty_state)"
    using 3 by (simp_all add: c1_def read_completed_def eq)
  show ?thesis
  proof (cases v)
    case False
    then show ?thesis using c1 len assms(4)
      by (auto simp: flow_ok_def header_next_def start_read_payload_def input_ok_def read_fits_def)
  next
    case True
    have "m_buf c1 = [] \<or> n - length data = 0" "m_working_state (m_protocol_validator c1) = processing_frame"
      using c1 True by simp_all
    note v = validate_part_flow [OF c1(1,2) this len, of env]
    show ?thesis
    proof (cases "validate_payload_part env pos (length data) (n - length data) c1")
      case (Inl r)
      then show ?thesis using v True by simp
    next
      case (Inr d)
      with v c1(3) len have d: "close_code_ok (m_protocol_validator d)" "reads_pending d = []" "m_buf d = []"
        "m_working_state (m_protocol_validator d) = processing_frame"
        "length (m_payload d) = pos + length data + (n - length data)" by simp_all
      then have "flow_ok env (Stop, start_read_payload (pos + length data) (n - length data) True d)"
        if "n - length data \<noteq> 0"
        using that by (auto simp: flow_ok_def start_read_payload_def input_ok_def read_fits_def)
      then show ?thesis using Inr True current_message_flow [OF d(1,2)] by simp
    qed
  qed
qed (use assms(3) in simp_all)

lemma payload_read_flow:
  assumes "input_ok c" and "reads_pending c = ReadPayload pos n v # rs" and "length data \<le> n"
  shows "flow_ok env (after_read_payload env pos n v data (read_completed c)) \<and>
    fst (after_read_payload env pos n v data (read_completed c)) \<noteq> Again"
  using go_on_flow [OF payload_part_flow [OF assms, of env]]
  by (simp only: after_read_payload_def Let_def simp_thms)

lemma same_input_event:
  assumes "same_input c d"
  shows "input_ok c \<Longrightarrow> input_ok d" using same_input_ok(1) [OF assms] by simp

lemma after_write_input: "same_input c (after_write env ok c)"
proof -
  have "same_input c (handle_current_write_ctx env c)" by (rule current_write_ctx_input)
  then show ?thesis
    using trigger_error_input [of c env 1006] by (simp add: after_write_def Let_def same_input_def)
qed

lemma check_timeout_input: "same_input c (check_timeout env c)"
proof -
  have "same_input (c\<lparr>m_close_frame_to_peer := False\<rparr>)
      (close_impl (call_close_handler_if_necessary env 1011 (c\<lparr>m_close_frame_to_peer := False\<rparr>)))"
    by (rule same_input_trans [OF call_close_handler_input close_impl_input])
  then show ?thesis using close_impl_input [of c]
    by (simp add: check_timeout_def Let_def same_input_def)
qed

lemma destroy_ws_input: "same_input c (destroy_ws env c)"
  by (simp add: destroy_ws_def ws_shutdown_input)

lemma other_event_input:
  assumes "\<And>data. e \<noteq> HeaderRead data" and "\<And>data. e \<noteq> PayloadRead data" and "e \<noteq> ReadFails"
  shows "same_input c (on_event env e c)"
proof (cases e)
  case (Action a)
  have "same_input c (destroy_ws env (handler_actions env [a] c))"
    by (rule same_input_trans [OF handler_actions_input destroy_ws_input])
  then show ?thesis by (simp add: Action)
next
  case WriteDone
  then show ?thesis using after_write_input [of "write_completed c" env True] by (simp add: write_completed_def same_input_def)
next
  case WriteFails
  then show ?thesis using after_write_input [of "write_completed c" env False] by (simp add: write_completed_def same_input_def)
next
  case CheckTimeout
  then show ?thesis using check_timeout_input [of "c\<lparr>m_timer_scheduled := False\<rparr>" env] by (simp add: same_input_def)
qed (use assms in \<open>simp_all add: same_input_def\<close>)

lemma read_fails_input:
  "reads_pending (on_event env ReadFails c) = tl (reads_pending c)"
  "m_protocol_validator (on_event env ReadFails c) = m_protocol_validator c"
  using trigger_error_input [of "read_completed c" env 1006]
  by (simp_all add: handle_read_error_def same_input_def read_completed_def)

lemma on_event_input:
  assumes "input_ok c" and "enabled e c"
  shows "input_ok (on_event env e c)"
proof (cases e)
  case (HeaderRead data)
  then show ?thesis using header_read_flow [OF assms(1), of data env] assms(2) guarded_flow by simp
next
  case (PayloadRead data)
  then obtain pos n v rs where r: "reads_pending c = ReadPayload pos n v # rs" "length data \<le> n"
    using assms(2) by (auto simp: enabled_def split: list.splits read_operation_t.splits)
  then show ?thesis using payload_read_flow [OF assms(1) r, of env] guarded_flow by (simp add: PayloadRead)
next
  case ReadFails
  then show ?thesis using assms(1) read_fails_input [of env c]
    by (auto simp: input_ok_def read_fits_def simp del: on_event.simps)
qed (use same_input_event [OF other_event_input assms(1)] in \<open>simp_all del: on_event.simps\<close>)

lemma upgrade_input: "input_ok (upgrade env response u)"
proof -
  let ?c = "write_data env [response] False (ws_connection_start u)"
  let ?d = "?c\<lparr>m_timer_scheduled := True, m_websocket_weak_handle := True, m_read_state := read_any_frame\<rparr>"
  have "header_next ?d"
    using write_data_input [of "ws_connection_start u" env "[response]" False]
    by (simp add: same_input_def header_next_def ws_connection_start_def validator_start_def close_code_ok_def expected_data_def)
  then show ?thesis using read_header_flow guarded_flow by (simp add: upgrade_def init_read_def)
qed

lemma ws_reach_input:
  assumes "ws_reach allow env c" and "\<And>e c. allow e c \<Longrightarrow> enabled e c"
  shows "input_ok c"
  using assms(1)
proof (induction rule: ws_reach.induct)
  case (ws_upgraded response u)
  show ?case by (rule upgrade_input)
next
  case (ws_stepped c e)
  from on_event_input [OF ws_stepped(3) assms(2) [OF ws_stepped(2)]] show ?case .
qed

section \<open>The end of the connection\<close>

text \<open>What writing leaves alone, in any state.\<close>

lemma current_write_frame: "\<exists>x q w n t. handle_current_write_ctx env c = with_output x q w n t c"
proof (induction env c rule: handle_current_write_ctx.induct)
  case (1 env c)
  obtain op x where e: "extract_next_write_operation (m_write_output_ctx c) = (op, x)"
    by (cases "extract_next_write_operation (m_write_output_ctx c)")
  show ?case
  proof (cases op)
    case none_write_operation
    let ?c = "c\<lparr>m_write_output_ctx := finish_write_group x\<rparr>"
    show ?thesis
    proof (cases "m_outgoing_data c")
      case Nil
      then have "handle_current_write_ctx env c =
          with_output (finish_write_group x) [] (written c) (writes_pending c) (m_write_operation_timeout_after c) c"
        using e none_write_operation
        by (subst handle_current_write_ctx.simps) (auto simp: pop_ready_buffers_def intro: ws_connection_t.equality)
      then show ?thesis by blast
    next
      case (Cons g rest)
      let ?d = "c\<lparr>m_outgoing_data := rest, m_write_output_ctx := start_next_write_group (Some g) (finish_write_group x)\<rparr>"
      have "pop_ready_buffers ?c = (Some g, ?c\<lparr>m_outgoing_data := rest\<rparr>)" using Cons by (simp add: pop_ready_buffers_def)
      from 1 [OF e [symmetric] none_write_operation this [symmetric] refl] obtain y q w n t where
        "handle_current_write_ctx env ?d = with_output y q w n t ?d" by auto
      moreover have "handle_current_write_ctx env c = handle_current_write_ctx env ?d"
        using e none_write_operation Cons
        by (subst handle_current_write_ctx.simps) (simp add: pop_ready_buffers_def)
      moreover have "with_output y q w n t ?d = with_output y q w n t c" by (auto intro: ws_connection_t.equality)
      ultimately have "handle_current_write_ctx env c = with_output y q w n t c" by (simp only:)
      then show ?thesis by blast
    qed
  next
    case (trivial_write_operation bufs)
    then have "handle_current_write_ctx env c =
        with_output x (m_outgoing_data c) (written c @ [bufs]) (Suc (writes_pending c))
          (steady_clock c + m_write_http_response_timelimit env) c"
      using e
      by (subst handle_current_write_ctx.simps)
         (auto simp: handle_trivial_write_operation_def guard_write_operation_def Let_def intro: ws_connection_t.equality)
    then show ?thesis by blast
  qed
qed

lemma append_write_frame:
  obtains x q w n t where "init_write_if_necessary env (append_outgoing wg c) = with_output x q w n t c"
proof -
  let ?c = "append_outgoing wg c"
  have "\<exists>x q w n t. init_write_if_necessary env ?c = with_output x q w n t c"
  proof (cases "is_transmitting c")
    case True
    then have "init_write_if_necessary env ?c = with_output (m_write_output_ctx c) (m_outgoing_data c @ [wg])
        (written c) (writes_pending c) (m_write_operation_timeout_after c) c"
      by (auto simp: init_write_if_necessary_def append_outgoing_def intro: ws_connection_t.equality)
    then show ?thesis by blast
  next
    case False
    obtain g rest where q: "m_outgoing_data c @ [wg] = g # rest" by (cases "m_outgoing_data c") auto
    let ?d = "c\<lparr>m_outgoing_data := rest, m_write_output_ctx := start_next_write_group (Some g) (m_write_output_ctx c)\<rparr>"
    have "init_write_if_necessary env ?c = handle_current_write_ctx env ?d"
      using False q by (simp add: init_write_if_necessary_def init_write_def append_outgoing_def pop_ready_buffers_def)
    moreover obtain x q w n t where "handle_current_write_ctx env ?d = with_output x q w n t ?d"
      using current_write_frame by blast
    moreover have "with_output x q w n t ?d = with_output x q w n t c" by (auto intro: ws_connection_t.equality)
    ultimately have "init_write_if_necessary env ?c = with_output x q w n t c" by (simp only:)
    then show ?thesis by blast
  qed
  then show ?thesis using that by blast
qed

section \<open>Properties\<close>

lemma flush:
  "output_inv c \<Longrightarrow> socket_is_open c \<Longrightarrow> n = length (m_outgoing_data c) + writes_pending c \<Longrightarrow>
     sent (on_events env (replicate n WriteDone) c) = sent c \<and>
     m_outgoing_data (on_events env (replicate n WriteDone) c) = [] \<and>
     writes_pending (on_events env (replicate n WriteDone) c) = 0"
proof (induction n arbitrary: c)
  case (Suc n)
  have w: "0 < writes_pending c"
  proof (rule ccontr)
    assume "\<not> 0 < writes_pending c"
    then have "m_outgoing_data c = []" "writes_pending c = 0"
      using Suc.prems(1,2)
      by (auto simp: output_inv_def output_ok_def group_written_def transmitting_def split: option.splits)
    then show False using Suc.prems(3) by simp
  qed
  then have "writes_pending c = 1" using Suc.prems(1) by (auto simp: output_inv_def split: if_splits)
  note r = after_write_ok [OF Suc.prems(1) w, of env]
  have "n = length (m_outgoing_data (on_event env WriteDone c)) + writes_pending (on_event env WriteDone c)"
    using Suc.prems(3) \<open>writes_pending c = 1\<close> r(3,4) by (cases "m_outgoing_data c") simp_all
  from Suc.IH [OF r(1) _ this] r(2,5) Suc.prems(2) show ?case by (simp del: on_event.simps)
qed simp

text \<open>
  C33: what a connection sends, over every order of its events and every behaviour of the application
  (with the opcodes that have names): at most one close frame, with nothing after it, and none
  while writing is enabled; never two writes pending; and as long as the socket is open, the
  writes that end well send everything that was queued, in the order it was queued.
\<close>

theorem output_discipline:
  assumes "ws_reach enabled env c" and "named_handler env"
  shows "closes_last (sent c) \<and> (m_write_state c = write_enabled \<longrightarrow> no_close (sent c)) \<and> writes_pending c \<le> 1 \<and>
    (socket_is_open c \<longrightarrow>
      written (on_events env (replicate (length (m_outgoing_data c) + writes_pending c) WriteDone) c) = sent c)"
proof -
  have inv: "output_inv c" by (rule ws_reach_output [OF assms]) simp
  then have "closes_last (sent c)" "m_write_state c = write_enabled \<longrightarrow> no_close (sent c)" "writes_pending c \<le> 1"
    by (simp_all add: output_inv_def output_ok_def)
  moreover have "written (on_events env (replicate (length (m_outgoing_data c) + writes_pending c) WriteDone) c) = sent c"
    if "socket_is_open c"
    using flush [OF inv that refl, of env] unfolding sent_def by (metis append_Nil2)
  ultimately show ?thesis by blast
qed

theorem output_discipline_witness:
  "closes_last (sent (on_events quiet_env [Action (SendMessage final_frame text_frame [0x61]), Action Shutdown]
     sample_connection))"
proof -
  have "all_enabled quiet_env [Action (SendMessage final_frame text_frame [0x61]), Action Shutdown] sample_connection"
    by code_simp
  from ws_reach_events [OF sample_reach this] have r:
    "ws_reach enabled quiet_env (on_events quiet_env
      [Action (SendMessage final_frame text_frame [0x61]), Action Shutdown] sample_connection)" .
  have "named_handler quiet_env" by (simp add: named_handler_def quiet_env_def)
  from output_discipline [OF r this] show ?thesis by blast
qed

text \<open>
  C34: the state of a connection fits the read it waits for: at most one read is pending, a header
  is read with an empty buffer into a parser that takes its next byte, and a payload is read to
  the end of its string, within a frame exactly when the validator is in one. Hence the callbacks
  of reads, whatever they were given, end without an exception, provided that strings
  can be had in every size.
\<close>

theorem callbacks_return:
  assumes "ws_reach enabled env c" and "\<And>n. resize_succeeds env n"
  shows "input_ok c \<and>
    (enabled (HeaderRead data) c \<longrightarrow> fst (after_read_header env data (read_completed c)) = Stop) \<and>
    (reads_pending c = ReadPayload pos n v # rs \<and> length data \<le> n \<longrightarrow>
      fst (after_read_payload env pos n v data (read_completed c)) = Stop)"
proof -
  have ok: "input_ok c" by (rule ws_reach_input [OF assms(1)]) simp
  have stop: "fst r = Stop" if "flow_ok env r" "fst r \<noteq> Again" for r
    using that assms(2) by (cases r; cases "fst r") (auto simp: flow_ok_simps)
  show ?thesis
    using ok header_read_flow [OF ok, of data env] payload_read_flow [OF ok, of pos n v rs data env] stop by blast
qed

theorem callbacks_return_witness:
  "fst (after_read_header quiet_env [0x81, 0x80, 0, 0, 0, 0, 0x88, 0xFE] (read_completed sample_connection)) = Stop"
proof -
  have "enabled (HeaderRead [0x81, 0x80, 0, 0, 0, 0, 0x88, 0xFE]) sample_connection" by code_simp
  moreover have "resize_succeeds quiet_env n" for n by (simp add: quiet_env_def)
  ultimately show ?thesis
    using callbacks_return [OF sample_reach, of "[0x81, 0x80, 0, 0, 0, 0, 0x88, 0xFE]"] by blast
qed

end
