(* ===== verification/WsEnding.thy ===== *)
theory WsEnding
  imports WsClosing
begin

text \<open>
  The end of a WebSocket connection (the model of theory \<open>WsConnection\<close>): who is told of it and how
  often, when the socket is closed, and the states in which nothing is read any more.
\<close>

section \<open>Invariants\<close>

text \<open>How often the application was told that the connection ends.\<close>

definition told :: "ws_connection_t \<Rightarrow> nat" where
  "told c = length (filter (\<lambda>m. msg_opcode m = connection_close_frame) (handler_calls c))"

text \<open>
  As long as the application may still be told, it has not been; after that it has been, or it has
  given up its connection itself.
\<close>

definition user_ok :: "ws_connection_t \<Rightarrow> bool" where
  "user_ok c \<longleftrightarrow>
     (m_close_impl c \<or> \<not> socket_is_open c) \<and> m_websocket_weak_handle c \<and> told c \<le> 1 \<and>
     (m_close_frame_to_user c \<longrightarrow> told c = 0) \<and>
     (m_close_frame_to_user c \<or> 0 < told c \<or> \<not> ws_has_connection c) \<and>
     (ws_referenced c \<or> \<not> ws_has_connection c)"

text \<open>In which states it may still be told.\<close>

definition open_ok :: "ws_connection_t \<Rightarrow> bool" where
  "open_ok c \<longleftrightarrow> (m_close_frame_to_user c \<longrightarrow>
     socket_is_open c \<and> m_close_frame_from_peer_timeout_after c = None \<and>
     m_read_state c \<noteq> read_only_close_frame \<and> m_write_state c = write_enabled)"

text \<open>A connection that reads frames for the application still has its close frames to send.\<close>

definition reading_ok :: "ws_connection_t \<Rightarrow> bool" where
  "reading_ok c \<longleftrightarrow> m_read_state c \<noteq> read_nothing \<and>
     (m_read_state c = read_any_frame \<longrightarrow> told c = 0 \<and> (socket_is_open c \<longrightarrow> m_close_frame_to_peer c))"

text \<open>What the application may do to all this.\<close>

definition act_rel :: "ws_connection_t \<Rightarrow> ws_connection_t \<Rightarrow> bool" where
  "act_rel c d \<longleftrightarrow> handler_calls d = handler_calls c \<and> m_websocket_weak_handle d = m_websocket_weak_handle c \<and>
     (ws_has_connection d \<longrightarrow> ws_has_connection c) \<and>
     (m_close_frame_to_user d \<longrightarrow> m_close_frame_to_user c) \<and>
     (m_close_frame_to_user c \<longrightarrow> m_close_frame_to_user d \<or> \<not> ws_has_connection d) \<and>
     (socket_is_open d \<longrightarrow> socket_is_open c) \<and> (m_close_impl d = m_close_impl c \<or> \<not> socket_is_open d) \<and>
     (m_read_state d = read_any_frame \<longrightarrow> m_read_state c = read_any_frame) \<and>
     (m_read_state d = read_nothing \<longrightarrow> m_read_state c = read_nothing) \<and>
     (m_read_state d = read_any_frame \<longrightarrow> socket_is_open d \<longrightarrow> m_close_frame_to_peer c \<longrightarrow> m_close_frame_to_peer d) \<and>
     (open_ok c \<longrightarrow> open_ok d)"

lemma act_rel_refl [simp]: "act_rel c c"
  by (simp add: act_rel_def)

lemma act_rel_trans: "act_rel c d \<Longrightarrow> act_rel d e \<Longrightarrow> act_rel c e"
  unfolding act_rel_def by metis

lemma act_rel_with_output: "act_rel c (with_output x q w n t c)"
  by (simp add: act_rel_def open_ok_def)

lemma append_write_act: "act_rel c (init_write_if_necessary env (append_outgoing wg c))"
proof -
  obtain x q w n t where "init_write_if_necessary env (append_outgoing wg c) = with_output x q w n t c"
    by (rule append_write_frame)
  then show ?thesis by (simp only: act_rel_with_output)
qed

lemma ws_send_message_act:
  assumes "open_ok c" and "ws_send_message env fin op p c = Inr d"
  shows "act_rel c d"
proof -
  let ?wg = "[write_message_header fin op (length p), p]"
  have has: "ws_has_connection c" using assms(2) by (simp add: ws_send_message_def split: if_splits)
  show ?thesis
  proof (cases "op = connection_close_frame")
    case False
    then have "d = write_data env ?wg False c"
      using assms(2) has by (simp add: ws_send_message_def Let_def)
    then show ?thesis
      using append_write_act by (auto simp: write_data_def write_data_impl_def)
  next
    case True
    let ?c = "c\<lparr>ws_has_connection := False\<rparr>"
    let ?e = "start_waiting_close_frame_only env
      (?c\<lparr>m_close_frame_to_peer := False, m_close_frame_to_user := False, m_write_state := write_disabled\<rparr>)"
    have d: "d = write_data env ?wg True ?c"
      using assms(2) has True by (simp add: ws_send_message_def Let_def)
    show ?thesis
    proof (cases "m_write_state c = write_enabled \<and> socket_is_open c")
      case True
      obtain x q w n t where "init_write_if_necessary env (append_outgoing ?wg ?e) = with_output x q w n t ?e"
        by (rule append_write_frame)
      then have "d = with_output x q w n t ?e" using d True by (simp add: write_data_def write_data_impl_def)
      then show ?thesis
        by (simp add: act_rel_def open_ok_def start_waiting_close_frame_only_def guard_close_frame_from_peer_operation_def)
    next
      case False
      then have "d = ?c" using d by (auto simp: write_data_def write_data_impl_def)
      then show ?thesis using assms(1) False by (auto simp: act_rel_def open_ok_def)
    qed
  qed
qed

lemma close_impl_act: "\<not> m_close_frame_to_user c \<Longrightarrow> act_rel c (close_impl c)"
  by (simp add: act_rel_def close_impl_def open_ok_def)

lemma send_close_frame:
  obtains x q w n t where "send_close_payload_to_peer env p c = (with_output x q w n t c)\<lparr>m_write_state := write_disabled\<rparr>"
proof -
  obtain x q w n t where "init_write_if_necessary env (append_outgoing
      [write_message_header final_frame connection_close_frame (length p), p] c) = with_output x q w n t c"
    by (rule append_write_frame)
  then show thesis using that by (simp add: send_close_payload_to_peer_def Let_def)
qed

lemma graceful_close_act:
  assumes "\<not> m_close_frame_to_user c"
  shows "act_rel c (graceful_close env c)"
proof (cases "m_close_frame_to_peer c")
  case True
  obtain x q w n t where "send_close_payload_to_peer env (status_code_to_bin 1000) (c\<lparr>m_close_frame_to_peer := False\<rparr>) =
      (with_output x q w n t (c\<lparr>m_close_frame_to_peer := False\<rparr>))\<lparr>m_write_state := write_disabled\<rparr>"
    by (rule send_close_frame)
  then show ?thesis using True assms
    by (simp add: graceful_close_def close_frame_to_peer_first_def send_close_frame_to_peer_def act_rel_def
        start_waiting_close_frame_only_def guard_close_frame_from_peer_operation_def open_ok_def)
qed (simp add: graceful_close_def close_frame_to_peer_first_def)

lemma ws_shutdown_act: "act_rel c (ws_shutdown env c)"
proof (cases "ws_has_connection c")
  case True
  let ?c = "c\<lparr>ws_has_connection := False, m_close_frame_to_user := False\<rparr>"
  have "act_rel c ?c" using True by (simp add: act_rel_def open_ok_def)
  moreover have "act_rel ?c (graceful_close env ?c)" by (rule graceful_close_act) simp
  ultimately have "act_rel c (graceful_close env ?c)" by (rule act_rel_trans)
  then show ?thesis using True by (simp add: ws_shutdown_def shutdown_connection_def)
qed (simp add: ws_shutdown_def)

lemma ws_kill_act: "m_close_impl c \<or> \<not> socket_is_open c \<Longrightarrow> act_rel c (ws_kill c)"
  by (auto simp: ws_kill_def kill_connection_def close_impl_def act_rel_def open_ok_def)

lemma act_rel_closed:
  "act_rel c d \<Longrightarrow> m_close_impl c \<or> \<not> socket_is_open c \<Longrightarrow> m_close_impl d \<or> \<not> socket_is_open d"
  by (auto simp: act_rel_def)

lemma act_rel_open: "act_rel c d \<Longrightarrow> open_ok c \<Longrightarrow> open_ok d"
  by (simp add: act_rel_def)

lemma handler_actions_act:
  "open_ok c \<Longrightarrow> m_close_impl c \<or> \<not> socket_is_open c \<Longrightarrow> act_rel c (handler_actions env as c)"
proof (induction env as c rule: handler_actions.induct)
  case (2 env fin op p as c)
  show ?case
  proof (cases "ws_send_message env fin op p c")
    case (Inr d)
    have d: "act_rel c d" by (rule ws_send_message_act [OF "2.prems"(1) Inr])
    from act_rel_trans [OF d "2.IH" [OF Inr act_rel_open [OF d "2.prems"(1)] act_rel_closed [OF d "2.prems"(2)]]]
    show ?thesis by (simp add: Inr)
  qed simp
next
  case (3 env as c)
  have d: "act_rel c (ws_shutdown env c)" by (rule ws_shutdown_act)
  from act_rel_trans [OF d "3.IH" [OF act_rel_open [OF d "3.prems"(1)] act_rel_closed [OF d "3.prems"(2)]]]
  show ?case by simp
next
  case (4 env as c)
  have d: "act_rel c (ws_kill c)" by (rule ws_kill_act [OF "4.prems"(2)])
  from act_rel_trans [OF d "4.IH" [OF act_rel_open [OF d "4.prems"(1)] act_rel_closed [OF d "4.prems"(2)]]]
  show ?case by simp
next
  case (5 env as c)
  have d: "act_rel c (c\<lparr>ws_referenced := False\<rparr>)" by (simp add: act_rel_def open_ok_def)
  from act_rel_trans [OF d "5.IH" [OF act_rel_open [OF d "5.prems"(1)] act_rel_closed [OF d "5.prems"(2)]]]
  show ?case by simp
qed simp

text \<open>A callback that reads for the application, and one that has ended.\<close>

definition running :: "ws_connection_t \<Rightarrow> bool" where
  "running c \<longleftrightarrow> user_ok c \<and> open_ok c \<and> reading_ok c"

definition resting :: "ws_connection_t \<Rightarrow> bool" where
  "resting c \<longleftrightarrow> user_ok c \<and> open_ok c \<and>
     (reads_pending c \<noteq> [] \<longrightarrow> socket_is_open c \<longrightarrow> reading_ok c)"

lemma running_resting: "running c \<Longrightarrow> resting c"
  by (simp add: running_def resting_def reading_ok_def)

lemma told_act: "act_rel c d \<Longrightarrow> told d = told c"
  by (simp add: act_rel_def told_def)

lemma reading_act: "act_rel c d \<Longrightarrow> reading_ok c \<Longrightarrow> reading_ok d"
  using told_act [of c d] unfolding reading_ok_def act_rel_def by metis

text \<open>
  The handler's call \<open>d\<close> from a state \<open>c\<close> with the same calls: what the rest of the invariant needs.
\<close>

lemma act_rel_user:
  assumes "act_rel (c\<lparr>handler_calls := hs\<rparr>) d" and "m_close_impl c \<or> \<not> socket_is_open c"
  shows "m_close_impl d \<or> \<not> socket_is_open d" and "m_websocket_weak_handle d = m_websocket_weak_handle c"
    and "ws_has_connection d \<longrightarrow> ws_has_connection c" and "m_close_frame_to_user d \<longrightarrow> m_close_frame_to_user c"
    and "m_close_frame_to_user c \<longrightarrow> m_close_frame_to_user d \<or> \<not> ws_has_connection d"
  using assms by (auto simp: act_rel_def)

text \<open>A call of the handler, with a message of any kind.\<close>

lemma destroy_ws_act: "act_rel c (destroy_ws env c)"
  by (simp add: destroy_ws_def ws_shutdown_act)

lemma destroy_ws_releases: "ws_referenced (destroy_ws env c) \<or> \<not> ws_has_connection (destroy_ws env c)"
proof (cases "ws_has_connection c")
  case True
  have "\<not> ws_has_connection (graceful_close env d)" if "\<not> ws_has_connection d" for d
  proof (cases "m_close_frame_to_peer d")
    case True
    obtain x q w n t where "send_close_payload_to_peer env (status_code_to_bin 1000) (d\<lparr>m_close_frame_to_peer := False\<rparr>) =
        (with_output x q w n t (d\<lparr>m_close_frame_to_peer := False\<rparr>))\<lparr>m_write_state := write_disabled\<rparr>"
      by (rule send_close_frame)
    then show ?thesis using True that
      by (simp add: graceful_close_def close_frame_to_peer_first_def send_close_frame_to_peer_def
          start_waiting_close_frame_only_def guard_close_frame_from_peer_operation_def)
  qed (simp add: graceful_close_def close_frame_to_peer_first_def that)
  then show ?thesis using True by (simp add: destroy_ws_def ws_shutdown_def shutdown_connection_def)
qed (simp add: destroy_ws_def ws_shutdown_def)

lemma call_message_handler_user:
  fixes env m
  assumes "m_close_impl c \<or> \<not> socket_is_open c" and "m_websocket_weak_handle c" and "open_ok c"
    and "ws_referenced c \<or> \<not> ws_has_connection c"
  defines "d \<equiv> call_message_handler env m c"
  shows "act_rel (c\<lparr>handler_calls := handler_calls d\<rparr>) d"
    and "told d = told c + of_bool (ws_referenced c \<and> msg_opcode m = connection_close_frame)"
    and "ws_referenced d \<or> \<not> ws_has_connection d"
proof -
  let ?c = "c\<lparr>handler_calls := handler_calls c @ [m]\<rparr>"
  have o: "open_ok ?c" "m_close_impl ?c \<or> \<not> socket_is_open ?c" using assms(1,3) by (simp_all add: open_ok_def)
  show "act_rel (c\<lparr>handler_calls := handler_calls d\<rparr>) d"
    "told d = told c + of_bool (ws_referenced c \<and> msg_opcode m = connection_close_frame)"
    "ws_referenced d \<or> \<not> ws_has_connection d"
  proof (atomize (full), cases "ws_referenced c")
    case True
    then have d: "d = destroy_ws env (handler_actions env (m_msg_handler env (handler_calls ?c)) ?c)"
      using assms(2) by (simp add: d_def call_message_handler_def Let_def)
    have a: "act_rel ?c d"
      unfolding d by (rule act_rel_trans [OF handler_actions_act [OF o] destroy_ws_act])
    then have "handler_calls d = handler_calls ?c" by (simp add: act_rel_def)
    moreover have "told d = told ?c" by (rule told_act [OF a])
    ultimately show "act_rel (c\<lparr>handler_calls := handler_calls d\<rparr>) d \<and>
        told d = told c + of_bool (ws_referenced c \<and> msg_opcode m = connection_close_frame) \<and>
        (ws_referenced d \<or> \<not> ws_has_connection d)"
      using a True destroy_ws_releases unfolding d [symmetric] by (simp add: told_def d)
  next
    case False
    then show "act_rel (c\<lparr>handler_calls := handler_calls d\<rparr>) d \<and>
        told d = told c + of_bool (ws_referenced c \<and> msg_opcode m = connection_close_frame) \<and>
        (ws_referenced d \<or> \<not> ws_has_connection d)"
      using assms(4) by (simp add: d_def call_message_handler_def)
  qed
qed

lemma open_ok_calls [simp]: "open_ok (c\<lparr>handler_calls := hs\<rparr>) = open_ok c"
  by (simp add: open_ok_def)

text \<open>A message that does not end the connection.\<close>

lemma call_handler_running:
  assumes "user_ok c" and "open_ok c" and "msg_opcode m \<noteq> connection_close_frame"
  shows "user_ok (call_message_handler env m c)" and "open_ok (call_message_handler env m c)"
    and "reading_ok c \<Longrightarrow> reading_ok (call_message_handler env m c)"
proof -
  let ?d = "call_message_handler env m c"
  have u: "m_close_impl c \<or> \<not> socket_is_open c" "m_websocket_weak_handle c" "ws_referenced c \<or> \<not> ws_has_connection c"
    using assms(1) by (simp_all add: user_ok_def)
  note r = call_message_handler_user [OF u(1,2) assms(2) u(3), of env m]
  have t: "told ?d = told c" using r(2) assms(3) by simp
  show "open_ok ?d" using act_rel_open [OF r(1)] assms(2) by simp
  show "user_ok ?d" using act_rel_user [OF r(1) u(1)] r(3) t assms(1) unfolding user_ok_def by metis
  show "reading_ok ?d" if "reading_ok c"
    using r(1) t that unfolding reading_ok_def act_rel_def by simp
qed

text \<open>The call that tells of the end, made by an error or by the peer.\<close>

lemma call_handler_told:
  fixes env
  assumes "user_ok c" and "open_ok (c\<lparr>m_close_frame_to_user := False\<rparr>)"
    and "told c = 0" and "msg_opcode m = connection_close_frame"
  defines "d \<equiv> call_message_handler env m (c\<lparr>m_close_frame_to_user := False\<rparr>)"
  shows "user_ok d" and "open_ok d" and "\<not> m_close_frame_to_user d"
    and "act_rel (c\<lparr>m_close_frame_to_user := False, handler_calls := handler_calls d\<rparr>) d"
proof -
  let ?c = "c\<lparr>m_close_frame_to_user := False\<rparr>"
  have u: "m_close_impl ?c \<or> \<not> socket_is_open ?c" "m_websocket_weak_handle ?c" "ws_referenced ?c \<or> \<not> ws_has_connection ?c"
    using assms(1) by (simp_all add: user_ok_def)
  note r = call_message_handler_user [OF u(1,2) assms(2) u(3), of env m, folded d_def]
  have t: "told d = of_bool (ws_referenced c)" using r(2) assms(3,4) by (simp add: told_def)
  show "open_ok d" using act_rel_open [OF r(1)] assms(2) by simp
  show "\<not> m_close_frame_to_user d" using r(1) by (simp add: act_rel_def)
  have "told d \<le> 1" "0 < told d \<or> \<not> ws_has_connection d"
    using t assms(1) act_rel_user(3) [OF r(1) u(1)] by (auto simp: user_ok_def)
  then show "user_ok d" using act_rel_user [OF r(1) u(1)] r(3) u(2) unfolding user_ok_def by simp
  show "act_rel (?c\<lparr>handler_calls := handler_calls d\<rparr>) d" by (rule r(1))
qed

lemma call_close_handler_user:
  fixes env st
  assumes "user_ok c" and "\<not> m_close_frame_to_user c \<Longrightarrow> open_ok c"
  defines "d \<equiv> call_close_handler_if_necessary env st c"
  shows "user_ok d" and "open_ok d" and "\<not> m_close_frame_to_user d"
    and "act_rel (c\<lparr>m_close_frame_to_user := False, handler_calls := handler_calls d\<rparr>) d"
proof -
  have "user_ok d \<and> open_ok d \<and> \<not> m_close_frame_to_user d \<and>
    act_rel (c\<lparr>m_close_frame_to_user := False, handler_calls := handler_calls d\<rparr>) d"
  proof (cases "m_close_frame_to_user c")
    case True
    have "open_ok (c\<lparr>m_close_frame_to_user := False\<rparr>)" by (simp add: open_ok_def)
    moreover have "told c = 0" using True assms(1) by (simp add: user_ok_def)
    ultimately show ?thesis
      using call_handler_told [OF assms(1), of "\<lparr>final_flag = final_frame, msg_opcode = connection_close_frame,
        msg_payload = status_code_to_bin st\<rparr>" env] True
      by (simp add: d_def call_close_handler_if_necessary_def)
  next
    case False
    then have d: "d = c" by (simp add: d_def call_close_handler_if_necessary_def)
    have "c\<lparr>m_close_frame_to_user := False, handler_calls := handler_calls d\<rparr> = c"
      using False by (auto simp: d intro: ws_connection_t.equality)
    then have "act_rel (c\<lparr>m_close_frame_to_user := False, handler_calls := handler_calls d\<rparr>) d"
      by (simp only: act_rel_refl d)
    then show ?thesis using assms(1,2) False by (simp add: d)
  qed
  then show "user_ok d" "open_ok d" "\<not> m_close_frame_to_user d"
    "act_rel (c\<lparr>m_close_frame_to_user := False, handler_calls := handler_calls d\<rparr>) d" by simp_all
qed

lemma close_impl_user:
  assumes "user_ok c" and "\<not> m_close_frame_to_user c"
  shows "user_ok (close_impl c)" and "open_ok (close_impl c)" and "\<not> socket_is_open (close_impl c)"
    and "\<not> m_close_frame_to_user (close_impl c)"
  using assms by (auto simp: user_ok_def close_impl_def open_ok_def told_def)

lemma trigger_error_user:
  assumes "user_ok c" and "open_ok c"
  shows "user_ok (trigger_error_and_close env st c)" and "open_ok (trigger_error_and_close env st c)"
    and "\<not> socket_is_open (trigger_error_and_close env st c)" and "\<not> m_close_frame_to_user (trigger_error_and_close env st c)"
  using close_impl_user [OF call_close_handler_user(1,3) [OF assms]]
  by (simp_all add: trigger_error_and_close_def)

section \<open>The reading callbacks\<close>

text \<open>A close frame to the peer before the application is told: what it changes.\<close>

lemma to_peer_first_user:
  fixes action
  assumes "user_ok c" and "open_ok c"
    and "\<And>c. \<exists>x q w n t rs to st. action c = (with_output x q w n t c)\<lparr>m_write_state := st, m_read_state := rs,
      m_close_frame_from_peer_timeout_after := to\<rparr>"
  shows "user_ok (close_frame_to_peer_first action c)"
    and "\<not> m_close_frame_to_user c \<Longrightarrow> open_ok (close_frame_to_peer_first action c)"
    and "socket_is_open (close_frame_to_peer_first action c) = socket_is_open c"
    and "told (close_frame_to_peer_first action c) = told c"
proof -
  obtain x q w n t rs to st where
    "action (c\<lparr>m_close_frame_to_peer := False\<rparr>) = (with_output x q w n t (c\<lparr>m_close_frame_to_peer := False\<rparr>))
      \<lparr>m_write_state := st, m_read_state := rs, m_close_frame_from_peer_timeout_after := to\<rparr>"
    using assms(3) by blast
  then have a: "close_frame_to_peer_first action c = (if m_close_frame_to_peer c
      then (with_output x q w n t (c\<lparr>m_close_frame_to_peer := False\<rparr>))
      \<lparr>m_write_state := st, m_read_state := rs, m_close_frame_from_peer_timeout_after := to\<rparr> else c)"
    by (simp add: close_frame_to_peer_first_def)
  show "user_ok (close_frame_to_peer_first action c)"
    "\<not> m_close_frame_to_user c \<Longrightarrow> open_ok (close_frame_to_peer_first action c)"
    "socket_is_open (close_frame_to_peer_first action c) = socket_is_open c"
    "told (close_frame_to_peer_first action c) = told c"
    using assms(1,2) unfolding a by (simp_all add: user_ok_def told_def open_ok_def)
qed

lemma send_payload_frame:
  "\<exists>x q w n t rs to st. send_close_payload_to_peer env p c = (with_output x q w n t c)\<lparr>m_write_state := st, m_read_state := rs,
      m_close_frame_from_peer_timeout_after := to\<rparr>"
proof -
  obtain x q w n t where e: "send_close_payload_to_peer env p c = (with_output x q w n t c)\<lparr>m_write_state := write_disabled\<rparr>"
    by (rule send_close_frame)
  have "(with_output x q w n t c)\<lparr>m_write_state := write_disabled\<rparr> =
      (with_output x q w n t c)\<lparr>m_write_state := write_disabled, m_read_state := m_read_state c,
        m_close_frame_from_peer_timeout_after := m_close_frame_from_peer_timeout_after c\<rparr>"
    by (auto intro: ws_connection_t.equality)
  with e show ?thesis by metis
qed

lemma send_waiting_frame:
  "\<exists>x q w n t rs to st. start_waiting_close_frame_only env (send_close_frame_to_peer env code c) =
     (with_output x q w n t c)\<lparr>m_write_state := st, m_read_state := rs, m_close_frame_from_peer_timeout_after := to\<rparr>"
proof -
  obtain x q w n t where e: "send_close_payload_to_peer env (status_code_to_bin code) c =
      (with_output x q w n t c)\<lparr>m_write_state := write_disabled\<rparr>"
    by (rule send_close_frame)
  then have "start_waiting_close_frame_only env (send_close_frame_to_peer env code c) =
      (with_output x q w n t c)\<lparr>m_write_state := write_disabled, m_read_state := read_only_close_frame,
        m_close_frame_from_peer_timeout_after := Some (steady_clock c + m_read_next_http_message_timelimit env)\<rparr>"
    by (auto simp: start_waiting_close_frame_only_def guard_close_frame_from_peer_operation_def
        send_close_frame_to_peer_def intro: ws_connection_t.equality)
  then show ?thesis by blast
qed

text \<open>How a connection whose peer breaks the rules ends.\<close>

lemma error_close_user:
  assumes "user_ok c" and "open_ok c"
    and "\<And>c. \<exists>x q w n t rs to st. action c = (with_output x q w n t c)\<lparr>m_write_state := st, m_read_state := rs,
      m_close_frame_from_peer_timeout_after := to\<rparr>"
  shows "user_ok (call_close_handler_if_necessary env code (close_frame_to_peer_first action c))"
    and "open_ok (call_close_handler_if_necessary env code (close_frame_to_peer_first action c))"
proof -
  note u = to_peer_first_user [OF assms]
  have "m_close_frame_to_user (close_frame_to_peer_first action c) = m_close_frame_to_user c"
    using assms(3) [of "c\<lparr>m_close_frame_to_peer := False\<rparr>"] by (auto simp: close_frame_to_peer_first_def)
  with u(2) have "\<not> m_close_frame_to_user (close_frame_to_peer_first action c) \<Longrightarrow>
      open_ok (close_frame_to_peer_first action c)" by simp
  from call_close_handler_user(1,2) [OF u(1) this]
  show "user_ok (call_close_handler_if_necessary env code (close_frame_to_peer_first action c))"
    "open_ok (call_close_handler_if_necessary env code (close_frame_to_peer_first action c))" by blast+
qed

lemma send_code_frame:
  "\<exists>x q w n t rs to st. send_close_frame_to_peer env code c = (with_output x q w n t c)\<lparr>m_write_state := st,
      m_read_state := rs, m_close_frame_from_peer_timeout_after := to\<rparr>"
  using send_payload_frame by (simp add: send_close_frame_to_peer_def)

lemma handle_invalid_payload_user:
  assumes "running c"
  shows "user_ok (handle_invalid_payload env st c)" and "open_ok (handle_invalid_payload env st c)"
    and "st \<noteq> invalid_close_code \<Longrightarrow> reading_ok (handle_invalid_payload env st c)"
proof -
  have c: "user_ok c" "open_ok c" "reading_ok c" using assms by (simp_all add: running_def)
  let ?act = "\<lambda>c. start_waiting_close_frame_only env (send_close_frame_to_peer env 1007 c)"
  let ?e = "close_frame_to_peer_first ?act c"
  let ?d = "call_close_handler_if_necessary env 1007 ?e"
  have cl: "user_ok (close_impl c) \<and> open_ok (close_impl c)" if "m_read_state c = read_only_close_frame"
    using that close_impl_user [OF c(1)] c(2) by (auto simp: open_ok_def)
  note e2 = error_close_user [OF c(1,2) send_code_frame] and e7 = error_close_user [OF c(1,2) send_waiting_frame]
  show "user_ok (handle_invalid_payload env st c)" "open_ok (handle_invalid_payload env st c)"
    using c cl e2 e7 by (auto simp: handle_invalid_payload_def split: read_state_t.split)
  show "reading_ok (handle_invalid_payload env st c)" if "st \<noteq> invalid_close_code"
  proof (cases "m_read_state c = read_any_frame")
    case False
    then show ?thesis using c(3) that by (simp add: handle_invalid_payload_def)
  next
    case True
    then have h: "handle_invalid_payload env st c = ?d" using that by (simp add: handle_invalid_payload_def)
    show ?thesis
    proof (cases "m_close_frame_to_peer c")
      case False
      with True c(3) have "\<not> socket_is_open c" by (simp add: reading_ok_def)
      with c(2) have "\<not> m_close_frame_to_user c" by (simp add: open_ok_def)
      then have "?d = c" using False
        by (simp add: close_frame_to_peer_first_def call_close_handler_if_necessary_def)
      then show ?thesis using c(3) h by simp
    next
      case to_peer: True
      have e: "m_read_state ?e = read_only_close_frame"
        using to_peer by (simp add: close_frame_to_peer_first_def start_waiting_close_frame_only_def
            guard_close_frame_from_peer_operation_def)
      note u = to_peer_first_user [OF c(1,2), of ?act, OF send_waiting_frame]
      have "m_close_frame_to_user ?e = m_close_frame_to_user c"
        using send_waiting_frame [of env 1007 "c\<lparr>m_close_frame_to_peer := False\<rparr>"] to_peer
        by (auto simp: close_frame_to_peer_first_def)
      with u(2) have "\<not> m_close_frame_to_user ?e \<Longrightarrow> open_ok ?e" by simp
      from call_close_handler_user(4) [OF u(1) this, of env 1007]
      have "m_read_state ?d \<noteq> read_any_frame" "m_read_state ?d \<noteq> read_nothing"
        using e by (auto simp: act_rel_def)
      then show ?thesis unfolding h by (simp add: reading_ok_def)
    qed
  qed
qed

text \<open>Fields that the invariant does not mention.\<close>

lemma running_updates [simp]:
  "running (c\<lparr>m_protocol_validator := v\<rparr>) = running c" "running (c\<lparr>m_payload := p\<rparr>) = running c"
  "running (c\<lparr>m_parser := q\<rparr>) = running c" "running (c\<lparr>m_buf := b\<rparr>) = running c"
  "running (c\<lparr>reads_pending := rs\<rparr>) = running c" "running (c\<lparr>m_timer_scheduled := ts\<rparr>) = running c"
  by (simp_all add: running_def user_ok_def open_ok_def reading_ok_def told_def)

definition flow_user :: "flow \<times> ws_connection_t \<Rightarrow> bool" where
  "flow_user r \<longleftrightarrow>
     (case r of (Again, c) \<Rightarrow> running c | (Stop, c) \<Rightarrow> resting c | (Throw, c) \<Rightarrow> user_ok c \<and> open_ok c)"

lemma flow_user_simps:
  "flow_user (Again, c) = running c" "flow_user (Stop, c) = resting c"
  "flow_user (Throw, c) \<longleftrightarrow> user_ok c \<and> open_ok c"
  by (simp_all add: flow_user_def)

lemma resting_quiet: "user_ok c \<Longrightarrow> open_ok c \<Longrightarrow> reads_pending c = [] \<Longrightarrow> resting c"
  by (simp add: resting_def)

lemma close_frame_received:
  fixes env p
  assumes "running c" and "m_read_state c = read_any_frame"
  defines "d \<equiv> close_frame_to_peer_first (send_close_payload_to_peer env p) (c\<lparr>m_close_frame_to_user := False\<rparr>)"
  assumes "msg_opcode m = connection_close_frame"
  shows "user_ok (call_message_handler env m (d\<lparr>m_read_state := read_nothing, m_payload := []\<rparr>))"
    and "open_ok (call_message_handler env m (d\<lparr>m_read_state := read_nothing, m_payload := []\<rparr>))"
    and "m_read_state (call_message_handler env m (d\<lparr>m_read_state := read_nothing, m_payload := []\<rparr>)) \<noteq> read_any_frame"
proof -
  have c: "user_ok c" "told c = 0" using assms(1,2) by (simp_all add: running_def reading_ok_def)
  let ?c = "c\<lparr>m_close_frame_to_user := False\<rparr>"
  let ?e = "d\<lparr>m_read_state := read_nothing, m_payload := []\<rparr>"
  obtain x q w n t rs to st where s: "send_close_payload_to_peer env p (?c\<lparr>m_close_frame_to_peer := False\<rparr>) =
      (with_output x q w n t (?c\<lparr>m_close_frame_to_peer := False\<rparr>))\<lparr>m_write_state := st, m_read_state := rs,
      m_close_frame_from_peer_timeout_after := to\<rparr>"
    using send_payload_frame by blast
  have d: "d = (if m_close_frame_to_peer c then (with_output x q w n t (?c\<lparr>m_close_frame_to_peer := False\<rparr>))
      \<lparr>m_write_state := st, m_read_state := rs, m_close_frame_from_peer_timeout_after := to\<rparr> else ?c)"
    using s by (simp add: d_def close_frame_to_peer_first_def)
  let ?f = "?e\<lparr>m_close_frame_to_user := m_close_frame_to_user c\<rparr>"
  have f: "user_ok ?f" "open_ok (?f\<lparr>m_close_frame_to_user := False\<rparr>)" "told ?f = 0"
    using c by (simp_all add: d user_ok_def told_def open_ok_def)
  have e: "?f\<lparr>m_close_frame_to_user := False\<rparr> = ?e" by (auto simp: d intro: ws_connection_t.equality)
  note r = call_handler_told [OF f assms(4), of env, unfolded e]
  show "user_ok (call_message_handler env m ?e)" "open_ok (call_message_handler env m ?e)" using r(1,2) by blast+
  show "m_read_state (call_message_handler env m ?e) \<noteq> read_any_frame"
    using r(4) by (auto simp: act_rel_def)
qed

lemma peer_payload [simp]:
  "m_payload (close_frame_to_peer_first (send_close_payload_to_peer env p) c) = m_payload c"
  using to_peer_first_input [OF send_close_input] by (simp add: same_input_def)

lemma current_message_user:
  assumes "running c" and "reads_pending c = []"
  shows "flow_user (call_handler_on_current_message env c)"
proof -
  obtain st v where f: "finish_frame (m_protocol_validator c) = (st, v)" by (cases "finish_frame (m_protocol_validator c)")
  define c1 where "c1 = c\<lparr>m_protocol_validator := v\<rparr>"
  have c1: "running c1" "reads_pending c1 = []" "m_read_state c1 \<noteq> read_nothing" "m_parser c1 = m_parser c" "m_payload c1 = m_payload c"
    using assms by (simp_all add: c1_def) (simp add: running_def reading_ok_def)
  have h: "user_ok c1" "open_ok c1" "reading_ok c1" using c1(1) by (simp_all add: running_def)
  let ?md = "m_current_msg (m_parser c)"
  let ?m = "\<lambda>p. \<lparr>final_flag = (if m_final_flag ?md then final_frame else not_final_frame), msg_opcode = m_opcode ?md, msg_payload = p\<rparr>"
  have quiet: "reads_pending (call_message_handler env m d) = reads_pending d" for m d
    using call_message_handler_input by (simp add: same_input_def)
  have peer: "reads_pending (close_frame_to_peer_first (send_close_payload_to_peer env p) d) = reads_pending d" for p d
    using to_peer_first_input [OF send_close_input] by (simp add: same_input_def)
  show ?thesis
  proof (cases "st = frame_is_valid")
    case False
    have "reads_pending (handle_invalid_payload env st c1) = []"
      using handle_invalid_payload_input [of c1 env st] c1(2) by (simp add: same_input_def)
    from resting_quiet [OF handle_invalid_payload_user(1,2) [OF c1(1)] this] False f show ?thesis
      by (simp add: call_handler_on_current_message_def c1_def flow_user_simps Let_def)
  next
    case valid: True
    show ?thesis
    proof (cases "m_read_state c1 = read_any_frame")
      case False
      then have only: "m_read_state c1 = read_only_close_frame" using c1(3) by (cases "m_read_state c1") auto
      let ?t = "c1\<lparr>m_timer_scheduled := False\<rparr>"
      have t: "user_ok ?t" "\<not> m_close_frame_to_user ?t"
        using h only by (simp_all add: user_ok_def told_def open_ok_def)
      have "reads_pending (close_impl ?t) = []" using close_impl_input [of ?t] c1(2) by (simp add: same_input_def)
      from resting_quiet [OF close_impl_user(1,2) [OF t] this]
      have "resting (close_impl ?t)" .
      then show ?thesis using valid f only c1(1)
        by (simp add: call_handler_on_current_message_def c1_def flow_user_simps Let_def)
    next
      case any: True
      show ?thesis
      proof (cases "m_opcode ?md = connection_close_frame")
        case True
        let ?d = "call_message_handler env (?m (m_payload c))
          ((close_frame_to_peer_first (send_close_payload_to_peer env (m_payload c))
            (c1\<lparr>m_close_frame_to_user := False\<rparr>))\<lparr>m_read_state := read_nothing, m_payload := []\<rparr>)"
        note r = close_frame_received [OF c1(1) any, of "?m p" for p]
        have d: "user_ok ?d" "open_ok ?d" "m_read_state ?d \<noteq> read_any_frame" using r True by simp_all
        have q: "reads_pending ?d = []" using c1(2) by (simp add: quiet peer)
        have "running ?d" if "m_read_state ?d \<noteq> read_nothing"
          using that d by (simp add: running_def reading_ok_def)
        then have "flow_user (if read_nothing \<noteq> m_read_state ?d then (Again, ?d) else (Stop, ?d))"
          using resting_quiet [OF d(1,2) q] by (simp add: flow_user_simps)
        moreover have "call_handler_on_current_message env c =
            (if read_nothing \<noteq> m_read_state ?d then (Again, ?d) else (Stop, ?d))"
          using f valid any True peer_payload
          by (simp add: call_handler_on_current_message_def c1_def Let_def)
        ultimately show ?thesis by simp
      next
        case False
        let ?d = "call_message_handler env (?m (m_payload c)) (c1\<lparr>m_payload := []\<rparr>)"
        have u: "user_ok (c1\<lparr>m_payload := []\<rparr>)" "open_ok (c1\<lparr>m_payload := []\<rparr>)" "reading_ok (c1\<lparr>m_payload := []\<rparr>)"
          using h by (simp_all add: user_ok_def open_ok_def reading_ok_def told_def)
        have "running ?d"
          using call_handler_running [OF u(1,2), of "?m (m_payload c)" env] u(3) False by (simp add: running_def)
        then have "flow_user (if read_nothing \<noteq> m_read_state ?d then (Again, ?d) else (Stop, ?d))"
          using running_resting by (simp add: flow_user_simps)
        moreover have "call_handler_on_current_message env c =
            (if read_nothing \<noteq> m_read_state ?d then (Again, ?d) else (Stop, ?d))"
          using f valid any False
          by (simp add: call_handler_on_current_message_def c1_def Let_def)
        ultimately show ?thesis by simp
      qed
    qed
  qed
qed

lemma validate_part_user:
  assumes "running c" and "reads_pending c = []"
  shows "case validate_payload_part env pos len rest c of
      Inl r \<Rightarrow> flow_user r | Inr d \<Rightarrow> running d \<and> reads_pending d = []"
proof (cases "process_and_unmask_next_payload_part (take len (drop pos (m_payload c))) (m_protocol_validator c)")
  case (Inl e)
  then show ?thesis using assms by (simp add: validate_payload_part_def flow_user_simps running_def)
next
  case (Inr r)
  obtain st out v where r: "r = (st, out, v)" by (cases r)
  define c1 where "c1 = c\<lparr>m_payload := overwrite pos out (m_payload c), m_protocol_validator := v\<rparr>"
  have c1: "running c1" "reads_pending c1 = []" using assms by (simp_all add: c1_def)
  show ?thesis
  proof (cases "st = payload_part_is_valid")
    case True
    then show ?thesis using Inr r c1 by (simp add: validate_payload_part_def c1_def)
  next
    case False
    obtain d where d: "handle_invalid_payload env st c1 = d" by blast
    note u = handle_invalid_payload_user [OF c1(1), where env = env and st = st, unfolded d]
    have q: "reads_pending d = []"
      using handle_invalid_payload_input [of c1 env st] c1(2) d by (simp add: same_input_def)
    have "validate_payload_part env pos len rest c =
        Inl (if st = incorrect_utf8_data
             then (let e = d\<lparr>m_protocol_validator := reset_validator (m_protocol_validator d)\<rparr>
                   in if rest = 0 then (Again, e) else (Stop, start_read_payload (pos + len) rest False e))
             else (Stop, d))"
      using Inr r d False
      by (cases "st = incorrect_utf8_data") (simp_all add: validate_payload_part_def Let_def c1_def)
    moreover have "running d" if "st = incorrect_utf8_data"
      using u that by (simp add: running_def)
    ultimately show ?thesis
      using resting_quiet [OF u(1,2) q] running_resting
      by (auto simp: flow_user_simps start_read_payload_def Let_def)
  qed
qed

lemma pending_resting: "running c \<Longrightarrow> resting (start_read_payload pos n v c)"
  "running c \<Longrightarrow> resting (consume_header_from_socket c)"
  using running_resting by (simp_all add: start_read_payload_def consume_header_from_socket_def)

lemma valid_header_user:
  assumes "running c" and "reads_pending c = []"
  shows "flow_user (handle_parsed_and_valid_header env md c)"
proof -
  define n where "n = unat (payload_len md)"
  define k where "k = min (length (m_buf c)) n"
  define c1 where "c1 = consumed_bytes k (c\<lparr>m_payload := overwrite 0 (take k (m_buf c)) (replicate n 0)\<rparr>)"
  have c1: "running c1" "reads_pending c1 = []" using assms by (simp_all add: c1_def consumed_bytes_def)
  show ?thesis
  proof (cases "resize_succeeds env n")
    case False
    then show ?thesis using assms
      by (simp add: handle_parsed_and_valid_header_def Let_def n_def flow_user_simps running_def)
  next
    case r: True
    show ?thesis
    proof (cases "n = 0")
      case True
      then show ?thesis using r current_message_user [of "c\<lparr>m_payload := []\<rparr>" env] assms
        by (simp add: handle_parsed_and_valid_header_def Let_def n_def)
    next
      case False
      have eq: "handle_parsed_and_valid_header env md c =
          (case validate_payload_part env 0 k (n - k) c1 of
             Inl r \<Rightarrow> r
           | Inr c \<Rightarrow> if n - k = 0 then call_handler_on_current_message env c
                     else (Stop, start_read_payload k (n - k) True c))"
        using valid_header_eq [of env md c] r False by (simp only: n_def k_def c1_def) simp
      then show ?thesis
        using validate_part_user [OF c1, of env 0 k "n - k"] current_message_user pending_resting
        by (auto simp: flow_user_simps split: sum.splits)
    qed
  qed
qed

lemma parsed_header_user:
  assumes "running c" and "reads_pending c = []"
  shows "flow_user (handle_parsed_header env md c)"
proof (cases "process_new_frame md (m_protocol_validator c)")
  case (Inl e)
  then show ?thesis using assms by (simp add: handle_parsed_header_def flow_user_simps running_def)
next
  case (Inr r)
  obtain st v where r: "r = (st, v)" by (cases r)
  define c1 where "c1 = c\<lparr>m_protocol_validator := v\<rparr>"
  have c1: "running c1" "reads_pending c1 = []" using assms by (simp_all add: c1_def)
  then have h: "user_ok c1" "open_ok c1" "m_read_state c1 \<noteq> read_nothing" by (simp_all add: running_def reading_ok_def)
  let ?e = "call_close_handler_if_necessary env 1002 (close_frame_to_peer_first (send_close_frame_to_peer env 1002) c1)"
  have "reads_pending ?e = []"
  proof -
    have "same_input c1 (close_frame_to_peer_first (send_close_frame_to_peer env 1002) c1)"
      by (rule to_peer_first_input) (simp add: send_close_frame_to_peer_def send_close_input)
    from same_input_trans [OF this call_close_handler_input] c1(2) show ?thesis by (simp add: same_input_def)
  qed
  then have "resting ?e"
    using error_close_user [OF h(1,2), where action = "send_close_frame_to_peer env 1002", OF send_code_frame]
      resting_quiet by blast
  moreover have "resting (close_impl c1)" if "m_read_state c1 = read_only_close_frame"
  proof (rule resting_quiet)
    have u: "\<not> m_close_frame_to_user c1" using h(2) that by (auto simp: open_ok_def)
    from close_impl_user [OF h(1) this] show "user_ok (close_impl c1)" "open_ok (close_impl c1)" by blast+
    show "reads_pending (close_impl c1) = []" using close_impl_input [of c1] c1(2) by (simp add: same_input_def)
  qed
  ultimately show ?thesis
    using Inr r h(3) valid_header_user [OF c1, of env md]
    by (auto simp: handle_parsed_header_def Let_def c1_def flow_user_simps split: read_state_t.split)
qed

lemma header_buffer_user:
  assumes "running c" and "reads_pending c = []"
  shows "flow_user (consume_header_from_buffer env c)"
proof (cases "parser_execute (m_buf c) (m_parser c)")
  case (Inl e)
  then show ?thesis using assms by (simp add: consume_header_from_buffer_def flow_user_simps running_def)
next
  case (Inr r)
  obtain k q where r: "r = (k, q)" by (cases r)
  let ?c = "consumed_bytes k (c\<lparr>m_parser := q\<rparr>)"
  have c: "running ?c" "reads_pending ?c = []" using assms by (simp_all add: consumed_bytes_def)
  show ?thesis
    using Inr r parsed_header_user [OF c] pending_resting(2) [OF c(1)]
    by (simp add: consume_header_from_buffer_def flow_user_simps Let_def)
qed

lemma read_header_user:
  "running c \<Longrightarrow> header_next c \<Longrightarrow> flow_user (start_read_header env c)"
proof (induction env c rule: start_read_header.induct)
  case (1 env c)
  let ?c = "reset_parser_and_payload c"
  have c: "running ?c" "reads_pending ?c = []" "m_buf ?c = m_buf c" "header_next ?c"
    using 1(2,3) by (simp_all add: reset_parser_and_payload_def header_next_def)
  have p: "parser_ready (m_parser ?c)"
    by (simp add: reset_parser_and_payload_def parser_ready_def reset_parser_def missing_def reset_expected_def)
  have once: "flow_user (read_header_once env c)"
    using header_buffer_user [OF c(1,2), of env] pending_resting(2) [OF c(1)]
    by (simp add: read_header_once_def Let_def flow_user_simps)
  have again: "header_next d" if "read_header_once env c = (Again, d)" for d
    using header_buffer_flow [OF c(4) p, of env] that c(3)
    by (auto simp: read_header_once_def Let_def flow_ok_simps split: if_splits)
  obtain fl d where d: "read_header_once env c = (fl, d)" by (cases "read_header_once env c")
  show ?case
  proof (cases fl)
    case Again
    then have "flow_user (start_read_header env d)"
      using 1(1) [OF d [symmetric] Again] once again d by (simp add: flow_user_simps)
    then show ?thesis using Again d by (subst start_read_header.simps) simp
  qed (use once d in \<open>subst start_read_header.simps, simp\<close>)+
qed

section \<open>All events\<close>

lemma guarded_user:
  assumes "flow_user r" and "fst r \<noteq> Again"
  shows "resting (guarded env r)"
proof -
  obtain fl c where r: "r = (fl, c)" by (cases r)
  show ?thesis
    using assms trigger_error_user [of c env 1011]
    by (cases fl) (simp_all add: r guarded_def flow_user_simps resting_def)
qed

lemma go_on_user: "flow_user r \<Longrightarrow> flow_ok env r \<Longrightarrow> flow_user (go_on env r)"
proof -
  assume a: "flow_user r" "flow_ok env r"
  obtain fl c where r: "r = (fl, c)" by (cases r)
  show ?thesis
    using a read_header_user [of c env] by (cases fl) (simp_all add: r go_on_def flow_user_simps flow_ok_simps)
qed

lemma resting_running:
  "resting c \<Longrightarrow> reads_pending c \<noteq> [] \<Longrightarrow> socket_is_open c \<Longrightarrow> running (read_completed c)"
  by (simp add: resting_def running_def read_completed_def user_ok_def open_ok_def reading_ok_def told_def)

lemma header_read_user:
  assumes "resting c" and "input_ok c" and "enabled (HeaderRead data) c" and "socket_is_open c"
  shows "resting (on_event env (HeaderRead data) c)"
  using assms(2)
proof (cases rule: read_cases)
  case 2
  let ?c = "obtained_bytes data (read_completed c)"
  have c: "running ?c" "reads_pending ?c = []" "header_next ?c" "parser_ready (m_parser ?c)" "m_buf ?c \<noteq> []"
    using resting_running [OF assms(1) _ assms(4)] 2 assms(3)
    by (simp_all add: obtained_bytes_def read_completed_def header_next_def enabled_def)
  have "flow_user (after_read_header env data (read_completed c))"
    unfolding after_read_header_def
    by (rule go_on_user [OF header_buffer_user [OF c(1,2)] header_buffer_flow [OF c(3-5)]])
  then show ?thesis using guarded_user header_read_flow [OF assms(2,3)] by simp
qed (use assms(3) in \<open>simp_all add: enabled_def\<close>)

lemma payload_read_user:
  assumes "resting c" and "input_ok c" and "reads_pending c = ReadPayload pos n v # rs" and "length data \<le> n"
    and "socket_is_open c"
  shows "resting (guarded env (after_read_payload env pos n v data (read_completed c)))"
proof -
  define c1 where "c1 = (read_completed c)\<lparr>m_payload := overwrite pos data (m_payload (read_completed c))\<rparr>"
  have rs: "rs = []" using assms(2,3) by (auto simp: input_ok_def read_fits_def)
  have c1: "running c1" "reads_pending c1 = []"
    using resting_running [OF assms(1) _ assms(5)] assms(3) rs by (simp_all add: c1_def read_completed_def)
  let ?r = "if v
       then (case validate_payload_part env pos (length data) (n - length data) c1 of
               Inl r \<Rightarrow> r
             | Inr c \<Rightarrow>
                 if 0 = n - length data then call_handler_on_current_message env c
                 else (Stop, start_read_payload (pos + length data) (n - length data) v c))
       else if 0 = n - length data then (Again, c1)
       else (Stop, start_read_payload (pos + length data) (n - length data) v c1)"
  have r: "after_read_payload env pos n v data (read_completed c) = go_on env ?r"
    by (simp only: after_read_payload_def Let_def c1_def)
  have u: "flow_user ?r"
    using validate_part_user [OF c1, of env pos "length data" "n - length data"] current_message_user pending_resting c1(1)
    by (auto simp: flow_user_simps split: sum.splits)
  have "flow_ok env ?r"
    using payload_part_flow [OF assms(2-4), of env] by (simp only: c1_def)
  from go_on_user [OF u this] have "flow_user (after_read_payload env pos n v data (read_completed c))"
    by (simp only: r)
  then show ?thesis using guarded_user payload_read_flow [OF assms(2-4)] by blast
qed

lemma after_write_user:
  assumes "resting c"
  shows "resting (after_write env ok (write_completed c))"
proof (cases ok)
  case True
  obtain x q w n t where "handle_current_write_ctx env (write_completed c) = with_output x q w n t (write_completed c)"
    using current_write_frame by blast
  then show ?thesis using True assms
    by (simp add: after_write_def write_completed_def resting_def user_ok_def open_ok_def reading_ok_def told_def)
next
  case False
  have "user_ok (write_completed c)" "open_ok (write_completed c)"
    using assms by (simp_all add: resting_def write_completed_def user_ok_def open_ok_def told_def)
  from trigger_error_user [OF this, of env 1006] show ?thesis
    using False by (simp add: after_write_def Let_def resting_def user_ok_def open_ok_def told_def)
qed

lemma check_timeout_user:
  assumes "resting c"
  shows "resting (check_timeout env c)"
proof -
  have c: "user_ok c" "open_ok c" using assms by (simp_all add: resting_def)
  let ?c = "c\<lparr>m_close_frame_to_peer := False\<rparr>"
  have "user_ok ?c" "open_ok ?c" using c by (simp_all add: user_ok_def open_ok_def told_def)
  note r = close_impl_user [OF call_close_handler_user(1,3) [OF this]]
  have "resting (close_impl c)" if "m_close_frame_from_peer_timeout_after c \<noteq> None"
    using that c close_impl_user [OF c(1)] by (auto simp: open_ok_def resting_def)
  moreover have "resting (c\<lparr>m_timer_scheduled := True\<rparr>)"
    using assms by (simp add: resting_def user_ok_def open_ok_def reading_ok_def told_def)
  ultimately show ?thesis using r by (auto simp: check_timeout_def Let_def resting_def split: option.splits)
qed

lemma action_user:
  assumes "resting c"
  shows "resting (destroy_ws env (handler_actions env [a] c))"
proof -
  have c: "user_ok c" "open_ok c" using assms by (simp_all add: resting_def)
  then have u: "m_close_impl c \<or> \<not> socket_is_open c" by (simp add: user_ok_def)
  let ?d = "destroy_ws env (handler_actions env [a] c)"
  have a: "act_rel c ?d" by (rule act_rel_trans [OF handler_actions_act [OF c(2) u] destroy_ws_act])
  have "act_rel (c\<lparr>handler_calls := handler_calls c\<rparr>) ?d" using a by simp
  note r = act_rel_user [OF this u]
  have "user_ok ?d" using r told_act [OF a] destroy_ws_releases c(1) unfolding user_ok_def by metis
  moreover have "reading_ok ?d" if "socket_is_open ?d" "reads_pending ?d \<noteq> []"
  proof -
    have "same_input c ?d" by (rule same_input_trans [OF handler_actions_input destroy_ws_input])
    then have "reading_ok c" using that a assms by (simp add: resting_def same_input_def act_rel_def)
    then show ?thesis by (rule reading_act [OF a])
  qed
  ultimately show ?thesis using act_rel_open [OF a c(2)] by (simp add: resting_def)
qed

lemma on_event_user:
  assumes "resting c" and "input_ok c" and "prompt e c"
  shows "resting (on_event env e c)"
proof (cases e)
  case (HeaderRead data)
  then show ?thesis using header_read_user [OF assms(1,2)] assms(3) by (simp add: prompt_def del: on_event.simps)
next
  case (PayloadRead data)
  then obtain pos n v rs where r: "reads_pending c = ReadPayload pos n v # rs" "length data \<le> n" "socket_is_open c"
    using assms(3) by (auto simp: prompt_def enabled_def split: list.splits read_operation_t.splits)
  then show ?thesis using payload_read_user [OF assms(1,2) r] by (simp add: PayloadRead)
next
  case ReadFails
  have "user_ok (read_completed c)" "open_ok (read_completed c)"
    using assms(1) by (simp_all add: resting_def read_completed_def user_ok_def open_ok_def told_def)
  from trigger_error_user [OF this, of env 1006] show ?thesis
    by (simp add: ReadFails handle_read_error_def resting_def)
next
  case CheckTimeout
  have "resting (c\<lparr>m_timer_scheduled := False\<rparr>)"
    using assms(1) by (simp add: resting_def user_ok_def open_ok_def reading_ok_def told_def)
  then show ?thesis using check_timeout_user by (simp add: CheckTimeout)
next
  case (Tick n)
  then show ?thesis
    using assms(1) by (simp add: resting_def user_ok_def open_ok_def reading_ok_def told_def)
qed (use assms(1) after_write_user action_user in simp_all)

lemma upgrade_user: "resting (upgrade env response u)"
proof -
  let ?s = "ws_connection_start u"
  let ?c = "write_data env [response] False ?s"
  let ?d = "?c\<lparr>m_timer_scheduled := True, m_websocket_weak_handle := True, m_read_state := read_any_frame\<rparr>"
  have "?c = init_write_if_necessary env (append_outgoing [response] ?s)"
    by (simp add: write_data_def write_data_impl_def ws_connection_start_def)
  then obtain x q w n t where c: "?c = with_output x q w n t ?s"
    using append_write_frame [of env "[response]" ?s] by metis
  have run: "running ?d"
    unfolding c by (simp add: running_def user_ok_def open_ok_def reading_ok_def told_def ws_connection_start_def)
  have "header_next ?d"
    unfolding c by (simp add: header_next_def ws_connection_start_def validator_start_def close_code_ok_def expected_data_def)
  from read_header_user [OF run this, of env] read_header_flow [OF this, of env] show ?thesis
    by (simp add: upgrade_def init_read_def guarded_user)
qed

lemma ws_reach_user: "ws_reach prompt env c \<Longrightarrow> resting c"
proof (induction rule: ws_reach.induct)
  case (ws_upgraded response u)
  show ?case by (rule upgrade_user)
next
  case (ws_stepped c e)
  have "input_ok c" using ws_reach_input [OF ws_stepped(1)] by (simp add: prompt_def)
  from on_event_user [OF ws_stepped(3) this ws_stepped(2)] show ?case .
qed

section \<open>Connections that wait for nothing\<close>

lemma no_read_event:
  assumes "reads_pending c = []" and "enabled e c"
  shows "reads_pending (on_event env e c) = []"
proof -
  have "\<And>data. e \<noteq> HeaderRead data" "\<And>data. e \<noteq> PayloadRead data" "e \<noteq> ReadFails"
    using assms by (auto simp: enabled_def)
  from other_event_input [OF this, of c env] show ?thesis using assms(1) by (simp add: same_input_def)
qed

lemma no_read_events:
  "reads_pending c = [] \<Longrightarrow> all_enabled env es c \<Longrightarrow> reads_pending (on_events env es c) = []"
  using no_read_event by (induction es arbitrary: c) (simp_all del: on_event.simps)

text \<open>The last part of a payload that the validator takes and whose frame it then refuses.\<close>

lemma overwrite_part:
  "pos + length data \<le> length p \<Longrightarrow> take (length data) (drop pos (overwrite pos data p)) = data"
  by (simp add: overwrite_def)

lemma refused_at_end:
  assumes "resting c" and "input_ok c" and "socket_is_open c" and "m_read_state c = read_any_frame"
    and "reads_pending c = [ReadPayload pos (length data) True]"
    and "process_and_unmask_next_payload_part data (m_protocol_validator c) = Inr (payload_part_is_valid, out, v)"
    and "fst (finish_frame v) = incorrect_utf8_data"
  shows "reads_pending (on_event env (PayloadRead data) c) = []"
    and "m_read_state (on_event env (PayloadRead data) c) = read_only_close_frame"
proof -
  let ?c = "read_completed c"
  let ?d = "?c\<lparr>m_payload := overwrite pos out (overwrite pos data (m_payload ?c)), m_protocol_validator := v\<rparr>"
  obtain w where w: "finish_frame v = (incorrect_utf8_data, w)" using assms(7) by (cases "finish_frame v") auto
  let ?e = "?d\<lparr>m_protocol_validator := w\<rparr>"
  have len: "pos + length data \<le> length (m_payload ?c)"
    using assms(2,5) by (auto simp: input_ok_def read_fits_def read_completed_def)
  have "validate_payload_part env pos (length data) 0 (?c\<lparr>m_payload := overwrite pos data (m_payload ?c)\<rparr>) = Inr ?d"
    using assms(6) by (simp add: validate_payload_part_def overwrite_part [OF len]) (simp add: read_completed_def)
  moreover have "call_handler_on_current_message env ?d = (Stop, handle_invalid_payload env incorrect_utf8_data ?e)"
    by (simp add: call_handler_on_current_message_def Let_def w)
  ultimately have ev: "on_event env (PayloadRead data) c = handle_invalid_payload env incorrect_utf8_data ?e"
    using assms(5) by (simp add: after_read_payload_def Let_def go_on_def guarded_def)
  have run: "running ?e" using resting_running [OF assms(1)] assms(3,5) by simp
  then have u: "user_ok ?e" "open_ok ?e" "told ?e = 0" "m_close_frame_to_peer ?e"
    using assms(3,4) by (simp_all add: running_def reading_ok_def read_completed_def)
  show "reads_pending (on_event env (PayloadRead data) c) = []"
    using handle_invalid_payload_input [of ?e env incorrect_utf8_data] assms(5)
    unfolding ev same_input_def by (simp add: read_completed_def)
  let ?act = "\<lambda>c. start_waiting_close_frame_only env (send_close_frame_to_peer env 1007 c)"
  let ?f = "close_frame_to_peer_first ?act ?e"
  have h: "handle_invalid_payload env incorrect_utf8_data ?e = call_close_handler_if_necessary env 1007 ?f"
    using assms(4) by (simp add: handle_invalid_payload_def read_completed_def)
  have f: "m_read_state ?f = read_only_close_frame"
    using u(4) by (simp add: close_frame_to_peer_first_def start_waiting_close_frame_only_def
        guard_close_frame_from_peer_operation_def)
  note p = to_peer_first_user [OF u(1,2), of ?act, OF send_waiting_frame]
  have same: "m_close_frame_to_user ?f = m_close_frame_to_user ?e" "ws_referenced ?f = ws_referenced ?e"
    using send_waiting_frame [of env 1007 "?e\<lparr>m_close_frame_to_peer := False\<rparr>"]
    by (auto simp: close_frame_to_peer_first_def)
  with p(2) have "\<not> m_close_frame_to_user ?f \<Longrightarrow> open_ok ?f" by simp
  note r = call_close_handler_user [OF p(1) this, of env 1007, folded h ev]
  show "m_read_state (on_event env (PayloadRead data) c) = read_only_close_frame"
    using r(4) f by (cases "m_read_state (on_event env (PayloadRead data) c)") (auto simp: act_rel_def)
qed

section \<open>Properties\<close>

text \<open>
  C32: who is told of the end. Over every order of events in which no data arrives after the socket
  was closed, the application is given at most one message that says the connection ends, be it
  the peer's close frame or one that the connection makes up after an error or a timeout; and
  once the socket is closed it was given one, or had given up its connection itself.
\<close>

theorem told_once:
  assumes "ws_reach prompt env c"
  shows "told c \<le> 1 \<and> (\<not> socket_is_open c \<longrightarrow> told c = 1 \<or> \<not> ws_has_connection c)"
proof -
  have "user_ok c" "open_ok c" using ws_reach_user [OF assms] by (simp_all add: resting_def)
  then show ?thesis by (auto simp: user_ok_def open_ok_def)
qed

theorem told_once_witness:
  "\<not> socket_is_open (on_event quiet_env ReadFails sample_connection) \<and>
   told (on_event quiet_env ReadFails sample_connection) = 1"
proof -
  have "prompt ReadFails sample_connection" by code_simp
  then have "ws_reach prompt quiet_env (on_event quiet_env ReadFails sample_connection)"
    by (rule ws_stepped [OF sample_reach])
  from told_once [OF this] have "\<not> socket_is_open (on_event quiet_env ReadFails sample_connection) \<longrightarrow>
      told (on_event quiet_env ReadFails sample_connection) = 1 \<or>
      \<not> ws_has_connection (on_event quiet_env ReadFails sample_connection)" by blast
  moreover have "\<not> socket_is_open (on_event quiet_env ReadFails sample_connection)"
    "ws_has_connection (on_event quiet_env ReadFails sample_connection)" by code_simp+
  ultimately show ?thesis by blast
qed

text \<open>
  Without the restriction on the order it is not so. When a write fails while the peer's close
  frame has been read and its callback is waiting, the application is told of a lost connection
  and then given the close frame of the peer, although the socket was closed in between.
\<close>

theorem told_twice:
  "\<exists>c. ws_reach enabled quiet_env c \<and> \<not> socket_is_open c \<and>
     map msg_payload (handler_calls c) = [status_code_to_bin 1006, status_code_to_bin 1000] \<and> told c = 2"
proof -
  let ?es = "[WriteFails, HeaderRead [0x88, 0x82, 0, 0, 0, 0, 0x03, 0xE8]]"
  let ?c = "on_events quiet_env ?es sample_connection"
  have "all_enabled quiet_env ?es sample_connection" by code_simp
  from ws_reach_events [OF sample_reach this] have "ws_reach enabled quiet_env ?c" .
  moreover have "\<not> socket_is_open ?c" by code_simp
  moreover have "map msg_payload (handler_calls ?c) = [status_code_to_bin 1006, status_code_to_bin 1000]" by code_simp
  moreover have "told ?c = 2" by code_simp
  ultimately show ?thesis by (intro exI [of _ ?c] conjI)
qed

text \<open>
  C35: a text that ends inside a symbol. When the last part of a final frame is valid byte by byte and
  the end of the frame is not, the connection sends its close frame and waits for the one of the
  peer, but it has started no read: whatever happens afterwards no read is ever pending, so the
  peer's close frame is not seen and the connection stays until a timeout or an error.
\<close>

theorem truncated_text_stalls:
  assumes "ws_reach prompt env c" and "socket_is_open c" and "m_read_state c = read_any_frame"
    and "reads_pending c = [ReadPayload pos (length data) True]"
    and "process_and_unmask_next_payload_part data (m_protocol_validator c) = Inr (payload_part_is_valid, out, v)"
    and "fst (finish_frame v) = incorrect_utf8_data"
    and "all_enabled env es (on_event env (PayloadRead data) c)"
  shows "m_read_state (on_event env (PayloadRead data) c) = read_only_close_frame \<and>
    reads_pending (on_events env es (on_event env (PayloadRead data) c)) = []"
proof -
  have r: "resting c" by (rule ws_reach_user [OF assms(1)])
  have i: "input_ok c" by (rule ws_reach_input [OF assms(1)]) (simp add: prompt_def)
  note e = refused_at_end [OF r i assms(2-6), of env]
  from no_read_events [OF e(1) assms(7)] e(2) show ?thesis by blast
qed

theorem truncated_text_stalls_witness:
  "reads_pending (on_events quiet_env [WriteDone, WriteDone, Tick 60]
     (on_event quiet_env (PayloadRead [0xC3]) (on_event quiet_env (HeaderRead [0x81, 0x81, 0, 0, 0, 0]) sample_connection))) = []"
proof -
  let ?e = "HeaderRead [0x81, 0x81, 0, 0, 0, 0]"
  let ?c = "on_event quiet_env ?e sample_connection"
  have "prompt ?e sample_connection" by code_simp
  then have "ws_reach prompt quiet_env ?c" by (rule ws_stepped [OF sample_reach])
  moreover have "socket_is_open ?c" "m_read_state ?c = read_any_frame"
    "reads_pending ?c = [ReadPayload 0 (length [0xC3 :: byte_t]) True]" by code_simp+
  moreover obtain st out v where
    p: "process_and_unmask_next_payload_part [0xC3] (m_protocol_validator ?c) = Inr (st, out, v)"
      "st = payload_part_is_valid" "fst (finish_frame v) = incorrect_utf8_data"
  proof -
    have "case process_and_unmask_next_payload_part [0xC3] (m_protocol_validator ?c) of
        Inl e \<Rightarrow> False | Inr (st, out, v) \<Rightarrow> st = payload_part_is_valid \<and> fst (finish_frame v) = incorrect_utf8_data"
      by code_simp
    then show thesis using that by (auto split: sum.splits)
  qed
  moreover have "all_enabled quiet_env [WriteDone, WriteDone, Tick 60] (on_event quiet_env (PayloadRead [0xC3]) ?c)"
    by code_simp
  ultimately show ?thesis using truncated_text_stalls [of quiet_env ?c 0 "[0xC3]"] by blast
qed

end
