(* ===== verification/WsDelivery.thy ===== *)
theory WsDelivery
  imports WsEnding
begin

text \<open>
  What a WebSocket connection delivers (the model of theory \<open>WsConnection\<close>): the bytes of frames
  that the validator accepts, cut into reads in any way and with any writes in between, reach
  the application's handler as one message per frame, in order, each with its payload unmasked.
\<close>

section \<open>Accepted frames\<close>

text \<open>What the validator makes of a whole frame: its payload and the validator after it.\<close>

type_synonym frame = "message_details_t \<times> raw_data_t"

definition take_payload :: "raw_data_t \<Rightarrow> ws_protocol_validator_t \<Rightarrow> (raw_data_t \<times> ws_protocol_validator_t) option" where
  "take_payload data v =
     (case payload_loop data (set_validation_state payload_part_is_valid v) of
        Inl e \<Rightarrow> None
      | Inr (out, w) \<Rightarrow> if m_validation_state w = payload_part_is_valid then Some (out, w) else None)"

definition take_frame :: "frame \<Rightarrow> ws_protocol_validator_t \<Rightarrow> (raw_data_t \<times> ws_protocol_validator_t) option" where
  "take_frame f v =
     (case process_new_frame (fst f) v of
        Inl e \<Rightarrow> None
      | Inr (st, w) \<Rightarrow>
          if st \<noteq> frame_header_is_valid then None
          else Option.bind (take_payload (snd f) w) (\<lambda>(out, w).
            case finish_frame w of (st, w) \<Rightarrow> if st = frame_is_valid then Some (out, w) else None))"

fun take_frames :: "frame list \<Rightarrow> ws_protocol_validator_t \<Rightarrow> (raw_data_t list \<times> ws_protocol_validator_t) option" where
  "take_frames [] v = Some ([], v)"
| "take_frames (f # fs) v =
     Option.bind (take_frame f v) (\<lambda>(out, w).
       Option.bind (take_frames fs w) (\<lambda>(outs, w). Some (out # outs, w)))"

definition frame_message :: "frame \<Rightarrow> raw_data_t \<Rightarrow> message_t" where
  "frame_message f out =
     \<lparr>final_flag = (if m_final_flag (fst f) then final_frame else not_final_frame),
      msg_opcode = m_opcode (fst f), msg_payload = out\<rparr>"

definition frame_messages :: "frame list \<Rightarrow> raw_data_t list \<Rightarrow> message_t list" where
  "frame_messages fs outs = map2 frame_message fs outs"

definition frame_bytes :: "frame \<Rightarrow> raw_data_t" where
  "frame_bytes f = write_message_details (fst f) @ snd f"

definition stream :: "frame list \<Rightarrow> raw_data_t" where
  "stream fs = concat (map frame_bytes fs)"

text \<open>Frames as they can be sent: a header that can be written, the payload it announces, no close frame.\<close>

definition good_frame :: "frame \<Rightarrow> bool" where
  "good_frame f \<longleftrightarrow> wf_details (fst f) \<and> length (snd f) = unat (payload_len (fst f)) \<and>
     m_opcode (fst f) \<noteq> connection_close_frame"

lemma stream_simps [simp]: "stream [] = []" "stream (f # fs) = frame_bytes f @ stream fs"
  by (simp_all add: stream_def)

lemma frame_messages_simps [simp]:
  "frame_messages [] [] = []" "frame_messages (f # fs) (out # outs) = frame_message f out # frame_messages fs outs"
  by (simp_all add: frame_messages_def)

section \<open>Parts of a payload\<close>

lemma payload_loop_append:
  assumes "m_validation_state v = payload_part_is_valid"
    and "payload_loop (a @ b) v = Inr (out, w)" and "m_validation_state w = payload_part_is_valid"
  shows "\<exists>x y z. payload_loop a v = Inr (x, z) \<and> m_validation_state z = payload_part_is_valid \<and>
    payload_loop b z = Inr (y, w) \<and> out = x @ y"
  using assms
proof (induction a arbitrary: v out)
  case (Cons c a)
  from Cons.prems(2) obtain d v' where d: "process_payload_byte c v = Inr (d, v')"
    by (cases "process_payload_byte c v") auto
  show ?case
  proof (cases "m_validation_state v' = payload_part_is_valid")
    case False
    then show ?thesis using Cons.prems d by simp
  next
    case True
    with Cons.prems(2) d obtain out' where o: "payload_loop (a @ b) v' = Inr (out', w)" "out = d # out'"
      by (cases "payload_loop (a @ b) v'") auto
    from Cons.IH [OF True o(1) Cons.prems(3)] obtain x y z where
      "payload_loop a v' = Inr (x, z)" "m_validation_state z = payload_part_is_valid"
      "payload_loop b z = Inr (y, w)" "out' = x @ y" by blast
    then show ?thesis using d o(2) True by simp
  qed
qed auto

lemma payload_loop_working_state:
  assumes "close_code_ok v" and "payload_loop data v = Inr (out, w)"
  shows "close_code_ok w" and "m_working_state w = m_working_state v" and "length out = length data"
  using payload_loop_working [OF assms(1), of data] assms(2) by auto

lemma take_payload_part:
  assumes "m_working_state v = processing_frame" and "close_code_ok v" and "is_state_still_valid v"
    and "take_payload (a @ b) v = Some (out, w)"
  shows "\<exists>x y z. process_and_unmask_next_payload_part a v = Inr (payload_part_is_valid, x, z) \<and>
    take_payload b z = Some (y, w) \<and> out = x @ y \<and> length x = length a \<and>
    m_working_state z = processing_frame \<and> close_code_ok z \<and> is_state_still_valid z \<and> m_validation_state z = payload_part_is_valid"
proof -
  let ?v = "set_validation_state payload_part_is_valid v"
  have c: "close_code_ok ?v" using assms(2) by (simp add: close_code_ok_def)
  from assms(4) have "payload_loop (a @ b) ?v = Inr (out, w)" "m_validation_state w = payload_part_is_valid"
    by (auto simp: take_payload_def split: sum.splits if_splits)
  from payload_loop_append [OF _ this] obtain x y z where
    r: "payload_loop a ?v = Inr (x, z)" "m_validation_state z = payload_part_is_valid"
      "payload_loop b z = Inr (y, w)" "out = x @ y" by auto
  note k = payload_loop_working_state [OF c r(1)]
  have "process_and_unmask_next_payload_part a v = Inr (payload_part_is_valid, x, z)"
    using assms(1,3) r(1,2) by (simp add: process_and_unmask_next_payload_part_def)
  moreover have "set_validation_state payload_part_is_valid z = z" using r(2) by simp
  then have "take_payload b z = Some (y, w)"
    using r(3) \<open>m_validation_state w = payload_part_is_valid\<close> by (simp add: take_payload_def)
  ultimately show ?thesis using r k assms(1) by (auto simp: is_state_still_valid_def)
qed

lemma take_payload_nil: "take_payload [] v = Some (out, w) \<longleftrightarrow> out = [] \<and> w = set_validation_state payload_part_is_valid v"
  by (auto simp: take_payload_def)

lemma finish_frame_part:
  "is_state_still_valid v \<Longrightarrow> finish_frame (set_validation_state payload_part_is_valid v) = finish_frame v"
  by (simp add: finish_frame_def is_state_still_valid_def Let_def)

section \<open>Parts of a header\<close>

lemma header_parts:
  assumes "wf_details md" and "write_message_details md = pre @ post"
  shows "\<exists>q r. parser_loop 0 pre (reset_parser p) = Inr (length pre, r) \<and> (post \<noteq> [] \<longrightarrow> \<not> header_parsed r) \<and>
    (\<forall>rest. parser_loop 0 (post @ rest) r = Inr (length post, q)) \<and> header_parsed q \<and> m_current_msg q = md"
proof -
  obtain q where q: "parser_loop 0 (write_message_details md) (reset_parser p) = Inr (length (write_message_details md), q)"
    "header_parsed q" "m_current_msg q = md"
    using parse_written [OF assms(1), of 0 "[]" p] by auto
  have all: "parser_loop 0 (pre @ post @ rest) (reset_parser p) = Inr (length (pre @ post), q)" for rest
  proof -
    have "parser_loop 0 (write_message_details md @ rest) (reset_parser p) = Inr (length (write_message_details md), q)"
      by (subst parser_loop_append) (simp add: q)
    then show ?thesis by (simp add: assms(2))
  qed
  from parser_loop_pieces [OF all [of "[]"]] obtain r where r: "parser_loop 0 pre (reset_parser p) = Inr (length pre, r)"
    by blast
  have post: "parser_loop 0 (post @ rest) r = Inr (length post, q)" for rest
    using parser_loop_pieces [OF all [of rest]] r by auto
  have "\<not> header_parsed r" if "post \<noteq> []"
    using post [of "[]"] that by (cases "header_parsed r") auto
  with r post q show ?thesis by blast
qed

section \<open>A peaceful application\<close>

text \<open>One that only sends messages, with opcodes that have names, and does not close the connection.\<close>

fun peaceful_action :: "ws_action \<Rightarrow> bool" where
  "peaceful_action (SendMessage fin op p) \<longleftrightarrow> named_action (SendMessage fin op p) \<and> op \<noteq> connection_close_frame"
| "peaceful_action a \<longleftrightarrow> False"

definition peaceful :: "ws_env \<Rightarrow> bool" where
  "peaceful env \<longleftrightarrow> (\<forall>n. resize_succeeds env n) \<and>
     (\<forall>ms m. msg_opcode m \<noteq> connection_close_frame \<longrightarrow> list_all peaceful_action (m_msg_handler env (ms @ [m])))"

text \<open>What its answers to the messages from the number \<open>n\<close> on put into the queue of output.\<close>

fun action_groups :: "ws_action list \<Rightarrow> write_group_t list" where
  "action_groups [] = []"
| "action_groups (SendMessage fin op p # as) = [write_message_header fin op (length p), p] # action_groups as"
| "action_groups (a # as) = action_groups as"

definition answers :: "ws_env \<Rightarrow> nat \<Rightarrow> message_t list \<Rightarrow> write_group_t list" where
  "answers env n ms = concat (map (\<lambda>i. action_groups (m_msg_handler env (take (Suc i) ms))) [n ..< length ms])"

lemma answers_simps [simp]:
  "answers env (length ms) ms = []"
  "n \<le> length ms \<Longrightarrow> answers env n (ms @ [m]) = answers env n ms @ action_groups (m_msg_handler env (ms @ [m]))"
proof -
  have *: "map (\<lambda>i. action_groups (m_msg_handler env (take (Suc i) (ms @ [m])))) [n ..< length ms] =
      map (\<lambda>i. action_groups (m_msg_handler env (take (Suc i) ms))) [n ..< length ms]"
    by (rule map_cong) auto
  then show "n \<le> length ms \<Longrightarrow> answers env n (ms @ [m]) = answers env n ms @ action_groups (m_msg_handler env (ms @ [m]))"
    unfolding answers_def by (simp add: * del: take_append map_eq_conv)
qed (simp add: answers_def)

text \<open>A connection that serves it since the state \<open>s\<close>.\<close>

definition serving :: "ws_env \<Rightarrow> ws_connection_t \<Rightarrow> ws_connection_t \<Rightarrow> bool" where
  "serving env s c \<longleftrightarrow> m_read_state c = read_any_frame \<and> m_websocket_weak_handle c \<and> ws_referenced c \<and>
     ws_has_connection c \<and> m_write_state c = write_enabled \<and> socket_is_open c \<and> output_inv c \<and>
     length (handler_calls s) \<le> length (handler_calls c) \<and>
     sent c = sent s @ answers env (length (handler_calls s)) (handler_calls c)"

text \<open>Such a state, on its own.\<close>

definition in_service :: "ws_connection_t \<Rightarrow> bool" where
  "in_service c \<longleftrightarrow> m_read_state c = read_any_frame \<and> m_websocket_weak_handle c \<and> ws_referenced c \<and>
     ws_has_connection c \<and> m_write_state c = write_enabled \<and> socket_is_open c \<and> output_inv c"

lemma serving_starts: "serving env c c \<longleftrightarrow> in_service c"
  by (simp add: serving_def in_service_def)

lemma serving_in_service: "serving env s c \<Longrightarrow> in_service c"
  by (simp add: serving_def in_service_def)

lemma output_updates [simp]:
  "output_inv (c\<lparr>m_payload := p\<rparr>) = output_inv c" "sent (c\<lparr>m_payload := p\<rparr>) = sent c"
  "output_inv (c\<lparr>m_protocol_validator := v\<rparr>) = output_inv c" "sent (c\<lparr>m_protocol_validator := v\<rparr>) = sent c"
  "output_inv (c\<lparr>m_buf := b\<rparr>) = output_inv c" "sent (c\<lparr>m_buf := b\<rparr>) = sent c"
  "output_inv (c\<lparr>m_parser := q\<rparr>) = output_inv c" "sent (c\<lparr>m_parser := q\<rparr>) = sent c"
  "output_inv (c\<lparr>reads_pending := r\<rparr>) = output_inv c" "sent (c\<lparr>reads_pending := r\<rparr>) = sent c"
  "output_inv (c\<lparr>steady_clock := t\<rparr>) = output_inv c" "sent (c\<lparr>steady_clock := t\<rparr>) = sent c"
  "output_inv (c\<lparr>handler_calls := h\<rparr>) = output_inv c" "sent (c\<lparr>handler_calls := h\<rparr>) = sent c"
  by (simp_all add: output_inv_def sent_def output_ok_def group_written_def cong: option.case_cong)

text \<open>A message joins the queue of output.\<close>

lemma write_data_appends:
  assumes "output_inv c" and "m_write_state c = write_enabled" and "socket_is_open c" and "good_group wg" and "\<not> is_close_group wg"
  obtains x q w n t where "write_data env wg False c = with_output x q w n t c" and "w @ q = sent c @ [wg]"
proof -
  have ok: "group_written c" "list_all good_group (m_outgoing_data c)" "no_close (sent c)"
    using assms(1,2) by (simp_all add: output_inv_def output_ok_def)
  then have "closes_last (sent c @ [wg])" by simp
  then obtain x q w n t where e: "init_write_if_necessary env (append_outgoing wg c) = with_output x q w n t c"
    and g: "socket_is_open c \<longrightarrow> w @ q = sent c @ [wg]"
    by (rule append_write [OF ok(1,2) assms(4)])
  have "write_data env wg False c = with_output x q w n t c"
    using assms(2,3) e by (simp add: write_data_def write_data_impl_def)
  moreover have "w @ q = sent c @ [wg]" using g assms(3) by simp
  ultimately show thesis by (rule that)
qed

text \<open>The fields that sending leaves as they are.\<close>

definition same_service :: "ws_connection_t \<Rightarrow> ws_connection_t \<Rightarrow> bool" where
  "same_service c d \<longleftrightarrow> m_read_state d = m_read_state c \<and> m_websocket_weak_handle d = m_websocket_weak_handle c \<and>
     ws_referenced d = ws_referenced c \<and> ws_has_connection d = ws_has_connection c \<and> m_write_state d = m_write_state c \<and>
     socket_is_open d = socket_is_open c \<and> handler_calls d = handler_calls c"

lemma send_appends:
  assumes "output_inv c" and "m_write_state c = write_enabled" and "socket_is_open c" and "ws_has_connection c"
    and "peaceful_action (SendMessage fin op p)"
  obtains d where "ws_send_message env fin op p c = Inr d" and "same_service c d" and "output_inv d"
    and "sent d = sent c @ [[write_message_header fin op (length p), p]]"
proof -
  let ?wg = "[write_message_header fin op (length p), p]"
  have op: "op \<noteq> connection_close_frame" "named_action (SendMessage fin op p)" using assms(5) by simp_all
  then have "\<not> code_of_opcode op AND 0x0F = 0x08" by (cases op) auto
  then have g: "good_group ?wg" "\<not> is_close_group ?wg" by (simp_all add: good_group_def is_close_header)
  obtain x q w n t where e: "write_data env ?wg False c = with_output x q w n t c" "w @ q = sent c @ [?wg]"
    by (rule write_data_appends [OF assms(1-3) g])
  have s: "ws_send_message env fin op p c = Inr (write_data env ?wg False c)"
    using assms(4) op(1) by (simp add: ws_send_message_def)
  show thesis
  proof (rule that [OF s])
    show "output_inv (write_data env ?wg False c)"
      using output_inv_rel [OF assms(1) ws_send_message_out [OF s op(2)]] .
  qed (use e in \<open>simp_all add: same_service_def sent_def\<close>)
qed

lemma peaceful_actions:
  "list_all peaceful_action as \<Longrightarrow> output_inv c \<Longrightarrow> m_write_state c = write_enabled \<Longrightarrow> socket_is_open c \<Longrightarrow>
     ws_has_connection c \<Longrightarrow>
     same_service c (handler_actions env as c) \<and> output_inv (handler_actions env as c) \<and>
     sent (handler_actions env as c) = sent c @ action_groups as"
proof (induction env as c rule: handler_actions.induct)
  case (2 env fin op p as c)
  from "2.prems"(1) have "peaceful_action (SendMessage fin op p)" by simp
  then obtain d where d: "ws_send_message env fin op p c = Inr d" "same_service c d" "output_inv d"
    "sent d = sent c @ [[write_message_header fin op (length p), p]]"
    using send_appends [OF "2.prems"(2-5)] by metis
  then show ?case using "2.IH" [OF d(1)] "2.prems" by (simp add: same_service_def)
qed (simp_all add: same_service_def)

lemma peaceful_call:
  assumes "peaceful env" and "serving env s c" and "msg_opcode m \<noteq> connection_close_frame"
  shows "serving env s (call_message_handler env m c)"
    and "handler_calls (call_message_handler env m c) = handler_calls c @ [m]"
proof -
  let ?c = "c\<lparr>handler_calls := handler_calls c @ [m]\<rparr>"
  let ?as = "m_msg_handler env (handler_calls ?c)"
  let ?d = "handler_actions env ?as ?c"
  have "list_all peaceful_action ?as" using assms(1,3) by (simp add: peaceful_def)
  then have d: "same_service ?c ?d" "output_inv ?d" "sent ?d = sent c @ action_groups ?as"
    using peaceful_actions [of ?as ?c env] assms(2) by (simp_all add: serving_def)
  have "call_message_handler env m c = destroy_ws env ?d"
    using assms(2) by (simp add: call_message_handler_def serving_def Let_def)
  moreover have "destroy_ws env ?d = ?d" using d(1) assms(2) by (simp add: destroy_ws_def same_service_def serving_def)
  ultimately have e: "call_message_handler env m c = ?d" by simp
  show "serving env s (call_message_handler env m c)"
    "handler_calls (call_message_handler env m c) = handler_calls c @ [m]"
    using d assms(2) unfolding e by (simp_all add: serving_def same_service_def)
qed

section \<open>Between and within frames\<close>

text \<open>
  The frames \<open>fs\<close> are to come, the first of them from its beginning; \<open>bytes\<close> of them are not in the
  buffer yet; \<open>msgs\<close> are the messages that will have been delivered then, and \<open>w\<close> the validator.
\<close>

definition to_come :: "frame list \<Rightarrow> ws_protocol_validator_t \<Rightarrow> message_t list \<Rightarrow> message_t list \<Rightarrow>
    ws_protocol_validator_t \<Rightarrow> bool" where
  "to_come fs v calls msgs w \<longleftrightarrow> list_all good_frame fs \<and> m_working_state v = empty_state \<and> close_code_ok v \<and>
     (\<exists>outs. take_frames fs v = Some (outs, w) \<and> msgs = calls @ frame_messages fs outs)"

definition between_frames :: "ws_env \<Rightarrow> ws_connection_t \<Rightarrow> message_t list \<Rightarrow> ws_protocol_validator_t \<Rightarrow> raw_data_t \<Rightarrow> ws_connection_t \<Rightarrow> bool" where
  "between_frames env s msgs w bytes c \<longleftrightarrow> serving env s c \<and> reads_pending c = [] \<and>
     (\<exists>fs. to_come fs (m_protocol_validator c) (handler_calls c) msgs w \<and> stream fs = m_buf c @ bytes)"

definition in_header :: "ws_env \<Rightarrow> ws_connection_t \<Rightarrow> message_t list \<Rightarrow> ws_protocol_validator_t \<Rightarrow> raw_data_t \<Rightarrow> ws_connection_t \<Rightarrow> bool" where
  "in_header env s msgs w bytes c \<longleftrightarrow> serving env s c \<and> reads_pending c = [ReadHeader] \<and> m_buf c = [] \<and>
     (\<exists>fs pre p. to_come fs (m_protocol_validator c) (handler_calls c) msgs w \<and> stream fs = pre @ bytes \<and>
        parser_loop 0 pre (reset_parser p) = Inr (length pre, m_parser c) \<and> \<not> header_parsed (m_parser c))"

definition in_payload :: "ws_env \<Rightarrow> ws_connection_t \<Rightarrow> message_t list \<Rightarrow> ws_protocol_validator_t \<Rightarrow> raw_data_t \<Rightarrow> ws_connection_t \<Rightarrow> bool" where
  "in_payload env s msgs w bytes c \<longleftrightarrow> serving env s c \<and> m_buf c = [] \<and>
     (\<exists>f fs rest x y z v'. good_frame f \<and> m_current_msg (m_parser c) = fst f \<and> rest \<noteq> [] \<and> bytes = rest @ stream fs \<and>
        length (m_payload c) = length x + length rest \<and> take (length x) (m_payload c) = x \<and>
        reads_pending c = [ReadPayload (length x) (length rest) True] \<and>
        m_working_state (m_protocol_validator c) = processing_frame \<and> close_code_ok (m_protocol_validator c) \<and>
        is_state_still_valid (m_protocol_validator c) \<and>
        take_payload rest (m_protocol_validator c) = Some (y, z) \<and> finish_frame z = (frame_is_valid, v') \<and>
        to_come fs v' (handler_calls c @ [frame_message f (x @ y)]) msgs w)"

definition waiting :: "ws_env \<Rightarrow> ws_connection_t \<Rightarrow> message_t list \<Rightarrow> ws_protocol_validator_t \<Rightarrow> raw_data_t \<Rightarrow> ws_connection_t \<Rightarrow> bool" where
  "waiting env s msgs w bytes c \<longleftrightarrow> in_header env s msgs w bytes c \<or> in_payload env s msgs w bytes c"

text \<open>What a step of a reading callback leads to.\<close>

definition reaches :: "ws_env \<Rightarrow> ws_connection_t \<Rightarrow> message_t list \<Rightarrow> ws_protocol_validator_t \<Rightarrow> raw_data_t \<Rightarrow> flow \<times> ws_connection_t \<Rightarrow> bool" where
  "reaches env s msgs w bytes r \<longleftrightarrow>
     (case r of (Again, c) \<Rightarrow> between_frames env s msgs w bytes c | (Stop, c) \<Rightarrow> waiting env s msgs w bytes c | (Throw, c) \<Rightarrow> False)"

lemma reaches_simps:
  "reaches env s msgs w bytes (Again, c) = between_frames env s msgs w bytes c"
  "reaches env s msgs w bytes (Stop, c) = waiting env s msgs w bytes c"
  "reaches env s msgs w bytes (Throw, c) = False"
  by (simp_all add: reaches_def)

text \<open>The end of a frame.\<close>

lemma frame_end:
  assumes "peaceful env" and "serving env s c" and "reads_pending c = []"
    and "good_frame f" and "m_current_msg (m_parser c) = fst f" and "finish_frame (m_protocol_validator c) = (frame_is_valid, v')"
    and "to_come fs v' (handler_calls c @ [frame_message f (m_payload c)]) msgs w" and "stream fs = m_buf c @ bytes"
  shows "reaches env s msgs w bytes (call_handler_on_current_message env c)"
proof -
  let ?c = "c\<lparr>m_protocol_validator := v', m_payload := []\<rparr>"
  let ?d = "call_message_handler env (frame_message f (m_payload c)) ?c"
  have sv: "serving env s ?c" using assms(2) by (simp add: serving_def)
  have op: "(connection_close_frame = m_opcode (fst f)) = False" using assms(4) by (auto simp: good_frame_def)
  then have "msg_opcode (frame_message f (m_payload c)) \<noteq> connection_close_frame" by (auto simp: frame_message_def)
  note d = peaceful_call [OF assms(1) sv this]
  have rs: "read_nothing \<noteq> m_read_state ?d" using d(1) by (simp add: serving_def)
  have "call_handler_on_current_message env c = (Again, ?d)"
    using assms(2,5,6) rs
    by (simp add: call_handler_on_current_message_def serving_def frame_message_def op Let_def)
  moreover have "between_frames env s msgs w bytes ?d"
    using d call_message_handler_input [of ?c env "frame_message f (m_payload c)"] assms(3,7,8)
    by (auto simp: between_frames_def same_input_def)
  ultimately show ?thesis by (simp add: reaches_simps)
qed

text \<open>A part \<open>a\<close> of a payload after the part \<open>x\<close> that is already unmasked.\<close>

lemma payload_part_step:
  assumes "peaceful env" and "serving env s c" and "reads_pending c = []"
    and "good_frame f" and "m_current_msg (m_parser c) = fst f"
    and "m_working_state (m_protocol_validator c) = processing_frame" and "close_code_ok (m_protocol_validator c)"
    and "is_state_still_valid (m_protocol_validator c)"
    and "take (length x) (m_payload c) = x" and "take (length a) (drop (length x) (m_payload c)) = a"
    and "length (m_payload c) = length x + length a + length rest"
    and "take_payload (a @ rest) (m_protocol_validator c) = Some (y, z)" and "finish_frame z = (frame_is_valid, v')"
    and "to_come fs v' (handler_calls c @ [frame_message f (x @ y)]) msgs w"
    and "if rest = [] then stream fs = m_buf c @ bytes else m_buf c = [] \<and> bytes = rest @ stream fs"
  shows "reaches env s msgs w bytes
    (case validate_payload_part env (length x) (length a) (length rest) c of
       Inl r \<Rightarrow> r
     | Inr c \<Rightarrow> if 0 = length rest then call_handler_on_current_message env c
               else (Stop, start_read_payload (length x + length a) (length rest) True c))"
proof -
  from take_payload_part [OF assms(6-8,12)] obtain x' y' z' where
    r: "process_and_unmask_next_payload_part a (m_protocol_validator c) = Inr (payload_part_is_valid, x', z')"
      "take_payload rest z' = Some (y', z)" "y = x' @ y'" "length x' = length a"
      "m_working_state z' = processing_frame" "close_code_ok z'" "is_state_still_valid z'"
      "m_validation_state z' = payload_part_is_valid" by blast
  let ?p = "overwrite (length x) x' (m_payload c)"
  let ?c = "c\<lparr>m_payload := ?p, m_protocol_validator := z'\<rparr>"
  have p: "?p = (x @ x') @ drop (length x + length a) (m_payload c)"
    using assms(9) r(4) by (simp add: overwrite_def)
  have v: "validate_payload_part env (length x) (length a) (length rest) c = Inr ?c"
    using assms(10) r(1) by (simp add: validate_payload_part_def)
  have sv: "serving env s ?c" using assms(2) by (simp add: serving_def)
  show ?thesis
  proof (cases "rest = []")
    case True
    have "set_validation_state payload_part_is_valid z' = z'" using r(8) by simp
    with r(2) True have z: "y' = []" "z = z'" by (simp_all add: take_payload_nil)
    have full: "m_payload ?c = x @ y" using p assms(11) True r(3) z by simp
    have "reaches env s msgs w bytes (call_handler_on_current_message env ?c)"
      using assms(3,5,13-15) True z full
      by (intro frame_end [OF assms(1) sv _ assms(4), where v' = v' and fs = fs]) simp_all
    then show ?thesis using v True by simp
  next
    case False
    have len: "length (x @ x') = length x + length a" using r(4) by simp
    have "length (m_payload ?c) = length (x @ x') + length rest" "take (length (x @ x')) (m_payload ?c) = x @ x'"
      using assms(11) r(4) p by simp_all
    then have "in_payload env s msgs w bytes (start_read_payload (length x + length a) (length rest) True ?c)"
      using False assms(3-5,13-15) sv r len unfolding in_payload_def
      by (intro conjI exI [of _ f] exI [of _ fs] exI [of _ rest] exI [of _ "x @ x'"] exI [of _ y'] exI [of _ z] exI [of _ v'])
         (simp_all add: start_read_payload_def serving_def)
    then show ?thesis using v False by (simp add: reaches_simps waiting_def)
  qed
qed

text \<open>The header of a frame is complete: the rest of the buffer is payload, and more.\<close>

lemma valid_header_step:
  assumes "peaceful env" and "serving env s c" and "reads_pending c = []"
    and "good_frame f" and "m_current_msg (m_parser c) = fst f"
    and "m_working_state (m_protocol_validator c) = processing_frame" and "close_code_ok (m_protocol_validator c)"
    and "is_state_still_valid (m_protocol_validator c)"
    and "take_payload (snd f) (m_protocol_validator c) = Some (y, z)" and "finish_frame z = (frame_is_valid, v')"
    and "to_come fs v' (handler_calls c @ [frame_message f y]) msgs w"
    and "snd f @ stream fs = m_buf c @ bytes"
  shows "reaches env s msgs w bytes (handle_parsed_and_valid_header env (fst f) c)"
proof -
  define n where "n = unat (payload_len (fst f))"
  have n: "length (snd f) = n" using assms(4) by (simp add: n_def good_frame_def)
  have ok: "resize_succeeds env n" using assms(1) by (simp add: peaceful_def)
  show ?thesis
  proof (cases "n = 0")
    case True
    then have f: "snd f = []" using n by simp
    have y: "y = []" "z = set_validation_state payload_part_is_valid (m_protocol_validator c)"
      using assms(9) f by (simp_all add: take_payload_nil)
    then have "finish_frame (m_protocol_validator c) = (frame_is_valid, v')"
      using assms(10) finish_frame_part [OF assms(8)] by simp
    then have "reaches env s msgs w bytes (call_handler_on_current_message env (c\<lparr>m_payload := []\<rparr>))"
      using assms(2-5,11,12) f y
      by (intro frame_end [OF assms(1), where v' = v' and fs = fs and f = f]) (simp_all add: serving_def)
    then show ?thesis using ok True by (simp add: handle_parsed_and_valid_header_def Let_def n_def [symmetric])
  next
    case False
    define k where "k = min (length (m_buf c)) n"
    define c1 where "c1 = consumed_bytes k (c\<lparr>m_payload := overwrite 0 (take k (m_buf c)) (replicate n 0)\<rparr>)"
    define a where "a = take k (m_buf c)"
    define rest where "rest = drop k (snd f)"
    have k: "length a = k" "k \<le> n" "length rest = n - k" by (simp_all add: a_def k_def rest_def n)
    have af: "snd f = a @ rest"
    proof -
      have "take k (snd f @ stream fs) = take k (m_buf c @ bytes)" using assms(12) by simp
      then have "take k (snd f) = a" using n by (simp add: a_def k_def)
      then show ?thesis by (metis append_take_drop_id rest_def)
    qed
    have c1: "serving env s c1" "reads_pending c1 = []" "m_current_msg (m_parser c1) = fst f"
      "m_protocol_validator c1 = m_protocol_validator c" "handler_calls c1 = handler_calls c"
      "m_payload c1 = overwrite 0 a (replicate n 0)" "m_buf c1 = drop k (m_buf c)"
      using assms(2,3,5) by (simp_all add: c1_def consumed_bytes_def serving_def a_def)
    have pl: "take 0 (m_payload c1) = []" "take (length a) (drop 0 (m_payload c1)) = a"
      "length (m_payload c1) = length ([] :: raw_data_t) + length a + length rest"
      using k by (simp_all add: c1(6) overwrite_def)
    have buf: "if rest = [] then stream fs = m_buf c1 @ bytes else m_buf c1 = [] \<and> bytes = rest @ stream fs"
    proof (cases "rest = []")
      case True
      then show ?thesis using assms(12) af k by (simp add: c1(7)) (metis a_def append_assoc append_take_drop_id same_append_eq)
    next
      case False
      then have "k = length (m_buf c)" using k by (auto simp: k_def min_def split: if_splits)
      then have "a = m_buf c" "m_buf c1 = []" by (simp_all add: a_def c1(7))
      then show ?thesis using False assms(12) af by simp
    qed
    have "reaches env s msgs w bytes
      (case validate_payload_part env (length ([] :: raw_data_t)) (length a) (length rest) c1 of
         Inl r \<Rightarrow> r
       | Inr c \<Rightarrow> if 0 = length rest then call_handler_on_current_message env c
                 else (Stop, start_read_payload (length ([] :: raw_data_t) + length a) (length rest) True c))"
      using c1 pl buf assms(6-11) af
      by (intro payload_part_step [OF assms(1) c1(1,2) assms(4) c1(3), where y = y and z = z and v' = v' and fs = fs])
         simp_all
    moreover have "handle_parsed_and_valid_header env (fst f) c =
        (case validate_payload_part env 0 k (n - k) c1 of
           Inl r \<Rightarrow> r
         | Inr c \<Rightarrow> if n - k = 0 then call_handler_on_current_message env c
                   else (Stop, start_read_payload k (n - k) True c))"
      using valid_header_eq [of env "fst f" c] ok False by (simp only: n_def k_def c1_def) simp
    ultimately show ?thesis using k
      by (cases "validate_payload_part env 0 k (n - k) c1") (auto split: if_splits)
  qed
qed

text \<open>The first of the frames to come.\<close>

lemma new_frame_state: "process_new_frame md v = Inr (st, w) \<Longrightarrow> m_validation_state w = st"
  by (auto simp: process_new_frame_def Let_def split: prod.splits if_splits)

lemma to_come_Cons:
  assumes "to_come (f # fs) v calls msgs w"
  obtains v1 y z v' where
    "process_new_frame (fst f) v = Inr (frame_header_is_valid, v1)" "m_working_state v1 = processing_frame"
    "close_code_ok v1" "is_state_still_valid v1" "good_frame f"
    "take_payload (snd f) v1 = Some (y, z)" "finish_frame z = (frame_is_valid, v')"
    "to_come fs v' (calls @ [frame_message f y]) msgs w"
proof -
  from assms obtain outs where
    t: "take_frames (f # fs) v = Some (outs, w)" "msgs = calls @ frame_messages (f # fs) outs"
      "good_frame f" "list_all good_frame fs" "m_working_state v = empty_state" "close_code_ok v"
    by (auto simp: to_come_def)
  from t(1) obtain y v' outs' where f: "take_frame f v = Some (y, v')" "take_frames fs v' = Some (outs', w)" "outs = y # outs'"
    by (auto simp: Option.bind_eq_Some_conv)
  from new_frame_working [OF t(5,6), of "fst f"] obtain st v1 where
    v1: "process_new_frame (fst f) v = Inr (st, v1)" "close_code_ok v1"
      "m_working_state v1 = (if st = frame_header_is_valid then processing_frame else empty_state)" by blast
  with f(1) have st: "st = frame_header_is_valid" by (auto simp: take_frame_def split: if_splits)
  with f(1) v1(1) obtain x where x: "take_payload (snd f) v1 = Some x"
    "(case x of (out, w) \<Rightarrow> case finish_frame w of (st, w) \<Rightarrow> if st = frame_is_valid then Some (out, w) else None) = Some (y, v')"
    by (auto simp: take_frame_def Option.bind_eq_Some_conv)
  obtain y1 z where "x = (y1, z)" by (cases x)
  with x have z: "take_payload (snd f) v1 = Some (y, z)" "finish_frame z = (frame_is_valid, v')"
    by (cases "finish_frame z"; auto split: if_splits)+
  have "close_code_ok (set_validation_state payload_part_is_valid v1)" using v1(2) by (simp add: close_code_ok_def)
  moreover have "payload_loop (snd f) (set_validation_state payload_part_is_valid v1) = Inr (y, z)"
    using z(1) by (auto simp: take_payload_def split: sum.splits if_splits)
  ultimately have "close_code_ok z" by (rule payload_loop_working_state)
  from finish_frame_working [OF this] z(2) have "close_code_ok v'" "m_working_state v' = empty_state" by simp_all
  then have "to_come fs v' (calls @ [frame_message f y]) msgs w"
    using f(2,3) t(2,4) by (simp add: to_come_def)
  then show thesis
    using that [OF v1(1) [unfolded st]] v1(2,3) st new_frame_state [OF v1(1)] t(3) z
    by (simp add: is_state_still_valid_def)
qed

text \<open>Bytes of a header, after \<open>pre\<close>: it is complete or it is not.\<close>

lemma header_step:
  assumes "peaceful env" and "serving env s c" and "reads_pending c = []" and "m_buf c \<noteq> []"
    and "to_come fs (m_protocol_validator c) (handler_calls c) msgs w" and "stream fs = pre @ m_buf c @ bytes"
    and "parser_loop 0 pre (reset_parser p) = Inr (length pre, m_parser c)" and "\<not> header_parsed (m_parser c)"
  shows "reaches env s msgs w bytes (consume_header_from_buffer env c)"
proof (cases fs)
  case Nil
  then show ?thesis using assms(4,6) by simp
next
  case (Cons f fs')
  from to_come_Cons [OF assms(5) [unfolded Cons]] obtain v1 y z v' where
    v: "process_new_frame (fst f) (m_protocol_validator c) = Inr (frame_header_is_valid, v1)"
      "m_working_state v1 = processing_frame" "close_code_ok v1" "is_state_still_valid v1" "good_frame f"
      "take_payload (snd f) v1 = Some (y, z)" "finish_frame z = (frame_is_valid, v')"
      "to_come fs' v' (handler_calls c @ [frame_message f y]) msgs w" .
  have wf: "wf_details (fst f)" using v(5) by (simp add: good_frame_def)
  let ?hdr = "write_message_details (fst f)"
  have st: "?hdr @ snd f @ stream fs' = pre @ m_buf c @ bytes" using assms(6) Cons by (simp add: frame_bytes_def)
  have "length pre < length ?hdr"
  proof (rule ccontr)
    assume "\<not> length pre < length ?hdr"
    then have "?hdr = take (length ?hdr) pre" using arg_cong [OF st, of "take (length ?hdr)"] by simp
    then obtain x where x: "pre = ?hdr @ x" by (metis append_take_drop_id)
    obtain q where "parser_loop 0 pre (reset_parser p) = Inr (length ?hdr, q)" "header_parsed q"
      unfolding x using parse_written [OF wf, of 0 x p] by auto
    then show False using assms(7,8) by simp
  qed
  then obtain post where post: "?hdr = pre @ post" "post \<noteq> []" "post @ snd f @ stream fs' = m_buf c @ bytes"
  proof -
    have "pre = take (length pre) ?hdr" using \<open>length pre < length ?hdr\<close> arg_cong [OF st, of "take (length pre)"] by simp
    then have h: "?hdr = pre @ drop (length pre) ?hdr" by (metis append_take_drop_id)
    moreover have "drop (length pre) ?hdr \<noteq> []" using \<open>length pre < length ?hdr\<close> by simp
    moreover have "drop (length pre) ?hdr @ snd f @ stream fs' = m_buf c @ bytes"
      using st h by (metis append_assoc same_append_eq)
    ultimately show thesis by (rule that)
  qed
  from header_parts [OF wf post(1), of p] assms(7) obtain q where
    q: "\<And>rest. parser_loop 0 (post @ rest) (m_parser c) = Inr (length post, q)" "header_parsed q" "m_current_msg q = fst f"
    by auto
  show ?thesis
  proof (cases "length (m_buf c) < length post")
    case True
    then obtain post' where p': "post = m_buf c @ post'" "post' \<noteq> []" "bytes = post' @ snd f @ stream fs'"
    proof -
      have "m_buf c = take (length (m_buf c)) post" using True arg_cong [OF post(3), of "take (length (m_buf c))"] by simp
      then have h: "post = m_buf c @ drop (length (m_buf c)) post" by (metis append_take_drop_id)
      moreover have "drop (length (m_buf c)) post \<noteq> []" using True by simp
      moreover have "bytes = drop (length (m_buf c)) post @ snd f @ stream fs'"
        using post(3) h by (metis append_assoc same_append_eq)
      ultimately show thesis by (rule that)
    qed
    have hdr: "?hdr = (pre @ m_buf c) @ post'" using post(1) p'(1) by simp
    from header_parts [OF wf hdr, of p] p'(2) obtain r where
      r: "parser_loop 0 (pre @ m_buf c) (reset_parser p) = Inr (length (pre @ m_buf c), r)" "\<not> header_parsed r" by auto
    from parser_loop_pieces [of pre "m_buf c" "[]" "reset_parser p" r] r(1) assms(7)
    have e: "parser_loop 0 (m_buf c) (m_parser c) = Inr (length (m_buf c), r)" by simp
    have "consume_header_from_buffer env c =
        (Stop, consume_header_from_socket (consumed_bytes (length (m_buf c)) (c\<lparr>m_parser := r\<rparr>)))"
      using e r(2) by (simp add: consume_header_from_buffer_def parser_execute_def)
    moreover have "in_header env s msgs w bytes (consume_header_from_socket (consumed_bytes (length (m_buf c)) (c\<lparr>m_parser := r\<rparr>)))"
      unfolding in_header_def using assms(2,3,5) r assms(6)
      by (intro conjI exI [of _ fs] exI [of _ "pre @ m_buf c"] exI [of _ p])
         (simp_all add: consume_header_from_socket_def consumed_bytes_def serving_def)
    ultimately show ?thesis by (simp add: reaches_simps waiting_def)
  next
    case False
    then obtain b where b: "m_buf c = post @ b" "snd f @ stream fs' = b @ bytes"
    proof -
      have "post = take (length post) (m_buf c)" using False arg_cong [OF post(3), of "take (length post)"] by simp
      then have h: "m_buf c = post @ drop (length post) (m_buf c)" by (metis append_take_drop_id)
      moreover have "snd f @ stream fs' = drop (length post) (m_buf c) @ bytes"
        using post(3) h by (metis append_assoc same_append_eq)
      ultimately show thesis by (rule that)
    qed
    let ?c = "(consumed_bytes (length post) (c\<lparr>m_parser := q\<rparr>))\<lparr>m_protocol_validator := v1\<rparr>"
    have "consume_header_from_buffer env c = handle_parsed_and_valid_header env (fst f) ?c"
      using q v(1) b(1)
      by (simp add: consume_header_from_buffer_def parser_execute_def handle_parsed_header_def Let_def consumed_bytes_def)
    moreover have "reaches env s msgs w bytes (handle_parsed_and_valid_header env (fst f) ?c)"
      using assms(2,3) v b q(3)
      by (intro valid_header_step [OF assms(1), where y = y and z = z and v' = v' and fs = fs'])
         (simp_all add: serving_def consumed_bytes_def)
    ultimately show ?thesis by simp
  qed
qed

lemma between_step:
  "peaceful env \<Longrightarrow> between_frames env s msgs w bytes c \<Longrightarrow>
     reaches env s msgs w bytes (start_read_header env c) \<and> fst (start_read_header env c) \<noteq> Again"
proof (induction env c rule: start_read_header.induct)
  case (1 env c)
  from 1(3) obtain fs where c: "serving env s c" "reads_pending c = []"
    "to_come fs (m_protocol_validator c) (handler_calls c) msgs w" "stream fs = m_buf c @ bytes"
    by (auto simp: between_frames_def)
  let ?c = "reset_parser_and_payload c"
  have r: "serving env s ?c" "reads_pending ?c = []" "m_buf ?c = m_buf c" "m_protocol_validator ?c = m_protocol_validator c"
    "handler_calls ?c = handler_calls c" "m_parser ?c = reset_parser (m_parser c)" "\<not> header_parsed (m_parser ?c)"
    using c(1,2) by (simp_all add: reset_parser_and_payload_def serving_def reset_parser_def header_parsed_def)
  have once: "reaches env s msgs w bytes (read_header_once env c)"
  proof (cases "m_buf c = []")
    case True
    have "in_header env s msgs w bytes (consume_header_from_socket ?c)"
      unfolding in_header_def using r c(3,4) True
      by (intro conjI exI [of _ fs] exI [of _ "[]"] exI [of _ "m_parser c"])
         (simp_all add: consume_header_from_socket_def serving_def)
    then show ?thesis using True r(3) by (simp add: read_header_once_def Let_def reaches_simps waiting_def)
  next
    case False
    have "reaches env s msgs w bytes (consume_header_from_buffer env ?c)"
      using r c(3,4) False by (intro header_step [OF 1(2), of _ _ fs _ _ "[]" _ "m_parser c"]) simp_all
    then show ?thesis using False r(3) by (simp add: read_header_once_def Let_def)
  qed
  obtain fl d where d: "read_header_once env c = (fl, d)" by (cases "read_header_once env c")
  show ?case
  proof (cases fl)
    case Again
    then have "reaches env s msgs w bytes (start_read_header env d) \<and> fst (start_read_header env d) \<noteq> Again"
      using 1(1) [OF d [symmetric] Again 1(2)] once d by (simp add: reaches_simps)
    then show ?thesis using Again d by (subst (1 2) start_read_header.simps) simp
  qed (use once d in \<open>subst (1 2) start_read_header.simps, simp\<close>)+
qed

section \<open>Events\<close>

text \<open>What the peer sends arrives in reads; writes may end and time may pass in between.\<close>

fun quiet_event :: "connection_event \<Rightarrow> bool" where
  "quiet_event (HeaderRead d) \<longleftrightarrow> True"
| "quiet_event (PayloadRead d) \<longleftrightarrow> True"
| "quiet_event WriteDone \<longleftrightarrow> True"
| "quiet_event (Tick n) \<longleftrightarrow> True"
| "quiet_event _ \<longleftrightarrow> False"

fun data_of :: "connection_event \<Rightarrow> raw_data_t" where
  "data_of (HeaderRead d) = d"
| "data_of (PayloadRead d) = d"
| "data_of _ = []"

lemma guarded_stop: "reaches env s msgs w bytes r \<Longrightarrow> fst r \<noteq> Again \<Longrightarrow> waiting env s msgs w bytes (guarded env r)"
  by (cases r; cases "fst r") (auto simp: reaches_simps guarded_def)

lemma go_on_reaches:
  assumes "peaceful env" and "reaches env s msgs w bytes r"
  shows "reaches env s msgs w bytes (go_on env r) \<and> fst (go_on env r) \<noteq> Again"
proof -
  obtain fl c where r: "r = (fl, c)" by (cases r)
  show ?thesis using assms(2) between_step [OF assms(1), of s msgs w bytes c]
    by (cases fl) (simp_all add: r go_on_def reaches_simps)
qed

lemma header_read_delivers:
  assumes "peaceful env" and "in_header env s msgs w (data @ bytes) c" and "data \<noteq> []"
  shows "waiting env s msgs w bytes (on_event env (HeaderRead data) c)"
proof -
  from assms(2) obtain fs pre p where c: "serving env s c" "reads_pending c = [ReadHeader]"
    "to_come fs (m_protocol_validator c) (handler_calls c) msgs w" "stream fs = pre @ data @ bytes"
    "parser_loop 0 pre (reset_parser p) = Inr (length pre, m_parser c)" "\<not> header_parsed (m_parser c)"
    by (auto simp: in_header_def)
  let ?c = "obtained_bytes data (read_completed c)"
  have "reaches env s msgs w bytes (consume_header_from_buffer env ?c)"
    using c assms(3)
    by (intro header_step [OF assms(1), of _ _ fs _ _ pre _ p]) (simp_all add: obtained_bytes_def read_completed_def serving_def)
  from go_on_reaches [OF assms(1) this] show ?thesis
    using guarded_stop by (simp add: after_read_header_def)
qed

lemma payload_read_delivers:
  assumes "peaceful env" and "in_payload env s msgs w (data @ bytes) c" and "enabled (PayloadRead data) c"
  shows "waiting env s msgs w bytes (on_event env (PayloadRead data) c)"
proof -
  from assms(2) obtain f fs rest x y z v' where c: "serving env s c" "m_buf c = []" "good_frame f"
    "m_current_msg (m_parser c) = fst f" "data @ bytes = rest @ stream fs"
    "length (m_payload c) = length x + length rest" "take (length x) (m_payload c) = x"
    "reads_pending c = [ReadPayload (length x) (length rest) True]"
    "m_working_state (m_protocol_validator c) = processing_frame" "close_code_ok (m_protocol_validator c)"
    "is_state_still_valid (m_protocol_validator c)"
    "take_payload rest (m_protocol_validator c) = Some (y, z)" "finish_frame z = (frame_is_valid, v')"
    "to_come fs v' (handler_calls c @ [frame_message f (x @ y)]) msgs w"
    by (auto simp: in_payload_def)
  have len: "length data \<le> length rest" using assms(3) c(8) by (simp add: enabled_def)
  define rest' where "rest' = drop (length data) rest"
  have "data = take (length data) rest" using len arg_cong [OF c(5), of "take (length data)"] by simp
  then have rest: "rest = data @ rest'" by (metis append_take_drop_id rest'_def)
  then have bytes: "bytes = rest' @ stream fs" using c(5) by simp
  let ?rc = "read_completed c"
  let ?c = "?rc\<lparr>m_payload := overwrite (length x) data (m_payload ?rc)\<rparr>"
  have p: "overwrite (length x) data (m_payload c) = x @ data @ drop (length x + length data) (m_payload c)"
    using c(7) by (simp add: overwrite_def)
  have r: "reaches env s msgs w bytes
    (case validate_payload_part env (length x) (length data) (length rest') ?c of
       Inl r \<Rightarrow> r
     | Inr c \<Rightarrow> if 0 = length rest' then call_handler_on_current_message env c
               else (Stop, start_read_payload (length x + length data) (length rest') True c))"
    using c rest bytes p
    by (intro payload_part_step [OF assms(1), where y = y and z = z and v' = v' and fs = fs and f = f])
       (simp_all add: read_completed_def serving_def)
  have l: "length rest - length data = length rest'" by (simp add: rest)
  have "reaches env s msgs w bytes (after_read_payload env (length x) (length rest) True data ?rc) \<and>
      fst (after_read_payload env (length x) (length rest) True data ?rc) \<noteq> Again"
    unfolding after_read_payload_def Let_def l if_True by (rule go_on_reaches [OF assms(1) r])
  then show ?thesis using c(8) guarded_stop by simp
qed

lemma waiting_frame:
  assumes "same_input c d" and "serving env s c \<Longrightarrow> serving env s d" and "handler_calls d = handler_calls c"
    and "waiting env s msgs w bytes c"
  shows "waiting env s msgs w bytes d"
proof -
  have "serving env s d" using assms(2,4) by (auto simp: waiting_def in_header_def in_payload_def)
  moreover have "reads_pending d = reads_pending c" "m_buf d = m_buf c" "m_parser d = m_parser c"
    "m_payload d = m_payload c" "m_protocol_validator d = m_protocol_validator c"
    using assms(1) by (simp_all add: same_input_def)
  ultimately show ?thesis
    using assms(4) unfolding waiting_def in_header_def in_payload_def assms(3) by (simp only:) argo
qed

lemma quiet_delivers:
  assumes "peaceful env" and "waiting env s msgs w (data_of e @ bytes) c" and "quiet_event e" and "enabled e c"
  shows "waiting env s msgs w bytes (on_event env e c)"
proof (cases e)
  case (HeaderRead data)
  have "\<not> in_payload env s msgs w (data @ bytes) c" "data \<noteq> []"
    using assms(4) HeaderRead by (auto simp: enabled_def in_payload_def split: list.splits read_operation_t.splits)
  then show ?thesis using header_read_delivers [OF assms(1)] assms(2) HeaderRead by (auto simp: waiting_def)
next
  case (PayloadRead data)
  have "\<not> in_header env s msgs w (data @ bytes) c"
    using assms(4) PayloadRead by (auto simp: enabled_def in_header_def)
  then show ?thesis using payload_read_delivers [OF assms(1)] assms(2,4) PayloadRead by (auto simp: waiting_def)
next
  case WriteDone
  have "0 < writes_pending c" using assms(4) WriteDone by (simp add: enabled_def)
  obtain x q n' n t where h: "handle_current_write_ctx env (write_completed c) = with_output x q n' n t (write_completed c)"
    using current_write_frame by blast
  have "same_input c (on_event env WriteDone c)" by (rule other_event_input) simp_all
  moreover have "handler_calls (on_event env WriteDone c) = handler_calls c"
    using h by (simp add: after_write_def write_completed_def)
  moreover have "serving env s (on_event env WriteDone c)" if "serving env s c"
    using after_write_ok(1,2) [OF _ \<open>0 < writes_pending c\<close>, of env] that h
    by (simp add: serving_def after_write_def write_completed_def)
  ultimately show ?thesis using waiting_frame assms(2) WriteDone by simp
next
  case (Tick n)
  have "waiting env s msgs w bytes (c\<lparr>steady_clock := steady_clock c + n\<rparr>)"
    by (rule waiting_frame [of c]) (use assms(2) Tick in \<open>simp_all add: same_input_def serving_def\<close>)
  then show ?thesis by (simp add: Tick)
qed (use assms(3) in simp_all)

lemma events_deliver:
  assumes "peaceful env"
  shows "waiting env s msgs w (concat (map data_of es) @ bytes) c \<Longrightarrow> list_all quiet_event es \<Longrightarrow> all_enabled env es c \<Longrightarrow>
    waiting env s msgs w bytes (on_events env es c)"
  using quiet_delivers [OF assms] by (induction es arbitrary: c) (simp_all del: on_event.simps data_of.simps)

text \<open>When everything has arrived.\<close>

lemma waiting_done:
  assumes "waiting env s msgs w [] c"
  shows "handler_calls c = msgs \<and> m_protocol_validator c = w \<and> serving env s c \<and> reads_pending c = [ReadHeader] \<and> m_buf c = [] \<and>
    (\<exists>p. m_parser c = reset_parser p)"
proof -
  have "\<not> in_payload env s msgs w [] c" by (auto simp: in_payload_def)
  with assms obtain fs pre p where c: "serving env s c" "reads_pending c = [ReadHeader]" "m_buf c = []"
    "to_come fs (m_protocol_validator c) (handler_calls c) msgs w" "stream fs = pre"
    "parser_loop 0 pre (reset_parser p) = Inr (length pre, m_parser c)" "\<not> header_parsed (m_parser c)"
    by (auto simp: waiting_def in_header_def)
  have "fs = []"
  proof (rule ccontr)
    assume "fs \<noteq> []"
    then obtain f fs' where f: "fs = f # fs'" by (cases fs) auto
    then have wf: "wf_details (fst f)" using c(4) by (simp add: to_come_def good_frame_def)
    obtain q where "parser_loop 0 pre (reset_parser p) = Inr (length (write_message_details (fst f)), q)" "header_parsed q"
      using parse_written [OF wf, of 0 "snd f @ stream fs'" p] c(5) f by (auto simp: frame_bytes_def)
    then show False using c(6,7) by simp
  qed
  then have "m_parser c = reset_parser p" using c(5,6) by simp
  then show ?thesis using c \<open>fs = []\<close> by (auto simp: to_come_def)
qed

section \<open>Text messages\<close>

text \<open>A connection that waits for a message: nothing of one has arrived.\<close>

definition awaits_message :: "ws_connection_t \<Rightarrow> bool" where
  "awaits_message c \<longleftrightarrow> in_service c \<and> reads_pending c = [ReadHeader] \<and> m_buf c = [] \<and>
     (\<exists>p. m_parser c = reset_parser p) \<and> idle (m_protocol_validator c) \<and> close_code_ok (m_protocol_validator c) \<and>
     m_previous_data_frame (m_protocol_validator c) = prev_none \<and> ready (m_utf8_checker (m_protocol_validator c))"

text \<open>The frames of a client's text: a key and a payload for each.\<close>

fun client_frames :: "opcode_t \<Rightarrow> (32 word \<times> raw_data_t) list \<Rightarrow> frame list" where
  "client_frames op [] = []"
| "client_frames op ((key, d) # fs) =
     (masked_message_details (if fs = [] then final_frame else not_final_frame) op (of_nat (length d)) key,
      mask_unmask_payload key d) # client_frames continuation_frame fs"

definition in_one_part :: "32 word \<times> raw_data_t \<Rightarrow> sent_frame" where
  "in_one_part f = (fst f, snd f, [mask_unmask_payload (fst f) (snd f)])"

lemma client_frames_parts:
  "map (\<lambda>(md, d). (md, [d])) (client_frames op fs) = text_frames op (map in_one_part fs)"
  by (induction op fs rule: client_frames.induct) (simp_all add: in_one_part_def)

lemma one_part_facts:
  "list_all parts_match (map in_one_part fs)" "map sent_payload (map in_one_part fs) = map snd fs"
  "sent_payload \<circ> in_one_part = snd"
  by (auto simp: list_all_iff in_one_part_def parts_match_def)

lemma length_mask [simp]: "length (mask_unmask_payload key d) = length d"
  by (simp add: mask_unmask_eq)

lemma good_client_frames:
  assumes "list_all (\<lambda>f. length (snd f) < 2 ^ 64) fs" and "op \<in> {text_frame, continuation_frame}"
  shows "list_all good_frame (client_frames op fs)"
  using assms
proof (induction op fs rule: client_frames.induct)
  case (2 op key d fs)
  have "is_valid_opcode op" "op \<noteq> connection_close_frame" using "2.prems"(2) by auto
  moreover have "unat (of_nat (length d) :: 64 word) = length d"
    using "2.prems"(1) by (simp add: unat_of_nat)
  ultimately show ?case using 2 wf_written_details(2) by (simp add: good_frame_def)
qed simp

text \<open>The states that a payload can lead to.\<close>

lemma payload_byte_state:
  assumes "process_payload_byte b v = Inr (c, w)"
  shows "m_validation_state w \<in> {m_validation_state v, invalid_close_code, incorrect_utf8_data}"
proof -
  obtain c' v' where u: "(if m_unmask_flag v
      then (case unmask_byte b (m_unmasker v) of (b, u) \<Rightarrow> (b, v\<lparr>m_unmasker := u\<rparr>)) else (b, v)) = (c', v')"
    and v': "m_validation_state v' = m_validation_state v"
    by (cases "m_unmask_flag v"; cases "unmask_byte b (m_unmasker v)") auto
  have chk: "m_validation_state (check_utf8 c' v') \<in> {m_validation_state v', incorrect_utf8_data}"
    by (simp add: check_utf8_def Let_def split: prod.split)
  have vcc: "m_validation_state (validate_close_code k x) \<in> {m_validation_state x, invalid_close_code}" for k x
    by (simp add: validate_close_code_def)
  show ?thesis
  proof (cases "m_opcode (m_current_frame v') = connection_close_frame \<and> \<not> all_bytes_loaded (m_expected_close_code v')")
    case True
    with assms obtain full e where e: "add_byte_and_check_size c' (m_expected_close_code v') = Inr (full, e)"
      unfolding process_payload_byte_def u by (cases "add_byte_and_check_size c' (m_expected_close_code v')") auto
    let ?k = "read_number_from_big_endian_bytes (m_loaded_data e)"
    have "w = (if full then validate_close_code ?k (v'\<lparr>m_expected_close_code := e\<rparr>) else v'\<lparr>m_expected_close_code := e\<rparr>)"
      using assms True e unfolding process_payload_byte_def u by (simp add: Let_def)
    then show ?thesis using vcc [of ?k "v'\<lparr>m_expected_close_code := e\<rparr>"] v' by auto
  next
    case False
    then have "w = check_utf8 c' v' \<or> w = v'"
      using assms unfolding process_payload_byte_def u by (auto split: if_splits)
    then show ?thesis using chk v' by auto
  qed
qed

lemma payload_loop_state:
  "payload_loop data v = Inr (out, w) \<Longrightarrow> m_validation_state w \<in> {m_validation_state v, invalid_close_code, incorrect_utf8_data} \<or>
     m_validation_state w = payload_part_is_valid"
proof (induction data arbitrary: v out)
  case (Cons b data)
  from Cons.prems obtain c v' where b: "process_payload_byte b v = Inr (c, v')" by (cases "process_payload_byte b v") auto
  from payload_byte_state [OF b] Cons.prems b Cons.IH [of v'] show ?case
    by (cases "payload_loop data v'") (auto split: if_splits)
qed simp

text \<open>A frame accepted in one part is accepted here.\<close>

lemma take_frame_one_part:
  assumes "m_working_state v = empty_state" and "close_code_ok v"
    and "validate_frame (md, [d]) v = Inr (frame_is_valid, out, w)"
  shows "take_frame (md, d) v = Some (out, w)" and "m_working_state w = empty_state" and "close_code_ok w"
proof -
  from new_frame_working [OF assms(1,2), of md] obtain st v1 where
    v1: "process_new_frame md v = Inr (st, v1)" "close_code_ok v1"
      "m_working_state v1 = (if st = frame_header_is_valid then processing_frame else empty_state)" by blast
  have st: "st = frame_header_is_valid"
  proof (rule ccontr)
    assume "st \<noteq> frame_header_is_valid"
    with assms(3) v1(1) have "st = frame_is_valid" by (simp add: validate_frame_def)
    moreover have "st \<noteq> frame_is_valid"
      using v1(1) process_new_frame_allowed [OF assms(1), of md] process_new_frame_refused [OF assms(1), of md]
      by (cases "header_allowed (m_previous_data_frame v) md") auto
    ultimately show False by simp
  qed
  then have w1: "m_working_state v1 = processing_frame" "is_state_still_valid v1"
    using v1(3) new_frame_state [OF v1(1)] by (simp_all add: is_state_still_valid_def)
  have cc: "close_code_ok (set_validation_state payload_part_is_valid v1)" using v1(2) by (simp add: close_code_ok_def)
  from payload_loop_working [OF this, of d] obtain x z where
    z: "payload_loop d (set_validation_state payload_part_is_valid v1) = Inr (x, z)" "close_code_ok z" by blast
  have ns: "m_validation_state z \<noteq> frame_is_valid" using payload_loop_state [OF z(1)] by auto
  have part: "process_and_unmask_next_payload_part d v1 = Inr (m_validation_state z, x, z)"
    using w1 z(1) by (simp add: process_and_unmask_next_payload_part_def)
  obtain st' w' where f: "finish_frame z = (st', w')" by (cases "finish_frame z")
  have val: "validate_frame (md, [d]) v =
      (if m_validation_state z \<noteq> payload_part_is_valid then Inr (m_validation_state z, x, z) else Inr (st', x, w'))"
    using v1(1) st part f by (simp add: validate_frame_def)
  with assms(3) ns have "m_validation_state z = payload_part_is_valid" "st' = frame_is_valid" "x = out" "w' = w"
    by (auto split: if_splits)
  then show "take_frame (md, d) v = Some (out, w)"
    using v1(1) st z(1) f by (simp add: take_frame_def take_payload_def)
  show "m_working_state w = empty_state" "close_code_ok w"
    using finish_frame_working [OF z(2)] f \<open>w' = w\<close> by simp_all
qed

lemma take_frames_one_part:
  "m_working_state v = empty_state \<Longrightarrow> close_code_ok v \<Longrightarrow>
     validate_frames (map (\<lambda>(md, d). (md, [d])) fs) v = Inr (frame_is_valid, outs, w) \<Longrightarrow>
     take_frames fs v = Some (outs, w) \<and> close_code_ok w"
proof (induction fs arbitrary: v outs)
  case (Cons f fs)
  obtain md d where f: "f = (md, d)" by (cases f)
  from Cons.prems(3) obtain st out v' where r: "validate_frame (md, [d]) v = Inr (st, out, v')"
    by (cases "validate_frame (md, [d]) v") (auto simp: f)
  with Cons.prems(3) have st: "st = frame_is_valid" by (auto simp: f split: if_splits)
  with r Cons.prems(3) obtain outs' where o: "outs = out # outs'"
    "validate_frames (map (\<lambda>(md, d). (md, [d])) fs) v' = Inr (frame_is_valid, outs', w)"
    by (cases "validate_frames (map (\<lambda>(md, d). (md, [d])) fs) v'") (auto simp: f)
  note t = take_frame_one_part [OF Cons.prems(1,2) r [unfolded st]]
  from Cons.IH [OF t(2,3) o(2)] t(1) o(1) show ?case by (simp add: f)
qed simp

lemma text_delivered:
  assumes "peaceful env" and "awaits_message c"
    and "list_all code_point ns" and "concat (map snd fs) = utf8_text ns" and "fs \<noteq> []"
    and "list_all (\<lambda>f. length (snd f) < 2 ^ 64) fs"
    and "concat (map data_of es) = stream (client_frames text_frame fs)"
    and "list_all quiet_event es" and "all_enabled env es c"
  shows "handler_calls (on_events env es c) =
      handler_calls c @ frame_messages (client_frames text_frame fs) (map snd fs) \<and>
    sent (on_events env es c) = sent c @ answers env (length (handler_calls c)) (handler_calls (on_events env es c)) \<and>
    awaits_message (on_events env es c)"
proof -
  let ?v = "m_protocol_validator c" and ?frames = "client_frames text_frame fs"
  from assms(2) obtain p where c: "serving env c c" "reads_pending c = [ReadHeader]" "m_buf c = []" "m_parser c = reset_parser p"
    "idle ?v" "close_code_ok ?v" "m_previous_data_frame ?v = prev_none" "ready (m_utf8_checker ?v)"
    by (auto simp: awaits_message_def serving_starts)
  then have v: "m_working_state ?v = empty_state" by (simp add: idle_def)
  from utf8_text_accepted [OF assms(3) c(8)] obtain x where
    x: "utf8_bytes (utf8_text ns) (m_utf8_checker ?v) = Some x" "ready x" by blast
  have fin: "finalized x" "ready (reset x)" using x(2) by (simp_all add: ready_def finalized_def reset_def)
  from assms(5) have "map in_one_part fs \<noteq> []" by simp
  from text_frames_valid [OF this one_part_facts(1) c(5), of text_frame x] c(7) x(1) fin(1) assms(4)
  obtain w where w: "validate_frames (text_frames text_frame (map in_one_part fs)) ?v = Inr (frame_is_valid, map snd fs, w)"
    "idle w" "m_previous_data_frame w = prev_none" "m_utf8_checker w = reset x"
    by (auto simp: text_opcode_def one_part_facts)
  have take: "take_frames ?frames ?v = Some (map snd fs, w)" "close_code_ok w"
    using take_frames_one_part [OF v c(6), of ?frames] w(1) by (simp_all add: client_frames_parts)
  let ?msgs = "handler_calls c @ frame_messages ?frames (map snd fs)"
  have "to_come ?frames ?v (handler_calls c) ?msgs w"
    using good_client_frames [OF assms(6), of text_frame] v c(6) take(1) by (simp add: to_come_def)
  then have "in_header env c ?msgs w (stream ?frames) c"
    unfolding in_header_def using c
    by (intro conjI exI [of _ ?frames] exI [of _ "[]"] exI [of _ p]) (simp_all add: reset_parser_def header_parsed_def)
  then have "waiting env c ?msgs w (concat (map data_of es) @ []) c" by (simp add: waiting_def assms(7))
  from waiting_done [OF events_deliver [OF assms(1) this assms(8,9)]] show ?thesis
    using w(2-4) take(2) fin(2) serving_in_service by (auto simp: awaits_message_def serving_def)
qed

lemma sample_awaits: "awaits_message sample_connection"
proof -
  have "m_parser sample_connection = reset_parser ws_parser_start" by code_simp
  moreover have "output_inv sample_connection" unfolding sample_connection_def
    by (rule upgrade_output) (simp add: named_handler_def quiet_env_def)
  moreover have "m_read_state sample_connection = read_any_frame" "m_websocket_weak_handle sample_connection"
    "ws_referenced sample_connection" "ws_has_connection sample_connection"
    "m_write_state sample_connection = write_enabled" "socket_is_open sample_connection" by code_simp+
  moreover have "reads_pending sample_connection = [ReadHeader]" "m_buf sample_connection = []"
    "idle (m_protocol_validator sample_connection)" "close_code_ok (m_protocol_validator sample_connection)"
    "m_previous_data_frame (m_protocol_validator sample_connection) = prev_none"
    "ready (m_utf8_checker (m_protocol_validator sample_connection))" by code_simp+
  ultimately show ?thesis unfolding awaits_message_def in_service_def by blast
qed

section \<open>Properties\<close>

text \<open>
  C31: from the network to the application. A text message of a client, in any frames (cut also inside
  symbols), with any masking keys, whose bytes arrive in reads of any sizes that the connection
  allows, with writes that end and time that passes in between, is given to the application's handler
  as one message per frame, in order, with the payloads as they were before masking. What the
  handler sends in answer joins the queue of output, in order and with nothing else; then the
  connection waits for the next message. The handler may send anything, but does not close the
  connection.
\<close>

theorem text_message_delivered:
  assumes "peaceful env" and "awaits_message c"
    and "list_all code_point ns" and "concat (map snd fs) = utf8_text ns" and "fs \<noteq> []"
    and "list_all (\<lambda>f. length (snd f) < 2 ^ 64) fs"
    and "concat (map data_of es) = stream (client_frames text_frame fs)"
    and "list_all quiet_event es" and "all_enabled env es c"
  shows "handler_calls (on_events env es c) =
      handler_calls c @ frame_messages (client_frames text_frame fs) (map snd fs) \<and>
    sent (on_events env es c) = sent c @ answers env (length (handler_calls c)) (handler_calls (on_events env es c)) \<and>
    awaits_message (on_events env es c)"
  by (rule text_delivered [OF assms])

theorem text_message_delivered_witness:
  "map msg_payload (handler_calls (on_events quiet_env
     [HeaderRead [0x01, 0x82, 0x37, 0xFA, 0x21], WriteDone, HeaderRead [0x3D, 0x56, 0x39, 0x80, 0x81, 1, 2, 3],
      HeaderRead [4], PayloadRead [0xA8]] sample_connection)) = [[0x61, 0xC3], [0xA9]]"
proof -
  let ?fs = "[(0x37FA213D, [0x61, 0xC3]), (0x01020304, [0xA9])] :: (32 word \<times> raw_data_t) list"
  let ?es = "[HeaderRead [0x01, 0x82, 0x37, 0xFA, 0x21], WriteDone, HeaderRead [0x3D, 0x56, 0x39, 0x80, 0x81, 1, 2, 3],
      HeaderRead [4], PayloadRead [0xA8]]"
  have "peaceful quiet_env" by (simp add: peaceful_def quiet_env_def)
  moreover note sample_awaits
  moreover have "list_all code_point [0x61, 0xE9]" by (simp add: code_point_def)
  moreover have "concat (map snd ?fs) = utf8_text [0x61, 0xE9]" by (simp add: utf8_text_def utf8_encode_def oct8_def)
  moreover have "concat (map data_of ?es) = stream (client_frames text_frame ?fs)" by code_simp
  moreover have "list_all quiet_event ?es" by simp
  moreover have "all_enabled quiet_env ?es sample_connection" by code_simp
  ultimately have "handler_calls (on_events quiet_env ?es sample_connection) =
      handler_calls sample_connection @ frame_messages (client_frames text_frame ?fs) (map snd ?fs)"
    using text_message_delivered [of quiet_env sample_connection "[0x61, 0xE9]" ?fs ?es] by simp
  moreover have "handler_calls sample_connection = []" by code_simp
  ultimately show ?thesis by (simp add: frame_message_def)
qed

end
