(* ===== verification/SrvApp.thy ===== *)
theory SrvApp
  imports SrvServer WsDelivery
begin

text \<open>
  The treat server and its WebSocket connections together: the message callback that
  \<open>onWebsocketConnect\<close> of \<open>FoodgiverServer.cpp\<close> installs is the application of a connection (the
  model of theory \<open>WsConnection\<close>), and what the handlers send goes into the output of the
  connections. The lemmas lead from the bytes an app sends to the registry, and from a treat
  request to the bytes each app is sent.
\<close>

section \<open>The callback on its connection\<close>

text \<open>
  The callback for a message: the registry after it and what it does with its handle. A response
  is the message itself with another payload or opcode. An exception of \<open>handleWsMessage\<close> leaves
  the callback before it has sent anything (the connection logs it). Erasing the entry of the
  connection drops the handle the registry held.
\<close>

definition message_callback :: "conn \<Rightarrow> message_t \<Rightarrow> registry_t \<Rightarrow> registry_t \<times> ws_action list" where
  "message_callback wsh m reg =
     (case onWsFrame wsh (msg_opcode m) (text_of (msg_payload m)) reg of
        Inl e \<Rightarrow> (reg, [])
      | Inr (reg', out) \<Rightarrow>
          (reg', map (\<lambda>(c, op, p). SendMessage (final_flag m) op (raw p)) out @
             (if msg_opcode m = connection_close_frame then [Release] else [])))"

fun registry_after :: "conn \<Rightarrow> message_t list \<Rightarrow> registry_t \<Rightarrow> registry_t" where
  "registry_after wsh [] reg = reg"
| "registry_after wsh (m # ms) reg = registry_after wsh ms (fst (message_callback wsh m reg))"

text \<open>
  The callback as the handler of a connection, from the moment when it has been called \<open>n\<close> times
  and the registry is \<open>reg\<close>. Nobody else changes the registry meanwhile.
\<close>

definition app_env :: "conn \<Rightarrow> registry_t \<Rightarrow> nat \<Rightarrow> ws_env \<Rightarrow> ws_env" where
  "app_env wsh reg n env = env\<lparr>m_msg_handler :=
     (\<lambda>ms. snd (message_callback wsh (last ms) (registry_after wsh (butlast (drop n ms)) reg)))\<rparr>"

text \<open>The loop of a handler over what it sends: each text goes out as one frame; an exception ends it.\<close>

fun send_texts :: "(conn \<Rightarrow> ws_env) \<Rightarrow> ws_out \<Rightarrow> (conn \<Rightarrow> ws_connection_t) \<Rightarrow>
    exception_t + (conn \<Rightarrow> ws_connection_t)" where
  "send_texts envs [] conns = Inr conns"
| "send_texts envs ((wsh, message) # out) conns =
     (case ws_send_message (envs wsh) final_frame text_frame (raw message) (conns wsh) of
        Inl e \<Rightarrow> Inl e
      | Inr c \<Rightarrow> send_texts envs out (conns(wsh := c)))"

section \<open>Lemmas\<close>

text \<open>ASCII text is its own UTF-8.\<close>

definition ascii :: "string \<Rightarrow> bool" where
  "ascii s \<longleftrightarrow> list_all (\<lambda>c. (of_char c :: nat) < 128) s"

lemma ascii_text:
  assumes "ascii s"
  shows "list_all code_point (map of_char s)" and "utf8_text (map of_char s) = raw s"
  using assms
  by (induction s)
     (simp_all add: ascii_def code_point_def utf8_text_def utf8_encode_def raw_def oct8_def of_nat_of_char)

lemma ascii_answer: "ascii (answer_message ok n)"
proof -
  have "list_all (\<lambda>c. (of_char c :: nat) < 128) (show_nat n)"
    using show_nat_digits by (fastforce simp: list_all_iff dec_digit_def)
  then show ?thesis by (simp add: ascii_def answer_message_def)
qed

lemma length_answer: "n < 100000 \<Longrightarrow> length (answer_message ok n) \<le> 16"
  using length_show_nat [of 5 n] by (simp add: answer_message_def)

subsection \<open>The callback does not close\<close>

lemma callback_peaceful:
  "msg_opcode m \<noteq> connection_close_frame \<Longrightarrow> list_all peaceful_action (snd (message_callback wsh m reg))"
  by (auto simp: message_callback_def onWsFrame_def result_simps split: sum.splits prod.splits if_splits)

lemma app_env_peaceful: "(\<And>n. resize_succeeds env n) \<Longrightarrow> peaceful (app_env wsh reg n env)"
  using callback_peaceful by (simp add: peaceful_def app_env_def)

subsection \<open>What a text does to the registry\<close>

lemma nothing_done:
  assumes "says_nothing (text_of (msg_payload m))" and "msg_opcode m \<noteq> connection_close_frame"
  shows "fst (message_callback wsh m reg) = reg"
  using nothing_said [OF assms(1)] assms(2)
  by (auto simp: message_callback_def onWsFrame_def rbind_def split: sum.splits prod.splits if_splits)

lemma registry_unchanged:
  "list_all (\<lambda>m. says_nothing (text_of (msg_payload m)) \<and> msg_opcode m \<noteq> connection_close_frame) ms \<Longrightarrow>
     registry_after wsh ms reg = reg"
  by (induction ms) (simp_all add: nothing_done)

lemma text_messages_say:
  "list_all (\<lambda>f. says_nothing (text_of (snd f))) fs \<Longrightarrow> op \<in> {text_frame, continuation_frame} \<Longrightarrow>
     list_all (\<lambda>m. says_nothing (text_of (msg_payload m)) \<and> msg_opcode m \<noteq> connection_close_frame)
       (frame_messages (client_frames op fs) (map snd fs))"
  by (induction op fs rule: client_frames.induct) (auto simp: frame_message_def masked_message_details_def message_details_def init_payload_len_def)

text \<open>One frame that holds the answer of an app.\<close>

definition answer_frame :: "bool \<Rightarrow> nat \<Rightarrow> 32 word \<Rightarrow> frame list" where
  "answer_frame ok n key = client_frames text_frame [(key, raw (answer_message ok n))]"

lemma answer_callback:
  assumes "reg_find k reg = Some v" and "n < 100000"
  shows "message_callback k \<lparr>final_flag = final_frame, msg_opcode = text_frame, msg_payload = raw (answer_message ok n)\<rparr> reg =
    (reg_assign k (v\<lparr>reply := (if ok then REPLY_ALLOW else REPLY_DENY)\<rparr>) reg,
     [SendMessage final_frame text_frame (raw (acknowledgement ok))])"
  using handle_answer_reply [OF assms] by (simp add: message_callback_def onWsFrame_def)

lemma answer_arrives:
  assumes "\<And>n. resize_succeeds env n" and "reg_find k reg = Some v" and "n < 100000" and "awaits_message c"
    and "concat (map data_of es) = stream (answer_frame ok n key)" and "list_all quiet_event es"
    and "all_enabled (app_env k reg (length (handler_calls c)) env) es c"
    and d: "d = on_events (app_env k reg (length (handler_calls c)) env) es c"
  shows "registry_after k (drop (length (handler_calls c)) (handler_calls d)) reg =
      reg_assign k (v\<lparr>reply := (if ok then REPLY_ALLOW else REPLY_DENY)\<rparr>) reg"
    and "sent d = sent c @ [[write_message_header final_frame text_frame (length (acknowledgement ok)), raw (acknowledgement ok)]]"
    and "awaits_message d"
proof -
  let ?env = "app_env k reg (length (handler_calls c)) env"
  let ?m = "\<lparr>final_flag = final_frame, msg_opcode = text_frame, msg_payload = raw (answer_message ok n)\<rparr>"
  have p: "peaceful ?env" by (rule app_env_peaceful [OF assms(1)])
  have l: "length (raw (answer_message ok n)) < 2 ^ 64" using length_answer [OF assms(3), of ok] by simp
  have "handler_calls d = handler_calls c @ frame_messages (answer_frame ok n key) [raw (answer_message ok n)] \<and>
      sent d = sent c @ answers ?env (length (handler_calls c)) (handler_calls d) \<and> awaits_message d"
    using text_delivered [OF p assms(4) ascii_text(1) [OF ascii_answer [of ok n]], of "[(key, raw (answer_message ok n))]" es]
      ascii_text(2) [OF ascii_answer [of ok n]] l assms(5-7) by (simp add: answer_frame_def d)
  moreover have "frame_messages (answer_frame ok n key) [raw (answer_message ok n)] = [?m]"
    by (simp add: answer_frame_def frame_message_def masked_message_details_def message_details_def init_payload_len_def
        default_details_def)
  ultimately have r: "handler_calls d = handler_calls c @ [?m]" "awaits_message d"
    "sent d = sent c @ answers ?env (length (handler_calls c)) (handler_calls c @ [?m])" by simp_all
  note cb = answer_callback [OF assms(2,3), of ok]
  then show "registry_after k (drop (length (handler_calls c)) (handler_calls d)) reg =
      reg_assign k (v\<lparr>reply := (if ok then REPLY_ALLOW else REPLY_DENY)\<rparr>) reg"
    using r(1) by simp
  show "sent d = sent c @ [[write_message_header final_frame text_frame (length (acknowledgement ok)), raw (acknowledgement ok)]]"
    using r(3) cb by (simp add: app_env_def)
  show "awaits_message d" by (rule r(2))
qed

subsection \<open>What a handler sends\<close>

lemma awaits_message_frame:
  "awaits_message c \<Longrightarrow> same_input c d \<Longrightarrow> in_service d \<Longrightarrow> awaits_message d"
  by (auto simp: awaits_message_def same_input_def)

lemma send_text:
  assumes "awaits_message c"
  obtains d where "ws_send_message env final_frame text_frame (raw p) c = Inr d" and "awaits_message d"
    and "sent d = sent c @ [[write_message_header final_frame text_frame (length p), raw p]]"
proof -
  have c: "output_inv c" "m_write_state c = write_enabled" "socket_is_open c" "ws_has_connection c"
    using assms by (simp_all add: awaits_message_def in_service_def)
  obtain d where d: "ws_send_message env final_frame text_frame (raw p) c = Inr d" "same_service c d" "output_inv d"
    "sent d = sent c @ [[write_message_header final_frame text_frame (length (raw p)), raw p]]"
    using send_appends [OF c, of final_frame text_frame "raw p" env] by auto
  have "in_service d" using assms d(2,3) by (simp add: awaits_message_def in_service_def same_service_def)
  from awaits_message_frame [OF assms ws_send_message_input [OF d(1)] this] d(1,4) show thesis
    by (intro that [of d]) simp_all
qed

lemma send_texts_all:
  assumes "distinct ks" and "\<forall>k \<in> set ks. awaits_message (conns k)"
  shows "\<exists>conns'. send_texts envs (map (\<lambda>k. (k, p)) ks) conns = Inr conns' \<and>
    (\<forall>k. if k \<in> set ks
         then awaits_message (conns' k) \<and>
           sent (conns' k) = sent (conns k) @ [[write_message_header final_frame text_frame (length p), raw p]]
         else conns' k = conns k)"
  using assms
proof (induction ks arbitrary: conns)
  case (Cons k ks)
  then have "awaits_message (conns k)" by simp
  then obtain d where d: "ws_send_message (envs k) final_frame text_frame (raw p) (conns k) = Inr d" "awaits_message d"
    "sent d = sent (conns k) @ [[write_message_header final_frame text_frame (length p), raw p]]"
    by (rule send_text)
  have ks: "distinct ks" "\<forall>j \<in> set ks. awaits_message ((conns(k := d)) j)" using Cons.prems by auto
  from Cons.IH [OF ks] obtain conns' where
    i: "send_texts envs (map (\<lambda>k. (k, p)) ks) (conns(k := d)) = Inr conns'"
      "\<forall>j. if j \<in> set ks then awaits_message (conns' j) \<and>
           sent (conns' j) = sent ((conns(k := d)) j) @ [[write_message_header final_frame text_frame (length p), raw p]]
         else conns' j = (conns(k := d)) j" by (elim exE conjE)
  have "k \<notin> set ks" using Cons.prems(1) by simp
  show ?case
  proof (intro exI conjI allI)
    show "send_texts envs (map (\<lambda>k. (k, p)) (k # ks)) conns = Inr conns'" using d(1) i(1) by simp
    fix j show "if j \<in> set (k # ks) then awaits_message (conns' j) \<and>
        sent (conns' j) = sent (conns j) @ [[write_message_header final_frame text_frame (length p), raw p]]
      else conns' j = conns j"
      using spec [OF i(2), of j] d(2,3) \<open>k \<notin> set ks\<close> by (auto split: if_splits)
  qed
qed simp

text \<open>The frame a text goes out in, and a parser that reads its header back.\<close>

definition text_group :: "string \<Rightarrow> write_group_t" where
  "text_group p = [write_message_header final_frame text_frame (length p), raw p]"

lemma treat_request_header:
  "\<exists>p. parser_loop 0 (concat (text_group ''treat request'')) ws_parser_start = Inr (2, p) \<and> header_parsed p \<and>
     m_current_msg p = message_details final_frame text_frame 13 \<and>
     drop 2 (concat (text_group ''treat request'')) = raw ''treat request''"
proof -
  let ?h = "write_message_header final_frame text_frame 13"
  have h: "?h = write_message_details (message_details final_frame text_frame 13)"
    by (simp add: write_message_header_def)
  have "length ?h = 2" by code_simp
  moreover have "reset_parser ws_parser_start = ws_parser_start" by code_simp
  moreover have "length ''treat request'' = 13" by simp
  then have "concat (text_group ''treat request'') = ?h @ raw ''treat request''" by (simp only: text_group_def concat.simps append_Nil2)
  ultimately show ?thesis
    using parse_written [OF wf_written_details(1) [of text_frame final_frame 13], of 0 "raw ''treat request''" ws_parser_start] h
    by auto
qed

text \<open>The apps of a feeder, in the order of a loop over the registry.\<close>

lemma feeder_apps:
  assumes "reg_ok reg"
  shows "distinct (map fst (filter (\<lambda>(k, v). fg_id v = d) reg))"
    and "k \<in> set (map fst (filter (\<lambda>(k, v). fg_id v = d) reg)) \<longleftrightarrow> (\<exists>v. reg_find k reg = Some v \<and> fg_id v = d)"
  using reg.sorted_entries [OF assms] reg.entry_iff [OF assms] by (force simp: distinct_map_filter)+

section \<open>Properties\<close>

text \<open>
  C17: a treat request reaches the apps as bytes. When the feeder posts one, the connection of every
  app registered for it is given one more frame to write, and no other connection is given
  anything: an unmasked, final text frame whose payload is \<open>treat request\<close>, which a parser of
  WebSocket headers reads back. The connections go on to wait for the answer.
\<close>

theorem treat_request_sent:
  assumes "srv_reach reg" and "n \<le> 2147483647"
    and "http_request date up h M_POST (''/req_treat/'' @ show_nat n) reg = (response, reg', out)"
    and "\<And>k v. reg_find k reg = Some v \<Longrightarrow> fg_id v = int n \<Longrightarrow> awaits_message (conns k)"
  shows "\<exists>conns' group. send_texts envs out conns = Inr conns' \<and>
    (\<forall>k. if \<exists>v. reg_find k reg = Some v \<and> fg_id v = int n
         then awaits_message (conns' k) \<and> sent (conns' k) = sent (conns k) @ [group]
         else conns' k = conns k) \<and>
    (\<exists>p. parser_loop 0 (concat group) ws_parser_start = Inr (2, p) \<and> header_parsed p \<and>
       m_current_msg p = message_details final_frame text_frame 13 \<and> drop 2 (concat group) = raw ''treat request'')"
proof -
  have inv: "srv_inv reg" by (rule srv_reach_inv [OF assms(1)])
  then have ok: "reg_ok reg" by (simp add: srv_inv_def)
  let ?ks = "map fst (filter (\<lambda>(k, v). fg_id v = int n) reg)"
  note apps = feeder_apps [OF ok, where d = "int n"]
  have out: "out = map (\<lambda>k. (k, ''treat request'')) ?ks"
    using post_number [OF inv assms(2), of date up h] unfolding assms(3) by simp
  have "\<forall>k \<in> set ?ks. awaits_message (conns k)" using apps(2) assms(4) by blast
  from send_texts_all [OF apps(1) this, of envs "''treat request''"] obtain conns' where
    c: "send_texts envs out conns = Inr conns'"
      "\<forall>k. if k \<in> set ?ks then awaits_message (conns' k) \<and> sent (conns' k) = sent (conns k) @ [text_group ''treat request'']
           else conns' k = conns k"
    unfolding out text_group_def by blast
  show ?thesis
    by (rule exI [of _ conns'], rule exI [of _ "text_group ''treat request''"],
        intro conjI c(1) c(2) [unfolded apps(2)] treat_request_header)
qed

theorem treat_request_sent_witness:
  "\<exists>conns'. send_texts (\<lambda>k. quiet_env) [(1, ''treat request'')] (\<lambda>k. sample_connection) = Inr conns' \<and>
     length (sent (conns' 1)) = 2 \<and> conns' 2 = sample_connection"
proof -
  have "(''/req_treat/'' @ show_nat 5) = ''/req_treat/5''" by code_simp
  moreover have "http_request [] conn_other 2 M_POST ''/req_treat/5'' demo_app =
      (Answer (init_resp [] create_response), demo_app, [(1, ''treat request'')])" by code_simp
  ultimately have h: "http_request [] conn_other 2 M_POST (''/req_treat/'' @ show_nat 5) demo_app =
      (Answer (init_resp [] create_response), demo_app, [(1, ''treat request'')])" by simp
  have f: "reg_find 1 demo_app = Some \<lparr>fg_id = 5, ws_handle = 1, reply = REPLY_UNDEF\<rparr>" "reg_find 2 demo_app = None"
    by (simp_all add: reg_find_def demo_app_def)
  have "length (sent sample_connection) = 1" by code_simp
  with treat_request_sent [OF demo_app_reach _ h, of "\<lambda>k. sample_connection" "\<lambda>k. quiet_env"] f sample_awaits
  show ?thesis by (fastforce dest: spec [of _ "1 :: conn"] spec [of _ "2 :: conn"])
qed

text \<open>
  C18: an answer cut into frames is lost. When the text of an app comes in frames none of which has
  one of the words \<open>auth\<close>, \<open>treat ack\<close> and \<open>treat nack\<close> whole, the registry is what it was, even if
  the text of all frames together is an answer: the callback looks at each frame alone, whatever
  its opcode.
\<close>

theorem fragmented_answer_lost:
  assumes "\<And>n. resize_succeeds env n" and "awaits_message c"
    and "list_all code_point ns" and "concat (map snd fs) = utf8_text ns" and "fs \<noteq> []"
    and "list_all (\<lambda>f. length (snd f) < 2 ^ 64 \<and> says_nothing (text_of (snd f))) fs"
    and "concat (map data_of es) = stream (client_frames text_frame fs)" and "list_all quiet_event es"
    and "all_enabled (app_env k reg (length (handler_calls c)) env) es c"
    and "d = on_events (app_env k reg (length (handler_calls c)) env) es c"
  shows "length (handler_calls d) = length (handler_calls c) + length fs \<and>
    registry_after k (drop (length (handler_calls c)) (handler_calls d)) reg = reg \<and> awaits_message d"
proof -
  let ?env = "app_env k reg (length (handler_calls c)) env"
  have l: "list_all (\<lambda>f. length (snd f) < 2 ^ 64) fs" "list_all (\<lambda>f. says_nothing (text_of (snd f))) fs"
    using assms(6) by (simp_all add: list_all_iff)
  have "length (client_frames op fs) = length fs" for op by (induction op fs rule: client_frames.induct) simp_all
  then show ?thesis
    using text_delivered [OF app_env_peaceful [OF assms(1)] assms(2-5) l(1) assms(7-9)]
      registry_unchanged [OF text_messages_say [OF l(2), of text_frame]] assms(10)
    by (simp add: frame_messages_def)
qed

theorem fragmented_answer_lost_witness:
  "registry_after 1 (handler_calls (on_events (app_env 1 demo_app 0 quiet_env)
     [HeaderRead ([0x01, 0x87, 1, 2, 3, 4] @ mask_unmask_payload 0x01020304 (raw ''treat a'')),
      HeaderRead ([0x80, 0x86, 5, 6, 7, 8] @ mask_unmask_payload 0x05060708 (raw ''ck_420''))] sample_connection)) demo_app =
     demo_app \<and> answer_message True 420 = ''treat a'' @ ''ck_420''"
proof -
  let ?fs = "[(0x01020304, raw ''treat a''), (0x05060708, raw ''ck_420'')] :: (32 word \<times> raw_data_t) list"
  let ?es = "[HeaderRead ([0x01, 0x87, 1, 2, 3, 4] @ mask_unmask_payload 0x01020304 (raw ''treat a'')),
      HeaderRead ([0x80, 0x86, 5, 6, 7, 8] @ mask_unmask_payload 0x05060708 (raw ''ck_420''))]"
  have a: "answer_message True 420 = ''treat a'' @ ''ck_420''" by code_simp
  have calls: "handler_calls sample_connection = []" by code_simp
  have "says_nothing ''treat a''" "says_nothing ''ck_420''" by code_simp+
  then have q: "list_all (\<lambda>f. length (snd f) < 2 ^ 64 \<and> says_nothing (text_of (snd f))) ?fs" by simp
  have t: "concat (map snd ?fs) = utf8_text (map of_char (answer_message True 420))"
    by (rule trans [OF _ ascii_text(2) [OF ascii_answer, symmetric]]) (simp add: a raw_def)
  have s: "concat (map data_of ?es) = stream (client_frames text_frame ?fs)" by code_simp
  have e: "all_enabled (app_env 1 demo_app (length (handler_calls sample_connection)) quiet_env) ?es sample_connection" by code_simp
  have "resize_succeeds quiet_env n" for n by (simp add: quiet_env_def)
  from fragmented_answer_lost [OF this sample_awaits ascii_text(1) [OF ascii_answer] t _ q s _ e refl] a calls
  show ?thesis by simp
qed

end
