(* ===== verification/RioFields.thy ===== *)
theory RioFields
  imports HttpExchange WsBits
begin

text \<open>
  HTTP headers in RESTinio: the container of header fields and the headers of requests and
  responses (\<open>restinio/http_headers.hpp\<close>), names compared without case
  (\<open>restinio/impl/string_caseless_compare.hpp\<close>), and the text of a response header
  (\<open>restinio/impl/header_helpers.hpp\<close>). A field id stands for the name that \<open>field_to_string\<close> gives
  it, so looking for an id is looking for a name. The locale \<open>field_store\<close> says what the users
  of the container rely on.
\<close>

section \<open>Names without case\<close>

definition to_lower_lut :: "char \<Rightarrow> char" where
  "to_lower_lut c = (if 0x41 \<le> byte c \<and> byte c \<le> 0x5A then char_of (byte c + 32) else c)"

definition is_equal_caseless :: "string \<Rightarrow> string \<Rightarrow> bool" where
  "is_equal_caseless a b \<longleftrightarrow> length a = length b \<and> list_all2 (\<lambda>x y. to_lower_lut x = to_lower_lut y) a b"

section \<open>The interface of the container\<close>

locale field_store =
  fixes get :: "string \<Rightarrow> 'f \<Rightarrow> string option"
    and set_one :: "string \<Rightarrow> string \<Rightarrow> 'f \<Rightarrow> 'f"
    and add_last :: "string \<Rightarrow> string \<Rightarrow> 'f \<Rightarrow> 'f"
    and remove_every :: "string \<Rightarrow> 'f \<Rightarrow> 'f"
    and no_fields :: 'f
    and same :: "string \<Rightarrow> string \<Rightarrow> bool"
  assumes same_sym: "same n m \<Longrightarrow> same m n"
    and same_trans: "same n m \<Longrightarrow> same m k \<Longrightarrow> same n k"
    and get_none: "get n no_fields = None"
    and get_set: "get m (set_one n v f) = (if same n m then Some v else get m f)"
    and get_add: "get m (add_last n v f) = (if get m f = None \<and> same n m then Some v else get m f)"
    and get_remove: "get m (remove_every n f) = (if same n m then None else get m f)"
begin

lemma set_twice: "get m (set_one n v (set_one n w f)) = get m (set_one n v f)"
  by (simp add: get_set)

lemma set_commute:
  assumes "\<not> same n k"
  shows "get m (set_one n v (set_one k w f)) = get m (set_one k w (set_one n v f))"
proof (cases "same n m \<and> same k m")
  case True
  then have "same n k" using same_trans same_sym by blast
  with assms show ?thesis by simp
qed (auto simp: get_set)

text \<open>Several fields added in their order: the first with the name is found.\<close>

lemma get_fold_add:
  "get m (fold (\<lambda>(n, v). add_last n v) nvs f) =
     (case get m f of Some v \<Rightarrow> Some v
      | None \<Rightarrow> map_option snd (List.find (\<lambda>(n, v). same n m) nvs))"
  by (induction nvs arbitrary: f) (auto simp: get_add split: option.split)

end

section \<open>The fields of a header\<close>

type_synonym http_header_field_t = "string \<times> string"
type_synonym http_header_fields_t = "http_header_field_t list"

datatype field_exception = FieldDoesNotExist string

text \<open>The field that \<open>cfind\<close> leads to.\<close>

definition cfind :: "string \<Rightarrow> http_header_fields_t \<Rightarrow> http_header_field_t option" where
  "cfind field_name fs = List.find (\<lambda>f. is_equal_caseless (fst f) field_name) fs"

definition has_field :: "string \<Rightarrow> http_header_fields_t \<Rightarrow> bool" where
  "has_field field_name fs \<longleftrightarrow> cfind field_name fs \<noteq> None"

text \<open>With a name the name is changed too, with an id only the value is.\<close>

fun set_field :: "string \<Rightarrow> string \<Rightarrow> http_header_fields_t \<Rightarrow> http_header_fields_t" where
  "set_field field_name field_value [] = [(field_name, field_value)]"
| "set_field field_name field_value (f # fs) =
     (if is_equal_caseless (fst f) field_name then (field_name, field_value) # fs
      else f # set_field field_name field_value fs)"

fun set_field_id :: "string \<Rightarrow> string \<Rightarrow> http_header_fields_t \<Rightarrow> http_header_fields_t" where
  "set_field_id field_id field_value [] = [(field_id, field_value)]"
| "set_field_id field_id field_value (f # fs) =
     (if is_equal_caseless (fst f) field_id then (fst f, field_value) # fs
      else f # set_field_id field_id field_value fs)"

definition add_field :: "string \<Rightarrow> string \<Rightarrow> http_header_fields_t \<Rightarrow> http_header_fields_t" where
  "add_field field_name field_value fs = fs @ [(field_name, field_value)]"

fun append_field :: "string \<Rightarrow> string \<Rightarrow> http_header_fields_t \<Rightarrow> http_header_fields_t" where
  "append_field field_name field_value [] = [(field_name, field_value)]"
| "append_field field_name field_value (f # fs) =
     (if is_equal_caseless (fst f) field_name then (fst f, snd f @ field_value) # fs
      else f # append_field field_name field_value fs)"

definition try_get_field :: "string \<Rightarrow> http_header_fields_t \<Rightarrow> string option" where
  "try_get_field field_name fs = map_option snd (cfind field_name fs)"

definition get_field :: "string \<Rightarrow> http_header_fields_t \<Rightarrow> field_exception + string" where
  "get_field field_name fs =
     (case cfind field_name fs of None \<Rightarrow> Inl (FieldDoesNotExist field_name) | Some f \<Rightarrow> Inr (snd f))"

definition get_field_or :: "string \<Rightarrow> string \<Rightarrow> http_header_fields_t \<Rightarrow> string" where
  "get_field_or field_name default_value fs =
     (case cfind field_name fs of None \<Rightarrow> default_value | Some f \<Rightarrow> snd f)"

fun remove_field :: "string \<Rightarrow> http_header_fields_t \<Rightarrow> bool \<times> http_header_fields_t" where
  "remove_field field_name [] = (False, [])"
| "remove_field field_name (f # fs) =
     (if is_equal_caseless (fst f) field_name then (True, fs)
      else (case remove_field field_name fs of (r, fs) \<Rightarrow> (r, f # fs)))"

fun remove_all_of :: "string \<Rightarrow> http_header_fields_t \<Rightarrow> nat \<times> http_header_fields_t" where
  "remove_all_of field_name [] = (0, [])"
| "remove_all_of field_name (f # fs) =
     (case remove_all_of field_name fs of (count, fs) \<Rightarrow>
        if is_equal_caseless (fst f) field_name then (Suc count, fs) else (count, f # fs))"

text \<open>
  \<open>for_each_value_of\<close>: the values the lambda is called with, when it stops the enumeration at the
  first that satisfies \<open>stop\<close>.
\<close>

fun for_each_value_of :: "string \<Rightarrow> (string \<Rightarrow> bool) \<Rightarrow> http_header_fields_t \<Rightarrow> string list" where
  "for_each_value_of field_name stop [] = []"
| "for_each_value_of field_name stop (f # fs) =
     (if is_equal_caseless (fst f) field_name
      then (if stop (snd f) then [snd f] else snd f # for_each_value_of field_name stop fs)
      else for_each_value_of field_name stop fs)"

text \<open>The container is not empty here.\<close>

definition append_last_field :: "string \<Rightarrow> http_header_fields_t \<Rightarrow> http_header_fields_t" where
  "append_last_field field_value fs =
     butlast fs @ [(fst (last fs), snd (last fs) @ field_value)]"

section \<open>Headers\<close>

datatype http_connection_header_t = keep_alive | close_connection | upgrade_connection

record http_header_common_t =
  m_fields :: http_header_fields_t
  m_http_major :: nat
  m_http_minor :: nat
  m_content_length :: nat
  m_http_connection_header_field_value :: http_connection_header_t

text \<open>The values a new header has.\<close>

definition new_header :: http_header_common_t where
  "new_header = \<lparr>m_fields = [], m_http_major = 1, m_http_minor = 1, m_content_length = 0,
     m_http_connection_header_field_value = close_connection\<rparr>"

definition should_keep_alive :: "'a http_header_common_t_scheme \<Rightarrow> bool" where
  "should_keep_alive h \<longleftrightarrow> keep_alive = m_http_connection_header_field_value h"

definition set_keep_alive :: "bool \<Rightarrow> 'a http_header_common_t_scheme \<Rightarrow> 'a http_header_common_t_scheme" where
  "set_keep_alive ka h = h\<lparr>m_http_connection_header_field_value := (if ka then keep_alive else close_connection)\<rparr>"

record http_response_header_t = http_header_common_t +
  m_status_code :: nat
  m_reason_phrase :: string

text \<open>A request header keeps its target with the positions of \<open>?\<close> and \<open>#\<close> in it.\<close>

record http_request_header_t = http_header_common_t +
  m_method :: nat
  m_request_target :: string
  m_query_separator_pos :: nat
  m_fragment_separator_pos :: nat

definition memchr_helper :: "char \<Rightarrow> string \<Rightarrow> nat" where
  "memchr_helper c s = (case find_char c s of None \<Rightarrow> length s | Some i \<Rightarrow> i)"

definition request_target :: "string \<Rightarrow> http_request_header_t \<Rightarrow> http_request_header_t" where
  "request_target t h =
     (let fragment_pos = memchr_helper CHR ''#'' t
      in h\<lparr>m_request_target := t, m_fragment_separator_pos := fragment_pos,
           m_query_separator_pos := memchr_helper CHR ''?'' (take fragment_pos t)\<rparr>)"

definition append_request_target :: "string \<Rightarrow> http_request_header_t \<Rightarrow> http_request_header_t" where
  "append_request_target at h0 =
     (let h = (if length (m_request_target h0) = m_fragment_separator_pos h0
               then let inc = memchr_helper CHR ''#'' at;
                        h = h0\<lparr>m_fragment_separator_pos := m_fragment_separator_pos h0 + inc\<rparr>
                    in if length (m_request_target h) = m_query_separator_pos h
                       then h\<lparr>m_query_separator_pos := m_query_separator_pos h + memchr_helper CHR ''?'' (take inc at)\<rparr>
                       else h
               else h0)
      in h\<lparr>m_request_target := m_request_target h @ at\<rparr>)"

definition request_path :: "http_request_header_t \<Rightarrow> string" where
  "request_path h = take (m_query_separator_pos h) (m_request_target h)"

definition request_query :: "http_request_header_t \<Rightarrow> string" where
  "request_query h =
     (if m_fragment_separator_pos h = m_query_separator_pos h then []
      else take (m_fragment_separator_pos h - m_query_separator_pos h - 1)
             (drop (m_query_separator_pos h + 1) (m_request_target h)))"

definition request_fragment :: "http_request_header_t \<Rightarrow> string" where
  "request_fragment h =
     (if length (m_request_target h) = m_fragment_separator_pos h then []
      else drop (m_fragment_separator_pos h + 1) (m_request_target h))"

definition new_request_header :: http_request_header_t where
  "new_request_header = http_header_common_t.extend new_header
     \<lparr>m_method = 1, m_request_target = [], m_query_separator_pos = 0, m_fragment_separator_pos = 0\<rparr>"

section \<open>The text of a response header\<close>

datatype content_length_field_presence_t = add_content_length | skip_content_length

text \<open>\<open>'0' + n\<close> as a \<open>char\<close>.\<close>

definition chr_plus :: "nat \<Rightarrow> char" where
  "chr_plus n = char_of (48 + n)"

definition create_header_string :: "http_response_header_t \<Rightarrow> content_length_field_presence_t \<Rightarrow> string" where
  "create_header_string h presence =
     (let sc = m_status_code h
      in ''HTTP/'' @ [chr_plus (m_http_major h), CHR ''.'', chr_plus (m_http_minor h), CHR '' '',
           chr_plus (sc div 100 mod 10), chr_plus (sc div 10 mod 10), chr_plus (sc mod 10), CHR '' ''] @
         m_reason_phrase h @ crlf @
         (case m_http_connection_header_field_value h of
            keep_alive \<Rightarrow> ''Connection: keep-alive'' @ crlf
          | close_connection \<Rightarrow> ''Connection: close'' @ crlf
          | upgrade_connection \<Rightarrow> ''Connection: Upgrade'' @ crlf) @
         (if presence = add_content_length
          then ''Content-Length: '' @ show_nat (m_content_length h) @ crlf else []) @
         concat (map (\<lambda>f. fst f @ '': '' @ snd f @ crlf) (m_fields h)) @ crlf)"

definition not_implemented_text :: string where
  "not_implemented_text = ''HTTP/1.1 501 Not Implemented'' @ crlf @ ''Connection: close'' @ crlf @
     ''Content-Length: 0'' @ crlf @ crlf"

section \<open>Lemmas\<close>

lemma is_equal_caseless_map: "is_equal_caseless a b \<longleftrightarrow> map to_lower_lut a = map to_lower_lut b"
  by (auto simp: is_equal_caseless_def list_all2_conv_all_nth list_eq_iff_nth_eq)

lemma is_equal_caseless_refl [simp]: "is_equal_caseless a a"
  by (simp add: is_equal_caseless_map)

lemma is_equal_caseless_sym: "is_equal_caseless a b \<Longrightarrow> is_equal_caseless b a"
  by (simp add: is_equal_caseless_map)

lemma is_equal_caseless_trans: "is_equal_caseless a b \<Longrightarrow> is_equal_caseless b c \<Longrightarrow> is_equal_caseless a c"
  by (simp add: is_equal_caseless_map)

lemma cfind_simps [simp]:
  "cfind n [] = None"
  "cfind n (f # fs) = (if is_equal_caseless (fst f) n then Some f else cfind n fs)"
  by (simp_all add: cfind_def)

lemma try_get_simps [simp]:
  "try_get_field n [] = None"
  "try_get_field n (f # fs) = (if is_equal_caseless (fst f) n then Some (snd f) else try_get_field n fs)"
  by (simp_all add: try_get_field_def)

interpretation header_fields: field_store try_get_field set_field add_field "\<lambda>n fs. snd (remove_all_of n fs)" "[]" is_equal_caseless
proof
  fix n m k v :: string and f :: http_header_fields_t
  show "is_equal_caseless n m \<Longrightarrow> is_equal_caseless m n" by (rule is_equal_caseless_sym)
  show "is_equal_caseless n m \<Longrightarrow> is_equal_caseless m k \<Longrightarrow> is_equal_caseless n k" by (rule is_equal_caseless_trans)
  show "try_get_field n [] = None" by simp
  show "try_get_field m (set_field n v f) = (if is_equal_caseless n m then Some v else try_get_field m f)"
    by (induction f) (auto simp: is_equal_caseless_map)
  show "try_get_field m (add_field n v f) =
      (if try_get_field m f = None \<and> is_equal_caseless n m then Some v else try_get_field m f)"
    by (induction f) (auto simp: add_field_def)
  show "try_get_field m (snd (remove_all_of n f)) = (if is_equal_caseless n m then None else try_get_field m f)"
    by (induction f) (auto simp: is_equal_caseless_map split: prod.splits)
qed

lemma get_field_try: "get_field n fs = (case try_get_field n fs of None \<Rightarrow> Inl (FieldDoesNotExist n) | Some v \<Rightarrow> Inr v)"
  by (induction fs) (auto simp: get_field_def)

lemma set_field_id_get: "try_get_field m (set_field_id n v fs) = (if is_equal_caseless n m then Some v else try_get_field m fs)"
  by (induction fs) (auto simp: is_equal_caseless_map)

lemma remove_all_of_eq:
  "remove_all_of n fs = (length (filter (\<lambda>f. is_equal_caseless (fst f) n) fs), filter (\<lambda>f. \<not> is_equal_caseless (fst f) n) fs)"
  by (induction fs) auto

lemma for_each_value_all: "for_each_value_of n (\<lambda>v. False) fs = map snd (filter (\<lambda>f. is_equal_caseless (fst f) n) fs)"
  by (induction fs) auto

subsection \<open>A target in pieces\<close>

lemma memchr_simps:
  "memchr_helper c [] = 0" "memchr_helper c (x # s) = (if x = c then 0 else Suc (memchr_helper c s))"
  by (auto simp: memchr_helper_def find_char_def split: option.split)

lemma memchr_length: "memchr_helper c s \<le> length s"
  by (induction s) (auto simp: memchr_simps)

lemma memchr_full: "memchr_helper c s = length s \<longleftrightarrow> c \<notin> set s"
  by (induction s) (auto simp: memchr_simps)

lemma memchr_append:
  "memchr_helper c (s @ t) = (if c \<in> set s then memchr_helper c s else length s + memchr_helper c t)"
  by (induction s) (auto simp: memchr_simps)

lemma append_request_target_step: "append_request_target at (request_target t h) = request_target (t @ at) h"
proof (cases "CHR ''#'' \<in> set t")
  case True
  then have "memchr_helper CHR ''#'' t \<noteq> length t" by (simp add: memchr_full)
  moreover have "take (memchr_helper CHR ''#'' t) (t @ at) = take (memchr_helper CHR ''#'' t) t"
    using memchr_length [of "CHR ''#''" t] by simp
  ultimately show ?thesis using True by (simp add: append_request_target_def request_target_def memchr_append Let_def del: take_append)
next
  case False
  then have t: "memchr_helper CHR ''#'' t = length t" by (simp add: memchr_full)
  show ?thesis
  proof (cases "CHR ''?'' \<in> set t")
    case True
    then have "memchr_helper CHR ''?'' t \<noteq> length t" by (simp add: memchr_full)
    then show ?thesis using False t True
      by (simp add: append_request_target_def request_target_def memchr_append Let_def)
  next
    case q: False
    then have "memchr_helper CHR ''?'' t = length t" by (simp add: memchr_full)
    then show ?thesis using False t q
      by (simp add: append_request_target_def request_target_def memchr_append Let_def)
  qed
qed

text \<open>The callback of the parser is called with the target in pieces.\<close>

lemma append_request_target_pieces:
  "fold append_request_target ps (request_target t h) = request_target (t @ concat ps) h"
  by (induction ps arbitrary: t) (simp_all add: append_request_target_step)

lemma new_request_target: "request_target [] new_request_header = new_request_header"
  by (simp add: request_target_def new_request_header_def http_header_common_t.defs memchr_simps)

text \<open>What the positions make of a target.\<close>

lemma target_parts:
  assumes "CHR ''?'' \<notin> set p" and "CHR ''#'' \<notin> set p" and "CHR ''#'' \<notin> set q"
  shows "request_path (request_target (p @ CHR ''?'' # q @ CHR ''#'' # f) h) = p"
    and "request_query (request_target (p @ CHR ''?'' # q @ CHR ''#'' # f) h) = q"
    and "request_fragment (request_target (p @ CHR ''?'' # q @ CHR ''#'' # f) h) = f"
  using assms
  by (simp_all add: request_path_def request_query_def request_fragment_def request_target_def memchr_append memchr_simps Let_def)

end
