(* ===== verification/RioResponse.thy ===== *)
theory RioResponse
  imports RioFields
begin

text \<open>
  The response of a handler in RESTinio: the builder for output that RESTinio controls
  (\<open>restinio/message_builders.hpp\<close>) and the group of buffers it hands to the connection
  (\<open>write_group_t\<close> of \<open>restinio/buffers.hpp\<close>). The lemmas relate the bytes of a response to the
  responses that the feeder's HTTP client reads.
\<close>

section \<open>Groups of buffers\<close>

text \<open>The items, the size of the status line, and whether there is a notificator.\<close>

record http_write_group_t =
  m_items :: "raw_data_t list"
  m_status_line_size :: nat
  has_after_write_notificator :: bool

datatype group_exception = EmptyGroup | StatusLineTooLong

definition write_group :: "raw_data_t list \<Rightarrow> http_write_group_t" where
  "write_group items = \<lparr>m_items = items, m_status_line_size = 0, has_after_write_notificator = False\<rparr>"

definition status_line_size :: "nat \<Rightarrow> http_write_group_t \<Rightarrow> group_exception + http_write_group_t" where
  "status_line_size n wg =
     (if n \<noteq> 0
      then (case m_items wg of
              [] \<Rightarrow> Inl EmptyGroup
            | item # items \<Rightarrow> if length item < n then Inl StatusLineTooLong else Inr (wg\<lparr>m_status_line_size := n\<rparr>))
      else Inr wg)"

definition merge_group :: "http_write_group_t \<Rightarrow> http_write_group_t \<Rightarrow> http_write_group_t" where
  "merge_group first second =
     first\<lparr>m_items := m_items first @ m_items second,
       has_after_write_notificator := has_after_write_notificator second\<rparr>"

definition group_bytes :: "http_write_group_t \<Rightarrow> raw_data_t" where
  "group_bytes wg = concat (m_items wg)"

section \<open>Flags of a response\<close>

type_synonym request_id_t = "32 word"

datatype response_parts_attr_t = not_final_parts | final_parts
datatype response_connection_attr_t = connection_keepalive | connection_close

record response_output_flags_t =
  m_response_parts :: response_parts_attr_t
  m_response_connection :: response_connection_attr_t

definition response_connection_attr :: "bool \<Rightarrow> response_connection_attr_t" where
  "response_connection_attr keep = (if keep then connection_keepalive else connection_close)"

section \<open>The builder\<close>

text \<open>\<open>m_connection\<close> says whether the builder still has the connection.\<close>

record response_builder_t =
  m_header :: http_response_header_t
  m_connection :: bool
  m_builder_request_id :: request_id_t
  m_body_size :: nat
  m_response_items :: "raw_data_t list"

datatype builder_exception = DoneCalledTwice | GroupRefused group_exception

text \<open>\<open>req->create_response(status_line)\<close> for a request that still has its connection.\<close>

definition response_builder :: "nat \<Rightarrow> string \<Rightarrow> request_id_t \<Rightarrow> bool \<Rightarrow> response_builder_t" where
  "response_builder sc phrase request_id keep =
     \<lparr>m_header = set_keep_alive keep
        (http_header_common_t.extend new_header \<lparr>m_status_code = sc, m_reason_phrase = phrase\<rparr>),
      m_connection = True, m_builder_request_id = request_id, m_body_size = 0, m_response_items = []\<rparr>"

definition append_header :: "string \<Rightarrow> string \<Rightarrow> response_builder_t \<Rightarrow> response_builder_t" where
  "append_header n v b = b\<lparr>m_header := (m_header b)\<lparr>m_fields := add_field n v (m_fields (m_header b))\<rparr>\<rparr>"

text \<open>The text of the date is \<open>date\<close>.\<close>

definition append_header_date_field :: "string \<Rightarrow> response_builder_t \<Rightarrow> response_builder_t" where
  "append_header_date_field date b =
     b\<lparr>m_header := (m_header b)\<lparr>m_fields := set_field_id ''Date'' date (m_fields (m_header b))\<rparr>\<rparr>"

definition builder_connection_close :: "response_builder_t \<Rightarrow> response_builder_t" where
  "builder_connection_close b = b\<lparr>m_header := set_keep_alive False (m_header b)\<rparr>"

definition builder_connection_keep_alive :: "response_builder_t \<Rightarrow> response_builder_t" where
  "builder_connection_keep_alive b = b\<lparr>m_header := set_keep_alive True (m_header b)\<rparr>"

definition builder_status_line :: "nat \<Rightarrow> string \<Rightarrow> response_builder_t \<Rightarrow> response_builder_t" where
  "builder_status_line sc phrase b =
     b\<lparr>m_header := (m_header b)\<lparr>m_status_code := sc, m_reason_phrase := phrase\<rparr>\<rparr>"

definition if_neccessary_reserve_first_element_for_header :: "response_builder_t \<Rightarrow> response_builder_t" where
  "if_neccessary_reserve_first_element_for_header b =
     (if m_response_items b = [] then b\<lparr>m_response_items := [[]]\<rparr> else b)"

definition builder_set_body :: "raw_data_t \<Rightarrow> response_builder_t \<Rightarrow> response_builder_t" where
  "builder_set_body bd b0 =
     (let b = if_neccessary_reserve_first_element_for_header b0;
          b = b\<lparr>m_response_items := take 1 (m_response_items b)\<rparr>;
          b = (if 0 < length bd then b\<lparr>m_response_items := m_response_items b @ [bd]\<rparr> else b)
      in b\<lparr>m_body_size := length bd\<rparr>)"

definition builder_append_body :: "raw_data_t \<Rightarrow> response_builder_t \<Rightarrow> response_builder_t" where
  "builder_append_body part b0 =
     (let b = if_neccessary_reserve_first_element_for_header b0
      in if 0 < length part
         then b\<lparr>m_response_items := m_response_items b @ [part], m_body_size := m_body_size b + length part\<rparr>
         else b)"

definition calculate_status_line_size :: "response_builder_t \<Rightarrow> nat" where
  "calculate_status_line_size b = 8 + 1 + 3 + 1 + length (m_reason_phrase (m_header b))"

text \<open>\<open>done\<close> without a notificator: what the connection is given to write, and the builder.\<close>

definition builder_done :: "response_builder_t \<Rightarrow>
    builder_exception + ((response_output_flags_t \<times> http_write_group_t) \<times> response_builder_t)" where
  "builder_done b0 =
     (if m_connection b0
      then (let flags = \<lparr>m_response_parts = final_parts,
                  m_response_connection = response_connection_attr (should_keep_alive (m_header b0))\<rparr>;
                b = b0\<lparr>m_header := (m_header b0)\<lparr>m_content_length := m_body_size b0\<rparr>\<rparr>;
                b = if_neccessary_reserve_first_element_for_header b;
                items = (m_response_items b)[0 := raw (create_header_string (m_header b) add_content_length)]
            in case status_line_size (calculate_status_line_size b) (write_group items) of
                 Inl e \<Rightarrow> Inl (GroupRefused e)
               | Inr wg \<Rightarrow> Inr ((flags, wg), b\<lparr>m_response_items := [], m_connection := False\<rparr>))
      else Inl DoneCalledTwice)"

section \<open>Lemmas\<close>

text \<open>The bytes of a body, in the order it was set and appended.\<close>

definition builder_body :: "response_builder_t \<Rightarrow> raw_data_t" where
  "builder_body b = concat (tl (m_response_items b))"

definition builder_ok :: "response_builder_t \<Rightarrow> bool" where
  "builder_ok b \<longleftrightarrow> m_body_size b = length (builder_body b)"

lemma builder_simps [simp]:
  "builder_ok (response_builder sc phrase i keep)" "builder_body (response_builder sc phrase i keep) = []"
  "builder_ok (append_header n v b) = builder_ok b" "builder_body (append_header n v b) = builder_body b"
  "builder_ok (append_header_date_field d b) = builder_ok b" "builder_body (append_header_date_field d b) = builder_body b"
  "builder_ok (builder_connection_close b) = builder_ok b" "builder_body (builder_connection_close b) = builder_body b"
  "builder_ok (builder_connection_keep_alive b) = builder_ok b" "builder_body (builder_connection_keep_alive b) = builder_body b"
  "builder_ok (builder_status_line sc phrase b) = builder_ok b" "builder_body (builder_status_line sc phrase b) = builder_body b"
  "builder_ok (builder_set_body bd b)" "builder_body (builder_set_body bd b) = bd"
  "builder_body (builder_append_body part b) = builder_body b @ part"
  by (cases "m_response_items b";
      simp add: builder_ok_def builder_body_def response_builder_def append_header_def append_header_date_field_def
        builder_connection_close_def builder_connection_keep_alive_def builder_status_line_def builder_set_body_def
        builder_append_body_def if_neccessary_reserve_first_element_for_header_def Let_def)+

lemma builder_ok_append: "builder_ok b \<Longrightarrow> builder_ok (builder_append_body part b)"
  by (cases "m_response_items b")
     (simp_all add: builder_ok_def builder_body_def builder_append_body_def
        if_neccessary_reserve_first_element_for_header_def Let_def)

lemma header_string_length: "13 + length (m_reason_phrase h) \<le> length (create_header_string h p)"
  by (simp add: create_header_string_def Let_def)

text \<open>A response on the wire.\<close>

definition response_text :: "response_builder_t \<Rightarrow> raw_data_t" where
  "response_text b =
     raw (create_header_string ((m_header b)\<lparr>m_content_length := length (builder_body b)\<rparr>) add_content_length) @ builder_body b"

lemma builder_done_bytes:
  assumes "m_connection b" and "builder_ok b"
  obtains wg where "builder_done b = Inr ((\<lparr>m_response_parts = final_parts,
      m_response_connection = response_connection_attr (should_keep_alive (m_header b))\<rparr>, wg),
      b\<lparr>m_header := (m_header b)\<lparr>m_content_length := m_body_size b\<rparr>, m_response_items := [], m_connection := False\<rparr>)"
    and "group_bytes wg = response_text b" and "m_items wg \<noteq> []" and "0 < m_status_line_size wg"
    and "\<not> has_after_write_notificator wg" and "length (m_items wg) = max 1 (length (m_response_items b))"
proof -
  let ?h = "(m_header b)\<lparr>m_content_length := m_body_size b\<rparr>"
  have l: "\<not> length (create_header_string ?h add_content_length) < 13 + length (m_reason_phrase (m_header b))"
    using header_string_length [of ?h add_content_length] by simp
  show thesis
  proof (cases "m_response_items b")
    case Nil
    then show thesis using assms l
      by (intro that [of "\<lparr>m_items = [raw (create_header_string ?h add_content_length)],
            m_status_line_size = 13 + length (m_reason_phrase (m_header b)), has_after_write_notificator = False\<rparr>"])
         (simp_all add: builder_done_def if_neccessary_reserve_first_element_for_header_def status_line_size_def write_group_def
           calculate_status_line_size_def group_bytes_def response_text_def builder_ok_def builder_body_def Let_def)
  next
    case (Cons item items)
    then show thesis using assms l
      by (intro that [of "\<lparr>m_items = raw (create_header_string ?h add_content_length) # items,
            m_status_line_size = 13 + length (m_reason_phrase (m_header b)), has_after_write_notificator = False\<rparr>"])
         (simp_all add: builder_done_def if_neccessary_reserve_first_element_for_header_def status_line_size_def write_group_def
           calculate_status_line_size_def group_bytes_def response_text_def builder_ok_def builder_body_def Let_def)
  qed
qed

lemma done_twice: "builder_done b = Inr (r, b') \<Longrightarrow> builder_done b' = Inl DoneCalledTwice"
  by (auto simp: builder_done_def Let_def split: if_splits sum.splits)

subsection \<open>The header as the client of the feeder sees it\<close>

definition connection_value :: "http_connection_header_t \<Rightarrow> string" where
  "connection_value c =
     (case c of keep_alive \<Rightarrow> ''keep-alive'' | close_connection \<Rightarrow> ''close'' | upgrade_connection \<Rightarrow> ''Upgrade'')"

definition wire_fields :: "http_response_header_t \<Rightarrow> header_fields" where
  "wire_fields h = (''Connection'', connection_value (m_http_connection_header_field_value h)) #
     (''Content-Length'', show_nat (m_content_length h)) # m_fields h"

lemma three_digits:
  assumes "100 \<le> c" and "c \<le> 999"
  shows "show_nat c = [digit_chr (c div 100), digit_chr (c div 10 mod 10), digit_chr (c mod 10)]"
proof -
  have "c div 10 div 10 < 10" "\<not> c div 10 < 10" "c div 10 div 10 = c div 100" using assms by (simp_all add: div_mult2_eq [symmetric])
  then show ?thesis using assms by (simp add: show_nat.simps)
qed

lemma header_string_head:
  assumes "m_http_major h < 10" and "m_http_minor h < 10" and "100 \<le> m_status_code h" and "m_status_code h \<le> 999"
  shows "create_header_string h add_content_length =
    show_head (m_http_major h) (m_http_minor h) (m_status_code h) (m_reason_phrase h) (wire_fields h) @ crlf"
proof -
  have d: "chr_plus n = digit_chr n" for n by (simp add: chr_plus_def digit_chr_def)
  have "m_status_code h div 100 mod 10 = m_status_code h div 100" using assms(4) by simp
  moreover have "map show_header = map (\<lambda>f. fst f @ '': '' @ snd f @ crlf)" by (simp add: fun_eq_iff show_header_def)
  ultimately show ?thesis
    using three_digits [OF assms(3,4)]
    by (simp add: create_header_string_def show_head_def show_status_line_def wire_fields_def show_header_def
        connection_value_def d Let_def comp_def split: http_connection_header_t.split)
qed

end
