(* ===== verification/RioServer.thy ===== *)
theory RioServer
  imports RioResponse SrvServer HttpClient
begin

text \<open>
  The responses of the treat server as bytes: the calls of the response builder that the handlers
  of \<open>FoodgiverServer.cpp\<close> make, the text RESTinio writes for them, and the feeder's HTTP client
  that reads it.
\<close>

section \<open>The builder of a reply\<close>

text \<open>The reason phrases of the status lines that the server uses.\<close>

definition reason_of :: "nat \<Rightarrow> string" where
  "reason_of sc = (if sc = 200 then ''OK'' else if sc = 400 then ''Bad Request''
     else if sc = 405 then ''Method Not Allowed'' else [])"

text \<open>
  The builder that a reply of the model stands for: \<open>i\<close> and \<open>keep\<close> are the number of the request
  and whether its connection is to be kept.
\<close>

definition reply_builder :: "request_id_t \<Rightarrow> bool \<Rightarrow> http_reply \<Rightarrow> response_builder_t" where
  "reply_builder i keep r =
     (let b = response_builder (http_status r) (reason_of (http_status r)) i keep;
          b = fold (\<lambda>(n, v). append_header n v) (http_headers r) b;
          b = builder_set_body (raw (http_body r)) b
      in if http_close r then builder_connection_close b else b)"

definition reply_bytes :: "request_id_t \<Rightarrow> bool \<Rightarrow> http_reply \<Rightarrow> raw_data_t" where
  "reply_bytes i keep r =
     (case builder_done (reply_builder i keep r) of Inl e \<Rightarrow> [] | Inr ((flags, wg), b) \<Rightarrow> group_bytes wg)"

text \<open>The header of the reply as a client reads it.\<close>

definition reply_fields :: "bool \<Rightarrow> http_reply \<Rightarrow> header_fields" where
  "reply_fields keep r =
     (''Connection'', if keep \<and> \<not> http_close r then ''keep-alive'' else ''close'') #
     (''Content-Length'', show_nat (length (http_body r))) # http_headers r"

definition reply_head :: "bool \<Rightarrow> http_reply \<Rightarrow> string" where
  "reply_head keep r = show_head 1 1 (http_status r) (reason_of (http_status r)) (reply_fields keep r) @ crlf"

text \<open>A reply whose fields a client can read: names are tokens, values are trimmed text without framing.\<close>

definition wf_reply :: "http_reply \<Rightarrow> bool" where
  "wf_reply r \<longleftrightarrow> http_status r \<in> {200, 400, 405} \<and> length (http_body r) < 2 ^ 63 \<and>
     list_all (\<lambda>h. wf_header h \<and> map toLower (fst h) \<noteq> ''transfer-encoding'' \<and> map toLower (fst h) \<noteq> ''content-length'')
       (http_headers r)"

section \<open>Lemmas\<close>

lemma fold_append_header:
  "fold (\<lambda>(n, v). append_header n v) hs b = b\<lparr>m_header := (m_header b)\<lparr>m_fields := m_fields (m_header b) @ hs\<rparr>\<rparr>"
  by (induction hs arbitrary: b) (auto simp: append_header_def add_field_def)

lemma set_body_header [simp]: "m_header (builder_set_body bd b) = m_header b" "m_connection (builder_set_body bd b) = m_connection b"
  by (simp_all add: builder_set_body_def if_neccessary_reserve_first_element_for_header_def Let_def)

lemma reply_header:
  "m_header (reply_builder i keep r) =
     \<lparr>m_fields = http_headers r, m_http_major = 1, m_http_minor = 1, m_content_length = 0,
      m_http_connection_header_field_value = (if keep \<and> \<not> http_close r then keep_alive else close_connection),
      m_status_code = http_status r, m_reason_phrase = reason_of (http_status r)\<rparr>"
  by (simp add: reply_builder_def fold_append_header response_builder_def new_header_def http_header_common_t.defs
      set_keep_alive_def builder_connection_close_def Let_def)

lemma reply_builder_facts:
  "builder_body (reply_builder i keep r) = raw (http_body r)" "builder_ok (reply_builder i keep r)"
  "m_connection (reply_builder i keep r)"
proof -
  show "builder_body (reply_builder i keep r) = raw (http_body r)" "builder_ok (reply_builder i keep r)"
    by (simp_all add: reply_builder_def Let_def)
  show "m_connection (reply_builder i keep r)"
    by (simp add: reply_builder_def fold_append_header response_builder_def builder_connection_close_def Let_def)
qed

lemma reply_bytes_eq:
  assumes "http_status r \<in> {200, 400, 405}"
  shows "reply_bytes i keep r = raw (reply_head keep r) @ raw (http_body r)"
proof -
  have st: "100 \<le> http_status r" "http_status r \<le> 999" using assms by auto
  obtain wg b where "builder_done (reply_builder i keep r) = Inr (
      (\<lparr>m_response_parts = final_parts, m_response_connection =
        response_connection_attr (should_keep_alive (m_header (reply_builder i keep r)))\<rparr>, wg), b)"
    "group_bytes wg = response_text (reply_builder i keep r)"
    using builder_done_bytes [OF reply_builder_facts(3,2)] by metis
  then show ?thesis using st
    by (simp add: reply_bytes_def response_text_def header_string_head reply_head_def reply_header reply_builder_facts
        wire_fields_def connection_value_def reply_fields_def)
qed

lemma wf_reply_head:
  assumes "wf_reply r"
  shows "wf_head 1 1 (http_status r) (reason_of (http_status r)) (reply_fields keep r)"
    and "list_all header_ok (reply_fields keep r)" and "\<not> chunked (reply_fields keep r)"
    and "lengths (reply_fields keep r) = [length (http_body r)]"
proof -
  let ?n = "show_nat (length (http_body r))"
  have digit: "isTextChar c \<and> \<not> isWhiteSpaceChar c" if "dec_digit c" for c
    using that by (auto simp: char_class_defs dec_digit_def)
  have "\<forall>c \<in> set ?n. dec_digit c" using show_nat_digits by blast
  then have "\<forall>c \<in> set ?n. isTextChar c \<and> \<not> isWhiteSpaceChar c" using digit by blast
  then have n: "trimmed ?n" by (auto simp: trimmed_def list_all_iff)
  have w: "wf_header (''Connection'', if keep \<and> \<not> http_close r then ''keep-alive'' else ''close'')" "token ''Content-Length''"
    by (simp_all add: wf_header_def token_def trimmed_def char_class_defs dec_digit_def)
  have st: "100 \<le> http_status r" "http_status r \<le> 999" "list_all isTextChar (reason_of (http_status r))"
    using assms by (auto simp: wf_reply_def reason_of_def char_class_defs)
  show "wf_head 1 1 (http_status r) (reason_of (http_status r)) (reply_fields keep r)"
    using assms n w st by (auto simp: wf_head_def reply_fields_def wf_reply_def list_all_iff wf_header_def)
  have l: "map toLower ''Connection'' = ''connection''" "map toLower ''Content-Length'' = ''content-length''" by code_simp+
  have hs: "\<And>h. h \<in> set (http_headers r) \<Longrightarrow> map toLower (fst h) \<noteq> ''transfer-encoding'' \<and> map toLower (fst h) \<noteq> ''content-length''"
    using assms by (auto simp: wf_reply_def list_all_iff)
  show "list_all header_ok (reply_fields keep r)"
    using hs l assms show_nat_digits by (auto simp: reply_fields_def header_ok_def list_all_iff wf_reply_def)
  show "\<not> chunked (reply_fields keep r)"
    using hs l by (force simp: chunked_def lower_fields_def reply_fields_def)
  have "filter (\<lambda>h. fst h = ''content-length'') (map (\<lambda>(n, v). (map toLower n, v)) (http_headers r)) = []"
    using hs by (force simp: filter_empty_conv)
  then show "lengths (reply_fields keep r) = [length (http_body r)]"
    using l by (simp add: lengths_def lower_fields_def reply_fields_def)
qed

text \<open>The segments of a reply, with the header block whole in the first.\<close>

lemma reply_segments:
  assumes "wf_reply r" and "concat segs = text_of (reply_bytes i keep r)" and "length (reply_head keep r) \<le> length (hd segs)"
    and "[] \<notin> set segs"
  shows "\<exists>u. feedAll init_rstate segs = Inr (True, u) \<and>
    resp u = framed 1 1 (http_status r) (reason_of (http_status r)) (reply_fields keep r) (http_body r)"
proof -
  have st: "http_status r \<in> {200, 400, 405}" using assms(1) by (simp add: wf_reply_def)
  have "text_of (reply_bytes i keep r) = reply_head keep r @ http_body r"
    by (simp add: reply_bytes_eq [OF st] text_of_append)
  then have c: "concat segs = reply_head keep r @ http_body r" using assms(2) by simp
  have "reply_head keep r \<noteq> []" by (simp add: reply_head_def)
  then obtain s ds where segs: "segs = s # ds" using c by (cases segs) auto
  define d where "d = drop (length (reply_head keep r)) s"
  have l: "length (reply_head keep r) \<le> length s" and e: "s @ concat ds = reply_head keep r @ http_body r"
    using assms(3) c by (simp_all add: segs)
  have "take (length (reply_head keep r)) s = reply_head keep r"
    using l arg_cong [OF e, of "take (length (reply_head keep r))"] by simp
  then have s: "s = reply_head keep r @ d" using append_take_drop_id [of "length (reply_head keep r)" s] by (simp add: d_def)
  have b: "concat (d # ds) = http_body r" using e by (simp add: s)
  note w = wf_reply_head [OF assms(1), of keep]
  have ds: "[] \<notin> set ds" using assms(4) by (simp add: segs)
  have n: "lengths (reply_fields keep r) \<noteq> []" "last (lengths (reply_fields keep r)) = length (concat (d # ds))"
    unfolding w(4) b by simp_all
  show ?thesis
    using feedAll_response_length [OF w(1-3) n ds] unfolding segs s reply_head_def append_assoc b .
qed

text \<open>What the handlers answer with.\<close>

lemma wf_treat_reply:
  assumes "trimmed date" and "length b < 2 ^ 63"
  shows "wf_reply (set_body b (init_resp date create_response))"
proof -
  have "map toLower ''Server'' = ''server''" "map toLower ''Date'' = ''date''" by code_simp+
  moreover have "wf_header (''Server'', ''Foodgiver Server /v.0.9'')" "token ''Date''"
    by (simp_all add: wf_header_def token_def trimmed_def char_class_defs dec_digit_def)
  ultimately show ?thesis using assms
    by (simp add: wf_reply_def set_body_def init_resp_def append_headers_def create_response_def wf_header_def)
qed

section \<open>Properties\<close>

text \<open>
  C26: the server's replies are read by the feeder. The text that RESTinio writes for a reply of the
  server (any of its status lines, readable fields, any body), cut into any segments of which the
  first has the header block whole, is parsed by the feeder's HTTP client as that reply: status,
  fields and body, and the response is complete exactly with the last of them.
\<close>

theorem reply_read_by_feeder:
  assumes "wf_reply r" and "concat segs = text_of (reply_bytes i keep r)" and "length (reply_head keep r) \<le> length (hd segs)"
    and "[] \<notin> set segs"
  shows "\<exists>u. feedAll init_rstate segs = Inr (True, u) \<and>
    resp u = framed 1 1 (http_status r) (reason_of (http_status r)) (reply_fields keep r) (http_body r)"
  by (rule reply_segments [OF assms])

theorem reply_read_by_feeder_witness:
  "\<exists>u. feedAll init_rstate [reply_head True (set_body ''deny'' (init_resp ''now'' create_response)) @ ''de'', ''ny''] = Inr (True, u) \<and>
     body (resp u) = ''deny''"
proof -
  let ?r = "set_body ''deny'' (init_resp ''now'' create_response)"
  have "trimmed ''now''" by (simp add: trimmed_def char_class_defs dec_digit_def)
  then have w: "wf_reply ?r" by (intro wf_treat_reply) simp_all
  have st: "http_status ?r \<in> {200, 400, 405}" using w by (simp add: wf_reply_def)
  have c: "concat [reply_head True ?r @ ''de'', ''ny''] = text_of (reply_bytes 0 True ?r)"
    by (simp add: reply_bytes_eq [OF st] text_of_append) (simp add: set_body_def)
  from reply_read_by_feeder [OF w c] show ?thesis by (auto simp: framed_def set_body_def)
qed

end
