(* ===== verification/RioCoordinator.thy ===== *)
theory RioCoordinator
  imports RioResponse
begin

text \<open>
  The coordinator of the responses of one HTTP connection
  (\<open>restinio/impl/response_coordinator.hpp\<close>): a ring buffer of contexts, one per request whose
  response is not yet written. Handlers add parts of responses in any order, the connection takes
  what is ready in the order of the requests.
\<close>

section \<open>The context of a response\<close>

record response_context_t =
  m_request_id :: request_id_t
  m_write_groups :: "http_write_group_t list"
  m_response_output_flags :: response_output_flags_t

definition initial_flags :: response_output_flags_t where
  "initial_flags = \<lparr>m_response_parts = not_final_parts, m_response_connection = connection_keepalive\<rparr>"

definition new_context :: response_context_t where
  "new_context = \<lparr>m_request_id = 0, m_write_groups = [], m_response_output_flags = initial_flags\<rparr>"

definition reinit :: "request_id_t \<Rightarrow> response_context_t \<Rightarrow> response_context_t" where
  "reinit request_id ctx = ctx\<lparr>m_request_id := request_id, m_response_output_flags := initial_flags\<rparr>"

definition enqueue_group :: "http_write_group_t \<Rightarrow> response_context_t \<Rightarrow> response_context_t" where
  "enqueue_group wg ctx =
     (if m_write_groups ctx \<noteq> [] \<and> \<not> has_after_write_notificator (last (m_write_groups ctx)) \<and>
         m_status_line_size wg = 0
      then ctx\<lparr>m_write_groups := butlast (m_write_groups ctx) @ [merge_group (last (m_write_groups ctx)) wg]\<rparr>
      else ctx\<lparr>m_write_groups := m_write_groups ctx @ [wg]\<rparr>)"

definition context_empty :: "response_context_t \<Rightarrow> bool" where
  "context_empty ctx \<longleftrightarrow> m_write_groups ctx = []"

text \<open>The context is not empty here.\<close>

definition dequeue_group :: "response_context_t \<Rightarrow> http_write_group_t \<times> response_context_t" where
  "dequeue_group ctx = (hd (m_write_groups ctx), ctx\<lparr>m_write_groups := tl (m_write_groups ctx)\<rparr>)"

definition is_complete :: "response_context_t \<Rightarrow> bool" where
  "is_complete ctx \<longleftrightarrow> m_write_groups ctx = [] \<and> final_parts = m_response_parts (m_response_output_flags ctx)"

section \<open>The table of contexts\<close>

record response_context_table_t =
  m_contexts :: "response_context_t list"
  m_first_element_index :: nat
  m_elements_exists :: nat

datatype coordinator_exception =
  TableFull | TableEmpty | CoordinatorClosed | NoContext request_id_t | MarkedAsComplete

definition response_context_table :: "nat \<Rightarrow> response_context_table_t" where
  "response_context_table max_elements_count =
     \<lparr>m_contexts = replicate max_elements_count new_context, m_first_element_index = 0, m_elements_exists = 0\<rparr>"

definition table_empty :: "response_context_table_t \<Rightarrow> bool" where
  "table_empty t \<longleftrightarrow> m_elements_exists t = 0"

definition table_is_full :: "response_context_table_t \<Rightarrow> bool" where
  "table_is_full t \<longleftrightarrow> length (m_contexts t) = m_elements_exists t"

text \<open>The table is not empty for \<open>front\<close> and \<open>back\<close>.\<close>

definition table_front :: "response_context_table_t \<Rightarrow> response_context_t" where
  "table_front t = m_contexts t ! m_first_element_index t"

definition table_back :: "response_context_table_t \<Rightarrow> response_context_t" where
  "table_back t = m_contexts t ! ((m_first_element_index t + (m_elements_exists t - 1)) mod length (m_contexts t))"

definition get_real_index :: "request_id_t \<Rightarrow> response_context_table_t \<Rightarrow> nat" where
  "get_real_index req_id t =
     (let distance_from_first = req_id - m_request_id (table_front t)
      in (m_first_element_index t + unat distance_from_first) mod length (m_contexts t))"

text \<open>The index of the context that the returned pointer leads to.\<close>

definition get_by_req_id :: "request_id_t \<Rightarrow> response_context_table_t \<Rightarrow> nat option" where
  "get_by_req_id req_id t =
     (if table_empty t \<or> req_id < m_request_id (table_front t) \<or> m_request_id (table_back t) < req_id then None
      else Some (get_real_index req_id t))"

definition push_response_context :: "request_id_t \<Rightarrow> response_context_table_t \<Rightarrow>
    coordinator_exception + response_context_table_t" where
  "push_response_context req_id t =
     (if table_is_full t then Inl TableFull
      else let i = (m_first_element_index t + m_elements_exists t) mod length (m_contexts t)
        in Inr (t\<lparr>m_contexts := (m_contexts t)[i := reinit req_id (m_contexts t ! i)],
             m_elements_exists := m_elements_exists t + 1\<rparr>))"

definition pop_response_context_nonchecked :: "response_context_table_t \<Rightarrow> response_context_table_t" where
  "pop_response_context_nonchecked t0 =
     (let t = t0\<lparr>m_elements_exists := m_elements_exists t0 - 1, m_first_element_index := m_first_element_index t0 + 1\<rparr>
      in if length (m_contexts t) = m_first_element_index t then t\<lparr>m_first_element_index := 0\<rparr> else t)"

definition pop_response_context :: "response_context_table_t \<Rightarrow> coordinator_exception + response_context_table_t" where
  "pop_response_context t = (if table_empty t then Inl TableEmpty else Inr (pop_response_context_nonchecked t))"

section \<open>The coordinator\<close>

record response_coordinator_t =
  m_request_id_counter :: request_id_t
  m_connection_closed_response_occured :: bool
  m_context_table :: response_context_table_t

definition response_coordinator :: "nat \<Rightarrow> response_coordinator_t" where
  "response_coordinator max_req_count =
     \<lparr>m_request_id_counter = 0, m_connection_closed_response_occured = False,
      m_context_table = response_context_table max_req_count\<rparr>"

definition coordinator_closed :: "response_coordinator_t \<Rightarrow> bool" where
  "coordinator_closed c \<longleftrightarrow> m_connection_closed_response_occured c"

definition coordinator_empty :: "response_coordinator_t \<Rightarrow> bool" where
  "coordinator_empty c \<longleftrightarrow> table_empty (m_context_table c)"

definition coordinator_is_full :: "response_coordinator_t \<Rightarrow> bool" where
  "coordinator_is_full c \<longleftrightarrow> table_is_full (m_context_table c)"

definition is_able_to_get_more_messages :: "response_coordinator_t \<Rightarrow> bool" where
  "is_able_to_get_more_messages c \<longleftrightarrow> \<not> coordinator_closed c \<and> \<not> coordinator_is_full c"

definition register_new_request :: "response_coordinator_t \<Rightarrow>
    coordinator_exception + (request_id_t \<times> response_coordinator_t)" where
  "register_new_request c =
     rbind (push_response_context (m_request_id_counter c) (m_context_table c)) (\<lambda>t.
       Inr (m_request_id_counter c,
         c\<lparr>m_context_table := t, m_request_id_counter := m_request_id_counter c + 1\<rparr>))"

definition append_response :: "request_id_t \<Rightarrow> response_output_flags_t \<Rightarrow> http_write_group_t \<Rightarrow>
    response_coordinator_t \<Rightarrow> coordinator_exception + response_coordinator_t" where
  "append_response req_id flags wg c =
     (if coordinator_closed c then Inl CoordinatorClosed
      else (case get_by_req_id req_id (m_context_table c) of
              None \<Rightarrow> Inl (NoContext req_id)
            | Some i \<Rightarrow>
                let t = m_context_table c; ctx = m_contexts t ! i
                in if final_parts = m_response_parts (m_response_output_flags ctx) then Inl MarkedAsComplete
                   else Inr (c\<lparr>m_context_table := t\<lparr>m_contexts := (m_contexts t)[i :=
                          enqueue_group wg (ctx\<lparr>m_response_output_flags := flags\<rparr>)]\<rparr>\<rparr>)))"

definition coord_pop_ready_buffers :: "response_coordinator_t \<Rightarrow>
    coordinator_exception + ((http_write_group_t \<times> request_id_t) option \<times> response_coordinator_t)" where
  "coord_pop_ready_buffers c =
     (if coordinator_closed c then Inl CoordinatorClosed
      else if table_empty (m_context_table c) \<or> context_empty (table_front (m_context_table c)) then Inr (None, c)
      else (case dequeue_group (table_front (m_context_table c)) of
              (wg, ctx) \<Rightarrow>
                let t = (m_context_table c)\<lparr>m_contexts :=
                      (m_contexts (m_context_table c))[m_first_element_index (m_context_table c) := ctx]\<rparr>
                in if is_complete ctx
                   then rbind (pop_response_context t) (\<lambda>t'.
                     Inr (Some (wg, m_request_id ctx), c\<lparr>m_context_table := t',
                       m_connection_closed_response_occured :=
                         (final_parts = m_response_parts (m_response_output_flags ctx) \<and>
                          connection_close = m_response_connection (m_response_output_flags ctx))\<rparr>))
                   else Inr (Some (wg, m_request_id ctx), c\<lparr>m_context_table := t\<rparr>)))"

text \<open>\<open>reset\<close>: the groups it drops, in the order their notificators are told, and the empty table.\<close>

function reset_table :: "response_context_table_t \<Rightarrow> http_write_group_t list \<times> response_context_table_t" where
  "reset_table t =
     (if table_empty t then ([], t)
      else let ctx = table_front t;
               t' = t\<lparr>m_contexts := (m_contexts t)[m_first_element_index t := ctx\<lparr>m_write_groups := []\<rparr>]\<rparr>
           in case reset_table (pop_response_context_nonchecked t') of (dropped, t'') \<Rightarrow>
                (m_write_groups ctx @ dropped, t''))"
  by pat_completeness auto
termination
  by (relation "measure m_elements_exists")
     (auto simp: table_empty_def pop_response_context_nonchecked_def Let_def)

declare reset_table.simps [simp del]

definition coordinator_reset :: "response_coordinator_t \<Rightarrow> http_write_group_t list \<times> response_coordinator_t" where
  "coordinator_reset c = (case reset_table (m_context_table c) of (dropped, t) \<Rightarrow> (dropped, c\<lparr>m_context_table := t\<rparr>))"

section \<open>The table as a queue\<close>

text \<open>All slots from the first element on, and those in use.\<close>

definition slots :: "response_context_table_t \<Rightarrow> response_context_t list" where
  "slots t = rotate (m_first_element_index t) (m_contexts t)"

definition contexts :: "response_context_table_t \<Rightarrow> response_context_t list" where
  "contexts t = take (m_elements_exists t) (slots t)"

text \<open>Indices are in range, and slots that are not in use hold no data.\<close>

definition table_ok :: "response_context_table_t \<Rightarrow> bool" where
  "table_ok t \<longleftrightarrow> m_first_element_index t < length (m_contexts t) \<and> m_elements_exists t \<le> length (m_contexts t) \<and>
     list_all context_empty (drop (m_elements_exists t) (slots t))"

lemma table_start: "0 < n \<Longrightarrow> table_ok (response_context_table n)" "contexts (response_context_table n) = []"
  by (simp_all add: table_ok_def response_context_table_def contexts_def slots_def new_context_def context_empty_def
      list_all_iff)

lemma length_slots [simp]: "length (slots t) = length (m_contexts t)"
  by (simp add: slots_def)

lemma length_contexts: "table_ok t \<Longrightarrow> length (contexts t) = m_elements_exists t"
  by (simp add: contexts_def table_ok_def)

lemma nth_slots: "i < length (m_contexts t) \<Longrightarrow>
    slots t ! i = m_contexts t ! ((m_first_element_index t + i) mod length (m_contexts t))"
  by (simp add: slots_def nth_rotate)

lemma mod_add_inj:
  assumes "(f + i) mod n = (f + j) mod n" and "i < n" and "j < n"
  shows "i = (j :: nat)"
proof -
  from assms(1) obtain q1 q2 where "f + i + n * q1 = f + j + n * q2" unfolding nat_mod_eq_iff by blast
  then have "i mod n = j mod n" unfolding nat_mod_eq_iff by (intro exI [of _ q1] exI [of _ q2]) simp
  then show ?thesis using assms(2,3) by simp
qed

lemma slots_update:
  assumes "i < length (m_contexts t)"
  shows "slots (t\<lparr>m_contexts := (m_contexts t)[(m_first_element_index t + i) mod length (m_contexts t) := x]\<rparr>) =
    (slots t)[i := x]"
proof (rule nth_equalityI)
  fix j
  assume "j < length (slots (t\<lparr>m_contexts := (m_contexts t)[(m_first_element_index t + i) mod length (m_contexts t) := x]\<rparr>))"
  then have j: "j < length (m_contexts t)" by simp
  let ?f = "\<lambda>i. (m_first_element_index t + i) mod length (m_contexts t)"
  have "?f i < length (m_contexts t)" "?f j < length (m_contexts t)" using j by (auto intro: mod_less_divisor)
  moreover have "?f i = ?f j \<longleftrightarrow> i = j" using j assms mod_add_inj by blast
  ultimately show "slots (t\<lparr>m_contexts := (m_contexts t)[?f i := x]\<rparr>) ! j = (slots t)[i := x] ! j"
    using j assms by (simp add: nth_slots nth_list_update)
qed simp

lemma slots_pop:
  assumes "m_first_element_index t < length (m_contexts t)"
  shows "slots (pop_response_context_nonchecked t) = rotate1 (slots t)"
    and "m_elements_exists (pop_response_context_nonchecked t) = m_elements_exists t - 1"
    and "length (m_contexts (pop_response_context_nonchecked t)) = length (m_contexts t)"
    and "m_first_element_index (pop_response_context_nonchecked t) < length (m_contexts t)"
proof -
  have "rotate1 (rotate (m_first_element_index t) (m_contexts t)) = m_contexts t"
    if "length (m_contexts t) = Suc (m_first_element_index t)"
    using rotate_id [of "Suc (m_first_element_index t)" "m_contexts t"] that by simp
  then show "slots (pop_response_context_nonchecked t) = rotate1 (slots t)"
    by (auto simp: pop_response_context_nonchecked_def slots_def Let_def)
qed (use assms in \<open>auto simp: pop_response_context_nonchecked_def Let_def\<close>)

lemma front_contexts:
  assumes "table_ok t" and "\<not> table_empty t"
  shows "table_front t = hd (contexts t)" and "contexts t \<noteq> []" and "table_back t = last (contexts t)"
proof -
  have l: "length (contexts t) = m_elements_exists t" by (rule length_contexts [OF assms(1)])
  show ne: "contexts t \<noteq> []" using assms(2) l by (auto simp: table_empty_def)
  have n: "contexts t ! i = m_contexts t ! ((m_first_element_index t + i) mod length (m_contexts t))"
    if "i < m_elements_exists t" for i
    using that assms(1) by (simp add: contexts_def nth_slots table_ok_def)
  show "table_front t = hd (contexts t)"
    using n [of 0] ne assms by (simp add: hd_conv_nth table_front_def table_ok_def table_empty_def)
  show "table_back t = last (contexts t)"
    using n [of "m_elements_exists t - 1"] ne assms by (simp add: last_conv_nth table_back_def table_ok_def table_empty_def l)
qed


lemma contexts_update:
  assumes "table_ok t" and "i < m_elements_exists t"
    and "t' = t\<lparr>m_contexts := (m_contexts t)[(m_first_element_index t + i) mod length (m_contexts t) := x]\<rparr>"
  shows "contexts t' = (contexts t)[i := x]" and "table_ok t'"
proof -
  have "slots t' = (slots t)[i := x]" unfolding assms(3) using assms by (intro slots_update) (simp add: table_ok_def)
  moreover have "m_elements_exists t' = m_elements_exists t" "length (m_contexts t') = length (m_contexts t)"
    "m_first_element_index t' = m_first_element_index t" by (simp_all add: assms(3))
  ultimately show "contexts t' = (contexts t)[i := x]" "table_ok t'"
    using assms(1,2) by (simp_all add: contexts_def table_ok_def take_update_swap drop_update_cancel)
qed

definition fresh_context :: "request_id_t \<Rightarrow> response_context_t" where
  "fresh_context i = \<lparr>m_request_id = i, m_write_groups = [], m_response_output_flags = initial_flags\<rparr>"

lemma contexts_push:
  assumes "table_ok t" and "push_response_context i t = Inr t'"
  shows "contexts t' = contexts t @ [fresh_context i]" and "table_ok t'"
    and "m_elements_exists t' = Suc (m_elements_exists t)" and "length (m_contexts t') = length (m_contexts t)"
proof -
  let ?e = "m_elements_exists t"
  let ?k = "(m_first_element_index t + ?e) mod length (m_contexts t)"
  let ?u = "t\<lparr>m_contexts := (m_contexts t)[?k := reinit i (m_contexts t ! ?k)]\<rparr>"
  have t': "t' = ?u\<lparr>m_elements_exists := Suc ?e\<rparr>" and e: "?e < length (m_contexts t)"
    using assms by (auto simp: push_response_context_def table_is_full_def table_ok_def Let_def split: if_splits)
  have "context_empty (slots t ! ?e)"
    using assms(1) e by (simp add: table_ok_def list_all_length) (metis add.right_neutral length_slots zero_less_diff)
  then have f: "reinit i (m_contexts t ! ?k) = fresh_context i"
    using e by (simp add: nth_slots reinit_def fresh_context_def context_empty_def)
  have s: "slots t' = (slots t)[?e := fresh_context i]"
    using slots_update [OF e, of "fresh_context i"] f by (simp add: t' slots_def)
  show "contexts t' = contexts t @ [fresh_context i]"
    using e by (simp add: contexts_def s) (simp add: t' take_Suc_conv_app_nth)
  have "drop (Suc ?e) ((slots t)[?e := fresh_context i]) = drop (Suc ?e) (slots t)" by simp
  moreover have "list_all context_empty (drop (Suc ?e) (slots t))"
    using assms(1) set_drop_subset_set_drop [of ?e "Suc ?e" "slots t"] by (auto simp: table_ok_def list_all_iff)
  ultimately show "table_ok t'" using assms(1) e by (simp add: table_ok_def s) (simp add: t')
qed (use assms in \<open>auto simp: push_response_context_def Let_def split: if_splits\<close>)

lemma contexts_pop:
  assumes "table_ok t" and "\<not> table_empty t" and "context_empty (hd (contexts t))"
  shows "contexts (pop_response_context_nonchecked t) = tl (contexts t)" and "table_ok (pop_response_context_nonchecked t)"
proof -
  let ?t = "pop_response_context_nonchecked t"
  have f: "m_first_element_index t < length (m_contexts t)" using assms(1) by (simp add: table_ok_def)
  obtain x xs where x: "slots t = x # xs" using f length_slots [of t] by (cases "slots t") (auto simp del: length_slots)
  obtain e where e: "m_elements_exists t = Suc e" using assms(2) by (cases "m_elements_exists t") (auto simp: table_empty_def)
  have s: "slots ?t = xs @ [x]" using slots_pop(1) [OF f] by (simp add: x)
  have "length xs = length (m_contexts t) - 1" using length_slots [of t] by (simp add: x del: length_slots)
  then have l: "e \<le> length xs" using assms(1) e by (auto simp: table_ok_def)
  show "contexts ?t = tl (contexts t)" using l by (simp add: contexts_def s x e slots_pop(2) [OF f])
  have "context_empty x" using assms(3) by (simp add: contexts_def x e)
  moreover have "list_all context_empty (drop e xs)" using assms(1) by (simp add: table_ok_def x e)
  ultimately show "table_ok ?t" using slots_pop(2-4) [OF f] assms(1) l by (simp add: table_ok_def s e)
qed


section \<open>Numbers of requests\<close>

text \<open>The contexts in use carry the consecutive numbers of the requests up to \<open>r\<close>.\<close>

definition numbered :: "nat \<Rightarrow> response_context_table_t \<Rightarrow> bool" where
  "numbered r t \<longleftrightarrow> r \<le> 2 ^ 32 \<and> m_elements_exists t \<le> r \<and>
     (\<forall>i < m_elements_exists t. m_request_id (contexts t ! i) = of_nat (r - m_elements_exists t + i))"

lemma get_by_req_id_iff:
  assumes "table_ok t" and "numbered r t" and "k < 2 ^ 32"
  shows "get_by_req_id (of_nat k) t =
    (if r - m_elements_exists t \<le> k \<and> k < r
     then Some ((m_first_element_index t + (k - (r - m_elements_exists t))) mod length (m_contexts t)) else None)"
proof (cases "table_empty t")
  case True
  then show ?thesis by (simp add: get_by_req_id_def table_empty_def)
next
  case False
  let ?e = "m_elements_exists t"
  let ?b = "r - ?e"
  have e: "0 < ?e" using False by (simp add: table_empty_def)
  have r: "r \<le> 2 ^ 32" "?e \<le> r" using assms(2) by (simp_all add: numbered_def)
  have l: "length (contexts t) = ?e" by (rule length_contexts [OF assms(1)])
  have n: "m_request_id (contexts t ! i) = of_nat (?b + i)" if "i < ?e" for i
    using assms(2) that by (simp add: numbered_def)
  have f: "m_request_id (table_front t) = of_nat ?b" "m_request_id (table_back t) = of_nat (r - 1)"
    using front_contexts [OF assms(1) False] n [of 0] n [of "?e - 1"] e r l by (simp_all add: hd_conv_nth last_conv_nth)
  have u: "unat (of_nat ?b :: request_id_t) = ?b" "unat (of_nat (r - 1) :: request_id_t) = r - 1"
    "unat (of_nat k :: request_id_t) = k"
    using r e assms(3) by (simp_all add: unat_of_nat del: of_nat_diff)
  have lt: "(of_nat k :: request_id_t) < of_nat ?b \<longleftrightarrow> k < ?b" "(of_nat (r - 1) :: request_id_t) < of_nat k \<longleftrightarrow> r \<le> k"
    using u e r by (auto simp: word_less_nat_alt simp del: of_nat_diff)
  have d: "unat ((of_nat k :: request_id_t) - of_nat ?b) = k - ?b" if "?b \<le> k"
    using that u by (simp add: unat_sub word_le_nat_alt del: of_nat_diff)
  show ?thesis using False lt d by (auto simp: get_by_req_id_def f get_real_index_def Let_def simp del: of_nat_diff)
qed

text \<open>
  The numbers have 32 bits: after \<open>2\<^sup>3\<^sup>2\<close> requests the numbers in the table wrap around, and as
  long as they do no response finds its context.
\<close>

lemma wrapped_numbers:
  "m_request_id (table_back t) < m_request_id (table_front t) \<Longrightarrow> get_by_req_id i t = None"
  by (auto simp: get_by_req_id_def not_less)


section \<open>Histories\<close>

text \<open>What the connection and the handlers ask of the coordinator, in any order; an exception ends the run.\<close>

datatype coord_op = Register | AppendPart request_id_t response_output_flags_t http_write_group_t | PopReady

type_synonym popped_t = "(http_write_group_t \<times> request_id_t) list"

definition coord_step :: "coord_op \<Rightarrow> response_coordinator_t \<Rightarrow>
    coordinator_exception + (popped_t \<times> response_coordinator_t)" where
  "coord_step op c =
     (case op of
        Register \<Rightarrow> rbind (register_new_request c) (\<lambda>(i, c). Inr ([], c))
      | AppendPart i flags wg \<Rightarrow> rbind (append_response i flags wg c) (\<lambda>c. Inr ([], c))
      | PopReady \<Rightarrow> rbind (coord_pop_ready_buffers c) (\<lambda>(p, c). Inr (case p of None \<Rightarrow> [] | Some w \<Rightarrow> [w], c)))"

fun coord_run :: "coord_op list \<Rightarrow> response_coordinator_t \<Rightarrow>
    coordinator_exception + (popped_t \<times> response_coordinator_t)" where
  "coord_run [] c = Inr ([], c)"
| "coord_run (op # ops) c =
     rbind (coord_step op c) (\<lambda>(w, c). rbind (coord_run ops c) (\<lambda>(ws, c). Inr (w @ ws, c)))"

text \<open>The bytes that were given for a request, and the number of requests.\<close>

fun response_bytes :: "coord_op list \<Rightarrow> request_id_t \<Rightarrow> raw_data_t" where
  "response_bytes [] i = []"
| "response_bytes (AppendPart k flags wg # ops) i = (if k = i then group_bytes wg else []) @ response_bytes ops i"
| "response_bytes (_ # ops) i = response_bytes ops i"

definition registered :: "coord_op list \<Rightarrow> nat" where
  "registered ops = length (filter (\<lambda>op. op = Register) ops)"

definition ctx_bytes :: "response_context_t \<Rightarrow> raw_data_t" where
  "ctx_bytes ctx = concat (map group_bytes (m_write_groups ctx))"

definition popped_bytes :: "popped_t \<Rightarrow> raw_data_t" where
  "popped_bytes ws = concat (map (\<lambda>w. group_bytes (fst w)) ws)"

definition waiting_bytes :: "response_coordinator_t \<Rightarrow> raw_data_t" where
  "waiting_bytes c = concat (map ctx_bytes (contexts (m_context_table c)))"

lemma response_bytes_append [simp]: "response_bytes (ops @ ops') i = response_bytes ops i @ response_bytes ops' i"
  by (induction ops i rule: response_bytes.induct) simp_all

lemma registered_append [simp]: "registered (ops @ ops') = registered ops + registered ops'"
  by (simp add: registered_def)

lemma popped_bytes_simps [simp]: "popped_bytes [] = []" "popped_bytes (w # ws) = group_bytes (fst w) @ popped_bytes ws"
  "popped_bytes (ws @ ws') = popped_bytes ws @ popped_bytes ws'"
  by (simp_all add: popped_bytes_def)

lemma ctx_bytes_simps [simp]: "ctx_bytes (enqueue_group wg ctx) = ctx_bytes ctx @ group_bytes wg"
  "ctx_bytes (ctx\<lparr>m_response_output_flags := flags\<rparr>) = ctx_bytes ctx" "ctx_bytes (fresh_context i) = []"
  "m_request_id (enqueue_group wg ctx) = m_request_id ctx"
proof -
  show "ctx_bytes (enqueue_group wg ctx) = ctx_bytes ctx @ group_bytes wg"
    by (cases "m_write_groups ctx" rule: rev_cases)
       (simp_all add: ctx_bytes_def enqueue_group_def group_bytes_def merge_group_def)
qed (simp_all add: ctx_bytes_def fresh_context_def enqueue_group_def)

lemma coord_run_append:
  "coord_run (ops @ ops') c = rbind (coord_run ops c) (\<lambda>(ws, c). rbind (coord_run ops' c) (\<lambda>(ws', c). Inr (ws @ ws', c)))"
proof (induction ops arbitrary: c)
  case Nil
  show ?case by (cases "coord_run ops' c") auto
next
  case (Cons op ops)
  then show ?case by (cases "coord_step op c") (auto simp: rbind_def split: sum.splits)
qed

text \<open>What holds after a history: \<open>r\<close> requests are numbered, and what was popped and waits is what was given.\<close>

definition coord_inv :: "nat \<Rightarrow> (nat \<Rightarrow> raw_data_t) \<Rightarrow> popped_t \<Rightarrow> response_coordinator_t \<Rightarrow> bool" where
  "coord_inv r given ws c \<longleftrightarrow>
     (let t = m_context_table c; e = m_elements_exists t in
      table_ok t \<and> numbered r t \<and> m_request_id_counter c = of_nat r \<and> (\<forall>i. r \<le> i \<longrightarrow> i < 2 ^ 32 \<longrightarrow> given i = []) \<and>
      (\<forall>j. 0 < j \<longrightarrow> j < e \<longrightarrow> ctx_bytes (contexts t ! j) = given (r - e + j)) \<and>
      popped_bytes ws @ waiting_bytes c = concat (map given [0..<r]) \<and>
      sorted (map (\<lambda>w. unat (snd w)) ws) \<and> (\<forall>w \<in> set ws. unat (snd w) \<le> r - e))"

lemma coord_inv_start: "0 < n \<Longrightarrow> coord_inv 0 (\<lambda>_. []) [] (response_coordinator n)"
  using table_start [of n]
  by (simp add: coord_inv_def response_coordinator_def numbered_def waiting_bytes_def)
     (simp add: response_context_table_def)

lemma coord_inv_cong:
  assumes "coord_inv r given ws c" and "\<And>k. k < 2 ^ 32 \<Longrightarrow> given k = given' k"
  shows "coord_inv r given' ws c"
proof -
  have r: "r \<le> 2 ^ 32" using assms(1) by (simp add: coord_inv_def numbered_def Let_def)
  then have "concat (map given [0..<r]) = concat (map given' [0..<r])"
    using assms(2) by (intro arg_cong [where f = concat] map_cong) auto
  moreover have "given (r - m_elements_exists (m_context_table c) + j) = given' (r - m_elements_exists (m_context_table c) + j)"
    if "j < m_elements_exists (m_context_table c)" for j
    using that assms r by (intro assms(2)) (auto simp: coord_inv_def numbered_def Let_def)
  ultimately show ?thesis using assms by (auto simp: coord_inv_def Let_def)
qed

lemma coord_inv_register:
  assumes "coord_inv r given ws c" and "register_new_request c = Inr (i, c')" and "r < 2 ^ 32"
  shows "coord_inv (Suc r) given ws c'" and "i = of_nat r"
proof -
  let ?t = "m_context_table c" and ?e = "m_elements_exists (m_context_table c)"
  obtain t' where t': "push_response_context (of_nat r) ?t = Inr t'"
    and c': "c' = c\<lparr>m_context_table := t', m_request_id_counter := of_nat (Suc r)\<rparr>" and "i = of_nat r"
    using assms(1,2) by (auto simp: register_new_request_def coord_inv_def Let_def result_simps)
  then show "i = of_nat r" by simp
  have ok: "table_ok ?t" and nu: "numbered r ?t" using assms(1) by (simp_all add: coord_inv_def Let_def)
  have l: "length (contexts ?t) = ?e" by (rule length_contexts [OF ok])
  have e: "?e \<le> r" using nu by (simp add: numbered_def)
  note push = contexts_push [OF ok t']
  have "numbered (Suc r) t'"
    using nu assms(3) l e by (auto simp: numbered_def push nth_append less_Suc_eq fresh_context_def simp del: of_nat_diff)
  moreover have "ctx_bytes (contexts t' ! j) = given (Suc r - m_elements_exists t' + j)" if "0 < j" "j < m_elements_exists t'" for j
    using that assms(1,3) l e by (auto simp: push nth_append less_Suc_eq coord_inv_def Let_def)
  moreover have "waiting_bytes c' = waiting_bytes c" by (simp add: waiting_bytes_def c' push)
  ultimately show "coord_inv (Suc r) given ws c'"
    using assms(1,3) e push by (auto simp: coord_inv_def Let_def c' simp del: of_nat_Suc)
qed

lemma waiting_from:
  assumes "coord_inv r given ws c" and "j < m_elements_exists (m_context_table c)"
  shows "concat (map ctx_bytes (drop (Suc j) (contexts (m_context_table c)))) =
    concat (map given [Suc (r - m_elements_exists (m_context_table c) + j)..<r])"
proof -
  let ?e = "m_elements_exists (m_context_table c)"
  have ok: "table_ok (m_context_table c)" and e: "?e \<le> r" using assms(1) by (simp_all add: coord_inv_def numbered_def Let_def)
  have "map ctx_bytes (drop (Suc j) (contexts (m_context_table c))) = map given [Suc (r - ?e + j)..<r]"
  proof (rule nth_equalityI)
    fix k
    assume "k < length (map ctx_bytes (drop (Suc j) (contexts (m_context_table c))))"
    then have "Suc j + k < ?e" by (simp add: length_contexts [OF ok])
    then show "map ctx_bytes (drop (Suc j) (contexts (m_context_table c))) ! k = map given [Suc (r - ?e + j)..<r] ! k"
      using assms(1) e length_contexts [OF ok] by (simp add: coord_inv_def Let_def add.assoc Suc_diff_le)
  qed (use e length_contexts [OF ok] assms(2) in simp)
  then show ?thesis by simp
qed

lemma coord_inv_append:
  assumes "coord_inv r given ws c" and "append_response i flags wg c = Inr c'"
  shows "coord_inv r (\<lambda>k. given k @ (if k = unat i then group_bytes wg else [])) ws c'" and "unat i < r"
proof -
  let ?t = "m_context_table c" and ?e = "m_elements_exists (m_context_table c)" and ?k = "unat i"
  let ?given = "\<lambda>k. given k @ (if k = ?k then group_bytes wg else [])"
  have ok: "table_ok ?t" and nu: "numbered r ?t" and e: "?e \<le> r"
    using assms(1) by (simp_all add: coord_inv_def numbered_def Let_def)
  have k32: "?k < 2 ^ 32" using unsigned_less [of i] by simp
  obtain n where n: "get_by_req_id i ?t = Some n" and
    c': "c' = c\<lparr>m_context_table := ?t\<lparr>m_contexts := (m_contexts ?t)[n :=
      enqueue_group wg ((m_contexts ?t ! n)\<lparr>m_response_output_flags := flags\<rparr>)]\<rparr>\<rparr>"
    using assms(2) by (auto simp: append_response_def Let_def split: if_splits option.splits)
  from get_by_req_id_iff [OF ok nu k32] n have k: "r - ?e \<le> ?k" "?k < r"
    and n': "n = (m_first_element_index ?t + (?k - (r - ?e))) mod length (m_contexts ?t)"
    by (simp_all split: if_splits)
  show "unat i < r" by (rule k(2))
  define j where "j = ?k - (r - ?e)"
  have j: "j < ?e" "?k = r - ?e + j" using k e by (auto simp: j_def)
  have cj: "m_contexts ?t ! n = contexts ?t ! j"
    using j(1) ok by (simp add: contexts_def nth_slots table_ok_def n' j_def)
  let ?x = "enqueue_group wg ((contexts ?t ! j)\<lparr>m_response_output_flags := flags\<rparr>)"
  have "m_context_table c' = ?t\<lparr>m_contexts := (m_contexts ?t)[(m_first_element_index ?t + j) mod length (m_contexts ?t) := ?x]\<rparr>"
    using cj by (simp add: c' n' j_def)
  note upd = contexts_update [OF ok j(1) this]
  have e': "m_elements_exists (m_context_table c') = ?e" "m_request_id_counter c' = m_request_id_counter c" by (simp_all add: c')
  have l: "length (contexts ?t) = ?e" by (rule length_contexts [OF ok])
  have nu': "numbered r (m_context_table c')"
    using nu l j(1) by (auto simp: numbered_def upd e' nth_list_update simp del: of_nat_diff of_nat_add)
  let ?xs = "contexts ?t"
  have xs: "?xs = take j ?xs @ ?xs ! j # drop (Suc j) ?xs" using j(1) l by (simp add: id_take_nth_drop)
  have split: "[0..<r] = [0..<?k] @ ?k # [Suc ?k..<r]"
    using k(2) upt_add_eq_append [of 0 ?k "r - ?k"] by (simp add: upt_conv_Cons)
  have rest: "concat (map ctx_bytes (drop (Suc j) ?xs)) = concat (map given [Suc ?k..<r])"
    using waiting_from [OF assms(1) j(1)] by (simp add: j(2))
  have "popped_bytes ws @ concat (map ctx_bytes ?xs) = concat (map given [0..<r])"
    using assms(1) by (simp add: coord_inv_def waiting_bytes_def Let_def)
  then have "popped_bytes ws @ concat (map ctx_bytes (take j ?xs @ ?xs ! j # drop (Suc j) ?xs)) =
      concat (map given ([0..<?k] @ ?k # [Suc ?k..<r]))"
    by (simp only: xs [symmetric] split [symmetric])
  then have front: "popped_bytes ws @ concat (map ctx_bytes (take j ?xs)) @ ctx_bytes (?xs ! j) =
      concat (map given [0..<?k]) @ given ?k"
    using rest by simp
  have g: "map ?given [0..<?k] = map given [0..<?k]" "map ?given [Suc ?k..<r] = map given [Suc ?k..<r]" by simp_all
  have "popped_bytes ws @ waiting_bytes c' =
      (popped_bytes ws @ concat (map ctx_bytes (take j ?xs)) @ ctx_bytes (?xs ! j)) @ group_bytes wg @
      concat (map ctx_bytes (drop (Suc j) ?xs))"
    using j(1) l by (simp add: waiting_bytes_def upd upd_conv_take_nth_drop)
  also have "\<dots> = concat (map ?given ([0..<?k] @ ?k # [Suc ?k..<r]))"
    unfolding front rest map_append list.map concat_append concat.simps g by simp
  finally have bytes: "popped_bytes ws @ waiting_bytes c' = concat (map ?given [0..<r])" by (simp only: split [symmetric])
  show "coord_inv r ?given ws c'"
    using assms(1) nu' upd(2) bytes k j l by (auto simp: coord_inv_def Let_def e' upd(1) nth_list_update)
qed


lemma coord_inv_pop:
  assumes "coord_inv r given ws c" and "coord_pop_ready_buffers c = Inr (p, c')"
  shows "coord_inv r given (ws @ (case p of None \<Rightarrow> [] | Some w \<Rightarrow> [w])) c'"
proof (cases "table_empty (m_context_table c) \<or> context_empty (table_front (m_context_table c))")
  case True
  then have "p = None" "c' = c" using assms(2) by (auto simp: coord_pop_ready_buffers_def split: if_splits)
  then show ?thesis using assms(1) by simp
next
  case False
  let ?t = "m_context_table c" and ?e = "m_elements_exists (m_context_table c)"
  have ok: "table_ok ?t" and nu: "numbered r ?t" using assms(1) by (simp_all add: coord_inv_def Let_def)
  have e: "?e \<le> r" "r \<le> 2 ^ 32" using nu by (simp_all add: numbered_def)
  have ne: "\<not> table_empty ?t" using False by simp
  then have e0: "0 < ?e" by (simp add: table_empty_def)
  note fr = front_contexts [OF ok ne]
  obtain x xs where x: "contexts ?t = x # xs" using fr(2) by (cases "contexts ?t") auto
  have l: "length (contexts ?t) = ?e" by (rule length_contexts [OF ok])
  define y where "y = x\<lparr>m_write_groups := tl (m_write_groups x)\<rparr>"
  let ?wg = "hd (m_write_groups x)"
  define u where "u = ?t\<lparr>m_contexts := (m_contexts ?t)[m_first_element_index ?t := y]\<rparr>"
  have f: "table_front ?t = x" using fr(1) x by simp
  have g: "m_write_groups x \<noteq> []" using False f by (simp add: context_empty_def)
  then have bx: "ctx_bytes x = group_bytes ?wg @ ctx_bytes y" by (cases "m_write_groups x") (simp_all add: ctx_bytes_def y_def)
  have id: "m_request_id y = of_nat (r - ?e)" using nu e0 x by (auto simp: numbered_def y_def simp del: of_nat_diff dest: spec [of _ 0])
  have fi: "(m_first_element_index ?t + 0) mod length (m_contexts ?t) = m_first_element_index ?t"
    using ok by (simp add: table_ok_def)
  have u: "contexts u = y # xs" "table_ok u" using contexts_update [OF ok e0, of u y] x fi by (simp_all add: u_def)
  have eu: "m_elements_exists u = ?e" "length (m_contexts u) = length (m_contexts ?t)" by (simp_all add: u_def)
  have p: "p = Some (?wg, m_request_id y)" and
    c': "c' = (if is_complete y
       then c\<lparr>m_context_table := pop_response_context_nonchecked u, m_connection_closed_response_occured :=
         (connection_close = m_response_connection (m_response_output_flags y))\<rparr>
       else c\<lparr>m_context_table := u\<rparr>)"
    using assms(2) False ne unfolding coord_pop_ready_buffers_def f dequeue_group_def
    by (auto simp: Let_def pop_response_context_def table_empty_def is_complete_def simp flip: y_def u_def
        split: if_splits)
  have uid: "unat (m_request_id y) = r - ?e" using e e0 by (simp add: id unat_of_nat del: of_nat_diff)
  have srt: "sorted (map (\<lambda>w. unat (snd w)) (ws @ [(?wg, m_request_id y)]))"
    using assms(1) uid by (auto simp: coord_inv_def Let_def sorted_append)
  have pb: "popped_bytes (ws @ [(?wg, m_request_id y)]) @ ctx_bytes y @ concat (map ctx_bytes xs) = concat (map given [0..<r])"
    using assms(1) bx by (simp add: coord_inv_def Let_def waiting_bytes_def x)
  have gv: "ctx_bytes (xs ! j) = given (r - ?e + Suc j)" if "Suc j < ?e" for j
    using assms(1) that by (auto simp: coord_inv_def Let_def x dest: spec [of _ "Suc j"])
  have ids: "m_request_id (xs ! j) = of_nat (r - (?e - 1) + j)" if "j < ?e - 1" for j
  proof -
    have "m_request_id (contexts ?t ! Suc j) = of_nat (r - ?e + Suc j)" using nu that unfolding numbered_def by (metis Suc_less_eq less_diff_conv plus_1_eq_Suc add.commute)
    moreover have "r - ?e + Suc j = r - (?e - 1) + j" using that e by simp
    ultimately show ?thesis by (simp only: x nth_Cons_Suc)
  qed
  show ?thesis
  proof (cases "is_complete y")
    case False
    then have c': "c' = c\<lparr>m_context_table := u\<rparr>" using c' by simp
    have "m_request_id ((y # xs) ! i) = m_request_id ((x # xs) ! i)" for i by (cases i) (simp_all add: y_def)
    then have "numbered r u" using nu by (simp add: numbered_def u(1) eu x)
    then show ?thesis
      using assms(1) u pb srt uid gv
      by (auto simp: coord_inv_def Let_def p c' eu waiting_bytes_def nth_Cons split: nat.split)
  next
    case True
    let ?v = "pop_response_context_nonchecked u"
    have yb: "context_empty (hd (contexts u))" "ctx_bytes y = []"
      using True u(1) by (simp_all add: is_complete_def context_empty_def ctx_bytes_def)
    have "\<not> table_empty u" using e0 by (simp add: table_empty_def eu)
    note v = contexts_pop [OF u(2) this yb(1)]
    have fu: "m_first_element_index u < length (m_contexts u)" using u(2) by (simp add: table_ok_def)
    note pv = slots_pop(2) [OF fu]
    have cv: "contexts ?v = xs" using v(1) u(1) by simp
    have "numbered r ?v" using nu ids e0 e by (auto simp: numbered_def pv eu cv simp del: of_nat_diff of_nat_add)
    moreover have "m_context_table c' = ?v" "m_request_id_counter c' = m_request_id_counter c" using True c' by simp_all
    moreover have "ctx_bytes (xs ! j) = given (r - (?e - 1) + j)" if "j < ?e - 1" for j
      using gv [of j] that e by (simp add: Suc_diff_le)
    moreover have "waiting_bytes c' = concat (map ctx_bytes xs)" using True c' cv by (simp add: waiting_bytes_def)
    moreover have "unat (snd w) \<le> r - (?e - 1)" if "w \<in> set ws" for w
      using assms(1) that by (force simp: coord_inv_def Let_def)
    ultimately show ?thesis
      using assms(1) v(2) pb srt uid yb(2)
      by (auto simp: coord_inv_def Let_def p eu pv cv)
  qed
qed

lemma coord_run_inv:
  assumes "coord_run ops (response_coordinator n) = Inr (ws, c)" and "0 < n" and "registered ops \<le> 2 ^ 32"
  shows "coord_inv (registered ops) (\<lambda>i. response_bytes ops (of_nat i)) ws c"
  using assms
proof (induction ops arbitrary: ws c rule: rev_induct)
  case Nil
  then show ?case using coord_inv_start [of n] by (simp add: registered_def)
next
  case (snoc op ops)
  from snoc.prems(1) obtain ws1 c1 w where c1: "coord_run ops (response_coordinator n) = Inr (ws1, c1)"
    and c: "coord_step op c1 = Inr (w, c)" and ws: "ws = ws1 @ w"
    by (auto simp: coord_run_append result_simps)
  have r: "registered ops \<le> 2 ^ 32" using snoc.prems(3) by simp
  note inv = snoc.IH [OF c1 snoc.prems(2) r]
  show ?case
  proof (cases op)
    case Register
    then obtain i where "register_new_request c1 = Inr (i, c)" "w = []" using c by (auto simp: coord_step_def result_simps)
    then show ?thesis using coord_inv_register(1) [OF inv] snoc.prems(3) ws Register by (simp add: registered_def)
  next
    case (AppendPart i flags wg)
    then have a: "append_response i flags wg c1 = Inr c" and w: "w = []" using c by (auto simp: coord_step_def result_simps)
    have "response_bytes [op] (of_nat k) = (if k = unat i then group_bytes wg else [])" if "k < 2 ^ 32" for k :: nat
      using that unsigned_less [of i] by (auto simp: AppendPart word_unat_eq_iff unat_of_nat)
    then have "coord_inv (registered ops) (\<lambda>k. response_bytes ops (of_nat k) @ response_bytes [op] (of_nat k)) ws1 c"
      by (intro coord_inv_cong [OF coord_inv_append(1) [OF inv a]]) simp
    then show ?thesis using ws w AppendPart by (simp add: registered_def)
  next
    case PopReady
    then obtain p where "coord_pop_ready_buffers c1 = Inr (p, c)" "w = (case p of None \<Rightarrow> [] | Some w \<Rightarrow> [w])"
      using c by (auto simp: coord_step_def result_simps)
    then show ?thesis using coord_inv_pop [OF inv] ws PopReady by (simp add: registered_def)
  qed
qed


section \<open>Properties\<close>

text \<open>
  C19: responses leave in the order of the requests. Whatever the order in which requests come,
  handlers add parts of responses and the connection asks for data, what it was given to write
  followed by what still waits is the responses of all requests in the order of the requests,
  each with its parts in the order they were added; nothing is lost, repeated or mixed, and the
  numbers of the groups it was given never go back.
\<close>

theorem responses_in_order:
  assumes "coord_run ops (response_coordinator n) = Inr (ws, c)" and "0 < n" and "registered ops \<le> 2 ^ 32"
  shows "popped_bytes ws @ waiting_bytes c =
      concat (map (\<lambda>i. response_bytes ops (of_nat i)) [0..<registered ops]) \<and>
    sorted (map (\<lambda>w. unat (snd w)) ws)"
  using coord_run_inv [OF assms] by (simp add: coord_inv_def Let_def)

text \<open>The second of two pipelined requests is answered first.\<close>

definition answered_backwards :: "coord_op list" where
  "answered_backwards =
     (let fl = \<lparr>m_response_parts = final_parts, m_response_connection = connection_keepalive\<rparr>
      in [Register, Register, AppendPart 1 fl (write_group [[0x62]]), PopReady,
          AppendPart 0 fl (write_group [[0x61]]), PopReady, PopReady])"

theorem responses_in_order_witness:
  "\<exists>ws c. coord_run answered_backwards (response_coordinator 2) = Inr (ws, c) \<and> popped_bytes ws = [0x61, 0x62] \<and>
    popped_bytes ws @ waiting_bytes c = response_bytes answered_backwards 0 @ response_bytes answered_backwards 1"
proof -
  have run: "case coord_run answered_backwards (response_coordinator 2) of Inl e \<Rightarrow> False
    | Inr (ws, c) \<Rightarrow> popped_bytes ws = [0x61, 0x62]" by code_simp
  then obtain ws c where c: "coord_run answered_backwards (response_coordinator 2) = Inr (ws, c)" "popped_bytes ws = [0x61, 0x62]"
    by (auto split: sum.splits)
  have n: "registered answered_backwards = 2" by code_simp
  have "registered answered_backwards \<le> 2 ^ 32" by (simp add: n)
  from responses_in_order [OF c(1) _ this] have "popped_bytes ws @ waiting_bytes c =
      concat (map (\<lambda>i. response_bytes answered_backwards (of_nat i)) [0..<2])" by (simp only: n)
  then show ?thesis using c by (auto simp: upt_rec)
qed

end
