(* ===== verification/RioMessage.thy ===== *)
theory RioMessage
  imports RioFields
begin

text \<open>
  How RESTinio assembles a request from the callbacks of the HTTP parser
  (\<open>restinio/impl/parser_callbacks.ipp\<close>, \<open>http_parser_ctx_t\<close> of \<open>restinio/impl/connection.hpp\<close>,
  \<open>restinio/chunked_input_info.hpp\<close> and \<open>restinio/incoming_http_msg_limits.hpp\<close>). The parser itself
  (\<open>http_parser.c\<close>) is not modelled here: it is a source of callbacks, each with the piece of
  text it has found, and it stops at the first that does not return 0. A client can announce a body
  of any length, so the reservation of memory for it may fail, and the event says whether it does;
  memory for what has really arrived is never short.
\<close>

section \<open>Limits and chunks\<close>

record incoming_http_msg_limits_t =
  max_url_size :: nat
  max_field_name_size :: nat
  max_field_value_size :: nat
  max_field_count :: nat
  max_body_size :: nat

definition default_limits :: incoming_http_msg_limits_t where
  "default_limits = \<lparr>max_url_size = 2 ^ 64 - 1, max_field_name_size = 2 ^ 64 - 1, max_field_value_size = 2 ^ 64 - 1,
     max_field_count = 2 ^ 64 - 1, max_body_size = 2 ^ 64 - 1\<rparr>"

record chunk_info_t =
  m_started_at :: nat
  m_chunk_size :: nat

datatype chunk_exception = UnableToMakeChunk nat nat nat

definition make_string_view_nonchecked :: "string \<Rightarrow> chunk_info_t \<Rightarrow> string" where
  "make_string_view_nonchecked full_body ci = substr full_body (m_started_at ci) (m_chunk_size ci)"

definition make_string_view :: "string \<Rightarrow> chunk_info_t \<Rightarrow> chunk_exception + string" where
  "make_string_view full_body ci =
     (if m_started_at ci \<ge> length full_body \<or> m_started_at ci + m_chunk_size ci > length full_body
      then Inl (UnableToMakeChunk (m_started_at ci) (m_chunk_size ci) (length full_body))
      else Inr (make_string_view_nonchecked full_body ci))"

record chunked_input_info_block_t =
  m_chunks :: "chunk_info_t list"
  m_trailing_fields :: http_header_fields_t

definition empty_chunked_info :: chunked_input_info_block_t where
  "empty_chunked_info = \<lparr>m_chunks = [], m_trailing_fields = []\<rparr>"

section \<open>The context of the parser\<close>

record http_parser_ctx_t =
  ctx_header :: http_request_header_t
  ctx_body :: string
  m_current_field_name :: string
  m_last_value_total_size :: nat
  m_last_was_value :: bool
  m_leading_headers_completed :: bool
  m_chunked_info_block :: chunked_input_info_block_t
  m_message_complete :: bool
  m_total_field_count :: nat
  m_limits :: incoming_http_msg_limits_t

definition http_parser_ctx :: "incoming_http_msg_limits_t \<Rightarrow> http_parser_ctx_t" where
  "http_parser_ctx limits =
     \<lparr>ctx_header = new_request_header, ctx_body = [], m_current_field_name = [], m_last_value_total_size = 0,
      m_last_was_value = True, m_leading_headers_completed = False, m_chunked_info_block = empty_chunked_info,
      m_message_complete = False, m_total_field_count = 0, m_limits = limits\<rparr>"

text \<open>\<open>reset\<close> leaves the information about chunks as it is.\<close>

definition ctx_reset :: "http_parser_ctx_t \<Rightarrow> http_parser_ctx_t" where
  "ctx_reset ctx =
     ctx\<lparr>ctx_header := new_request_header, ctx_body := [], m_current_field_name := [], m_last_value_total_size := 0,
       m_last_was_value := True, m_leading_headers_completed := False, m_message_complete := False,
       m_total_field_count := 0\<rparr>"

text \<open>The information is moved out of the context, if there is any.\<close>

definition make_chunked_input_info_if_necessary ::
    "http_parser_ctx_t \<Rightarrow> chunked_input_info_block_t option \<times> http_parser_ctx_t" where
  "make_chunked_input_info_if_necessary ctx =
     (let b = m_chunked_info_block ctx
      in if m_chunks b \<noteq> [] \<or> length (m_trailing_fields b) \<noteq> 0
         then (Some b, ctx\<lparr>m_chunked_info_block := empty_chunked_info\<rparr>) else (None, ctx))"

section \<open>Callbacks\<close>

definition restinio_url_cb :: "string \<Rightarrow> http_parser_ctx_t \<Rightarrow> int \<times> http_parser_ctx_t" where
  "restinio_url_cb at ctx0 =
     (let ctx = ctx0\<lparr>ctx_header := append_request_target at (ctx_header ctx0)\<rparr>
      in if length (m_request_target (ctx_header ctx)) > max_url_size (m_limits ctx) then (-1, ctx) else (0, ctx))"

definition restinio_header_field_cb :: "string \<Rightarrow> http_parser_ctx_t \<Rightarrow> int \<times> http_parser_ctx_t" where
  "restinio_header_field_cb at ctx0 =
     (if m_last_was_value ctx0 \<and> m_total_field_count ctx0 = max_field_count (m_limits ctx0) then (-1, ctx0)
      else let ctx = (if m_last_was_value ctx0
                      then ctx0\<lparr>m_current_field_name := at, m_last_was_value := False\<rparr>
                      else ctx0\<lparr>m_current_field_name := m_current_field_name ctx0 @ at\<rparr>)
           in if length (m_current_field_name ctx) > max_field_name_size (m_limits ctx) then (-1, ctx) else (0, ctx))"

text \<open>The fields that the next value belongs to: those of the header, or the trailing ones.\<close>

definition upd_fields :: "(http_header_fields_t \<Rightarrow> http_header_fields_t) \<Rightarrow> http_parser_ctx_t \<Rightarrow> http_parser_ctx_t" where
  "upd_fields f ctx =
     (if m_leading_headers_completed ctx
      then ctx\<lparr>m_chunked_info_block := (m_chunked_info_block ctx)\<lparr>m_trailing_fields :=
             f (m_trailing_fields (m_chunked_info_block ctx))\<rparr>\<rparr>
      else ctx\<lparr>ctx_header := (ctx_header ctx)\<lparr>m_fields := f (m_fields (ctx_header ctx))\<rparr>\<rparr>)"

definition restinio_header_value_cb :: "string \<Rightarrow> http_parser_ctx_t \<Rightarrow> int \<times> http_parser_ctx_t" where
  "restinio_header_value_cb at ctx0 =
     (let ctx = (if \<not> m_last_was_value ctx0
                 then (upd_fields (add_field (m_current_field_name ctx0) at) ctx0)
                   \<lparr>m_current_field_name := [], m_last_value_total_size := length at, m_last_was_value := True,
                    m_total_field_count := m_total_field_count ctx0 + 1\<rparr>
                 else (upd_fields (append_last_field at) ctx0)
                   \<lparr>m_last_value_total_size := m_last_value_total_size ctx0 + length at\<rparr>)
      in if m_last_value_total_size ctx \<ge> max_field_value_size (m_limits ctx) then (-1, ctx) else (0, ctx))"

text \<open>
  \<open>content_length\<close> of the parser, \<open>None\<close> for \<open>ULLONG_MAX\<close>. \<open>reserves\<close>: whether \<open>m_body.reserve\<close> of that
  length succeeds. It throws \<open>length_error\<close> beyond the greatest size of a string, and \<open>bad_alloc\<close>
  when there is not so much memory.
\<close>

definition restinio_headers_complete_cb :: "nat option \<Rightarrow> bool \<Rightarrow> http_parser_ctx_t \<Rightarrow> int \<times> http_parser_ctx_t" where
  "restinio_headers_complete_cb content_length reserves ctx0 =
     (let ctx = ctx0\<lparr>m_leading_headers_completed := True\<rparr>
      in case content_length of
           None \<Rightarrow> (0, ctx)
         | Some n \<Rightarrow>
             if 0 < n
             then (if n > max_body_size (m_limits ctx) then (-1, ctx)
                   else if \<not> reserves then (-1, ctx) else (0, ctx))
             else (0, ctx))"

definition restinio_body_cb :: "string \<Rightarrow> http_parser_ctx_t \<Rightarrow> int \<times> http_parser_ctx_t" where
  "restinio_body_cb at ctx =
     (if length (ctx_body ctx) + length at > max_body_size (m_limits ctx) then (-1, ctx)
      else (0, ctx\<lparr>ctx_body := ctx_body ctx @ at\<rparr>))"

text \<open>With \<open>content_length\<close>, the size of the chunk that begins.\<close>

definition restinio_chunk_header_cb :: "nat \<Rightarrow> http_parser_ctx_t \<Rightarrow> int \<times> http_parser_ctx_t" where
  "restinio_chunk_header_cb content_length ctx =
     (if content_length \<noteq> 0
      then (0, ctx\<lparr>m_chunked_info_block := (m_chunked_info_block ctx)\<lparr>m_chunks :=
             m_chunks (m_chunked_info_block ctx) @ [\<lparr>m_started_at = length (ctx_body ctx), m_chunk_size = content_length\<rparr>]\<rparr>\<rparr>)
      else (0, ctx))"

definition restinio_chunk_complete_cb :: "http_parser_ctx_t \<Rightarrow> int \<times> http_parser_ctx_t" where
  "restinio_chunk_complete_cb ctx = (0, ctx)"

text \<open>With the parser's method, whether it asks for an upgrade, and \<open>http_should_keep_alive\<close>.\<close>

definition restinio_message_complete_cb :: "nat \<Rightarrow> bool \<Rightarrow> bool \<Rightarrow> http_parser_ctx_t \<Rightarrow> int \<times> http_parser_ctx_t" where
  "restinio_message_complete_cb parser_method parser_upgrade keep ctx0 =
     (let ctx = (if \<not> m_last_was_value ctx0 \<and> m_current_field_name ctx0 \<noteq> []
                 then ctx0\<lparr>m_chunked_info_block := (m_chunked_info_block ctx0)\<lparr>m_trailing_fields :=
                        add_field (m_current_field_name ctx0) [] (m_trailing_fields (m_chunked_info_block ctx0))\<rparr>,
                      m_current_field_name := []\<rparr>
                 else ctx0);
          ctx = ctx\<lparr>m_message_complete := True, ctx_header := (ctx_header ctx)\<lparr>m_method := parser_method\<rparr>\<rparr>
      in (0, ctx\<lparr>ctx_header :=
           (if \<not> parser_upgrade then set_keep_alive keep (ctx_header ctx)
            else (ctx_header ctx)\<lparr>m_http_connection_header_field_value := upgrade_connection\<rparr>)\<rparr>))"

datatype parser_event =
  OnUrl string | OnHeaderField string | OnHeaderValue string | OnHeadersComplete "nat option" bool | OnBody string
| OnChunkHeader nat | OnChunkComplete | OnMessageComplete nat bool bool

text \<open>\<open>create_parser_settings\<close>: the callback of each event.\<close>

definition parser_callback :: "parser_event \<Rightarrow> http_parser_ctx_t \<Rightarrow> int \<times> http_parser_ctx_t" where
  "parser_callback ev =
     (case ev of
        OnUrl at \<Rightarrow> restinio_url_cb at
      | OnHeaderField at \<Rightarrow> restinio_header_field_cb at
      | OnHeaderValue at \<Rightarrow> restinio_header_value_cb at
      | OnHeadersComplete n reserves \<Rightarrow> restinio_headers_complete_cb n reserves
      | OnBody at \<Rightarrow> restinio_body_cb at
      | OnChunkHeader n \<Rightarrow> restinio_chunk_header_cb n
      | OnChunkComplete \<Rightarrow> restinio_chunk_complete_cb
      | OnMessageComplete m up keep \<Rightarrow> restinio_message_complete_cb m up keep)"

fun run_callbacks :: "parser_event list \<Rightarrow> http_parser_ctx_t \<Rightarrow> int \<times> http_parser_ctx_t" where
  "run_callbacks [] ctx = (0, ctx)"
| "run_callbacks (ev # evs) ctx =
     (case parser_callback ev ctx of (r, ctx) \<Rightarrow> if r = 0 then run_callbacks evs ctx else (r, ctx))"

section \<open>Lemmas\<close>

lemma run_callbacks_append:
  "run_callbacks (evs @ evs') ctx = (case run_callbacks evs ctx of (r, ctx) \<Rightarrow> if r = 0 then run_callbacks evs' ctx else (r, ctx))"
  by (induction evs arbitrary: ctx) (auto split: prod.splits)

lemma upd_fields_leading [simp]: "\<not> m_leading_headers_completed ctx \<Longrightarrow>
    upd_fields f ctx = ctx\<lparr>ctx_header := (ctx_header ctx)\<lparr>m_fields := f (m_fields (ctx_header ctx))\<rparr>\<rparr>"
  by (simp add: upd_fields_def)

text \<open>The target.\<close>

lemma run_url:
  assumes "ctx_header ctx = request_target t h" and "length t \<le> max_url_size (m_limits ctx)"
  shows "if length (t @ concat us) \<le> max_url_size (m_limits ctx)
    then run_callbacks (map OnUrl us) ctx = (0, ctx\<lparr>ctx_header := request_target (t @ concat us) h\<rparr>)
    else fst (run_callbacks (map OnUrl us) ctx) = -1"
  using assms
proof (induction us arbitrary: ctx t)
  case Nil
  then show ?case by simp
next
  case (Cons u us)
  let ?ctx = "ctx\<lparr>ctx_header := request_target (t @ u) h\<rparr>"
  have l: "length (m_request_target (request_target (t @ u) h)) = length t + length u" by (simp add: request_target_def Let_def)
  have s: "parser_callback (OnUrl u) ctx =
      (if length t + length u > max_url_size (m_limits ctx) then (-1, ?ctx) else (0, ?ctx))"
    using Cons.prems(1) l by (simp add: parser_callback_def restinio_url_cb_def append_request_target_step Let_def)
  show ?case
  proof (cases "length t + length u \<le> max_url_size (m_limits ctx)")
    case True
    then show ?thesis using Cons.IH [of ?ctx "t @ u"] s by (auto split: if_splits)
  next
    case False
    then show ?thesis using s by simp
  qed
qed

text \<open>The name of a field, and its value.\<close>

lemma run_name:
  assumes "\<not> m_last_was_value ctx" and "length (m_current_field_name ctx) \<le> max_field_name_size (m_limits ctx)"
  shows "if length (m_current_field_name ctx @ concat ns) \<le> max_field_name_size (m_limits ctx)
    then run_callbacks (map OnHeaderField ns) ctx = (0, ctx\<lparr>m_current_field_name := m_current_field_name ctx @ concat ns\<rparr>)
    else fst (run_callbacks (map OnHeaderField ns) ctx) = -1"
  using assms
proof (induction ns arbitrary: ctx)
  case Nil
  then show ?case by simp
next
  case (Cons n ns)
  let ?ctx = "ctx\<lparr>m_current_field_name := m_current_field_name ctx @ n\<rparr>"
  have s: "parser_callback (OnHeaderField n) ctx =
      (if length (m_current_field_name ctx @ n) > max_field_name_size (m_limits ctx) then (-1, ?ctx) else (0, ?ctx))"
    using Cons.prems(1) by (simp add: parser_callback_def restinio_header_field_cb_def Let_def)
  show ?case
  proof (cases "length (m_current_field_name ctx @ n) \<le> max_field_name_size (m_limits ctx)")
    case True
    then show ?thesis using Cons.IH [of ?ctx] Cons.prems s by (auto split: if_splits)
  next
    case False
    then show ?thesis using s by simp
  qed
qed

text \<open>A context whose last field is being read.\<close>

definition with_last_field :: "http_header_fields_t \<Rightarrow> string \<Rightarrow> string \<Rightarrow> http_parser_ctx_t \<Rightarrow> http_parser_ctx_t" where
  "with_last_field fs n v ctx =
     ctx\<lparr>ctx_header := (ctx_header ctx)\<lparr>m_fields := fs @ [(n, v)]\<rparr>, m_last_value_total_size := length v,
       m_last_was_value := True\<rparr>"

lemma with_last_field_simps [simp]:
  "m_limits (with_last_field fs n v ctx) = m_limits ctx"
  "m_leading_headers_completed (with_last_field fs n v ctx) = m_leading_headers_completed ctx"
  by (simp_all add: with_last_field_def)

lemma run_value:
  assumes "\<not> m_leading_headers_completed ctx" and "length v < max_field_value_size (m_limits ctx)"
  shows "if length (v @ concat vs) < max_field_value_size (m_limits ctx)
    then run_callbacks (map OnHeaderValue vs) (with_last_field fs n v ctx) = (0, with_last_field fs n (v @ concat vs) ctx)
    else fst (run_callbacks (map OnHeaderValue vs) (with_last_field fs n v ctx)) = -1"
  using assms(2)
proof (induction vs arbitrary: v)
  case Nil
  then show ?case by simp
next
  case (Cons w vs)
  have s: "parser_callback (OnHeaderValue w) (with_last_field fs n v ctx) =
      (if length (v @ w) \<ge> max_field_value_size (m_limits ctx) then (-1, with_last_field fs n (v @ w) ctx)
       else (0, with_last_field fs n (v @ w) ctx))"
    using assms(1)
    by (simp add: parser_callback_def restinio_header_value_cb_def append_last_field_def Let_def)
       (simp add: with_last_field_def)
  show ?case
  proof (cases "length (v @ w) < max_field_value_size (m_limits ctx)")
    case True
    then show ?thesis using Cons.IH [of "v @ w"] s by (auto split: if_splits)
  next
    case False
    then show ?thesis using s by simp
  qed
qed


text \<open>Between the fields of the header: what has been assembled.\<close>

definition headers_state ::
    "http_request_header_t \<Rightarrow> chunked_input_info_block_t \<Rightarrow> incoming_http_msg_limits_t \<Rightarrow> nat \<Rightarrow> http_parser_ctx_t \<Rightarrow> bool" where
  "headers_state h b L n ctx \<longleftrightarrow>
     ctx_header ctx = h \<and> ctx_body ctx = [] \<and> m_last_was_value ctx \<and> \<not> m_leading_headers_completed ctx \<and>
     m_chunked_info_block ctx = b \<and> m_limits ctx = L \<and> m_total_field_count ctx = n"

text \<open>A field as the parser finds it: its name and its value in pieces.\<close>

type_synonym field_pieces_t = "string list \<times> string list"

definition field_events :: "field_pieces_t \<Rightarrow> parser_event list" where
  "field_events f = map OnHeaderField (fst f) @ map OnHeaderValue (snd f)"

definition field_of :: "field_pieces_t \<Rightarrow> http_header_field_t" where
  "field_of f = (concat (fst f), concat (snd f))"

definition field_fits :: "incoming_http_msg_limits_t \<Rightarrow> field_pieces_t \<Rightarrow> bool" where
  "field_fits L f \<longleftrightarrow> length (concat (fst f)) \<le> max_field_name_size L \<and> length (concat (snd f)) < max_field_value_size L"

lemma run_field:
  assumes "headers_state h b L n ctx" and "fst f \<noteq> []" and "snd f \<noteq> []"
  shows "if n \<noteq> max_field_count L \<and> field_fits L f
    then \<exists>ctx'. run_callbacks (field_events f) ctx = (0, ctx') \<and>
      headers_state (h\<lparr>m_fields := m_fields h @ [field_of f]\<rparr>) b L (Suc n) ctx'
    else fst (run_callbacks (field_events f) ctx) = -1"
proof -
  obtain x xs y ys where f: "f = (x # xs, y # ys)" using assms(2,3) by (cases f) (auto simp: neq_Nil_conv)
  note st = assms(1) [unfolded headers_state_def]
  let ?c1 = "ctx\<lparr>m_current_field_name := x, m_last_was_value := False\<rparr>"
  have first: "parser_callback (OnHeaderField x) ctx =
      (if n = max_field_count L then (-1, ctx) else if length x > max_field_name_size L then (-1, ?c1) else (0, ?c1))"
    using st by (simp add: parser_callback_def restinio_header_field_cb_def Let_def)
  show ?thesis
  proof (cases "n \<noteq> max_field_count L \<and> length (concat (x # xs)) \<le> max_field_name_size L")
    case False
    have "n = max_field_count L \<or> length x > max_field_name_size L \<or> fst (run_callbacks (map OnHeaderField xs) ?c1) = -1"
      using False run_name [of ?c1 xs] st by (cases "length x \<le> max_field_name_size L") (auto split: if_splits)
    then have "fst (run_callbacks (map OnHeaderField (x # xs)) ctx) = -1" using first by auto
    then show ?thesis using False
      by (auto simp: f field_events_def run_callbacks_append field_fits_def simp del: run_callbacks.simps list.map split: prod.split)
  next
    case True
    let ?c2 = "ctx\<lparr>m_current_field_name := concat (x # xs), m_last_was_value := False\<rparr>"
    have names: "run_callbacks (map OnHeaderField (x # xs)) ctx = (0, ?c2)"
      using True run_name [of ?c1 xs] st first by simp
    let ?c3 = "with_last_field (m_fields h) (concat (x # xs)) y (ctx\<lparr>m_current_field_name := [], m_total_field_count := Suc n\<rparr>)"
    have value1: "parser_callback (OnHeaderValue y) ?c2 = (if length y \<ge> max_field_value_size L then (-1, ?c3) else (0, ?c3))"
      using st by (simp add: parser_callback_def restinio_header_value_cb_def add_field_def with_last_field_def Let_def)
    have rest: "if length (y @ concat ys) < max_field_value_size L
      then run_callbacks (map OnHeaderValue ys) ?c3 = (0, with_last_field (m_fields h) (concat (x # xs)) (y @ concat ys)
        (ctx\<lparr>m_current_field_name := [], m_total_field_count := Suc n\<rparr>))
      else fst (run_callbacks (map OnHeaderValue ys) ?c3) = -1" if "length y < max_field_value_size L"
      using that run_value [of "ctx\<lparr>m_current_field_name := [], m_total_field_count := Suc n\<rparr>" y] st by simp
    show ?thesis
    proof (cases "length (concat (y # ys)) < max_field_value_size L")
      case fits: True
      then have "run_callbacks (field_events f) ctx = (0, with_last_field (m_fields h) (concat (x # xs)) (y @ concat ys)
          (ctx\<lparr>m_current_field_name := [], m_total_field_count := Suc n\<rparr>))"
        using value1 rest by (simp add: f field_events_def run_callbacks_append names del: list.map(2) concat.simps)
          (simp add: f)
      then show ?thesis using True fits st
        by (simp add: f field_fits_def field_of_def headers_state_def with_last_field_def)
    next
      case False
      have "fst (run_callbacks (map OnHeaderValue (y # ys)) ?c2) = -1"
        using value1 rest False by (cases "length y < max_field_value_size L") auto
      then show ?thesis using False
        by (simp add: f field_events_def run_callbacks_append names field_fits_def del: list.map(2) run_callbacks.simps)
    qed
  qed
qed


lemma run_fields:
  assumes "headers_state h b L n ctx" and "list_all (\<lambda>f. fst f \<noteq> [] \<and> snd f \<noteq> []) fs" and "n \<le> max_field_count L"
  shows "if n + length fs \<le> max_field_count L \<and> list_all (field_fits L) fs
    then \<exists>ctx'. run_callbacks (concat (map field_events fs)) ctx = (0, ctx') \<and>
      headers_state (h\<lparr>m_fields := m_fields h @ map field_of fs\<rparr>) b L (n + length fs) ctx'
    else fst (run_callbacks (concat (map field_events fs)) ctx) = -1"
  using assms
proof (induction fs arbitrary: h n ctx)
  case Nil
  then show ?case by (auto simp: headers_state_def)
next
  case (Cons f fs)
  let ?h = "h\<lparr>m_fields := m_fields h @ [field_of f]\<rparr>"
  have one: "if n \<noteq> max_field_count L \<and> field_fits L f
    then \<exists>ctx'. run_callbacks (field_events f) ctx = (0, ctx') \<and> headers_state ?h b L (Suc n) ctx'
    else fst (run_callbacks (field_events f) ctx) = -1"
    using run_field [OF Cons.prems(1)] Cons.prems(2) by simp
  show ?case
  proof (cases "n \<noteq> max_field_count L \<and> field_fits L f")
    case True
    with one obtain ctx1 where c1: "run_callbacks (field_events f) ctx = (0, ctx1)" "headers_state ?h b L (Suc n) ctx1" by auto
    have "Suc n \<le> max_field_count L" using True Cons.prems(3) by simp
    from Cons.IH [OF c1(2) _ this] Cons.prems(2) True show ?thesis
      by (cases "Suc (n + length fs) \<le> max_field_count L \<and> list_all (field_fits L) fs")
         (auto simp: run_callbacks_append c1(1))
  next
    case False
    then have "fst (run_callbacks (field_events f) ctx) = -1" using one by simp
    then show ?thesis using False Cons.prems(3) by (auto simp: run_callbacks_append split: prod.splits)
  qed
qed

lemma run_body:
  assumes "length (ctx_body ctx) \<le> max_body_size (m_limits ctx)"
  shows "if length (ctx_body ctx @ concat bs) \<le> max_body_size (m_limits ctx)
    then run_callbacks (map OnBody bs) ctx = (0, ctx\<lparr>ctx_body := ctx_body ctx @ concat bs\<rparr>)
    else fst (run_callbacks (map OnBody bs) ctx) = -1"
  using assms
proof (induction bs arbitrary: ctx)
  case Nil
  then show ?case by simp
next
  case (Cons d bs)
  let ?ctx = "ctx\<lparr>ctx_body := ctx_body ctx @ d\<rparr>"
  have s: "parser_callback (OnBody d) ctx =
      (if length (ctx_body ctx @ d) > max_body_size (m_limits ctx) then (-1, ctx) else (0, ?ctx))"
    by (simp add: parser_callback_def restinio_body_cb_def)
  show ?case
  proof (cases "length (ctx_body ctx @ d) \<le> max_body_size (m_limits ctx)")
    case True
    then show ?thesis using Cons.IH [of ?ctx] s by (auto split: if_splits)
  next
    case False
    then show ?thesis using s by simp
  qed
qed

text \<open>A whole message without chunks, in pieces, and what it is assembled to.\<close>

definition message_events ::
    "string list \<Rightarrow> field_pieces_t list \<Rightarrow> nat option \<Rightarrow> bool \<Rightarrow> string list \<Rightarrow> nat \<Rightarrow> bool \<Rightarrow> bool \<Rightarrow> parser_event list" where
  "message_events us fs n reserves bs m up keep =
     map OnUrl us @ concat (map field_events fs) @ [OnHeadersComplete n reserves] @ map OnBody bs @ [OnMessageComplete m up keep]"

definition assembled_header ::
    "string list \<Rightarrow> field_pieces_t list \<Rightarrow> nat \<Rightarrow> bool \<Rightarrow> bool \<Rightarrow> http_request_header_t" where
  "assembled_header us fs m up keep =
     (request_target (concat us) new_request_header)
       \<lparr>m_fields := map field_of fs, m_method := m, m_http_connection_header_field_value :=
         (if up then upgrade_connection else if keep then keep_alive else close_connection)\<rparr>"

definition within_limits ::
    "incoming_http_msg_limits_t \<Rightarrow> string list \<Rightarrow> field_pieces_t list \<Rightarrow> nat option \<Rightarrow> string list \<Rightarrow> bool" where
  "within_limits L us fs n bs \<longleftrightarrow>
     length (concat us) \<le> max_url_size L \<and> length fs \<le> max_field_count L \<and> list_all (field_fits L) fs \<and>
     (case n of None \<Rightarrow> True | Some k \<Rightarrow> k \<le> max_body_size L) \<and> length (concat bs) \<le> max_body_size L"

text \<open>Memory is reserved for a length that is announced and not zero.\<close>

definition body_announced :: "nat option \<Rightarrow> bool" where
  "body_announced n \<longleftrightarrow> (case n of None \<Rightarrow> False | Some k \<Rightarrow> 0 < k)"

lemma new_header_fields: "m_fields (request_target t new_request_header) = []"
  by (simp add: request_target_def new_request_header_def http_header_common_t.defs new_header_def Let_def)

lemma run_message:
  assumes "list_all (\<lambda>f. fst f \<noteq> [] \<and> snd f \<noteq> []) fs" and "m_limits ctx0 = L"
  shows "if within_limits L us fs n bs \<and> (body_announced n \<longrightarrow> reserves)
    then \<exists>ctx. run_callbacks (message_events us fs n reserves bs m up keep) (ctx_reset ctx0) = (0, ctx) \<and> m_message_complete ctx \<and>
      ctx_header ctx = assembled_header us fs m up keep \<and> ctx_body ctx = concat bs \<and>
      m_chunked_info_block ctx = m_chunked_info_block ctx0
    else fst (run_callbacks (message_events us fs n reserves bs m up keep) (ctx_reset ctx0)) = -1"
proof -
  let ?c = "ctx_reset ctx0" and ?h = "request_target (concat us) new_request_header"
  let ?c1 = "?c\<lparr>ctx_header := ?h\<rparr>"
  have lim: "m_limits ?c = L" using assms(2) by (simp add: ctx_reset_def)
  have "ctx_header ?c = request_target [] new_request_header" by (simp add: ctx_reset_def new_request_target)
  from run_url [OF this, of us] have url: "if length (concat us) \<le> max_url_size L
      then run_callbacks (map OnUrl us) ?c = (0, ?c1) else fst (run_callbacks (map OnUrl us) ?c) = -1"
    using lim by simp
  have c1: "headers_state ?h (m_chunked_info_block ctx0) L 0 ?c1" using assms(2) by (simp add: headers_state_def ctx_reset_def)
  note fields = run_fields [OF c1 assms(1) le0]
  show ?thesis
  proof (cases "length (concat us) \<le> max_url_size L")
    case False
    then have "fst (run_callbacks (map OnUrl us) ?c) = -1" using url by simp
    then show ?thesis using False
      by (auto simp: message_events_def run_callbacks_append within_limits_def split: prod.split)
  next
    case True
    then have u: "run_callbacks (map OnUrl us) ?c = (0, ?c1)" using url by simp
    show ?thesis
    proof (cases "length fs \<le> max_field_count L \<and> list_all (field_fits L) fs")
      case False
      then have "fst (run_callbacks (concat (map field_events fs)) ?c1) = -1" using fields by auto
      then show ?thesis using False
        by (auto simp: message_events_def run_callbacks_append u within_limits_def split: prod.split)
    next
      case fit: True
      then obtain c2 where c2: "run_callbacks (concat (map field_events fs)) ?c1 = (0, c2)"
        "headers_state (?h\<lparr>m_fields := map field_of fs\<rparr>) (m_chunked_info_block ctx0) L (length fs) c2"
        using fields by (auto simp: new_header_fields)
      note st = c2(2) [unfolded headers_state_def]
      let ?c3 = "c2\<lparr>m_leading_headers_completed := True\<rparr>"
      have complete: "parser_callback (OnHeadersComplete n reserves) c2 =
          (if (case n of None \<Rightarrow> True | Some k \<Rightarrow> k \<le> max_body_size L) \<and> (body_announced n \<longrightarrow> reserves) then (0, ?c3) else (-1, ?c3))"
        using st by (auto simp: parser_callback_def restinio_headers_complete_cb_def body_announced_def Let_def split: option.splits)
      have "if length (concat bs) \<le> max_body_size L
        then run_callbacks (map OnBody bs) ?c3 = (0, ?c3\<lparr>ctx_body := concat bs\<rparr>)
        else fst (run_callbacks (map OnBody bs) ?c3) = -1"
        using run_body [of ?c3 bs] st by simp
      then show ?thesis
        using True fit st complete
        by (auto simp: message_events_def run_callbacks_append u c2(1) within_limits_def parser_callback_def
            restinio_message_complete_cb_def assembled_header_def set_keep_alive_def Let_def split: prod.split if_splits)
    qed
  qed
qed


subsection \<open>Chunks\<close>

text \<open>A chunk whose data comes in pieces, and the positions of chunks from \<open>k\<close> on.\<close>

definition chunk_events :: "string list \<Rightarrow> parser_event list" where
  "chunk_events ps = OnChunkHeader (length (concat ps)) # map OnBody ps @ [OnChunkComplete]"

fun chunk_infos :: "nat \<Rightarrow> string list list \<Rightarrow> chunk_info_t list" where
  "chunk_infos k [] = []"
| "chunk_infos k (ps # css) =
     \<lparr>m_started_at = k, m_chunk_size = length (concat ps)\<rparr> # chunk_infos (k + length (concat ps)) css"

lemma run_chunks:
  assumes "list_all (\<lambda>ps. concat ps \<noteq> []) css"
    and "length (ctx_body ctx @ concat (map concat css)) \<le> max_body_size (m_limits ctx)"
  shows "run_callbacks (concat (map chunk_events css)) ctx =
    (0, ctx\<lparr>ctx_body := ctx_body ctx @ concat (map concat css),
      m_chunked_info_block := (m_chunked_info_block ctx)\<lparr>m_chunks :=
        m_chunks (m_chunked_info_block ctx) @ chunk_infos (length (ctx_body ctx)) css\<rparr>\<rparr>)"
  using assms
proof (induction css arbitrary: ctx)
  case Nil
  then show ?case by simp
next
  case (Cons ps css)
  let ?b = "(m_chunked_info_block ctx)\<lparr>m_chunks := m_chunks (m_chunked_info_block ctx) @
    [\<lparr>m_started_at = length (ctx_body ctx), m_chunk_size = length (concat ps)\<rparr>]\<rparr>"
  let ?c1 = "ctx\<lparr>m_chunked_info_block := ?b\<rparr>" and ?c2 = "ctx\<lparr>m_chunked_info_block := ?b, ctx_body := ctx_body ctx @ concat ps\<rparr>"
  have "parser_callback (OnChunkHeader (length (concat ps))) ctx = (0, ?c1)"
    using Cons.prems(1) by (auto simp: parser_callback_def restinio_chunk_header_cb_def)
  moreover have "run_callbacks (map OnBody ps) ?c1 = (0, ?c2)" using run_body [of ?c1 ps] Cons.prems(2) by simp
  moreover have "parser_callback OnChunkComplete ?c2 = (0, ?c2)"
    by (simp add: parser_callback_def restinio_chunk_complete_cb_def)
  ultimately have "run_callbacks (chunk_events ps) ctx = (0, ?c2)"
    by (simp add: chunk_events_def run_callbacks_append del: length_concat)
  then show ?case using Cons.IH [of ?c2] Cons.prems by (simp add: run_callbacks_append del: length_concat)
qed

lemma chunk_views:
  "list_all (\<lambda>ps. concat ps \<noteq> []) css \<Longrightarrow>
    map (make_string_view (b @ concat (map concat css))) (chunk_infos (length b) css) = map (\<lambda>ps. Inr (concat ps)) css"
proof (induction css arbitrary: b)
  case (Cons ps css)
  have "make_string_view (b @ concat ps @ concat (map concat css)) \<lparr>m_started_at = length b, m_chunk_size = length (concat ps)\<rparr>
      = Inr (concat ps)"
    using Cons.prems by (auto simp: make_string_view_def make_string_view_nonchecked_def substr_def simp del: length_concat)
  then show ?case using Cons.IH [of "b @ concat ps"] Cons.prems by (simp del: length_concat)
qed simp

section \<open>Properties\<close>

text \<open>
  C25: a request is assembled from its pieces. However the parser cuts the target, the names and
  values of the fields and the body of a message into pieces, the callbacks assemble the same
  request: target, fields in order, body, method and connection, with nothing left of an earlier
  request. This holds exactly when the message is within the limits and, if it announces a body, the
  memory for the announced length can be reserved; otherwise a callback returns -1. A value must be
  shorter than its limit, while everything else may reach it.
\<close>

theorem request_assembled:
  assumes "list_all (\<lambda>f. fst f \<noteq> [] \<and> snd f \<noteq> []) fs" and "m_limits ctx0 = L"
  shows "if within_limits L us fs n bs \<and> (body_announced n \<longrightarrow> reserves)
    then \<exists>ctx. run_callbacks (message_events us fs n reserves bs m up keep) (ctx_reset ctx0) = (0, ctx) \<and> m_message_complete ctx \<and>
      ctx_header ctx = assembled_header us fs m up keep \<and> ctx_body ctx = concat bs \<and>
      m_chunked_info_block ctx = m_chunked_info_block ctx0
    else fst (run_callbacks (message_events us fs n reserves bs m up keep) (ctx_reset ctx0)) = -1"
  by (rule run_message [OF assms])

theorem request_assembled_witness:
  "(\<exists>ctx. run_callbacks (message_events [''/req_'', ''treat/420''] [([''Ho'', ''st''], [''fg''])] (Some 2) True [''ok''] 1 False True)
      (ctx_reset (http_parser_ctx default_limits)) = (0, ctx) \<and>
      m_fields (ctx_header ctx) = [(''Host'', ''fg'')] \<and> m_request_target (ctx_header ctx) = ''/req_treat/420'') \<and>
   fst (run_callbacks (message_events [''/''] [] (Some (2 ^ 63)) False [] 1 False True)
      (ctx_reset (http_parser_ctx default_limits))) = -1 \<and>
   fst (run_callbacks (message_events [''/''] [([''Host''], [''fg''])] None True [] 1 False True)
      (ctx_reset (http_parser_ctx (default_limits\<lparr>max_field_value_size := 2\<rparr>)))) = -1"
proof (intro conjI)
  have a: "list_all (\<lambda>f. fst f \<noteq> [] \<and> snd f \<noteq> []) [([''Ho'', ''st''], [''fg''])]"
    "list_all (\<lambda>f. fst f \<noteq> [] \<and> snd f \<noteq> []) [([''Host''], [''fg''])]"
    "list_all (\<lambda>f. fst f \<noteq> [] \<and> snd f \<noteq> []) ([] :: field_pieces_t list)" by simp_all
  have L: "m_limits (http_parser_ctx x) = x" for x by (simp add: http_parser_ctx_def)
  have "within_limits default_limits [''/req_'', ''treat/420''] [([''Ho'', ''st''], [''fg''])] (Some 2) [''ok'']"
    by (simp add: within_limits_def default_limits_def field_fits_def)
  then show "\<exists>ctx. run_callbacks (message_events [''/req_'', ''treat/420''] [([''Ho'', ''st''], [''fg''])] (Some 2) True [''ok''] 1 False True)
      (ctx_reset (http_parser_ctx default_limits)) = (0, ctx) \<and>
      m_fields (ctx_header ctx) = [(''Host'', ''fg'')] \<and> m_request_target (ctx_header ctx) = ''/req_treat/420''"
    using request_assembled [OF a(1) L, of default_limits "[''/req_'', ''treat/420'']" "Some 2" "[''ok'']" True 1 False True]
    by (auto simp: assembled_header_def field_of_def request_target_def Let_def)
  have "body_announced (Some (2 ^ 63))" by (simp add: body_announced_def)
  then show "fst (run_callbacks (message_events [''/''] [] (Some (2 ^ 63)) False [] 1 False True)
      (ctx_reset (http_parser_ctx default_limits))) = -1"
    using request_assembled [OF a(3) L, of default_limits "[''/'']" "Some (2 ^ 63)" "[]" False 1 False True] by simp
  have "\<not> within_limits (default_limits\<lparr>max_field_value_size := 2\<rparr>) [''/''] [([''Host''], [''fg''])] None []"
    by (simp add: within_limits_def field_fits_def)
  then show "fst (run_callbacks (message_events [''/''] [([''Host''], [''fg''])] None True [] 1 False True)
      (ctx_reset (http_parser_ctx (default_limits\<lparr>max_field_value_size := 2\<rparr>)))) = -1"
    using request_assembled [OF a(2) L, of "default_limits\<lparr>max_field_value_size := 2\<rparr>" "[''/'']" None "[]" True 1 False True] by simp
qed

end
