(* ===== verification/RioHttp.thy ===== *)
theory RioHttp
  imports RioMessage RioCoordinator WsConnection
begin

text \<open>
  RESTinio's HTTP connection (\<open>restinio/impl/connection.hpp\<close>): it reads requests, calls the
  handler, and writes the responses. The state has the members of \<open>connection_t\<close> and
  \<open>connection_input_t\<close>, the operations pending on the socket and what was written. One event of
  asio runs one callback to its end, as the strand of the connection does. The C parser, the
  handler and the time limits are parameters. The functions call each other without a bound that
  the code knows, so they run with fuel; \<open>OutOfFuel\<close> is no result of the code.
\<close>

section \<open>The connection\<close>

datatype connection_upgrade_stage_t = no_upgrade | pending_upgrade_handling | wait_for_upgrade_handling_result_or_nothing

datatype timeout_cb_t = handle_read_timeout | handle_request_handling_timeout | handle_write_response_timeout

text \<open>What the handler is given.\<close>

record http_request_t =
  rq_id :: request_id_t
  rq_header :: http_request_header_t
  rq_body :: string
  rq_chunks :: "chunked_input_info_block_t option"

text \<open>
  \<open>http_buf\<close> holds the bytes not consumed. The fields after \<open>http_timer_scheduled\<close> are outside the
  class: the writes pending on the socket (a pending read is \<open>m_read_operation_is_running\<close>), everything given to
  \<open>async_write\<close> on the open socket, whether the socket was moved out, the requests the handler was
  given, the clock, and the history of the coordinator while the socket was open: what was asked of
  it and what it gave to write.
\<close>

record 'p http_connection_t =
  socket_open :: bool
  http_parser :: 'p
  m_parser_ctx :: http_parser_ctx_t
  http_buf :: raw_data_t
  m_connection_upgrade_stage :: connection_upgrade_stage_t
  m_read_operation_is_running :: bool
  http_write_ctx :: write_group_output_ctx_t
  m_init_read_after_this_write :: bool
  m_response_coordinator :: response_coordinator_t
  m_current_timeout_cb :: "timeout_cb_t option"
  m_current_timeout_after :: nat
  http_timer_scheduled :: bool
  http_writes_pending :: nat
  http_written :: "raw_data_t list list"
  socket_moved :: bool
  handled :: "http_request_t list"
  http_clock :: nat
  coord_log :: "coord_op list"
  coord_out :: popped_t

text \<open>
  What a handler does with the connection, and how it ends: with a status, or with an exception
  (\<open>None\<close>). It may write parts for any request and take the socket, which \<open>websocket::upgrade\<close> does.
\<close>

datatype http_action = WriteParts request_id_t response_output_flags_t http_write_group_t | MoveSocket
datatype handling_status_t = status_accepted | status_rejected | status_not_handled

record handler_outcome =
  outcome_actions :: "http_action list"
  outcome_status :: "handling_status_t option"

text \<open>
  The world of a connection. \<open>http_parser_execute\<close> gives the number of bytes it parsed, its new
  state and the callbacks it calls until it stops or one fails, with the memory they get.
\<close>

record 'p http_env =
  http_parser_init :: 'p
  http_parser_execute :: "'p \<Rightarrow> raw_data_t \<Rightarrow> nat \<times> 'p \<times> parser_event list"
  parser_failed :: "'p \<Rightarrow> bool"
  parser_nread :: "'p \<Rightarrow> nat"
  parser_upgrade :: "'p \<Rightarrow> bool"
  m_request_handler :: "http_request_t list \<Rightarrow> handler_outcome"
  read_timelimit :: nat
  write_timelimit :: nat
  handle_timelimit :: nat

definition http_connection :: "'p http_env \<Rightarrow> incoming_http_msg_limits_t \<Rightarrow> nat \<Rightarrow> 'p http_connection_t" where
  "http_connection env limits max_pipelined_requests =
     \<lparr>socket_open = True, http_parser = http_parser_init env, m_parser_ctx = http_parser_ctx limits, http_buf = [],
      m_connection_upgrade_stage = no_upgrade, m_read_operation_is_running = False,
      http_write_ctx = \<lparr>m_current_wg = None, m_next_writable_item_index = 0\<rparr>, m_init_read_after_this_write = False,
      m_response_coordinator = response_coordinator max_pipelined_requests,
      m_current_timeout_cb = None, m_current_timeout_after = 0, http_timer_scheduled = False,
      http_writes_pending = 0, http_written = [], socket_moved = False, handled = [], http_clock = 0,
      coord_log = [], coord_out = []\<rparr>"

text \<open>
  How a function ends: it returns, an exception leaves it, a failed \<open>assert\<close> ends the process (no
  \<open>catch\<close> sees it), or the fuel was not enough.
\<close>

datatype 'c flow_t = Returns 'c | Raises 'c | Aborts | OutOfFuel

definition and_then :: "'c flow_t \<Rightarrow> ('c \<Rightarrow> 'c flow_t) \<Rightarrow> 'c flow_t" where
  "and_then r f = (case r of Returns c \<Rightarrow> f c | Raises c \<Rightarrow> Raises c | Aborts \<Rightarrow> Aborts | OutOfFuel \<Rightarrow> OutOfFuel)"

definition catching :: "'c flow_t \<Rightarrow> ('c \<Rightarrow> 'c) \<Rightarrow> 'c flow_t" where
  "catching r f = (case r of Returns c \<Rightarrow> Returns c | Raises c \<Rightarrow> Returns (f c) | Aborts \<Rightarrow> Aborts | OutOfFuel \<Rightarrow> OutOfFuel)"

section \<open>Timeouts and closing\<close>

definition schedule_operation_timeout_callback ::
    "nat \<Rightarrow> timeout_cb_t \<Rightarrow> 'p http_connection_t \<Rightarrow> 'p http_connection_t" where
  "schedule_operation_timeout_callback timeout cb c =
     c\<lparr>m_current_timeout_after := http_clock c + timeout, m_current_timeout_cb := Some cb\<rparr>"

definition http_guard_read_operation :: "'p http_env \<Rightarrow> 'p http_connection_t \<Rightarrow> 'p http_connection_t" where
  "http_guard_read_operation env c =
     (if coordinator_empty (m_response_coordinator c)
      then schedule_operation_timeout_callback (read_timelimit env) handle_read_timeout c else c)"

definition guard_request_handling_operation :: "'p http_env \<Rightarrow> 'p http_connection_t \<Rightarrow> 'p http_connection_t" where
  "guard_request_handling_operation env c =
     (if \<not> transmitting (http_write_ctx c)
      then schedule_operation_timeout_callback (handle_timelimit env) handle_request_handling_timeout c else c)"

definition http_guard_write_operation :: "'p http_env \<Rightarrow> 'p http_connection_t \<Rightarrow> 'p http_connection_t" where
  "http_guard_write_operation env c =
     schedule_operation_timeout_callback (write_timelimit env) handle_write_response_timeout c"

definition init_next_timeout_checking :: "'p http_connection_t \<Rightarrow> 'p http_connection_t" where
  "init_next_timeout_checking c = c\<lparr>http_timer_scheduled := True\<rparr>"

definition cancel_timeout_checking :: "'p http_connection_t \<Rightarrow> 'p http_connection_t" where
  "cancel_timeout_checking c = c\<lparr>m_current_timeout_cb := None, http_timer_scheduled := False\<rparr>"

text \<open>\<open>close\<close>, which is also what \<open>trigger_error_and_close\<close> does after its log message.\<close>

definition http_close :: "'p http_connection_t \<Rightarrow> 'p http_connection_t" where
  "http_close c0 =
     (let c = cancel_timeout_checking (c0\<lparr>socket_open := False\<rparr>)
      in c\<lparr>m_response_coordinator := snd (coordinator_reset (m_response_coordinator c))\<rparr>)"

section \<open>Steps on the coordinator and the socket\<close>

text \<open>The history goes on while the socket is open.\<close>

definition logged :: "coord_op \<Rightarrow> popped_t \<Rightarrow> 'p http_connection_t \<Rightarrow> 'p http_connection_t" where
  "logged op ws c =
     (if socket_open c then c\<lparr>coord_log := coord_log c @ [op], coord_out := coord_out c @ ws\<rparr> else c)"

definition register_request :: "'p http_connection_t \<Rightarrow> 'p http_connection_t + (request_id_t \<times> 'p http_connection_t)" where
  "register_request c =
     (case register_new_request (m_response_coordinator c) of
        Inl e \<Rightarrow> Inl c
      | Inr (i, co) \<Rightarrow> Inr (i, (logged Register [] c)\<lparr>m_response_coordinator := co\<rparr>))"

definition append_to_response :: "request_id_t \<Rightarrow> response_output_flags_t \<Rightarrow> http_write_group_t \<Rightarrow>
    'p http_connection_t \<Rightarrow> 'p http_connection_t flow_t" where
  "append_to_response i flags wg c =
     (case append_response i flags wg (m_response_coordinator c) of
        Inl e \<Rightarrow> Raises c
      | Inr co \<Rightarrow> Returns ((logged (AppendPart i flags wg) [] c)\<lparr>m_response_coordinator := co\<rparr>))"

definition next_write_group :: "'p http_connection_t \<Rightarrow>
    'p http_connection_t + ((http_write_group_t \<times> request_id_t) option \<times> 'p http_connection_t)" where
  "next_write_group c =
     (case coord_pop_ready_buffers (m_response_coordinator c) of
        Inl e \<Rightarrow> Inl c
      | Inr (p, co) \<Rightarrow> Inr (p, (logged PopReady (case p of None \<Rightarrow> [] | Some w \<Rightarrow> [w]) c)\<lparr>m_response_coordinator := co\<rparr>))"

text \<open>The request in the parser's context; what is left of the moved-from header keeps its positions.\<close>

definition moved_from_header :: "http_request_header_t \<Rightarrow> http_request_header_t" where
  "moved_from_header h = h\<lparr>m_fields := [], m_request_target := []\<rparr>"

definition take_request :: "request_id_t \<Rightarrow> 'p http_connection_t \<Rightarrow> http_request_t \<times> 'p http_connection_t" where
  "take_request i c =
     (case make_chunked_input_info_if_necessary (m_parser_ctx c) of (chunks, ctx) \<Rightarrow>
        (\<lparr>rq_id = i, rq_header = ctx_header ctx, rq_body = ctx_body ctx, rq_chunks = chunks\<rparr>,
         c\<lparr>m_parser_ctx := ctx\<lparr>ctx_header := moved_from_header (ctx_header ctx), ctx_body := []\<rparr>\<rparr>))"

definition reset_http_parser :: "'p http_env \<Rightarrow> 'p http_connection_t \<Rightarrow> 'p http_connection_t" where
  "reset_http_parser env c = c\<lparr>http_parser := http_parser_init env, m_parser_ctx := ctx_reset (m_parser_ctx c)\<rparr>"

text \<open>The read begins unless one is running; the buffer is empty then.\<close>

definition consume_message :: "'p http_connection_t \<Rightarrow> 'p http_connection_t" where
  "consume_message c =
     (if \<not> m_read_operation_is_running c then c\<lparr>m_read_operation_is_running := True\<rparr> else c)"

definition handle_nothing_to_write :: "'p http_env \<Rightarrow> 'p http_connection_t \<Rightarrow> 'p http_connection_t" where
  "handle_nothing_to_write env c =
     (if coordinator_closed (m_response_coordinator c) then http_close c
      else if coordinator_empty (m_response_coordinator c) then http_guard_read_operation env c
      else guard_request_handling_operation env c)"

text \<open>
  A write of the buffers begins. After a response that closes the connection \<open>m_socket.cancel\<close>
  makes a pending read end with \<open>operation_aborted\<close>, one of the ways a read can end below.
\<close>

definition http_trivial_write_operation :: "'p http_env \<Rightarrow> raw_data_t list \<Rightarrow> 'p http_connection_t \<Rightarrow> 'p http_connection_t" where
  "http_trivial_write_operation env bufs c0 =
     (let c = http_guard_write_operation env c0
      in c\<lparr>http_writes_pending := Suc (http_writes_pending c), http_written := http_written c @ (if socket_open c then [bufs] else [])\<rparr>)"

definition not_implemented_group :: http_write_group_t where
  "not_implemented_group = write_group [raw not_implemented_text]"

definition refused_flags :: response_output_flags_t where
  "refused_flags = \<lparr>m_response_parts = final_parts, m_response_connection = connection_close\<rparr>"


section \<open>Reading, handling, writing\<close>

text \<open>
  The functions that call each other. Each is a definition over \<open>call\<close>, which runs the function it
  names on a state; \<open>http_run\<close> ties them together, one unit of fuel for each call.
  \<open>InitWriteIfNecessary\<close> contains \<open>init_write\<close>, and \<open>HandlerActions\<close> is what a handler does.
\<close>

datatype http_call =
  WaitForHttpMessage | ConsumeData raw_data_t | OnRequestMessageComplete | HandleUpgradeRequest
| HandlerActions "http_action list" | WriteResponseParts request_id_t response_output_flags_t http_write_group_t
| WriteResponsePartsImpl request_id_t response_output_flags_t http_write_group_t
| InitWriteIfNecessary | HandleCurrentWriteCtx | FinishHandlingCurrentWriteCtx

type_synonym 'p http_fn = "'p http_connection_t \<Rightarrow> 'p http_connection_t flow_t"

definition wait_for_http_message :: "'p http_env \<Rightarrow> (http_call \<Rightarrow> 'p http_fn) \<Rightarrow> 'p http_fn" where
  "wait_for_http_message env call c0 =
     (let c = http_guard_read_operation env (reset_http_parser env c0)
      in if http_buf c \<noteq> [] then call (ConsumeData (http_buf c)) c else Returns (consume_message c))"

definition consume_data :: "'p http_env \<Rightarrow> (http_call \<Rightarrow> 'p http_fn) \<Rightarrow> raw_data_t \<Rightarrow> 'p http_fn" where
  "consume_data env call data c0 =
     (case http_parser_execute env (http_parser c0) data of (nparsed, p, events) \<Rightarrow>
      case run_callbacks events (m_parser_ctx c0) of (r, ctx) \<Rightarrow>
        let c = c0\<lparr>http_parser := p, m_parser_ctx := ctx, http_buf := drop nparsed (http_buf c0)\<rparr>
        in if parser_failed env p \<or> r \<noteq> 0 then Returns (http_close c)
           else if m_message_complete ctx then call OnRequestMessageComplete c
           else Returns (consume_message c))"

text \<open>The call of the handler, in both places: what it does, and its result.\<close>

definition call_request_handler :: "'p http_env \<Rightarrow> (http_call \<Rightarrow> 'p http_fn) \<Rightarrow> request_id_t \<Rightarrow>
    (handling_status_t \<Rightarrow> 'p http_fn) \<Rightarrow> 'p http_fn" where
  "call_request_handler env call request_id cont c0 =
     (case take_request request_id c0 of (req, c) \<Rightarrow>
        let c = c\<lparr>handled := handled c @ [req]\<rparr>; outcome = m_request_handler env (handled c)
        in and_then (call (HandlerActions (outcome_actions outcome)) c)
             (\<lambda>c. case outcome_status outcome of None \<Rightarrow> Raises c | Some st \<Rightarrow> cont st c))"

definition on_request_message_complete :: "'p http_env \<Rightarrow> (http_call \<Rightarrow> 'p http_fn) \<Rightarrow> 'p http_fn" where
  "on_request_message_complete env call c0 =
     catching
       (let c = (if parser_upgrade env (http_parser c0)
                 then c0\<lparr>m_connection_upgrade_stage := pending_upgrade_handling\<rparr> else c0)
        in if no_upgrade = m_connection_upgrade_stage c
           then (case register_request c of
                   Inl c \<Rightarrow> Raises c
                 | Inr (request_id, c) \<Rightarrow>
                     call_request_handler env call request_id
                       (\<lambda>st c. if st = status_accepted
                               then (if is_able_to_get_more_messages (m_response_coordinator c)
                                     then call WaitForHttpMessage c else Returns c)
                               else call (WriteResponsePartsImpl request_id refused_flags not_implemented_group) c)
                       (guard_request_handling_operation env c))
           else if coordinator_empty (m_response_coordinator c) then call HandleUpgradeRequest c
           else Returns c)
       http_close"

definition handle_upgrade_request :: "'p http_env \<Rightarrow> (http_call \<Rightarrow> 'p http_fn) \<Rightarrow> 'p http_fn" where
  "handle_upgrade_request env call c0 =
     (case register_request c0 of
        Inl c \<Rightarrow> Raises c
      | Inr (request_id, c) \<Rightarrow>
          call_request_handler env call request_id
            (\<lambda>st c. if st = status_accepted then Returns c
                    else if socket_open c
                    then call (WriteResponsePartsImpl request_id refused_flags not_implemented_group) c
                    else Returns c)
            ((cancel_timeout_checking c)\<lparr>m_connection_upgrade_stage := wait_for_upgrade_handling_result_or_nothing\<rparr>))"

definition http_handler_actions :: "(http_call \<Rightarrow> 'p http_fn) \<Rightarrow> http_action list \<Rightarrow> 'p http_fn" where
  "http_handler_actions call as c0 =
     (case as of
        [] \<Rightarrow> Returns c0
      | WriteParts i flags wg # as \<Rightarrow> and_then (call (WriteResponseParts i flags wg) c0) (call (HandlerActions as))
      | MoveSocket # as \<Rightarrow> call (HandlerActions as) (c0\<lparr>socket_open := False, socket_moved := True\<rparr>))"

definition write_response_parts :: "(http_call \<Rightarrow> 'p http_fn) \<Rightarrow> request_id_t \<Rightarrow> response_output_flags_t \<Rightarrow>
    http_write_group_t \<Rightarrow> 'p http_fn" where
  "write_response_parts call i flags wg c0 = catching (call (WriteResponsePartsImpl i flags wg) c0) http_close"

definition write_response_parts_impl :: "(http_call \<Rightarrow> 'p http_fn) \<Rightarrow> request_id_t \<Rightarrow> response_output_flags_t \<Rightarrow>
    http_write_group_t \<Rightarrow> 'p http_fn" where
  "write_response_parts_impl call i flags wg c0 =
     (if socket_open c0
      then and_then
             (if wait_for_upgrade_handling_result_or_nothing = m_connection_upgrade_stage c0 \<and>
                 \<not> coordinator_is_full (m_response_coordinator c0)
              then call WaitForHttpMessage c0 else Returns c0)
             (\<lambda>c. if \<not> coordinator_closed (m_response_coordinator c)
                  then and_then (append_to_response i flags wg c) (call InitWriteIfNecessary)
                  else Returns c)
      else Returns c0)"

text \<open>
  The \<open>assert\<close> is compiled in, since nothing defines \<open>NDEBUG\<close>. The others of these functions cannot
  fail: a group is set when it is written further (\<open>order_inv\<close>), and \<open>sendfile\<close> is not modelled.
\<close>

definition http_init_write_if_necessary :: "'p http_env \<Rightarrow> (http_call \<Rightarrow> 'p http_fn) \<Rightarrow> 'p http_fn" where
  "http_init_write_if_necessary env call c0 =
     (if coordinator_closed (m_response_coordinator c0) then Aborts
      else if \<not> transmitting (http_write_ctx c0)
      then let full_before = coordinator_is_full (m_response_coordinator c0)
           in (case next_write_group c0 of
                 Inl c \<Rightarrow> Raises c
               | Inr (None, c) \<Rightarrow> Returns (handle_nothing_to_write env c)
               | Inr (Some (wg, i), c) \<Rightarrow>
                   call HandleCurrentWriteCtx
                     (c\<lparr>m_init_read_after_this_write := (full_before \<and> \<not> coordinator_is_full (m_response_coordinator c)),
                        http_write_ctx := start_next_write_group (Some (m_items wg)) (http_write_ctx c)\<rparr>))
      else Returns c0)"

definition http_handle_current_write_ctx :: "'p http_env \<Rightarrow> (http_call \<Rightarrow> 'p http_fn) \<Rightarrow> 'p http_fn" where
  "http_handle_current_write_ctx env call c0 =
     catching
       (case extract_next_write_operation (http_write_ctx c0) of
          (trivial_write_operation bufs, x) \<Rightarrow> Returns (http_trivial_write_operation env bufs (c0\<lparr>http_write_ctx := x\<rparr>))
        | (none_write_operation, x) \<Rightarrow> call FinishHandlingCurrentWriteCtx (c0\<lparr>http_write_ctx := x\<rparr>))
       http_close"

definition finish_handling_current_write_ctx :: "(http_call \<Rightarrow> 'p http_fn) \<Rightarrow> 'p http_fn" where
  "finish_handling_current_write_ctx call c0 =
     (let c = c0\<lparr>http_write_ctx := finish_write_group (http_write_ctx c0)\<rparr>
      in if \<not> coordinator_closed (m_response_coordinator c)
         then if no_upgrade = m_connection_upgrade_stage c
              then and_then (if m_init_read_after_this_write c then call WaitForHttpMessage c else Returns c)
                     (call InitWriteIfNecessary)
              else if coordinator_empty (m_response_coordinator c) then call HandleUpgradeRequest c
              else call InitWriteIfNecessary c
         else Returns (http_close c))"

definition http_call_body :: "'p http_env \<Rightarrow> (http_call \<Rightarrow> 'p http_fn) \<Rightarrow> http_call \<Rightarrow> 'p http_fn" where
  "http_call_body env call k =
     (case k of
        WaitForHttpMessage \<Rightarrow> wait_for_http_message env call
      | ConsumeData data \<Rightarrow> consume_data env call data
      | OnRequestMessageComplete \<Rightarrow> on_request_message_complete env call
      | HandleUpgradeRequest \<Rightarrow> handle_upgrade_request env call
      | HandlerActions as \<Rightarrow> http_handler_actions call as
      | WriteResponseParts i flags wg \<Rightarrow> write_response_parts call i flags wg
      | WriteResponsePartsImpl i flags wg \<Rightarrow> write_response_parts_impl call i flags wg
      | InitWriteIfNecessary \<Rightarrow> http_init_write_if_necessary env call
      | HandleCurrentWriteCtx \<Rightarrow> http_handle_current_write_ctx env call
      | FinishHandlingCurrentWriteCtx \<Rightarrow> finish_handling_current_write_ctx call)"

primrec http_run :: "'p http_env \<Rightarrow> nat \<Rightarrow> http_call \<Rightarrow> 'p http_fn" where
  "http_run env 0 = (\<lambda>k c. OutOfFuel)"
| "http_run env (Suc n) = http_call_body env (http_run env n)"

section \<open>Events\<close>

text \<open>
  What asio calls: a read or a write ends, a handler answers later from another context, the timer
  asks for a check, and time passes.
\<close>

datatype read_error_t = read_aborted | read_eof | read_failed

datatype http_event_t =
  ReadBytes raw_data_t | ReadError read_error_t | WriteEnds | WriteError bool
| AsyncResponse request_id_t response_output_flags_t http_write_group_t | CheckTimeout | TimePasses nat

definition after_read :: "'p http_env \<Rightarrow> nat \<Rightarrow> raw_data_t \<Rightarrow> 'p http_connection_t \<Rightarrow> 'p http_connection_t flow_t" where
  "after_read env n data c0 =
     (let c = c0\<lparr>m_read_operation_is_running := False, http_buf := data\<rparr>
      in catching (http_run env n (ConsumeData (http_buf c)) c) http_close)"

definition after_read_error :: "'p http_env \<Rightarrow> read_error_t \<Rightarrow> 'p http_connection_t \<Rightarrow> 'p http_connection_t" where
  "after_read_error env e c0 =
     (let c = c0\<lparr>m_read_operation_is_running := False\<rparr>
      in if e \<noteq> read_aborted
         then if e \<noteq> read_eof \<or> 0 \<noteq> parser_nread env (http_parser c) then http_close c else http_close c
         else c)"

text \<open>\<open>aborted\<close> says whether the error is \<open>operation_aborted\<close>.\<close>

definition http_after_write_error :: "bool \<Rightarrow> 'p http_connection_t \<Rightarrow> 'p http_connection_t" where
  "http_after_write_error aborted c0 =
     (let c = c0\<lparr>http_writes_pending := http_writes_pending c0 - 1\<rparr>;
          c = (if \<not> aborted then http_close c else c)
      in c\<lparr>http_write_ctx := fail_write_group (http_write_ctx c)\<rparr>)"

definition http_check_timeout :: "'p http_connection_t \<Rightarrow> 'p http_connection_t" where
  "http_check_timeout c =
     (if m_current_timeout_after c < http_clock c
      then (case m_current_timeout_cb c of None \<Rightarrow> c | Some cb \<Rightarrow> http_close c)
      else init_next_timeout_checking c)"

definition http_init :: "'p http_env \<Rightarrow> nat \<Rightarrow> 'p http_connection_t \<Rightarrow> 'p http_connection_t flow_t" where
  "http_init env n c = http_run env n WaitForHttpMessage (init_next_timeout_checking c)"

definition http_event :: "'p http_env \<Rightarrow> nat \<Rightarrow> http_event_t \<Rightarrow> 'p http_connection_t \<Rightarrow> 'p http_connection_t flow_t" where
  "http_event env n ev c =
     (case ev of
        ReadBytes data \<Rightarrow> after_read env n data c
      | ReadError e \<Rightarrow> Returns (after_read_error env e c)
      | WriteEnds \<Rightarrow> http_run env n HandleCurrentWriteCtx (c\<lparr>http_writes_pending := http_writes_pending c - 1\<rparr>)
      | WriteError aborted \<Rightarrow> Returns (http_after_write_error aborted c)
      | AsyncResponse i flags wg \<Rightarrow> http_run env n (WriteResponseParts i flags wg) c
      | CheckTimeout \<Rightarrow> Returns (http_check_timeout c)
      | TimePasses d \<Rightarrow> Returns (c\<lparr>http_clock := http_clock c + d\<rparr>))"

text \<open>What can happen: only a pending operation ends, with data or an error.\<close>

definition http_enabled :: "http_event_t \<Rightarrow> 'p http_connection_t \<Rightarrow> bool" where
  "http_enabled ev c =
     (case ev of
        ReadBytes data \<Rightarrow> m_read_operation_is_running c \<and> data \<noteq> []
      | ReadError e \<Rightarrow> m_read_operation_is_running c
      | WriteEnds \<Rightarrow> 0 < http_writes_pending c
      | WriteError aborted \<Rightarrow> 0 < http_writes_pending c \<and> (aborted \<longrightarrow> \<not> socket_open c)
      | _ \<Rightarrow> True)"

inductive http_reach :: "'p http_env \<Rightarrow> incoming_http_msg_limits_t \<Rightarrow> nat \<Rightarrow> 'p http_connection_t \<Rightarrow> bool"
  for env limits max_requests where
  http_starts: "http_init env n (http_connection env limits max_requests) = Returns c \<Longrightarrow>
    http_reach env limits max_requests c"
| http_goes_on: "http_reach env limits max_requests c \<Longrightarrow> http_enabled ev c \<Longrightarrow> http_event env n ev c = Returns c' \<Longrightarrow>
    http_reach env limits max_requests c'"


section \<open>Invariants\<close>

definition flow_all :: "('c \<Rightarrow> bool) \<Rightarrow> 'c flow_t \<Rightarrow> bool" where
  "flow_all I r = (case r of Returns c \<Rightarrow> I c | Raises c \<Rightarrow> I c | Aborts \<Rightarrow> True | OutOfFuel \<Rightarrow> True)"

lemma flow_all_simps [simp]:
  "flow_all I (Returns c) = I c" "flow_all I (Raises c) = I c" "flow_all I Aborts" "flow_all I OutOfFuel"
  by (simp_all add: flow_all_def)

lemma and_then_simps [simp]:
  "and_then (Returns c) f = f c" "and_then (Raises c) f = Raises c" "and_then Aborts f = Aborts" "and_then OutOfFuel f = OutOfFuel"
  by (simp_all add: and_then_def)

lemma catching_simps [simp]:
  "catching (Returns c) f = Returns c" "catching (Raises c) f = Returns (f c)" "catching Aborts f = Aborts" "catching OutOfFuel f = OutOfFuel"
  by (simp_all add: catching_def)

lemma flow_all_and_then: "flow_all I r \<Longrightarrow> (\<And>c. I c \<Longrightarrow> flow_all I (f c)) \<Longrightarrow> flow_all I (and_then r f)"
  by (cases r) simp_all

lemma flow_all_catching: "flow_all I r \<Longrightarrow> (\<And>c. I c \<Longrightarrow> I (f c)) \<Longrightarrow> flow_all I (catching r f)"
  by (cases r) simp_all

lemma refused_unchanged:
  "register_request c = Inl c' \<Longrightarrow> c' = c" "next_write_group c = Inl c' \<Longrightarrow> c' = c"
  "append_to_response i flags wg c = Raises c' \<Longrightarrow> c' = c"
  by (auto simp: register_request_def next_write_group_def append_to_response_def split: sum.splits prod.splits)

text \<open>
  What the elementary steps of the connection keep. \<open>I\<close> holds between them, and \<open>H\<close> when a group is
  about to be written further. Then every call keeps \<open>I\<close>, and so does every event.
\<close>

locale http_invariant =
  fixes env :: "'p http_env" and I :: "'p http_connection_t \<Rightarrow> bool" and H :: "'p http_connection_t \<Rightarrow> bool"
  assumes waits: "I c \<Longrightarrow> I (http_guard_read_operation env (reset_http_parser env c))"
    and reads: "I c \<Longrightarrow> I (consume_message c)"
    and parses: "I c \<Longrightarrow> http_parser_execute env (http_parser c) data = (k, p, es) \<Longrightarrow>
      run_callbacks es (m_parser_ctx c) = (r, ctx) \<Longrightarrow>
      I (c\<lparr>http_parser := p, m_parser_ctx := ctx, http_buf := drop k (http_buf c)\<rparr>)"
    and closes: "I c \<Longrightarrow> I (http_close c)"
    and stages: "I c \<Longrightarrow> I (c\<lparr>m_connection_upgrade_stage := st\<rparr>)"
    and handles: "I c \<Longrightarrow> register_request c = Inr (i, c') \<Longrightarrow>
      take_request i (guard_request_handling_operation env c') = (rq, c'') \<Longrightarrow> I (c''\<lparr>handled := handled c'' @ [rq]\<rparr>)"
    and upgrades: "I c \<Longrightarrow> register_request c = Inr (i, c') \<Longrightarrow>
      take_request i ((cancel_timeout_checking c')\<lparr>m_connection_upgrade_stage := st\<rparr>) = (rq, c'') \<Longrightarrow>
      I (c''\<lparr>handled := handled c'' @ [rq]\<rparr>)"
    and moves: "I c \<Longrightarrow> I (c\<lparr>socket_open := False, socket_moved := True\<rparr>)"
    and appends: "I c \<Longrightarrow> append_to_response i flags wg c = Returns c' \<Longrightarrow> I c'"
    and idles: "I c \<Longrightarrow> next_write_group c = Inr (None, c') \<Longrightarrow> I (handle_nothing_to_write env c')"
    and starts: "I c \<Longrightarrow> \<not> transmitting (http_write_ctx c) \<Longrightarrow> next_write_group c = Inr (Some (wg, i), c') \<Longrightarrow>
      H (c'\<lparr>m_init_read_after_this_write := b,
        http_write_ctx := start_next_write_group (Some (m_items wg)) (http_write_ctx c')\<rparr>)"
    and writes: "H c \<Longrightarrow> extract_next_write_operation (http_write_ctx c) = (trivial_write_operation bufs, x) \<Longrightarrow>
      I (http_trivial_write_operation env bufs (c\<lparr>http_write_ctx := x\<rparr>))"
    and finishes: "H c \<Longrightarrow> extract_next_write_operation (http_write_ctx c) = (none_write_operation, x) \<Longrightarrow>
      I (c\<lparr>http_write_ctx := finish_write_group x\<rparr>)"
    and read_ends: "I c \<Longrightarrow> m_read_operation_is_running c \<Longrightarrow> I (c\<lparr>m_read_operation_is_running := False, http_buf := data\<rparr>)"
    and read_stops: "I c \<Longrightarrow> m_read_operation_is_running c \<Longrightarrow> I (c\<lparr>m_read_operation_is_running := False\<rparr>)"
    and write_ends: "I c \<Longrightarrow> 0 < http_writes_pending c \<Longrightarrow> H (c\<lparr>http_writes_pending := http_writes_pending c - 1\<rparr>)"
    and write_error: "I c \<Longrightarrow> 0 < http_writes_pending c \<Longrightarrow> aborted \<longrightarrow> \<not> socket_open c \<Longrightarrow> I (http_after_write_error aborted c)"
    and timer: "I c \<Longrightarrow> I (init_next_timeout_checking c)"
    and clock: "I c \<Longrightarrow> I (c\<lparr>http_clock := t\<rparr>)"
begin

definition pre :: "http_call \<Rightarrow> 'p http_connection_t \<Rightarrow> bool" where
  "pre k c =
     (case k of HandleCurrentWriteCtx \<Rightarrow> H c
      | FinishHandlingCurrentWriteCtx \<Rightarrow> I (c\<lparr>http_write_ctx := finish_write_group (http_write_ctx c)\<rparr>)
      | _ \<Rightarrow> I c)"

lemma pre_simps [simp]:
  "pre WaitForHttpMessage = I" "pre (ConsumeData d) = I" "pre OnRequestMessageComplete = I" "pre HandleUpgradeRequest = I"
  "pre (HandlerActions as) = I" "pre (WriteResponseParts i fl wg) = I" "pre (WriteResponsePartsImpl i fl wg) = I"
  "pre InitWriteIfNecessary = I" "pre HandleCurrentWriteCtx = H"
  "pre FinishHandlingCurrentWriteCtx c = I (c\<lparr>http_write_ctx := finish_write_group (http_write_ctx c)\<rparr>)"
  by (simp_all add: pre_def fun_eq_iff)

lemma call_handler_keeps:
  assumes call: "\<And>k c. pre k c \<Longrightarrow> flow_all I (call k c)"
    and "\<And>rq c'. take_request i c = (rq, c') \<Longrightarrow> I (c'\<lparr>handled := handled c' @ [rq]\<rparr>)"
    and "\<And>st c. I c \<Longrightarrow> flow_all I (cont st c)"
  shows "flow_all I (call_request_handler env call i cont c)"
  using assms(2,3)
  by (auto simp: call_request_handler_def Let_def split: prod.split option.split intro!: flow_all_and_then call)

lemma body_keeps:
  assumes call: "\<And>k c. pre k c \<Longrightarrow> flow_all I (call k c)" and "pre k c"
  shows "flow_all I (http_call_body env call k c)"
proof (cases k)
  case WaitForHttpMessage
  then show ?thesis using assms(2) by (auto simp: http_call_body_def wait_for_http_message_def Let_def intro!: call waits reads)
next
  case (ConsumeData data)
  then show ?thesis using assms(2) parses
    by (auto simp: http_call_body_def consume_data_def Let_def split: prod.split intro!: call closes reads)
next
  case OnRequestMessageComplete
  have c: "I (if parser_upgrade env (http_parser c) then c\<lparr>m_connection_upgrade_stage := pending_upgrade_handling\<rparr> else c)"
    using assms(2) OnRequestMessageComplete stages by simp
  then show ?thesis using OnRequestMessageComplete
    by (auto simp: http_call_body_def on_request_message_complete_def Let_def dest: refused_unchanged
        split: prod.split sum.split intro!: call flow_all_catching closes call_handler_keeps intro: handles)
next
  case HandleUpgradeRequest
  then show ?thesis using assms(2)
    by (auto simp: http_call_body_def handle_upgrade_request_def dest: refused_unchanged split: prod.split sum.split
        intro!: call call_handler_keeps intro: upgrades)
next
  case (HandlerActions as)
  then show ?thesis using assms(2)
    by (auto simp: http_call_body_def http_handler_actions_def split: list.split http_action.split
        intro!: call flow_all_and_then moves)
next
  case (WriteResponseParts i fl wg)
  then show ?thesis using assms(2)
    by (auto simp: http_call_body_def write_response_parts_def intro!: call flow_all_catching closes)
next
  case (WriteResponsePartsImpl i fl wg)
  have "flow_all I (append_to_response i fl wg c)" if "I c" for c
    using appends [OF that, of i fl wg] that by (cases "append_to_response i fl wg c") (auto dest: refused_unchanged)
  then show ?thesis using WriteResponsePartsImpl assms(2)
    by (auto simp: http_call_body_def write_response_parts_impl_def intro!: call flow_all_and_then)
next
  case InitWriteIfNecessary
  then show ?thesis using assms(2) starts idles
    by (auto simp: http_call_body_def http_init_write_if_necessary_def Let_def dest: refused_unchanged
        split: sum.split prod.split option.split intro!: call)
next
  case HandleCurrentWriteCtx
  then show ?thesis using assms(2) writes finishes
    by (auto simp: http_call_body_def http_handle_current_write_ctx_def split: prod.split write_operation_t.split
        intro!: call flow_all_catching closes)
next
  case FinishHandlingCurrentWriteCtx
  then show ?thesis using assms(2)
    by (auto simp: http_call_body_def finish_handling_current_write_ctx_def Let_def intro!: call flow_all_and_then closes)
qed

lemma run_keeps: "pre k c \<Longrightarrow> flow_all I (http_run env n k c)"
proof (induction n arbitrary: k c)
  case (Suc n)
  then show ?case using body_keeps [of "http_run env n"] by simp
qed simp

lemma event_keeps:
  assumes "I c" and "http_enabled ev c"
  shows "flow_all I (http_event env n ev c)"
proof (cases ev)
  case (ReadBytes data)
  then have "I (c\<lparr>m_read_operation_is_running := False, http_buf := data\<rparr>)"
    using assms read_ends by (simp add: http_enabled_def)
  then show ?thesis using ReadBytes run_keeps
    by (auto simp: http_event_def after_read_def Let_def intro!: flow_all_catching closes)
next
  case (ReadError e)
  then have "I (c\<lparr>m_read_operation_is_running := False\<rparr>)" using assms read_stops by (simp add: http_enabled_def)
  then show ?thesis using ReadError closes by (simp add: http_event_def after_read_error_def Let_def)
next
  case WriteEnds
  then have "H (c\<lparr>http_writes_pending := http_writes_pending c - 1\<rparr>)" using assms write_ends by (simp add: http_enabled_def)
  then show ?thesis using WriteEnds run_keeps by (simp add: http_event_def)
next
  case (WriteError aborted)
  then show ?thesis using assms write_error by (simp add: http_event_def http_enabled_def)
next
  case (AsyncResponse i fl wg)
  then show ?thesis using assms run_keeps by (simp add: http_event_def)
next
  case CheckTimeout
  then show ?thesis using assms closes timer by (auto simp: http_event_def http_check_timeout_def split: option.split)
next
  case (TimePasses d)
  then show ?thesis using assms clock by (simp add: http_event_def)
qed

lemma reach_keeps:
  assumes "http_reach env limits n c" and "I (http_connection env limits n)"
  shows "I c"
  using assms(1)
proof induction
  case (http_starts m c)
  then show ?case using run_keeps [of WaitForHttpMessage "init_next_timeout_checking (http_connection env limits n)" m]
      timer [OF assms(2)] by (simp add: http_init_def)
next
  case (http_goes_on c ev m c')
  then show ?case using event_keeps [OF http_goes_on.IH http_goes_on.hyps(2), of m] by simp
qed

end


section \<open>The order of the output\<close>

definition written_bytes :: "'p http_connection_t \<Rightarrow> raw_data_t" where
  "written_bytes c = concat (concat (http_written c))"

text \<open>What is left of the group that is being written.\<close>

definition unwritten_bytes :: "write_group_output_ctx_t \<Rightarrow> raw_data_t" where
  "unwritten_bytes x = (case m_current_wg x of None \<Rightarrow> [] | Some items \<Rightarrow> concat (drop (m_next_writable_item_index x) items))"

definition order_inv :: "nat \<Rightarrow> 'p http_connection_t \<Rightarrow> bool" where
  "order_inv n c \<longleftrightarrow>
     (\<exists>co. coord_run (coord_log c) (response_coordinator n) = Inr (coord_out c, co) \<and>
       (socket_open c \<longrightarrow> m_response_coordinator c = co)) \<and>
     (socket_open c \<longrightarrow> written_bytes c @ unwritten_bytes (http_write_ctx c) = popped_bytes (coord_out c) \<and>
       (\<not> transmitting (http_write_ctx c) \<longrightarrow> m_next_writable_item_index (http_write_ctx c) = 0)) \<and>
     prefix (written_bytes c) (popped_bytes (coord_out c)) \<and>
     prefix (map of_nat [0..<registered (coord_log c)]) (map rq_id (handled c)) \<and>
     (socket_open c \<longrightarrow> length (handled c) = registered (coord_log c)) \<and>
     http_writes_pending c \<le> 1 \<and> (0 < http_writes_pending c \<longrightarrow> transmitting (http_write_ctx c))"

text \<open>The steps that concern neither the coordinator nor the output.\<close>

definition same_output :: "'p http_connection_t \<Rightarrow> 'p http_connection_t \<Rightarrow> bool" where
  "same_output c c' \<longleftrightarrow>
     coord_log c' = coord_log c \<and> coord_out c' = coord_out c \<and> http_written c' = http_written c \<and> handled c' = handled c \<and>
     http_write_ctx c' = http_write_ctx c \<and> http_writes_pending c' = http_writes_pending c \<and>
     (socket_open c' \<longrightarrow> socket_open c \<and> m_response_coordinator c' = m_response_coordinator c)"

lemma same_output_inv: "order_inv n c \<Longrightarrow> same_output c c' \<Longrightarrow> order_inv n c'"
  by (auto simp: order_inv_def same_output_def written_bytes_def)

lemma same_output_steps:
  "same_output c (http_guard_read_operation env c)" "same_output c (reset_http_parser env c)"
  "same_output c (http_guard_read_operation env (reset_http_parser env c))"
  "same_output c (consume_message c)" "same_output c (http_close c)" "same_output c (cancel_timeout_checking c)"
  "same_output c (guard_request_handling_operation env c)" "same_output c (init_next_timeout_checking c)"
  "same_output c (c\<lparr>m_connection_upgrade_stage := st\<rparr>)" "same_output c (c\<lparr>http_clock := t\<rparr>)"
  "same_output c (c\<lparr>socket_open := False, socket_moved := True\<rparr>)"
  "same_output c (c\<lparr>http_parser := p, m_parser_ctx := ctx, http_buf := d\<rparr>)"
  "same_output c (c\<lparr>m_read_operation_is_running := r, http_buf := d\<rparr>)" "same_output c (c\<lparr>m_read_operation_is_running := r\<rparr>)"
  by (simp_all add: same_output_def http_guard_read_operation_def reset_http_parser_def consume_message_def http_close_def
      cancel_timeout_checking_def guard_request_handling_operation_def schedule_operation_timeout_callback_def
      init_next_timeout_checking_def Let_def)

lemma same_output_trans: "same_output c c' \<Longrightarrow> same_output c' c'' \<Longrightarrow> same_output c c''"
  by (auto simp: same_output_def)

text \<open>A step of the coordinator goes into the history.\<close>

lemma order_inv_step:
  assumes "order_inv n c" and "coord_step op (m_response_coordinator c) = Inr (ws, co)"
  shows "\<exists>co'. coord_run (coord_log (logged op ws c)) (response_coordinator n) = Inr (coord_out (logged op ws c), co') \<and>
    (socket_open c \<longrightarrow> co' = co)"
proof -
  from assms(1) obtain co0 where "coord_run (coord_log c) (response_coordinator n) = Inr (coord_out c, co0)"
    "socket_open c \<longrightarrow> m_response_coordinator c = co0" by (auto simp: order_inv_def)
  then show ?thesis using assms(2) by (auto simp: logged_def coord_run_append)
qed

lemma logged_simps [simp]:
  "socket_open (logged op ws c) = socket_open c" "http_written (logged op ws c) = http_written c"
  "handled (logged op ws c) = handled c"
  "http_write_ctx (logged op ws c) = http_write_ctx c" "http_writes_pending (logged op ws c) = http_writes_pending c"
  "coord_out (logged op [] c) = coord_out c" "written_bytes (c\<lparr>m_response_coordinator := co\<rparr>) = written_bytes c"
  "written_bytes (logged op ws c) = written_bytes c"
  by (simp_all add: logged_def written_bytes_def)

lemma registered_step:
  "registered (coord_log (logged op ws c)) = registered (coord_log c) + (if socket_open c \<and> op = Register then 1 else 0)"
  by (simp add: logged_def registered_def)

lemma request_counter:
  "coord_run ops (response_coordinator n) = Inr (ws, c) \<Longrightarrow> m_request_id_counter c = of_nat (registered ops)"
proof (induction ops arbitrary: ws c rule: rev_induct)
  case Nil
  then show ?case by (auto simp: response_coordinator_def registered_def)
next
  case (snoc op ops)
  from snoc.prems obtain ws1 c1 w where c1: "coord_run ops (response_coordinator n) = Inr (ws1, c1)"
    and c: "coord_step op c1 = Inr (w, c)" by (auto simp: coord_run_append result_simps)
  then show ?case using snoc.IH [OF c1]
    by (auto simp: coord_step_def register_new_request_def append_response_def coord_pop_ready_buffers_def registered_def Let_def
        result_simps split: coord_op.splits if_splits option.splits prod.splits)
qed

text \<open>A request is registered and given to the handler.\<close>

lemma order_inv_handle:
  assumes "order_inv n c" and "register_request c = Inr (i, c')" and "same_output c' c1" and "take_request i c1 = (rq, c2)"
  shows "order_inv n (c2\<lparr>handled := handled c2 @ [rq]\<rparr>)"
proof -
  obtain co where r: "register_new_request (m_response_coordinator c) = Inr (i, co)"
    and c': "c' = (logged Register [] c)\<lparr>m_response_coordinator := co\<rparr>"
    using assms(2) by (auto simp: register_request_def split: sum.splits)
  have "coord_step Register (m_response_coordinator c) = Inr ([], co)" by (simp add: coord_step_def r)
  note run = order_inv_step [OF assms(1) this]
  have id: "i = of_nat (registered (coord_log c))" if "socket_open c"
    using r assms(1) that request_counter by (auto simp: order_inv_def register_new_request_def result_simps)
  have c2: "same_output c1 c2" "rq_id rq = i"
    using assms(4) by (auto simp: take_request_def make_chunked_input_info_if_necessary_def same_output_def Let_def split: if_splits)
  note so = same_output_trans [OF assms(3) c2(1)]
  have p: "prefix (map of_nat [0..<registered (coord_log c)]) (map rq_id (handled c))" "socket_open c \<longrightarrow> length (handled c) = registered (coord_log c)"
    using assms(1) by (simp_all add: order_inv_def)
  have "prefix (map of_nat [0..<registered (coord_log c')]) (map rq_id (handled c @ [rq]))"
  proof (cases "socket_open c")
    case True
    then have "map rq_id (handled c) = map of_nat [0..<registered (coord_log c)]"
      using p by (auto simp: prefix_def) (metis append_Nil2 length_0_conv length_append length_map length_upt diff_zero add_cancel_right_right)
    then show ?thesis using True id c2(2) by (simp add: c' registered_step)
  next
    case False
    then show ?thesis using p(1) by (simp add: c' registered_step prefix_append)
  qed
  moreover have "socket_open c \<longrightarrow> length (handled c @ [rq]) = registered (coord_log c')" using p(2) by (simp add: c' registered_step)
  ultimately have "order_inv n (c'\<lparr>handled := handled c' @ [rq]\<rparr>)"
    using assms(1) run by (auto simp: order_inv_def c' written_bytes_def)
  moreover have "same_output (c'\<lparr>handled := handled c' @ [rq]\<rparr>) (c2\<lparr>handled := handled c2 @ [rq]\<rparr>)"
    using so by (auto simp: same_output_def)
  ultimately show ?thesis by (rule same_output_inv)
qed

lemma order_inv_append: "order_inv n c \<Longrightarrow> append_to_response i flags wg c = Returns c' \<Longrightarrow> order_inv n c'"
proof -
  assume inv: "order_inv n c" and "append_to_response i flags wg c = Returns c'"
  then obtain co where r: "append_response i flags wg (m_response_coordinator c) = Inr co"
    and c': "c' = (logged (AppendPart i flags wg) [] c)\<lparr>m_response_coordinator := co\<rparr>"
    by (auto simp: append_to_response_def split: sum.splits)
  have "coord_step (AppendPart i flags wg) (m_response_coordinator c) = Inr ([], co)" by (simp add: coord_step_def r)
  from order_inv_step [OF inv this] inv show "order_inv n c'" by (auto simp: order_inv_def c' registered_step)
qed

text \<open>Asking for data.\<close>

lemma next_group_cases:
  assumes "order_inv n c" and "next_write_group c = Inr (p, c')"
  obtains co where "c' = (logged PopReady (case p of None \<Rightarrow> [] | Some w \<Rightarrow> [w]) c)\<lparr>m_response_coordinator := co\<rparr>"
    and "\<exists>co'. coord_run (coord_log c') (response_coordinator n) = Inr (coord_out c', co') \<and> (socket_open c \<longrightarrow> co' = co)"
    and "coord_out c' = (if socket_open c then coord_out c @ (case p of None \<Rightarrow> [] | Some w \<Rightarrow> [w]) else coord_out c)"
proof -
  obtain co where r: "coord_pop_ready_buffers (m_response_coordinator c) = Inr (p, co)"
    and c': "c' = (logged PopReady (case p of None \<Rightarrow> [] | Some w \<Rightarrow> [w]) c)\<lparr>m_response_coordinator := co\<rparr>"
    using assms(2) by (auto simp: next_write_group_def split: sum.splits prod.splits)
  have "coord_step PopReady (m_response_coordinator c) = Inr (case p of None \<Rightarrow> [] | Some w \<Rightarrow> [w], co)"
    by (simp add: coord_step_def r)
  from order_inv_step [OF assms(1) this] show thesis by (intro that [OF c']) (auto simp: c' logged_def)
qed


lemma order_inv_idle:
  assumes "order_inv n c" and "next_write_group c = Inr (None, c')"
  shows "order_inv n (handle_nothing_to_write env c')"
proof -
  from next_group_cases [OF assms] obtain co where c': "c' = (logged PopReady [] c)\<lparr>m_response_coordinator := co\<rparr>"
    and run: "\<exists>co'. coord_run (coord_log c') (response_coordinator n) = Inr (coord_out c', co') \<and> (socket_open c \<longrightarrow> co' = co)"
    by (metis option.simps(4))
  have inv: "order_inv n c'" using assms(1) run by (auto simp: order_inv_def c' registered_step)
  have "same_output c' (handle_nothing_to_write env c')"
    by (simp add: handle_nothing_to_write_def same_output_steps)
  with inv show ?thesis by (rule same_output_inv)
qed

lemma order_inv_start:
  assumes "order_inv n c" and "\<not> transmitting (http_write_ctx c)" and "next_write_group c = Inr (Some (wg, i), c')"
  shows "order_inv n (c'\<lparr>m_init_read_after_this_write := b,
      http_write_ctx := start_next_write_group (Some (m_items wg)) (http_write_ctx c')\<rparr>) \<and> http_writes_pending c' = 0"
proof -
  from next_group_cases [OF assms(1,3)] obtain co where
    c': "c' = (logged PopReady [(wg, i)] c)\<lparr>m_response_coordinator := co\<rparr>"
    and run: "\<exists>co'. coord_run (coord_log c') (response_coordinator n) = Inr (coord_out c', co') \<and> (socket_open c \<longrightarrow> co' = co)"
    and out: "coord_out c' = (if socket_open c then coord_out c @ [(wg, i)] else coord_out c)"
    by (metis option.simps(5))
  show ?thesis
    using assms(1,2) run out
    by (auto simp: order_inv_def c' registered_step start_next_write_group_def transmitting_def unwritten_bytes_def group_bytes_def
        written_bytes_def prefix_def split: option.splits)
qed

lemma order_inv_write:
  assumes "order_inv n c" and "http_writes_pending c = 0"
    and "extract_next_write_operation (http_write_ctx c) = (trivial_write_operation bufs, x)"
  shows "order_inv n (http_trivial_write_operation env bufs (c\<lparr>http_write_ctx := x\<rparr>))"
proof -
  obtain items where wg: "m_current_wg (http_write_ctx c) = Some items" "m_next_writable_item_index (http_write_ctx c) < length items"
    and bufs: "bufs = take max_iov_len (drop (m_next_writable_item_index (http_write_ctx c)) items)"
    and x: "x = (http_write_ctx c)\<lparr>m_next_writable_item_index :=
      min (length items) (m_next_writable_item_index (http_write_ctx c) + max_iov_len)\<rparr>"
    using assms(3) by (auto simp: extract_next_write_operation_def split: option.splits if_splits)
  have "unwritten_bytes (http_write_ctx c) = concat (bufs @ drop max_iov_len (drop (m_next_writable_item_index (http_write_ctx c)) items))"
    by (simp only: unwritten_bytes_def wg bufs option.case append_take_drop_id)
  also have "\<dots> = concat bufs @ unwritten_bytes x"
    by (simp add: x unwritten_bytes_def wg min_def add.commute)
  finally have u: "unwritten_bytes (http_write_ctx c) = concat bufs @ unwritten_bytes x" .
  have "transmitting x" by (simp add: x transmitting_def wg)
  moreover have "prefix (concat bufs) (unwritten_bytes (http_write_ctx c))" unfolding u by simp
  moreover have "popped_bytes (coord_out c) = written_bytes c @ unwritten_bytes (http_write_ctx c)" if "socket_open c"
    using assms(1) that by (simp add: order_inv_def)
  ultimately show ?thesis using assms(1,2) u
    by (auto simp: order_inv_def http_trivial_write_operation_def http_guard_write_operation_def
        schedule_operation_timeout_callback_def written_bytes_def Let_def)
qed

lemma order_inv_finish:
  assumes "order_inv n c" and "http_writes_pending c = 0"
    and "extract_next_write_operation (http_write_ctx c) = (none_write_operation, x)"
  shows "order_inv n (c\<lparr>http_write_ctx := finish_write_group x\<rparr>)"
proof -
  have "unwritten_bytes (http_write_ctx c) = []" and "unwritten_bytes (finish_write_group x) = []"
    using assms(3) by (auto simp: extract_next_write_operation_def unwritten_bytes_def finish_write_group_def split: option.splits if_splits)
  with assms(1,2) show ?thesis by (auto simp: order_inv_def finish_write_group_def transmitting_def written_bytes_def)
qed

interpretation http_order: http_invariant env "order_inv n" "\<lambda>c. order_inv n c \<and> http_writes_pending c = 0"
  for env :: "'p http_env" and n
proof unfold_locales
  fix c c' c'' :: "'p http_connection_t" and i rq st
  assume c: "order_inv n c" "register_request c = Inr (i, c')"
  show "take_request i (guard_request_handling_operation env c') = (rq, c'') \<Longrightarrow>
      order_inv n (c''\<lparr>handled := handled c'' @ [rq]\<rparr>)"
    by (rule order_inv_handle [OF c same_output_steps(7)])
  show "take_request i ((cancel_timeout_checking c')\<lparr>m_connection_upgrade_stage := st\<rparr>) = (rq, c'') \<Longrightarrow>
      order_inv n (c''\<lparr>handled := handled c'' @ [rq]\<rparr>)"
    by (rule order_inv_handle [OF c same_output_trans [OF same_output_steps(6,9)]])
next
  fix c :: "'p http_connection_t" and aborted
  assume "order_inv n c" "0 < http_writes_pending c" "aborted \<longrightarrow> \<not> socket_open c"
  then show "order_inv n (http_after_write_error aborted c)"
    by (auto simp: order_inv_def http_after_write_error_def http_close_def cancel_timeout_checking_def fail_write_group_def
        transmitting_def written_bytes_def Let_def)
next
  fix c c' :: "'p http_connection_t" and wg i b
  assume "order_inv n c" "\<not> transmitting (http_write_ctx c)" "next_write_group c = Inr (Some (wg, i), c')"
  from order_inv_start [OF this, of b]
  show "order_inv n (c'\<lparr>m_init_read_after_this_write := b,
      http_write_ctx := start_next_write_group (Some (m_items wg)) (http_write_ctx c')\<rparr>) \<and>
    http_writes_pending (c'\<lparr>m_init_read_after_this_write := b,
      http_write_ctx := start_next_write_group (Some (m_items wg)) (http_write_ctx c')\<rparr>) = 0"
    by simp
next
  fix c :: "'p http_connection_t"
  assume "order_inv n c" "0 < http_writes_pending c"
  then show "order_inv n (c\<lparr>http_writes_pending := http_writes_pending c - 1\<rparr>) \<and>
      http_writes_pending (c\<lparr>http_writes_pending := http_writes_pending c - 1\<rparr>) = 0"
    by (auto simp: order_inv_def written_bytes_def)
qed (auto intro: same_output_inv same_output_steps order_inv_append order_inv_idle
    order_inv_write order_inv_finish)

lemma order_inv_begins: "0 < n \<Longrightarrow> order_inv n (http_connection env limits n)"
  by (simp add: order_inv_def http_connection_def written_bytes_def unwritten_bytes_def registered_def)


lemma output_of_reach:
  assumes "http_reach env limits n c" and "0 < n" and "registered (coord_log c) \<le> 2 ^ 32"
  shows "prefix (written_bytes c)
      (concat (map (\<lambda>i. response_bytes (coord_log c) (of_nat i)) [0..<registered (coord_log c)]))"
    and "socket_open c \<Longrightarrow> written_bytes c @ unwritten_bytes (http_write_ctx c) @ waiting_bytes (m_response_coordinator c) =
      concat (map (\<lambda>i. response_bytes (coord_log c) (of_nat i)) [0..<registered (coord_log c)])"
    and "i < registered (coord_log c) \<Longrightarrow> rq_id (handled c ! i) = of_nat i"
    and "http_writes_pending c \<le> 1"
proof -
  note inv = http_order.reach_keeps [OF assms(1) order_inv_begins [OF assms(2)], unfolded order_inv_def]
  obtain co where run: "coord_run (coord_log c) (response_coordinator n) = Inr (coord_out c, co)"
    and co: "socket_open c \<longrightarrow> m_response_coordinator c = co" using inv by auto
  have all: "popped_bytes (coord_out c) @ waiting_bytes co =
      concat (map (\<lambda>i. response_bytes (coord_log c) (of_nat i)) [0..<registered (coord_log c)])"
    using coord_run_inv [OF run assms(2,3)] by (simp add: coord_inv_def Let_def)
  show "prefix (written_bytes c)
      (concat (map (\<lambda>i. response_bytes (coord_log c) (of_nat i)) [0..<registered (coord_log c)]))"
    using inv unfolding all [symmetric] by (auto intro: prefix_prefix)
  show "socket_open c \<Longrightarrow> written_bytes c @ unwritten_bytes (http_write_ctx c) @ waiting_bytes (m_response_coordinator c) =
      concat (map (\<lambda>i. response_bytes (coord_log c) (of_nat i)) [0..<registered (coord_log c)])"
    using inv co unfolding all [symmetric] append_assoc [symmetric] by simp
  have "prefix (map of_nat [0..<registered (coord_log c)]) (map rq_id (handled c))" using inv by simp
  then obtain ys where "map rq_id (handled c) = map of_nat [0..<registered (coord_log c)] @ ys" by (auto simp: prefix_def)
  then have "map rq_id (handled c) ! i = of_nat i" "i < length (map rq_id (handled c))" if "i < registered (coord_log c)"
    using that by (simp_all add: nth_append)
  then show "i < registered (coord_log c) \<Longrightarrow> rq_id (handled c ! i) = of_nat i" by simp
  show "http_writes_pending c \<le> 1" using inv by simp
qed

section \<open>A sample\<close>

text \<open>
  A parser for the samples, for a protocol of lines: a request is a line, whose text is the target;
  a line that begins with \<open>U\<close> asks for an upgrade. Its state is whether it does, and the number of
  bytes parsed.
\<close>

definition line_execute :: "bool \<times> nat \<Rightarrow> raw_data_t \<Rightarrow> nat \<times> (bool \<times> nat) \<times> parser_event list" where
  "line_execute p data =
     (let up = fst p \<or> snd p = 0 \<and> take 1 data = [0x55]
      in case find_char 0x0A data of
           None \<Rightarrow> (length data, (up, snd p + length data), [OnUrl (text_of data)])
         | Some i \<Rightarrow> (Suc i, (up, snd p + Suc i),
             [OnUrl (text_of (take i data)), OnHeadersComplete None True, OnMessageComplete 1 up True]))"

text \<open>A handler that answers every request at once, with its target, and keeps the connection.\<close>

definition kept_flags :: response_output_flags_t where
  "kept_flags = \<lparr>m_response_parts = final_parts, m_response_connection = connection_keepalive\<rparr>"

definition echo_handler :: "http_request_t list \<Rightarrow> handler_outcome" where
  "echo_handler reqs =
     \<lparr>outcome_actions = [WriteParts (rq_id (last reqs)) kept_flags
        (write_group [raw (m_request_target (rq_header (last reqs)))])],
      outcome_status = Some status_accepted\<rparr>"

definition sample_env :: "(http_request_t list \<Rightarrow> handler_outcome) \<Rightarrow> (bool \<times> nat) http_env" where
  "sample_env h =
     \<lparr>http_parser_init = (False, 0), http_parser_execute = line_execute, parser_failed = (\<lambda>_. False),
      parser_nread = snd, parser_upgrade = fst, m_request_handler = h,
      read_timelimit = 60, write_timelimit = 5, handle_timelimit = 10\<rparr>"

text \<open>Events one after the other, each with some fuel.\<close>

fun http_events :: "'p http_env \<Rightarrow> nat \<Rightarrow> http_event_t list \<Rightarrow> 'p http_fn" where
  "http_events env n [] c = Returns c"
| "http_events env n (ev # evs) c =
     (if http_enabled ev c then and_then (http_event env n ev c) (http_events env n evs) else OutOfFuel)"

definition small_limits :: incoming_http_msg_limits_t where
  "small_limits = \<lparr>max_url_size = 100, max_field_name_size = 100, max_field_value_size = 100,
     max_field_count = 10, max_body_size = 100\<rparr>"

definition http_history :: "'p http_env \<Rightarrow> incoming_http_msg_limits_t \<Rightarrow> nat \<Rightarrow> nat \<Rightarrow> http_event_t list \<Rightarrow>
    'p http_connection_t flow_t" where
  "http_history env limits n max_requests evs =
     and_then (http_init env n (http_connection env limits max_requests)) (http_events env n evs)"


lemma http_events_reach:
  "http_events env m evs c = Returns c' \<Longrightarrow> http_reach env limits n c \<Longrightarrow> http_reach env limits n c'"
proof (induction evs arbitrary: c)
  case (Cons ev evs)
  then obtain c1 where "http_enabled ev c" "http_event env m ev c = Returns c1" "http_events env m evs c1 = Returns c'"
    by (auto simp: and_then_def split: if_splits flow_t.splits)
  with Cons show ?case by (blast intro: http_goes_on)
qed simp

lemma http_history_reach: "http_history env limits m n evs = Returns c \<Longrightarrow> http_reach env limits n c"
  by (auto simp: http_history_def and_then_def split: flow_t.splits intro: http_events_reach http_starts)

section \<open>Properties\<close>

text \<open>
  C20: an HTTP connection answers in the order of the requests. In every state that any order of
  reads, writes, errors, later answers, time-outs and closing leads to, the bytes written are a
  beginning of the responses in the order of the requests given to the handler, whatever handlers
  answer and when. While the socket is open, what is written, being written and waiting is all of
  every response; the requests are numbered as they were handled; and one write is pending at a time.
\<close>

theorem http_output_in_order:
  assumes "http_reach env limits n c" and "0 < n" and "registered (coord_log c) \<le> 2 ^ 32"
  shows "prefix (written_bytes c)
      (concat (map (\<lambda>i. response_bytes (coord_log c) (of_nat i)) [0..<registered (coord_log c)])) \<and>
    (socket_open c \<longrightarrow> written_bytes c @ unwritten_bytes (http_write_ctx c) @ waiting_bytes (m_response_coordinator c) =
      concat (map (\<lambda>i. response_bytes (coord_log c) (of_nat i)) [0..<registered (coord_log c)])) \<and>
    (\<forall>i < registered (coord_log c). rq_id (handled c ! i) = of_nat i) \<and> http_writes_pending c \<le> 1"
  using output_of_reach [OF assms] by blast

text \<open>Two pipelined requests, whose responses are given later and in the other order.\<close>

definition late_answers :: "http_event_t list" where
  "late_answers = [ReadBytes (raw (''a'' @ [LF] @ ''b'' @ [LF])),
     AsyncResponse 1 kept_flags (write_group [raw ''B'']), AsyncResponse 0 kept_flags (write_group [raw ''A'']), WriteEnds, WriteEnds]"

definition late_handler :: "http_request_t list \<Rightarrow> handler_outcome" where
  "late_handler reqs = \<lparr>outcome_actions = [], outcome_status = Some status_accepted\<rparr>"

lemma late_answers_run:
  "case http_history (sample_env late_handler) small_limits 12 2 late_answers of Returns c \<Rightarrow>
     written_bytes c = raw ''AB'' \<and> registered (coord_log c) = 2 | _ \<Rightarrow> False"
  by code_simp

theorem http_output_in_order_witness:
  "\<exists>c. http_reach (sample_env late_handler) small_limits 2 c \<and> written_bytes c = raw ''AB'' \<and>
    prefix (raw ''AB'') (concat (map (\<lambda>i. response_bytes (coord_log c) (of_nat i)) [0..<2]))"
proof -
  obtain c where c: "http_history (sample_env late_handler) small_limits 12 2 late_answers = Returns c"
    "written_bytes c = raw ''AB''" "registered (coord_log c) = 2"
    using late_answers_run by (auto split: flow_t.splits)
  have r: "http_reach (sample_env late_handler) small_limits 2 c" by (rule http_history_reach [OF c(1)])
  have "registered (coord_log c) \<le> 2 ^ 32" by (simp add: c(3))
  from http_output_in_order [OF r _ this] c show ?thesis by (intro exI [of _ c]) (simp add: r del: upt_conv_Cons)
qed

end
