(* ===== verification/RioSession.thy ===== *)
theory RioSession
  imports RioHttp
begin

text \<open>
  Sessions on an HTTP connection of RESTinio with its default of one pipelined request: requests
  that come one after the other are answered one by one, and what happens when the client does not
  wait, or asks for an upgrade and is answered in HTTP.
\<close>

section \<open>The coordinator with one slot\<close>

definition idle_coordinator :: "request_id_t \<Rightarrow> response_context_t \<Rightarrow> response_coordinator_t" where
  "idle_coordinator i ctx = \<lparr>m_request_id_counter = i, m_connection_closed_response_occured = False,
     m_context_table = \<lparr>m_contexts = [ctx], m_first_element_index = 0, m_elements_exists = 0\<rparr>\<rparr>"

definition busy_coordinator :: "request_id_t \<Rightarrow> response_context_t \<Rightarrow> response_coordinator_t" where
  "busy_coordinator i ctx = \<lparr>m_request_id_counter = i, m_connection_closed_response_occured = False,
     m_context_table = \<lparr>m_contexts = [ctx], m_first_element_index = 0, m_elements_exists = 1\<rparr>\<rparr>"

lemma one_slot_flags [simp]:
  "\<not> coordinator_closed (idle_coordinator i ctx)" "\<not> coordinator_closed (busy_coordinator i ctx)"
  "coordinator_empty (idle_coordinator i ctx)" "\<not> coordinator_empty (busy_coordinator i ctx)"
  "\<not> coordinator_is_full (idle_coordinator i ctx)" "coordinator_is_full (busy_coordinator i ctx)"
  "is_able_to_get_more_messages (idle_coordinator i ctx)" "\<not> is_able_to_get_more_messages (busy_coordinator i ctx)"
  by (simp_all add: idle_coordinator_def busy_coordinator_def coordinator_closed_def coordinator_empty_def
      coordinator_is_full_def is_able_to_get_more_messages_def table_empty_def table_is_full_def)

lemma one_slot_start: "response_coordinator 1 = idle_coordinator 0 new_context"
  by (simp add: response_coordinator_def response_context_table_def idle_coordinator_def)

lemma one_slot_register [simp]:
  "register_new_request (idle_coordinator i ctx) = Inr (i, busy_coordinator (i + 1) (reinit i ctx))"
  "register_new_request (busy_coordinator i ctx) = Inl TableFull"
  by (simp_all add: register_new_request_def push_response_context_def idle_coordinator_def busy_coordinator_def
      table_is_full_def Let_def)

definition pending_context :: "request_id_t \<Rightarrow> http_write_group_t list \<Rightarrow> response_output_flags_t \<Rightarrow> response_context_t" where
  "pending_context i wgs fl = \<lparr>m_request_id = i, m_write_groups = wgs, m_response_output_flags = fl\<rparr>"

lemma reinit_empty: "context_empty ctx \<Longrightarrow> reinit i ctx = pending_context i [] initial_flags"
  by (simp add: reinit_def pending_context_def context_empty_def)

lemma one_slot_append [simp]:
  "append_response i fl wg (busy_coordinator j (pending_context i [] initial_flags)) =
    Inr (busy_coordinator j (pending_context i [wg] fl))"
  by (simp add: append_response_def get_by_req_id_def get_real_index_def busy_coordinator_def pending_context_def
      table_empty_def table_front_def table_back_def coordinator_closed_def enqueue_group_def initial_flags_def Let_def)

lemma one_slot_pop [simp]:
  "coord_pop_ready_buffers (busy_coordinator j (pending_context i [wg] kept_flags)) =
    Inr (Some (wg, i), idle_coordinator j (pending_context i [] kept_flags))"
  "context_empty ctx \<Longrightarrow> coord_pop_ready_buffers (idle_coordinator j ctx) = Inr (None, idle_coordinator j ctx)"
  by (simp_all add: coord_pop_ready_buffers_def busy_coordinator_def idle_coordinator_def pending_context_def coordinator_closed_def
      table_empty_def table_front_def dequeue_group_def is_complete_def kept_flags_def context_empty_def
      pop_response_context_def pop_response_context_nonchecked_def Let_def)

lemma pending_context_empty [simp]: "context_empty (pending_context i [] fl)"
  by (simp add: context_empty_def pending_context_def)

section \<open>Steps of a connection\<close>

text \<open>What reading and handling leave alone while a response is written, and the reverse.\<close>

definition same_input :: "'p http_connection_t \<Rightarrow> 'p http_connection_t \<Rightarrow> bool" where
  "same_input c c' \<longleftrightarrow>
     socket_open c' = socket_open c \<and> http_parser c' = http_parser c \<and> m_parser_ctx c' = m_parser_ctx c \<and>
     http_buf c' = http_buf c \<and> m_connection_upgrade_stage c' = m_connection_upgrade_stage c \<and>
     m_read_operation_is_running c' = m_read_operation_is_running c \<and> handled c' = handled c"

abbreviation idle_output :: write_group_output_ctx_t where
  "idle_output \<equiv> \<lparr>m_current_wg = None, m_next_writable_item_index = 0\<rparr>"

abbreviation all_output :: "raw_data_t list \<Rightarrow> write_group_output_ctx_t" where
  "all_output items \<equiv> \<lparr>m_current_wg = Some items, m_next_writable_item_index = length items\<rparr>"

text \<open>A response whose buffers go out in one write.\<close>

definition one_write :: "http_write_group_t \<Rightarrow> bool" where
  "one_write wg \<longleftrightarrow> m_items wg \<noteq> [] \<and> length (m_items wg) \<le> max_iov_len"

lemma extract_all:
  "one_write wg \<Longrightarrow> extract_next_write_operation \<lparr>m_current_wg = Some (m_items wg), m_next_writable_item_index = 0\<rparr> =
    (trivial_write_operation (m_items wg), all_output (m_items wg))"
  by (auto simp: extract_next_write_operation_def one_write_def)

lemma extract_done: "extract_next_write_operation (all_output items) = (none_write_operation, all_output items)"
  by (simp add: extract_next_write_operation_def)

lemma output_simps [simp]:
  "\<not> transmitting idle_output" "transmitting (all_output items)" "finish_write_group (all_output items) = idle_output"
  "start_next_write_group (Some items) idle_output = \<lparr>m_current_wg = Some items, m_next_writable_item_index = 0\<rparr>"
  by (simp_all add: transmitting_def finish_write_group_def start_next_write_group_def)

lemmas http_call_bodies = http_call_body_def wait_for_http_message_def consume_data_def call_request_handler_def
  on_request_message_complete_def handle_upgrade_request_def http_handler_actions_def write_response_parts_def
  write_response_parts_impl_def http_init_write_if_necessary_def http_handle_current_write_ctx_def
  finish_handling_current_write_ctx_def

lemmas http_steps = append_to_response_def next_write_group_def register_request_def logged_def same_input_def
  http_trivial_write_operation_def http_guard_write_operation_def schedule_operation_timeout_callback_def
  http_guard_read_operation_def guard_request_handling_operation_def cancel_timeout_checking_def
  reset_http_parser_def consume_message_def handle_nothing_to_write_def

text \<open>The answer to the one request, at once: nothing is being written.\<close>

lemma answer_now:
  assumes "socket_open c"
    and "m_response_coordinator c = busy_coordinator j (pending_context i [] initial_flags)"
    and "http_write_ctx c = idle_output" and "one_write wg"
  shows "\<exists>c'. http_run env (Suc (Suc (Suc (Suc n)))) (WriteResponseParts i kept_flags wg) c = Returns c' \<and>
    same_input c c' \<and> m_response_coordinator c' = idle_coordinator j (pending_context i [] kept_flags) \<and>
    http_write_ctx c' = all_output (m_items wg) \<and> m_init_read_after_this_write c' \<and>
    http_writes_pending c' = Suc (http_writes_pending c) \<and> http_written c' = http_written c @ [m_items wg]"
  using assms by (simp add: http_call_bodies http_steps extract_all Let_def)

text \<open>While a response is being written the next one waits.\<close>

lemma answer_waits:
  assumes "socket_open c"
    and "m_response_coordinator c = busy_coordinator j (pending_context i [] initial_flags)"
    and "http_write_ctx c = all_output items"
  shows "\<exists>c'. http_run env (Suc (Suc (Suc (Suc n)))) (WriteResponseParts i kept_flags wg) c = Returns c' \<and>
    same_input c c' \<and> m_response_coordinator c' = busy_coordinator j (pending_context i [wg] kept_flags) \<and>
    http_write_ctx c' = all_output items \<and> m_init_read_after_this_write c' = m_init_read_after_this_write c \<and>
    http_writes_pending c' = http_writes_pending c \<and> http_written c' = http_written c"
  using assms by (simp add: http_call_bodies http_steps Let_def)


lemma catching_catching: "catching (catching r f) f = catching r f"
  by (cases r) simp_all

text \<open>A handler that answers each request at once, in one write, and keeps the connection.\<close>

definition answers_at_once :: "'p http_env \<Rightarrow> (http_request_t \<Rightarrow> http_write_group_t) \<Rightarrow> bool" where
  "answers_at_once env answer \<longleftrightarrow>
     (\<forall>reqs. m_request_handler env reqs =
        \<lparr>outcome_actions = [WriteParts (rq_id (last reqs)) kept_flags (answer (last reqs))],
         outcome_status = Some status_accepted\<rparr>) \<and>
     (\<forall>rq. one_write (answer rq))"

text \<open>The request in a context, and what is left of the context.\<close>

definition request_in :: "request_id_t \<Rightarrow> http_parser_ctx_t \<Rightarrow> http_request_t" where
  "request_in i x = \<lparr>rq_id = i, rq_header = ctx_header x, rq_body = ctx_body x,
     rq_chunks = fst (make_chunked_input_info_if_necessary x)\<rparr>"

definition left_of :: "http_parser_ctx_t \<Rightarrow> http_parser_ctx_t" where
  "left_of x = (snd (make_chunked_input_info_if_necessary x))
     \<lparr>ctx_header := moved_from_header (ctx_header x), ctx_body := []\<rparr>"

lemma take_request_eq: "take_request i c = (request_in i (m_parser_ctx c), c\<lparr>m_parser_ctx := left_of (m_parser_ctx c)\<rparr>)"
  by (simp add: take_request_def request_in_def left_of_def make_chunked_input_info_if_necessary_def Let_def)

text \<open>A complete request, when nothing is being written: it is answered, and the connection goes on reading.\<close>

lemma request_answered:
  assumes "answers_at_once env answer" and "socket_open c" and "\<not> parser_upgrade env (http_parser c)"
    and "m_connection_upgrade_stage c = no_upgrade" and "m_response_coordinator c = idle_coordinator i ctx" and "context_empty ctx"
    and "http_write_ctx c = idle_output" and "rq = request_in i (m_parser_ctx c)"
  shows "\<exists>c'. http_run env (Suc (Suc (Suc (Suc (Suc (Suc n)))))) OnRequestMessageComplete c =
      catching (http_run env (Suc (Suc (Suc (Suc (Suc n))))) WaitForHttpMessage c') http_close \<and>
    same_input (c\<lparr>m_parser_ctx := left_of (m_parser_ctx c), handled := handled c @ [rq]\<rparr>) c' \<and>
    m_response_coordinator c' = idle_coordinator (i + 1) (pending_context i [] kept_flags) \<and>
    http_write_ctx c' = all_output (m_items (answer rq)) \<and> m_init_read_after_this_write c' \<and>
    http_writes_pending c' = Suc (http_writes_pending c) \<and> http_written c' = http_written c @ [m_items (answer rq)]"
proof -
  let ?c = "(guard_request_handling_operation env ((logged Register [] c)\<lparr>m_response_coordinator :=
    busy_coordinator (i + 1) (pending_context i [] initial_flags)\<rparr>))\<lparr>m_parser_ctx := left_of (m_parser_ctx c), handled := handled c @ [rq]\<rparr>"
  have one: "one_write (answer rq)" using assms(1) by (simp add: answers_at_once_def)
  have id: "rq_id rq = i" by (simp add: assms(8) request_in_def)
  have "\<exists>c'. http_run env (Suc (Suc (Suc (Suc n)))) (WriteResponseParts i kept_flags (answer rq)) ?c = Returns c' \<and>
    same_input ?c c' \<and> m_response_coordinator c' = idle_coordinator (i + 1) (pending_context i [] kept_flags) \<and>
    http_write_ctx c' = all_output (m_items (answer rq)) \<and> m_init_read_after_this_write c' \<and>
    http_writes_pending c' = Suc (http_writes_pending ?c) \<and> http_written c' = http_written ?c @ [m_items (answer rq)]"
    using assms one by (intro answer_now) (simp_all add: http_steps)
  then obtain c' where c': "http_run env (Suc (Suc (Suc (Suc n)))) (WriteResponseParts i kept_flags (answer rq)) ?c = Returns c'"
    "same_input ?c c'" "m_response_coordinator c' = idle_coordinator (i + 1) (pending_context i [] kept_flags)"
    "http_write_ctx c' = all_output (m_items (answer rq))" "m_init_read_after_this_write c'"
    "http_writes_pending c' = Suc (http_writes_pending ?c)" "http_written c' = http_written ?c @ [m_items (answer rq)]" by blast
  have acts: "http_run env (Suc (Suc (Suc (Suc (Suc n))))) (HandlerActions [WriteParts i kept_flags (answer rq)]) ?c = Returns c'"
    unfolding http_run.simps(2) [of env "Suc (Suc (Suc (Suc n)))"] http_call_body_def http_call.case http_handler_actions_def list.case
      http_action.case c'(1) by (simp add: http_call_body_def http_handler_actions_def)
  have h: "m_request_handler env (handled c @ [rq]) =
      \<lparr>outcome_actions = [WriteParts i kept_flags (answer rq)], outcome_status = Some status_accepted\<rparr>"
    using assms(1) id by (simp add: answers_at_once_def)
  have reg: "register_request c = Inr (i, (logged Register [] c)\<lparr>m_response_coordinator :=
      busy_coordinator (i + 1) (pending_context i [] initial_flags)\<rparr>)"
    using assms(5,6) by (simp add: register_request_def reinit_empty)
  let ?g = "guard_request_handling_operation env ((logged Register [] c)\<lparr>m_response_coordinator :=
    busy_coordinator (i + 1) (pending_context i [] initial_flags)\<rparr>)"
  have tk: "take_request i ?g = (rq, ?g\<lparr>m_parser_ctx := left_of (m_parser_ctx c)\<rparr>)" "handled ?g = handled c"
    by (simp_all add: take_request_eq assms(8) guard_request_handling_operation_def schedule_operation_timeout_callback_def logged_def)
  have able: "is_able_to_get_more_messages (m_response_coordinator c')" by (simp add: c'(3))
  have "http_run env (Suc (Suc (Suc (Suc (Suc (Suc n)))))) OnRequestMessageComplete c =
      catching (http_run env (Suc (Suc (Suc (Suc (Suc n))))) WaitForHttpMessage c') http_close"
    unfolding http_run.simps(2) [of env "Suc (Suc (Suc (Suc (Suc n))))"] http_call_body_def http_call.case
      on_request_message_complete_def call_request_handler_def
    using assms(3,4) acts h able by (simp add: reg tk Let_def)
  with c' show ?thesis
    by (intro exI [of _ c']) (simp add: http_steps)
qed


text \<open>A complete request while a response is being written: its response waits, and reading stops.\<close>

lemma request_queued:
  assumes "answers_at_once env answer" and "socket_open c" and "\<not> parser_upgrade env (http_parser c)"
    and "m_connection_upgrade_stage c = no_upgrade" and "m_response_coordinator c = idle_coordinator i ctx" and "context_empty ctx"
    and "http_write_ctx c = all_output items" and "rq = request_in i (m_parser_ctx c)"
  shows "\<exists>c'. http_run env (Suc (Suc (Suc (Suc (Suc (Suc n)))))) OnRequestMessageComplete c = Returns c' \<and>
    same_input (c\<lparr>m_parser_ctx := left_of (m_parser_ctx c), handled := handled c @ [rq]\<rparr>) c' \<and>
    m_response_coordinator c' = busy_coordinator (i + 1) (pending_context i [answer rq] kept_flags) \<and>
    http_write_ctx c' = all_output items \<and> m_init_read_after_this_write c' = m_init_read_after_this_write c \<and>
    http_writes_pending c' = http_writes_pending c \<and> http_written c' = http_written c"
proof -
  let ?g = "guard_request_handling_operation env ((logged Register [] c)\<lparr>m_response_coordinator :=
    busy_coordinator (i + 1) (pending_context i [] initial_flags)\<rparr>)"
  let ?c = "?g\<lparr>m_parser_ctx := left_of (m_parser_ctx c), handled := handled c @ [rq]\<rparr>"
  have id: "rq_id rq = i" by (simp add: assms(8) request_in_def)
  have "\<exists>c'. http_run env (Suc (Suc (Suc (Suc n)))) (WriteResponseParts i kept_flags (answer rq)) ?c = Returns c' \<and>
    same_input ?c c' \<and> m_response_coordinator c' = busy_coordinator (i + 1) (pending_context i [answer rq] kept_flags) \<and>
    http_write_ctx c' = all_output items \<and> m_init_read_after_this_write c' = m_init_read_after_this_write ?c \<and>
    http_writes_pending c' = http_writes_pending ?c \<and> http_written c' = http_written ?c"
    using assms by (intro answer_waits) (simp_all add: http_steps)
  then obtain c' where c': "http_run env (Suc (Suc (Suc (Suc n)))) (WriteResponseParts i kept_flags (answer rq)) ?c = Returns c'"
    "same_input ?c c'" "m_response_coordinator c' = busy_coordinator (i + 1) (pending_context i [answer rq] kept_flags)"
    "http_write_ctx c' = all_output items" "m_init_read_after_this_write c' = m_init_read_after_this_write ?c"
    "http_writes_pending c' = http_writes_pending ?c" "http_written c' = http_written ?c" by blast
  have acts: "http_run env (Suc (Suc (Suc (Suc (Suc n))))) (HandlerActions [WriteParts i kept_flags (answer rq)]) ?c = Returns c'"
    unfolding http_run.simps(2) [of env "Suc (Suc (Suc (Suc n)))"] http_call_body_def http_call.case http_handler_actions_def list.case
      http_action.case c'(1) by (simp add: http_call_body_def http_handler_actions_def)
  have h: "m_request_handler env (handled c @ [rq]) =
      \<lparr>outcome_actions = [WriteParts i kept_flags (answer rq)], outcome_status = Some status_accepted\<rparr>"
    using assms(1) id by (simp add: answers_at_once_def)
  have reg: "register_request c = Inr (i, (logged Register [] c)\<lparr>m_response_coordinator :=
      busy_coordinator (i + 1) (pending_context i [] initial_flags)\<rparr>)"
    using assms(5,6) by (simp add: register_request_def reinit_empty)
  have tk: "take_request i ?g = (rq, ?g\<lparr>m_parser_ctx := left_of (m_parser_ctx c)\<rparr>)" "handled ?g = handled c"
    by (simp_all add: take_request_eq assms(8) guard_request_handling_operation_def schedule_operation_timeout_callback_def logged_def)
  have unable: "\<not> is_able_to_get_more_messages (m_response_coordinator c')" by (simp add: c'(3))
  have "http_run env (Suc (Suc (Suc (Suc (Suc (Suc n)))))) OnRequestMessageComplete c = Returns c'"
    unfolding http_run.simps(2) [of env "Suc (Suc (Suc (Suc (Suc n))))"] http_call_body_def http_call.case
      on_request_message_complete_def call_request_handler_def
    using assms(3,4) acts h unable by (simp add: reg tk Let_def)
  with c' show ?thesis
    by (intro exI [of _ c']) (simp add: http_steps)
qed

text \<open>A complete request when the one slot is taken: the exception closes the connection.\<close>

lemma request_refused:
  assumes "\<not> parser_upgrade env (http_parser c)" and "m_connection_upgrade_stage c = no_upgrade"
    and "m_response_coordinator c = busy_coordinator i ctx"
  shows "http_run env (Suc n) OnRequestMessageComplete c = Returns (http_close c)"
  using assms by (simp add: http_call_body_def on_request_message_complete_def register_request_def)

text \<open>Waiting for the next request.\<close>

lemma wait_reads:
  assumes "http_buf c = []"
  shows "\<exists>c'. http_run env (Suc n) WaitForHttpMessage c = Returns c' \<and> http_parser c' = http_parser_init env \<and>
    m_parser_ctx c' = ctx_reset (m_parser_ctx c) \<and> http_buf c' = [] \<and> m_read_operation_is_running c' \<and>
    same_output c c' \<and> m_response_coordinator c' = m_response_coordinator c \<and> socket_open c' = socket_open c \<and>
    m_connection_upgrade_stage c' = m_connection_upgrade_stage c \<and> m_init_read_after_this_write c' = m_init_read_after_this_write c"
  using assms by (simp add: http_call_body_def wait_for_http_message_def http_steps same_output_def Let_def)

lemma wait_consumes:
  assumes "http_buf c \<noteq> []"
  shows "\<exists>c'. http_run env (Suc n) WaitForHttpMessage c = http_run env n (ConsumeData (http_buf c)) c' \<and>
    http_parser c' = http_parser_init env \<and>
    m_parser_ctx c' = ctx_reset (m_parser_ctx c) \<and> http_buf c' = http_buf c \<and>
    m_read_operation_is_running c' = m_read_operation_is_running c \<and>
    same_output c c' \<and> m_response_coordinator c' = m_response_coordinator c \<and> socket_open c' = socket_open c \<and>
    m_connection_upgrade_stage c' = m_connection_upgrade_stage c \<and> m_init_read_after_this_write c' = m_init_read_after_this_write c"
  using assms
  by (intro exI [of _ "http_guard_read_operation env (reset_http_parser env c)"])
     (simp add: http_call_body_def wait_for_http_message_def http_steps same_output_def Let_def)

text \<open>Data that completes a request, and data that does not.\<close>

definition parses :: "'p http_env \<Rightarrow> 'p \<Rightarrow> http_parser_ctx_t \<Rightarrow> raw_data_t \<Rightarrow> nat \<Rightarrow> 'p \<Rightarrow> http_parser_ctx_t \<Rightarrow> bool" where
  "parses env p x data k p' x' \<longleftrightarrow>
     (\<exists>es. http_parser_execute env p data = (k, p', es) \<and> run_callbacks es x = (0, x') \<and> \<not> parser_failed env p')"

lemma consume_complete:
  "parses env (http_parser c) (m_parser_ctx c) data k p x \<Longrightarrow> m_message_complete x \<Longrightarrow>
    http_run env (Suc n) (ConsumeData data) c =
      http_run env n OnRequestMessageComplete (c\<lparr>http_parser := p, m_parser_ctx := x, http_buf := drop k (http_buf c)\<rparr>)"
  by (auto simp: parses_def http_call_body_def consume_data_def Let_def)

lemma consume_partial:
  "parses env (http_parser c) (m_parser_ctx c) data k p x \<Longrightarrow> \<not> m_message_complete x \<Longrightarrow>
    http_run env (Suc n) (ConsumeData data) c =
      Returns (consume_message (c\<lparr>http_parser := p, m_parser_ctx := x, http_buf := drop k (http_buf c)\<rparr>))"
  by (auto simp: parses_def http_call_body_def consume_data_def Let_def)

text \<open>The write of a whole response ends.\<close>

lemma write_ends:
  assumes "http_write_ctx c = all_output items" and "\<not> coordinator_closed (m_response_coordinator c)"
    and "m_connection_upgrade_stage c = no_upgrade" and "m_init_read_after_this_write c"
  shows "http_run env (Suc (Suc n)) HandleCurrentWriteCtx c =
    catching (and_then (http_run env n WaitForHttpMessage (c\<lparr>http_write_ctx := idle_output\<rparr>))
      (http_run env n InitWriteIfNecessary)) http_close"
  using assms by (simp add: http_call_body_def http_handle_current_write_ctx_def finish_handling_current_write_ctx_def extract_done Let_def)

lemma nothing_to_write:
  assumes "http_write_ctx c = idle_output" and "m_response_coordinator c = idle_coordinator j ctx" and "context_empty ctx"
  shows "\<exists>c'. http_run env (Suc n) InitWriteIfNecessary c = Returns c' \<and> same_input c c' \<and> http_write_ctx c' = idle_output \<and>
    m_response_coordinator c' = idle_coordinator j ctx \<and> http_writes_pending c' = http_writes_pending c \<and>
    http_written c' = http_written c \<and> m_init_read_after_this_write c' = m_init_read_after_this_write c"
  using assms by (simp add: http_call_body_def http_init_write_if_necessary_def http_steps Let_def)

lemma close_one_slot:
  "m_response_coordinator c = busy_coordinator j ctx \<Longrightarrow>
    m_response_coordinator (http_close c) = idle_coordinator j (ctx\<lparr>m_write_groups := []\<rparr>)"
  "m_response_coordinator c = idle_coordinator j ctx \<Longrightarrow> m_response_coordinator (http_close c) = idle_coordinator j ctx"
  by (simp_all add: http_close_def cancel_timeout_checking_def coordinator_reset_def busy_coordinator_def idle_coordinator_def
      reset_table.simps table_empty_def table_front_def pop_response_context_nonchecked_def Let_def)


section \<open>Requests one after the other\<close>

text \<open>The connection reads a request: \<open>p\<close> and \<open>x\<close> are what the parser has so far.\<close>

definition reading :: "request_id_t \<Rightarrow> 'p \<Rightarrow> http_parser_ctx_t \<Rightarrow> 'p http_connection_t \<Rightarrow> bool" where
  "reading i p x c \<longleftrightarrow>
     socket_open c \<and> http_parser c = p \<and> m_parser_ctx c = x \<and> http_buf c = [] \<and> m_read_operation_is_running c \<and>
     m_connection_upgrade_stage c = no_upgrade \<and> http_write_ctx c = idle_output \<and> http_writes_pending c = 0 \<and>
     (\<exists>ctx. m_response_coordinator c = idle_coordinator i ctx \<and> context_empty ctx)"

text \<open>A request that comes in the given reads: what the callbacks have assembled at its end.\<close>

fun request_read :: "'p http_env \<Rightarrow> 'p \<Rightarrow> http_parser_ctx_t \<Rightarrow> raw_data_t list \<Rightarrow> http_parser_ctx_t option" where
  "request_read env p x [] = None"
| "request_read env p x (d # ds) =
     (case http_parser_execute env p d of (k, p', es) \<Rightarrow>
      case run_callbacks es x of (r, x') \<Rightarrow>
        if parser_failed env p' \<or> r \<noteq> 0 \<or> k \<noteq> length d \<or> d = [] then None
        else if m_message_complete x' then (if ds = [] \<and> \<not> parser_upgrade env p' then Some x' else None)
        else request_read env p' x' ds)"

definition exchange_events :: "raw_data_t list \<Rightarrow> http_event_t list" where
  "exchange_events ds = map ReadBytes ds @ [WriteEnds]"

lemma callback_limits: "m_limits (snd (parser_callback ev x)) = m_limits x"
  by (cases ev)
     (auto simp: parser_callback_def restinio_url_cb_def restinio_header_field_cb_def restinio_header_value_cb_def
        restinio_headers_complete_cb_def restinio_body_cb_def restinio_chunk_header_cb_def restinio_chunk_complete_cb_def
        restinio_message_complete_cb_def upd_fields_def Let_def split: option.split)

lemma run_callbacks_limits: "m_limits (snd (run_callbacks es x)) = m_limits x"
proof (induction es arbitrary: x)
  case (Cons ev es)
  show ?case using Cons [of "snd (parser_callback ev x)"] callback_limits [of ev x] by (auto split: prod.split)
qed simp

lemma reset_left_of: "ctx_reset (left_of x) = http_parser_ctx (m_limits x)"
  by (auto simp: ctx_reset_def left_of_def http_parser_ctx_def make_chunked_input_info_if_necessary_def Let_def
      empty_chunked_info_def)

lemma request_read_limits: "request_read env p x ds = Some x' \<Longrightarrow> m_limits x' = m_limits x"
proof (induction env p x ds rule: request_read.induct)
  case (2 env p x d ds)
  obtain k p1 es where e: "http_parser_execute env p d = (k, p1, es)" by (cases "http_parser_execute env p d") auto
  obtain r x1 where r: "run_callbacks es x = (r, x1)" by (cases "run_callbacks es x") auto
  have "m_limits x1 = m_limits x" using run_callbacks_limits [of es x] r by simp
  then show ?case using 2 e r by (auto split: if_splits)
qed simp

lemma partial_read:
  assumes "reading i p x c" and "parses env p x d (length d) p' x'" and "\<not> m_message_complete x'"
  shows "\<exists>c'. http_event env (Suc n) (ReadBytes d) c = Returns c' \<and> reading i p' x' c' \<and>
    http_written c' = http_written c \<and> handled c' = handled c"
proof -
  let ?c = "c\<lparr>m_read_operation_is_running := False, http_buf := d\<rparr>"
  have "parses env (http_parser ?c) (m_parser_ctx ?c) d (length d) p' x'" using assms(1,2) by (simp add: reading_def)
  from consume_partial [OF this assms(3), of n] assms(1) show ?thesis
    by (simp add: http_event_def after_read_def reading_def consume_message_def Let_def)
qed

text \<open>The read that completes the request: the response is being written, and a read runs again.\<close>

lemma last_read:
  assumes "answers_at_once env answer" and "reading i p x c" and "parses env p x d (length d) p' x'"
    and "m_message_complete x'" and "\<not> parser_upgrade env p'" and "rq = request_in i x'"
  shows "\<exists>c'. http_event env (Suc (Suc (Suc (Suc (Suc (Suc (Suc n))))))) (ReadBytes d) c = Returns c' \<and>
    socket_open c' \<and> http_parser c' = http_parser_init env \<and> m_parser_ctx c' = http_parser_ctx (m_limits x') \<and>
    http_buf c' = [] \<and> m_read_operation_is_running c' \<and> m_connection_upgrade_stage c' = no_upgrade \<and>
    http_write_ctx c' = all_output (m_items (answer rq)) \<and> http_writes_pending c' = 1 \<and>
    m_response_coordinator c' = idle_coordinator (i + 1) (pending_context i [] kept_flags) \<and> m_init_read_after_this_write c' \<and>
    http_written c' = http_written c @ [m_items (answer rq)] \<and> handled c' = handled c @ [rq]"
proof -
  let ?c = "c\<lparr>m_read_operation_is_running := False, http_buf := d\<rparr>"
  let ?d = "?c\<lparr>http_parser := p', m_parser_ctx := x', http_buf := drop (length d) (http_buf ?c)\<rparr>"
  obtain ctx where ctx: "m_response_coordinator c = idle_coordinator i ctx" "context_empty ctx"
    using assms(2) by (auto simp: reading_def)
  have ps: "parses env (http_parser ?c) (m_parser_ctx ?c) d (length d) p' x'" using assms(2,3) by (simp add: reading_def)
  have "\<exists>c'. http_run env (Suc (Suc (Suc (Suc (Suc (Suc n)))))) OnRequestMessageComplete ?d =
      catching (http_run env (Suc (Suc (Suc (Suc (Suc n))))) WaitForHttpMessage c') http_close \<and>
    same_input (?d\<lparr>m_parser_ctx := left_of (m_parser_ctx ?d), handled := handled ?d @ [rq]\<rparr>) c' \<and>
    m_response_coordinator c' = idle_coordinator (i + 1) (pending_context i [] kept_flags) \<and>
    http_write_ctx c' = all_output (m_items (answer rq)) \<and> m_init_read_after_this_write c' \<and>
    http_writes_pending c' = Suc (http_writes_pending ?d) \<and> http_written c' = http_written ?d @ [m_items (answer rq)]"
    using assms ctx by (intro request_answered [where ctx = ctx]) (simp_all add: reading_def)
  then obtain c1 where c1: "http_run env (Suc (Suc (Suc (Suc (Suc (Suc n)))))) OnRequestMessageComplete ?d =
      catching (http_run env (Suc (Suc (Suc (Suc (Suc n))))) WaitForHttpMessage c1) http_close"
    "same_input (?d\<lparr>m_parser_ctx := left_of (m_parser_ctx ?d), handled := handled ?d @ [rq]\<rparr>) c1"
    "m_response_coordinator c1 = idle_coordinator (i + 1) (pending_context i [] kept_flags)"
    "http_write_ctx c1 = all_output (m_items (answer rq))" "m_init_read_after_this_write c1"
    "http_writes_pending c1 = Suc (http_writes_pending ?d)" "http_written c1 = http_written ?d @ [m_items (answer rq)]"
    by (elim exE conjE)
  have "http_buf c1 = []" using c1(2) by (simp add: same_input_def)
  from wait_reads [OF this, of env "Suc (Suc (Suc (Suc n)))"] obtain c2 where
    c2: "http_run env (Suc (Suc (Suc (Suc (Suc n))))) WaitForHttpMessage c1 = Returns c2" "http_parser c2 = http_parser_init env"
      "m_parser_ctx c2 = ctx_reset (m_parser_ctx c1)" "http_buf c2 = []" "m_read_operation_is_running c2" "same_output c1 c2"
      "m_response_coordinator c2 = m_response_coordinator c1" "socket_open c2 = socket_open c1"
      "m_connection_upgrade_stage c2 = m_connection_upgrade_stage c1"
      "m_init_read_after_this_write c2 = m_init_read_after_this_write c1" by (elim exE conjE)
  have "http_event env (Suc (Suc (Suc (Suc (Suc (Suc (Suc n))))))) (ReadBytes d) c = Returns c2"
    unfolding http_event_def http_event_t.case after_read_def Let_def
    using consume_complete [OF ps assms(4), of "Suc (Suc (Suc (Suc (Suc (Suc n)))))"] c1(1) c2(1) by simp
  moreover have "m_parser_ctx c1 = left_of x'" using c1(2) by (simp add: same_input_def)
  ultimately show ?thesis using assms(2) c1 c2
    by (intro exI [of _ c2]) (simp add: same_input_def same_output_def reading_def reset_left_of)
qed

text \<open>The write of the response ends.\<close>

lemma exchange_ends:
  assumes "socket_open c" and "http_parser c = p" and "http_buf c = []" and "m_read_operation_is_running c"
    and "m_connection_upgrade_stage c = no_upgrade" and "http_write_ctx c = all_output items" and "http_writes_pending c = 1"
    and "m_response_coordinator c = idle_coordinator i ctx" and "context_empty ctx" and "m_init_read_after_this_write c"
  shows "\<exists>c'. http_event env (Suc (Suc (Suc n))) WriteEnds c = Returns c' \<and>
    reading i (http_parser_init env) (ctx_reset (m_parser_ctx c)) c' \<and>
    http_written c' = http_written c \<and> handled c' = handled c"
proof -
  let ?c = "c\<lparr>http_writes_pending := http_writes_pending c - 1\<rparr>"
  let ?d = "?c\<lparr>http_write_ctx := idle_output\<rparr>"
  have "http_buf ?d = []" using assms(3) by simp
  from wait_reads [OF this, of env n] obtain c2 where
    c2: "http_run env (Suc n) WaitForHttpMessage ?d = Returns c2" "http_parser c2 = http_parser_init env"
      "m_parser_ctx c2 = ctx_reset (m_parser_ctx ?d)" "http_buf c2 = []" "m_read_operation_is_running c2" "same_output ?d c2"
      "m_response_coordinator c2 = m_response_coordinator ?d" "socket_open c2 = socket_open ?d"
      "m_connection_upgrade_stage c2 = m_connection_upgrade_stage ?d" by (elim exE conjE)
  have "http_write_ctx c2 = idle_output" "m_response_coordinator c2 = idle_coordinator i ctx"
    using c2(6,7) assms(8) by (simp_all add: same_output_def)
  from nothing_to_write [OF this assms(9), of env n] obtain c3 where
    c3: "http_run env (Suc n) InitWriteIfNecessary c2 = Returns c3" "same_input c2 c3" "http_write_ctx c3 = idle_output"
      "m_response_coordinator c3 = idle_coordinator i ctx" "http_writes_pending c3 = http_writes_pending c2"
      "http_written c3 = http_written c2" by (elim exE conjE)
  have "http_run env (Suc (Suc (Suc n))) HandleCurrentWriteCtx ?c = Returns c3"
    using assms c2(1) c3(1) by (subst write_ends [of _ items]) simp_all
  then show ?thesis using assms c2 c3
    by (intro exI [of _ c3]) (simp add: http_event_def reading_def same_input_def same_output_def, blast)
qed

text \<open>One exchange: the request comes in the reads \<open>ds\<close>, its response goes out in one write.\<close>

lemma one_exchange:
  assumes "answers_at_once env answer" and "reading i p x c" and "request_read env p x ds = Some x'"
  shows "\<exists>c'. http_events env (Suc (Suc (Suc (Suc (Suc (Suc (Suc n))))))) (exchange_events ds) c = Returns c' \<and>
    reading (i + 1) (http_parser_init env) (http_parser_ctx (m_limits x)) c' \<and>
    http_written c' = http_written c @ [m_items (answer (request_in i x'))] \<and> handled c' = handled c @ [request_in i x']"
  using assms(2,3)
proof (induction ds arbitrary: p x c)
  case (Cons d ds)
  let ?n = "Suc (Suc (Suc (Suc (Suc (Suc (Suc n))))))"
  obtain k p1 es where e: "http_parser_execute env p d = (k, p1, es)" by (cases "http_parser_execute env p d") auto
  obtain r x1 where r: "run_callbacks es x = (r, x1)" by (cases "run_callbacks es x") auto
  have ok: "\<not> parser_failed env p1" "r = 0" "k = length d" "d \<noteq> []" using Cons.prems(2) e r by (auto split: if_splits)
  then have ps: "parses env p x d (length d) p1 x1" using e r by (simp add: parses_def)
  have en: "http_enabled (ReadBytes d) c" using Cons.prems(1) ok(4) by (simp add: http_enabled_def reading_def)
  have lim: "m_limits x1 = m_limits x" using run_callbacks_limits [of es x] r by simp
  show ?case
  proof (cases "m_message_complete x1")
    case True
    then have last: "ds = []" "\<not> parser_upgrade env p1" "x' = x1" using Cons.prems(2) e r ok by (auto split: if_splits)
    from last_read [OF assms(1) Cons.prems(1) ps True last(2) refl, of n] obtain c1 where
      c1: "http_event env ?n (ReadBytes d) c = Returns c1" "socket_open c1" "http_parser c1 = http_parser_init env"
        "m_parser_ctx c1 = http_parser_ctx (m_limits x1)" "http_buf c1 = []" "m_read_operation_is_running c1"
        "m_connection_upgrade_stage c1 = no_upgrade" "http_write_ctx c1 = all_output (m_items (answer (request_in i x1)))"
        "http_writes_pending c1 = 1" "m_response_coordinator c1 = idle_coordinator (i + 1) (pending_context i [] kept_flags)"
        "m_init_read_after_this_write c1" "http_written c1 = http_written c @ [m_items (answer (request_in i x1))]"
        "handled c1 = handled c @ [request_in i x1]" by (elim exE conjE)
    from exchange_ends [OF c1(2,3,5-10) pending_context_empty c1(11), of env "Suc (Suc (Suc (Suc n)))"] obtain c2 where
      c2: "http_event env ?n WriteEnds c1 = Returns c2" "reading (i + 1) (http_parser_init env) (ctx_reset (m_parser_ctx c1)) c2"
        "http_written c2 = http_written c1" "handled c2 = handled c1" by (elim exE conjE)
    have "ctx_reset (m_parser_ctx c1) = http_parser_ctx (m_limits x)" using c1(4) lim by (simp add: ctx_reset_def http_parser_ctx_def)
    then show ?thesis using en c1 c2 last
      by (simp add: exchange_events_def http_enabled_def)
  next
    case False
    then have rest: "request_read env p1 x1 ds = Some x'" using Cons.prems(2) e r ok by (auto split: if_splits)
    from partial_read [OF Cons.prems(1) ps False, of "Suc (Suc (Suc (Suc (Suc (Suc n)))))"] obtain c1 where
      c1: "http_event env ?n (ReadBytes d) c = Returns c1" "reading i p1 x1 c1" "http_written c1 = http_written c"
        "handled c1 = handled c" by (elim exE conjE)
    from Cons.IH [OF c1(2) rest] en c1 lim show ?thesis by (simp add: exchange_events_def)
  qed
qed simp


text \<open>A session: exchanges one after the other.\<close>

fun requests_from :: "request_id_t \<Rightarrow> http_parser_ctx_t list \<Rightarrow> http_request_t list" where
  "requests_from i [] = []"
| "requests_from i (x # xs) = request_in i x # requests_from (i + 1) xs"

lemma http_events_append:
  "http_events env n (evs @ evs') c = and_then (http_events env n evs c) (http_events env n evs')"
proof (induction evs arbitrary: c)
  case (Cons ev evs)
  show ?case
  proof (cases "http_enabled ev c")
    case True
    then show ?thesis using Cons by (cases "http_event env n ev c") simp_all
  qed simp
qed simp

lemma session_from:
  assumes "answers_at_once env answer" and "reading i (http_parser_init env) (http_parser_ctx L) c"
    and "list_all2 (\<lambda>ds x. request_read env (http_parser_init env) (http_parser_ctx L) ds = Some x) rss xs"
  shows "\<exists>c'. http_events env (Suc (Suc (Suc (Suc (Suc (Suc (Suc n))))))) (concat (map exchange_events rss)) c = Returns c' \<and>
    socket_open c' \<and> http_written c' = http_written c @ map (\<lambda>rq. m_items (answer rq)) (requests_from i xs) \<and>
    handled c' = handled c @ requests_from i xs"
  using assms(3,2)
proof (induction arbitrary: i c rule: list_all2_induct)
  case Nil
  then show ?case by (auto simp: reading_def)
next
  case (Cons ds rss x xs)
  have L: "m_limits (http_parser_ctx L) = L" by (simp add: http_parser_ctx_def)
  from one_exchange [OF assms(1) Cons.prems Cons.hyps(1), of n] L obtain c1 where
    c1: "http_events env (Suc (Suc (Suc (Suc (Suc (Suc (Suc n))))))) (exchange_events ds) c = Returns c1"
      "reading (i + 1) (http_parser_init env) (http_parser_ctx L) c1"
      "http_written c1 = http_written c @ [m_items (answer (request_in i x))]" "handled c1 = handled c @ [request_in i x]"
    by (auto simp only:)
  from Cons.IH [OF c1(2)] c1 show ?case by (auto simp: http_events_append)
qed

lemma init_reads:
  "\<exists>c. http_init env (Suc n) (http_connection env L 1) = Returns c \<and> reading 0 (http_parser_init env) (http_parser_ctx L) c \<and>
    http_written c = [] \<and> handled c = []"
proof -
  have "http_buf (init_next_timeout_checking (http_connection env L 1)) = []"
    by (simp add: init_next_timeout_checking_def http_connection_def)
  from wait_reads [OF this, of env n] obtain c where
    c: "http_run env (Suc n) WaitForHttpMessage (init_next_timeout_checking (http_connection env L 1)) = Returns c"
      "http_parser c = http_parser_init env" "m_parser_ctx c = ctx_reset (m_parser_ctx (init_next_timeout_checking (http_connection env L 1)))"
      "http_buf c = []" "m_read_operation_is_running c" "same_output (init_next_timeout_checking (http_connection env L 1)) c"
      "m_response_coordinator c = m_response_coordinator (init_next_timeout_checking (http_connection env L 1))"
      "socket_open c = socket_open (init_next_timeout_checking (http_connection env L 1))"
      "m_connection_upgrade_stage c = m_connection_upgrade_stage (init_next_timeout_checking (http_connection env L 1))"
    by (elim exE conjE)
  have "context_empty new_context" by (simp add: context_empty_def new_context_def)
  then show ?thesis using c one_slot_start
    by (intro exI [of _ c])
       (auto simp: http_init_def reading_def init_next_timeout_checking_def http_connection_def same_output_def
          http_parser_ctx_def ctx_reset_def)
qed

lemma starts_reading:
  assumes "0 < n"
  obtains c where "http_init env n (http_connection env L 1) = Returns c" "reading 0 (http_parser_init env) (http_parser_ctx L) c"
    "http_written c = []" "handled c = []"
  using init_reads [of env "n - 1" L] assms by auto

section \<open>Clients that do not wait\<close>

lemma parses_limits: "parses env p x d k p' x' \<Longrightarrow> m_limits x' = m_limits x"
  unfolding parses_def by (metis run_callbacks_limits snd_conv)

text \<open>The connection writes a response and has its first slot free or taken.\<close>

definition writing :: "raw_data_t list \<Rightarrow> response_coordinator_t \<Rightarrow> 'p http_connection_t \<Rightarrow> bool" where
  "writing items co c \<longleftrightarrow>
     socket_open c \<and> m_connection_upgrade_stage c = no_upgrade \<and> http_write_ctx c = all_output items \<and>
     http_writes_pending c = 1 \<and> m_response_coordinator c = co \<and> m_init_read_after_this_write c"

text \<open>A request at the front of the data: it is answered, and the rest is given to a new parser.\<close>

lemma answered_and_consumes:
  assumes "answers_at_once env answer" and "reading i p x c" and "parses env p x d k p' x'"
    and "m_message_complete x'" and "\<not> parser_upgrade env p'" and "drop k d \<noteq> []" and "rq = request_in i x'"
  shows "\<exists>c'. http_event env (Suc (Suc (Suc (Suc (Suc (Suc (Suc n))))))) (ReadBytes d) c =
      catching (http_run env (Suc (Suc (Suc (Suc n)))) (ConsumeData (drop k d)) c') http_close \<and>
    writing (m_items (answer rq)) (idle_coordinator (i + 1) (pending_context i [] kept_flags)) c' \<and>
    http_parser c' = http_parser_init env \<and> m_parser_ctx c' = http_parser_ctx (m_limits x) \<and> http_buf c' = drop k d \<and>
    http_written c' = http_written c @ [m_items (answer rq)] \<and> handled c' = handled c @ [rq]"
proof -
  let ?c = "c\<lparr>m_read_operation_is_running := False, http_buf := d\<rparr>"
  let ?d = "?c\<lparr>http_parser := p', m_parser_ctx := x', http_buf := drop k (http_buf ?c)\<rparr>"
  obtain ctx where ctx: "m_response_coordinator c = idle_coordinator i ctx" "context_empty ctx"
    using assms(2) by (auto simp: reading_def)
  have "\<exists>c'. http_run env (Suc (Suc (Suc (Suc (Suc (Suc n)))))) OnRequestMessageComplete ?d =
      catching (http_run env (Suc (Suc (Suc (Suc (Suc n))))) WaitForHttpMessage c') http_close \<and>
    same_input (?d\<lparr>m_parser_ctx := left_of (m_parser_ctx ?d), handled := handled ?d @ [rq]\<rparr>) c' \<and>
    m_response_coordinator c' = idle_coordinator (i + 1) (pending_context i [] kept_flags) \<and>
    http_write_ctx c' = all_output (m_items (answer rq)) \<and> m_init_read_after_this_write c' \<and>
    http_writes_pending c' = Suc (http_writes_pending ?d) \<and> http_written c' = http_written ?d @ [m_items (answer rq)]"
    using assms ctx by (intro request_answered [where ctx = ctx]) (simp_all add: reading_def)
  then obtain c1 where c1: "http_run env (Suc (Suc (Suc (Suc (Suc (Suc n)))))) OnRequestMessageComplete ?d =
      catching (http_run env (Suc (Suc (Suc (Suc (Suc n))))) WaitForHttpMessage c1) http_close"
    "same_input (?d\<lparr>m_parser_ctx := left_of (m_parser_ctx ?d), handled := handled ?d @ [rq]\<rparr>) c1"
    "m_response_coordinator c1 = idle_coordinator (i + 1) (pending_context i [] kept_flags)"
    "http_write_ctx c1 = all_output (m_items (answer rq))" "m_init_read_after_this_write c1"
    "http_writes_pending c1 = Suc (http_writes_pending ?d)" "http_written c1 = http_written ?d @ [m_items (answer rq)]"
    by (elim exE conjE)
  have b1: "http_buf c1 = drop k d" using c1(2) by (simp add: same_input_def)
  then have "http_buf c1 \<noteq> []" using assms(6) by simp
  from wait_consumes [OF this, of env "Suc (Suc (Suc (Suc n)))"] obtain c2 where
    c2: "http_run env (Suc (Suc (Suc (Suc (Suc n))))) WaitForHttpMessage c1 =
        http_run env (Suc (Suc (Suc (Suc n)))) (ConsumeData (http_buf c1)) c2" "http_parser c2 = http_parser_init env"
      "m_parser_ctx c2 = ctx_reset (m_parser_ctx c1)" "http_buf c2 = http_buf c1"
      "m_read_operation_is_running c2 = m_read_operation_is_running c1" "same_output c1 c2"
      "m_response_coordinator c2 = m_response_coordinator c1" "socket_open c2 = socket_open c1"
      "m_connection_upgrade_stage c2 = m_connection_upgrade_stage c1"
      "m_init_read_after_this_write c2 = m_init_read_after_this_write c1" by (elim exE conjE)
  have "parses env (http_parser ?c) (m_parser_ctx ?c) d k p' x'" using assms(2,3) by (simp add: reading_def)
  from consume_complete [OF this assms(4), of "Suc (Suc (Suc (Suc (Suc (Suc n)))))"] c1(1) c2(1) b1
  have "http_event env (Suc (Suc (Suc (Suc (Suc (Suc (Suc n))))))) (ReadBytes d) c =
      catching (http_run env (Suc (Suc (Suc (Suc n)))) (ConsumeData (drop k d)) c2) http_close"
    by (simp add: http_event_def after_read_def catching_catching Let_def)
  then show ?thesis using assms(2) c1 c2 b1 parses_limits [OF assms(3)]
    by (intro exI [of _ c2]) (simp add: writing_def reading_def same_input_def same_output_def reset_left_of)
qed

text \<open>A second request behind it is handled at once; its response waits, and the rest stays in the buffer.\<close>

lemma second_queued:
  assumes "answers_at_once env answer" and "writing items (idle_coordinator i (pending_context j [] kept_flags)) c"
    and "parses env (http_parser c) (m_parser_ctx c) (http_buf c) k p x" and "m_message_complete x" and "\<not> parser_upgrade env p"
    and "rq = request_in i x"
  shows "\<exists>c'. http_run env (Suc (Suc (Suc (Suc (Suc (Suc (Suc n))))))) (ConsumeData (http_buf c)) c = Returns c' \<and>
    writing items (busy_coordinator (i + 1) (pending_context i [answer rq] kept_flags)) c' \<and>
    http_buf c' = drop k (http_buf c) \<and> m_parser_ctx c' = left_of x \<and>
    http_written c' = http_written c \<and> handled c' = handled c @ [rq]"
proof -
  let ?e = "c\<lparr>http_parser := p, m_parser_ctx := x, http_buf := drop k (http_buf c)\<rparr>"
  have "\<exists>c'. http_run env (Suc (Suc (Suc (Suc (Suc (Suc n)))))) OnRequestMessageComplete ?e = Returns c' \<and>
    same_input (?e\<lparr>m_parser_ctx := left_of (m_parser_ctx ?e), handled := handled ?e @ [rq]\<rparr>) c' \<and>
    m_response_coordinator c' = busy_coordinator (i + 1) (pending_context i [answer rq] kept_flags) \<and>
    http_write_ctx c' = all_output items \<and> m_init_read_after_this_write c' = m_init_read_after_this_write ?e \<and>
    http_writes_pending c' = http_writes_pending ?e \<and> http_written c' = http_written ?e"
    using assms by (intro request_queued [where ctx = "pending_context j [] kept_flags"]) (simp_all add: writing_def)
  then show ?thesis using consume_complete [OF assms(3,4), of "Suc (Suc (Suc (Suc (Suc (Suc n)))))"] assms(2)
    by (auto simp: writing_def same_input_def)
qed

text \<open>The write ends: the third request finds no slot, and the connection is closed with the second unanswered.\<close>

lemma third_closes:
  assumes "writing items (busy_coordinator i ctx) c" and "http_buf c \<noteq> []" and "ctx_reset (m_parser_ctx c) = x0"
    and "parses env (http_parser_init env) x0 (http_buf c) k p x" and "m_message_complete x" and "\<not> parser_upgrade env p"
  shows "\<exists>c'. http_event env (Suc (Suc (Suc (Suc (Suc n))))) WriteEnds c = Returns c' \<and> \<not> socket_open c' \<and>
    http_written c' = http_written c \<and> handled c' = handled c"
proof -
  let ?c = "c\<lparr>http_writes_pending := http_writes_pending c - 1\<rparr>"
  let ?d = "?c\<lparr>http_write_ctx := idle_output\<rparr>"
  have "http_buf ?d \<noteq> []" using assms(2) by simp
  from wait_consumes [OF this, of env "Suc (Suc n)"] obtain c2 where
    c2: "http_run env (Suc (Suc (Suc n))) WaitForHttpMessage ?d = http_run env (Suc (Suc n)) (ConsumeData (http_buf ?d)) c2"
      "http_parser c2 = http_parser_init env" "m_parser_ctx c2 = ctx_reset (m_parser_ctx ?d)" "http_buf c2 = http_buf ?d"
      "same_output ?d c2" "m_response_coordinator c2 = m_response_coordinator ?d"
      "m_connection_upgrade_stage c2 = m_connection_upgrade_stage ?d" by (elim exE conjE)
  have "parses env (http_parser c2) (m_parser_ctx c2) (http_buf ?d) k p x" using assms(3,4) c2 by simp
  note consume = consume_complete [OF this assms(5), of "Suc n"]
  let ?e = "c2\<lparr>http_parser := p, m_parser_ctx := x, http_buf := drop k (http_buf c2)\<rparr>"
  have co: "m_response_coordinator ?e = busy_coordinator i ctx" "m_connection_upgrade_stage ?e = no_upgrade"
    using c2 assms(1) by (simp_all add: writing_def)
  have closed: "http_run env (Suc (Suc (Suc n))) WaitForHttpMessage ?d = Returns (http_close ?e)"
    using c2(1) consume request_refused [OF _ co(2,1), of env n] assms(6) by simp
  have idle: "http_write_ctx (http_close ?e) = idle_output" "http_written (http_close ?e) = http_written c"
    "handled (http_close ?e) = handled c" "\<not> socket_open (http_close ?e)"
    using c2(5) by (simp_all add: http_close_def cancel_timeout_checking_def same_output_def Let_def)
  from nothing_to_write [OF idle(1) close_one_slot(1) [OF co(1)], of env "Suc (Suc n)"] obtain c3 where
    c3: "http_run env (Suc (Suc (Suc n))) InitWriteIfNecessary (http_close ?e) = Returns c3" "same_input (http_close ?e) c3"
      "http_written c3 = http_written (http_close ?e)"
    by (auto simp: context_empty_def)
  have "http_run env (Suc (Suc (Suc (Suc (Suc n))))) HandleCurrentWriteCtx ?c = Returns c3"
    using assms(1) closed c3(1) by (subst write_ends [of _ items]) (simp_all add: writing_def)
  then show ?thesis using c3(2,3) idle by (intro exI [of _ c3]) (simp add: http_event_def same_input_def)
qed


text \<open>The beginning of a second request is read, and the end of the write starts the parser anew.\<close>

lemma beginning_forgotten:
  assumes "answers_at_once env answer" and "reading i (http_parser_init env) (http_parser_ctx L) c"
    and "parses env (http_parser_init env) (http_parser_ctx L) d k p x" and "m_message_complete x" and "\<not> parser_upgrade env p"
    and "d \<noteq> []" and "drop k d \<noteq> []"
    and "parses env (http_parser_init env) (http_parser_ctx L) (drop k d) (length (drop k d)) p' x'" and "\<not> m_message_complete x'"
    and "m_chunked_info_block x' = empty_chunked_info"
  shows "\<exists>c'. http_events env (Suc (Suc (Suc (Suc (Suc (Suc (Suc n))))))) [ReadBytes d, WriteEnds] c = Returns c' \<and>
    reading (i + 1) (http_parser_init env) (http_parser_ctx L) c' \<and>
    http_written c' = http_written c @ [m_items (answer (request_in i x))] \<and> handled c' = handled c @ [request_in i x]"
proof -
  have L: "m_limits (http_parser_ctx L) = L" by (simp add: http_parser_ctx_def)
  from answered_and_consumes [OF assms(1-5,7) refl, of n] obtain c2 where
    c2: "http_event env (Suc (Suc (Suc (Suc (Suc (Suc (Suc n))))))) (ReadBytes d) c =
        catching (http_run env (Suc (Suc (Suc (Suc n)))) (ConsumeData (drop k d)) c2) http_close"
      "writing (m_items (answer (request_in i x))) (idle_coordinator (i + 1) (pending_context i [] kept_flags)) c2"
      "http_parser c2 = http_parser_init env" "m_parser_ctx c2 = http_parser_ctx L" "http_buf c2 = drop k d"
      "http_written c2 = http_written c @ [m_items (answer (request_in i x))]" "handled c2 = handled c @ [request_in i x]"
    by (auto simp only: L)
  have "parses env (http_parser c2) (m_parser_ctx c2) (drop k d) (length (drop k d)) p' x'" using assms(8) c2 by simp
  from consume_partial [OF this assms(9), of "Suc (Suc (Suc n))"] c2(5)
  have r: "http_run env (Suc (Suc (Suc (Suc n)))) (ConsumeData (drop k d)) c2 =
      Returns (consume_message (c2\<lparr>http_parser := p', m_parser_ctx := x', http_buf := []\<rparr>))" by simp
  let ?e = "consume_message (c2\<lparr>http_parser := p', m_parser_ctx := x', http_buf := []\<rparr>)"
  have e: "socket_open ?e" "http_parser ?e = p'" "http_buf ?e = []" "m_read_operation_is_running ?e"
    "m_connection_upgrade_stage ?e = no_upgrade" "http_write_ctx ?e = all_output (m_items (answer (request_in i x)))"
    "http_writes_pending ?e = 1" "m_response_coordinator ?e = idle_coordinator (i + 1) (pending_context i [] kept_flags)"
    "m_init_read_after_this_write ?e" "m_parser_ctx ?e = x'" "http_written ?e = http_written c2" "handled ?e = handled c2"
    using c2(2) by (simp_all add: writing_def consume_message_def)
  from exchange_ends [OF e(1-8) pending_context_empty e(9), of env "Suc (Suc (Suc (Suc n)))"] obtain c3 where
    c3: "http_event env (Suc (Suc (Suc (Suc (Suc (Suc (Suc n))))))) WriteEnds ?e = Returns c3"
      "reading (i + 1) (http_parser_init env) (ctx_reset x') c3" "http_written c3 = http_written ?e" "handled c3 = handled ?e"
    by (auto simp only: e(10))
  have "m_limits x' = L" using parses_limits [OF assms(8)] L by simp
  then have "ctx_reset x' = http_parser_ctx L" using assms(10) by (simp add: ctx_reset_def http_parser_ctx_def)
  moreover have "http_enabled (ReadBytes d) c" using assms(2,6) by (simp add: http_enabled_def reading_def)
  moreover have "http_enabled WriteEnds ?e" by (simp add: http_enabled_def e(7))
  ultimately show ?thesis using c2(1,6,7) c3 r e(11,12)
    by (intro exI [of _ c3]) simp
qed

section \<open>Upgrade requests answered in HTTP\<close>

lemma cancel_handled [simp]: "handled (cancel_timeout_checking c) = handled c"
  by (simp add: cancel_timeout_checking_def)

text \<open>An upgrade request was answered, and the response is being written.\<close>

definition upgrade_answered :: "request_id_t \<Rightarrow> http_parser_ctx_t \<Rightarrow> 'p http_connection_t \<Rightarrow> bool" where
  "upgrade_answered i x c \<longleftrightarrow>
     socket_open c \<and> m_connection_upgrade_stage c = wait_for_upgrade_handling_result_or_nothing \<and>
     (\<exists>items. http_write_ctx c = all_output items) \<and> http_writes_pending c = 1 \<and> m_parser_ctx c = x \<and>
     (\<exists>ctx. m_response_coordinator c = idle_coordinator i ctx \<and> context_empty ctx)"

lemma upgrade_handled:
  assumes "answers_at_once env answer" and "socket_open c" and "m_response_coordinator c = idle_coordinator i ctx"
    and "context_empty ctx" and "http_write_ctx c = idle_output" and "http_writes_pending c = 0"
    and "rq = request_in i (m_parser_ctx c)"
  shows "\<exists>c'. http_run env (Suc (Suc (Suc (Suc (Suc (Suc n)))))) HandleUpgradeRequest c = Returns c' \<and>
    upgrade_answered (i + 1) (left_of (m_parser_ctx c)) c' \<and>
    http_written c' = http_written c @ [m_items (answer rq)] \<and> handled c' = handled c @ [rq]"
proof -
  let ?g = "(cancel_timeout_checking ((logged Register [] c)\<lparr>m_response_coordinator :=
    busy_coordinator (i + 1) (pending_context i [] initial_flags)\<rparr>))
    \<lparr>m_connection_upgrade_stage := wait_for_upgrade_handling_result_or_nothing\<rparr>"
  let ?c = "?g\<lparr>m_parser_ctx := left_of (m_parser_ctx c), handled := handled c @ [rq]\<rparr>"
  have one: "one_write (answer rq)" using assms(1) by (simp add: answers_at_once_def)
  have id: "rq_id rq = i" by (simp add: assms(7) request_in_def)
  have "\<exists>c'. http_run env (Suc (Suc (Suc (Suc n)))) (WriteResponseParts i kept_flags (answer rq)) ?c = Returns c' \<and>
    same_input ?c c' \<and> m_response_coordinator c' = idle_coordinator (i + 1) (pending_context i [] kept_flags) \<and>
    http_write_ctx c' = all_output (m_items (answer rq)) \<and> m_init_read_after_this_write c' \<and>
    http_writes_pending c' = Suc (http_writes_pending ?c) \<and> http_written c' = http_written ?c @ [m_items (answer rq)]"
    using assms one by (intro answer_now) (simp_all add: http_steps)
  then obtain c' where c': "http_run env (Suc (Suc (Suc (Suc n)))) (WriteResponseParts i kept_flags (answer rq)) ?c = Returns c'"
    "same_input ?c c'" "m_response_coordinator c' = idle_coordinator (i + 1) (pending_context i [] kept_flags)"
    "http_write_ctx c' = all_output (m_items (answer rq))" "m_init_read_after_this_write c'"
    "http_writes_pending c' = Suc (http_writes_pending ?c)" "http_written c' = http_written ?c @ [m_items (answer rq)]" by blast
  have acts: "http_run env (Suc (Suc (Suc (Suc (Suc n))))) (HandlerActions [WriteParts i kept_flags (answer rq)]) ?c = Returns c'"
    unfolding http_run.simps(2) [of env "Suc (Suc (Suc (Suc n)))"] http_call_body_def http_call.case http_handler_actions_def list.case
      http_action.case c'(1) by (simp add: http_call_body_def http_handler_actions_def)
  have h: "m_request_handler env (handled c @ [rq]) =
      \<lparr>outcome_actions = [WriteParts i kept_flags (answer rq)], outcome_status = Some status_accepted\<rparr>"
    using assms(1) id by (simp add: answers_at_once_def)
  have reg: "register_request c = Inr (i, (logged Register [] c)\<lparr>m_response_coordinator :=
      busy_coordinator (i + 1) (pending_context i [] initial_flags)\<rparr>)"
    using assms(3,4) by (simp add: register_request_def reinit_empty)
  have tk: "take_request i ?g = (rq, ?g\<lparr>m_parser_ctx := left_of (m_parser_ctx c)\<rparr>)" "handled ?g = handled c"
    by (simp_all add: take_request_eq assms(7) cancel_timeout_checking_def logged_def)
  have "http_run env (Suc (Suc (Suc (Suc (Suc (Suc n)))))) HandleUpgradeRequest c = Returns c'"
    unfolding http_run.simps(2) [of env "Suc (Suc (Suc (Suc (Suc n))))"] http_call_body_def http_call.case
      handle_upgrade_request_def call_request_handler_def
    using acts h by (simp add: reg tk Let_def)
  then show ?thesis using c' assms(2,6)
    by (intro exI [of _ c']) (auto simp: http_steps upgrade_answered_def)
qed

text \<open>The end of the write hands what is left of the request to the handler again.\<close>

lemma upgrade_again:
  assumes "answers_at_once env answer" and "upgrade_answered i x c" and "rq = request_in i x"
  shows "\<exists>c'. http_event env (Suc (Suc (Suc (Suc (Suc (Suc (Suc (Suc n)))))))) WriteEnds c = Returns c' \<and>
    upgrade_answered (i + 1) (left_of x) c' \<and>
    http_written c' = http_written c @ [m_items (answer rq)] \<and> handled c' = handled c @ [rq]"
proof -
  obtain items ctx where c: "http_write_ctx c = all_output items" "m_response_coordinator c = idle_coordinator i ctx"
    "context_empty ctx" using assms(2) by (auto simp: upgrade_answered_def)
  let ?d = "c\<lparr>http_writes_pending := 0, http_write_ctx := idle_output\<rparr>"
  have "\<exists>c'. http_run env (Suc (Suc (Suc (Suc (Suc (Suc n)))))) HandleUpgradeRequest ?d = Returns c' \<and>
    upgrade_answered (i + 1) (left_of (m_parser_ctx ?d)) c' \<and>
    http_written c' = http_written ?d @ [m_items (answer rq)] \<and> handled c' = handled ?d @ [rq]"
    using assms c by (intro upgrade_handled [where ctx = ctx]) (simp_all add: upgrade_answered_def)
  then obtain c' where c': "http_run env (Suc (Suc (Suc (Suc (Suc (Suc n)))))) HandleUpgradeRequest ?d = Returns c'"
    "upgrade_answered (i + 1) (left_of x) c'" "http_written c' = http_written c @ [m_items (answer rq)]"
    "handled c' = handled c @ [rq]" using assms(2) by (auto simp: upgrade_answered_def)
  have "http_run env (Suc (Suc (Suc (Suc (Suc (Suc (Suc (Suc n)))))))) HandleCurrentWriteCtx (c\<lparr>http_writes_pending := 0\<rparr>) = Returns c'"
    unfolding http_run.simps(2) [of env "Suc (Suc (Suc (Suc (Suc (Suc (Suc n))))))"]
      http_run.simps(2) [of env "Suc (Suc (Suc (Suc (Suc (Suc n)))))"] http_call_body_def http_call.case
      http_handle_current_write_ctx_def finish_handling_current_write_ctx_def
    using c'(1) c assms(2) by (simp add: extract_done upgrade_answered_def Let_def del: http_run.simps)
  with c' assms(2) show ?thesis by (intro exI [of _ c']) (simp add: http_event_def upgrade_answered_def)
qed


lemma upgrade_read:
  assumes "answers_at_once env answer" and "reading i p x c" and "parses env p x d k p' x'"
    and "m_message_complete x'" and "parser_upgrade env p'" and "rq = request_in i x'"
  shows "\<exists>c'. http_event env (Suc (Suc (Suc (Suc (Suc (Suc (Suc (Suc n)))))))) (ReadBytes d) c = Returns c' \<and>
    upgrade_answered (i + 1) (left_of x') c' \<and>
    http_written c' = http_written c @ [m_items (answer rq)] \<and> handled c' = handled c @ [rq]"
proof -
  obtain ctx where ctx: "m_response_coordinator c = idle_coordinator i ctx" "context_empty ctx"
    using assms(2) by (auto simp: reading_def)
  let ?c = "c\<lparr>m_read_operation_is_running := False, http_buf := d\<rparr>"
  let ?d = "?c\<lparr>http_parser := p', m_parser_ctx := x', http_buf := drop k (http_buf ?c)\<rparr>"
  let ?e = "?d\<lparr>m_connection_upgrade_stage := pending_upgrade_handling\<rparr>"
  have "\<exists>c'. http_run env (Suc (Suc (Suc (Suc (Suc (Suc n)))))) HandleUpgradeRequest ?e = Returns c' \<and>
    upgrade_answered (i + 1) (left_of (m_parser_ctx ?e)) c' \<and>
    http_written c' = http_written ?e @ [m_items (answer rq)] \<and> handled c' = handled ?e @ [rq]"
    using assms ctx by (intro upgrade_handled [where ctx = ctx]) (simp_all add: reading_def)
  then obtain c' where c': "http_run env (Suc (Suc (Suc (Suc (Suc (Suc n)))))) HandleUpgradeRequest ?e = Returns c'"
    "upgrade_answered (i + 1) (left_of x') c'" "http_written c' = http_written c @ [m_items (answer rq)]"
    "handled c' = handled c @ [rq]" by auto
  have "http_run env (Suc (Suc (Suc (Suc (Suc (Suc (Suc n))))))) OnRequestMessageComplete ?d = Returns c'"
    unfolding http_run.simps(2) [of env "Suc (Suc (Suc (Suc (Suc (Suc n)))))"] http_call_body_def http_call.case on_request_message_complete_def
    using c'(1) assms(2,5) ctx by (simp add: reading_def Let_def del: http_run.simps)
  moreover have "parses env (http_parser ?c) (m_parser_ctx ?c) d k p' x'" using assms(2,3) by (simp add: reading_def)
  note consume_complete [OF this assms(4), of "Suc (Suc (Suc (Suc (Suc (Suc (Suc n))))))"]
  ultimately have "http_event env (Suc (Suc (Suc (Suc (Suc (Suc (Suc (Suc n)))))))) (ReadBytes d) c = Returns c'"
    by (simp add: http_event_def after_read_def Let_def del: http_run.simps)
  with c' show ?thesis by blast
qed

fun upgrade_requests :: "request_id_t \<Rightarrow> http_parser_ctx_t \<Rightarrow> nat \<Rightarrow> http_request_t list" where
  "upgrade_requests i x 0 = []"
| "upgrade_requests i x (Suc k) = request_in i x # upgrade_requests (i + 1) (left_of x) k"

lemma upgrade_repeats:
  assumes "answers_at_once env answer" and "upgrade_answered i x c"
  shows "\<exists>c'. http_events env (Suc (Suc (Suc (Suc (Suc (Suc (Suc (Suc n)))))))) (replicate k WriteEnds) c = Returns c' \<and>
    http_written c' = http_written c @ map (\<lambda>rq. m_items (answer rq)) (upgrade_requests i x k) \<and>
    handled c' = handled c @ upgrade_requests i x k"
  using assms(2)
proof (induction k arbitrary: i x c)
  case (Suc k)
  from upgrade_again [OF assms(1) Suc.prems refl, of n] obtain c1 where
    c1: "http_event env (Suc (Suc (Suc (Suc (Suc (Suc (Suc (Suc n)))))))) WriteEnds c = Returns c1"
      "upgrade_answered (i + 1) (left_of x) c1" "http_written c1 = http_written c @ [m_items (answer (request_in i x))]"
      "handled c1 = handled c @ [request_in i x]" by (elim exE conjE)
  have "http_enabled WriteEnds c" using Suc.prems by (simp add: http_enabled_def upgrade_answered_def)
  with Suc.IH [OF c1(2)] c1 show ?case by (auto simp del: http_run.simps)
qed simp

lemma left_of_header: "ctx_header (left_of x) = moved_from_header (ctx_header x)"
  by (simp add: left_of_def)

lemma upgrade_requests_moved:
  "m_request_target (ctx_header x) = [] \<Longrightarrow> rq \<in> set (upgrade_requests i x k) \<Longrightarrow>
    m_request_target (rq_header rq) = [] \<and> m_query_separator_pos (rq_header rq) = m_query_separator_pos (ctx_header x)"
proof (induction k arbitrary: i x)
  case (Suc k)
  then show ?case using Suc.IH [of "left_of x" "i + 1"] by (auto simp: request_in_def left_of_header moved_from_header_def)
qed simp

lemma length_upgrade_requests [simp]: "length (upgrade_requests i x k) = k"
  by (induction k arbitrary: i x) simp_all

text \<open>Three requests in one read.\<close>

lemma three_requests:
  assumes "answers_at_once env answer" and "reading i (http_parser_init env) (http_parser_ctx L) c" and "d \<noteq> []"
    and "parses env (http_parser_init env) (http_parser_ctx L) d k1 p1 x1" "m_message_complete x1" "\<not> parser_upgrade env p1"
    and "drop k1 d \<noteq> []" "parses env (http_parser_init env) (http_parser_ctx L) (drop k1 d) k2 p2 x2"
      "m_message_complete x2" "\<not> parser_upgrade env p2"
    and "drop k2 (drop k1 d) \<noteq> []" "parses env (http_parser_init env) (http_parser_ctx L) (drop k2 (drop k1 d)) k3 p3 x3"
      "m_message_complete x3" "\<not> parser_upgrade env p3"
  shows "\<exists>c'. http_events env (n + 10) [ReadBytes d, WriteEnds] c = Returns c' \<and> \<not> socket_open c' \<and>
    handled c' = handled c @ requests_from i [x1, x2] \<and>
    http_written c' = http_written c @ [m_items (answer (request_in i x1))]"
proof -
  have n: "n + 10 = Suc (Suc (Suc (Suc (Suc (Suc (Suc (Suc (Suc (Suc n)))))))))" by simp
  have L: "m_limits (http_parser_ctx L) = L" by (simp add: http_parser_ctx_def)
  from answered_and_consumes [OF assms(1,2,4-7) refl, of "Suc (Suc (Suc n))"] obtain c1 where
    c1: "http_event env (n + 10) (ReadBytes d) c =
        catching (http_run env (Suc (Suc (Suc (Suc (Suc (Suc (Suc n))))))) (ConsumeData (drop k1 d)) c1) http_close"
      "writing (m_items (answer (request_in i x1))) (idle_coordinator (i + 1) (pending_context i [] kept_flags)) c1"
      "http_parser c1 = http_parser_init env" "m_parser_ctx c1 = http_parser_ctx L" "http_buf c1 = drop k1 d"
      "http_written c1 = http_written c @ [m_items (answer (request_in i x1))]" "handled c1 = handled c @ [request_in i x1]"
    unfolding n by (auto simp only: L)
  have "parses env (http_parser c1) (m_parser_ctx c1) (http_buf c1) k2 p2 x2" using assms(8) c1 by simp
  from second_queued [OF assms(1) c1(2) this assms(9,10) refl, of n] obtain c2 where
    c2: "http_run env (Suc (Suc (Suc (Suc (Suc (Suc (Suc n))))))) (ConsumeData (http_buf c1)) c1 = Returns c2"
      "writing (m_items (answer (request_in i x1))) (busy_coordinator (i + 1 + 1)
        (pending_context (i + 1) [answer (request_in (i + 1) x2)] kept_flags)) c2"
      "http_buf c2 = drop k2 (http_buf c1)" "m_parser_ctx c2 = left_of x2"
      "http_written c2 = http_written c1" "handled c2 = handled c1 @ [request_in (i + 1) x2]" by (elim exE conjE)
  have x0: "ctx_reset (m_parser_ctx c2) = http_parser_ctx L"
    using parses_limits [OF assms(8)] L by (simp add: c2(4) reset_left_of)
  have b2: "http_buf c2 = drop k2 (drop k1 d)" by (simp only: c2(3) c1(5))
  from third_closes [OF c2(2), unfolded b2, OF assms(11) x0 assms(12-14), of "Suc (Suc (Suc (Suc (Suc n))))"] obtain c3 where
    c3: "http_event env (n + 10) WriteEnds c2 = Returns c3" "\<not> socket_open c3" "http_written c3 = http_written c2"
      "handled c3 = handled c2" unfolding n by (elim exE conjE)
  have read: "http_event env (n + 10) (ReadBytes d) c = Returns c2" using c1(1,5) c2(1) by simp
  have "http_enabled (ReadBytes d) c" "http_enabled WriteEnds c2"
    using assms(2,3) c2(2) by (simp_all add: http_enabled_def reading_def writing_def)
  then show ?thesis using read c3 c1 c2 by (simp del: http_run.simps)
qed

section \<open>Properties\<close>

text \<open>
  C22: a session is answered. A connection with one slot and a handler that answers each request at
  once: when each request comes after the response to the one before it, in reads cut anywhere, every
  request is given to the handler once and in order, the answers are written in that order, each
  in one write, and the connection stays open.
\<close>

theorem session_answered:
  assumes "answers_at_once env answer"
    and "list_all2 (\<lambda>ds x. request_read env (http_parser_init env) (http_parser_ctx L) ds = Some x) rss xs"
  shows "\<exists>c. http_history env L (n + 7) 1 (concat (map exchange_events rss)) = Returns c \<and> socket_open c \<and>
    handled c = requests_from 0 xs \<and> http_written c = map (\<lambda>rq. m_items (answer rq)) (requests_from 0 xs)"
proof -
  have n: "n + 7 = Suc (Suc (Suc (Suc (Suc (Suc (Suc n))))))" by simp
  from init_reads obtain c0 where c0: "http_init env (n + 7) (http_connection env L 1) = Returns c0"
    "reading 0 (http_parser_init env) (http_parser_ctx L) c0" "http_written c0 = []" "handled c0 = []" unfolding n by blast
  from session_from [OF assms(1) c0(2) assms(2), of n] c0 show ?thesis
    unfolding http_history_def n by (auto simp del: http_run.simps)
qed

lemma echo_answers: "answers_at_once (sample_env echo_handler) (\<lambda>rq. write_group [raw (m_request_target (rq_header rq))])"
  by (simp add: answers_at_once_def sample_env_def echo_handler_def one_write_def write_group_def max_iov_len_def)

text \<open>The requests \<open>ab\<close> and \<open>c\<close>, the first in two reads.\<close>

definition sample_request :: "raw_data_t list \<Rightarrow> http_parser_ctx_t option" where
  "sample_request ds = request_read (sample_env echo_handler) (False, 0) (http_parser_ctx small_limits) ds"

lemma sample_requests:
  "map_option (\<lambda>x. m_request_target (ctx_header x)) (sample_request [raw ''a'', raw (''b'' @ [LF])]) = Some ''ab''"
  "map_option (\<lambda>x. m_request_target (ctx_header x)) (sample_request [raw (''c'' @ [LF])]) = Some ''c''"
  by code_simp+

theorem session_answered_witness:
  "\<exists>c. http_history (sample_env echo_handler) small_limits 7 1
      (concat (map exchange_events [[raw ''a'', raw (''b'' @ [LF])], [raw (''c'' @ [LF])]])) = Returns c \<and>
    http_written c = [[raw ''ab''], [raw ''c'']]"
proof -
  obtain x y where x: "sample_request [raw ''a'', raw (''b'' @ [LF])] = Some x" "m_request_target (ctx_header x) = ''ab''"
    and y: "sample_request [raw (''c'' @ [LF])] = Some y" "m_request_target (ctx_header y) = ''c''"
    using sample_requests by auto
  have "list_all2 (\<lambda>ds x. request_read (sample_env echo_handler) (http_parser_init (sample_env echo_handler))
      (http_parser_ctx small_limits) ds = Some x) [[raw ''a'', raw (''b'' @ [LF])], [raw (''c'' @ [LF])]] [x, y]"
    using x(1) y(1) by (simp add: sample_request_def sample_env_def)
  from session_answered [OF echo_answers this, of 0] x(2) y(2) show ?thesis
    by (auto simp: request_in_def write_group_def)
qed


text \<open>
  C23: requests that a client sends without waiting are lost. With the default of one pipelined request,
  when three requests come in one read: the first is answered; the second is given to the handler
  and its response waits; at the end of the first write, before that response is written, the
  connection goes on with the third, for which there is no slot. The exception closes the
  connection: the third request never reaches the handler, and the second's response is not written.
\<close>

theorem pipelined_requests_lost:
  assumes "answers_at_once env answer" and "d \<noteq> []"
    and "parses env (http_parser_init env) (http_parser_ctx L) d k1 p1 x1" "m_message_complete x1" "\<not> parser_upgrade env p1"
    and "drop k1 d \<noteq> []" "parses env (http_parser_init env) (http_parser_ctx L) (drop k1 d) k2 p2 x2"
      "m_message_complete x2" "\<not> parser_upgrade env p2"
    and "drop k2 (drop k1 d) \<noteq> []" "parses env (http_parser_init env) (http_parser_ctx L) (drop k2 (drop k1 d)) k3 p3 x3"
      "m_message_complete x3" "\<not> parser_upgrade env p3"
  shows "\<exists>c. http_history env L (n + 10) 1 [ReadBytes d, WriteEnds] = Returns c \<and> \<not> socket_open c \<and>
    handled c = requests_from 0 [x1, x2] \<and> http_written c = [m_items (answer (request_in 0 x1))]"
proof -
  obtain c0 where c0: "http_init env (n + 10) (http_connection env L 1) = Returns c0"
    "reading 0 (http_parser_init env) (http_parser_ctx L) c0" "http_written c0 = []" "handled c0 = []"
    by (rule starts_reading [of "n + 10" env L]) simp_all
  from three_requests [OF assms(1) c0(2) assms(2-), of n] c0 show ?thesis by (simp add: http_history_def)
qed

text \<open>The parser of the samples on the beginning of the data.\<close>

lemma sample_parses:
  assumes "http_parser_execute (sample_env echo_handler) p d = (k, p', es)" and "fst (run_callbacks es x) = 0"
  shows "parses (sample_env echo_handler) p x d k p' (snd (run_callbacks es x))"
  using assms by (auto simp: parses_def sample_env_def prod_eq_iff)

definition sample_line_events :: "char \<Rightarrow> parser_event list" where
  "sample_line_events ch = [OnUrl [ch], OnHeadersComplete None True, OnMessageComplete 1 (ch = CHR ''U'') True]"

definition sample_line :: "char \<Rightarrow> http_parser_ctx_t" where
  "sample_line ch = snd (run_callbacks (sample_line_events ch) (http_parser_ctx small_limits))"

lemma sample_line_parses:
  assumes "http_parser_execute (sample_env echo_handler) (False, 0) d = (k, p', sample_line_events ch)"
    and "fst (run_callbacks (sample_line_events ch) (http_parser_ctx small_limits)) = 0"
  shows "parses (sample_env echo_handler) (http_parser_init (sample_env echo_handler)) (http_parser_ctx small_limits) d k p' (sample_line ch)"
  using sample_parses [OF assms] by (simp add: sample_line_def sample_env_def)

lemma sample_lines:
  "m_message_complete (sample_line CHR ''a'')" "m_message_complete (sample_line CHR ''b'')"
  "m_message_complete (sample_line CHR ''U'')"
  "fst (run_callbacks (sample_line_events CHR ''a'') (http_parser_ctx small_limits)) = 0"
  "fst (run_callbacks (sample_line_events CHR ''b'') (http_parser_ctx small_limits)) = 0"
  "fst (run_callbacks (sample_line_events CHR ''U'') (http_parser_ctx small_limits)) = 0"
  "m_request_target (ctx_header (sample_line CHR ''a'')) = ''a''"
  by code_simp+

lemma sample_reads:
  "http_parser_execute (sample_env echo_handler) (False, 0) [0x61, 0x0A, 0x62, 0x0A, 0x61, 0x0A] =
    (2, (False, 2), sample_line_events CHR ''a'')"
  "http_parser_execute (sample_env echo_handler) (False, 0) [0x62, 0x0A, 0x61, 0x0A] =
    (2, (False, 2), sample_line_events CHR ''b'')"
  "http_parser_execute (sample_env echo_handler) (False, 0) [0x61, 0x0A] = (2, (False, 2), sample_line_events CHR ''a'')"
  "http_parser_execute (sample_env echo_handler) (False, 0) [0x61, 0x0A, 0x62] = (2, (False, 2), sample_line_events CHR ''a'')"
  "http_parser_execute (sample_env echo_handler) (False, 0) [0x62] = (1, (False, 1), [OnUrl ''b''])"
  "http_parser_execute (sample_env echo_handler) (False, 0) [0x55, 0x0A] = (2, (True, 2), sample_line_events CHR ''U'')"
  by code_simp+

theorem pipelined_requests_lost_witness:
  "\<exists>c. http_history (sample_env echo_handler) small_limits 10 1
      [ReadBytes [0x61, 0x0A, 0x62, 0x0A, 0x61, 0x0A], WriteEnds] = Returns c \<and> \<not> socket_open c \<and>
    length (handled c) = 2 \<and> http_written c = [[raw ''a'']]"
proof -
  have up: "\<not> parser_upgrade (sample_env echo_handler) (False, 2)" by (simp add: sample_env_def)
  note p1 = sample_line_parses [OF sample_reads(1) sample_lines(4)]
    and p2 = sample_line_parses [OF sample_reads(2) sample_lines(5)]
    and p3 = sample_line_parses [OF sample_reads(3) sample_lines(4)]
  from pipelined_requests_lost [OF echo_answers _ p1 sample_lines(1) up _ _ sample_lines(2) up _ _ sample_lines(1) up, of 2 2 0]
    p2 p3 show ?thesis by (auto simp: request_in_def sample_lines(7) write_group_def)
qed

text \<open>
  The beginning of a request can be lost. When the read that completes a request also holds the
  first bytes of the next, the end of the write of the first response starts the parser anew, and
  those bytes are gone: the next request consists of the bytes that come later alone.
\<close>

theorem request_beginning_lost:
  assumes "answers_at_once env answer"
    and "parses env (http_parser_init env) (http_parser_ctx L) d k p x" and "m_message_complete x" and "\<not> parser_upgrade env p"
    and "d \<noteq> []" and "drop k d \<noteq> []"
    and "parses env (http_parser_init env) (http_parser_ctx L) (drop k d) (length (drop k d)) p' x'" and "\<not> m_message_complete x'"
    and "m_chunked_info_block x' = empty_chunked_info"
    and "request_read env (http_parser_init env) (http_parser_ctx L) ds = Some y"
  shows "\<exists>c. http_history env L (n + 7) 1 ([ReadBytes d, WriteEnds] @ exchange_events ds) = Returns c \<and>
    handled c = [request_in 0 x, request_in 1 y] \<and>
    http_written c = [m_items (answer (request_in 0 x)), m_items (answer (request_in 1 y))]"
proof -
  have n: "n + 7 = Suc (Suc (Suc (Suc (Suc (Suc (Suc n))))))" by simp
  obtain c0 where c0: "http_init env (n + 7) (http_connection env L 1) = Returns c0"
    "reading 0 (http_parser_init env) (http_parser_ctx L) c0" "http_written c0 = []" "handled c0 = []"
    by (rule starts_reading [of "n + 7" env L]) simp_all
  from beginning_forgotten [OF assms(1) c0(2) assms(2-9), of n] obtain c1 where
    c1: "http_events env (n + 7) [ReadBytes d, WriteEnds] c0 = Returns c1"
      "reading (0 + 1) (http_parser_init env) (http_parser_ctx L) c1"
      "http_written c1 = http_written c0 @ [m_items (answer (request_in 0 x))]" "handled c1 = handled c0 @ [request_in 0 x]"
    unfolding n by (elim exE conjE)
  from one_exchange [OF assms(1) c1(2) assms(10), of n] c0 c1 show ?thesis
    unfolding http_history_def http_events_append n [symmetric] by (auto simp del: http_run.simps http_events.simps)
qed

theorem request_beginning_lost_witness:
  "\<exists>c. http_history (sample_env echo_handler) small_limits 7 1
      ([ReadBytes [0x61, 0x0A, 0x62], WriteEnds] @ exchange_events [raw (''c'' @ [LF])]) = Returns c \<and>
    http_written c = [[raw ''a''], [raw ''c'']]"
proof -
  let ?x = "snd (run_callbacks [OnUrl ''b''] (http_parser_ctx small_limits))"
  have up: "\<not> parser_upgrade (sample_env echo_handler) (False, 2)" by (simp add: sample_env_def)
  have b: "fst (run_callbacks [OnUrl ''b''] (http_parser_ctx small_limits)) = 0" "\<not> m_message_complete ?x"
    "m_chunked_info_block ?x = empty_chunked_info" by code_simp+
  obtain y where y: "sample_request [raw (''c'' @ [LF])] = Some y" "m_request_target (ctx_header y) = ''c''"
    using sample_requests by auto
  have r: "request_read (sample_env echo_handler) (http_parser_init (sample_env echo_handler)) (http_parser_ctx small_limits)
      [raw (''c'' @ [LF])] = Some y" using y(1) by (simp add: sample_request_def sample_env_def)
  have p2: "parses (sample_env echo_handler) (http_parser_init (sample_env echo_handler)) (http_parser_ctx small_limits)
      (drop 2 [0x61, 0x0A, 0x62]) (length (drop 2 [0x61, 0x0A, 0x62 :: 8 word])) (False, 1) ?x"
    using sample_parses [OF sample_reads(5) b(1)] by (simp add: sample_env_def)
  from request_beginning_lost [OF echo_answers sample_line_parses [OF sample_reads(4) sample_lines(4)] sample_lines(1) up
      _ _ p2 b(2,3) r, of 0] y(2)
  show ?thesis by (auto simp: request_in_def sample_lines(7) write_group_def)
qed

text \<open>
  C24: an upgrade request that is answered in HTTP, as any server does that has nothing to upgrade
  to, is given to the handler again at the end of every write: after \<open>m\<close> writes there are \<open>m + 1\<close> responses
  to one request. Each later call sees a moved-from header: its target is empty, but the
  position of the query separator is still that of the first.
\<close>

theorem upgrade_answered_again:
  assumes "answers_at_once env answer" and "d \<noteq> []"
    and "parses env (http_parser_init env) (http_parser_ctx L) d k p x" and "m_message_complete x" and "parser_upgrade env p"
  shows "\<exists>c again. http_history env L (n + 8) 1 (ReadBytes d # replicate m WriteEnds) = Returns c \<and>
    handled c = request_in 0 x # again \<and> length again = m \<and>
    http_written c = map (\<lambda>rq. m_items (answer rq)) (request_in 0 x # again) \<and>
    (\<forall>rq \<in> set again. m_request_target (rq_header rq) = [] \<and>
      m_query_separator_pos (rq_header rq) = m_query_separator_pos (ctx_header x))"
proof -
  have n: "n + 8 = Suc (Suc (Suc (Suc (Suc (Suc (Suc (Suc n)))))))" by simp
  obtain c0 where c0: "http_init env (n + 8) (http_connection env L 1) = Returns c0"
    "reading 0 (http_parser_init env) (http_parser_ctx L) c0" "http_written c0 = []" "handled c0 = []"
    by (rule starts_reading [of "n + 8" env L]) simp_all
  from upgrade_read [OF assms(1) c0(2) assms(3-5) refl, of n] obtain c1 where
    c1: "http_event env (n + 8) (ReadBytes d) c0 = Returns c1" "upgrade_answered (0 + 1) (left_of x) c1"
      "http_written c1 = http_written c0 @ [m_items (answer (request_in 0 x))]" "handled c1 = handled c0 @ [request_in 0 x]"
    unfolding n by (elim exE conjE)
  from upgrade_repeats [OF assms(1) c1(2), of n m] obtain c2 where
    c2: "http_events env (n + 8) (replicate m WriteEnds) c1 = Returns c2"
      "http_written c2 = http_written c1 @ map (\<lambda>rq. m_items (answer rq)) (upgrade_requests (0 + 1) (left_of x) m)"
      "handled c2 = handled c1 @ upgrade_requests (0 + 1) (left_of x) m"
    unfolding n by (elim exE conjE)
  have en: "http_enabled (ReadBytes d) c0" using c0(2) assms(2) by (simp add: http_enabled_def reading_def)
  have moved: "\<forall>rq \<in> set (upgrade_requests (0 + 1) (left_of x) m). m_request_target (rq_header rq) = [] \<and>
      m_query_separator_pos (rq_header rq) = m_query_separator_pos (ctx_header x)"
    using upgrade_requests_moved [of "left_of x"] by (auto simp: left_of_header moved_from_header_def)
  have "http_history env L (n + 8) 1 (ReadBytes d # replicate m WriteEnds) = Returns c2"
    using c0(1) c1(1) c2(1) en by (simp add: http_history_def del: http_run.simps)
  moreover have "handled c2 = request_in 0 x # upgrade_requests (0 + 1) (left_of x) m" using c0 c1 c2 by simp
  moreover have "http_written c2 =
      map (\<lambda>rq. m_items (answer rq)) (request_in 0 x # upgrade_requests (0 + 1) (left_of x) m)" using c0 c1 c2 by simp
  ultimately show ?thesis using moved
    by (intro exI [of _ c2] exI [of _ "upgrade_requests (0 + 1) (left_of x) m"]) simp
qed

theorem upgrade_answered_again_witness:
  "\<exists>c. http_history (sample_env echo_handler) small_limits 8 1 [ReadBytes [0x55, 0x0A], WriteEnds, WriteEnds] = Returns c \<and>
    length (handled c) = 3"
proof -
  have "parser_upgrade (sample_env echo_handler) (True, 2)" by (simp add: sample_env_def)
  from upgrade_answered_again [OF echo_answers _ sample_line_parses [OF sample_reads(6) sample_lines(6)] sample_lines(3) this,
      of 0 2]
  show ?thesis by (auto simp: numeral_2_eq_2)
qed

end
