(* ===== verification/RioReturns.thy ===== *)
theory RioReturns
  imports RioSession
begin

text \<open>
  Every callback of an HTTP connection of RESTinio ends: the functions of \<open>connection.hpp\<close> call
  each other without a bound, but when the parser consumes something of the first data of a request
  and no group of a response is empty, enough fuel gives a result, and more fuel gives the same. It
  is a return, or the failure of the \<open>assert\<close> in \<open>init_write_if_necessary\<close>; the latter needs a response
  that closes the connection, and \<open>refusal_ends_process\<close> shows one.
\<close>

section \<open>Fuel\<close>

text \<open>
  A result that a function of the fuel has from some amount on, and that satisfies \<open>P\<close>; with \<open>q\<close> it
  is not a failed \<open>assert\<close>.
\<close>

definition settled :: "bool \<Rightarrow> (nat \<Rightarrow> 'c flow_t) \<Rightarrow> ('c \<Rightarrow> bool) \<Rightarrow> bool" where
  "settled q F P \<longleftrightarrow> (\<exists>r n. (\<forall>m \<ge> n. F m = r) \<and> r \<noteq> OutOfFuel \<and> (q \<longrightarrow> r \<noteq> Aborts) \<and> flow_all P r)"

lemma settled_returns [intro]: "P c \<Longrightarrow> settled q (\<lambda>m. Returns c) P"
  by (auto simp: settled_def)

lemma settled_raises [intro]: "P c \<Longrightarrow> settled q (\<lambda>m. Raises c) P"
  by (auto simp: settled_def)

lemma settled_aborts [intro]: "\<not> q \<Longrightarrow> settled q (\<lambda>m. Aborts) P"
  by (auto simp: settled_def)

lemma settled_if [intro]: "(b \<Longrightarrow> settled q F P) \<Longrightarrow> (\<not> b \<Longrightarrow> settled q G P) \<Longrightarrow> settled q (\<lambda>m. if b then F m else G m) P"
  by (cases b) simp_all

lemma flow_all_weaken: "flow_all P r \<Longrightarrow> (\<And>c. P c \<Longrightarrow> Q c) \<Longrightarrow> flow_all Q r"
  by (cases r) simp_all

lemma settled_weaken: "settled q F P \<Longrightarrow> (\<And>c. P c \<Longrightarrow> Q c) \<Longrightarrow> settled q F Q"
  unfolding settled_def by (metis (no_types, lifting) flow_all_weaken)

lemma settled_and_then:
  assumes "settled q F Q" and "\<And>c. Q c \<Longrightarrow> P c" and "\<And>c. Q c \<Longrightarrow> settled q (\<lambda>m. G m c) P"
  shows "settled q (\<lambda>m. and_then (F m) (G m)) P"
proof -
  obtain r n where r: "\<forall>m \<ge> n. F m = r" "r \<noteq> OutOfFuel" "flow_all Q r" "q \<longrightarrow> r \<noteq> Aborts"
    using assms(1) by (auto simp: settled_def)
  show ?thesis
  proof (cases r)
    case (Returns c)
    then obtain s k where s: "\<forall>m \<ge> k. G m c = s" "s \<noteq> OutOfFuel" "flow_all P s" "q \<longrightarrow> s \<noteq> Aborts"
      using assms(3) [of c] r(3) by (auto simp: settled_def)
    have "\<forall>m \<ge> max n k. and_then (F m) (G m) = s" using r(1) s(1) Returns by simp
    with s(2-4) show ?thesis unfolding settled_def by blast
  next
    case (Raises c)
    then have "\<forall>m \<ge> n. and_then (F m) (G m) = Raises c" using r(1) by simp
    moreover have "P c" using r(3) Raises assms(2) by simp
    ultimately show ?thesis unfolding settled_def by (intro exI [of _ "Raises c"] exI [of _ n]) simp
  next
    case Aborts
    then have "\<forall>m \<ge> n. and_then (F m) (G m) = Aborts" using r(1) by simp
    then show ?thesis using Aborts r(4) unfolding settled_def by (intro exI [of _ Aborts] exI [of _ n]) simp
  qed (use r(2) in simp)
qed

lemma settled_catching:
  assumes "settled q F P" and "\<And>c. P c \<Longrightarrow> P (f c)"
  shows "settled q (\<lambda>m. catching (F m) f) P"
proof -
  obtain r n where r: "\<forall>m \<ge> n. F m = r" "r \<noteq> OutOfFuel" "flow_all P r" "q \<longrightarrow> r \<noteq> Aborts"
    using assms(1) by (auto simp: settled_def)
  have "\<forall>m \<ge> n. catching (F m) f = catching r f" using r(1) by simp
  moreover have "catching r f \<noteq> OutOfFuel" "flow_all P (catching r f)" "q \<longrightarrow> catching r f \<noteq> Aborts"
    using r(2-4) assms(2) by (cases r; simp)+
  ultimately show ?thesis unfolding settled_def by blast
qed

text \<open>A call settles when its body does.\<close>

lemma settled_call:
  assumes "settled q (\<lambda>m. http_call_body env (http_run env m) k c) P"
  shows "settled q (\<lambda>m. http_run env m k c) P"
proof -
  obtain r n where r: "\<forall>m \<ge> n. http_call_body env (http_run env m) k c = r" "r \<noteq> OutOfFuel" "flow_all P r"
      "q \<longrightarrow> r \<noteq> Aborts"
    using assms by (auto simp: settled_def)
  have "\<forall>m \<ge> Suc n. http_run env m k c = r"
  proof (intro allI impI)
    fix m assume "Suc n \<le> m"
    then obtain m' where "m = Suc m'" "n \<le> m'" by (cases m) auto
    then show "http_run env m k c = r" using r(1) by simp
  qed
  with r(2-4) show ?thesis unfolding settled_def by blast
qed

section \<open>The parts of responses\<close>

text \<open>
  No group is empty. With \<open>keeps\<close>, no response closes the connection either: the flags of none say
  so, and the coordinator has not given out the end of one that does.
\<close>

definition part_fits :: "bool \<Rightarrow> response_output_flags_t \<Rightarrow> http_write_group_t \<Rightarrow> bool" where
  "part_fits keeps fl wg \<longleftrightarrow> m_items wg \<noteq> [] \<and> (keeps \<longrightarrow> connection_close \<noteq> m_response_connection fl)"

definition context_fits :: "bool \<Rightarrow> response_context_t \<Rightarrow> bool" where
  "context_fits keeps ctx \<longleftrightarrow> (\<forall>wg \<in> set (m_write_groups ctx). m_items wg \<noteq> []) \<and>
     (keeps \<longrightarrow> connection_close \<noteq> m_response_connection (m_response_output_flags ctx))"

definition coordinator_fits :: "bool \<Rightarrow> response_coordinator_t \<Rightarrow> bool" where
  "coordinator_fits keeps co \<longleftrightarrow>
     m_first_element_index (m_context_table co) < length (m_contexts (m_context_table co)) \<and>
     (\<forall>ctx \<in> set (m_contexts (m_context_table co)). context_fits keeps ctx) \<and>
     (keeps \<longrightarrow> \<not> coordinator_closed co)"

lemma fits_new: "0 < n \<Longrightarrow> coordinator_fits q (response_coordinator n)"
  by (simp add: coordinator_fits_def response_coordinator_def response_context_table_def new_context_def context_fits_def
      initial_flags_def coordinator_closed_def)

lemma fits_update:
  assumes "coordinator_fits q co" and "context_fits q ctx"
  shows "coordinator_fits q (co\<lparr>m_context_table := (m_context_table co)
    \<lparr>m_contexts := (m_contexts (m_context_table co))[i := ctx]\<rparr>\<rparr>)"
  using assms by (auto simp: coordinator_fits_def coordinator_closed_def dest: set_update_subset_insert [THEN subsetD])

lemma fits_fields [simp]:
  "coordinator_fits q (co\<lparr>m_context_table := (m_context_table co)\<lparr>m_elements_exists := e\<rparr>\<rparr>) = coordinator_fits q co"
  "coordinator_fits q (co\<lparr>m_request_id_counter := j\<rparr>) = coordinator_fits q co"
  by (simp_all add: coordinator_fits_def coordinator_closed_def)

text \<open>The context at an index in the table.\<close>

lemma fits_nth: "coordinator_fits q co \<Longrightarrow> i < length (m_contexts (m_context_table co)) \<Longrightarrow>
    context_fits q (m_contexts (m_context_table co) ! i)"
  by (simp add: coordinator_fits_def)

lemma fits_index: "coordinator_fits q co \<Longrightarrow> i mod length (m_contexts (m_context_table co)) < length (m_contexts (m_context_table co))"
  by (auto simp: coordinator_fits_def intro: mod_less_divisor)

lemma fits_register:
  assumes "coordinator_fits q co" and "register_new_request co = Inr (i, co')"
  shows "coordinator_fits q co'"
proof -
  let ?t = "m_context_table co"
  let ?i = "(m_first_element_index ?t + m_elements_exists ?t) mod length (m_contexts ?t)"
  let ?x = "reinit (m_request_id_counter co) (m_contexts ?t ! ?i)"
  have "co' = (co\<lparr>m_context_table := (?t\<lparr>m_contexts := (m_contexts ?t)[?i := ?x]\<rparr>)
      \<lparr>m_elements_exists := m_elements_exists ?t + 1\<rparr>\<rparr>)\<lparr>m_request_id_counter := m_request_id_counter co + 1\<rparr>"
    using assms(2) by (auto simp: register_new_request_def push_response_context_def Let_def split: if_splits)
  moreover have "context_fits q ?x"
    using fits_nth [OF assms(1) fits_index [OF assms(1)]] by (auto simp: reinit_def context_fits_def initial_flags_def)
  ultimately show ?thesis using fits_update [OF assms(1), of ?x ?i] by (simp add: coordinator_fits_def coordinator_closed_def)
qed

lemma fits_append:
  assumes "coordinator_fits q co" and "part_fits q fl wg" and "append_response i fl wg co = Inr co'"
  shows "coordinator_fits q co'"
proof -
  let ?t = "m_context_table co"
  obtain j where j: "get_by_req_id i ?t = Some j"
    "co' = co\<lparr>m_context_table := ?t\<lparr>m_contexts := (m_contexts ?t)[j := enqueue_group wg ((m_contexts ?t ! j)\<lparr>m_response_output_flags := fl\<rparr>)]\<rparr>\<rparr>"
    using assms(3) by (auto simp: append_response_def Let_def split: if_splits option.splits)
  have "j < length (m_contexts ?t)"
    using j(1) fits_index [OF assms(1)] by (auto simp: get_by_req_id_def get_real_index_def Let_def split: if_splits)
  note old = fits_nth [OF assms(1) this]
  have "context_fits q (enqueue_group wg ((m_contexts ?t ! j)\<lparr>m_response_output_flags := fl\<rparr>))"
    using old assms(2) by (auto simp: context_fits_def part_fits_def enqueue_group_def merge_group_def dest: in_set_butlastD)
  from fits_update [OF assms(1) this] show ?thesis by (simp add: j(2))
qed

lemma fits_first: "coordinator_fits q co \<Longrightarrow> coordinator_fits q (co\<lparr>m_context_table := pop_response_context_nonchecked (m_context_table co)\<rparr>)"
  by (auto simp: coordinator_fits_def coordinator_closed_def pop_response_context_nonchecked_def Let_def)

lemma fits_pop:
  assumes "coordinator_fits q co" and "coord_pop_ready_buffers co = Inr (p, co')"
  shows "coordinator_fits q co'" and "p = Some (wg, i) \<Longrightarrow> m_items wg \<noteq> []"
proof -
  let ?t = "m_context_table co"
  let ?f = "m_first_element_index ?t"
  let ?c = "m_contexts ?t ! ?f"
  let ?x = "?c\<lparr>m_write_groups := tl (m_write_groups ?c)\<rparr>"
  let ?co = "co\<lparr>m_context_table := ?t\<lparr>m_contexts := (m_contexts ?t)[?f := ?x]\<rparr>\<rparr>"
  have f: "?f < length (m_contexts ?t)" using assms(1) by (simp add: coordinator_fits_def)
  note old = fits_nth [OF assms(1) f]
  then have x: "context_fits q ?x" by (cases "m_write_groups ?c") (auto simp: context_fits_def)
  from fits_update [OF assms(1) this] have co: "coordinator_fits q ?co" .
  have kept: "q \<longrightarrow> connection_close \<noteq> m_response_connection (m_response_output_flags ?c)" using old by (simp add: context_fits_def)
  have closed: "coordinator_fits q (c\<lparr>m_connection_closed_response_occured := b\<rparr>)" if "coordinator_fits q c" "q \<longrightarrow> \<not> b" for c b
    using that by (simp add: coordinator_fits_def coordinator_closed_def)
  show "coordinator_fits q co'"
    using assms co closed [OF fits_first [OF co]] kept
    by (auto simp: coord_pop_ready_buffers_def dequeue_group_def table_front_def pop_response_context_def Let_def split: if_splits)
  show "p = Some (wg, i) \<Longrightarrow> m_items wg \<noteq> []"
    using assms(2) old
    by (auto simp: coord_pop_ready_buffers_def dequeue_group_def table_front_def pop_response_context_def context_empty_def
        context_fits_def Let_def split: if_splits)
qed

lemma fits_reset_table: "coordinator_fits q co \<Longrightarrow> coordinator_fits q (co\<lparr>m_context_table := snd (reset_table (m_context_table co))\<rparr>)"
proof (induction "m_context_table co" arbitrary: co rule: reset_table.induct)
  case 1
  let ?t = "m_context_table co"
  let ?f = "m_first_element_index ?t"
  show ?case
  proof (cases "table_empty ?t")
    case True
    then show ?thesis using 1(2) by (simp add: reset_table.simps)
  next
    case False
    let ?u = "?t\<lparr>m_contexts := (m_contexts ?t)[?f := (table_front ?t)\<lparr>m_write_groups := []\<rparr>]\<rparr>"
    have "?f < length (m_contexts ?t)" using 1(2) by (simp add: coordinator_fits_def)
    from fits_nth [OF 1(2) this] have "context_fits q ((table_front ?t)\<lparr>m_write_groups := []\<rparr>)"
      by (simp add: context_fits_def table_front_def)
    then have "coordinator_fits q (co\<lparr>m_context_table := ?u\<rparr>)" by (rule fits_update [OF 1(2)])
    from fits_first [OF this] have g: "coordinator_fits q (co\<lparr>m_context_table := pop_response_context_nonchecked ?u\<rparr>)" by simp
    have "coordinator_fits q ((co\<lparr>m_context_table := pop_response_context_nonchecked ?u\<rparr>)
        \<lparr>m_context_table := snd (reset_table (pop_response_context_nonchecked ?u))\<rparr>)"
      using 1(1) [OF False refl refl, of "co\<lparr>m_context_table := pop_response_context_nonchecked ?u\<rparr>"] g by simp
    then show ?thesis using False by (simp add: reset_table.simps [of ?t] Let_def case_prod_beta)
  qed
qed

lemma fits_reset: "coordinator_fits q co \<Longrightarrow> coordinator_fits q (snd (coordinator_reset co))"
  using fits_reset_table [of q co] by (simp add: coordinator_reset_def case_prod_beta)

section \<open>What the calls keep\<close>

text \<open>
  The groups that wait fit, and at most \<open>k\<close> bytes are buffered. Either nothing is left of
  an earlier group when none is being written, or the socket is closed, as after a failed write.
\<close>

definition conn_ready :: "bool \<Rightarrow> bool \<Rightarrow> nat \<Rightarrow> 'p http_connection_t \<Rightarrow> bool" where
  "conn_ready q f k c \<longleftrightarrow> coordinator_fits q (m_response_coordinator c) \<and> length (http_buf c) \<le> k \<and>
     (if f then \<not> transmitting (http_write_ctx c) \<longrightarrow> m_next_writable_item_index (http_write_ctx c) = 0
      else \<not> socket_open c)"

lemma conn_ready_weaken: "conn_ready q f k c \<Longrightarrow> k \<le> j \<Longrightarrow> conn_ready q f j c"
  by (simp add: conn_ready_def)

lemma conn_ready_steps [simp]:
  "conn_ready q f k (http_guard_read_operation env c) = conn_ready q f k c" "conn_ready q f k (guard_request_handling_operation env c) = conn_ready q f k c"
  "conn_ready q f k (reset_http_parser env c) = conn_ready q f k c" "conn_ready q f k (consume_message c) = conn_ready q f k c"
  "conn_ready q f k (cancel_timeout_checking c) = conn_ready q f k c" "conn_ready q f k (init_next_timeout_checking c) = conn_ready q f k c"
  "conn_ready q f k (http_trivial_write_operation env bufs c) = conn_ready q f k c" "conn_ready q f k (logged op ws c) = conn_ready q f k c"
  "conn_ready q f k (c\<lparr>m_init_read_after_this_write := b\<rparr>) = conn_ready q f k c"
  "conn_ready q f k (c\<lparr>m_connection_upgrade_stage := st\<rparr>) = conn_ready q f k c" "conn_ready q f k (c\<lparr>handled := hs\<rparr>) = conn_ready q f k c"
  "conn_ready q f k (c\<lparr>m_parser_ctx := x'\<rparr>) = conn_ready q f k c" "conn_ready q f k (c\<lparr>http_writes_pending := w\<rparr>) = conn_ready q f k c"
  "conn_ready q f k (c\<lparr>http_clock := t\<rparr>) = conn_ready q f k c"
  by (simp_all add: conn_ready_def http_guard_read_operation_def guard_request_handling_operation_def reset_http_parser_def
      consume_message_def cancel_timeout_checking_def init_next_timeout_checking_def http_trivial_write_operation_def
      http_guard_write_operation_def schedule_operation_timeout_callback_def logged_def Let_def)

lemma conn_ready_moves: "conn_ready q f k c \<Longrightarrow> conn_ready q f k (c\<lparr>socket_open := False, socket_moved := b\<rparr>)"
  by (simp add: conn_ready_def split: if_splits)

lemma conn_ready_close: "conn_ready q f k c \<Longrightarrow> conn_ready q f k (http_close c)"
  by (simp add: conn_ready_def http_close_def cancel_timeout_checking_def fits_reset Let_def split: if_splits)

lemma conn_ready_register: "conn_ready q f k c \<Longrightarrow> register_request c = Inr (i, c') \<Longrightarrow> conn_ready q f k c'"
  by (auto simp: conn_ready_def register_request_def logged_def intro: fits_register split: sum.splits if_splits)

lemma conn_ready_append: "conn_ready q f k c \<Longrightarrow> part_fits q fl wg \<Longrightarrow> append_to_response i fl wg c = Returns c' \<Longrightarrow> conn_ready q f k c'"
  by (auto simp: conn_ready_def append_to_response_def logged_def intro: fits_append split: sum.splits if_splits)

lemma conn_ready_next:
  assumes "conn_ready q f k c" and "next_write_group c = Inr (p, c')"
  shows "conn_ready q f k c'" and "p = Some (wg, i) \<Longrightarrow> m_items wg \<noteq> []" and "http_write_ctx c' = http_write_ctx c"
  using assms fits_pop [of q "m_response_coordinator c" p]
  by (auto simp: conn_ready_def next_write_group_def logged_def split: sum.splits if_splits)

lemma conn_ready_take: "conn_ready q f k c \<Longrightarrow> take_request i c = (rq, c') \<Longrightarrow> conn_ready q f k c'"
  by (auto simp: conn_ready_def take_request_eq)

lemma conn_ready_idle: "conn_ready q f k c \<Longrightarrow> conn_ready q f k (handle_nothing_to_write env c)"
  by (simp add: handle_nothing_to_write_def conn_ready_close)

lemma conn_ready_parsed:
  "conn_ready q f k c \<Longrightarrow> conn_ready q f (length (http_buf c) - n) (c\<lparr>http_parser := p, m_parser_ctx := x, http_buf := drop n (http_buf c)\<rparr>)"
  by (simp add: conn_ready_def)

lemma conn_ready_writing: "conn_ready q f k c \<Longrightarrow> transmitting x \<Longrightarrow> conn_ready q f k (c\<lparr>http_write_ctx := x\<rparr>)"
  by (simp add: conn_ready_def)

lemma conn_ready_finished: "conn_ready q f k c \<Longrightarrow> conn_ready q f k (c\<lparr>http_write_ctx := finish_write_group x\<rparr>)"
  by (simp add: conn_ready_def finish_write_group_def)

text \<open>The parser, when it begins a request, consumes something of the data or fails.\<close>

definition progresses :: "'p http_env \<Rightarrow> bool" where
  "progresses env \<longleftrightarrow> (\<forall>data k p es. http_parser_execute env (http_parser_init env) data = (k, p, es) \<longrightarrow>
     data \<noteq> [] \<longrightarrow> 0 < k \<or> parser_failed env p)"

text \<open>What the handler writes fits; with \<open>keeps\<close> it refuses no request, since a refusal closes the connection.\<close>

definition action_fits :: "bool \<Rightarrow> http_action \<Rightarrow> bool" where
  "action_fits keeps a = (case a of WriteParts i fl wg \<Rightarrow> part_fits keeps fl wg | MoveSocket \<Rightarrow> True)"

definition answers_fit :: "bool \<Rightarrow> 'p http_env \<Rightarrow> bool" where
  "answers_fit keeps env \<longleftrightarrow> (\<forall>reqs. list_all (action_fits keeps) (outcome_actions (m_request_handler env reqs)) \<and>
     (keeps \<longrightarrow> (\<forall>st. outcome_status (m_request_handler env reqs) = Some st \<longrightarrow> st = status_accepted)))"

section \<open>Calls return\<close>

text \<open>Starting a write, when none is running.\<close>

lemma start_settles:
  assumes "conn_ready q True k c" and "m_items wg \<noteq> []" and "\<not> transmitting (http_write_ctx c)"
  shows "settled q (\<lambda>m. http_run env m HandleCurrentWriteCtx
    (c\<lparr>m_init_read_after_this_write := b, http_write_ctx := start_next_write_group (Some (m_items wg)) (http_write_ctx c)\<rparr>)) (conn_ready q True k)"
proof (rule settled_call)
  let ?x = "start_next_write_group (Some (m_items wg)) (http_write_ctx c)"
  let ?c = "c\<lparr>m_init_read_after_this_write := b, http_write_ctx := ?x\<rparr>"
  obtain bufs y where y: "extract_next_write_operation ?x = (trivial_write_operation bufs, y)" "transmitting y"
    using assms by (auto simp: conn_ready_def extract_next_write_operation_def start_next_write_group_def transmitting_def)
  have "conn_ready q True k (?c\<lparr>http_write_ctx := y\<rparr>)"
    using assms(1) y(2) by (simp add: conn_ready_def)
  then have "settled q (\<lambda>m. Returns (http_trivial_write_operation env bufs (?c\<lparr>http_write_ctx := y\<rparr>))) (conn_ready q True k)"
    by (intro settled_returns) simp
  then show "settled q (\<lambda>m. http_call_body env (http_run env m) HandleCurrentWriteCtx ?c) (conn_ready q True k)"
    by (simp add: http_call_body_def http_handle_current_write_ctx_def y(1))
qed

lemma init_write_settles:
  assumes "conn_ready q True k c"
  shows "settled q (\<lambda>m. http_run env m InitWriteIfNecessary c) (conn_ready q True k)"
proof (rule settled_call, cases "coordinator_closed (m_response_coordinator c) \<or> transmitting (http_write_ctx c)")
  case True
  have "coordinator_closed (m_response_coordinator c) \<Longrightarrow> \<not> q" using assms by (auto simp: conn_ready_def coordinator_fits_def)
  then show "settled q (\<lambda>m. http_call_body env (http_run env m) InitWriteIfNecessary c) (conn_ready q True k)"
    using True assms
    by (cases "coordinator_closed (m_response_coordinator c)") (auto simp: http_call_body_def http_init_write_if_necessary_def)
next
  case False
  show "settled q (\<lambda>m. http_call_body env (http_run env m) InitWriteIfNecessary c) (conn_ready q True k)"
  proof (cases "next_write_group c")
    case (Inl d)
    then show ?thesis using assms False refused_unchanged(2) [OF Inl]
      by (auto simp: http_call_body_def http_init_write_if_necessary_def)
  next
    case (Inr r)
    obtain p d where r: "next_write_group c = Inr (p, d)" using Inr by (cases r) auto
    note d = conn_ready_next [OF assms r]
    show ?thesis
    proof (cases p)
      case None
      then show ?thesis using False d(1)
        by (auto simp: http_call_body_def http_init_write_if_necessary_def r intro!: conn_ready_idle)
    next
      case (Some q)
      obtain wg i where q: "p = Some (wg, i)" using Some by (cases q) auto
      show ?thesis using start_settles [OF d(1) d(2) [OF q]] False d(3)
        by (simp add: http_call_body_def http_init_write_if_necessary_def r q)
    qed
  qed
qed

text \<open>A call settles in every state with at most \<open>k\<close> bytes buffered.\<close>

definition settles :: "'p http_env \<Rightarrow> bool \<Rightarrow> bool \<Rightarrow> nat \<Rightarrow> http_call \<Rightarrow> bool" where
  "settles env q f k call \<longleftrightarrow> (\<forall>c. conn_ready q f k c \<longrightarrow> settled q (\<lambda>m. http_run env m call c) (conn_ready q f k))"

lemma settlesI: "(\<And>c. conn_ready q f k c \<Longrightarrow> settled q (\<lambda>m. http_call_body env (http_run env m) call c) (conn_ready q f k)) \<Longrightarrow> settles env q f k call"
  by (simp add: settles_def settled_call)

lemma settlesD: "settles env q f k call \<Longrightarrow> conn_ready q f k c \<Longrightarrow> settled q (\<lambda>m. http_run env m call c) (conn_ready q f k)"
  by (simp add: settles_def)

text \<open>Data that completes a request leads to \<open>on_request_message_complete\<close> with \<open>j\<close> bytes left.\<close>

lemma consume_settles:
  assumes "conn_ready q f k c" and "settles env q f j OnRequestMessageComplete" and "j \<le> k"
    and "\<And>n p es. http_parser_execute env (http_parser c) (http_buf c) = (n, p, es) \<Longrightarrow> \<not> parser_failed env p \<Longrightarrow>
      length (http_buf c) - n \<le> j"
  shows "settled q (\<lambda>m. http_run env m (ConsumeData (http_buf c)) c) (conn_ready q f k)"
proof (rule settled_call)
  obtain n p es where e: "http_parser_execute env (http_parser c) (http_buf c) = (n, p, es)"
    by (cases "http_parser_execute env (http_parser c) (http_buf c)") auto
  obtain r x where r: "run_callbacks es (m_parser_ctx c) = (r, x)" by (cases "run_callbacks es (m_parser_ctx c)") auto
  let ?c = "c\<lparr>http_parser := p, m_parser_ctx := x, http_buf := drop n (http_buf c)\<rparr>"
  have c: "conn_ready q f (length (http_buf c) - n) ?c" by (rule conn_ready_parsed [OF assms(1)])
  have k: "length (http_buf c) \<le> k" using assms(1) by (simp add: conn_ready_def)
  then have ck: "conn_ready q f k ?c" using conn_ready_weaken [OF c] by simp
  show "settled q (\<lambda>m. http_call_body env (http_run env m) (ConsumeData (http_buf c)) c) (conn_ready q f k)"
  proof (cases "parser_failed env p \<or> r \<noteq> 0")
    case True
    then show ?thesis using conn_ready_close [OF ck] by (auto simp: http_call_body_def consume_data_def e r Let_def)
  next
    case ok: False
    then have "conn_ready q f j ?c" using conn_ready_weaken [OF c] assms(4) [OF e] by simp
    from settlesD [OF assms(2) this] have "settled q (\<lambda>m. http_run env m OnRequestMessageComplete ?c) (conn_ready q f k)"
      by (rule settled_weaken) (use assms(3) in \<open>auto intro: conn_ready_weaken\<close>)
    moreover have "conn_ready q f k (consume_message ?c)" using ck by simp
    ultimately have "settled q (\<lambda>m. if m_message_complete x then http_run env m OnRequestMessageComplete ?c
      else Returns (consume_message ?c)) (conn_ready q f k)" by (intro settled_if settled_returns)
    then show ?thesis using ok by (simp add: http_call_body_def consume_data_def e r Let_def)
  qed
qed

text \<open>When the parser begins anew it leaves fewer bytes.\<close>

lemma wait_settles:
  fixes env :: "'p http_env"
  assumes "progresses env" and "\<And>j. j < k \<Longrightarrow> settles env q f j OnRequestMessageComplete"
  shows "settles env q f k WaitForHttpMessage"
proof (rule settlesI)
  fix c :: "'p http_connection_t"
  assume c: "conn_ready q f k c"
  let ?c = "http_guard_read_operation env (reset_http_parser env c)"
  have d: "conn_ready q f k ?c" using c by simp
  show "settled q (\<lambda>m. http_call_body env (http_run env m) WaitForHttpMessage c) (conn_ready q f k)"
  proof (cases "http_buf ?c = []")
    case True
    moreover have "conn_ready q f k (consume_message ?c)" using d by simp
    ultimately show ?thesis by (auto simp: http_call_body_def wait_for_http_message_def Let_def simp del: conn_ready_steps)
  next
    case False
    then have "0 < length (http_buf ?c)" by simp
    moreover have "length (http_buf ?c) \<le> k" using d by (simp add: conn_ready_def)
    ultimately have less: "length (http_buf ?c) - 1 < k" by linarith
    have init: "http_parser ?c = http_parser_init env"
      by (simp add: http_guard_read_operation_def schedule_operation_timeout_callback_def reset_http_parser_def)
    have pos: "0 < n" if "http_parser_execute env (http_parser ?c) (http_buf ?c) = (n, p, es)" "\<not> parser_failed env p" for n p es
      using assms(1) False that unfolding progresses_def init by blast
    have "length (http_buf ?c) - n \<le> length (http_buf ?c) - 1"
      if "http_parser_execute env (http_parser ?c) (http_buf ?c) = (n, p, es)" "\<not> parser_failed env p" for n p es
      using pos [OF that] by linarith
    from consume_settles [OF d assms(2) [OF less] less_imp_le [OF less] this] False show ?thesis
      by (simp add: http_call_body_def wait_for_http_message_def Let_def)
  qed
qed

lemma impl_settles:
  fixes env :: "'p http_env"
  assumes "settles env q f k WaitForHttpMessage" and "part_fits q fl wg"
  shows "settles env q f k (WriteResponsePartsImpl i fl wg)"
proof (rule settlesI)
  fix c :: "'p http_connection_t"
  assume c: "conn_ready q f k c"
  let ?wait = "wait_for_upgrade_handling_result_or_nothing = m_connection_upgrade_stage c \<and>
    \<not> coordinator_is_full (m_response_coordinator c)"
  let ?append = "\<lambda>m c. if \<not> coordinator_closed (m_response_coordinator c)
    then and_then (append_to_response i fl wg c) (http_run env m InitWriteIfNecessary) else Returns c"
  show "settled q (\<lambda>m. http_call_body env (http_run env m) (WriteResponsePartsImpl i fl wg) c) (conn_ready q f k)"
  proof (cases "socket_open c")
    case True
    then have f: "f" using c by (auto simp: conn_ready_def split: if_splits)
    have "settled q (\<lambda>m. if ?wait then http_run env m WaitForHttpMessage c else Returns c) (conn_ready q f k)"
      using settlesD [OF assms(1) c] c by (intro settled_if settled_returns)
    moreover have "settled q (\<lambda>m. ?append m d) (conn_ready q f k)" if d: "conn_ready q f k d" for d
    proof (cases "append_to_response i fl wg d")
      case (Returns e)
      then have "conn_ready q True k e" using conn_ready_append [OF d assms(2)] f by simp
      from init_write_settles [OF this, of env] Returns f d show ?thesis by auto
    next
      case (Raises e)
      then show ?thesis using d refused_unchanged(3) [OF Raises] by (intro settled_if) auto
    qed (simp_all add: append_to_response_def split: sum.splits)
    ultimately have "settled q (\<lambda>m. and_then (if ?wait then http_run env m WaitForHttpMessage c else Returns c) (?append m)) (conn_ready q f k)"
      by (intro settled_and_then [where Q = "conn_ready q f k"])
    with True show ?thesis by (simp add: http_call_body_def write_response_parts_impl_def)
  qed (use c in \<open>auto simp: http_call_body_def write_response_parts_impl_def\<close>)
qed

lemma parts_settles:
  "settles env q f k (WriteResponsePartsImpl i fl wg) \<Longrightarrow> settles env q f k (WriteResponseParts i fl wg)"
  by (rule settlesI) (auto simp: http_call_body_def write_response_parts_def intro!: settled_catching conn_ready_close dest: settlesD)

lemma actions_settles:
  assumes "settles env q f k WaitForHttpMessage" and "list_all (action_fits q) as"
  shows "settles env q f k (HandlerActions as)"
  using assms(2)
proof (induction as)
  case Nil
  show ?case by (rule settlesI) (auto simp: http_call_body_def http_handler_actions_def)
next
  case (Cons a as)
  then have as: "settles env q f k (HandlerActions as)" by simp
  show ?case
  proof (cases a)
    case (WriteParts i fl wg)
    then have "part_fits q fl wg" using Cons.prems by (simp add: action_fits_def)
    from parts_settles [OF impl_settles [OF assms(1) this]] as WriteParts show ?thesis
      by (intro settlesI) (auto simp: http_call_body_def http_handler_actions_def dest: settlesD
          intro!: settled_and_then [where Q = "conn_ready q f k"])
  next
    case MoveSocket
    with as show ?thesis
      by (intro settlesI) (auto simp: http_call_body_def http_handler_actions_def dest: settlesD conn_ready_moves)
  qed
qed

lemma handler_settles:
  assumes "settles env q f k WaitForHttpMessage" and "answers_fit q env" and "conn_ready q f k c"
    and "\<And>st c. conn_ready q f k c \<Longrightarrow> (q \<longrightarrow> st = status_accepted) \<Longrightarrow> settled q (\<lambda>m. cont m st c) (conn_ready q f k)"
  shows "settled q (\<lambda>m. call_request_handler env (http_run env m) i (cont m) c) (conn_ready q f k)"
proof -
  obtain rq d where d: "take_request i c = (rq, d)" by (cases "take_request i c") auto
  let ?d = "d\<lparr>handled := handled d @ [rq]\<rparr>" and ?o = "m_request_handler env (handled d @ [rq])"
  have "conn_ready q f k ?d" using conn_ready_take [OF assms(3) d] by simp
  moreover have "settles env q f k (HandlerActions (outcome_actions ?o))"
    using assms(2) by (intro actions_settles [OF assms(1)]) (simp add: answers_fit_def)
  ultimately have "settled q (\<lambda>m. http_run env m (HandlerActions (outcome_actions ?o)) ?d) (conn_ready q f k)" by (rule settlesD [rotated])
  then have "settled q (\<lambda>m. and_then (http_run env m (HandlerActions (outcome_actions ?o)) ?d)
      (\<lambda>c. case outcome_status ?o of None \<Rightarrow> Raises c | Some st \<Rightarrow> cont m st c)) (conn_ready q f k)"
    using assms(2,4)
    by (intro settled_and_then [where Q = "conn_ready q f k"]) (cases "outcome_status ?o"; auto simp: answers_fit_def)+
  then show ?thesis by (simp add: call_request_handler_def d Let_def)
qed


lemma refused_fits: "\<not> q \<Longrightarrow> part_fits q refused_flags not_implemented_group"
  by (simp add: part_fits_def not_implemented_group_def write_group_def)

lemma upgrade_settles:
  fixes env :: "'p http_env"
  assumes "settles env q f k WaitForHttpMessage" and "answers_fit q env"
  shows "settles env q f k HandleUpgradeRequest"
proof (rule settlesI)
  fix c :: "'p http_connection_t"
  assume c: "conn_ready q f k c"
  note refuse = settlesD [OF impl_settles [OF assms(1) refused_fits]]
  show "settled q (\<lambda>m. http_call_body env (http_run env m) HandleUpgradeRequest c) (conn_ready q f k)"
  proof (cases "register_request c")
    case (Inl d)
    then show ?thesis using c refused_unchanged(1) [OF Inl] by (auto simp: http_call_body_def handle_upgrade_request_def)
  next
    case (Inr r)
    obtain i d where r: "register_request c = Inr (i, d)" using Inr by (cases r) auto
    let ?d = "(cancel_timeout_checking d)\<lparr>m_connection_upgrade_stage := wait_for_upgrade_handling_result_or_nothing\<rparr>"
    have d: "conn_ready q f k ?d" using conn_ready_register [OF c r] by simp
    have "settled q (\<lambda>m. call_request_handler env (http_run env m) i (\<lambda>st c. if st = status_accepted then Returns c
        else if socket_open c then http_run env m (WriteResponsePartsImpl i refused_flags not_implemented_group) c
        else Returns c) ?d) (conn_ready q f k)"
      using refuse by (intro handler_settles [OF assms d] settled_if) auto
    then show ?thesis by (simp add: http_call_body_def handle_upgrade_request_def r)
  qed
qed

lemma complete_settles:
  fixes env :: "'p http_env"
  assumes "settles env q f k WaitForHttpMessage" and "answers_fit q env"
  shows "settles env q f k OnRequestMessageComplete"
proof (rule settlesI)
  fix c0 :: "'p http_connection_t"
  assume c0: "conn_ready q f k c0"
  note refuse = settlesD [OF impl_settles [OF assms(1) refused_fits]]
  define c where "c = (if parser_upgrade env (http_parser c0) then c0\<lparr>m_connection_upgrade_stage := pending_upgrade_handling\<rparr> else c0)"
  have c: "conn_ready q f k c" using c0 by (simp add: c_def)
  let ?cont = "\<lambda>i m st c. if st = status_accepted
    then (if is_able_to_get_more_messages (m_response_coordinator c) then http_run env m WaitForHttpMessage c else Returns c)
    else http_run env m (WriteResponsePartsImpl i refused_flags not_implemented_group) c"
  have handler: "settled q (\<lambda>m. call_request_handler env (http_run env m) i (?cont i m) d) (conn_ready q f k)" if "conn_ready q f k d" for i d
    using that refuse settlesD [OF assms(1)] by (intro handler_settles [OF assms] settled_if) auto
  have "settled q (\<lambda>m. if no_upgrade = m_connection_upgrade_stage c
      then (case register_request c of Inl c \<Rightarrow> Raises c
            | Inr (i, c) \<Rightarrow> call_request_handler env (http_run env m) i (?cont i m) (guard_request_handling_operation env c))
      else if coordinator_empty (m_response_coordinator c) then http_run env m HandleUpgradeRequest c
      else Returns c) (conn_ready q f k)"
  proof (intro settled_if)
    show "settled q (\<lambda>m. case register_request c of Inl c \<Rightarrow> Raises c
        | Inr (i, c) \<Rightarrow> call_request_handler env (http_run env m) i (?cont i m) (guard_request_handling_operation env c)) (conn_ready q f k)"
      using c refused_unchanged(1) [of c] conn_ready_register [OF c] handler
      by (cases "register_request c") (auto split: prod.split)
  qed (use c settlesD [OF upgrade_settles [OF assms]] in auto)
  from settled_catching [OF this conn_ready_close]
  show "settled q (\<lambda>m. http_call_body env (http_run env m) OnRequestMessageComplete c0) (conn_ready q f k)"
    by (simp add: http_call_body_def on_request_message_complete_def c_def [symmetric] Let_def)
qed

text \<open>Everything that reads returns.\<close>

lemma reading_settles:
  assumes "progresses env" and "answers_fit q env"
  shows "settles env q f k WaitForHttpMessage \<and> settles env q f k OnRequestMessageComplete"
proof (induction k rule: less_induct)
  case (less k)
  have "settles env q f k WaitForHttpMessage" by (rule wait_settles [OF assms(1)]) (use less in blast)
  with complete_settles [OF this assms(2)] show ?case by simp
qed

section \<open>More fuel, the same result\<close>

definition flow_le :: "'c flow_t \<Rightarrow> 'c flow_t \<Rightarrow> bool" where
  "flow_le r s \<longleftrightarrow> r = OutOfFuel \<or> r = s"

lemma flow_le_refl [simp]: "flow_le r r"
  by (simp add: flow_le_def)

lemma flow_le_and_then:
  assumes "flow_le r s" and "\<And>c. flow_le (f c) (g c)"
  shows "flow_le (and_then r f) (and_then s g)"
proof (cases r)
  case (Returns c)
  then show ?thesis using assms(1) assms(2) [of c] by (auto simp: flow_le_def)
qed (use assms(1) in \<open>auto simp: flow_le_def\<close>)

lemma flow_le_catching: "flow_le r s \<Longrightarrow> flow_le (catching r f) (catching s f)"
  by (auto simp: flow_le_def)

lemma flow_le_trans: "flow_le r s \<Longrightarrow> flow_le s t \<Longrightarrow> flow_le r t"
  by (auto simp: flow_le_def)

lemma body_mono:
  assumes "\<And>k c. flow_le (call k c) (call' k c)"
  shows "flow_le (http_call_body env call k c) (http_call_body env call' k c)"
  by (cases k)
     (auto simp: http_call_bodies Let_def intro!: flow_le_and_then flow_le_catching assms
        split: prod.split sum.split option.split list.split http_action.split write_operation_t.split)

lemma run_mono: "n \<le> m \<Longrightarrow> flow_le (http_run env n k c) (http_run env m k c)"
proof (induction n arbitrary: m k c)
  case 0
  show ?case by (simp add: flow_le_def)
next
  case (Suc n)
  then obtain m' where "m = Suc m'" "n \<le> m'" by (cases m) auto
  then show ?case using body_mono [OF Suc.IH] by simp
qed

lemma event_mono: "n \<le> m \<Longrightarrow> flow_le (http_event env n ev c) (http_event env m ev c)"
  by (cases ev) (simp_all add: http_event_def after_read_def Let_def run_mono flow_le_catching)

lemma events_mono: "n \<le> m \<Longrightarrow> flow_le (http_events env n evs c) (http_events env m evs c)"
  by (induction evs arbitrary: c) (auto intro!: flow_le_and_then event_mono)

lemma history_mono: "n \<le> m \<Longrightarrow> flow_le (http_history env L n r evs) (http_history env L m r evs)"
  by (simp add: http_history_def http_init_def flow_le_and_then run_mono events_mono)

section \<open>Events return\<close>

text \<open>The same holds of a handler that answers later.\<close>

definition event_fits :: "bool \<Rightarrow> http_event_t \<Rightarrow> bool" where
  "event_fits keeps ev = (case ev of AsyncResponse i fl wg \<Rightarrow> part_fits keeps fl wg | _ \<Rightarrow> True)"

lemma write_end_settles:
  assumes "progresses env" and "answers_fit q env" and "conn_ready q f k c"
  shows "settled q (\<lambda>m. http_run env m HandleCurrentWriteCtx c) (conn_ready q True k)"
proof -
  obtain op x where op: "extract_next_write_operation (http_write_ctx c) = (op, x)"
    by (cases "extract_next_write_operation (http_write_ctx c)") auto
  let ?c = "c\<lparr>http_write_ctx := x\<rparr>" and ?d = "c\<lparr>http_write_ctx := finish_write_group x\<rparr>"
  have d: "conn_ready q True k ?d" using assms(3) by (simp add: conn_ready_def finish_write_group_def)
  note waits = settlesD [OF reading_settles [OF assms(1,2), THEN conjunct1]]
  note upgrades = settlesD [OF upgrade_settles [OF reading_settles [OF assms(1,2), THEN conjunct1] assms(2)]]
  have "settled q (\<lambda>m. and_then (if m_init_read_after_this_write ?d then http_run env m WaitForHttpMessage ?d else Returns ?d)
      (http_run env m InitWriteIfNecessary)) (conn_ready q True k)"
    using d waits by (intro settled_and_then [where Q = "conn_ready q True k"] settled_if init_write_settles) auto
  then have "settled q (\<lambda>m. if \<not> coordinator_closed (m_response_coordinator ?d)
      then if no_upgrade = m_connection_upgrade_stage ?d
           then and_then (if m_init_read_after_this_write ?d then http_run env m WaitForHttpMessage ?d else Returns ?d)
             (http_run env m InitWriteIfNecessary)
           else if coordinator_empty (m_response_coordinator ?d) then http_run env m HandleUpgradeRequest ?d
           else http_run env m InitWriteIfNecessary ?d
      else Returns (http_close ?d)) (conn_ready q True k)"
    using conn_ready_close [OF d] init_write_settles [OF d, of env] upgrades [OF d] by (intro settled_if settled_returns)
  then have "settled q (\<lambda>m. http_call_body env (http_run env m) FinishHandlingCurrentWriteCtx ?c) (conn_ready q True k)"
    by (simp add: http_call_body_def finish_handling_current_write_ctx_def Let_def)
  from settled_call [OF this] have finish: "settled q (\<lambda>m. http_run env m FinishHandlingCurrentWriteCtx ?c) (conn_ready q True k)" .
  have trivial: "conn_ready q True k ?c" if "op = trivial_write_operation bufs" for bufs
    using assms(3) op that by (auto simp: conn_ready_def extract_next_write_operation_def transmitting_def split: option.splits if_splits)
  have "settled q (\<lambda>m. case op of trivial_write_operation bufs \<Rightarrow> Returns (http_trivial_write_operation env bufs ?c)
      | none_write_operation \<Rightarrow> http_run env m FinishHandlingCurrentWriteCtx ?c) (conn_ready q True k)"
    using finish trivial by (cases op) auto
  from settled_catching [OF this conn_ready_close]
  have "settled q (\<lambda>m. http_call_body env (http_run env m) HandleCurrentWriteCtx c) (conn_ready q True k)"
    by (simp add: http_call_body_def http_handle_current_write_ctx_def op)
  then show ?thesis by (rule settled_call)
qed

lemma event_settles:
  assumes "progresses env" and "answers_fit q env" and "conn_ready q f k c" and "http_enabled ev c" and "event_fits q ev"
  shows "\<exists>f k. settled q (\<lambda>m. http_event env m ev c) (conn_ready q f k)"
proof (cases ev)
  case (ReadBytes data)
  let ?c = "c\<lparr>m_read_operation_is_running := False, http_buf := data\<rparr>"
  have "conn_ready q f (length data) ?c" using assms(3) by (auto simp: conn_ready_def)
  from consume_settles [OF this reading_settles [OF assms(1,2), THEN conjunct2] le_refl]
  have "settled q (\<lambda>m. http_run env m (ConsumeData data) ?c) (conn_ready q f (length data))" by simp
  then have "settled q (\<lambda>m. catching (http_run env m (ConsumeData data) ?c) http_close) (conn_ready q f (length data))"
    by (rule settled_catching) (rule conn_ready_close)
  then show ?thesis by (auto simp: http_event_def ReadBytes after_read_def Let_def)
next
  case (ReadError e)
  have "conn_ready q f k (c\<lparr>m_read_operation_is_running := False\<rparr>)" using assms(3) by (simp add: conn_ready_def)
  then have "conn_ready q f k (after_read_error env e c)" by (simp add: after_read_error_def conn_ready_close Let_def)
  then show ?thesis by (auto simp: http_event_def ReadError)
next
  case WriteEnds
  have "conn_ready q f k (c\<lparr>http_writes_pending := http_writes_pending c - 1\<rparr>)" using assms(3) by simp
  from write_end_settles [OF assms(1,2) this] show ?thesis by (auto simp: http_event_def WriteEnds)
next
  case (WriteError aborted)
  have "conn_ready q False k (http_after_write_error aborted c)"
    using assms(3,4) fits_reset
    by (auto simp: WriteError conn_ready_def http_enabled_def http_after_write_error_def http_close_def cancel_timeout_checking_def Let_def)
  then show ?thesis by (auto simp: http_event_def WriteError)
next
  case (AsyncResponse i fl wg)
  then have "part_fits q fl wg" using assms(5) by (simp add: event_fits_def)
  from settlesD [OF parts_settles [OF impl_settles [OF reading_settles [OF assms(1,2), THEN conjunct1] this]] assms(3)]
  show ?thesis by (auto simp: http_event_def AsyncResponse)
next
  case CheckTimeout
  have "conn_ready q f k (http_check_timeout c)"
    using assms(3) conn_ready_close by (auto simp: http_check_timeout_def split: option.split)
  then show ?thesis by (auto simp: http_event_def CheckTimeout)
next
  case (TimePasses d)
  have "conn_ready q f k (c\<lparr>http_clock := http_clock c + d\<rparr>)" using assms(3) by simp
  then have "settled q (\<lambda>m. Returns (c\<lparr>http_clock := http_clock c + d\<rparr>)) (conn_ready q f k)" by (rule settled_returns)
  then show ?thesis by (auto simp: http_event_def TimePasses)
qed

text \<open>No exception leaves a callback.\<close>

lemma catching_no_raise [simp]: "catching r f \<noteq> Raises c"
  by (cases r) simp_all

lemma event_no_raise: "http_event env m ev c \<noteq> Raises c'"
  by (cases ev; cases m)
     (simp_all add: http_event_def after_read_def http_call_body_def http_handle_current_write_ctx_def write_response_parts_def Let_def)

lemma event_ends:
  assumes "progresses env" and "answers_fit q env" and "conn_ready q f k c" and "http_enabled ev c" and "event_fits q ev"
  obtains (returns) n c' f' k' where "\<And>m. n \<le> m \<Longrightarrow> http_event env m ev c = Returns c'" and "conn_ready q f' k' c'"
  | (aborts) n where "\<And>m. n \<le> m \<Longrightarrow> http_event env m ev c = Aborts" and "\<not> q"
proof -
  from event_settles [OF assms] obtain f' k' r n where r: "\<forall>m \<ge> n. http_event env m ev c = r" "r \<noteq> OutOfFuel"
    "q \<longrightarrow> r \<noteq> Aborts" "flow_all (conn_ready q f' k') r" by (auto simp: settled_def)
  moreover have "r \<noteq> Raises c'" for c' using r(1) event_no_raise [of env n ev c c'] by auto
  ultimately show thesis using returns [of n] aborts [of n] by (cases r) auto
qed

lemma events_ready:
  assumes "progresses env" and "answers_fit q env"
  shows "http_events env m evs c = Returns c' \<Longrightarrow> conn_ready q f k c \<Longrightarrow> list_all (event_fits q) evs \<Longrightarrow> \<exists>f k. conn_ready q f k c'"
proof (induction evs arbitrary: c f k)
  case (Cons ev evs)
  then obtain c1 where c1: "http_enabled ev c" "http_event env m ev c = Returns c1" "http_events env m evs c1 = Returns c'"
    by (auto simp: and_then_def split: if_splits flow_t.splits)
  have ev: "event_fits q ev" "list_all (event_fits q) evs" using Cons.prems(3) by auto
  have more: "http_event env (max m n) ev c = Returns c1" for n
    using event_mono [of m "max m n" env ev c] c1(2) by (simp add: flow_le_def)
  show ?case
  proof (cases rule: event_ends [OF assms Cons.prems(2) c1(1) ev(1), case_names returns aborts])
    case (returns n c2 f' k')
    then have "c2 = c1" using more [of n] by simp
    with Cons.IH [OF c1(3) _ ev(2)] returns(2) show ?thesis by blast
  next
    case (aborts n)
    then show ?thesis using more [of n] by simp
  qed
qed auto

lemma history_ready:
  assumes "progresses env" and "answers_fit q env" and "0 < r" and "http_history env L m r evs = Returns c" and "list_all (event_fits q) evs"
  shows "\<exists>f k. conn_ready q f k c"
proof -
  obtain c0 where c0: "http_init env m (http_connection env L r) = Returns c0" "http_events env m evs c0 = Returns c"
    using assms(4) by (auto simp: http_history_def and_then_def split: flow_t.splits)
  let ?i = "init_next_timeout_checking (http_connection env L r)"
  have i: "http_buf ?i = []" by (simp add: init_next_timeout_checking_def http_connection_def)
  obtain m' where "m = Suc m'" using c0(1) by (cases m) (auto simp: http_init_def)
  with wait_reads [OF i, of env m'] c0(1) have "same_output ?i c0" "m_response_coordinator c0 = m_response_coordinator ?i" "http_buf c0 = []"
    by (auto simp: http_init_def)
  then have "conn_ready q True 0 c0"
    using fits_new [OF assms(3)] by (simp add: conn_ready_def same_output_def init_next_timeout_checking_def http_connection_def)
  from events_ready [OF assms(1,2) c0(2) this assms(5)] show ?thesis .
qed

lemma history_starts: "\<exists>c. \<forall>j \<ge> 1. http_history env L j r [] = Returns c \<and> m_read_operation_is_running c"
proof -
  let ?i = "init_next_timeout_checking (http_connection env L r)"
  have i: "http_buf ?i = []" by (simp add: init_next_timeout_checking_def http_connection_def)
  obtain c where c: "http_run env 1 WaitForHttpMessage ?i = Returns c" "m_read_operation_is_running c"
    using wait_reads [OF i, of env 0] by auto
  have "http_run env j WaitForHttpMessage ?i = Returns c" if "1 \<le> j" for j
    using run_mono [OF that, of env WaitForHttpMessage ?i] c(1) by (auto simp: flow_le_def)
  with c(2) show ?thesis by (intro exI [of _ c]) (simp add: http_history_def http_init_def)
qed

section \<open>A response that closes the connection\<close>

text \<open>
  The \<open>assert\<close> can fail. With one slot, when the end of a write makes room for a request that is in
  the buffer already and its response closes the connection, \<open>finish_handling_current_write_ctx\<close> calls
  \<open>init_write_if_necessary\<close> on a coordinator that is closed by then. A handler that accepts the first
  request and refuses the next is enough: a refusal closes the connection.
\<close>

definition refuses_second :: "'p http_env \<Rightarrow> bool" where
  "refuses_second env \<longleftrightarrow> (\<forall>reqs. m_request_handler env reqs =
     \<lparr>outcome_actions = [], outcome_status = Some (if length reqs = 1 then status_accepted else status_rejected)\<rparr>)"

text \<open>The first request waits for its response, and the rest of the data stays in the buffer.\<close>

definition first_waits :: "raw_data_t \<Rightarrow> http_parser_ctx_t \<Rightarrow> 'p http_connection_t \<Rightarrow> bool" where
  "first_waits rest x c \<longleftrightarrow> socket_open c \<and> http_buf c = rest \<and> m_parser_ctx c = x \<and>
     m_connection_upgrade_stage c = no_upgrade \<and> http_write_ctx c = idle_output \<and> http_writes_pending c = 0 \<and>
     m_response_coordinator c = busy_coordinator 1 (pending_context 0 [] initial_flags) \<and> length (handled c) = 1"

lemma first_accepted:
  assumes "refuses_second env" and "socket_open c" and "\<not> parser_upgrade env (http_parser c)"
    and "m_connection_upgrade_stage c = no_upgrade" and "http_write_ctx c = idle_output" and "handled c = []"
    and "m_response_coordinator c = idle_coordinator 0 ctx" and "context_empty ctx" and "http_writes_pending c = 0"
  shows "\<exists>c'. http_run env (Suc (Suc n)) OnRequestMessageComplete c = Returns c' \<and>
    first_waits (http_buf c) (left_of (m_parser_ctx c)) c'"
  using assms
  by (simp add: http_call_bodies http_steps take_request_eq refuses_second_def first_waits_def reinit_empty Let_def)

lemma first_request:
  assumes "refuses_second env" and "reading 0 p x c" and "handled c = []"
    and "parses env p x d k p' x'" and "m_message_complete x'" and "\<not> parser_upgrade env p'"
  shows "\<exists>c'. http_event env (Suc (Suc (Suc n))) (ReadBytes d) c = Returns c' \<and> first_waits (drop k d) (left_of x') c'"
proof -
  let ?c = "c\<lparr>m_read_operation_is_running := False, http_buf := d\<rparr>"
  let ?d = "?c\<lparr>http_parser := p', m_parser_ctx := x', http_buf := drop k (http_buf ?c)\<rparr>"
  have ps: "parses env (http_parser ?c) (m_parser_ctx ?c) d k p' x'" using assms(2,4) by (simp add: reading_def)
  obtain ctx where ctx: "m_response_coordinator c = idle_coordinator 0 ctx" "context_empty ctx"
    using assms(2) by (auto simp: reading_def)
  obtain c' where "http_run env (Suc (Suc n)) OnRequestMessageComplete ?d = Returns c'"
    "first_waits (http_buf ?d) (left_of (m_parser_ctx ?d)) c'"
    using first_accepted [OF assms(1), of ?d ctx n] assms(2,3,6) ctx by (auto simp: reading_def)
  with consume_complete [OF ps assms(5), of "Suc (Suc n)"] show ?thesis
    by (simp add: http_event_def after_read_def Let_def del: http_run.simps)
qed

text \<open>Its response is written.\<close>

definition first_written :: "raw_data_t \<Rightarrow> http_parser_ctx_t \<Rightarrow> raw_data_t list \<Rightarrow> 'p http_connection_t \<Rightarrow> bool" where
  "first_written rest x items c \<longleftrightarrow> socket_open c \<and> http_buf c = rest \<and> m_parser_ctx c = x \<and>
     m_connection_upgrade_stage c = no_upgrade \<and> http_write_ctx c = all_output items \<and> http_writes_pending c = 1 \<and>
     m_init_read_after_this_write c \<and> length (handled c) = 1 \<and>
     m_response_coordinator c = idle_coordinator 1 (pending_context 0 [] kept_flags)"

lemma first_response:
  assumes "first_waits rest x c" and "one_write wg"
  shows "\<exists>c'. http_event env (Suc (Suc (Suc (Suc n)))) (AsyncResponse 0 kept_flags wg) c = Returns c' \<and>
    first_written rest x (m_items wg) c'"
  using assms answer_now [of c 1 0 wg env n] by (auto simp: http_event_def first_waits_def first_written_def same_input_def)

lemma refused_pop:
  "coord_pop_ready_buffers (busy_coordinator j (pending_context i [wg] refused_flags)) =
    Inr (Some (wg, i), (idle_coordinator j (pending_context i [] refused_flags))\<lparr>m_connection_closed_response_occured := True\<rparr>)"
  by (simp add: coord_pop_ready_buffers_def busy_coordinator_def idle_coordinator_def pending_context_def coordinator_closed_def
      table_empty_def table_front_def dequeue_group_def is_complete_def refused_flags_def context_empty_def
      pop_response_context_def pop_response_context_nonchecked_def Let_def)

lemma refused_one_write: "one_write not_implemented_group"
  by (simp add: one_write_def not_implemented_group_def write_group_def max_iov_len_def)

lemma closed_now: "coordinator_closed (co\<lparr>m_connection_closed_response_occured := b\<rparr>) = b"
  "coordinator_is_full (co\<lparr>m_connection_closed_response_occured := b\<rparr>) = coordinator_is_full co"
  by (simp_all add: coordinator_closed_def coordinator_is_full_def)

text \<open>The next request is refused, and the write of the refusal begins: the coordinator is closed.\<close>

lemma refusal_closes:
  assumes "refuses_second env" and "socket_open c" and "\<not> parser_upgrade env (http_parser c)"
    and "m_connection_upgrade_stage c = no_upgrade" and "http_write_ctx c = idle_output" and "length (handled c) = 1"
    and "m_response_coordinator c = idle_coordinator 1 (pending_context 0 [] kept_flags)"
  shows "\<exists>c'. http_run env (Suc (Suc (Suc (Suc n)))) OnRequestMessageComplete c = Returns c' \<and>
    coordinator_closed (m_response_coordinator c')"
  using assms
  by (auto simp: http_call_bodies http_steps take_request_eq refuses_second_def reinit_empty refused_pop closed_now
      extract_all [OF refused_one_write] Let_def)

lemma write_end_aborts:
  assumes "refuses_second env" and "first_written rest x items c" and "rest \<noteq> []" and "ctx_reset x = x0"
    and "parses env (http_parser_init env) x0 rest k p x'" and "m_message_complete x'" and "\<not> parser_upgrade env p"
  shows "http_event env (n + 8) WriteEnds c = Aborts"
proof -
  have n: "n + 8 = Suc (Suc (Suc (Suc (Suc (Suc (Suc (Suc n)))))))" by simp
  let ?c = "c\<lparr>http_writes_pending := http_writes_pending c - 1\<rparr>"
  let ?d = "?c\<lparr>http_write_ctx := idle_output\<rparr>"
  note st = assms(2) [unfolded first_written_def]
  have "http_buf ?d \<noteq> []" using st assms(3) by simp
  from wait_consumes [OF this, of env "Suc (Suc (Suc (Suc (Suc n))))"] obtain c1 where
    c1: "http_run env (Suc (Suc (Suc (Suc (Suc (Suc n)))))) WaitForHttpMessage ?d =
        http_run env (Suc (Suc (Suc (Suc (Suc n))))) (ConsumeData (http_buf ?d)) c1"
      "http_parser c1 = http_parser_init env" "m_parser_ctx c1 = ctx_reset (m_parser_ctx ?d)" "http_buf c1 = http_buf ?d"
      "same_output ?d c1" "m_response_coordinator c1 = m_response_coordinator ?d" "socket_open c1 = socket_open ?d"
      "m_connection_upgrade_stage c1 = m_connection_upgrade_stage ?d" by (elim exE conjE)
  have ps: "parses env (http_parser c1) (m_parser_ctx c1) rest k p x'" using assms(4,5) c1(2,3) st by simp
  let ?e = "c1\<lparr>http_parser := p, m_parser_ctx := x', http_buf := drop k (http_buf c1)\<rparr>"
  obtain c2 where c2: "http_run env (Suc (Suc (Suc (Suc n)))) OnRequestMessageComplete ?e = Returns c2"
    "coordinator_closed (m_response_coordinator c2)"
    using refusal_closes [OF assms(1), of ?e n] assms(7) c1 st by (auto simp: same_output_def)
  have "http_run env (Suc (Suc (Suc (Suc (Suc (Suc n)))))) WaitForHttpMessage ?d = Returns c2"
    using c1(1) consume_complete [OF ps assms(6), of "Suc (Suc (Suc (Suc n)))"] c2(1) st by (simp del: http_run.simps)
  moreover have "http_run env (Suc (Suc (Suc (Suc (Suc (Suc n)))))) InitWriteIfNecessary c2 = Aborts"
    using c2(2) by (simp add: http_call_body_def http_init_write_if_necessary_def)
  moreover have "http_event env (n + 8) WriteEnds c = catching (and_then
      (http_run env (Suc (Suc (Suc (Suc (Suc (Suc n)))))) WaitForHttpMessage ?d)
      (http_run env (Suc (Suc (Suc (Suc (Suc (Suc n)))))) InitWriteIfNecessary)) http_close"
    unfolding n using write_ends [of ?c items env "Suc (Suc (Suc (Suc (Suc (Suc n)))))"] st
    by (simp add: http_event_def del: http_run.simps)
  ultimately show ?thesis by simp
qed

theorem refusal_ends_process:
  assumes "refuses_second env" and "one_write wg" and "d \<noteq> []"
    and "parses env (http_parser_init env) (http_parser_ctx L) d k p x" and "m_message_complete x" and "\<not> parser_upgrade env p"
    and "drop k d \<noteq> []" and "parses env (http_parser_init env) (http_parser_ctx L) (drop k d) k' p' x'"
      "m_message_complete x'" "\<not> parser_upgrade env p'"
  shows "http_history env L (n + 8) 1 [ReadBytes d, AsyncResponse 0 kept_flags wg, WriteEnds] = Aborts"
proof -
  have n: "n + 8 = Suc (Suc (Suc (Suc (Suc (Suc (Suc (Suc n)))))))" by simp
  obtain c0 where c0: "http_init env (n + 8) (http_connection env L 1) = Returns c0"
    "reading 0 (http_parser_init env) (http_parser_ctx L) c0" "http_written c0 = []" "handled c0 = []"
    by (rule starts_reading [of "n + 8" env L]) simp_all
  obtain c1 where c1: "http_event env (n + 8) (ReadBytes d) c0 = Returns c1" "first_waits (drop k d) (left_of x) c1"
    using first_request [OF assms(1) c0(2,4) assms(4-6)] unfolding n by blast
  obtain c2 where c2: "http_event env (n + 8) (AsyncResponse 0 kept_flags wg) c1 = Returns c2"
    "first_written (drop k d) (left_of x) (m_items wg) c2"
    using first_response [OF c1(2) assms(2)] unfolding n by blast
  have "ctx_reset (left_of x) = http_parser_ctx L"
    using parses_limits [OF assms(4)] by (simp add: reset_left_of http_parser_ctx_def)
  from write_end_aborts [OF assms(1) c2(2) assms(7) this assms(8-10)]
  have "http_event env (n + 8) WriteEnds c2 = Aborts" .
  moreover have "http_enabled (ReadBytes d) c0" "http_enabled (AsyncResponse 0 kept_flags wg) c1" "http_enabled WriteEnds c2"
    using c0(2) c2(2) assms(3) by (simp_all add: http_enabled_def reading_def first_written_def)
  ultimately show ?thesis using c0(1) c1(1) c2(1) by (simp add: http_history_def)
qed

text \<open>Two lines in one read.\<close>

definition refuse_second :: "http_request_t list \<Rightarrow> handler_outcome" where
  "refuse_second reqs =
     \<lparr>outcome_actions = [], outcome_status = Some (if length reqs = 1 then status_accepted else status_rejected)\<rparr>"

lemma refusal_sample:
  "http_history (sample_env refuse_second) small_limits 8 1
    [ReadBytes [0x61, 0x0A, 0x62, 0x0A], AsyncResponse 0 kept_flags (write_group [raw ''a'']), WriteEnds] = Aborts"
  by code_simp

section \<open>Properties\<close>

text \<open>
  C21: the callbacks of an HTTP connection end. When the parser, at the beginning of a request,
  consumes a byte of the data or fails, and no handler writes an empty group, then after every
  history of events each event that can come next is handled to its end, without an exception that
  leaves the callback, and the result does not depend on the fuel. It returns, or the \<open>assert\<close> at the
  beginning of \<open>init_write_if_necessary\<close> fails and ends the process. That needs a response that closes
  the connection: when the handler accepts every request and no part says so (\<open>keeps\<close>), the callback
  returns.
\<close>

theorem connection_returns:
  assumes "progresses env" and "answers_fit keeps env" and "0 < r"
    and "http_history env L m r evs = Returns c" and "list_all (event_fits keeps) (evs @ [ev])" and "http_enabled ev c"
  shows "\<exists>n res. (\<forall>j \<ge> n. http_history env L j r (evs @ [ev]) = res) \<and>
    ((\<exists>c'. res = Returns c') \<or> \<not> keeps \<and> res = Aborts)"
proof -
  have fits: "list_all (event_fits keeps) evs" "event_fits keeps ev" using assms(5) by simp_all
  from history_ready [OF assms(1-4) fits(1)] obtain f k where ready: "conn_ready keeps f k c" by blast
  have step: "http_history env L j r (evs @ [ev]) = http_event env j ev c" if j: "m \<le> j" for j
  proof -
    have "http_history env L j r evs = Returns c" using history_mono [of m j env L r evs] assms(4) j by (simp add: flow_le_def)
    then obtain c0 where "http_init env j (http_connection env L r) = Returns c0" "http_events env j evs c0 = Returns c"
      by (auto simp: http_history_def and_then_def split: flow_t.splits)
    then show ?thesis using assms(6) by (cases "http_event env j ev c") (simp_all add: http_history_def http_events_append)
  qed
  show ?thesis
  proof (cases rule: event_ends [OF assms(1,2) ready assms(6) fits(2), case_names returns aborts])
    case (returns n c' f' k')
    then show ?thesis using step by (intro exI [of _ "max m n"] exI [of _ "Returns c'"]) simp
  next
    case (aborts n)
    then show ?thesis using step by (intro exI [of _ "max m n"] exI [of _ Aborts]) simp
  qed
qed

lemma line_progresses: "progresses (sample_env h)"
  by (auto simp: progresses_def sample_env_def line_execute_def Let_def split: option.splits)

lemma echo_fits: "answers_fit True (sample_env echo_handler)"
  by (simp add: answers_fit_def sample_env_def echo_handler_def action_fits_def part_fits_def write_group_def kept_flags_def)

theorem connection_returns_witness:
  "\<exists>n c. \<forall>j \<ge> n. http_history (sample_env echo_handler) small_limits j 2 [ReadBytes [0x61, 0x0A, 0x62, 0x0A, 0x63]] = Returns c"
proof -
  obtain c where c: "http_history (sample_env echo_handler) small_limits 1 2 [] = Returns c" "m_read_operation_is_running c"
    using history_starts by blast
  have "http_enabled (ReadBytes [0x61, 0x0A, 0x62, 0x0A, 0x63]) c" by (simp add: http_enabled_def c(2))
  from connection_returns [OF line_progresses echo_fits _ c(1) _ this] show ?thesis by (auto simp: event_fits_def)
qed

end
