(* ===== verification/RioPercent.thy ===== *)
theory RioPercent
  imports SrvPercent
begin

text \<open>
  The rest of \<open>restinio/utils/percent_encoding.hpp\<close>: the traits, the encoder, decoding in place, and
  the normalization of unreserved characters. The decoding loop is that of \<open>SrvPercent\<close>.
\<close>

section \<open>Traits\<close>

definition alnum_char :: "char \<Rightarrow> bool" where
  "alnum_char c \<longleftrightarrow>
     (CHR ''0'' \<le> c \<and> c \<le> CHR ''9'') \<or> (CHR ''a'' \<le> c \<and> c \<le> CHR ''z'') \<or> (CHR ''A'' \<le> c \<and> c \<le> CHR ''Z'')"

definition x_www_form_urlencoded_ordinary :: "char \<Rightarrow> bool" where
  "x_www_form_urlencoded_ordinary c \<longleftrightarrow> alnum_char c \<or> c \<in> set ''*-._''"

definition javascript_compatible_ordinary :: "char \<Rightarrow> bool" where
  "javascript_compatible_ordinary c \<longleftrightarrow> alnum_char c \<or> c \<in> set ''-.~_*!'' \<or> c = CHR 0x27 \<or> c \<in> set ''()''"

text \<open>\<open>strchr\<close> finds the terminating character of the literal, too.\<close>

definition relaxed_ordinary :: "char \<Rightarrow> bool" where
  "relaxed_ordinary c \<longleftrightarrow>
     c \<in> set '' ABCDEFGHIJKLMNOPQRSTUVWXYZabcdefghijklmnopqrstuvwxyz0123456789-._~:/?#[]@!$&'' \<or>
     c = CHR 0x27 \<or> c \<in> set ''()*+,;='' \<or> c = CHR 0x00"

section \<open>Encoding\<close>

text \<open>
  \<open>fmt::format( "%{:02X}", c )\<close> prints the number that the \<open>char\<close> is: two digits at least, and a
  sign, which counts, when it is negative. \<open>signed_char\<close> says whether \<open>char\<close> is signed.
\<close>

definition hex_digits :: "nat \<Rightarrow> string" where
  "hex_digits n = (if n < 16 then [hex_upper n] else [hex_upper (n div 16), hex_upper (n mod 16)])"

definition format_02X :: "int \<Rightarrow> string" where
  "format_02X v =
     (let sign = (if v < 0 then ''-'' else ''''); digits = hex_digits (nat \<bar>v\<bar>)
      in sign @ replicate (2 - (length sign + length digits)) CHR ''0'' @ digits)"

definition char_value :: "bool \<Rightarrow> char \<Rightarrow> int" where
  "char_value signed_char c = (if signed_char then sint (octet c) else uint (octet c))"

definition escape_percent_encoding :: "bool \<Rightarrow> (char \<Rightarrow> bool) \<Rightarrow> string \<Rightarrow> string" where
  "escape_percent_encoding signed_char ordinary data =
     (if length (filter (\<lambda>c. \<not> ordinary c) data) = 0 then data
      else concat (map (\<lambda>c. if ordinary c then [c] else CHR ''%'' # format_02X (char_value signed_char c)) data))"

section \<open>Decoding\<close>

definition try_unescape_percent_encoding :: "(char \<Rightarrow> bool) \<Rightarrow> string \<Rightarrow> pct_failure + string" where
  "try_unescape_percent_encoding ordinary data =
     rbind (unescape_loop ordinary 0 utf8_start False [] data) (\<lambda>ws. Inr (chars_of ws))"

text \<open>
  The loop when the collector writes into the buffer that is read: \<open>d\<close> is the position read, \<open>dest\<close>
  the one written, \<open>n\<close> the number of characters to decode. The result is the size of the result,
  and the buffer.
\<close>

definition octet_char :: "8 word \<Rightarrow> char" where
  "octet_char w = char_of (unat w)"

function inplace_loop :: "(char \<Rightarrow> bool) \<Rightarrow> nat \<Rightarrow> nat \<Rightarrow> nat \<Rightarrow> utf8_checker \<Rightarrow> bool \<Rightarrow> string \<Rightarrow>
    (pct_failure + nat) \<times> string" where
  "inplace_loop ordinary n d dest u e buf =
     (if d < n then
        (let c = buf ! d
         in if e \<and> c \<noteq> CHR ''%'' then (Inl (next_byte_expected d), buf)
            else if c = CHR ''%'' then
              (if 3 \<le> n - d \<and> is_hexdigit (buf ! (d + 1)) \<and> is_hexdigit (buf ! (d + 2)) then
                 (let ch = extract_escaped_char (buf ! (d + 1)) (buf ! (d + 2)); r = process_byte ch u
                  in if \<not> fst r then (Inl (invalid_utf8 d), buf)
                     else let e' = (\<not> finalized (snd r))
                          in inplace_loop ordinary n (d + 3) (dest + 1) (if e' then snd r else reset (snd r)) e'
                               (buf[dest := octet_char ch]))
               else (Inl (invalid_escape d), buf))
            else if c = CHR ''+'' then inplace_loop ordinary n (d + 1) (dest + 1) u e (buf[dest := CHR '' ''])
            else if ordinary c then inplace_loop ordinary n (d + 1) (dest + 1) u e (buf[dest := c])
            else (Inl (invalid_char c d), buf))
      else (if e then Inl unfinished_utf8 else Inr dest, buf))"
  by pat_completeness auto
termination
  by (relation "measure (\<lambda>(ordinary, n, d, dest, u, e, buf). n - d)") auto

declare inplace_loop.simps [simp del]

definition try_inplace_unescape_percent_encoding :: "(char \<Rightarrow> bool) \<Rightarrow> string \<Rightarrow> nat \<Rightarrow> (pct_failure + nat) \<times> string" where
  "try_inplace_unescape_percent_encoding ordinary data n = inplace_loop ordinary n 0 0 utf8_start False data"

section \<open>Decoding in place\<close>

lemma octet_of_char [simp]: "octet (octet_char w) = w"
proof -
  have "unat w < 256" using unsigned_less [of w] by simp
  then have "(of_char (char_of (unat w)) :: nat) = unat w" by simp
  then have "octet (octet_char w) = of_nat (unat w)" unfolding octet_char_def by (metis of_nat_of_char)
  then show ?thesis by simp
qed

lemma chars_of_octets [simp]: "chars_of (map octet s) = s"
  by (simp add: chars_of_def unat_octet comp_def)

lemma take_written: "j < length buf \<Longrightarrow> take (Suc j) (buf[j := c]) = take j buf @ [c]"
  by (simp add: take_Suc_conv_app_nth)

lemma rest_written: "j < k \<Longrightarrow> drop k (take n (buf[j := c])) = drop k (take n buf)"
  by (simp add: take_update_swap)

lemma drop_written: "j < k \<Longrightarrow> drop k (buf[j := c]) = drop k buf"
  by simp

lemma short_cases: "length ys < 2 \<Longrightarrow> ys = [] \<or> (\<exists>y. ys = [y])"
  by (cases ys; cases "tl ys") auto

text \<open>The read position is never behind the one written, so that decoding in place reads what was there.\<close>

definition same_decoding :: "nat \<Rightarrow> string \<Rightarrow> pct_failure + 8 word list \<Rightarrow> (pct_failure + nat) \<times> string \<Rightarrow> bool" where
  "same_decoding n buf r s \<longleftrightarrow>
     (case r of Inl f \<Rightarrow> fst s = Inl f | Inr ws \<Rightarrow> fst s = Inr (length ws) \<and> take (length ws) (snd s) = chars_of ws \<and> length ws \<le> n) \<and>
     drop n (snd s) = drop n buf \<and> length (snd s) = length buf"

lemma same_decoding_written:
  "same_decoding n (buf[j := c]) r s \<Longrightarrow> j < n \<Longrightarrow> same_decoding n buf r s"
  by (simp add: same_decoding_def)

lemma inplace_same:
  assumes "dest \<le> d" and "n \<le> length buf" and "dest \<le> n"
  shows "same_decoding n buf (unescape_loop ordinary d u e (map octet (take dest buf)) (drop d (take n buf)))
    (inplace_loop ordinary n d dest u e buf)"
  using assms
proof (induction ordinary n d dest u e buf rule: inplace_loop.induct)
  case (1 ordinary n d dest u e buf)
  let ?in = "inplace_loop ordinary n d dest u e buf"
  show ?case
  proof (cases "d < n")
    case False
    then show ?thesis using 1(4-6) by (subst inplace_loop.simps) (simp add: same_decoding_def)
  next
    case True
    let ?c = "buf ! d"
    have j: "dest < n" "dest < length buf" using True 1(4,5) by simp_all
    have front: "drop d (take n buf) = ?c # drop (d + 1) (take n buf)"
      using True 1(5) by (simp add: Cons_nth_drop_Suc [symmetric])
    show ?thesis
    proof (cases "e \<and> ?c \<noteq> CHR ''%''")
      case True
      then show ?thesis using \<open>d < n\<close> unfolding front by (subst inplace_loop.simps) (simp add: same_decoding_def Let_def)
    next
      case ok: False
      show ?thesis
      proof (cases "?c = CHR ''%''")
        case pct: True
        show ?thesis
        proof (cases "3 \<le> n - d")
          case three: True
          let ?a = "buf ! (d + 1)" and ?b = "buf ! (d + 2)"
          have rest: "drop (d + 1) (take n buf) = ?a # ?b # drop (d + 3) (take n buf)"
            using three 1(5) by (simp add: Cons_nth_drop_Suc [symmetric] numeral_3_eq_3 numeral_2_eq_2)
          let ?ch = "extract_escaped_char ?a ?b"
          let ?r = "process_byte ?ch u"
          let ?e = "\<not> finalized (snd ?r)"
          let ?buf = "buf[dest := octet_char ?ch]"
          show ?thesis
          proof (cases "is_hexdigit ?a \<and> is_hexdigit ?b \<and> fst ?r")
            case hex: True
            let ?v = "if ?e then snd ?r else reset (snd ?r)"
            have "same_decoding n ?buf (unescape_loop ordinary (d + 3) ?v ?e (map octet (take (dest + 1) ?buf)) (drop (d + 3) (take n ?buf)))
              (inplace_loop ordinary n (d + 3) (dest + 1) ?v ?e ?buf)"
              using 1(1) [OF \<open>d < n\<close> refl ok pct _ refl refl _ refl] hex three 1(4-6) j by simp
            note ih = same_decoding_written [OF this j(1)]
            have acc: "map octet (take (dest + 1) ?buf) = map octet (take dest buf) @ [?ch]"
              "drop (d + 3) (take n ?buf) = drop (d + 3) (take n buf)"
              using j 1(4) by (simp_all add: take_written rest_written)
            have "unescape_loop ordinary d u e (map octet (take dest buf)) (?c # ?a # ?b # drop (d + 3) (take n buf)) =
                unescape_loop ordinary (d + 3) ?v ?e (map octet (take dest buf) @ [?ch]) (drop (d + 3) (take n buf))"
              using hex pct by (simp add: Let_def)
            moreover have "inplace_loop ordinary n d dest u e buf = inplace_loop ordinary n (d + 3) (dest + 1) ?v ?e ?buf"
              by (subst inplace_loop.simps) (use hex pct three \<open>d < n\<close> in \<open>simp add: Let_def\<close>)
            ultimately show ?thesis using ih unfolding front rest acc by simp
          next
            case False
            then show ?thesis unfolding front rest using pct three \<open>d < n\<close>
              by (subst inplace_loop.simps) (auto simp: same_decoding_def Let_def)
          qed
        next
          case False
          then have "length (drop (d + 1) (take n buf)) < 2" using 1(5) by simp
          from short_cases [OF this] have "drop (d + 1) (take n buf) = [] \<or> (\<exists>y. drop (d + 1) (take n buf) = [y])" .
          then have "unescape_loop ordinary d u e (map octet (take dest buf)) (drop d (take n buf)) = Inl (invalid_escape d)"
            unfolding front using pct by (elim disjE exE) (simp_all del: drop_eq_Nil)
          then show ?thesis using pct False \<open>d < n\<close>
            by (subst inplace_loop.simps) (simp add: same_decoding_def Let_def)
        qed
      next
        case npct: False
        then have e: "\<not> e" using ok by simp
        show ?thesis
        proof (cases "?c = CHR ''+''")
          case plus: True
          have "same_decoding n (buf[dest := CHR '' '']) (unescape_loop ordinary (d + 1) u e
              (map octet (take (dest + 1) (buf[dest := CHR '' '']))) (drop (d + 1) (take n (buf[dest := CHR '' '']))))
            (inplace_loop ordinary n (d + 1) (dest + 1) u e (buf[dest := CHR '' '']))"
            using 1(2) [OF \<open>d < n\<close> refl ok npct plus] 1(4-6) j by simp
          from same_decoding_written [OF this j(1)] show ?thesis
            unfolding front using plus npct e \<open>d < n\<close> 1(4) j
            by (subst inplace_loop.simps) (simp add: Let_def take_written rest_written)
        next
          case np: False
          show ?thesis
          proof (cases "ordinary ?c")
            case ord: True
            have "same_decoding n (buf[dest := ?c]) (unescape_loop ordinary (d + 1) u e
                (map octet (take (dest + 1) (buf[dest := ?c]))) (drop (d + 1) (take n (buf[dest := ?c]))))
              (inplace_loop ordinary n (d + 1) (dest + 1) u e (buf[dest := ?c]))"
              using 1(3) [OF \<open>d < n\<close> refl ok npct np ord] 1(4-6) j by simp
            from same_decoding_written [OF this j(1)] show ?thesis
              unfolding front using ord np npct e \<open>d < n\<close> 1(4) j
              by (subst inplace_loop.simps) (simp add: Let_def take_written rest_written)
          next
            case False
            then show ?thesis unfolding front using np npct e \<open>d < n\<close>
              by (subst inplace_loop.simps) (simp add: same_decoding_def Let_def)
          qed
        qed
      qed
    qed
  qed
qed

lemma inplace_decodes:
  assumes "n \<le> length data"
  shows "case try_unescape_percent_encoding ordinary (take n data) of
      Inl f \<Rightarrow> fst (try_inplace_unescape_percent_encoding ordinary data n) = Inl f
    | Inr t \<Rightarrow> fst (try_inplace_unescape_percent_encoding ordinary data n) = Inr (length t) \<and>
        take (length t) (snd (try_inplace_unescape_percent_encoding ordinary data n)) = t \<and> length t \<le> n"
    and "drop n (snd (try_inplace_unescape_percent_encoding ordinary data n)) = drop n data"
    and "length (snd (try_inplace_unescape_percent_encoding ordinary data n)) = length data"
  using inplace_same [of 0 0 n data ordinary utf8_start False] assms
  by (auto simp: same_decoding_def try_unescape_percent_encoding_def try_inplace_unescape_percent_encoding_def chars_of_def
      split: sum.splits)

section \<open>Encoding and decoding\<close>

text \<open>The traits whose ordinary characters decode to themselves.\<close>

definition proper_traits :: "(char \<Rightarrow> bool) \<Rightarrow> bool" where
  "proper_traits ordinary \<longleftrightarrow> (\<forall>c. ordinary c \<longrightarrow> of_char c < (128 :: nat) \<and> c \<noteq> CHR ''%'' \<and> c \<noteq> CHR ''+'')"

lemma proper_default: "proper_traits ordinary_char" "proper_traits x_www_form_urlencoded_ordinary" "proper_traits javascript_compatible_ordinary"
  by (auto simp: proper_traits_def ordinary_char_def x_www_form_urlencoded_ordinary_def javascript_compatible_ordinary_def
      alnum_char_def less_eq_char_def)

lemma hex_length: "length (hex_digits n) = (if n < 16 then 1 else 2)"
  by (simp add: hex_digits_def)

lemma format_byte: "b < 256 \<Longrightarrow> CHR ''%'' # format_02X (int b) = pct_byte b"
proof -
  assume b: "b < 256"
  have "hex_upper 0 = CHR ''0''" by code_simp
  then show ?thesis by (cases "b < 16") (simp_all add: format_02X_def hex_digits_def pct_byte_def Let_def)
qed

lemma char_value_of: "b < 256 \<Longrightarrow> \<not> signed_char \<or> b < 128 \<Longrightarrow> char_value signed_char (char_of b) = int b"
proof -
  assume b: "b < 256" "\<not> signed_char \<or> b < 128"
  have u: "uint (octet (char_of b)) = int b" using b(1) by (simp add: unat_octet uint_nat)
  then have "sint (octet (char_of b)) = int b" if "b < 128"
    using that by (simp add: sint_uint signed_take_bit_int_eq_self)
  then show ?thesis using u b(2) by (auto simp: char_value_def)
qed

text \<open>The text of a list of code points, and how the encoder writes it.\<close>

definition utf8_text :: "nat list \<Rightarrow> string" where
  "utf8_text ns = concat (map (\<lambda>n. map char_of (utf8_encode n)) ns)"

definition escaped_item :: "(char \<Rightarrow> bool) \<Rightarrow> nat \<Rightarrow> item" where
  "escaped_item ordinary n = (if n < 128 \<and> ordinary (char_of n) then Plain (char_of n) else Symbol n)"

definition escape_char :: "bool \<Rightarrow> (char \<Rightarrow> bool) \<Rightarrow> char \<Rightarrow> string" where
  "escape_char signed_char ordinary c = (if ordinary c then [c] else CHR ''%'' # format_02X (char_value signed_char c))"

lemma escape_chars: "escape_percent_encoding signed_char ordinary data = concat (map (escape_char signed_char ordinary) data)"
proof -
  have "concat (map (escape_char signed_char ordinary) data) = data" if "filter (\<lambda>c. \<not> ordinary c) data = []"
    using that by (induction data) (auto simp: escape_char_def split: if_splits)
  then show ?thesis by (simp add: escape_percent_encoding_def escape_char_def [abs_def])
qed

lemma escape_symbol:
  assumes "proper_traits ordinary" and "code_point n" and "signed_char \<longrightarrow> n < 128"
  shows "concat (map (escape_char signed_char ordinary) (map char_of (utf8_encode n))) = show_item (escaped_item ordinary n)"
proof (cases "n < 128")
  case True
  then show ?thesis using char_value_of [of n signed_char] format_byte [of n]
    by (simp add: utf8_encode_def escaped_item_def escape_char_def)
next
  case False
  have "escape_char signed_char ordinary (char_of b) = pct_byte b" if "b \<in> set (utf8_encode n)" for b
  proof -
    have b: "b < 256" "128 \<le> b" using utf8_encode_bytes [OF assms(2) that] that False by (auto simp: utf8_encode_def split: if_splits)
    then have "\<not> ordinary (char_of b)" using assms(1) by (auto simp: proper_traits_def)
    then show ?thesis using char_value_of [OF b(1), of signed_char] format_byte [OF b(1)] assms(3) False
      by (simp add: escape_char_def)
  qed
  then have "map (escape_char signed_char ordinary) (map char_of (utf8_encode n)) = map pct_byte (utf8_encode n)" by simp
  then show ?thesis unfolding escaped_item_def using False by (simp del: map_map)
qed

lemma decoded_items:
  "list_all (wf_item_for ordinary) items \<Longrightarrow>
    try_unescape_percent_encoding ordinary (concat (map show_item items)) = Inr (concat (map item_bytes items))"
  by (simp add: try_unescape_percent_encoding_def unescape_shown)

lemma escape_unescape:
  assumes "proper_traits ordinary" and "list_all code_point ns" and "signed_char \<longrightarrow> list_all (\<lambda>n. n < 128) ns"
  shows "try_unescape_percent_encoding ordinary (escape_percent_encoding signed_char ordinary (utf8_text ns)) = Inr (utf8_text ns)"
proof -
  have "escape_percent_encoding signed_char ordinary (utf8_text ns) = concat (map show_item (map (escaped_item ordinary) ns))"
    using assms(2,3)
  proof (induction ns)
    case (Cons n ns)
    then show ?case using escape_symbol [OF assms(1), of n signed_char] by (simp add: escape_chars utf8_text_def)
  qed (simp add: escape_chars utf8_text_def)
  moreover have "list_all (wf_item_for ordinary) (map (escaped_item ordinary) ns)"
    using assms(1,2) by (auto simp: list_all_iff escaped_item_def proper_traits_def)
  moreover have "concat (map item_bytes (map (escaped_item ordinary) ns)) = utf8_text ns"
    by (simp add: utf8_text_def comp_def escaped_item_def) (induction ns; simp add: utf8_encode_def)
  ultimately show ?thesis using decoded_items by metis
qed

text \<open>With a signed \<open>char\<close> the encoder writes a sign for a byte outside ASCII, which cannot be decoded.\<close>

lemma signed_escape:
  "escape_percent_encoding True ordinary_char (utf8_text [0xE9]) = ''%-3D%-57''"
  "try_unescape_percent_encoding ordinary_char (escape_percent_encoding True ordinary_char (utf8_text [0xE9])) = Inl (invalid_escape 0)"
  by code_simp+

text \<open>The relaxed traits leave a plus as it is, and it decodes to a space; a NUL is ordinary, too.\<close>

lemma relaxed_plus:
  "try_unescape_percent_encoding relaxed_ordinary (escape_percent_encoding True relaxed_ordinary ''1+1'') = Inr ''1 1''"
  "relaxed_ordinary (CHR 0x00)"
  by code_simp+

section \<open>Normalization\<close>

text \<open>
  \<open>run_normalization_algo\<close>: the pieces it gives to its handlers, one character or three. When it
  throws, the pieces given before are not kept.
\<close>

fun normalization_loop :: "nat \<Rightarrow> utf8_checker \<Rightarrow> bool \<Rightarrow> string \<Rightarrow> pct_failure + string list" where
  "normalization_loop pos u e [] = (if e then Inl unfinished_utf8 else Inr [])"
| "normalization_loop pos u e (c # d) =
     (if e \<and> c \<noteq> CHR ''%'' then Inl (next_byte_expected pos)
      else if c \<noteq> CHR ''%'' then rbind (normalization_loop (pos + 1) u e d) (\<lambda>ps. Inr ([c] # ps))
      else (case d of
              c1 # c2 # d' \<Rightarrow>
                if is_hexdigit c1 \<and> is_hexdigit c2 then
                  (let ch = extract_escaped_char c1 c2; r = process_byte ch u
                   in if \<not> fst r then Inl (invalid_utf8 pos)
                      else let v = snd r; symbol = m_current_symbol v; ascii = char_of (unat symbol)
                        in if finalized v
                           then rbind (normalization_loop (pos + 3) (reset v) False d')
                             (\<lambda>ps. Inr ((if symbol < 0x80 \<and> ordinary_char ascii then [ascii] else [c, c1, c2]) # ps))
                           else rbind (normalization_loop (pos + 3) v True d') (\<lambda>ps. Inr ([c, c1, c2] # ps)))
                else Inl (invalid_escape pos)
            | _ \<Rightarrow> Inl (invalid_escape pos)))"

definition run_normalization_algo :: "string \<Rightarrow> pct_failure + string list" where
  "run_normalization_algo what = normalization_loop 0 utf8_start False what"

definition estimate_required_capacity :: "string \<Rightarrow> pct_failure + nat" where
  "estimate_required_capacity what = rbind (run_normalization_algo what) (\<lambda>ps. Inr (sum_list (map length ps)))"

text \<open>The buffer that \<open>dest\<close> points to; nothing is checked, so what does not fit would be written behind it.\<close>

definition normalize_to :: "string \<Rightarrow> string \<Rightarrow> pct_failure + string" where
  "normalize_to what dest = rbind (run_normalization_algo what) (\<lambda>ps. Inr (concat ps @ drop (length (concat ps)) dest))"

text \<open>A checker within a symbol: its value so far cannot end below \<open>0x80\<close>, nor beyond 32 bits.\<close>

definition in_symbol :: "utf8_checker \<Rightarrow> bool" where
  "in_symbol u \<longleftrightarrow>
     (let v = unat (m_current_symbol u); k = m_current_symbol_rest_bytes u
      in 0 < k \<and> (v + 1) * 64 ^ k \<le> 2 ^ 32 \<and>
         (m_state u = valid \<and> 128 \<le> v * 64 ^ k \<or> m_state u = may_be_overlong \<and> v = 0 \<and> k \<in> {2, 3, 4, 5}))"

lemma more_masks [simp]:
  fixes b :: "8 word"
  shows "b AND 0xF8 = 0x80 \<longleftrightarrow> 128 \<le> unat b \<and> unat b < 136" "b AND 0xFC = 0x80 \<longleftrightarrow> 128 \<le> unat b \<and> unat b < 132"
  using mask_range [of 3 "0xF8" "0x80" 16 b] mask_range [of 2 "0xFC" "0x80" 32 b]
  by (simp_all add: mask_eq_exp_minus_1 push_bit_eq_mult)

lemma unat_lower:
  fixes b :: "8 word"
  shows "unat (b AND 0x3) = unat b mod 4" "unat (b AND 0x1) = unat b mod 2"
proof -
  have m: "unat (b AND mask n) = unat b mod 2 ^ n" if "n \<le> 8" for n
  proof -
    have "unat (b AND mask n) = take_bit n (unat b)"
      by (simp only: take_bit_eq_mask [symmetric] unsigned_take_bit_eq)
    then show ?thesis by (simp add: take_bit_eq_mod)
  qed
  from m [of 2] m [of 1] show "unat (b AND 0x3) = unat b mod 4" "unat (b AND 0x1) = unat b mod 2"
    by (simp_all add: mask_eq_exp_minus_1)
qed

lemma at_in_symbol:
  "at v x k st \<Longrightarrow> 0 < k \<Longrightarrow> (x + 1) * 64 ^ k \<le> 2 ^ 32 \<Longrightarrow>
    st = valid \<and> 128 \<le> x * 64 ^ k \<or> st = may_be_overlong \<and> x = 0 \<and> k \<in> {2, 3, 4, 5} \<Longrightarrow> \<not> finalized v \<and> in_symbol v"
  by (auto simp: at_def in_symbol_def finalized_def)

text \<open>Lead bytes of five and six bytes, and bytes that cannot lead.\<close>

lemma long_lead:
  fixes b :: "8 word"
  shows "248 \<le> unat b \<Longrightarrow> unat b < 252 \<Longrightarrow> \<exists>v. process_byte b utf8_start = (True, v) \<and>
      at v (unat b - 248) 4 (if unat b = 248 then may_be_overlong else valid)"
    and "252 \<le> unat b \<Longrightarrow> unat b < 254 \<Longrightarrow> \<exists>v. process_byte b utf8_start = (True, v) \<and>
      at v (unat b - 252) 5 (if unat b = 252 then may_be_overlong else valid)"
    and "128 \<le> unat b \<Longrightarrow> unat b < 194 \<or> 254 \<le> unat b \<Longrightarrow> \<not> fst (process_byte b utf8_start)"
proof -
  have n: "unat b mod 4 = unat b - 248" if "248 \<le> unat b" "unat b < 252" using that by (simp add: mod_nat_eqI)
  have n': "unat b mod 2 = unat b - 252" if "252 \<le> unat b" "unat b < 254" using that by (simp add: mod_nat_eqI)
  note defs = process_byte_def check_overlong_def Let_def at_def word_unat_eq_iff [of b] unat_lower utf8_start_def
  show "248 \<le> unat b \<Longrightarrow> unat b < 252 \<Longrightarrow> \<exists>v. process_byte b utf8_start = (True, v) \<and>
      at v (unat b - 248) 4 (if unat b = 248 then may_be_overlong else valid)"
    using n by (simp add: defs)
  show "252 \<le> unat b \<Longrightarrow> unat b < 254 \<Longrightarrow> \<exists>v. process_byte b utf8_start = (True, v) \<and>
      at v (unat b - 252) 5 (if unat b = 252 then may_be_overlong else valid)"
    using n' by (simp add: defs)
  assume b: "128 \<le> unat b" "unat b < 194 \<or> 254 \<le> unat b"
  then consider "unat b < 192" | "unat b = 192 \<or> unat b = 193" | "254 \<le> unat b" by linarith
  then show "\<not> fst (process_byte b utf8_start)" using b(1) by cases (auto simp: defs)
qed

lemma first_byte:
  assumes "process_byte b utf8_start = (True, v)"
  shows "finalized v \<and> m_state v = valid \<and> unat (m_current_symbol v) = unat b \<and> unat b < 128 \<or> \<not> finalized v \<and> in_symbol v"
proof -
  have u: "m_current_symbol_rest_bytes utf8_start = 0" "m_state utf8_start = valid" by (simp_all add: utf8_start_def)
  have ok: "fst (process_byte b utf8_start)" using assms by simp
  have "unat b < 256" using unsigned_less [of b] by simp
  then consider "unat b < 128" | "194 \<le> unat b" "unat b < 224" | "224 \<le> unat b" "unat b < 240" | "240 \<le> unat b" "unat b < 248"
    | "248 \<le> unat b" "unat b < 252" | "252 \<le> unat b" "unat b < 254" | "128 \<le> unat b" "unat b < 194 \<or> 254 \<le> unat b" by linarith
  then show ?thesis
  proof cases
    case 1
    with lead_byte(1) [OF u, of b] assms show ?thesis by (auto simp: at_def finalized_def)
  next
    case 2
    with lead_byte(2) [OF u, of b] assms have "at v (unat b - 0xC0) 1 valid" by auto
    from at_in_symbol [OF this] 2 show ?thesis by auto
  next
    case 3
    with lead_byte(3) [OF u, of b] assms have "at v (unat b - 0xE0) 2 (if unat b = 0xE0 then may_be_overlong else valid)" by auto
    from at_in_symbol [OF this] 3 show ?thesis by (cases "unat b = 0xE0") auto
  next
    case 4
    with lead_byte(4) [OF u, of b] assms have "at v (unat b - 0xF0) 3 (if unat b = 0xF0 then may_be_overlong else valid)" by auto
    from at_in_symbol [OF this] 4 show ?thesis by (cases "unat b = 0xF0") auto
  next
    case 5
    with long_lead(1) [of b] assms have "at v (unat b - 248) 4 (if unat b = 248 then may_be_overlong else valid)" by auto
    from at_in_symbol [OF this] 5 show ?thesis by (cases "unat b = 248") auto
  next
    case 6
    with long_lead(2) [of b] assms have "at v (unat b - 252) 5 (if unat b = 252 then may_be_overlong else valid)" by auto
    from at_in_symbol [OF this] 6 show ?thesis by (cases "unat b = 252") auto
  next
    case 7
    then show ?thesis using long_lead(3) [of b] ok by auto
  qed
qed

text \<open>A further byte: a symbol that ends has not become smaller than \<open>0x80\<close>.\<close>

lemma further_byte:
  assumes "in_symbol u" and "process_byte b u = (True, v)"
  shows "finalized v \<and> m_state v = valid \<and> 128 \<le> unat (m_current_symbol v) \<or> \<not> finalized v \<and> in_symbol v"
proof -
  define x where "x = unat (m_current_symbol u)"
  define k where "k = m_current_symbol_rest_bytes u"
  have u: "0 < k" "(x + 1) * 64 ^ k \<le> 2 ^ 32"
    "m_state u = valid \<and> 128 \<le> x * 64 ^ k \<or> m_state u = may_be_overlong \<and> x = 0 \<and> k \<in> {2, 3, 4, 5}"
    using assms(1) by (simp_all add: in_symbol_def x_def k_def Let_def)
  obtain j where k: "k = Suc j" using u(1) by (cases k) auto
  have "(x + 1) * 64 \<le> (x + 1) * 64 ^ k" by (rule mult_left_mono) (simp_all add: k)
  with u(2) have x: "x < 2 ^ 26" by simp
  have b: "128 \<le> unat b" "unat b < 192"
  proof -
    have "m_current_symbol_rest_bytes (check_overlong b u) = k" by (simp add: check_overlong_def k_def Let_def)
    then show "128 \<le> unat b" "unat b < 192" using assms(2) u(1)
      by (auto simp: process_byte_def Let_def split: if_splits)
  qed
  then have m: "unat b mod 64 = unat b - 128" by (simp add: mod_nat_eqI)
  let ?y = "x * 64 + (unat b - 128)"
  have six: "unat (push_bit 6 (m_current_symbol u) OR ucast (b AND 0x3F)) = ?y"
    using append_six [of "m_current_symbol u" b] x m by (simp add: x_def)
  have large: "m_state u = may_be_overlong \<Longrightarrow> check_overlong b u = u\<lparr>m_state := valid\<rparr> \<and> 128 \<le> ?y * 64 ^ j"
    using assms(2) u b by (auto simp: process_byte_def check_overlong_def k_def [symmetric] k Let_def split: if_splits)
  have "check_overlong b u = u\<lparr>m_state := valid\<rparr>"
  proof (cases "m_state u = valid")
    case True
    then show ?thesis using u(1) b by (intro overlong_check [of u valid]) (simp_all add: k_def)
  qed (use u(3) large in auto)
  then have v: "v = (let w = u\<lparr>m_state := valid, m_current_symbol := push_bit 6 (m_current_symbol u) OR ucast (b AND 0x3F),
      m_current_symbol_rest_bytes := j\<rparr> in if j = 0 then validate_current_symbol w else w)"
    using assms(2) u(1) b by (simp add: process_byte_def k_def [symmetric] k Let_def)
  have low: "128 \<le> ?y * 64 ^ j"
  proof (cases "m_state u = valid")
    case True
    then have "128 \<le> x * 64 * 64 ^ j" using u(3) by (simp add: k)
    also have "\<dots> \<le> ?y * 64 ^ j" by (intro mult_right_mono) simp_all
    finally show ?thesis .
  qed (use u(3) large in auto)
  show ?thesis
  proof (cases "j = 0")
    case True
    have "m_state v = valid \<or> m_state v = may_be_overlong" using assms(2) by (auto simp: process_byte_def Let_def)
    then show ?thesis using v six low True
      by (auto simp: finalized_def validate_current_symbol_def Let_def split: if_splits)
  next
    case False
    have "(?y + 1) * 64 ^ j \<le> (x + 1) * 64 * 64 ^ j" using b by (intro mult_right_mono) simp_all
    also have "\<dots> \<le> 2 ^ 32" using u(2) by (simp add: k algebra_simps)
    finally show ?thesis using v six low False by (simp add: finalized_def in_symbol_def Let_def)
  qed
qed

text \<open>The states of the checker between two steps of a loop.\<close>

definition checker_ok :: "utf8_checker \<Rightarrow> bool \<Rightarrow> bool" where
  "checker_ok u e \<longleftrightarrow> (if e then in_symbol u else u = utf8_start)"

lemma checked_byte:
  assumes "checker_ok u e" and "process_byte b u = (True, v)"
  shows "checker_ok (if finalized v then reset v else v) (\<not> finalized v)"
    and "finalized v \<Longrightarrow> unat (m_current_symbol v) < 128 \<Longrightarrow> \<not> e \<and> u = utf8_start \<and> unat (m_current_symbol v) = unat b"
proof -
  have r: "reset v = utf8_start" if "finalized v" "m_state v = valid"
    using that by (simp add: reset_def utf8_start_def finalized_def)
  show "checker_ok (if finalized v then reset v else v) (\<not> finalized v)"
    and "finalized v \<Longrightarrow> unat (m_current_symbol v) < 128 \<Longrightarrow> \<not> e \<and> u = utf8_start \<and> unat (m_current_symbol v) = unat b"
    using first_byte [of b v] further_byte [of u b v] assms r by (auto simp: checker_ok_def split: if_splits)
qed

text \<open>A step of the normalization: a character kept, or an escape, whose piece is its character or itself.\<close>

lemma normalization_step:
  assumes "normalization_loop pos u e (c # d) = Inr ps" and "checker_ok u e"
  obtains (plain) qs where "c \<noteq> CHR ''%''" "\<not> e" "ps = [c] # qs" "normalization_loop (pos + 1) u e d = Inr qs"
  | (replaced) c1 c2 d' v qs where "c = CHR ''%''" "d = c1 # c2 # d'" "is_hexdigit c1" "is_hexdigit c2"
      "process_byte (extract_escaped_char c1 c2) u = (True, v)" "finalized v" "\<not> e" "u = utf8_start" "reset v = utf8_start"
      "ordinary_char (octet_char (extract_escaped_char c1 c2))"
      "ps = [octet_char (extract_escaped_char c1 c2)] # qs" "normalization_loop (pos + 3) utf8_start False d' = Inr qs"
  | (kept) c1 c2 d' v qs where "c = CHR ''%''" "d = c1 # c2 # d'" "is_hexdigit c1" "is_hexdigit c2"
      "process_byte (extract_escaped_char c1 c2) u = (True, v)"
      "finalized v \<longrightarrow> \<not> (m_current_symbol v < 0x80 \<and> ordinary_char (char_of (unat (m_current_symbol v))))"
      "checker_ok (if finalized v then reset v else v) (\<not> finalized v)" "ps = [c, c1, c2] # qs"
      "normalization_loop (pos + 3) (if finalized v then reset v else v) (\<not> finalized v) d' = Inr qs"
proof (cases "c = CHR ''%''")
  case False
  then show thesis using assms(1) plain by (auto simp: rbind_eq_Inr split: if_splits)
next
  case True
  then obtain c1 c2 d' where d: "d = c1 # c2 # d'" "is_hexdigit c1" "is_hexdigit c2"
    using assms(1) by (auto split: list.splits if_splits)
  obtain b v where pb: "process_byte (extract_escaped_char c1 c2) u = (b, v)" by (cases "process_byte (extract_escaped_char c1 c2) u")
  with assms(1) d True have b: "b" by (auto simp: Let_def split: if_splits)
  note ok = checked_byte [OF assms(2) pb [unfolded eqTrueI [OF b]]]
  show thesis
  proof (cases "finalized v \<and> m_current_symbol v < 0x80 \<and> ordinary_char (char_of (unat (m_current_symbol v)))")
    case rep: True
    then have "unat (m_current_symbol v) < 128" by (simp add: word_less_nat_alt)
    with ok(2) rep have e: "\<not> e" "u = utf8_start" "unat (m_current_symbol v) = unat (extract_escaped_char c1 c2)" by auto
    moreover have "reset v = utf8_start" using ok(1) rep by (simp add: checker_ok_def)
    ultimately show thesis using replaced [OF True d pb [unfolded eqTrueI [OF b]]] assms(1) d True pb b rep
      by (auto simp: Let_def octet_char_def rbind_eq_Inr)
  next
    case False
    then show thesis using kept [OF True d pb [unfolded eqTrueI [OF b]] _ ok(1)] assms(1) d True pb b
      by (cases "finalized v") (auto simp: Let_def rbind_eq_Inr)
  qed
qed

text \<open>What is normalized stays as it is.\<close>

lemma normalized_again:
  "normalization_loop pos u e s = Inr ps \<Longrightarrow> checker_ok u e \<Longrightarrow> normalization_loop p u e (concat ps) = Inr ps"
proof (induction "length s" arbitrary: s pos u e p ps rule: less_induct)
  case less
  show ?case
  proof (cases s)
    case Nil
    then show ?thesis using less.prems by (auto split: if_splits)
  next
    case (Cons c d)
    show ?thesis
    proof (cases rule: normalization_step [OF less.prems(1) [unfolded Cons] less.prems(2), case_names plain replaced kept])
      case (plain qs)
      have "normalization_loop (p + 1) u e (concat qs) = Inr qs"
        by (rule less.hyps [OF _ plain(4) less.prems(2)]) (simp add: Cons)
      with plain show ?thesis by simp
    next
      case (replaced c1 c2 d' v qs)
      have "normalization_loop (p + 1) utf8_start False (concat qs) = Inr qs"
        by (rule less.hyps [OF _ replaced(12)]) (simp_all add: Cons replaced(2) checker_ok_def)
      with replaced show ?thesis using ordinary_not_special [OF replaced(10)] by simp
    next
      case (kept c1 c2 d' v qs)
      have "normalization_loop (p + 3) (if finalized v then reset v else v) (\<not> finalized v) (concat qs) = Inr qs"
        by (rule less.hyps [OF _ kept(9,7)]) (simp add: Cons kept(2))
      with kept show ?thesis by (cases "finalized v") (simp_all add: Let_def)
    qed
  qed
qed

text \<open>The normalized text decodes to the same.\<close>

lemma normalized_decodes_same:
  "normalization_loop pos u e s = Inr ps \<Longrightarrow> checker_ok u e \<Longrightarrow> unescape_loop ordinary_char q u e acc s = Inr ws \<Longrightarrow>
    unescape_loop ordinary_char p u e acc (concat ps) = Inr ws"
proof (induction "length s" arbitrary: s pos u e p q acc ps rule: less_induct)
  case less
  show ?case
  proof (cases s)
    case Nil
    then show ?thesis using less.prems by (auto split: if_splits)
  next
    case (Cons c d)
    note un = less.prems(3) [unfolded Cons]
    have d: "length d < length s" by (simp add: Cons)
    show ?thesis
    proof (cases rule: normalization_step [OF less.prems(1) [unfolded Cons] less.prems(2), case_names plain replaced kept])
      case (plain qs)
      note ih = less.hyps [OF d plain(4) less.prems(2)]
      consider "c = CHR ''+''" | "c \<noteq> CHR ''+''" "ordinary_char c" using un plain(1) by (auto split: if_splits)
      then show ?thesis
      proof cases
        case 1
        then show ?thesis using un plain ih [of "q + 1" "acc @ [octet CHR '' '']" "p + 1"] by simp
      next
        case 2
        then show ?thesis using un plain ih [of "q + 1" "acc @ [octet c]" "p + 1"] by simp
      qed
    next
      case (replaced c1 c2 d' v qs)
      let ?c = "octet_char (extract_escaped_char c1 c2)"
      have "unescape_loop ordinary_char (q + 3) utf8_start False (acc @ [octet ?c]) d' = Inr ws"
        using un replaced by (simp add: Let_def)
      from less.hyps [OF _ replaced(12) _ this, of "p + 1"]
      have "unescape_loop ordinary_char (p + 1) utf8_start False (acc @ [octet ?c]) (concat qs) = Inr ws"
        by (simp add: Cons replaced(2) checker_ok_def)
      with replaced ordinary_not_special [OF replaced(10)] show ?thesis by simp
    next
      case (kept c1 c2 d' v qs)
      let ?ch = "extract_escaped_char c1 c2" and ?w = "if finalized v then reset v else v"
      have "unescape_loop ordinary_char (q + 3) ?w (\<not> finalized v) (acc @ [?ch]) d' = Inr ws"
        using un kept by (cases "finalized v") (simp_all add: Let_def)
      from less.hyps [OF _ kept(9,7) this, of "p + 3"]
      have "unescape_loop ordinary_char (p + 3) ?w (\<not> finalized v) (acc @ [?ch]) (concat qs) = Inr ws"
        by (simp add: Cons kept(2))
      with kept show ?thesis by (cases "finalized v") (simp_all add: Let_def)
    qed
  qed
qed

text \<open>The size of what a loop writes into stays.\<close>

lemma inplace_loop_length: "length (snd (inplace_loop ordinary n d dest u e buf)) = length buf"
proof (induction ordinary n d dest u e buf rule: inplace_loop.induct)
  case (1 ordinary n d dest u e buf)
  then show ?case by (subst inplace_loop.simps) (simp add: Let_def)
qed

lemma inplace_length [simp]: "length (snd (try_inplace_unescape_percent_encoding ordinary data n)) = length data"
  by (simp add: try_inplace_unescape_percent_encoding_def inplace_loop_length)

section \<open>Properties\<close>

text \<open>
  C29: what the encoder writes the decoder gives back, for every Unicode text and all traits but the
  relaxed ones; where \<open>char\<close> is signed, for every ASCII text only.
\<close>

theorem percent_round_trip:
  assumes "proper_traits ordinary" and "list_all code_point ns" and "signed_char \<longrightarrow> list_all (\<lambda>n. n < 128) ns"
  shows "try_unescape_percent_encoding ordinary (escape_percent_encoding signed_char ordinary (utf8_text ns)) = Inr (utf8_text ns)"
  by (rule escape_unescape [OF assms])

theorem percent_round_trip_witness:
  "try_unescape_percent_encoding ordinary_char (escape_percent_encoding False ordinary_char (utf8_text [0x61, 0xE9, 0x20AC])) =
    Inr (utf8_text [0x61, 0xE9, 0x20AC])"
  by (rule percent_round_trip) (simp_all add: proper_default code_point_def)

text \<open>
  Normalization. A buffer of the size that \<open>estimate_required_capacity\<close> gives is filled exactly;
  the normalized text is normal; and it decodes to what the original decodes to: no escape that is
  part of a symbol of several bytes is taken for a character of its own.
\<close>

lemma normalization_sound:
  assumes "estimate_required_capacity what = Inr n" and "length dest = n"
  shows "\<exists>t. normalize_to what dest = Inr t \<and> length t = n \<and> normalize_to t dest = Inr t \<and>
    (\<forall>r. unescape_percent_encoding what = Inr r \<longrightarrow> unescape_percent_encoding t = Inr r)"
proof -
  have ok: "checker_ok utf8_start False" by (simp add: checker_ok_def)
  obtain ps where ps: "normalization_loop 0 utf8_start False what = Inr ps" "n = length (concat ps)"
    using assms(1) by (auto simp: estimate_required_capacity_def run_normalization_algo_def rbind_eq_Inr length_concat)
  have "normalization_loop 0 utf8_start False (concat ps) = Inr ps" by (rule normalized_again [OF ps(1) ok])
  moreover have "unescape_percent_encoding (concat ps) = Inr r" if "unescape_percent_encoding what = Inr r" for r
    using that normalized_decodes_same [OF ps(1) ok, of 0 "[]" _ 0] by (auto simp: unescape_percent_encoding_def rbind_eq_Inr)
  ultimately show ?thesis using ps assms(2)
    by (intro exI [of _ "concat ps"]) (simp add: normalize_to_def run_normalization_algo_def)
qed

lemma normalization_sound_witness:
  "\<exists>t. normalize_to ''%61%C3%A9'' (replicate 7 CHR ''x'') = Inr t \<and> length t = 7"
proof -
  have "estimate_required_capacity ''%61%C3%A9'' = Inr 7" by code_simp
  from normalization_sound [OF this, of "replicate 7 CHR ''x''"] show ?thesis by auto
qed

end
