(* ===== verification/RioQuery.thy ===== *)
theory RioQuery
  imports RioPercent
begin

text \<open>
  Query strings (\<open>restinio/uri_helpers.hpp\<close>): the parameters are views of a buffer in which names and
  values are decoded in place, one after the other.
\<close>

section \<open>Parameters\<close>

text \<open>A \<open>string_view_t\<close> of the buffer: its position and its size.\<close>

type_synonym view_t = "nat \<times> nat"

record query_string_params_t =
  m_data_buffer :: string
  m_parameters :: "(view_t \<times> view_t) list"
  m_tag :: "view_t option"

definition view :: "string \<Rightarrow> view_t \<Rightarrow> string" where
  "view buf v = take (snd v) (drop (fst v) buf)"

definition find_parameter :: "string \<Rightarrow> query_string_params_t \<Rightarrow> (view_t \<times> view_t) option" where
  "find_parameter key q = find (\<lambda>p. key = view (m_data_buffer q) (fst p)) (m_parameters q)"

definition has_param :: "string \<Rightarrow> query_string_params_t \<Rightarrow> bool" where
  "has_param key q \<longleftrightarrow> find_parameter key q \<noteq> None"

definition get_param :: "string \<Rightarrow> query_string_params_t \<Rightarrow> string option" where
  "get_param key q = map_option (\<lambda>p. view (m_data_buffer q) (snd p)) (find_parameter key q)"

text \<open>\<open>operator[]\<close>, with the exception that names the key.\<close>

definition param_at :: "query_string_params_t \<Rightarrow> string \<Rightarrow> string + string" where
  "param_at q key = (case find_parameter key q of None \<Rightarrow> Inl key | Some p \<Rightarrow> Inr (view (m_data_buffer q) (snd p)))"

section \<open>Parsing\<close>

text \<open>\<open>find_first_of\<close>: the first position from \<open>pos\<close> on with one of the characters.\<close>

definition find_first_of :: "string \<Rightarrow> string \<Rightarrow> nat \<Rightarrow> nat option" where
  "find_first_of cs s pos =
     (let k = length (takeWhile (\<lambda>c. c \<notin> set cs) (drop pos s)) in if pos + k < length s then Some (pos + k) else None)"

text \<open>The traits of the parsers: the ordinary characters and the separators.\<close>

record parse_traits =
  ordinary_of :: "char \<Rightarrow> bool"
  separators :: string

definition restinio_defaults :: parse_traits where
  "restinio_defaults = \<lparr>ordinary_of = ordinary_char, separators = ''&;''\<rparr>"

definition javascript_compatible :: parse_traits where
  "javascript_compatible = \<lparr>ordinary_of = javascript_compatible_ordinary, separators = ''&;''\<rparr>"

definition x_www_form_urlencoded :: parse_traits where
  "x_www_form_urlencoded = \<lparr>ordinary_of = x_www_form_urlencoded_ordinary, separators = ''&''\<rparr>"

definition relaxed :: parse_traits where
  "relaxed = \<lparr>ordinary_of = relaxed_ordinary, separators = ''&''\<rparr>"

datatype parse_query_failure_t = NoEqualsFrom nat | NotUnescaped pct_failure

text \<open>Decoding in place of \<open>n\<close> characters of the buffer from \<open>pos\<close> on.\<close>

definition unescape_at :: "(char \<Rightarrow> bool) \<Rightarrow> nat \<Rightarrow> nat \<Rightarrow> string \<Rightarrow> (pct_failure + nat) \<times> string" where
  "unescape_at ordinary pos n buf =
     (case try_inplace_unescape_percent_encoding ordinary (take n (drop pos buf)) n of
        (r, part) \<Rightarrow> (r, take pos buf @ part @ drop (pos + length part) buf))"

lemma unescape_at_length [simp]: "pos \<le> length buf \<Longrightarrow> length (snd (unescape_at ordinary pos n buf)) = length buf"
  using inplace_length [of ordinary "take n (drop pos buf)" n] by (simp add: unescape_at_def case_prod_beta)

lemma find_first_of_bound: "find_first_of cs s pos = Some i \<Longrightarrow> pos \<le> i \<and> i < length s"
  by (auto simp: find_first_of_def Let_def split: if_splits)

function parse_query_loop :: "parse_traits \<Rightarrow> nat \<Rightarrow> string \<Rightarrow> (view_t \<times> view_t) list \<Rightarrow>
    parse_query_failure_t + query_string_params_t" where
  "parse_query_loop traits pos buf params =
     (if pos < length buf then
        (case find_first_of ''='' buf pos of
           None \<Rightarrow>
             if pos \<noteq> 0 then Inl (NoEqualsFrom pos)
             else (case unescape_at (ordinary_of traits) pos (length buf - pos) buf of
                     (Inl f, _) \<Rightarrow> Inl (NotUnescaped f)
                   | (Inr k, buf) \<Rightarrow> Inr \<lparr>m_data_buffer = buf, m_parameters = [], m_tag = Some (pos, k)\<rparr>)
         | Some eq_pos \<Rightarrow>
             let eq_pos_next = eq_pos + 1;
                 separator_pos = (case find_first_of (separators traits) buf eq_pos_next of None \<Rightarrow> length buf | Some i \<Rightarrow> i)
             in (case fst (unescape_at (ordinary_of traits) pos (eq_pos - pos) buf) of
                   Inl f \<Rightarrow> Inl (NotUnescaped f)
                 | Inr k \<Rightarrow>
                     let buf1 = snd (unescape_at (ordinary_of traits) pos (eq_pos - pos) buf);
                         r = unescape_at (ordinary_of traits) eq_pos_next (separator_pos - eq_pos_next) buf1
                     in (case fst r of
                           Inl f \<Rightarrow> Inl (NotUnescaped f)
                         | Inr l \<Rightarrow> parse_query_loop traits (separator_pos + 1) (snd r) (params @ [((pos, k), (eq_pos_next, l))]))))
      else Inr \<lparr>m_data_buffer = buf, m_parameters = params, m_tag = None\<rparr>)"
  by pat_completeness auto
termination
proof (relation "measure (\<lambda>(traits, pos, buf, params). length buf - pos)", goal_cases)
  case (2 traits pos buf params eq_pos eq_next sep k buf1 r l)
  note eq = find_first_of_bound [OF 2(2)]
  have "eq_pos + 1 \<le> sep" using 2(3,4) eq by (auto split: option.splits dest: find_first_of_bound)
  then have "length buf - (sep + 1) < length buf - pos" using eq by linarith
  moreover have "length (snd r) = length buf" using 2(3,5-8) eq by simp
  ultimately show ?case by simp
qed simp

declare parse_query_loop.simps [simp del]

definition try_parse_query :: "parse_traits \<Rightarrow> string \<Rightarrow> parse_query_failure_t + query_string_params_t" where
  "try_parse_query traits original_query_string = parse_query_loop traits 0 original_query_string []"

section \<open>Query strings that are built\<close>

fun show_query :: "char \<Rightarrow> (string \<times> string) list \<Rightarrow> string" where
  "show_query sep [] = []"
| "show_query sep [(k, v)] = k @ CHR ''='' # v"
| "show_query sep ((k, v) # p # ps) = k @ CHR ''='' # v @ sep # show_query sep (p # ps)"

lemma find_first_of_skip:
  assumes "set xs \<inter> set cs = {}" and "c \<in> set cs"
  shows "find_first_of cs (don @ xs @ c # ys) (length don) = Some (length don + length xs)"
proof -
  have "takeWhile (\<lambda>c. c \<notin> set cs) (xs @ c # ys) = xs" using assms by (simp add: takeWhile_append disjoint_iff)
  then show ?thesis by (simp add: find_first_of_def)
qed

lemma find_first_of_none:
  assumes "set xs \<inter> set cs = {}"
  shows "find_first_of cs (don @ xs) (length don) = None"
proof -
  have t: "takeWhile (\<lambda>c. c \<notin> set cs) xs = xs" using assms by (simp add: takeWhile_eq_all_conv disjoint_iff)
  have d: "drop (length don) (don @ xs) = xs" by simp
  show ?thesis unfolding find_first_of_def Let_def d t by simp
qed

text \<open>A part of the buffer is decoded in place, whatever surrounds it.\<close>

lemma unescape_part:
  assumes "try_unescape_percent_encoding ordinary s = Inr t"
  obtains s' where "unescape_at ordinary (length don) (length s) (don @ s @ rest) = (Inr (length t), don @ s' @ rest)"
    and "length s' = length s" and "take (length t) s' = t"
proof -
  let ?r = "try_inplace_unescape_percent_encoding ordinary s (length s)"
  have "fst ?r = Inr (length t)" "take (length t) (snd ?r) = t"
    using inplace_decodes(1) [of "length s" s ordinary] assms by simp_all
  then show thesis using that [of "snd ?r"] by (simp add: unescape_at_def case_prod_beta)
qed

text \<open>The pairs that a list of pairs decodes to.\<close>

definition decodes :: "parse_traits \<Rightarrow> string \<times> string \<Rightarrow> string \<times> string \<Rightarrow> bool" where
  "decodes traits p q \<longleftrightarrow>
     try_unescape_percent_encoding (ordinary_of traits) (fst p) = Inr (fst q) \<and> CHR ''='' \<notin> set (fst p) \<and>
     try_unescape_percent_encoding (ordinary_of traits) (snd p) = Inr (snd q) \<and> set (snd p) \<inter> set (separators traits) = {}"

text \<open>The pair at the position, and where the loop goes on.\<close>

lemma parse_pair:
  assumes "decodes traits (k, v) (k', v')" and "tail = [] \<or> (\<exists>c rest. tail = c # rest \<and> c \<in> set (separators traits))"
  obtains b where "length b = length k + 1 + length v"
    and "\<And>params. parse_query_loop traits (length don) (don @ k @ CHR ''='' # v @ tail) params =
      parse_query_loop traits (length don + length b + 1) (don @ b @ tail)
        (params @ [((length don, length k'), (length don + length k + 1, length v'))])"
    and "take (length k') b = k'" and "take (length v') (drop (length k + 1) b) = v'"
proof -
  note dec = assms(1) [unfolded decodes_def fst_conv snd_conv]
  obtain k1 where k1: "unescape_at (ordinary_of traits) (length don) (length k) (don @ k @ CHR ''='' # v @ tail) =
      (Inr (length k'), don @ k1 @ CHR ''='' # v @ tail)" "length k1 = length k" "take (length k') k1 = k'"
    using dec unescape_part [of "ordinary_of traits" k k' don "CHR ''='' # v @ tail"] by blast
  let ?don = "don @ k1 @ [CHR ''='']"
  obtain v1 where v1: "unescape_at (ordinary_of traits) (length ?don) (length v) (?don @ v @ tail) =
      (Inr (length v'), ?don @ v1 @ tail)" "length v1 = length v" "take (length v') v1 = v'"
    using dec unescape_part [of "ordinary_of traits" v v' ?don tail] by blast
  have eq: "find_first_of ''='' (don @ k @ CHR ''='' # v @ tail) (length don) = Some (length don + length k)"
    using dec by (intro find_first_of_skip) auto
  let ?next = "don @ k @ [CHR ''='']"
  have sep: "(case find_first_of (separators traits) (?next @ v @ tail) (length ?next) of None \<Rightarrow> length (?next @ v @ tail) | Some i \<Rightarrow> i) =
      length ?next + length v"
    using assms(2)
  proof (elim disjE exE conjE)
    assume "tail = []"
    then show ?thesis using dec find_first_of_none [of v "separators traits" ?next] by simp
  next
    fix c rest assume "tail = c # rest" "c \<in> set (separators traits)"
    then show ?thesis using dec find_first_of_skip [of v "separators traits" c ?next rest] by simp
  qed
  let ?buf = "don @ k @ CHR ''='' # v @ tail" and ?n = "length don + length k + 1"
  have n: "length ?next = ?n" "length ?don = ?n" "?next @ v @ tail = ?buf" "?don @ v @ tail = don @ k1 @ CHR ''='' # v @ tail"
    "?don @ v1 @ tail = don @ k1 @ CHR ''='' # v1 @ tail" using k1(2) by simp_all
  have d: "length don + length k - length don = length k" "?n + length v - ?n = length v" by simp_all
  have pos: "length don < length ?buf" by simp
  have step: "parse_query_loop traits (length don) ?buf params =
      parse_query_loop traits (?n + length v + 1) (don @ k1 @ CHR ''='' # v1 @ tail)
        (params @ [((length don, length k'), (?n, length v'))])" for params
    by (subst parse_query_loop.simps)
       (simp only: pos if_True eq option.case Let_def sep [unfolded n] d k1(1) v1(1) [unfolded n] fst_conv snd_conv sum.case)
  have k'': "length k' \<le> length k1" using k1(3) by (metis length_take min.cobounded1 min.commute)
  show thesis
  proof (rule that [of "k1 @ CHR ''='' # v1"])
    show "length (k1 @ CHR ''='' # v1) = length k + 1 + length v" using k1(2) v1(2) by simp
    show "take (length k') (k1 @ CHR ''='' # v1) = k'" using k1(3) k'' by simp
    show "take (length v') (drop (length k + 1) (k1 @ CHR ''='' # v1)) = v'" using k1(2) v1(3) by simp
    show "parse_query_loop traits (length don) (don @ k @ CHR ''='' # v @ tail) params =
      parse_query_loop traits (length don + length (k1 @ CHR ''='' # v1) + 1) (don @ (k1 @ CHR ''='' # v1) @ tail)
        (params @ [((length don, length k'), (length don + length k + 1, length v'))])" for params
      using step [of params] k1(2) v1(2) by (simp add: ac_simps)
  qed
qed

lemma take_prefix: "take (length t) s = t \<Longrightarrow> take (length t) (s @ r) = t"
  by (metis append_same_eq length_take min.cobounded2 min_def take_append take_all append_Nil2 diff_is_0_eq take0 take_eq_Nil)

lemma pair_views:
  assumes "take (length k') b = k'" and "take (length v') (drop n b) = v'" and "n \<le> length b"
  shows "view (don @ b @ rest) (length don, length k') = k'" "view (don @ b @ rest) (length don + n, length v') = v'"
  using take_prefix [OF assms(1), of rest] take_prefix [OF assms(2), of rest] assms(3) by (simp_all add: view_def)

definition param_views :: "string \<Rightarrow> (view_t \<times> view_t) list \<Rightarrow> (string \<times> string) list" where
  "param_views buf ps = map (\<lambda>p. (view buf (fst p), view buf (snd p))) ps"

lemma parse_pairs:
  assumes "list_all2 (decodes traits) kvs qs" and "sep \<in> set (separators traits)"
  shows "\<exists>b ps. parse_query_loop traits (length don) (don @ show_query sep kvs) params =
      Inr \<lparr>m_data_buffer = don @ b, m_parameters = params @ ps, m_tag = None\<rparr> \<and> param_views (don @ b) ps = qs"
  using assms(1)
proof (induction arbitrary: don params rule: list_all2_induct)
  case Nil
  show ?case by (intro exI [of _ "[]"]) (simp add: parse_query_loop.simps param_views_def)
next
  case (Cons p kvs q qs)
  obtain k v k' v' where pq: "p = (k, v)" "q = (k', v')" by (cases p; cases q) auto
  let ?tail = "if kvs = [] then [] else sep # show_query sep kvs"
  have shown: "show_query sep (p # kvs) = k @ CHR ''='' # v @ ?tail" by (cases kvs) (simp_all add: pq)
  have "?tail = [] \<or> (\<exists>c rest. ?tail = c # rest \<and> c \<in> set (separators traits))" using assms(2) by simp
  from parse_pair [OF Cons.hyps(1) [unfolded pq] this, of don] obtain b where
    b: "length b = length k + 1 + length v"
      "\<And>params. parse_query_loop traits (length don) (don @ k @ CHR ''='' # v @ ?tail) params =
        parse_query_loop traits (length don + length b + 1) (don @ b @ ?tail)
          (params @ [((length don, length k'), (length don + length k + 1, length v'))])"
      "take (length k') b = k'" "take (length v') (drop (length k + 1) b) = v'" by blast
  let ?v = "((length don, length k'), (length don + length k + 1, length v'))"
  have views: "param_views (don @ b @ rest) [?v] = [q]" for rest
    using pair_views [OF b(3,4), of don rest] b(1) by (simp add: param_views_def pq add.assoc)
  show ?case
  proof (cases "kvs = []")
    case True
    then have "qs = []" using Cons.hyps(2) by simp
    have "parse_query_loop traits (length don + length b + 1) (don @ b @ []) ps = Inr \<lparr>m_data_buffer = don @ b, m_parameters = ps, m_tag = None\<rparr>" for ps
      by (simp add: parse_query_loop.simps)
    with b(2) [of params] shown True \<open>qs = []\<close> views [of "[]"] show ?thesis
      by (intro exI [of _ b] exI [of _ "[?v]"]) simp
  next
    case False
    let ?don = "don @ b @ [sep]"
    from Cons.IH [of ?don "params @ [?v]"] obtain b' ps where
      ih: "parse_query_loop traits (length ?don) (?don @ show_query sep kvs) (params @ [?v]) =
          Inr \<lparr>m_data_buffer = ?don @ b', m_parameters = (params @ [?v]) @ ps, m_tag = None\<rparr>" "param_views (?don @ b') ps = qs"
      by blast
    have "param_views (don @ b @ sep # b') (?v # ps) = q # qs"
      using views [of "sep # b'"] ih(2) by (simp add: param_views_def)
    with b(2) [of params] shown False ih(1) show ?thesis
      by (intro exI [of _ "b @ sep # b'"] exI [of _ "?v # ps"]) simp
  qed
qed

lemma find_parameter_views:
  "get_param key q = map_of (param_views (m_data_buffer q) (m_parameters q)) key"
proof -
  have "map_option (\<lambda>p. view buf (snd p)) (find (\<lambda>p. key = view buf (fst p)) ps) = map_of (param_views buf ps) key" for buf ps
    by (induction ps) (auto simp: param_views_def)
  then show ?thesis by (simp add: get_param_def find_parameter_def)
qed

text \<open>A query that is only a tag.\<close>

lemma tag_parsed:
  assumes "try_unescape_percent_encoding (ordinary_of traits) s = Inr t" and "CHR ''='' \<notin> set s" and "s \<noteq> []"
  shows "\<exists>buf. try_parse_query traits s = Inr \<lparr>m_data_buffer = buf, m_parameters = [], m_tag = Some (0, length t)\<rparr> \<and>
    view buf (0, length t) = t"
proof -
  obtain s' where s': "unescape_at (ordinary_of traits) 0 (length s) s = (Inr (length t), s')" "take (length t) s' = t"
    using unescape_part [OF assms(1), of "[]" "[]"] by auto
  have "find_first_of ''='' s 0 = None" using find_first_of_none [of s "''=''" "[]"] assms(2) by simp
  with s' assms(3) show ?thesis by (simp add: try_parse_query_def parse_query_loop.simps [of traits 0 s] view_def)
qed

text \<open>What follows the last separator must be a pair.\<close>

lemma no_equals:
  assumes "0 < length don" and "CHR ''='' \<notin> set s" and "s \<noteq> []"
  shows "parse_query_loop traits (length don) (don @ s) params = Inl (NoEqualsFrom (length don))"
proof -
  have "find_first_of ''='' (don @ s) (length don) = None" using find_first_of_none [of s "''=''" don] assms(2) by simp
  with assms show ?thesis by (simp add: parse_query_loop.simps [of traits "length don"])
qed

section \<open>Property\<close>

text \<open>
  C28: a query string is parsed as it was built. For every list of pairs of encoded names and values,
  joined by a separator of the traits, the parser succeeds and its views show the decoded names and
  values in order, although every one was decoded in place in the buffer they share; and a
  parameter is found under its name, the first one when names repeat.
\<close>

theorem query_parsed:
  assumes "list_all2 (decodes traits) kvs qs" and "sep \<in> set (separators traits)"
  shows "\<exists>q. try_parse_query traits (show_query sep kvs) = Inr q \<and> m_tag q = None \<and>
    param_views (m_data_buffer q) (m_parameters q) = qs \<and> (\<forall>key. get_param key q = map_of qs key)"
  using parse_pairs [OF assms, of "[]" "[]"] by (auto simp: try_parse_query_def find_parameter_views)

theorem query_parsed_witness:
  "\<exists>q. try_parse_query restinio_defaults ''a=%31&b%20c=2+3'' = Inr q \<and> get_param ''b c'' q = Some ''2 3''"
proof -
  have "list_all2 (decodes restinio_defaults) [(''a'', ''%31''), (''b%20c'', ''2+3'')] [(''a'', ''1''), (''b c'', ''2 3'')]"
    by code_simp
  moreover have "CHR ''&'' \<in> set (separators restinio_defaults)" by (simp add: restinio_defaults_def)
  ultimately have "\<exists>q. try_parse_query restinio_defaults (show_query CHR ''&'' [(''a'', ''%31''), (''b%20c'', ''2+3'')]) = Inr q \<and>
      m_tag q = None \<and> param_views (m_data_buffer q) (m_parameters q) = [(''a'', ''1''), (''b c'', ''2 3'')] \<and>
      (\<forall>key. get_param key q = map_of [(''a'', ''1''), (''b c'', ''2 3'')] key)"
    by (rule query_parsed)
  then show ?thesis by auto
qed

end
