(* ===== verification/Spec2Isabelle.thy ===== *)
theory Spec2Isabelle
  imports HttpStatus HttpClient RpiSystem SrvServer OsTime OsSync OsMsgQueue OsTimer OsThread OsLog OsWin
    WsFrame WsValidator WsSha1 WsBase64
    WsConnection WsClosing WsEnding WsDelivery SrvApp RioServer RioCoordinator RioMessage
    RioHttp RioSession RioReturns RioPercent RioQuery
begin

text \<open>
  Foodgiver feeds a pet and hands out treats. A Raspberry Pi in the feeder
  (\<open>src/RPI/SystemController\<close>) drives a PSoC micro controller over a serial line and asks a
  server (\<open>src/WEBSERVER/serverWorkspace/ServerSrc\<close>) over HTTP whether a treat may be given; the
  server passes the question to the mobile apps of that feeder over WebSocket (the library
  RESTinio) and keeps their answer until the feeder polls for it. The feeder's threads, queues,
  locks and timers come from an operating-system library (\<open>src/inc/OSApiStudent\<close>). This
  development models these C++ sources and proves what they do, function by function and then
  in composition. A definition has the name of the C++ function or type it models unless that
  name is taken.

  \<^bold>\<open>Theories, in the order of the dependencies.\<close>

  \<^item> \<open>FgPrelude\<close>: results with errors (\<open>'e + 'a\<close>), \<open>std::string\<close> operations, \<open>std::stoi\<close>,
    truncating division, and the lemma collections \<open>result_simps\<close> and \<open>str_simps\<close>.
  \<^item> \<open>HttpTypes\<close>, \<open>HttpStatus\<close>, \<open>HttpUri\<close>, \<open>HttpParse\<close>, \<open>HttpEncode\<close>: the data, parsers and
    encoders of \<open>HTTPRequest.hpp\<close>. Every parser takes the remaining bytes and returns its value
    and what is left, or an exception (\<open>http_error\<close>); the locale \<open>response_parser\<close> is their
    shared contract. Round trips: URIs, header fields, status lines, Base64.
  \<^item> \<open>HttpSocket\<close>: the class \<open>Socket\<close>, as ownership of descriptors (constructors, moves,
    destructor) and as input and output with retries on \<open>EINTR\<close> and timeouts.
    \<open>HttpRequest\<close>: the class \<open>Request\<close>; \<open>rstate\<close> has the variables of \<open>Request::send\<close> that
    live across its receive loop. \<open>HttpExchange\<close>, \<open>HttpClient\<close>: what an exchange sends, what it
    returns for each of the three body framings when the header block comes whole in the first
    segment and the body in any, what it returns when it does not, and how long it waits.
  \<^item> \<open>RpiUart\<close>, \<open>RpiPsoc\<close>, \<open>RpiWebComm\<close>, \<open>RpiCommand\<close>, \<open>RpiSystem\<close>: the feeder's classes. C++ arrays
    carry their bounds, so that a write outside is a fault. \<open>RpiSystem\<close> interleaves the timer,
    settings and listener threads with the dispatcher at the message queue.
  \<^item> \<open>SrvRegistry\<close>, \<open>SrvPercent\<close>, \<open>SrvHandler\<close>, \<open>SrvServer\<close>: \<open>FoodgiverServer.cpp\<close> with its
    registry of connected apps (interface \<open>ordered_map\<close>), RESTinio's percent decoding, and the
    routes. The step \<open>srv_step\<close> handles one HTTP request or WebSocket message; \<open>srv_reach\<close> says
    which registries any order of them leads to.
  \<^item> \<open>OsTime\<close>, \<open>OsSync\<close>, \<open>OsMsgQueue\<close>, \<open>OsTimer\<close>, \<open>OsThread\<close>, \<open>OsLog\<close>, \<open>OsWin\<close>: the OS library.
    \<open>OsMsgQueue\<close> interleaves threads at every statement others can observe and refines the
    bounded queue of the locale \<open>bounded_queue\<close>, which \<open>RpiSystem\<close> and \<open>OsTimer\<close> use.
  \<^item> \<open>WsBits\<close>, \<open>WsFrame\<close>, \<open>WsValidator\<close>, \<open>WsSha1\<close>, \<open>WsBase64\<close>: RESTinio's WebSocket frames
    (\<open>ws_parser.hpp\<close>, \<open>message.hpp\<close>), protocol validator, SHA-1, Base64 and the accept value of
    the handshake (\<open>websocket.hpp\<close>).
  \<^item> \<open>WsConnection\<close>: \<open>ws_connection.hpp\<close> with \<open>write_group_output_ctx.hpp\<close>, \<open>fixed_buffer.hpp\<close> and
    the handle \<open>ws_t\<close>. The record \<open>ws_connection_t\<close> has the members of the C++ class and what it
    asked of the socket; one event runs one asio callback to its end, as the strand does.
    \<open>WsClosing\<close>: invariants of output and input over every order of events. \<open>WsEnding\<close>: who is
    told of the end, how often, and when nothing is read any more. \<open>WsDelivery\<close>: frames cut into
    any reads reach the handler as messages.
  \<^item> \<open>SrvApp\<close>: the callback of \<open>onWebsocketConnect\<close> as the application of a connection, and what
    the handlers send as output of the connections.
  \<^item> \<open>RioFields\<close>, \<open>RioResponse\<close>, \<open>RioServer\<close>: header fields and request targets
    (\<open>http_headers.hpp\<close>), the response builder (\<open>message_builders.hpp\<close>, \<open>header_helpers.hpp\<close>), and
    the bytes of the server's replies with it, which the feeder's client reads back.
  \<^item> \<open>RioCoordinator\<close>: \<open>response_coordinator.hpp\<close>, the ring of responses not yet written.
    \<open>RioMessage\<close>: \<open>parser_callbacks.ipp\<close>, the assembly of a request from the callbacks of the parser.
  \<^item> \<open>RioHttp\<close>: \<open>connection.hpp\<close>. The record \<open>http_connection_t\<close> has the members of \<open>connection_t\<close>;
    its functions call each other, so they are definitions over \<open>call\<close>, tied together by
    \<open>http_run\<close>. \<open>http_reach\<close> says which states any order of events leads to; the locale
    \<open>http_invariant\<close> reduces an invariant of them to the elementary steps. \<open>RioSession\<close>: sessions
    with the default of one slot, answered when the client waits, and what is lost when not.
    \<open>RioReturns\<close>: every callback of the connection ends, by a return or by a failed \<open>assert\<close>.
  \<^item> \<open>RioPercent\<close>, \<open>RioQuery\<close>: the rest of \<open>percent_encoding.hpp\<close> (encoding, decoding in place,
    normalization) and the query strings of \<open>uri_helpers.hpp\<close>, whose parser decodes in place the
    buffer its results are views of.
  \<^item> This theory: the components together. From the bytes an app sends on its WebSocket to the
    bytes on the feeder's serial line.

  \<^bold>\<open>Bounds.\<close> Machine integers have their C++ width: \<open>signed long\<close> 32 bits (the feeder and
  Windows), \<open>size_t\<close> and RESTinio's connection numbers 64 bits, bytes are \<open>char\<close> or \<open>8 word\<close>.
  The read buffer of a WebSocket header has 14 bytes and a write gathers at most 64 buffers, as
  in the source. Loops are structural or have a measure. Where a loop can run for ever its
  model has fuel: the pass of the timer thread is given more than the number of armed entries,
  which is proved enough for timers armed once and queues that do not stay full
  (\<open>due_timers_fire\<close>), while \<open>rearmed_timer_livelock\<close> and \<open>full_queue_blocks\<close> hold for every fuel; the receive and send loops of the client are
  bounded by the results the system has left to give and return \<open>None\<close> when those end, and
  \<open>request_exchange\<close> proves that they return. The web listener makes at most seven attempts. The
  functions of the HTTP connection call each other without a bound in the code; \<open>http_run\<close> has one
  unit of fuel for a call, \<open>OutOfFuel\<close> is no result, \<open>connection_returns\<close> proves that every callback
  ends with enough fuel when no group of a response is empty, and \<open>RioSession\<close> states for
  which fuel. \<open>Aborts\<close> is a result: an \<open>assert\<close> that fails ends the process, as the Makefile does not
  define \<open>NDEBUG\<close>. Request numbers have 32 bits.

  \<^bold>\<open>Parameters.\<close> What is not in the repository's C++ is an argument: results of system calls
  (sockets, the serial device, inotify, threads), what clocks show, the lengths of sleeps,
  \<open>strftime\<close>, and the order in which threads and asio callbacks run. The connection takes its
  message handler and the content \<open>std::string::resize\<close> leaves, and its clock is constant within
  one callback. The HTTP connection takes the C parser, as a function from data to the callbacks
  it makes (and whether the memory for an announced body can be reserved), the handler of requests,
  and the time limits; \<open>connection_returns\<close> relies on the parser to consume a byte of the first data
  of a request or to fail, as \<open>http_parser.c\<close> does. The timer thread takes what the other threads do
  with a message queue while it waits to send to it.

  \<^bold>\<open>Not modelled.\<close> The entry points only construct the objects; the button driver (a kernel
  module), the micro controller's and PC programs and the mobile app are not C++ of this core
  and appear as the bytes and messages they send. Of the vendored libraries only what the
  server runs for its own protocol is modelled: RESTinio's settings, acceptor, timers, TLS,
  \<open>sendfile\<close>, write notificators, response builders for user controlled and chunked output and its
  general route compiler, and asio, the C parser of HTTP, fmt, json_dto and rapidjson are left
  out. \<open>WebComm::postNotification\<close> has an empty body in the source.

  \<^bold>\<open>Findings.\<close> Some theorems state what the code does where that is not what it means to do:
  the answer of the app is inverted (\<open>treat_round_trip\<close>) and the missing answer counts as one
  (\<open>treat_without_reply\<close>), a header block in two segments gives an empty response
  (\<open>cut_header_block\<close>), amounts of four characters overflow (\<open>feed_command\<close>), a re-armed timer
  hangs its thread (\<open>rearmed_timer_livelock\<close>), as does a full queue (\<open>full_queue_blocks\<close>), SHA-1 is wrong for messages of 56 bytes modulo 64
  (\<open>make_digest_sha1\<close>), a ping inside a symbol breaks a text (\<open>ping_inside_symbol\<close>), a
  truncated text stalls a connection (\<open>truncated_text_stalls\<close>), an answer in several frames is
  lost (\<open>fragmented_answer_lost\<close>), an HTTP connection loses pipelined requests and the beginning of
  one that follows too closely (\<open>pipelined_requests_lost\<close>, \<open>request_beginning_lost\<close>), answers a
  declined upgrade again and again (\<open>upgrade_answered_again\<close>) and can be made to abort the server
  (\<open>refusal_ends_process\<close>), and the handler of a WebSocket
  request always ends with an exception after it has registered the app (\<open>onWebsocketConnect\<close>).
\<close>

section \<open>The feeder and the server\<close>

lemma feeder_path: "path (target feeder_request) = ''/req_treat/'' @ show_nat 420"
proof -
  have "show_nat 420 = ''420''" by code_simp
  then show ?thesis by (simp add: feeder_request_def)
qed

text \<open>The request of the feeder, as it goes over the network.\<close>

definition feeder_get :: string where
  "feeder_get = ''GET /req_treat/420 HTTP/1.1'' @ crlf @ ''Host: foodgiver.hopto.org'' @ crlf @
     ''Content-Length: 0'' @ crlf @ crlf"

lemma feeder_get_encoded: "encodeHtml (target feeder_request) ''GET'' [] [] = Inr feeder_get"
  by code_simp

text \<open>
  The server's response on its way: \<open>n\<close> is the network of the feeder's attempt. The system
  reaches the server and takes the request in calls of sizes \<open>ks\<close>; what comes back are the bytes
  RESTinio writes for the answer, in any segments of which the first has the header block whole.
\<close>

definition delivers :: "host_env \<Rightarrow> net \<Rightarrow> http_reply \<Rightarrow> bool" where
  "delivers env n answer \<longleftrightarrow> (\<exists>ks segs i keep.
     reachable env feeder_request n ks segs \<and> length feeder_get \<le> sum_list ks \<and>
     concat segs = text_of (reply_bytes i keep answer) \<and> length (reply_head keep answer) \<le> length (hd segs))"

lemma delivered_answer:
  assumes "wf_reply answer" and "delivers env n answer"
  shows "getRequestAnswer env n = Some (http_body answer @ [LF])"
proof -
  from assms(2) obtain ks segs i keep where r: "reachable env feeder_request n ks segs"
    "length feeder_get \<le> sum_list ks" "concat segs = text_of (reply_bytes i keep answer)"
    "length (reply_head keep answer) \<le> length (hd segs)"
    unfolding delivers_def by metis
  have "[] \<notin> set segs" using r(1) by (auto simp: reachable_def segment_def list_all_iff)
  from reply_segments [OF assms(1) r(3,4) this] obtain u where
    u: "feedAll init_rstate segs = Inr (True, u)" "body (resp u) = http_body answer"
    by (auto simp: framed_def)
  from Request_send_returns [OF r(1) feeder_get_encoded r(2) u(1)] obtain m where
    "Request_send env feeder_request ''GET'' [] [] (-1) n = Some (Inr (resp u, m))" by blast
  then show ?thesis using u(2) by (simp add: getRequestAnswer_eq)
qed

lemma reply_texts:
  "REPLY_ALLOW @ [LF] \<noteq> UNDEF" "REPLY_DENY @ [LF] \<noteq> UNDEF" "REPLY_UNDEF @ [LF] \<noteq> UNDEF"
  "\<not> prefix [CHR 0x01] (REPLY_ALLOW @ [LF])" "\<not> prefix [CHR 0x01] (REPLY_DENY @ [LF])"
  "\<not> prefix [CHR 0x01] (REPLY_UNDEF @ [LF])"
  "prefix ''allow'' (REPLY_ALLOW @ [LF])" "\<not> prefix ''allow'' (REPLY_DENY @ [LF])"
  "\<not> prefix ''allow'' (REPLY_UNDEF @ [LF])"
  by (simp_all add: REPLY_ALLOW_def REPLY_DENY_def REPLY_UNDEF_def UNDEF_def)

text \<open>What the feeder makes of the reply of the app that answers for it.\<close>

lemma feeder_transmits:
  assumes "srv_reach reg" and "first_for 420 k reg" and "reg_find k reg = Some v"
    and "http_request date up c M_GET (path (target feeder_request)) reg = (Answer answer, reg', out)"
    and "trimmed date" and "delivers env (nets 0) answer"
    and "takes_all put" and "uart0_filestream (line_of ctl) \<noteq> -1"
    and "0 \<le> web_id (web_of ctl)" and "web_id (web_of ctl) < 2147483647"
  shows "\<exists>es ctl'. webListener_run (\<lambda>j. getRequestAnswer env (nets j)) (web_id (web_of ctl) + 1) = Some es \<and>
    commands put (messages es) (getTreatRequestAnswer ctl) = Inr ctl' \<and>
    wire (line_of ctl') = wire (line_of ctl) @ (if reply v = REPLY_ALLOW then ''STDE'' else ''STAE'')"
proof -
  have inv: "srv_inv reg" using assms(1) by (rule srv_reach_inv)
  then have ok: "reg_ok reg" by (simp add: srv_inv_def)
  have r: "reply v \<in> {REPLY_UNDEF, REPLY_ALLOW, REPLY_DENY}" using inv assms(3) by (auto simp: srv_inv_def)
  have "dev_id_param (show_nat 420) = Some (int 420)" by (rule dev_id_param_decimal) simp
  then have "onGetReqTreat date (show_nat 420) reg =
      (set_body (reply v) (init_resp date create_response), reg_assign k (v\<lparr>reply := REPLY_UNDEF\<rparr>) reg)"
    using get_first [OF ok assms(2,3)] by simp
  then have e: "answer = set_body (reply v) (init_resp date create_response)"
    using assms(4) get_number [of 420 date up c reg] by (auto simp: feeder_path)
  have "length (reply v) < 2 ^ 63" using r by (auto simp: REPLY_UNDEF_def REPLY_ALLOW_def REPLY_DENY_def)
  then have "wf_reply answer" unfolding e by (rule wf_treat_reply [OF assms(5)])
  then have a: "getRequestAnswer env (nets 0) = Some (reply v @ [LF])"
    using delivered_answer [OF _ assms(6)] by (simp add: e set_body_def)
  have "reply v @ [LF] \<noteq> UNDEF" "\<not> prefix [CHR 0x01] (reply v @ [LF])"
    "prefix ''allow'' (reply v @ [LF]) \<longleftrightarrow> reply v = REPLY_ALLOW"
    using r reply_texts by (auto simp: REPLY_ALLOW_def REPLY_DENY_def REPLY_UNDEF_def)
  with listener_transmits [OF assms(7-10), of "\<lambda>j. getRequestAnswer env (nets j)" "reply v @ [LF]"] a
  show ?thesis by auto
qed

subsection \<open>A sample of it\<close>

text \<open>A treat reply of the server at a date, and a network that delivers it in one segment.\<close>

definition sample_reply :: "string \<Rightarrow> http_reply" where
  "sample_reply text = set_body text (init_resp ''Thu, 06 May 2021 12:00:00 GMT'' create_response)"

definition feeder_net :: "string \<Rightarrow> net" where
  "feeder_net text = demo_net\<lparr>sends := [Ret 200], recvs := [Ret (text_of (reply_bytes 0 True (sample_reply text)))]\<rparr>"

lemma sample_date: "trimmed ''Thu, 06 May 2021 12:00:00 GMT''"
  by (simp add: trimmed_def char_class_defs dec_digit_def)

lemma feeder_net_delivers:
  assumes "text \<in> {''deny'', ''no reply yet''}"
  shows "delivers demo_env (feeder_net text) (sample_reply text)"
proof -
  let ?s = "text_of (reply_bytes 0 True (sample_reply text))"
  have st: "http_status (sample_reply text) \<in> {200, 400, 405}"
    by (simp add: sample_reply_def set_body_def init_resp_def append_headers_def create_response_def)
  have s: "?s = reply_head True (sample_reply text) @ text"
    by (simp add: reply_bytes_eq [OF st] text_of_append) (simp add: sample_reply_def set_body_def)
  have "length (reply_head True (sample_reply ''deny'')) \<le> 200"
    "length (reply_head True (sample_reply ''no reply yet'')) \<le> 200" by code_simp+
  then have "length ?s \<le> 212" using assms s by auto
  moreover have "?s \<noteq> []" by (simp add: s reply_head_def)
  ultimately have seg: "segment ?s" by (simp add: segment_def)
  have "reachable demo_env feeder_request (feeder_net text) [200] [?s]"
    using seg by (simp add: reachable_def demo_env_def feeder_net_def demo_net_def feeder_request_def HttpClient.ready_def)
  moreover have "length feeder_get \<le> sum_list [200]" by code_simp
  ultimately show ?thesis
    unfolding delivers_def
    by (intro exI [of _ "[200]"] exI [of _ "[?s]"] exI [of _ 0] exI [of _ True]) (simp add: s)
qed

definition app_420 :: registry_t where
  "app_420 = [(1, \<lparr>fg_id = 420, ws_handle = 1, reply = REPLY_UNDEF\<rparr>)]"

lemma app_420_reach: "srv_reach app_420"
proof -
  let ?d = "\<lparr>fg_id = -1, ws_handle = 1, reply = REPLY_UNDEF\<rparr>" and ?m = "auth_message 420"
  let ?r = "[(1 :: conn, ?d)]"
  have r: "srv_reach ?r"
    by (rule srv_event [OF srv_start, of "Connect (conn_upgrade (Some key)) 1"]) (simp add: onWebsocketConnect_def)
  have "reg_find 1 ?r = Some ?d" by (simp add: reg_find_def)
  then have "srv_step (Frame 1 text_frame ?m) ?r = Inr (reg_assign 1 (?d\<lparr>fg_id := int 420\<rparr>) ?r)"
    by (rule auth_step) simp
  moreover have "reg_assign 1 (?d\<lparr>fg_id := int 420\<rparr>) ?r = app_420"
    by (simp add: reg_assign_def app_420_def)
  ultimately have "srv_step (Frame 1 text_frame ?m) ?r = Inr app_420" by (simp only:)
  with r show ?thesis by (rule srv_event)
qed

lemma app_420_first: "first_for 420 1 app_420" "reg_find 1 app_420 = Some \<lparr>fg_id = 420, ws_handle = 1, reply = REPLY_UNDEF\<rparr>"
  by (auto simp: first_for_def app_420_def reg_find_def split: if_splits)

lemma line_up_facts:
  "takes_all (\<lambda>s. int (length s))" "uart0_filestream (line_of line_up) \<noteq> -1"
  "web_id (web_of line_up) = 0" "wire (line_of line_up) = []"
  by (simp_all add: takes_all_def line_up_def psoc_start_def initializeUART_def controller_start_def
      webcomm_start_def uart_start_def)

section \<open>Properties that span the components\<close>

text \<open>
  C1: a treat request from end to end. The bytes in which the mobile app that answers for the
  feeder says yes or no arrive at its WebSocket connection in reads of any sizes; the app is sent
  the acknowledgement. When the server's next response reaches the feeder as an HTTP message, its
  header block whole in the first segment and the rest in any segments (\<open>delivers\<close>), the feeder's listener and controller transmit one frame to the micro controller: \<open>STDE\<close> (treat
  denied) for a yes and \<open>STAE\<close> (treat allowed) for a no. The answer is inverted on its way.
\<close>

theorem treat_round_trip:
  assumes "srv_reach reg" and "first_for 420 k reg" and "n < 100000"
    and "\<And>n. resize_succeeds wenv n" and "awaits_message ws"
    and "concat (map data_of evs) = stream (answer_frame ok n key)" and "list_all quiet_event evs"
    and "all_enabled (app_env k reg (length (handler_calls ws)) wenv) evs ws"
    and "ws1 = on_events (app_env k reg (length (handler_calls ws)) wenv) evs ws"
    and "reg1 = registry_after k (drop (length (handler_calls ws)) (handler_calls ws1)) reg"
    and "http_request date up c M_GET (path (target feeder_request)) reg1 = (Answer answer, reg2, out)"
    and "trimmed date" and "delivers env (nets 0) answer"
    and "takes_all put" and "uart0_filestream (line_of ctl) \<noteq> -1"
    and "0 \<le> web_id (web_of ctl)" and "web_id (web_of ctl) < 2147483647"
  shows "sent ws1 = sent ws @ [text_group (acknowledgement ok)] \<and>
    (\<exists>es ctl'. webListener_run (\<lambda>j. getRequestAnswer env (nets j)) (web_id (web_of ctl) + 1) = Some es \<and>
      commands put (messages es) (getTreatRequestAnswer ctl) = Inr ctl' \<and>
      wire (line_of ctl') = wire (line_of ctl) @ (if ok then ''STDE'' else ''STAE''))"
proof -
  have rok: "reg_ok reg" using srv_reach_inv [OF assms(1)] by (simp add: srv_inv_def)
  obtain v where v: "reg_find k reg = Some v" using assms(2) by (auto simp: first_for_def)
  let ?w = "v\<lparr>reply := (if ok then REPLY_ALLOW else REPLY_DENY)\<rparr>"
  note arrives = answer_arrives [OF assms(4) v assms(3,5-9), folded assms(10)]
  have "srv_step (Frame k text_frame (answer_message ok n)) reg = Inr reg1"
    using handle_answer_reply [OF v assms(3), of ok] arrives(1) by (simp add: onWsFrame_def)
  with assms(1) have "srv_reach reg1" by (rule srv_event)
  moreover have "first_for 420 k reg1" unfolding arrives(1) by (rule first_for_assign [OF rok assms(2) v]) simp
  moreover have "reg_find k reg1 = Some ?w" unfolding arrives(1) using reg.find_assign [OF rok] v by simp
  moreover have "reply ?w = REPLY_ALLOW \<longleftrightarrow> ok" by (simp add: REPLY_ALLOW_def REPLY_DENY_def)
  ultimately show ?thesis
    using feeder_transmits [where nets = nets and k = k and v = ?w, OF _ _ _ assms(11-17)] arrives(2)
    by (simp add: text_group_def)
qed

text \<open>A no for the sample feeder, in two reads with a write that ends in between.\<close>

definition no_in_reads :: "connection_event list" where
  "no_in_reads = (let bytes = stream (answer_frame False 420 0x37FA213D)
     in [HeaderRead (take 14 bytes), WriteDone, PayloadRead (drop 14 bytes)])"

lemma no_in_reads_facts:
  "concat (map data_of no_in_reads) = stream (answer_frame False 420 0x37FA213D)" "list_all quiet_event no_in_reads"
  "handler_calls sample_connection = []" "all_enabled (app_env 1 app_420 0 quiet_env) no_in_reads sample_connection"
  by (simp add: no_in_reads_def Let_def, simp add: no_in_reads_def Let_def, code_simp, code_simp)

theorem treat_round_trip_witness:
  "\<exists>es ctl'. webListener_run (\<lambda>_. getRequestAnswer demo_env (feeder_net ''deny'')) 1 = Some es \<and>
    commands (\<lambda>s. int (length s)) (messages es) (getTreatRequestAnswer line_up) = Inr ctl' \<and>
    wire (line_of ctl') = ''STAE'' \<and>
    sent (on_events (app_env 1 app_420 0 quiet_env) no_in_reads sample_connection) =
      sent sample_connection @ [text_group (acknowledgement False)]"
proof -
  have ok: "reg_ok app_420" using srv_reach_inv [OF app_420_reach] by (simp add: srv_inv_def)
  let ?w = "\<lparr>fg_id = 420, ws_handle = 1, reply = REPLY_DENY\<rparr>"
  let ?ws1 = "on_events (app_env 1 app_420 (length (handler_calls sample_connection)) quiet_env) no_in_reads sample_connection"
  define reg1 where "reg1 = registry_after 1 (drop (length (handler_calls sample_connection)) (handler_calls ?ws1)) app_420"
  have resize: "resize_succeeds quiet_env n" for n by (simp add: quiet_env_def)
  have e: "all_enabled (app_env 1 app_420 (length (handler_calls sample_connection)) quiet_env) no_in_reads sample_connection"
    using no_in_reads_facts(3,4) by simp
  have reg1: "reg1 = reg_assign 1 ?w app_420"
    using answer_arrives(1) [OF resize app_420_first(2) _ sample_awaits no_in_reads_facts(1,2) e refl]
    by (simp add: reg1_def)
  have "reg_ok reg1" unfolding reg1 by (rule reg.ok_assign [OF ok])
  moreover have "first_for 420 1 reg1" unfolding reg1 by (rule first_for_assign [OF ok app_420_first]) simp
  moreover have "reg_find 1 reg1 = Some ?w" unfolding reg1 using reg.find_assign [OF ok] app_420_first(2) by simp
  moreover have "dev_id_param (show_nat 420) = Some 420" using dev_id_param_decimal [of 420] by simp
  ultimately obtain reg2 where
    g: "onGetReqTreat ''Thu, 06 May 2021 12:00:00 GMT'' (show_nat 420) reg1 = (sample_reply ''deny'', reg2)"
    unfolding sample_reply_def by (fastforce simp: REPLY_DENY_def dest: get_first)
  have q: "http_request ''Thu, 06 May 2021 12:00:00 GMT'' conn_other 0 M_GET (path (target feeder_request)) reg1 =
      (Answer (sample_reply ''deny''), reg2, [])"
    using g get_number [of 420 "''Thu, 06 May 2021 12:00:00 GMT''" conn_other 0 reg1] by (simp add: feeder_path)
  have "delivers demo_env (feeder_net ''deny'') (sample_reply ''deny'')" by (rule feeder_net_delivers) simp
  from treat_round_trip [where nets = "\<lambda>_. feeder_net ''deny''", OF app_420_reach app_420_first(1) _ resize sample_awaits
      no_in_reads_facts(1,2) e refl reg1_def q sample_date this line_up_facts(1,2)] line_up_facts(3,4) no_in_reads_facts(3)
  show ?thesis by auto
qed

text \<open>
  C39: a treat request that nobody answers. As long as the app has not answered, the server says
  \<open>no reply yet\<close>, and the feeder takes this for an answer: its first attempt ends the wait, and
  the micro controller is sent \<open>STAE\<close>, the frame for an allowed treat.
\<close>

theorem treat_without_reply:
  assumes "srv_reach reg" and "first_for 420 k reg" and "reg_find k reg = Some v" and "reply v = REPLY_UNDEF"
    and "http_request date up c M_GET (path (target feeder_request)) reg = (Answer answer, reg2, out)"
    and "trimmed date" and "delivers env (nets 0) answer"
    and "takes_all put" and "uart0_filestream (line_of ctl) \<noteq> -1"
    and "0 \<le> web_id (web_of ctl)" and "web_id (web_of ctl) < 2147483647"
  shows "\<exists>es ctl'. webListener_run (\<lambda>j. getRequestAnswer env (nets j)) (web_id (web_of ctl) + 1) = Some es \<and>
    commands put (messages es) (getTreatRequestAnswer ctl) = Inr ctl' \<and>
    wire (line_of ctl') = wire (line_of ctl) @ ''STAE''"
proof -
  have "reply v \<noteq> REPLY_ALLOW" using assms(4) by (simp add: REPLY_UNDEF_def REPLY_ALLOW_def)
  then show ?thesis using feeder_transmits [where nets = nets, OF assms(1-3,5-11)] by simp
qed

theorem treat_without_reply_witness:
  "\<exists>es ctl'. webListener_run (\<lambda>_. getRequestAnswer demo_env (feeder_net ''no reply yet'')) 1 = Some es \<and>
    commands (\<lambda>s. int (length s)) (messages es) (getTreatRequestAnswer line_up) = Inr ctl' \<and>
    wire (line_of ctl') = ''STAE''"
proof -
  have ok: "reg_ok app_420" using srv_reach_inv [OF app_420_reach] by (simp add: srv_inv_def)
  have "dev_id_param (show_nat 420) = Some (int 420)" by (rule dev_id_param_decimal) simp
  then obtain reg2 where "onGetReqTreat ''Thu, 06 May 2021 12:00:00 GMT'' (show_nat 420) app_420 = (sample_reply ''no reply yet'', reg2)"
    using get_first [OF ok app_420_first] by (simp add: sample_reply_def REPLY_UNDEF_def)
  then have q: "http_request ''Thu, 06 May 2021 12:00:00 GMT'' conn_other 0 M_GET (path (target feeder_request)) app_420 =
      (Answer (sample_reply ''no reply yet''), reg2, [])"
    using get_number [of 420 "''Thu, 06 May 2021 12:00:00 GMT''" conn_other 0 app_420] by (simp add: feeder_path)
  have "delivers demo_env (feeder_net ''no reply yet'') (sample_reply ''no reply yet'')" by (rule feeder_net_delivers) simp
  from treat_without_reply [where nets = "\<lambda>_. feeder_net ''no reply yet''", OF app_420_reach app_420_first _ q sample_date this
      line_up_facts(1,2)] line_up_facts(3,4)
  show ?thesis by auto
qed

end
